(* ===== verification/Prelude.thy ===== *)
theory Prelude
  imports Main "HOL-Library.Word" "HOL-Library.Multiset" "HOL-Library.Monad_Syntax"
begin

text \<open>
  Shared vocabulary of the development: the names of the machine types of the
  Go source, the 64-bit wrap-around of Go's \<open>int\<close>, the convention for
  panics, and the generic list lemmas several components use.

  A Go function that can panic (an index out of range, an explicit
  \<open>panic\<close>) is a function into \<open>'a option\<close>: \<open>None\<close> is the
  panic and \<open>Some\<close> a normal return, so that \<open>\<bind>\<close> propagates a panic
  the way the run-time does. A Go function that returns an \<open>error\<close> is a
  function into a sum whose left side is the error.
\<close>

unbundle bit_operations_syntax

section \<open>Machine types\<close>

type_synonym byte = "8 word"
type_synonym u32 = "32 word"
type_synonym u64 = "64 word"

text \<open>
  Go's \<open>int\<close> and \<open>int64\<close> are 64-bit two's complement. A value of such a
  type is an HOL \<open>int\<close>; arithmetic that can leave the 64-bit range goes
  through \<open>to_int64\<close>, which is the wrap-around the machine performs.
\<close>

definition to_int64 :: "int \<Rightarrow> int" where
  "to_int64 x = sint (word_of_int x :: u64)"

definition fits_int :: "int \<Rightarrow> bool" where
  "fits_int x \<longleftrightarrow> - (2 ^ 63) \<le> x \<and> x < 2 ^ 63"

named_theorems go_int \<open>facts that evaluate 64-bit integer arithmetic in range\<close>

lemma to_int64_fits [go_int, simp]: "fits_int x \<Longrightarrow> to_int64 x = x"
  unfolding to_int64_def fits_int_def
  by (simp add: signed_of_int signed_take_bit_int_eq_self)

lemma to_int64_range: "fits_int (to_int64 x)"
  using sint_range_size [of "word_of_int x :: u64"]
  by (simp add: to_int64_def fits_int_def word_size)

lemma fits_int_nonneg: "0 \<le> x \<Longrightarrow> x < 2 ^ 63 \<Longrightarrow> fits_int x"
  by (simp add: fits_int_def)

lemma sint_of_small_nat: "0 \<le> x \<Longrightarrow> x < 2 ^ 63 \<Longrightarrow> uint (word_of_int x :: u64) = x"
  by (simp add: uint_word_of_int)

section \<open>Lists\<close>

text \<open>The effect of exchanging two elements of a slice.\<close>

definition swap_at :: "nat \<Rightarrow> nat \<Rightarrow> 'a list \<Rightarrow> 'a list" where
  "swap_at i j xs = xs[i := xs ! j, j := xs ! i]"

lemma length_swap_at [simp]: "length (swap_at i j xs) = length xs"
  by (simp add: swap_at_def)

lemma swap_at_same [simp]: "swap_at i i xs = xs"
  by (simp add: swap_at_def)

lemma mset_swap_at [simp]:
  "i < length xs \<Longrightarrow> j < length xs \<Longrightarrow> mset (swap_at i j xs) = mset xs"
  unfolding swap_at_def by (rule mset_swap)

lemma nth_swap_at:
  "i < length xs \<Longrightarrow> j < length xs \<Longrightarrow> k < length xs \<Longrightarrow>
   swap_at i j xs ! k = (if k = i then xs ! j else if k = j then xs ! i else xs ! k)"
  by (auto simp: swap_at_def nth_list_update)

lemma distinct_swap_at [simp]:
  "i < length xs \<Longrightarrow> j < length xs \<Longrightarrow> distinct (swap_at i j xs) = distinct xs"
  by (metis mset_swap_at mset_eq_imp_distinct_iff)

text \<open>Inserting an element, and a run of elements, at a position of a slice.\<close>

definition insert_at :: "nat \<Rightarrow> 'a list \<Rightarrow> 'a list \<Rightarrow> 'a list" where
  "insert_at i ys xs = take i xs @ ys @ drop i xs"

lemma length_insert_at [simp]:
  "i \<le> length xs \<Longrightarrow> length (insert_at i ys xs) = length xs + length ys"
  by (simp add: insert_at_def)

lemma set_insert_at: "set (insert_at i ys xs) = set xs \<union> set ys"
  unfolding insert_at_def
  by (metis append_take_drop_id set_append sup.assoc sup.commute)

section \<open>Error values\<close>

text \<open>Sequencing of functions that return an error or a value.\<close>

fun and_then :: "'e + 'a \<Rightarrow> ('a \<Rightarrow> 'e + 'b) \<Rightarrow> 'e + 'b" where
  "and_then (Inl e) f = Inl e"
| "and_then (Inr x) f = f x"

lemma and_then_Inr: "and_then x f = Inr y \<longleftrightarrow> (\<exists>v. x = Inr v \<and> f v = Inr y)"
  by (cases x) auto

section \<open>Slices\<close>

text \<open>\<open>xs[a:b]\<close> of Go, for \<open>a \<le> b \<le> length xs\<close>.\<close>

definition window :: "nat \<Rightarrow> nat \<Rightarrow> 'a list \<Rightarrow> 'a list" where
  "window a b xs = take (b - a) (drop a xs)"

text \<open>Overwriting the elements from a position on.\<close>

definition overwrite :: "nat \<Rightarrow> 'a list \<Rightarrow> 'a list \<Rightarrow> 'a list" where
  "overwrite a ys xs = take a xs @ ys @ drop (a + length ys) xs"

lemma length_overwrite [simp]: "a + length ys \<le> length xs \<Longrightarrow> length (overwrite a ys xs) = length xs"
  by (simp add: overwrite_def)

lemma length_copy [simp]: "a \<le> length xs \<Longrightarrow> length (overwrite a (take (length xs - a) ys) xs) = length xs"
  by (simp add: overwrite_def)

lemma length_window [simp]: "b \<le> length xs \<Longrightarrow> length (window a b xs) = b - a"
  by (simp add: window_def)

lemma nth_window: "i < b - a \<Longrightarrow> b \<le> length xs \<Longrightarrow> window a b xs ! i = xs ! (a + i)"
  by (simp add: window_def)

lemma nth_overwrite:
  "a + length ys \<le> length xs \<Longrightarrow> i < length xs \<Longrightarrow>
   overwrite a ys xs ! i = (if a \<le> i \<and> i < a + length ys then ys ! (i - a) else xs ! i)"
  by (auto simp: overwrite_def nth_append min_def)

lemma window_overwrite_same [simp]:
  "a + length ys \<le> length xs \<Longrightarrow> window a (a + length ys) (overwrite a ys xs) = ys"
  by (simp add: window_def overwrite_def)

lemma window_overwrite_disjoint:
  assumes "a + length ys \<le> length xs" and "c \<le> length xs" and "c \<le> a \<or> a + length ys \<le> b"
  shows "window b c (overwrite a ys xs) = window b c xs"
  using assms by (intro nth_equalityI) (auto simp: nth_window nth_overwrite)

lemma overwrite_overwrite:
  "length ys = length zs \<Longrightarrow> a + length ys \<le> length xs \<Longrightarrow>
   overwrite a ys (overwrite a zs xs) = overwrite a ys xs"
  by (intro nth_equalityI) (auto simp: nth_overwrite)

lemma overwrite_same:
  "a + length ys \<le> length xs \<Longrightarrow> window a (a + length ys) xs = ys \<Longrightarrow> overwrite a ys xs = xs"
proof (intro nth_equalityI)
  fix i assume len: "a + length ys \<le> length xs" and ys: "window a (a + length ys) xs = ys"
    and i: "i < length (overwrite a ys xs)"
  then have "ys ! (i - a) = xs ! i" if "a \<le> i" "i < a + length ys"
    using that nth_window [of "i - a" "a + length ys" a xs] by simp
  with len i show "overwrite a ys xs ! i = xs ! i" by (simp add: nth_overwrite)
qed simp

section \<open>Code that can panic\<close>

text \<open>
  \<open>ok m Q\<close>: \<open>m\<close> returns (it does not panic) and its result satisfies \<open>Q\<close>. The rules
  of \<open>wp\<close> walk a \<open>do\<close> block from its first statement, one rule per
  statement.
\<close>

definition ok :: "'a option \<Rightarrow> ('a \<Rightarrow> bool) \<Rightarrow> bool" where
  "ok m Q \<longleftrightarrow> (case m of None \<Rightarrow> False | Some a \<Rightarrow> Q a)"

named_theorems wp \<open>what a statement needs for the rest to succeed\<close>

lemma okI: "m = Some a \<Longrightarrow> Q a \<Longrightarrow> ok m Q"
  by (simp add: ok_def)

lemma okE: "ok m Q \<Longrightarrow> (\<And>a. m = Some a \<Longrightarrow> Q a \<Longrightarrow> R) \<Longrightarrow> R"
  by (auto simp: ok_def split: option.splits)

lemma okD: "ok m Q \<Longrightarrow> m = Some a \<Longrightarrow> Q a"
  by (simp add: ok_def)

lemma ok_not_None: "ok m Q \<Longrightarrow> m \<noteq> None"
  by (cases m) (simp_all add: ok_def)

lemma ok_mono: "ok m P \<Longrightarrow> (\<And>a. P a \<Longrightarrow> Q a) \<Longrightarrow> ok m Q"
  by (auto simp: ok_def split: option.splits)

lemma ok_conj: "ok m P \<Longrightarrow> ok m Q \<Longrightarrow> ok m (\<lambda>a. P a \<and> Q a)"
  by (auto simp: ok_def split: option.splits)

lemma ok_Some [simp]: "ok (Some a) Q \<longleftrightarrow> Q a"
  by (simp add: ok_def)

lemma ok_None [simp]: "\<not> ok None Q"
  by (simp add: ok_def)

lemma ok_bind [wp]: "ok m (\<lambda>a. ok (f a) Q) \<Longrightarrow> ok (m \<bind> f) Q"
  by (cases m) simp_all

lemma ok_SomeI [wp]: "Q a \<Longrightarrow> ok (Some a) Q"
  by simp

lemma ok_if [wp]: "(b \<Longrightarrow> ok m Q) \<Longrightarrow> (\<not> b \<Longrightarrow> ok k Q) \<Longrightarrow> ok (if b then m else k) Q"
  by simp

lemma ok_pair [wp]: "ok (f a b) Q \<Longrightarrow> ok (case (a, b) of (x, y) \<Rightarrow> f x y) Q"
  by simp

lemma ok_prod: "(\<And>a b. x = (a, b) \<Longrightarrow> ok (f a b) Q) \<Longrightarrow> ok (case x of (a, b) \<Rightarrow> f a b) Q"
  by (cases x) simp

text \<open>Indexing, assignment and slicing with Go's bounds checks.\<close>

definition get_at :: "'a list \<Rightarrow> int \<Rightarrow> 'a option" where
  "get_at xs i = (if 0 \<le> i \<and> i < int (length xs) then Some (xs ! nat i) else None)"

definition set_at :: "'a list \<Rightarrow> int \<Rightarrow> 'a \<Rightarrow> 'a list option" where
  "set_at xs i x = (if 0 \<le> i \<and> i < int (length xs) then Some (xs[nat i := x]) else None)"

definition slice_of :: "'a list \<Rightarrow> int \<Rightarrow> int \<Rightarrow> 'a list option" where
  "slice_of xs a b =
     (if 0 \<le> a \<and> a \<le> b \<and> b \<le> int (length xs) then Some (window (nat a) (nat b) xs) else None)"

text \<open>\<open>copy(xs[at:], src)\<close>: as many elements as both sides have.\<close>

definition copy_at :: "'a list \<Rightarrow> int \<Rightarrow> 'a list \<Rightarrow> 'a list option" where
  "copy_at xs at src =
     (if 0 \<le> at \<and> at \<le> int (length xs)
      then Some (overwrite (nat at) (take (length xs - nat at) src) xs) else None)"

lemma ok_get_at [wp]: "0 \<le> i \<Longrightarrow> i < int (length xs) \<Longrightarrow> Q (xs ! nat i) \<Longrightarrow> ok (get_at xs i) Q"
  by (simp add: get_at_def)

lemma ok_set_at [wp]: "0 \<le> i \<Longrightarrow> i < int (length xs) \<Longrightarrow> Q (xs[nat i := x]) \<Longrightarrow> ok (set_at xs i x) Q"
  by (simp add: set_at_def)

lemma ok_slice_of [wp]:
  "0 \<le> a \<Longrightarrow> a \<le> b \<Longrightarrow> b \<le> int (length xs) \<Longrightarrow> Q (window (nat a) (nat b) xs) \<Longrightarrow> ok (slice_of xs a b) Q"
  by (simp add: slice_of_def)

lemma ok_copy_at [wp]:
  "0 \<le> at \<Longrightarrow> at \<le> int (length xs) \<Longrightarrow> Q (overwrite (nat at) (take (length xs - nat at) src) xs) \<Longrightarrow>
   ok (copy_at xs at src) Q"
  by (simp add: copy_at_def)

text \<open>\<open>for i := 0; i < k; i++\<close> over a body that can panic.\<close>

fun for_from :: "nat \<Rightarrow> nat \<Rightarrow> (nat \<Rightarrow> 's \<Rightarrow> 's option) \<Rightarrow> 's \<Rightarrow> 's option" where
  "for_from i 0 f s = Some s"
| "for_from i (Suc k) f s = f i s \<bind> for_from (Suc i) k f"

definition for_upto :: "nat \<Rightarrow> (nat \<Rightarrow> 's \<Rightarrow> 's option) \<Rightarrow> 's \<Rightarrow> 's option" where
  "for_upto k f s = for_from 0 k f s"

lemma ok_for_from:
  assumes "I i s" and "\<And>j s. i \<le> j \<Longrightarrow> j < i + k \<Longrightarrow> I j s \<Longrightarrow> ok (f j s) (I (Suc j))"
    and "\<And>s. I (i + k) s \<Longrightarrow> Q s"
  shows "ok (for_from i k f s) Q"
  using assms
proof (induction k arbitrary: i s)
  case (Suc k)
  have "ok (f i s) (I (Suc i))" using Suc.prems(1) Suc.prems(2) [of i s] by simp
  then have "ok (f i s) (\<lambda>s. ok (for_from (Suc i) k f s) Q)"
  proof (rule ok_mono)
    fix t assume "I (Suc i) t"
    then show "ok (for_from (Suc i) k f t) Q"
      by (rule Suc.IH) (use Suc.prems(2,3) in auto)
  qed
  then show ?case by (auto intro: ok_bind)
qed simp

lemma ok_for_upto:
  assumes "I 0 s" and "\<And>j s. j < k \<Longrightarrow> I j s \<Longrightarrow> ok (f j s) (I (Suc j))" and "\<And>s. I k s \<Longrightarrow> Q s"
  shows "ok (for_upto k f s) Q"
  unfolding for_upto_def using assms by (intro ok_for_from [of I]) auto

definition to_int32 :: "int \<Rightarrow> int" where
  "to_int32 x = sint (word_of_int x :: u32)"

lemma to_int32_fits [go_int, simp]: "- (2 ^ 31) \<le> x \<Longrightarrow> x < 2 ^ 31 \<Longrightarrow> to_int32 x = x"
  unfolding to_int32_def by (simp add: signed_of_int signed_take_bit_int_eq_self)

text \<open>A loop over the elements of a list with a body that can panic.\<close>

fun mfold :: "('x \<Rightarrow> 's \<Rightarrow> 's option) \<Rightarrow> 'x list \<Rightarrow> 's \<Rightarrow> 's option" where
  "mfold f [] s = Some s"
| "mfold f (x # xs) s = f x s \<bind> mfold f xs"

lemma mfold_append: "mfold f (xs @ ys) s = mfold f xs s \<bind> mfold f ys"
  by (induction xs arbitrary: s) (simp_all add: bind_assoc cong: bind_option_cong)

lemma mfold_single [simp]: "mfold f [x] s = f x s"
  by (cases "f x s") simp_all

lemma mfold_snoc: "mfold f (xs @ [x]) s = mfold f xs s \<bind> f x"
proof (cases "mfold f xs s")
  case (Some a)
  then show ?thesis by (cases "f x a") (simp_all add: mfold_append)
qed (simp add: mfold_append)

lemma ok_mfold:
  assumes "I [] s" and "\<And>ys y s. y \<in> set xs \<Longrightarrow> length ys < length xs \<Longrightarrow> I ys s \<Longrightarrow> ok (f y s) (I (ys @ [y]))"
    and "\<And>s. I xs s \<Longrightarrow> Q s"
  shows "ok (mfold f xs s) Q"
proof -
  have "ok (mfold f zs s) (I (ys @ zs))" if "xs = ys @ zs" "I ys s" for ys zs s
    using that
  proof (induction zs arbitrary: ys s)
    case (Cons z zs)
    have "ok (f z s) (I (ys @ [z]))" using assms(2) [of z ys s] Cons.prems by simp
    then have "ok (f z s) (\<lambda>t. ok (mfold f zs t) (I (ys @ z # zs)))"
      by (rule ok_mono) (use Cons.IH [of "ys @ [z]"] Cons.prems in simp)
    then show ?case by (auto intro: ok_bind)
  qed simp
  from this [of "[]" xs s] assms(1) have "ok (mfold f xs s) (I xs)" by simp
  then show ?thesis by (rule ok_mono) (rule assms(3))
qed

end
