(* ===== verification/Rng.thy ===== *)
theory Rng
  imports Prelude Complex_Main
begin

text \<open>
  The deterministic randomness of \<open>pkg/rng/rng.go\<close>: a counter-based
  SplitMix64 source, its derivation per concern, and the draws built on it.
  The state of a source is its base and its counter; every draw returns the
  advanced source.  \<open>float64\<close> values drawn here are dyadic rationals with a
  53-bit numerator, so they are modelled exactly as \<open>rat\<close>.
\<close>

section \<open>The source\<close>

definition golden :: u64 where
  "golden = 0x9E3779B97F4A7C15"

definition mix :: "u64 \<Rightarrow> u64" where
  "mix x =
     (let x = (x XOR drop_bit 30 x) * 0xBF58476D1CE4E5B9;
          x = (x XOR drop_bit 27 x) * 0x94D049BB133111EB
      in x XOR drop_bit 31 x)"

record rand =
  base :: u64
  ctr :: u64

type_synonym stream = u32

definition StreamSeedSelect :: stream where "StreamSeedSelect = 0"
definition StreamMutatorSelect :: stream where "StreamMutatorSelect = 1"
definition StreamMutatorParam :: stream where "StreamMutatorParam = 2"
definition StreamStructure :: stream where "StreamStructure = 3"
definition StreamSplice :: stream where "StreamSplice = 4"
definition StreamGenerate :: stream where "StreamGenerate = 5"
definition StreamSchedule :: stream where "StreamSchedule = 6"
definition StreamState :: stream where "StreamState = 7"

definition streamNames :: "string list" where
  "streamNames =
     [''seed-select'', ''mutator-select'', ''mutator-param'', ''structure'',
      ''splice'', ''generate'', ''schedule'', ''state'']"

text \<open>
  \<open>itoa\<close> fills a 20-byte buffer from the back; the first argument is the
  index \<open>i\<close> of the loop, and running below zero is the panic.
\<close>

fun itoa_loop :: "nat \<Rightarrow> u64 \<Rightarrow> string \<Rightarrow> string option" where
  "itoa_loop i v acc =
     (if v > 0
      then (case i of
              0 \<Rightarrow> None
            | Suc k \<Rightarrow> itoa_loop k (v div 10) (char_of (48 + unat (v mod 10)) # acc))
      else Some acc)"

definition itoa :: "u64 \<Rightarrow> string option" where
  "itoa v = (if v = 0 then Some ''0'' else itoa_loop 20 v [])"

definition Stream_String :: "stream \<Rightarrow> string option" where
  "Stream_String s =
     (if unat s < length streamNames \<and> streamNames ! unat s \<noteq> []
      then Some (streamNames ! unat s)
      else do { d \<leftarrow> itoa (ucast s); Some (''stream('' @ d @ '')'') })"

definition New :: "u64 \<Rightarrow> rand" where
  "New seed = \<lparr>base = mix seed, ctr = 0\<rparr>"

definition Derive :: "u64 \<Rightarrow> u32 \<Rightarrow> stream \<Rightarrow> rand" where
  "Derive campaignSeed workerID s =
     (let h = mix (campaignSeed + golden);
          h = mix (h XOR (ucast workerID + 1) * golden);
          h = mix (h XOR (ucast s + 1) * golden)
      in \<lparr>base = h, ctr = 0\<rparr>)"

definition Fork :: "rand \<Rightarrow> u64 \<Rightarrow> rand" where
  "Fork r tag = \<lparr>base = mix (base r XOR (tag + 1) * golden), ctr = 0\<rparr>"

definition Position :: "rand \<Rightarrow> u64" where
  "Position r = ctr r"

definition Seek :: "rand \<Rightarrow> u64 \<Rightarrow> rand" where
  "Seek r pos = r\<lparr>ctr := pos\<rparr>"

definition Clone :: "rand \<Rightarrow> rand" where
  "Clone r = \<lparr>base = base r, ctr = ctr r\<rparr>"

definition Uint64 :: "rand \<Rightarrow> u64 \<times> rand" where
  "Uint64 r = (let r = r\<lparr>ctr := ctr r + 1\<rparr> in (mix (base r + ctr r * golden), r))"

definition Uint32 :: "rand \<Rightarrow> u32 \<times> rand" where
  "Uint32 r = (let (v, r) = Uint64 r in (ucast (drop_bit 32 v), r))"

definition Byte :: "rand \<Rightarrow> byte \<times> rand" where
  "Byte r = (let (v, r) = Uint64 r in (ucast (drop_bit 56 v), r))"

definition Bool :: "rand \<Rightarrow> bool \<times> rand" where
  "Bool r = (let (v, r) = Uint64 r in (drop_bit 63 v \<noteq> 0, r))"

section \<open>The source is a permutation of the 64-bit words\<close>

text \<open>
  An interface for the arguments that only need to know that the outputs of a
  source, read as a function of the counter, are a permutation: every word is
  drawn at exactly one counter value, so a search for an acceptable draw ends.
\<close>

definition wait_for :: "(u64 \<Rightarrow> u64) \<Rightarrow> (u64 \<Rightarrow> bool) \<Rightarrow> u64 \<Rightarrow> nat" where
  "wait_for out P c = (LEAST k. P (out (c + of_nat k)))"

locale full_period =
  fixes out :: "u64 \<Rightarrow> u64"
  assumes out_bij: "bij out"
begin

lemma hits: "\<exists>c. out c = v"
  using out_bij by (metis bij_pointE)

lemma hits_after: "\<exists>k. out (c + of_nat k) = v"
proof -
  obtain d where d: "out d = v" using hits by blast
  have "c + of_nat (unat (d - c)) = d" by simp
  with d show ?thesis by metis
qed

lemma hits_within: "\<exists>k < 2 ^ 64. out (c + of_nat k) = v"
proof -
  obtain d where d: "out d = v" using hits by blast
  have "c + of_nat (unat (d - c)) = d" and "unat (d - c) < 2 ^ 64"
    using unsigned_less [of "d - c", where 'a = nat] by simp_all
  with d show ?thesis by metis
qed

lemma wait_for_step:
  assumes "P v" and "\<not> P (out c)"
  shows "wait_for out P c = Suc (wait_for out P (c + 1))"
proof -
  obtain k where "P (out (c + of_nat k))" using hits_after [of c v] assms(1) by metis
  then have "(LEAST k. P (out (c + of_nat k))) = Suc (LEAST k. P (out (c + of_nat (Suc k))))"
    using assms(2) by (intro Least_Suc) auto
  then show ?thesis by (simp add: wait_for_def ac_simps)
qed

lemma hits_once: "out c = out d \<Longrightarrow> c = d"
  using out_bij by (simp add: bij_def inj_eq)

end

lemma xorshift_zero:
  fixes z :: "'a::len word"
  assumes k: "0 < k" and eq: "z = drop_bit k z"
  shows "z = 0"
proof -
  have "unat (drop_bit k z) = unat z div 2 ^ k"
    unfolding unat_drop_bit_eq by (rule drop_bit_eq_div)
  with eq have "unat z = unat z div 2 ^ k" by (simp only:)
  moreover have "(2::nat) \<le> 2 ^ k" using k by (metis one_le_numeral power_increasing power_one_right less_eq_Suc_le One_nat_def)
  ultimately have "unat z = 0"
    by (metis div_less_dividend gr0I less_le_trans less_irrefl one_less_numeral_iff semiring_norm(76))
  then show ?thesis by (simp add: unat_eq_zero)
qed

lemma xorshift_inj:
  fixes x y :: "'a::len word"
  assumes k: "0 < k" and eq: "x XOR drop_bit k x = y XOR drop_bit k y"
  shows "x = y"
proof -
  have "x XOR y = drop_bit k (x XOR y)"
    using eq by (metis (no_types, lifting) drop_bit_xor xor.assoc xor.commute xor.left_commute
      xor_self_eq xor.right_neutral)
  from xorshift_zero [OF k this] have "x XOR y = 0" .
  then show ?thesis by (metis xor.assoc xor.left_neutral xor.right_neutral xor_self_eq)
qed

lemma word_unat_inj: "inj (unat :: 'a::len word \<Rightarrow> nat)"
  by (rule injI) (rule word_unat_eq_iff [THEN iffD2])

lemma word_xor_cancel: "a XOR b = a XOR c \<Longrightarrow> b = (c :: 'a::len word)"
  by (drule arg_cong [where f = "\<lambda>x. a XOR x"]) (simp flip: xor.assoc)

lemma mult_inv_inj:
  fixes a b :: "'a::len word"
  assumes "a * b = 1" and "x * a = y * a"
  shows "x = y"
proof -
  have "x * a * b = y * a * b" using assms(2) by simp
  then show ?thesis using assms(1) by (simp add: mult.assoc)
qed

lemma mix_multiplier_1: "0xBF58476D1CE4E5B9 * 10871156337175269513 = (1 :: u64)"
  by simp

lemma mix_multiplier_2: "0x94D049BB133111EB * 3573116690164977347 = (1 :: u64)"
  by simp

lemma golden_inverse: "golden * 17428512612931826493 = 1"
  by (simp add: golden_def)

text \<open>One round of the finalizer, a shift and a multiplication by an odd constant.\<close>

lemma mix_round_inj:
  fixes x y a b :: u64
  assumes "a * b = 1" and "0 < k"
    and "(x XOR drop_bit k x) * a = (y XOR drop_bit k y) * a"
  shows "x = y"
  using mult_inv_inj [OF assms(1,3)] by (rule xorshift_inj [OF assms(2)])

lemma mix_inj: "mix x = mix y \<Longrightarrow> x = y"
  unfolding mix_def Let_def
  by (drule xorshift_inj [where k = 31, rotated], simp,
      drule mix_round_inj [OF mix_multiplier_2, rotated], simp,
      drule mix_round_inj [OF mix_multiplier_1, rotated], simp)

lemma inj_imp_bij_word: "inj (f :: 'a::len word \<Rightarrow> 'a word) \<Longrightarrow> bij f"
  by (simp add: bij_def finite_UNIV_inj_surj)

lemma mix_bij: "bij mix"
  by (rule inj_imp_bij_word) (auto intro: injI mix_inj)

lemma golden_inj: "x * golden = y * golden \<Longrightarrow> x = y"
  by (rule mult_inv_inj [OF golden_inverse])

text \<open>The output of a source as a function of its counter.\<close>

definition out_at :: "u64 \<Rightarrow> u64 \<Rightarrow> u64" where
  "out_at b c = mix (b + c * golden)"

interpretation weyl: full_period "out_at b"
proof unfold_locales
  show "bij (out_at b)"
    by (rule inj_imp_bij_word, rule injI) (auto simp: out_at_def dest!: mix_inj golden_inj)
qed

lemma Uint64_eq: "Uint64 r = (out_at (base r) (ctr r + 1), r\<lparr>ctr := ctr r + 1\<rparr>)"
  by (simp add: Uint64_def out_at_def Let_def)

lemma Uint64_frame [simp]:
  "base (snd (Uint64 r)) = base r" "ctr (snd (Uint64 r)) = ctr r + 1"
  by (simp_all add: Uint64_eq)

section \<open>Bounded draws\<close>

definition Mul64 :: "u64 \<Rightarrow> u64 \<Rightarrow> u64 \<times> u64" where
  "Mul64 a b = (of_nat (unat a * unat b div 2 ^ 64), a * b)"

text \<open>
  The rejection loop of \<open>uint64n\<close> has no bound in the source. It is a total
  function all the same: the word 1 is accepted for every bound, and the source
  draws it within a period.
\<close>

definition accepted :: "u64 \<Rightarrow> u64 \<Rightarrow> bool" where
  "accepted n x \<longleftrightarrow> \<not> x * n < - n mod n"

lemma word_mod_less: "n \<noteq> 0 \<Longrightarrow> x mod n < (n :: 'a::len word)"
  by (simp add: word_less_nat_alt unat_mod unat_gt_0)

lemma thresh_less: "n \<noteq> 0 \<Longrightarrow> - n mod n < (n :: u64)"
  by (rule word_mod_less)

lemma accepted_1: "accepted n 1"
  using thresh_less [of n] by (cases "n = 0") (auto simp: accepted_def)

function uint64n_loop :: "u64 \<Rightarrow> u64 \<Rightarrow> u64 \<Rightarrow> rand \<Rightarrow> u64 \<times> rand" where
  "uint64n_loop n hi lo r =
     (if lo < - n mod n
      then (let (x, r') = Uint64 r; (hi', lo') = Mul64 x n in uint64n_loop n hi' lo' r')
      else (hi, r))"
  by pat_completeness auto
termination
proof (relation "measure (\<lambda>(n, hi, lo, r).
    if lo < - n mod n then Suc (wait_for (out_at (base r)) (accepted n) (ctr r + 1)) else 0)")
  fix n hi lo r xr x r' hl hi' lo'
  assume rej: "lo < - n mod n" and draw: "xr = Uint64 r" "(x, r') = xr"
    and mul: "hl = Mul64 x n" "(hi', lo') = hl"
  have x: "x = out_at (base r) (ctr r + 1)" and r': "r' = r\<lparr>ctr := ctr r + 1\<rparr>"
    using draw by (simp_all add: Uint64_eq)
  have lo': "lo' = x * n" using mul by (simp add: Mul64_def)
  have "wait_for (out_at (base r)) (accepted n) (ctr r + 1) =
        Suc (wait_for (out_at (base r)) (accepted n) (ctr r + 1 + 1))" if "lo' < - n mod n"
    using that lo' x by (intro weyl.wait_for_step [where P = "accepted n" and v = 1, OF accepted_1]) (simp add: accepted_def)
  with rej show "((n, hi', lo', r'), n, hi, lo, r) \<in> measure (\<lambda>(n, hi, lo, r).
      if lo < - n mod n then Suc (wait_for (out_at (base r)) (accepted n) (ctr r + 1)) else 0)"
    by (simp add: r' ac_simps)
qed simp

declare uint64n_loop.simps [simp del]

definition uint64n :: "u64 \<Rightarrow> rand \<Rightarrow> u64 \<times> rand" where
  "uint64n n r =
     (let (x, r) = Uint64 r; (hi, lo) = Mul64 x n
      in if lo < n then uint64n_loop n hi lo r else (hi, r))"

definition Intn :: "int \<Rightarrow> rand \<Rightarrow> (int \<times> rand) option" where
  "Intn n r =
     (if n \<le> 0 then None
      else (let (v, r) = uint64n (word_of_int n) r in Some (sint v, r)))"

definition Int64n :: "int \<Rightarrow> rand \<Rightarrow> (int \<times> rand) option" where
  "Int64n n r =
     (if n \<le> 0 then None
      else (let (v, r) = uint64n (word_of_int n) r in Some (sint v, r)))"

definition IntRange :: "int \<Rightarrow> int \<Rightarrow> rand \<Rightarrow> (int \<times> rand) option" where
  "IntRange lo hi r =
     (if hi < lo then None
      else if hi = lo then Some (lo, r)
      else do { (v, r) \<leftarrow> Intn (to_int64 (hi - lo + 1)) r; Some (to_int64 (lo + v), r) })"

definition Float64 :: "rand \<Rightarrow> rat \<times> rand" where
  "Float64 r = (let (v, r) = Uint64 r in (of_nat (unat (drop_bit 11 v)) / 2 ^ 53, r))"

definition Chance :: "rat \<Rightarrow> rand \<Rightarrow> bool \<times> rand" where
  "Chance p r =
     (if p \<le> 0 then (False, r)
      else if p \<ge> 1 then (True, r)
      else (let (f, r) = Float64 r in (f < p, r)))"

fun fill_word :: "nat \<Rightarrow> u64 \<Rightarrow> byte list" where
  "fill_word 0 v = []"
| "fill_word (Suc k) v = ucast v # fill_word k (drop_bit 8 v)"

text \<open>\<open>Fill\<close> returns the bytes written into a buffer of the given length.\<close>

fun Fill :: "nat \<Rightarrow> rand \<Rightarrow> byte list \<times> rand" where
  "Fill n r =
     (if n = 0 then ([], r)
      else (let (v, r) = Uint64 r; (bs, r) = Fill (n - 8) r
            in (fill_word (min 8 n) v @ bs, r)))"

declare Fill.simps [simp del]

definition Pick :: "int \<Rightarrow> rand \<Rightarrow> (int \<times> rand) option" where
  "Pick n r = (if n \<le> 0 then Some (-1, r) else Intn n r)"

fun weight_total :: "int \<Rightarrow> int list \<Rightarrow> int" where
  "weight_total tot [] = tot"
| "weight_total tot (w # ws) =
     weight_total (if w > 0 then to_int64 (tot + w) else tot) ws"

fun weight_scan :: "int \<Rightarrow> int \<Rightarrow> int list \<Rightarrow> int" where
  "weight_scan i pick [] = i - 1"
| "weight_scan i pick (w # ws) =
     (if w \<le> 0 then weight_scan (i + 1) pick ws
      else (let pick = to_int64 (pick - w)
            in if pick < 0 then i else weight_scan (i + 1) pick ws))"

definition Weighted :: "int list \<Rightarrow> rand \<Rightarrow> (int \<times> rand) option" where
  "Weighted weights r =
     (let tot = weight_total 0 weights
      in if tot = 0 then Some (-1, r)
         else do { (pick, r) \<leftarrow> Intn tot r; Some (weight_scan 0 pick weights, r) })"

text \<open>
  The loop of \<open>Shuffle\<close> runs \<open>i\<close> from \<open>n - 1\<close> down to 1; the callback
  that exchanges two elements acts on a state of any type.
\<close>

fun shuffle_loop :: "nat \<Rightarrow> (nat \<Rightarrow> nat \<Rightarrow> 's \<Rightarrow> 's) \<Rightarrow> 's \<Rightarrow> rand \<Rightarrow> ('s \<times> rand) option" where
  "shuffle_loop 0 swap s r = Some (s, r)"
| "shuffle_loop (Suc k) swap s r =
     do { (j, r) \<leftarrow> Intn (int (Suc k) + 1) r;
          shuffle_loop k swap (swap (Suc k) (nat j) s) r }"

definition Shuffle :: "int \<Rightarrow> (nat \<Rightarrow> nat \<Rightarrow> 's \<Rightarrow> 's) \<Rightarrow> 's \<Rightarrow> rand \<Rightarrow> ('s \<times> rand) option" where
  "Shuffle n swap s r = shuffle_loop (nat (n - 1)) swap s r"

section \<open>Draws stay in range and always come\<close>

lemma uint64n_loop_spec:
  "uint64n_loop n hi lo r =
     (if lo < - n mod n
      then (let c = ctr r + 1 + of_nat (wait_for (out_at (base r)) (accepted n) (ctr r + 1))
            in (fst (Mul64 (out_at (base r) c) n), r\<lparr>ctr := c\<rparr>))
      else (hi, r))"
proof (induction n hi lo r rule: uint64n_loop.induct)
  case (1 n hi lo r)
  let ?x = "out_at (base r) (ctr r + 1)" and ?r = "r\<lparr>ctr := ctr r + 1\<rparr>"
  show ?case
  proof (cases "lo < - n mod n")
    case False
    then show ?thesis by (simp add: uint64n_loop.simps)
  next
    case True
    then have unf: "uint64n_loop n hi lo r =
        uint64n_loop n (fst (Mul64 ?x n)) (snd (Mul64 ?x n)) ?r"
      by (subst uint64n_loop.simps) (simp add: Uint64_eq split_beta)
    note IH = "1.IH" [OF True refl, of "?x" ?r "Mul64 ?x n"]
    show ?thesis
    proof (cases "accepted n ?x")
      case True
      then have "wait_for (out_at (base r)) (accepted n) (ctr r + 1) = 0"
        by (auto simp: wait_for_def intro!: Least_equality)
      with True \<open>lo < _\<close> show ?thesis
        by (simp add: unf uint64n_loop.simps [of n _ _ ?r] Mul64_def accepted_def Let_def)
    next
      case False
      have "wait_for (out_at (base r)) (accepted n) (ctr r + 1) =
          Suc (wait_for (out_at (base r)) (accepted n) (ctr r + 1 + 1))"
        using False by (intro weyl.wait_for_step [where P = "accepted n" and v = 1, OF accepted_1])
      with False \<open>lo < _\<close> show ?thesis
        unfolding unf
        by (subst IH) (simp_all add: Uint64_eq Mul64_def accepted_def Let_def ac_simps)
    qed
  qed
qed

lemma accepted_if_ge: "\<not> x * n < n \<Longrightarrow> accepted n x"
  using thresh_less [of n] by (cases "n = 0") (auto simp: accepted_def)

text \<open>
  A bounded draw is the high half of the first acceptable output at or after
  the next counter value, and leaves the source at that counter value.
\<close>

definition draw_ctr :: "u64 \<Rightarrow> rand \<Rightarrow> u64" where
  "draw_ctr n r = ctr r + 1 + of_nat (wait_for (out_at (base r)) (accepted n) (ctr r + 1))"

lemma wait_for_0: "P (out c) \<Longrightarrow> wait_for out P c = 0"
  by (auto simp: wait_for_def intro!: Least_equality)

lemma wait_for_hits: "P v \<Longrightarrow> P (out_at b (c + of_nat (wait_for (out_at b) P c)))"
  unfolding wait_for_def
  by (rule LeastI_ex) (metis weyl.hits_after)

lemma uint64n_spec:
  "uint64n n r = (fst (Mul64 (out_at (base r) (draw_ctr n r)) n), r\<lparr>ctr := draw_ctr n r\<rparr>)"
proof (cases "accepted n (out_at (base r) (ctr r + 1))")
  case True
  then show ?thesis
    by (auto simp: uint64n_def Uint64_eq Mul64_def Let_def draw_ctr_def wait_for_0
        uint64n_loop_spec accepted_def)
next
  case False
  have "wait_for (out_at (base r)) (accepted n) (ctr r + 1) =
      Suc (wait_for (out_at (base r)) (accepted n) (ctr r + 1 + 1))"
    using False by (intro weyl.wait_for_step [where P = "accepted n" and v = 1, OF accepted_1])
  with False show ?thesis
    using accepted_if_ge [of "out_at (base r) (ctr r + 1)" n]
    by (auto simp: uint64n_def Uint64_eq Mul64_def Let_def draw_ctr_def
        uint64n_loop_spec accepted_def ac_simps)
qed

lemma draw_accepted: "accepted n (out_at (base r) (draw_ctr n r))"
  unfolding draw_ctr_def by (rule wait_for_hits [where P = "accepted n" and v = 1, OF accepted_1])

lemma unat_Mul64_hi: "unat (fst (Mul64 a b)) = unat a * unat b div 2 ^ 64"
proof -
  have "unat a * unat b < 2 ^ 64 * 2 ^ 64"
    using unsigned_less [of a, where 'a = nat] unsigned_less [of b, where 'a = nat]
    by (intro mult_strict_mono) simp_all
  then have "unat a * unat b div 2 ^ 64 < 2 ^ 64" by (simp add: less_mult_imp_div_less)
  then show ?thesis by (simp add: Mul64_def unat_of_nat take_bit_nat_eq_self_iff)
qed

lemma Mul64_hi_less: "n \<noteq> 0 \<Longrightarrow> fst (Mul64 x n) < n"
proof -
  assume "n \<noteq> 0"
  then have "unat x * unat n < unat n * 2 ^ 64"
    using unsigned_less [of x, where 'a = nat] by (simp add: unat_gt_0)
  then show ?thesis
    by (simp add: word_less_nat_alt unat_Mul64_hi less_mult_imp_div_less)
qed

lemma uint64n_range: "n \<noteq> 0 \<Longrightarrow> fst (uint64n n r) < n"
  by (simp add: uint64n_spec Mul64_hi_less)

lemma uint64n_base [simp]: "base (snd (uint64n n r)) = base r"
  by (simp add: uint64n_spec)

lemma Intn_eq:
  "0 < n \<Longrightarrow> Intn n r = Some (sint (fst (uint64n (word_of_int n) r)), snd (uint64n (word_of_int n) r))"
  by (simp add: Intn_def split_beta)

lemma sint_of_small:
  fixes v :: u64
  assumes "uint v < 2 ^ 63"
  shows "sint v = uint v"
proof -
  have "- (2 ^ 63) \<le> uint v" by (rule order_trans [OF _ uint_ge_0]) simp
  with assms show ?thesis by (simp add: sint_uint signed_take_bit_int_eq_self)
qed

lemma Intn_ok:
  assumes "0 < n" and "n < 2 ^ 63"
  obtains v r' where "Intn n r = Some (v, r')" "0 \<le> v" "v < n" "base r' = base r"
proof -
  let ?n = "word_of_int n :: u64" and ?v = "fst (uint64n (word_of_int n) r)"
  have n: "uint ?n = n" using assms by (simp add: sint_of_small_nat)
  then have "?n \<noteq> 0" using assms by auto
  then have "?v < ?n" by (rule uint64n_range)
  then have v: "uint ?v < n" using n by (simp add: word_less_def)
  then have "sint ?v = uint ?v" using assms by (intro sint_of_small) simp
  with v that [of "sint ?v" "snd (uint64n ?n r)"] assms show thesis
    by (simp add: Intn_eq)
qed

lemma Intn_ex:
  "0 < n \<Longrightarrow> n < 2 ^ 63 \<Longrightarrow>
   \<exists>v r'. Intn n r = Some (v, r') \<and> 0 \<le> v \<and> v < n \<and> base r' = base r"
  by (rule Intn_ok [of n r]) auto

lemma Intn_range:
  "Intn n r = Some (v, r') \<Longrightarrow> n < 2 ^ 63 \<Longrightarrow> 0 \<le> v \<and> v < n \<and> base r' = base r"
  by (cases "0 < n") (auto elim: Intn_ok [of n r] simp: Intn_def)

lemma Intn_None_iff: "Intn n r = None \<longleftrightarrow> n \<le> 0"
  by (simp add: Intn_def split_beta)

lemma Intn_1: "Intn 1 r = Some (v, r') \<Longrightarrow> v = 0"
  using Intn_range [of 1 r v r'] by simp

lemma IntRange_ok:
  assumes "lo \<le> hi" and "fits_int lo" and "fits_int hi" and "hi - lo + 1 < 2 ^ 63"
  obtains v r' where "IntRange lo hi r = Some (v, r')" "lo \<le> v" "v \<le> hi" "base r' = base r"
proof (cases "hi = lo")
  case True
  then show thesis using that [of lo r] by (simp add: IntRange_def)
next
  case False
  let ?n = "hi - lo + 1"
  have fit: "fits_int ?n" using assms by (simp add: fits_int_def)
  obtain v r' where v: "Intn ?n r = Some (v, r')" "0 \<le> v" "v < ?n" "base r' = base r"
    using Intn_ex [OF _ assms(4)] assms(1) by fastforce
  have "fits_int (lo + v)" using v assms by (simp add: fits_int_def)
  with v fit False assms that [of "lo + v" r'] show thesis
    by (simp add: IntRange_def)
qed

lemma IntRange_range:
  "IntRange lo hi r = Some (v, r') \<Longrightarrow> fits_int lo \<Longrightarrow> fits_int hi \<Longrightarrow> hi - lo + 1 < 2 ^ 63 \<Longrightarrow>
   lo \<le> v \<and> v \<le> hi \<and> base r' = base r"
  by (cases "lo \<le> hi") (auto elim: IntRange_ok [of lo hi r] simp: IntRange_def)

text \<open>The draws, as statements of a block that can panic.\<close>

lemma ok_Intn [wp]:
  assumes "0 < n" and "n < 2 ^ 63" and "\<And>v r'. 0 \<le> v \<Longrightarrow> v < n \<Longrightarrow> Q (v, r')"
  shows "ok (Intn n r) Q"
  using Intn_ex [OF assms(1,2), of r] assms(3) by (auto intro: okI)

lemma ok_IntRange [wp]:
  assumes "lo \<le> hi" and "- (2 ^ 61) \<le> lo" and "hi < 2 ^ 61" and "\<And>v r'. lo \<le> v \<Longrightarrow> v \<le> hi \<Longrightarrow> Q (v, r')"
  shows "ok (IntRange lo hi r) Q"
proof -
  have "fits_int lo" "fits_int hi" "hi - lo + 1 < 2 ^ 63" using assms(1-3) by (auto simp: fits_int_def)
  with assms(1) obtain v r' where "IntRange lo hi r = Some (v, r')" "lo \<le> v" "v \<le> hi"
    by (rule IntRange_ok)
  with assms(4) show ?thesis by (auto intro: okI)
qed

lemma ok_Bool [wp]: "(\<And>b r'. ok (f b r') Q) \<Longrightarrow> ok (case Bool r of (b, r) \<Rightarrow> f b r) Q"
  by (rule ok_prod) blast

lemma ok_Byte [wp]: "(\<And>b r'. ok (f b r') Q) \<Longrightarrow> ok (case Byte r of (b, r) \<Rightarrow> f b r) Q"
  by (rule ok_prod) blast

section \<open>The multiply-shift bound is unbiased\<close>

text \<open>
  Acceptable outputs that map to \<open>v\<close> are the words whose product with
  \<open>n\<close> lies in an interval whose length is a multiple of \<open>n\<close>.
\<close>

lemma unat_uminus_mod:
  fixes n :: u64
  assumes "n \<noteq> 0"
  shows "unat (- n mod n) = 2 ^ 64 mod unat n"
proof -
  have "unat (- n) = 2 ^ 64 - unat n"
    using assms unat_sub_if' [of 0 n] by (simp add: unat_gt_0)
  moreover have "unat n < 2 ^ 64"
    using unsigned_less [of n, where 'a = nat] by simp
  ultimately show ?thesis by (simp add: unat_mod le_mod_geq)
qed

lemma card_multiples_in_interval:
  fixes n a q :: nat
  assumes "0 < n"
  shows "card {x. a \<le> x * n \<and> x * n < a + q * n} = q"
proof -
  let ?lo = "(a + n - 1) div n"
  have "a \<le> x * n \<longleftrightarrow> ?lo \<le> x" for x
  proof -
    have "?lo \<le> x \<longleftrightarrow> a + n - 1 < (x + 1) * n"
      using assms by (metis Suc_eq_plus1 div_less_iff_less_mult less_Suc_eq_le)
    then show ?thesis using assms by auto
  qed
  moreover have "x * n < a + q * n \<longleftrightarrow> x < ?lo + q" for x
  proof -
    have "x < ?lo + q \<longleftrightarrow> \<not> ?lo \<le> x - q \<or> x < q" by auto
    moreover have "?lo \<le> x - q \<longleftrightarrow> a \<le> (x - q) * n"
    proof -
      have "?lo \<le> x - q \<longleftrightarrow> a + n - 1 < (x - q + 1) * n"
        using assms by (metis Suc_eq_plus1 div_less_iff_less_mult less_Suc_eq_le)
      then show ?thesis using assms by auto
    qed
    moreover have "q \<le> x \<Longrightarrow> a \<le> (x - q) * n \<longleftrightarrow> a + q * n \<le> x * n"
      by (auto simp: diff_mult_distrib le_diff_conv2)
    moreover have "x < q \<Longrightarrow> x * n < a + q * n"
      using assms by (metis add.commute mult_less_mono1 trans_less_add1)
    ultimately show ?thesis by (metis not_le)
  qed
  ultimately have "{x. a \<le> x * n \<and> x * n < a + q * n} = {?lo..<?lo + q}" by auto
  then show ?thesis by simp
qed

lemma accepted_nat:
  assumes "n \<noteq> 0"
  shows "accepted n x \<longleftrightarrow> 2 ^ 64 mod unat n \<le> unat x * unat n mod 2 ^ 64"
  unfolding accepted_def word_less_nat_alt unat_uminus_mod [OF assms] not_less
  by (simp add: unat_word_ariths)

lemma div_mod_interval:
  fixes p t v N :: nat
  assumes "t \<le> N" and "0 < N"
  shows "p div N = v \<and> t \<le> p mod N \<longleftrightarrow> v * N + t \<le> p \<and> p < (v + 1) * N"
proof
  assume "p div N = v \<and> t \<le> p mod N"
  then show "v * N + t \<le> p \<and> p < (v + 1) * N"
    using div_mult_mod_eq [of p N] assms by (auto simp: dividend_less_div_times)
next
  assume h: "v * N + t \<le> p \<and> p < (v + 1) * N"
  then have "p div N = v" using assms
    by (metis Suc_eq_plus1 add_leD1 div_nat_eqI mult.commute)
  moreover have "p = v * N + p mod N" using calculation by (metis div_mult_mod_eq)
  ultimately show "p div N = v \<and> t \<le> p mod N" using h by linarith
qed

lemma uint64n_unbiased_nat:
  fixes n :: u64
  assumes "n \<noteq> 0" and "v < n"
  shows "card {x. accepted n x \<and> fst (Mul64 x n) = v} = 2 ^ 64 div unat n"
proof -
  let ?N = "2 ^ 64 :: nat" and ?n = "unat n" and ?v = "unat v"
  let ?t = "?N mod ?n" and ?q = "?N div ?n"
  have n: "0 < ?n" "?n < ?N"
    using assms unsigned_less [of n, where 'a = nat] by (simp_all add: unat_gt_0)
  have t: "?t \<le> ?N" by simp
  have qn: "?q * ?n + ?t = ?N" by simp
  have v: "?v + 1 \<le> ?n" using assms by (simp add: word_less_nat_alt)
  have iff: "accepted n x \<and> fst (Mul64 x n) = v \<longleftrightarrow>
      ?v * ?N + ?t \<le> unat x * ?n \<and> unat x * ?n < (?v * ?N + ?t) + ?q * ?n" for x
  proof -
    have "fst (Mul64 x n) = v \<longleftrightarrow> unat x * ?n div ?N = ?v"
      by (metis unat_Mul64_hi word_unat_eq_iff)
    then have "accepted n x \<and> fst (Mul64 x n) = v \<longleftrightarrow>
        unat x * ?n div ?N = ?v \<and> ?t \<le> unat x * ?n mod ?N"
      using assms by (auto simp: accepted_nat)
    also have "\<dots> \<longleftrightarrow> ?v * ?N + ?t \<le> unat x * ?n \<and> unat x * ?n < (?v + 1) * ?N"
      by (rule div_mod_interval [OF t]) simp
    also have "(?v + 1) * ?N = (?v * ?N + ?t) + ?q * ?n" using qn by (simp add: algebra_simps)
    finally show ?thesis .
  qed
  have small: "y < ?N" if "y * ?n < (?v * ?N + ?t) + ?q * ?n" for y
  proof -
    have "(?v * ?N + ?t) + ?q * ?n = (?v + 1) * ?N" using qn by (simp add: algebra_simps)
    also have "\<dots> \<le> ?n * ?N" using v by (rule mult_le_mono1)
    finally have "y * ?n < ?n * ?N" using that by (rule less_le_trans [rotated])
    then show ?thesis by (metis mult.commute mult_less_cancel2)
  qed
  have "unat ` {x :: u64. accepted n x \<and> fst (Mul64 x n) = v} =
      {y. ?v * ?N + ?t \<le> y * ?n \<and> y * ?n < (?v * ?N + ?t) + ?q * ?n}" (is "_ = ?S")
  proof (intro equalityI subsetI)
    fix y assume y: "y \<in> ?S"
    then have "unat (of_nat y :: u64) = y"
      using small [of y] by (simp add: unat_of_nat take_bit_nat_eq_self_iff)
    with y iff show "y \<in> unat ` {x :: u64. accepted n x \<and> fst (Mul64 x n) = v}"
      by (intro image_eqI [of _ _ "of_nat y"]) auto
  qed (auto simp: iff)
  moreover have "card (unat ` {x :: u64. accepted n x \<and> fst (Mul64 x n) = v}) =
      card {x :: u64. accepted n x \<and> fst (Mul64 x n) = v}"
    by (rule card_image) (rule inj_on_subset [OF word_unat_inj subset_UNIV])
  ultimately show ?thesis using card_multiples_in_interval [OF n(1), of "?v * ?N + ?t" ?q] by simp
qed

section \<open>Weighted choice\<close>

definition wsum :: "int list \<Rightarrow> int" where
  "wsum ws = sum_list (map (max 0) ws)"

lemma wsum_simps [simp]:
  "wsum [] = 0" "wsum (w # ws) = max 0 w + wsum ws"
  by (simp_all add: wsum_def)

lemma wsum_nonneg [simp]: "0 \<le> wsum ws"
  by (induction ws) auto

lemma weight_total_eq:
  "0 \<le> t \<Longrightarrow> t + wsum ws < 2 ^ 63 \<Longrightarrow> weight_total t ws = t + wsum ws"
proof (induction ws arbitrary: t)
  case (Cons w ws)
  have "w > 0 \<Longrightarrow> t + w + wsum ws < 2 ^ 63" using Cons.prems by (simp add: max_def)
  then have "w > 0 \<Longrightarrow> t + w < 2 ^ 63" using wsum_nonneg [of ws] by linarith
  with Cons show ?case by (auto simp: max_def fits_int_def)
qed simp

lemma weight_scan_spec:
  assumes "0 \<le> pick" and "pick < wsum ws" and "wsum ws < 2 ^ 63"
  shows "\<exists>j < length ws. weight_scan i pick ws = i + int j \<and> 0 < ws ! j \<and>
           wsum (take j ws) \<le> pick \<and> pick < wsum (take j ws) + ws ! j"
  using assms
proof (induction ws arbitrary: i pick)
  case (Cons w ws)
  have later: "\<exists>j < length (w # ws). weight_scan (i + 1) p ws = i + int j \<and> 0 < (w # ws) ! j \<and>
           wsum (take j (w # ws)) \<le> pick \<and> pick < wsum (take j (w # ws)) + (w # ws) ! j"
    if p: "p = pick - max 0 w" and range: "0 \<le> p" "p < wsum ws" for p
  proof -
    have "wsum ws < 2 ^ 63" using Cons.prems(3) by simp
    from Cons.IH [OF range this, of "i + 1"] obtain j where j: "j < length ws"
      "weight_scan (i + 1) p ws = i + 1 + int j" "0 < ws ! j"
      "wsum (take j ws) \<le> p" "p < wsum (take j ws) + ws ! j" by blast
    then show ?thesis using p by (intro exI [of _ "Suc j"]) simp
  qed
  show ?case
  proof (cases "w \<le> 0")
    case True
    then show ?thesis using later [of pick] Cons.prems by simp
  next
    case False
    have "w \<le> wsum (w # ws)" using False by simp
    then have "fits_int (pick - w)"
      using Cons.prems False unfolding fits_int_def by linarith
    then show ?thesis
      using False later [of "pick - w"] Cons.prems
      by (cases "pick < w") (auto simp: Let_def max_def intro: exI [of _ 0])
  qed
qed simp

lemma weighted_choice:
  assumes "wsum ws < 2 ^ 63"
  shows "if wsum ws = 0 then Weighted ws r = Some (-1, r)
         else \<exists>j pick r'. Intn (wsum ws) r = Some (pick, r') \<and> Weighted ws r = Some (int j, r') \<and>
                j < length ws \<and> 0 < ws ! j \<and>
                wsum (take j ws) \<le> pick \<and> pick < wsum (take j ws) + ws ! j"
proof (cases "wsum ws = 0")
  case True
  then show ?thesis using weight_total_eq [of 0 ws] assms by (simp add: Weighted_def)
next
  case False
  then have "0 < wsum ws" using wsum_nonneg [of ws] by linarith
  then obtain pick r' where pick: "Intn (wsum ws) r = Some (pick, r')" "0 \<le> pick" "pick < wsum ws"
    using Intn_ex [OF _ assms] by blast
  from weight_scan_spec [OF pick(2,3) assms, of 0] obtain j where "j < length ws"
    "weight_scan 0 pick ws = int j" "0 < ws ! j"
    "wsum (take j ws) \<le> pick" "pick < wsum (take j ws) + ws ! j" by auto
  with pick False weight_total_eq [of 0 ws] assms show ?thesis by (auto simp: Weighted_def)
qed

section \<open>Stream names and derivation\<close>

text \<open>Reading a decimal numeral back.\<close>

definition digit_value :: "char \<Rightarrow> nat" where
  "digit_value c = of_char c - 48"

definition decimal :: "string \<Rightarrow> nat" where
  "decimal s = foldl (\<lambda>a c. a * 10 + digit_value c) 0 s"

lemma foldl_decimal:
  "foldl (\<lambda>a c. a * 10 + digit_value c) a s = a * 10 ^ length s + decimal s"
proof (induction s arbitrary: a)
  case (Cons c s)
  have "foldl (\<lambda>a c. a * 10 + digit_value c) a (c # s) = (a * 10 + digit_value c) * 10 ^ length s + decimal s"
    using Cons [of "a * 10 + digit_value c"] by simp
  moreover have "decimal (c # s) = digit_value c * 10 ^ length s + decimal s"
    using Cons [of "digit_value c"] by (simp add: decimal_def)
  ultimately show ?case by (simp add: algebra_simps)
qed (simp add: decimal_def)

lemma decimal_Cons: "decimal (c # s) = digit_value c * 10 ^ length s + decimal s"
  using foldl_decimal [of "digit_value c" s] by (simp add: decimal_def)

lemma digit_value_char: "d < 10 \<Longrightarrow> digit_value (char_of (48 + d)) = d"
  by (simp add: digit_value_def)

lemma itoa_loop_spec:
  "unat v < 10 ^ i \<Longrightarrow>
   \<exists>s. itoa_loop i v acc = Some s \<and> decimal s = unat v * 10 ^ length acc + decimal acc"
proof (induction i arbitrary: v acc)
  case 0
  then have "v = 0" by (simp add: unat_eq_zero)
  then show ?case by simp
next
  case (Suc i)
  show ?case
  proof (cases "v = 0")
    case True
    then show ?thesis by simp
  next
    case False
    let ?c = "char_of (48 + unat (v mod 10)) :: char"
    have "unat (v div 10) < 10 ^ i" using Suc.prems by (simp add: unat_div less_mult_imp_div_less mult.commute)
    from Suc.IH [OF this, of "?c # acc"] obtain s where
      s: "itoa_loop i (v div 10) (?c # acc) = Some s"
      "decimal s = unat (v div 10) * 10 ^ Suc (length acc) + decimal (?c # acc)" by auto
    have "unat (v mod 10) < 10" by (simp add: unat_mod)
    then have "digit_value ?c = unat (v mod 10)" by (rule digit_value_char)
    then have "decimal s = (unat (v div 10) * 10 + unat (v mod 10)) * 10 ^ length acc + decimal acc"
      using s(2) by (simp add: decimal_Cons algebra_simps)
    also have "unat (v div 10) * 10 + unat (v mod 10) = unat v"
      by (simp add: unat_div unat_mod)
    finally show ?thesis using s(1) False by (auto simp: word_greater_zero_iff)
  qed
qed

lemma Derive_stream_inj:
  assumes "Derive seed w s = Derive seed w t"
  shows "s = t"
proof -
  let ?h = "mix (mix (seed + golden) XOR (ucast w + 1) * golden)"
  have "?h XOR (ucast s + 1) * golden = ?h XOR (ucast t + 1) * golden"
    using assms by (auto simp: Derive_def Let_def dest: mix_inj)
  then have "(ucast s + 1 :: u64) * golden = (ucast t + 1) * golden"
    by (rule word_xor_cancel)
  then have "(ucast s :: u64) + 1 = ucast t + 1" by (rule golden_inj)
  then have "uint (ucast s :: u64) = uint (ucast t :: u64)" by simp
  then have "uint s = uint t" by (simp add: uint_up_ucast is_up)
  then show "s = t" by (simp add: word_uint_eq_iff)
qed

section \<open>What the package promises\<close>

text \<open>A bounded draw always returns: the rejection loop ends on every stream, and its
  value lies below the bound.\<close>

lemma Intn_returns:
  assumes "0 < n" and "n < 2 ^ 63"
  shows "\<exists>v r'. Intn n r = Some (v, r') \<and> 0 \<le> v \<and> v < n \<and> base r' = base r"
  by (rule Intn_ex [OF assms])

lemma Intn_returns_witness: "\<exists>v r'. Intn 6 (New 42) = Some (v, r') \<and> 0 \<le> v \<and> v < 6 \<and> base r' = base (New 42)"
  by (rule Intn_returns) simp_all

text \<open>A draw takes one word exactly when the next word is accepted.\<close>

lemma wait_for_less: "wait_for (out_at b) (accepted n) c < 2 ^ 64"
proof -
  obtain k where k: "k < 2 ^ 64" "out_at b (c + of_nat k) = 1" using weyl.hits_within [of b c 1] by blast
  have "wait_for (out_at b) (accepted n) c \<le> k"
    unfolding wait_for_def by (rule Least_le) (simp add: k(2) accepted_1)
  with k(1) show ?thesis by simp
qed

lemma one_word:
  "uint64n n (r\<lparr>ctr := c\<rparr>) = (v, r\<lparr>ctr := c + 1\<rparr>) \<longleftrightarrow>
     accepted n (out_at (base r) (c + 1)) \<and> fst (Mul64 (out_at (base r) (c + 1)) n) = v"
proof -
  let ?w = "wait_for (out_at (base r)) (accepted n) (c + 1)"
  have "(of_nat ?w :: u64) = 0 \<longleftrightarrow> ?w = 0"
    using wait_for_less [of "base r" n "c + 1"] by (auto simp: word_of_nat_eq_0_iff dest: dvd_imp_le)
  moreover have "?w = 0 \<longleftrightarrow> accepted n (out_at (base r) (c + 1))"
    using wait_for_0 [of "accepted n" "out_at (base r)" "c + 1"] draw_accepted [of n "r\<lparr>ctr := c\<rparr>"] by (auto simp: draw_ctr_def)
  ultimately show ?thesis by (cases r) (auto simp: uint64n_spec draw_ctr_def)
qed

text \<open>C12. A bounded draw is unbiased. Over all positions of a source, each value below the bound is what a draw that
  takes one word gives at exactly as many positions; and every draw is the first such draw at or after its position.\<close>

theorem uint64n_unbiased:
  fixes n v :: u64
  assumes "n \<noteq> 0" and "v < n"
  shows "card {c. uint64n n (r\<lparr>ctr := c\<rparr>) = (v, r\<lparr>ctr := c + 1\<rparr>)} = 2 ^ 64 div unat n \<and>
    (\<exists>k x. uint64n n r = (x, r\<lparr>ctr := ctr r + of_nat k + 1\<rparr>) \<and>
       uint64n n (r\<lparr>ctr := ctr r + of_nat k\<rparr>) = (x, r\<lparr>ctr := ctr r + of_nat k + 1\<rparr>) \<and>
       (\<forall>j < k. \<forall>y. uint64n n (r\<lparr>ctr := ctr r + of_nat j\<rparr>) \<noteq> (y, r\<lparr>ctr := ctr r + of_nat j + 1\<rparr>)))"
proof
  let ?f = "\<lambda>c. out_at (base r) (c + 1)"
  have "bij (out_at (base r))" by (rule weyl.out_bij)
  moreover have "bij (\<lambda>c :: u64. c + 1)" by (rule bij_betw_byWitness [where f' = "\<lambda>c. c - 1"]) auto
  ultimately have "bij ?f" using bij_comp [of "\<lambda>c. c + 1" "out_at (base r)"] by (simp add: o_def)
  then have "card (?f -` {x. accepted n x \<and> fst (Mul64 x n) = v}) = card {x. accepted n x \<and> fst (Mul64 x n) = v}"
    by (intro card_vimage_inj) (auto simp: bij_def)
  then show "card {c. uint64n n (r\<lparr>ctr := c\<rparr>) = (v, r\<lparr>ctr := c + 1\<rparr>)} = 2 ^ 64 div unat n"
    unfolding one_word uint64n_unbiased_nat [OF assms] vimage_def by simp
  let ?k = "wait_for (out_at (base r)) (accepted n) (ctr r + 1)" and ?x = "fst (uint64n n r)"
  have k: "draw_ctr n r = ctr r + of_nat ?k + 1" by (simp add: draw_ctr_def)
  have "uint64n n r = (?x, r\<lparr>ctr := ctr r + of_nat ?k + 1\<rparr>)" by (simp add: uint64n_spec k)
  moreover have "uint64n n (r\<lparr>ctr := ctr r + of_nat ?k\<rparr>) = (?x, r\<lparr>ctr := ctr r + of_nat ?k + 1\<rparr>)"
    unfolding one_word using draw_accepted [of n r] by (simp add: uint64n_spec k)
  moreover have "uint64n n (r\<lparr>ctr := ctr r + of_nat j\<rparr>) \<noteq> (y, r\<lparr>ctr := ctr r + of_nat j + 1\<rparr>)" if "j < ?k" for j y
    using not_less_Least [OF that [unfolded wait_for_def]] unfolding one_word by (simp add: ac_simps)
  ultimately show "\<exists>k x. uint64n n r = (x, r\<lparr>ctr := ctr r + of_nat k + 1\<rparr>) \<and>
       uint64n n (r\<lparr>ctr := ctr r + of_nat k\<rparr>) = (x, r\<lparr>ctr := ctr r + of_nat k + 1\<rparr>) \<and>
       (\<forall>j < k. \<forall>y. uint64n n (r\<lparr>ctr := ctr r + of_nat j\<rparr>) \<noteq> (y, r\<lparr>ctr := ctr r + of_nat j + 1\<rparr>))" by blast
qed

theorem uint64n_unbiased_witness:
  "card {c. uint64n 3 ((New 42)\<lparr>ctr := c\<rparr>) = (1, (New 42)\<lparr>ctr := c + 1\<rparr>)} = 2 ^ 64 div unat (3 :: u64)"
  using uint64n_unbiased [of 3 1 "New 42"] by simp

text \<open>A weighted choice picks the index whose share of the total holds the draw, never
  one of weight zero, and none when there is no positive weight.\<close>

lemma Weighted_proportional:
  assumes "wsum ws < 2 ^ 63"
  shows "if wsum ws = 0 then Weighted ws r = Some (-1, r)
         else \<exists>j pick r'. Intn (wsum ws) r = Some (pick, r') \<and> Weighted ws r = Some (int j, r') \<and>
                j < length ws \<and> 0 < ws ! j \<and>
                wsum (take j ws) \<le> pick \<and> pick < wsum (take j ws) + ws ! j"
  by (rule weighted_choice [OF assms])

lemma Weighted_proportional_witness:
  "\<exists>j pick r'. Intn 5 (New 7) = Some (pick, r') \<and> Weighted [2, -1, 0, 3] (New 7) = Some (int j, r') \<and>
     j < 4 \<and> 0 < [2, -1, 0, 3 :: int] ! j"
proof -
  have w: "wsum [2, -1, 0, 3] = 5" by (simp add: wsum_def)
  then have "wsum [2, -1, 0, 3] < 2 ^ 63" by simp
  from Weighted_proportional [OF this, of "New 7"] w show ?thesis by auto
qed

text \<open>The name of a stream number is its decimal numeral.\<close>

lemma itoa_decimal: "\<exists>s. itoa v = Some s \<and> decimal s = unat v"
proof (cases "v = 0")
  case True
  then show ?thesis by (simp add: itoa_def decimal_def digit_value_def)
next
  case False
  have "unat v < 10 ^ 20" using unsigned_less [of v, where 'a = nat] by simp
  from itoa_loop_spec [OF this, of "[]"] False show ?thesis by (simp add: itoa_def decimal_def)
qed

end
