(* ===== verification/IR_Node.thy ===== *)
theory IR_Node
  imports Prelude
begin

text \<open>
  The input tree of \<open>pkg/ir/node.go\<close> and \<open>pkg/ir/ref.go\<close>: node kinds, the
  packed flag byte, children, length bounds, walks, structural equality,
  validation, and references between nodes.

  The scalar fields of a Go \<open>Node\<close> are the record \<open>hdr\<close>; a node is its header
  and its children. No node of a tree is reached twice and no child is nil
  (\<open>Validate\<close> rejects nil), so where the code compares node pointers the model
  compares positions: a position is the list of child indices from the root.
  \<open>Val\<close> is the \<open>int64\<close> as its two's complement word, \<open>Sel\<close>, \<open>MinLen\<close> and
  \<open>MaxLen\<close> are \<open>int32\<close> and are only compared.
\<close>

section \<open>Kinds and flags\<close>

datatype kind =
    KindInvalid | KindBytes | KindInt | KindStr | KindStruct | KindRepeat
  | KindChoice | KindOpt | KindRef | KindDerived
  | KindOther nat \<comment> \<open>a number at or past \<open>numKinds\<close>\<close>

definition IsLeaf :: "kind \<Rightarrow> bool" where
  "IsLeaf k \<longleftrightarrow> k = KindBytes \<or> k = KindInt \<or> k = KindStr \<or> k = KindDerived \<or> k = KindRef"

definition IsContainer :: "kind \<Rightarrow> bool" where
  "IsContainer k \<longleftrightarrow> k = KindStruct \<or> k = KindRepeat \<or> k = KindChoice \<or> k = KindOpt"

datatype endian = BigEndian | LittleEndian

definition flagShared :: byte where "flagShared = 1"
definition flagPresent :: byte where "flagPresent = 2"
definition flagSigned :: byte where "flagSigned = 4"
definition flagImmutable :: byte where "flagImmutable = 8"

section \<open>References and derivations, as data\<close>

record step =
  sName :: string
  sIndex :: int
  ByIndex :: bool

record nref =
  Self :: bool
  Absolute :: bool
  Up :: int
  Steps :: "step list"

datatype derive_kind =
    DeriveLength | DeriveCount | DeriveOffset | DeriveChecksum
  | DeriveOther nat \<comment> \<open>a number at or past \<open>numDeriveKinds\<close>\<close>

record derivation =
  dKind :: derive_kind
  From :: nref
  To :: nref
  Algo :: string
  SelfZero :: bool
  Addend :: u64

section \<open>Nodes\<close>

record hdr =
  Kind :: kind
  Width :: nat
  Endian :: endian
  flags :: byte
  Sel :: int
  Val :: u64
  Name :: string
  Raw :: "byte list"
  MinLen :: int
  MaxLen :: int
  Derive :: "derivation option"
  Target :: "nref option"

datatype node = Node (hdr: hdr) (Children: "node list")

text \<open>\<open>upd\<close> is an assignment to fields of the node a pointer names.\<close>

definition upd :: "(hdr \<Rightarrow> hdr) \<Rightarrow> node \<Rightarrow> node" where
  "upd f n = Node (f (hdr n)) (Children n)"

lemma upd_simps [simp]: "hdr (upd f n) = f (hdr n)" "Children (upd f n) = Children n"
  by (simp_all add: upd_def)

definition Shared :: "hdr \<Rightarrow> bool" where
  "Shared h \<longleftrightarrow> flags h AND flagShared \<noteq> 0"

definition Present :: "hdr \<Rightarrow> bool" where
  "Present h \<longleftrightarrow> Kind h \<noteq> KindOpt \<or> flags h AND flagPresent \<noteq> 0"

definition SetPresent :: "bool \<Rightarrow> hdr \<Rightarrow> hdr" where
  "SetPresent v h =
     (if v then h\<lparr>flags := flags h OR flagPresent\<rparr>
      else h\<lparr>flags := flags h AND NOT flagPresent\<rparr>)"

definition Immutable :: "hdr \<Rightarrow> bool" where
  "Immutable h \<longleftrightarrow> flags h AND flagImmutable \<noteq> 0"

definition SetImmutable :: "bool \<Rightarrow> hdr \<Rightarrow> hdr" where
  "SetImmutable v h =
     (if v then h\<lparr>flags := flags h OR flagImmutable\<rparr>
      else h\<lparr>flags := flags h AND NOT flagImmutable\<rparr>)"

definition Signed :: "hdr \<Rightarrow> bool" where
  "Signed h \<longleftrightarrow> flags h AND flagSigned \<noteq> 0"

definition SetSigned :: "bool \<Rightarrow> hdr \<Rightarrow> hdr" where
  "SetSigned v h =
     (if v then h\<lparr>flags := flags h OR flagSigned\<rparr>
      else h\<lparr>flags := flags h AND NOT flagSigned\<rparr>)"

definition LenBounds :: "hdr \<Rightarrow> int \<times> int \<times> bool" where
  "LenBounds h = (MinLen h, MaxLen h, MaxLen h > 0)"

definition FitsLen :: "hdr \<Rightarrow> int \<Rightarrow> bool" where
  "FitsLen h l = (if l < MinLen h then False else MaxLen h \<le> 0 \<or> l \<le> MaxLen h)"

fun child_index_from :: "nat \<Rightarrow> string \<Rightarrow> node list \<Rightarrow> nat option" where
  "child_index_from i name [] = None"
| "child_index_from i name (c # cs) =
     (if Name (hdr c) = name then Some i else child_index_from (Suc i) name cs)"

definition ChildIndex :: "node \<Rightarrow> string \<Rightarrow> int" where
  "ChildIndex n name = (case child_index_from 0 name (Children n) of Some i \<Rightarrow> int i | None \<Rightarrow> -1)"

definition Child :: "node \<Rightarrow> string \<Rightarrow> node option" where
  "Child n name = find (\<lambda>c. Name (hdr c) = name) (Children n)"

definition Append :: "node \<Rightarrow> node list \<Rightarrow> node" where
  "Append n kids = Node (hdr n) (Children n @ kids)"

text \<open>
  \<open>Selected\<close> by position: the index of the active child, when there is one.
\<close>

definition selected_index :: "hdr \<Rightarrow> nat \<Rightarrow> nat option" where
  "selected_index h len =
     (if Kind h \<noteq> KindChoice \<or> Sel h < 0 \<or> Sel h \<ge> int len then None else Some (nat (Sel h)))"

definition Selected :: "node \<Rightarrow> node option" where
  "Selected n = map_option (\<lambda>i. Children n ! i) (selected_index (hdr n) (length (Children n)))"

section \<open>Walks\<close>

text \<open>
  \<open>Walk\<close> threads the state the Go closure captures; the callback returns
  whether the children are visited.
\<close>

fun Walk :: "(node \<Rightarrow> 's \<Rightarrow> bool \<times> 's) \<Rightarrow> node \<Rightarrow> 's \<Rightarrow> 's" where
  "Walk fn (Node h cs) s =
     (let (go, s) = fn (Node h cs) s
      in if \<not> go then s else fold (Walk fn) cs s)"

fun WalkPost :: "(node \<Rightarrow> 's \<Rightarrow> 's) \<Rightarrow> node \<Rightarrow> 's \<Rightarrow> 's" where
  "WalkPost fn (Node h cs) s = fn (Node h cs) (fold (WalkPost fn) cs s)"

definition Count :: "node \<Rightarrow> nat" where
  "Count n = Walk (\<lambda>_ c. (True, c + 1)) n 0"

fun Depth :: "node \<Rightarrow> nat" where
  "Depth (Node h cs) = fold (\<lambda>c best. if Depth c > best then Depth c else best) cs 0 + 1"

text \<open>The nodes of a tree in document order, what an unpruned walk visits.\<close>

fun preorder :: "node \<Rightarrow> node list" where
  "preorder (Node h cs) = Node h cs # concat (map preorder cs)"

lemma Walk_preorder:
  "Walk (\<lambda>n s. (True, f n s)) t s = fold f (preorder t) s"
proof (induction t arbitrary: s)
  case (Node h cs)
  have "fold (Walk (\<lambda>n s. (True, f n s))) cs s = fold f (concat (map preorder cs)) s" for s
    using Node by (induction cs arbitrary: s) auto
  then show ?case by simp
qed

lemma Count_preorder: "Count n = length (preorder n)"
proof -
  have "fold (\<lambda>_ c. c + 1) xs k = k + length xs" for xs :: "node list" and k :: nat
    by (induction xs arbitrary: k) auto
  then show ?thesis unfolding Count_def Walk_preorder by simp
qed

section \<open>Structural equality\<close>

definition ref_equal :: "nref \<Rightarrow> nref \<Rightarrow> bool" where
  "ref_equal r q \<longleftrightarrow>
     Self r = Self q \<and> Absolute r = Absolute q \<and> Up r = Up q \<and>
     length (Steps r) = length (Steps q) \<and>
     list_all (\<lambda>i. Steps r ! i = Steps q ! i) [0..<length (Steps r)]"

definition derivation_equal :: "derivation \<Rightarrow> derivation \<Rightarrow> bool" where
  "derivation_equal d e \<longleftrightarrow>
     dKind d = dKind e \<and> ref_equal (From d) (From e) \<and> ref_equal (To d) (To e) \<and>
     Algo d = Algo e \<and> SelfZero d = SelfZero e \<and> Addend d = Addend e"

fun opt_equal :: "('a \<Rightarrow> 'a \<Rightarrow> bool) \<Rightarrow> 'a option \<Rightarrow> 'a option \<Rightarrow> bool" where
  "opt_equal eq None None = True"
| "opt_equal eq (Some a) (Some b) = eq a b"
| "opt_equal eq _ _ = False"

definition bytesEqual :: "byte list \<Rightarrow> byte list \<Rightarrow> bool" where
  "bytesEqual a b \<longleftrightarrow>
     length a = length b \<and> list_all (\<lambda>i. a ! i = b ! i) [0..<length a]"

fun Equal :: "node \<Rightarrow> node \<Rightarrow> bool" where
  "Equal (Node a as) (Node b bs) =
     (Kind a = Kind b \<and> Name a = Name b \<and> Width a = Width b \<and>
      Endian a = Endian b \<and> Sel a = Sel b \<and> Val a = Val b \<and>
      MinLen a = MinLen b \<and> MaxLen a = MaxLen b \<and>
      Present a = Present b \<and> Signed a = Signed b \<and> Immutable a = Immutable b \<and>
      bytesEqual (Raw a) (Raw b) \<and> length as = length bs \<and>
      opt_equal derivation_equal (Derive a) (Derive b) \<and>
      opt_equal ref_equal (Target a) (Target b) \<and>
      list_all2 Equal as bs)"

section \<open>Validation\<close>

datatype problem =
    InvalidKind | BadWidth | NoDerivation | NoAlternatives | BadSelection
  | OptArity | NoTarget | MinOverMax | PayloadBounds | ElementBounds | LeafWithChildren

definition joinPath :: "string \<Rightarrow> string \<Rightarrow> string" where
  "joinPath base name =
     (if name = [] then base else if base = [] then name else base @ ''.'' @ name)"

definition pathOr :: "string \<Rightarrow> string" where
  "pathOr p = (if p = [] then ''<root>'' else p)"

text \<open>The checks \<open>validate\<close> makes of one node, in the order it makes them.\<close>

definition check_kind :: "hdr \<Rightarrow> bool" where
  "check_kind h \<longleftrightarrow> Kind h = KindInvalid \<or> (case Kind h of KindOther _ \<Rightarrow> True | _ \<Rightarrow> False)"

definition check_by_kind :: "hdr \<Rightarrow> nat \<Rightarrow> problem option" where
  "check_by_kind h len =
     (if Kind h = KindInt \<or> Kind h = KindDerived then
        (if Width h \<notin> {1, 2, 4, 8} then Some BadWidth
         else if Kind h = KindDerived \<and> Derive h = None then Some NoDerivation
         else None)
      else if Kind h = KindChoice then
        (if len = 0 then Some NoAlternatives
         else if Sel h < 0 \<or> Sel h \<ge> int len then Some BadSelection
         else None)
      else if Kind h = KindOpt then (if len \<noteq> 1 then Some OptArity else None)
      else if Kind h = KindRef then (if Target h = None then Some NoTarget else None)
      else None)"

definition check_bounds :: "hdr \<Rightarrow> nat \<Rightarrow> problem option" where
  "check_bounds h len =
     (if MaxLen h > 0 \<and> MinLen h > MaxLen h then Some MinOverMax
      else if (Kind h = KindBytes \<or> Kind h = KindStr) \<and> \<not> FitsLen h (int (length (Raw h)))
      then Some PayloadBounds
      else if Kind h = KindRepeat \<and> \<not> FitsLen h (int len) then Some ElementBounds
      else if IsLeaf (Kind h) \<and> len > 0 then Some LeafWithChildren
      else None)"

definition check_node :: "hdr \<Rightarrow> nat \<Rightarrow> problem option" where
  "check_node h len =
     (if check_kind h then Some InvalidKind
      else case check_by_kind h len of
             Some p \<Rightarrow> Some p
           | None \<Rightarrow> check_bounds h len)"

text \<open>The first error of a list of checks, in order.\<close>

fun first_error :: "'e option list \<Rightarrow> 'e option" where
  "first_error [] = None"
| "first_error (None # es) = first_error es"
| "first_error (Some e # es) = Some e"

lemma first_error_None: "first_error es = None \<longleftrightarrow> (\<forall>e \<in> set es. e = None)"
  by (induction es rule: first_error.induct) auto

fun validate :: "node \<Rightarrow> string \<Rightarrow> (string \<times> problem) option" where
  "validate (Node h cs) path =
     (let here = joinPath path (Name h)
      in case check_node h (length cs) of
           Some p \<Rightarrow> Some (pathOr here, p)
         | None \<Rightarrow> first_error (map (\<lambda>c. validate c here) cs))"

definition Validate :: "node \<Rightarrow> (string \<times> problem) option" where
  "Validate n = validate n []"

text \<open>Validity as a predicate: where the first error is found does not matter.\<close>

fun valid :: "node \<Rightarrow> bool" where
  "valid (Node h cs) \<longleftrightarrow> check_node h (length cs) = None \<and> list_all valid cs"

lemma validate_valid: "validate n path = None \<longleftrightarrow> valid n"
  by (induction n arbitrary: path)
     (auto simp: Let_def first_error_None list_all_iff split: option.splits)

lemma Validate_valid: "Validate n = None \<longleftrightarrow> valid n"
  by (simp add: Validate_def validate_valid)

lemma valid_children: "valid n \<Longrightarrow> c \<in> set (Children n) \<Longrightarrow> valid c"
  by (cases n) (auto simp: list_all_iff)

lemma valid_nth: "valid (Node h cs) \<Longrightarrow> i < length cs \<Longrightarrow> valid (cs ! i)"
  by (simp add: list_all_iff)

lemma valid_iff:
  "valid n \<longleftrightarrow> check_node (hdr n) (length (Children n)) = None \<and> (\<forall>c \<in> set (Children n). valid c)"
  by (cases n) (auto simp: list_all_iff)

lemmas check_simps = check_node_def check_kind_def check_by_kind_def check_bounds_def

named_theorems valid_node \<open>what validity of one node gives\<close>

lemma check_node_leaf [valid_node]:
  "check_node h len = None \<Longrightarrow> IsLeaf (Kind h) \<Longrightarrow> len = 0"
  by (auto simp: check_simps split: if_splits option.splits)

lemma check_node_width [valid_node]:
  "check_node h len = None \<Longrightarrow> Kind h = KindInt \<or> Kind h = KindDerived \<Longrightarrow> Width h \<in> {1, 2, 4, 8}"
  by (auto simp: check_simps split: if_splits option.splits)

lemma check_node_derive [valid_node]:
  "check_node h len = None \<Longrightarrow> Kind h = KindDerived \<Longrightarrow> Derive h \<noteq> None"
  by (auto simp: check_simps split: if_splits option.splits)

lemma check_node_choice [valid_node]:
  "check_node h len = None \<Longrightarrow> Kind h = KindChoice \<Longrightarrow> 0 \<le> Sel h \<and> Sel h < int len"
  by (auto simp: check_simps split: if_splits option.splits)

lemma check_node_opt [valid_node]:
  "check_node h len = None \<Longrightarrow> Kind h = KindOpt \<Longrightarrow> len = 1"
  by (auto simp: check_simps split: if_splits option.splits)

lemma check_node_kind [valid_node]:
  "check_node h len = None \<Longrightarrow> Kind h \<noteq> KindInvalid \<and> Kind h \<noteq> KindOther k"
  by (auto simp: check_simps split: if_splits option.splits)

section \<open>Flag setters\<close>

lemma bit_flag_word: "m < 8 \<Longrightarrow> bit (2 ^ m :: byte) n \<longleftrightarrow> n = m"
  by (auto simp: bit_simps)

lemma flag_test_bit: "m < 8 \<Longrightarrow> f AND 2 ^ m \<noteq> 0 \<longleftrightarrow> bit (f :: byte) m"
  by (auto simp: bit_eq_iff [where 'a = "8 word"] bit_and_iff bit_flag_word)

lemma flag_bits:
  "bit flagPresent n \<longleftrightarrow> n = 1" "bit flagSigned n \<longleftrightarrow> n = 2"
  "bit flagImmutable n \<longleftrightarrow> n = 3" "bit flagShared n \<longleftrightarrow> n = 0"
  using bit_flag_word [of 1 n] bit_flag_word [of 2 n] bit_flag_word [of 3 n] bit_flag_word [of 0 n]
  by (simp_all add: flagPresent_def flagSigned_def flagImmutable_def flagShared_def)

lemma flag_bit:
  fixes f :: byte
  shows "f AND flagPresent \<noteq> 0 \<longleftrightarrow> bit f 1" "f AND flagSigned \<noteq> 0 \<longleftrightarrow> bit f 2"
    "f AND flagImmutable \<noteq> 0 \<longleftrightarrow> bit f 3" "f AND flagShared \<noteq> 0 \<longleftrightarrow> bit f 0"
  using flag_test_bit [of 1 f] flag_test_bit [of 2 f] flag_test_bit [of 3 f] flag_test_bit [of 0 f]
  by (simp_all add: flagPresent_def flagSigned_def flagImmutable_def flagShared_def)

lemma flag_setters [simp]:
  "Present (SetPresent v h) \<longleftrightarrow> Kind h \<noteq> KindOpt \<or> v"
  "Signed (SetPresent v h) = Signed h"
  "Immutable (SetPresent v h) = Immutable h"
  "Shared (SetPresent v h) = Shared h"
  "Kind (SetPresent v h) = Kind h" "Sel (SetPresent v h) = Sel h"
  "MinLen (SetPresent v h) = MinLen h" "MaxLen (SetPresent v h) = MaxLen h"
  "Raw (SetPresent v h) = Raw h" "Width (SetPresent v h) = Width h"
  "Derive (SetPresent v h) = Derive h" "Target (SetPresent v h) = Target h"
  "Name (SetPresent v h) = Name h" "Val (SetPresent v h) = Val h" "Endian (SetPresent v h) = Endian h"
  by (auto simp: Present_def Signed_def Immutable_def Shared_def SetPresent_def flag_bit
      bit_simps flag_bits)

lemma flag_setters_other [simp]:
  "Immutable (SetImmutable v h) = v" "Signed (SetSigned v h) = v"
  "Present (SetImmutable v h) = Present h" "Present (SetSigned v h) = Present h"
  "Signed (SetImmutable v h) = Signed h" "Immutable (SetSigned v h) = Immutable h"
  "Shared (SetImmutable v h) = Shared h" "Shared (SetSigned v h) = Shared h"
  by (auto simp: Present_def Signed_def Immutable_def Shared_def SetImmutable_def SetSigned_def
      flag_bit bit_simps flag_bits)

section \<open>Resolving references\<close>

text \<open>
  Errors of the package. The source wraps them with messages; what a caller can
  test is which of them it is. \<open>GoPanic\<close> is not an error value: it marks an
  index out of range.
\<close>

datatype ir_error =
    NoSuchNode | CyclicDerivation | NotEncoded | UnknownAlgo | UnknownClass
  | MissingDerivation | ReversedRange | GoPanic

type_synonym pos = "nat list"

fun subtree :: "node \<Rightarrow> pos \<Rightarrow> node option" where
  "subtree n [] = Some n"
| "subtree n (i # p) = (if i < length (Children n) then subtree (Children n ! i) p else None)"

fun follow :: "node \<Rightarrow> step list \<Rightarrow> ir_error + pos" where
  "follow n [] = Inr []"
| "follow n (s # ss) =
     (if ByIndex s
      then (if sIndex s < 0 \<or> sIndex s \<ge> int (length (Children n)) then Inl NoSuchNode
            else map_sum id ((#) (nat (sIndex s))) (follow (Children n ! nat (sIndex s)) ss))
      else (case child_index_from 0 (sName s) (Children n) of
              None \<Rightarrow> Inl NoSuchNode
            | Some i \<Rightarrow> map_sum id ((#) i) (follow (Children n ! i) ss)))"

text \<open>
  \<open>Resolve\<close> by position: the ancestor chain of the node at \<open>p\<close> is the list
  of the proper prefixes of \<open>p\<close>, the root first.
\<close>

definition Resolve :: "nref \<Rightarrow> node \<Rightarrow> pos \<Rightarrow> ir_error + pos" where
  "Resolve r root p =
     (if Self r then Inr p
      else let i = int (length p) - 1 - Up r
           in if \<not> Absolute r \<and> i < 0 then Inl NoSuchNode
              else if \<not> Absolute r \<and> i \<ge> int (length p) then Inl GoPanic
              else let b = (if Absolute r then [] else take (nat i) p)
                   in case subtree root b of
                        None \<Rightarrow> Inl NoSuchNode
                      | Some n \<Rightarrow> map_sum id ((@) b) (follow n (Steps r)))"

definition IsZero :: "nref \<Rightarrow> bool" where
  "IsZero r \<longleftrightarrow> \<not> Self r \<and> \<not> Absolute r \<and> Up r = 0 \<and> length (Steps r) = 0"

definition Sibling :: "string \<Rightarrow> nref" where
  "Sibling name = \<lparr>Self = False, Absolute = False, Up = 0,
     Steps = [\<lparr>sName = name, sIndex = 0, ByIndex = False\<rparr>]\<rparr>"

definition SiblingAt :: "int \<Rightarrow> nref" where
  "SiblingAt i = \<lparr>Self = False, Absolute = False, Up = 0,
     Steps = [\<lparr>sName = [], sIndex = i, ByIndex = True\<rparr>]\<rparr>"

definition Parent :: nref where
  "Parent = \<lparr>Self = False, Absolute = False, Up = 0, Steps = []\<rparr>"

definition SelfRef :: nref where
  "SelfRef = \<lparr>Self = True, Absolute = False, Up = 0, Steps = []\<rparr>"

definition AbsoluteRef :: "step list \<Rightarrow> nref" where
  "AbsoluteRef steps = \<lparr>Self = False, Absolute = True, Up = 0, Steps = steps\<rparr>"

lemma subtree_append: "subtree n (p @ q) = Option.bind (subtree n p) (\<lambda>m. subtree m q)"
  by (induction n p rule: subtree.induct) auto

lemma child_index_from_Some:
  "child_index_from i name cs = Some k \<Longrightarrow>
   i \<le> k \<and> k < i + length cs \<and> Name (hdr (cs ! (k - i))) = name"
  by (induction i name cs rule: child_index_from.induct)
     (auto simp: nth_Cons' split: if_splits)

lemma follow_subtree: "follow n ss = Inr p \<Longrightarrow> subtree n p \<noteq> None"
proof (induction n ss arbitrary: p rule: follow.induct)
  case (2 n s ss)
  show ?case
  proof (cases "ByIndex s")
    case True
    with "2.prems" have "nat (sIndex s) < length (Children n)" "0 \<le> sIndex s"
      by (auto split: if_splits)
    with True "2.prems" "2.IH"(1) show ?thesis
      by (cases "follow (Children n ! nat (sIndex s)) ss") (auto split: if_splits)
  next
    case False
    with "2.prems" obtain i where i: "child_index_from 0 (sName s) (Children n) = Some i"
      by (auto split: option.splits)
    with child_index_from_Some [OF i] False "2.prems" "2.IH"(2) show ?thesis
      by (cases "follow (Children n ! i) ss") auto
  qed
qed simp

text \<open>What a reference resolves to is a node of the tree.\<close>

lemma Resolve_subtree:
  assumes "Resolve r root p = Inr q" and "subtree root p \<noteq> None"
  shows "subtree root q \<noteq> None"
proof (cases "Self r")
  case True
  then show ?thesis using assms by (simp add: Resolve_def)
next
  case False
  define b where "b = (if Absolute r then [] else take (nat (int (length p) - 1 - Up r)) p)"
  from assms(1) False obtain n where n: "subtree root b = Some n"
    and "map_sum id ((@) b) (follow n (Steps r)) = Inr q"
    by (auto simp: Resolve_def b_def Let_def split: if_splits option.splits)
  then obtain q' where "follow n (Steps r) = Inr q'" "q = b @ q'"
    by (cases "follow n (Steps r)") auto
  with n follow_subtree show ?thesis by (auto simp: subtree_append)
qed

end
