(* ===== verification/IR_Encode.thy ===== *)
theory IR_Encode
  imports IR_Node
begin

text \<open>
  Encoding, \<open>pkg/ir/encode.go\<close>: the wire form of a tree is the concatenation
  of its leaves in document order. Integer fields are written and read at
  their width, in either byte order.
\<close>

section \<open>Integers\<close>

definition appendInt :: "byte list \<Rightarrow> u64 \<Rightarrow> nat \<Rightarrow> endian \<Rightarrow> byte list" where
  "appendInt dst v width e =
     (if e = LittleEndian
      then dst @ map (\<lambda>i. ucast (drop_bit (8 * i) v)) [0..<width]
      else dst @ map (\<lambda>i. ucast (drop_bit (8 * i) v)) (rev [0..<width]))"

text \<open>\<open>putInt\<close> overwrites the first bytes of its slice; a short slice panics.\<close>

definition putInt :: "byte list \<Rightarrow> u64 \<Rightarrow> nat \<Rightarrow> endian \<Rightarrow> byte list option" where
  "putInt dst v width e =
     (if length dst < width then None
      else if e = LittleEndian
      then Some (map (\<lambda>i. ucast (drop_bit (8 * i) v)) [0..<width] @ drop width dst)
      else Some (map (\<lambda>i. ucast (drop_bit (8 * (width - 1 - i)) v)) [0..<width] @ drop width dst))"

definition shift_in :: "u64 \<Rightarrow> byte \<Rightarrow> u64" where
  "shift_in u b = push_bit 8 u OR ucast b"

definition ReadInt :: "byte list \<Rightarrow> nat \<Rightarrow> endian \<Rightarrow> bool \<Rightarrow> u64 option" where
  "ReadInt b width e sgnd =
     (if length b < width then None
      else
        let u = (if e = LittleEndian
                 then foldl (\<lambda>u i. shift_in u (b ! i)) 0 (rev [0..<width])
                 else foldl (\<lambda>u i. shift_in u (b ! i)) 0 [0..<width])
        in if \<not> sgnd \<or> width = 8 then Some u
           else if width > 8 then Some 0
           else (let shift = 64 - 8 * width
                 in Some (signed_drop_bit shift (push_bit shift u))))"

definition truncate_val :: "u64 \<Rightarrow> nat \<Rightarrow> u64" where
  "truncate_val v width =
     (if width \<ge> 8 then v else v AND (push_bit (8 * width) 1 - 1))"

lemma truncate_val_take_bit: "truncate_val v width = take_bit (8 * width) v"
proof (cases "width \<ge> 8")
  case True
  then show ?thesis by (simp add: truncate_val_def take_bit_word_eq_self)
next
  case False
  then show ?thesis by (simp add: truncate_val_def take_bit_eq_mask mask_eq_exp_minus_1 push_bit_eq_mult)
qed

text \<open>Both orders in terms of the little-endian bytes of a value.\<close>

definition le_bytes :: "nat \<Rightarrow> u64 \<Rightarrow> byte list" where
  "le_bytes w v = map (\<lambda>i. ucast (drop_bit (8 * i) v)) [0..<w]"

definition int_bytes :: "u64 \<Rightarrow> nat \<Rightarrow> endian \<Rightarrow> byte list" where
  "int_bytes v w e = (if e = LittleEndian then le_bytes w v else rev (le_bytes w v))"

lemma length_le_bytes [simp]: "length (le_bytes w v) = w"
  by (simp add: le_bytes_def)

lemma length_int_bytes [simp]: "length (int_bytes v w e) = w"
  by (simp add: int_bytes_def)

lemma appendInt_bytes: "appendInt dst v w e = dst @ int_bytes v w e"
  by (simp add: appendInt_def int_bytes_def le_bytes_def rev_map)

lemma map_rev_upt: "map (\<lambda>i. f (w - 1 - i)) [0..<w] = rev (map f [0..<w])"
  by (rule nth_equalityI) (auto simp: rev_nth)

lemma putInt_bytes: "w \<le> length dst \<Longrightarrow> putInt dst v w e = Some (int_bytes v w e @ drop w dst)"
  using map_rev_upt [of "\<lambda>i. ucast (drop_bit (8 * i) v) :: byte" w]
  by (simp add: putInt_def int_bytes_def le_bytes_def)

lemma foldl_shift_in:
  "foldl shift_in u (rev (le_bytes w v)) = push_bit (8 * w) u OR take_bit (8 * w) v"
proof (induction w arbitrary: u)
  case 0
  then show ?case by (simp add: le_bytes_def)
next
  case (Suc w)
  have "rev (le_bytes (Suc w) v) = ucast (drop_bit (8 * w) v) # rev (le_bytes w v)"
    by (simp add: le_bytes_def)
  then have "foldl shift_in u (rev (le_bytes (Suc w) v)) =
      push_bit (8 * w) (shift_in u (ucast (drop_bit (8 * w) v))) OR take_bit (8 * w) v"
    using Suc by simp
  also have "\<dots> = push_bit (8 * Suc w) u OR take_bit (8 * Suc w) v"
    by (rule bit_word_eqI) (auto simp: shift_in_def bit_simps add.commute [of 8])
  finally show ?case .
qed

lemma foldl_map_idx: "foldl (\<lambda>u i. f u (xs ! i)) u is = foldl f u (map ((!) xs) is)"
  by (induction "is" arbitrary: u) auto

lemma ReadInt_unsigned:
  "ReadInt (int_bytes v w e) w e False = Some (take_bit (8 * w) v)"
proof -
  have "map ((!) xs) [0..<length xs] = xs" for xs :: "byte list" by (simp add: map_nth)
  then have "map ((!) xs) (rev [0..<length xs]) = rev xs" for xs :: "byte list"
    by (metis rev_map)
  from this [of "le_bytes w v"] map_nth [of "rev (le_bytes w v)"]
  show ?thesis
    by (cases e) (simp_all add: ReadInt_def int_bytes_def foldl_map_idx foldl_shift_in)
qed

text \<open>The signed reading of a field of \<open>w\<close> bytes.\<close>

lemma sign_extend:
  fixes v :: u64
  assumes "0 < w" and "w \<le> 8"
  shows "signed_drop_bit (64 - 8 * w) (push_bit (64 - 8 * w) (take_bit (8 * w) v)) =
         signed_take_bit (8 * w - 1) v"
proof (rule bit_word_eqI)
  fix n assume "n < LENGTH(64)"
  with assms show "bit (signed_drop_bit (64 - 8 * w) (push_bit (64 - 8 * w) (take_bit (8 * w) v))) n =
      bit (signed_take_bit (8 * w - 1) v) n"
    by (cases "n = 8 * w - 1") (auto simp: bit_simps min_def)
qed

lemma ReadInt_signed:
  assumes "0 < w" and "w \<le> 8"
  shows "ReadInt (int_bytes v w e) w e True = Some (signed_take_bit (8 * w - 1) v)"
proof -
  have "bit (signed_take_bit 63 v) n = bit v n" for n
    by (cases "n = 63") (auto simp: bit_simps min_def dest: bit_imp_le_length)
  then have "signed_take_bit 63 v = v" by (simp add: bit_eq_iff)
  with assms ReadInt_unsigned [of v w e] sign_extend [OF assms, of v] show ?thesis
    by (auto simp: ReadInt_def Let_def split: if_splits)
qed

text \<open>An integer field reads back as the value written, cut to the field's width, in
  either byte order, with the sign extended when the field is signed.\<close>

lemma ReadInt_putInt:
  assumes "0 < w" and "w \<le> 8" and "w \<le> length dst"
  shows "\<exists>bs. putInt dst v w e = Some bs \<and> length bs = length dst \<and> drop w bs = drop w dst \<and>
    ReadInt (take w bs) w e False = Some (take_bit (8 * w) v) \<and>
    ReadInt (take w bs) w e True = Some (signed_take_bit (8 * w - 1) v)"
  using ReadInt_unsigned [of v w e] ReadInt_signed [OF assms(1,2), of v e] putInt_bytes [OF assms(3), of v e] assms(3)
  by simp

lemma ReadInt_putInt_witness:
  "\<exists>bs. putInt [0, 0, 7] 0x1FF80 2 BigEndian = Some bs \<and> length bs = length [0, 0, 7 :: byte] \<and>
    drop 2 bs = drop 2 [0, 0, 7] \<and>
    ReadInt (take 2 bs) 2 BigEndian False = Some (take_bit (8 * 2) 0x1FF80) \<and>
    ReadInt (take 2 bs) 2 BigEndian True = Some (signed_take_bit (8 * 2 - 1) 0x1FF80)"
  by (rule ReadInt_putInt) simp_all

text \<open>Every byte string of up to eight bytes is the encoding of the value read from it.\<close>

lemma le_bytes_Suc: "le_bytes (Suc w) v = ucast v # le_bytes w (drop_bit 8 v)"
proof -
  have "[0..<Suc w] = 0 # map Suc [0..<w]" by (simp add: map_Suc_upt upt_conv_Cons del: upt_Suc)
  then show ?thesis unfolding le_bytes_def by (simp add: o_def add.commute)
qed

lemma le_bytes_onto: "length bs \<le> 8 \<Longrightarrow> \<exists>v. le_bytes (length bs) v = bs \<and> take_bit (8 * length bs) v = v"
proof (induction bs)
  case (Cons b bs)
  then obtain v where v: "le_bytes (length bs) v = bs" "take_bit (8 * length bs) v = v" by auto
  let ?u = "shift_in v b"
  have hi: "n < 8 * length bs" if "bit v n" for n
    using that v(2) by (metis bit_take_bit_iff)
  then have "bit (drop_bit 8 ?u) n = bit v n" for n
    using Cons.prems by (force simp: shift_in_def bit_simps dest: bit_imp_le_length)
  then have "drop_bit 8 ?u = v" by (simp add: bit_eq_iff)
  moreover have "(ucast ?u :: byte) = b"
    by (rule bit_word_eqI) (simp add: shift_in_def bit_simps)
  moreover have "bit (take_bit (8 * length (b # bs)) ?u) n = bit ?u n" for n
    using hi [of "n - 8"] by (auto simp: shift_in_def bit_simps dest: bit_imp_le_length)
  then have "take_bit (8 * length (b # bs)) ?u = ?u" by (simp add: bit_eq_iff)
  ultimately show ?case using v(1) by (intro exI [of _ ?u]) (simp add: le_bytes_Suc)
qed (simp add: le_bytes_def)

lemma ReadInt_onto:
  assumes "length bs = w" and "w \<le> 8"
  obtains v where "ReadInt bs w e False = Some v" "int_bytes v w e = bs" "take_bit (8 * w) v = v"
proof -
  define cs where "cs = (if e = LittleEndian then bs else rev bs)"
  then have "length cs = w" using assms(1) by simp
  then obtain v where v: "le_bytes w v = cs" "take_bit (8 * w) v = v" using le_bytes_onto [of cs] assms(2) by auto
  then have b: "int_bytes v w e = bs" by (simp add: int_bytes_def cs_def)
  with ReadInt_unsigned [of v w e] v(2) that show thesis by simp
qed

lemma int_bytes_inject: "int_bytes u w e = int_bytes v w e \<Longrightarrow> take_bit (8 * w) u = take_bit (8 * w) v"
  by (metis ReadInt_unsigned option.inject)

section \<open>Trees\<close>

lemma selected_index_less: "selected_index h len = Some i \<Longrightarrow> i < len"
  by (auto simp: selected_index_def split: if_splits)

lemma size_nth_less [termination_simp]: "i < length cs \<Longrightarrow> size (cs ! i) < Suc (size_list size cs)"
  by (metis less_Suc_eq_le nth_mem order_refl size_list_estimation')

lemma size_selected_less [termination_simp]:
  "selected_index h (length cs) = Some i \<Longrightarrow> size (cs ! i) < Suc (size_list size cs)"
  by (rule size_nth_less) (rule selected_index_less)

fun EncodedLen :: "node \<Rightarrow> nat" where
  "EncodedLen (Node h cs) =
     (if Kind h = KindBytes \<or> Kind h = KindStr then length (Raw h)
      else if Kind h = KindInt \<or> Kind h = KindDerived then Width h
      else if Kind h = KindRef then 0
      else if Kind h = KindChoice then
        (case selected_index h (length cs) of None \<Rightarrow> 0 | Some i \<Rightarrow> EncodedLen (cs ! i))
      else if Kind h = KindOpt then
        (if \<not> Present h \<or> length cs = 0 then 0 else EncodedLen (cs ! 0))
      else sum_list (map EncodedLen cs))"

fun AppendEncode :: "byte list \<Rightarrow> node \<Rightarrow> byte list" where
  "AppendEncode dst (Node h cs) =
     (if Kind h = KindBytes \<or> Kind h = KindStr then dst @ Raw h
      else if Kind h = KindInt \<or> Kind h = KindDerived
      then appendInt dst (Val h) (Width h) (Endian h)
      else if Kind h = KindRef then dst
      else if Kind h = KindChoice then
        (case selected_index h (length cs) of None \<Rightarrow> dst | Some i \<Rightarrow> AppendEncode dst (cs ! i))
      else if Kind h = KindOpt then
        (if \<not> Present h \<or> length cs = 0 then dst else AppendEncode dst (cs ! 0))
      else fold (\<lambda>c dst. AppendEncode dst c) cs dst)"

definition Encode :: "node \<Rightarrow> byte list" where
  "Encode n = AppendEncode [] n"

declare EncodedLen.simps [simp del] AppendEncode.simps [simp del]

lemma fold_append_concat: "fold (\<lambda>c dst. dst @ f c) cs dst = dst @ concat (map f cs)"
  by (induction cs arbitrary: dst) auto

lemma AppendEncode_append: "AppendEncode dst n = dst @ Encode n"
proof (induction n arbitrary: dst)
  case (Node h cs)
  have "fold (\<lambda>c dst. AppendEncode dst c) cs dst = fold (\<lambda>c dst. dst @ Encode c) cs dst" for dst
    using Node by (intro fold_cong) auto
  then have kids: "fold (\<lambda>c dst. AppendEncode dst c) cs dst = dst @ concat (map Encode cs)" for dst
    by (simp add: fold_append_concat)
  have child: "AppendEncode dst (cs ! i) = dst @ Encode (cs ! i)" if "i < length cs" for i dst
    using Node [OF nth_mem [OF that]] .
  have "Encode (Node h cs) = AppendEncode [] (Node h cs)" by (simp add: Encode_def)
  then show ?case
    using child [of 0]
    by (auto simp: AppendEncode.simps [of _ h cs] appendInt_bytes kids child selected_index_less
        split: option.splits)
qed

text \<open>The encoding, case by case.\<close>

lemma Encode_Node:
  "Encode (Node h cs) =
     (if Kind h = KindBytes \<or> Kind h = KindStr then Raw h
      else if Kind h = KindInt \<or> Kind h = KindDerived then int_bytes (Val h) (Width h) (Endian h)
      else if Kind h = KindRef then []
      else if Kind h = KindChoice then
        (case selected_index h (length cs) of None \<Rightarrow> [] | Some i \<Rightarrow> Encode (cs ! i))
      else if Kind h = KindOpt then
        (if \<not> Present h \<or> length cs = 0 then [] else Encode (cs ! 0))
      else concat (map Encode cs))"
  unfolding Encode_def [of "Node h cs"] AppendEncode.simps
  by (simp add: AppendEncode_append appendInt_bytes fold_append_concat split: option.split)

lemma length_Encode: "length (Encode n) = EncodedLen n"
proof (induction n)
  case (Node h cs)
  have "map (length \<circ> Encode) cs = map EncodedLen cs" using Node by auto
  then have "length (concat (map Encode cs)) = sum_list (map EncodedLen cs)"
    by (simp only: length_concat map_map)
  then show ?case
    unfolding Encode_Node EncodedLen.simps [of h cs]
    by (auto simp: Node selected_index_less split: option.splits)
qed

end
