(* ===== verification/IR_Layout.thy ===== *)
theory IR_Layout
  imports IR_Encode "HOL-Library.Sublist"
begin

text \<open>
  Sizes and positions of nodes in the encoding: the passes \<open>measure\<close> and
  \<open>locate\<close> of \<open>pkg/ir/fixup.go\<close>, and what they say about \<open>Encode\<close>. The maps
  \<open>length\<close> and \<open>off\<close> of a \<open>Fixer\<close>, keyed by node pointers in the source, are
  keyed by positions.
\<close>

section \<open>The passes\<close>

definition contributes :: "hdr \<Rightarrow> nat \<Rightarrow> nat \<Rightarrow> bool" where
  "contributes h len i =
     (if Kind h = KindChoice then selected_index h len = Some i
      else if Kind h = KindOpt then Present h
      else True)"

fun measure_node :: "node \<Rightarrow> nat" and measure_kids :: "hdr \<Rightarrow> nat \<Rightarrow> nat \<Rightarrow> node list \<Rightarrow> nat" where
  "measure_node (Node h cs) =
     (if Kind h = KindBytes \<or> Kind h = KindStr then length (Raw h)
      else if Kind h = KindInt \<or> Kind h = KindDerived then Width h
      else if Kind h = KindRef then 0
      else measure_kids h (length cs) 0 cs)"
| "measure_kids h len i [] = 0"
| "measure_kids h len i (c # cs) =
     (if \<not> contributes h len i then measure_kids h len (Suc i) cs
      else measure_node c + measure_kids h len (Suc i) cs)"

fun locate :: "node \<Rightarrow> nat \<Rightarrow> (pos \<times> nat) list"
  and locate_kids :: "hdr \<Rightarrow> nat \<Rightarrow> nat \<Rightarrow> node list \<Rightarrow> nat \<Rightarrow> (pos \<times> nat) list" where
  "locate (Node h cs) at = ([], at) # locate_kids h (length cs) 0 cs at"
| "locate_kids h len i [] at = []"
| "locate_kids h len i (c # cs) at =
     (if \<not> contributes h len i then locate_kids h len (Suc i) cs at
      else map (\<lambda>(p, a). (i # p, a)) (locate c at) @
           locate_kids h len (Suc i) cs (at + measure_node c))"

definition off_map :: "node \<Rightarrow> pos \<Rightarrow> nat option" where
  "off_map root = map_of (locate root 0)"

definition length_map :: "node \<Rightarrow> pos \<Rightarrow> nat" where
  "length_map root p = (case subtree root p of None \<Rightarrow> 0 | Some n \<Rightarrow> measure_node n)"

lemma shift_0 [simp]: "map_option ((+) (0::nat)) x = x"
  by (cases x) simp_all

section \<open>Offsets by position\<close>

text \<open>
  The specification of \<open>locate\<close>: a node's offset is the size of what its parent
  encodes before it, plus its parent's offset.
\<close>

definition kid_size :: "hdr \<Rightarrow> node list \<Rightarrow> nat \<Rightarrow> nat" where
  "kid_size h cs j = (if contributes h (length cs) j then measure_node (cs ! j) else 0)"

definition before :: "hdr \<Rightarrow> node list \<Rightarrow> nat \<Rightarrow> nat" where
  "before h cs i = (\<Sum>j < i. kid_size h cs j)"

fun off_at :: "node \<Rightarrow> pos \<Rightarrow> nat option" where
  "off_at n [] = Some 0"
| "off_at n (i # p) =
     (if i < length (Children n) \<and> contributes (hdr n) (length (Children n)) i
      then map_option ((+) (before (hdr n) (Children n) i)) (off_at (Children n ! i) p)
      else None)"

lemma before_Suc: "before h cs (Suc i) = before h cs i + kid_size h cs i"
  by (simp add: before_def)

lemma before_mono: "i \<le> j \<Longrightarrow> before h cs i \<le> before h cs j"
  unfolding before_def by (rule sum_mono2) auto

lemma before_add_le: "i < j \<Longrightarrow> before h cs i + kid_size h cs i \<le> before h cs j"
  using before_mono [of "Suc i" j h cs] by (simp add: before_Suc)

lemma drop_Cons: "d # ds = drop i cs \<Longrightarrow> d = cs ! i \<and> ds = drop (Suc i) cs \<and> i < length cs"
  by (metis Cons_nth_drop_Suc drop_all list.inject list.distinct(1) not_le)

lemma measure_kids_sum:
  "i + length ds = length cs \<Longrightarrow> ds = drop i cs \<Longrightarrow>
   before h cs i + measure_kids h (length cs) i ds = before h cs (length cs)"
proof (induction ds arbitrary: i)
  case (Cons d ds)
  from drop_Cons [OF Cons.prems(2)] have "d = cs ! i" "ds = drop (Suc i) cs" "i < length cs" by auto
  with Cons.IH [of "Suc i"] Cons.prems(1) show ?case
    by (simp add: before_Suc kid_size_def split: if_splits)
qed simp

lemma measure_before:
  "\<not> IsLeaf (Kind h) \<Longrightarrow> measure_node (Node h cs) = before h cs (length cs)"
  using measure_kids_sum [of 0 cs cs h] by (auto simp: IsLeaf_def before_def)

lemma map_of_map_Cons:
  "map_of (map (\<lambda>(p, a). (i # p, a)) xs) q = (case q of [] \<Rightarrow> None | j # p \<Rightarrow> if j = i then map_of xs p else None)"
  by (induction xs) (auto split: list.splits)

lemma locate_kids_off_at:
  assumes kids: "\<And>c at p. c \<in> set cs \<Longrightarrow> map_of (locate c at) p = map_option ((+) at) (off_at c p)"
  shows "ds = drop i cs \<Longrightarrow>
    map_of (locate_kids h (length cs) i ds (at + before h cs i)) p =
     (case p of [] \<Rightarrow> None
      | j # q \<Rightarrow> if i \<le> j then map_option ((+) at) (off_at (Node h cs) p) else None)"
proof (induction ds arbitrary: i)
  case Nil
  then show ?case by (auto split: list.splits)
next
  case (Cons d ds)
  from drop_Cons [OF Cons.prems] have d: "d = cs ! i" "ds = drop (Suc i) cs" "i < length cs" by auto
  have IH: "map_of (locate_kids h (length cs) (Suc i) ds (at + before h cs i + kid_size h cs i)) p =
     (case p of [] \<Rightarrow> None
      | j # q \<Rightarrow> if Suc i \<le> j then map_option ((+) at) (off_at (Node h cs) p) else None)"
    using Cons.IH [OF d(2)] by (simp add: before_Suc add.assoc)
  show ?case
  proof (cases "contributes h (length cs) i")
    case True
    have "map_of (locate (cs ! i) (at + before h cs i)) q =
        map_option ((+) at) (off_at (Node h cs) (i # q))" for q
      using True d kids [of "cs ! i"] by (cases "off_at (cs ! i) q") simp_all
    with True IH d show ?thesis
      by (auto simp: kid_size_def map_add_def map_of_map_Cons not_less_eq_eq split: list.splits option.splits)
  next
    case False
    with IH d show ?thesis
      by (auto simp: kid_size_def Suc_le_eq le_less split: list.splits)
  qed
qed

lemma locate_off_at: "map_of (locate n at) p = map_option ((+) at) (off_at n p)"
proof (induction n arbitrary: at p)
  case (Node h cs)
  have "map_of (locate_kids h (length cs) 0 cs at) p =
     (case p of [] \<Rightarrow> None | j # q \<Rightarrow> map_option ((+) at) (off_at (Node h cs) p))"
    using locate_kids_off_at [of cs cs 0 h at p] Node by (simp add: before_def split: list.splits)
  then show ?case by (auto split: list.splits)
qed

lemma off_map_off_at: "off_map root = off_at root"
  by (rule ext) (simp add: off_map_def locate_off_at)

section \<open>Intervals of a valid tree\<close>

text \<open>A position is encoded when every node on the way contributes.\<close>

lemma off_at_subtree: "off_at n p = Some a \<Longrightarrow> subtree n p \<noteq> None"
  by (induction n p arbitrary: a rule: off_at.induct) (auto split: if_splits)

lemma kid_in_container:
  "valid (Node h cs) \<Longrightarrow> i < length cs \<Longrightarrow> \<not> IsLeaf (Kind h)"
  using check_node_leaf [of h "length cs"] by auto

lemma measure_le_parent:
  assumes "valid n" and "off_at n p = Some a" and "subtree n p = Some m"
  shows "a + measure_node m \<le> measure_node n"
  using assms
proof (induction n p arbitrary: a rule: off_at.induct)
  case (2 n i p)
  obtain h cs where n: "n = Node h cs" by (cases n)
  from "2.prems" obtain b where b: "i < length cs" "contributes h (length cs) i"
    "off_at (cs ! i) p = Some b" "a = before h cs i + b"
    by (auto simp: n split: if_splits)
  have leaf: "\<not> IsLeaf (Kind h)" using kid_in_container "2.prems"(1) b(1) n by blast
  have "b + measure_node m \<le> measure_node (cs ! i)"
    using "2.IH" [of b] "2.prems" b n valid_nth by auto
  moreover have "before h cs i + measure_node (cs ! i) \<le> before h cs (length cs)"
    using before_add_le [OF b(1), of h cs] b(2) by (simp add: kid_size_def)
  ultimately show ?case using measure_before [OF leaf] b(4) n by simp
qed simp

text \<open>
  Encoded nodes are nested or disjoint: two positions that are not prefixes of
  one another occupy disjoint intervals.
\<close>

lemma off_at_append:
  "off_at n p = Some a \<Longrightarrow> subtree n p = Some m \<Longrightarrow> off_at n (p @ q) = map_option ((+) a) (off_at m q)"
proof (induction n p arbitrary: a rule: off_at.induct)
  case (2 n i p)
  then show ?case by (cases "off_at m q") (auto split: if_splits)
qed simp

lemma disjoint_intervals:
  assumes "valid n" and "off_at n p = Some a" and "off_at n q = Some b"
    and "subtree n p = Some m" and "subtree n q = Some k"
    and "\<not> prefix p q" and "\<not> prefix q p"
  shows "a + measure_node m \<le> b \<or> b + measure_node k \<le> a"
  using assms
proof (induction n p arbitrary: a b q rule: off_at.induct)
  case (2 n i p)
  obtain h cs where n: "n = Node h cs" by (cases n)
  from "2.prems" obtain j q' where q: "q = j # q'" by (cases q) auto
  from "2.prems" obtain a' where a': "i < length cs" "contributes h (length cs) i"
    "off_at (cs ! i) p = Some a'" "a = before h cs i + a'"
    by (auto simp: n split: if_splits)
  from "2.prems" obtain b' where b': "j < length cs" "contributes h (length cs) j"
    "off_at (cs ! j) q' = Some b'" "b = before h cs j + b'"
    by (auto simp: n q split: if_splits)
  have v: "valid (cs ! i)" "valid (cs ! j)"
    using "2.prems"(1) a'(1) b'(1) n valid_nth by blast+
  have m: "a' + measure_node m \<le> measure_node (cs ! i)"
    using measure_le_parent [OF v(1) a'(3)] "2.prems"(4) a'(1) n by simp
  have k: "b' + measure_node k \<le> measure_node (cs ! j)"
    using measure_le_parent [OF v(2) b'(3)] "2.prems"(5) b'(1) n q by simp
  consider "i = j" | "i < j" | "j < i" by linarith
  then show ?case
  proof cases
    case 1
    then show ?thesis
      using "2.IH" [of a' q' b'] "2.prems" a' b' v n q by auto
  next
    case 2
    then show ?thesis
      using before_add_le [OF 2, of h cs] a' b' m by (simp add: kid_size_def)
  next
    case 3
    then show ?thesis
      using before_add_le [OF 3, of h cs] a' b' k by (simp add: kid_size_def)
  qed
qed auto

section \<open>Sizes and offsets describe the encoding\<close>

definition kid_bytes :: "hdr \<Rightarrow> node list \<Rightarrow> nat \<Rightarrow> byte list" where
  "kid_bytes h cs j = (if contributes h (length cs) j then Encode (cs ! j) else [])"

lemma concat_single:
  "k < n \<Longrightarrow> concat (map (\<lambda>j. if j = k then xs else []) [0..<n]) = xs"
proof -
  assume k: "k < n"
  have "[0..<n] = [0..<k] @ k # [Suc k..<n]"
    using k by (metis less_imp_le_nat upt_add_eq_append upt_conv_Cons le_add_diff_inverse zero_le)
  moreover have "concat (map (\<lambda>j. if j = k then xs else []) [0..<k]) = []"
    and "concat (map (\<lambda>j. if j = k then xs else []) [Suc k..<n]) = []" by auto
  ultimately show ?thesis by (simp del: concat_eq_Nil_conv)
qed

lemma map_nth_upt: "map (\<lambda>j. f (xs ! j)) [0..<length xs] = map f xs"
  by (rule nth_equalityI) simp_all

lemma Encode_kids:
  assumes "valid (Node h cs)" and "\<not> IsLeaf (Kind h)"
  shows "Encode (Node h cs) = concat (map (kid_bytes h cs) [0..<length cs])"
proof -
  have chk: "check_node h (length cs) = None" using assms by simp
  consider "Kind h = KindChoice" | "Kind h = KindOpt" | "Kind h \<noteq> KindChoice" "Kind h \<noteq> KindOpt" by blast
  then show ?thesis
  proof cases
    case 1
    have "0 \<le> Sel h \<and> Sel h < int (length cs)" using check_node_choice [OF chk 1] .
    then have sel: "selected_index h (length cs) = Some (nat (Sel h))" "nat (Sel h) < length cs"
      using 1 by (auto simp: selected_index_def)
    have "kid_bytes h cs = (\<lambda>j. if j = nat (Sel h) then Encode (cs ! nat (Sel h)) else [])"
      using 1 sel by (auto simp: kid_bytes_def contributes_def)
    then show ?thesis
      unfolding Encode_Node [of h cs] using 1 sel concat_single [OF sel(2), of "Encode (cs ! nat (Sel h))"] by simp
  next
    case 2
    have "length cs = 1" using check_node_opt [OF chk 2] .
    with 2 show ?thesis
      unfolding Encode_Node [of h cs] by (simp add: kid_bytes_def contributes_def)
  next
    case 3
    then have "kid_bytes h cs = (\<lambda>j. Encode (cs ! j))"
      by (simp add: kid_bytes_def contributes_def fun_eq_iff)
    with 3 assms(2) show ?thesis
      unfolding Encode_Node [of h cs] by (simp add: IsLeaf_def map_nth_upt)
  qed
qed

lemma Encode_leaf:
  "IsLeaf (Kind h) \<Longrightarrow> length (Encode (Node h cs)) = measure_node (Node h cs)"
  unfolding Encode_Node [of h cs] by (auto simp: IsLeaf_def)

lemma length_kid_bytes:
  "(\<And>j. j < length cs \<Longrightarrow> length (Encode (cs ! j)) = measure_node (cs ! j)) \<Longrightarrow> i \<le> length cs \<Longrightarrow>
   length (concat (map (kid_bytes h cs) [0..<i])) = before h cs i"
  by (induction i) (auto simp: before_def kid_bytes_def kid_size_def)

lemma length_Encode_measure: "valid n \<Longrightarrow> length (Encode n) = measure_node n"
proof (induction n)
  case (Node h cs)
  show ?case
  proof (cases "IsLeaf (Kind h)")
    case True
    then show ?thesis by (rule Encode_leaf)
  next
    case False
    have "length (Encode (cs ! j)) = measure_node (cs ! j)" if "j < length cs" for j
      using Node.IH [OF nth_mem [OF that]] valid_nth [OF Node.prems that] .
    then show ?thesis
      using length_kid_bytes [of cs "length cs" h]
      by (simp only: Encode_kids [OF Node.prems False] measure_before [OF False] order_refl)
  qed
qed

lemma measure_EncodedLen: "valid n \<Longrightarrow> measure_node n = EncodedLen n"
  using length_Encode_measure [of n] length_Encode [of n] by simp

lemma window_append_left: "b \<le> length xs \<Longrightarrow> window a b (xs @ ys) = window a b xs"
  by (simp add: window_def)

lemma window_append_right: "window (length xs + a) (length xs + b) (xs @ ys) = window a b ys"
  by (simp add: window_def)

lemma window_all: "window 0 (length xs) xs = xs"
  by (simp add: window_def)

lemma window_window: "b \<le> d - c \<Longrightarrow> d \<le> length xs \<Longrightarrow> window a b (window c d xs) = window (c + a) (c + b) xs"
  by (auto simp: window_def drop_take min_def add.commute)

text \<open>The bytes of an encoded child.\<close>

lemma Encode_kid_window:
  assumes v: "valid (Node h cs)" and i: "i < length cs" and c: "contributes h (length cs) i"
  shows "window (before h cs i) (before h cs i + measure_node (cs ! i)) (Encode (Node h cs)) = Encode (cs ! i)"
proof -
  have leaf: "\<not> IsLeaf (Kind h)" using kid_in_container [OF v i] .
  let ?pre = "concat (map (kid_bytes h cs) [0..<i])"
    and ?post = "concat (map (kid_bytes h cs) [Suc i..<length cs])"
  have "[0..<length cs] = [0..<i] @ i # [Suc i..<length cs]"
    using i by (metis less_imp_le_nat upt_add_eq_append upt_conv_Cons le_add_diff_inverse zero_le)
  then have enc: "Encode (Node h cs) = ?pre @ Encode (cs ! i) @ ?post"
    using c by (simp add: Encode_kids [OF v leaf] kid_bytes_def)
  have len: "length (Encode (cs ! j)) = measure_node (cs ! j)" if "j < length cs" for j
    using length_Encode_measure [OF valid_nth [OF v that]] .
  have "length ?pre = before h cs i" using length_kid_bytes [OF len, of i h] i by simp
  then show ?thesis
    using window_append_right [of ?pre 0 "measure_node (cs ! i)" "Encode (cs ! i) @ ?post"]
      window_append_left [of "measure_node (cs ! i)" "Encode (cs ! i)" 0 ?post]
      window_all [of "Encode (cs ! i)"] len [OF i]
    by (simp add: enc)
qed

lemma Encode_window:
  assumes "valid n" and "off_at n p = Some a" and "subtree n p = Some m"
  shows "window a (a + measure_node m) (Encode n) = Encode m"
  using assms
proof (induction n p arbitrary: a rule: off_at.induct)
  case (1 n)
  then show ?case using window_all [of "Encode n"] by (simp add: length_Encode_measure)
next
  case (2 n i p)
  obtain h cs where n: "n = Node h cs" by (cases n)
  from "2.prems" obtain b where b: "i < length cs" "contributes h (length cs) i"
    "off_at (cs ! i) p = Some b" "a = before h cs i + b"
    by (auto simp: n split: if_splits)
  have v: "valid (cs ! i)" using valid_nth "2.prems"(1) b(1) n by blast
  have IH: "window b (b + measure_node m) (Encode (cs ! i)) = Encode m"
    using "2.IH" [of b] "2.prems" b v n by simp
  have le: "b + measure_node m \<le> measure_node (cs ! i)"
    using measure_le_parent [OF v b(3)] "2.prems"(3) b(1) n by simp
  have "before h cs i + measure_node (cs ! i) \<le> length (Encode n)"
    using measure_le_parent [of n "[i]" "before h cs i" "cs ! i"] "2.prems"(1) b n
    by (simp add: length_Encode_measure)
  with IH le show ?case
    using window_window [of "b + measure_node m" "before h cs i + measure_node (cs ! i)" "before h cs i"
        "Encode n" b] Encode_kid_window [of h cs i] "2.prems"(1) b n
    by (simp add: add.assoc)
qed

end
