(* ===== verification/IR_Fixup.thy ===== *)
theory IR_Fixup
  imports IR_Layout
begin

text \<open>
  Recomputing derived values, \<open>Fixer\<close> of \<open>pkg/ir/fixup.go\<close> with the
  derivations and suppression of \<open>pkg/ir/derive.go\<close>. A registry of checksum
  functions is the map \<open>chk\<close>. The in-place writes \<open>n.Val = \<dots>\<close> are updates of
  the tree that the passes return.
\<close>

type_synonym checksum_fn = "byte list \<Rightarrow> u64"
type_synonym registry = "string \<Rightarrow> checksum_fn option"

section \<open>Suppression\<close>

record suppress =
  supLength :: bool
  supCount :: bool
  supOffset :: bool
  supChecksum :: bool
  supNode :: "(pos \<Rightarrow> node \<Rightarrow> bool) option"

definition SuppressAll :: suppress where
  "SuppressAll = \<lparr>supLength = True, supCount = True, supOffset = True, supChecksum = True, supNode = None\<rparr>"

definition SuppressNone :: suppress where
  "SuppressNone = \<lparr>supLength = False, supCount = False, supOffset = False, supChecksum = False, supNode = None\<rparr>"

definition suppresses :: "suppress \<Rightarrow> pos \<Rightarrow> node \<Rightarrow> derivation \<Rightarrow> bool" where
  "suppresses s p n d =
     (if (case supNode s of Some f \<Rightarrow> f p n | None \<Rightarrow> False) then True
      else case dKind d of
             DeriveLength \<Rightarrow> supLength s
           | DeriveCount \<Rightarrow> supCount s
           | DeriveOffset \<Rightarrow> supOffset s
           | DeriveChecksum \<Rightarrow> supChecksum s
           | DeriveOther _ \<Rightarrow> False)"

definition SuppressAny :: "suppress \<Rightarrow> bool" where
  "SuppressAny s \<longleftrightarrow> supLength s \<or> supCount s \<or> supOffset s \<or> supChecksum s \<or> supNode s \<noteq> None"

section \<open>One derivation\<close>

record cstask =
  tPos :: pos
  tHdr :: hdr
  tAddend :: u64
  fieldOff :: nat
  fieldEnd :: nat
  rangeOff :: nat
  rangeEnd :: nat
  tFn :: checksum_fn
  selfInclusive :: bool

datatype outcome = SetVal u64 | Queue cstask

text \<open>\<open>span\<close> resolves the range of a derivation to a byte interval.\<close>

definition span :: "node \<Rightarrow> pos \<Rightarrow> derivation \<Rightarrow> ir_error + (nat \<times> nat)" where
  "span root p d =
     and_then (Resolve (From d) root p) (\<lambda>from.
       case off_map root from of
         None \<Rightarrow> Inl NotEncoded
       | Some start \<Rightarrow>
           and_then (if \<not> IsZero (To d) then Resolve (To d) root p else Inr from) (\<lambda>to.
             case off_map root to of
               None \<Rightarrow> Inl NotEncoded
             | Some toOff \<Rightarrow>
                 if toOff < start then Inl ReversedRange
                 else Inr (start, toOff + length_map root to)))"

definition int64_diff :: "nat \<Rightarrow> nat \<Rightarrow> u64" where
  "int64_diff a b = word_of_int (int a - int b)"

definition computeOne :: "registry \<Rightarrow> node \<Rightarrow> pos \<Rightarrow> hdr \<Rightarrow> derivation \<Rightarrow> ir_error + outcome" where
  "computeOne chk root p h d =
     (case dKind d of
        DeriveLength \<Rightarrow>
          and_then (span root p d) (\<lambda>(start, end).
            Inr (SetVal (truncate_val (int64_diff end start + Addend d) (Width h))))
      | DeriveCount \<Rightarrow>
          and_then (Resolve (From d) root p) (\<lambda>target.
            case subtree root target of
              None \<Rightarrow> Inl GoPanic
            | Some t \<Rightarrow>
                let count = (if Kind (hdr t) = KindOpt \<and> \<not> Present (hdr t) then 0
                             else length (Children t))
                in Inr (SetVal (truncate_val (of_nat count + Addend d) (Width h))))
      | DeriveOffset \<Rightarrow>
          and_then (Resolve (From d) root p) (\<lambda>target.
            case off_map root target of
              None \<Rightarrow> Inl NotEncoded
            | Some at \<Rightarrow> Inr (SetVal (truncate_val (of_nat at + Addend d) (Width h))))
      | DeriveChecksum \<Rightarrow>
          (case chk (Algo d) of
             None \<Rightarrow> Inl UnknownAlgo
           | Some fn \<Rightarrow>
               and_then (span root p d) (\<lambda>(start, end).
                 case off_map root p of
                   None \<Rightarrow> Inl NotEncoded
                 | Some fo \<Rightarrow>
                     let fe = fo + Width h;
                         self = (fo \<ge> start \<and> fe \<le> end)
                     in if self \<and> \<not> SelfZero d then Inl CyclicDerivation
                        else Inr (Queue \<lparr>tPos = p, tHdr = h, tAddend = Addend d,
                                         fieldOff = fo, fieldEnd = fe,
                                         rangeOff = start, rangeEnd = end,
                                         tFn = fn, selfInclusive = self\<rparr>)))
      | DeriveOther _ \<Rightarrow> Inl UnknownClass)"

section \<open>The derivation walk\<close>

fun derive :: "registry \<Rightarrow> suppress \<Rightarrow> node \<Rightarrow> pos \<Rightarrow> node \<Rightarrow> ir_error + (node \<times> cstask list)"
  and derive_kids :: "registry \<Rightarrow> suppress \<Rightarrow> node \<Rightarrow> pos \<Rightarrow> hdr \<Rightarrow> nat \<Rightarrow> nat \<Rightarrow> node list \<Rightarrow>
        ir_error + (node list \<times> cstask list)" where
  "derive chk sp root p (Node h cs) =
     (if Kind h = KindDerived then
        (case Derive h of
           None \<Rightarrow> Inl MissingDerivation
         | Some d \<Rightarrow>
             if suppresses sp p (Node h cs) d then Inr (Node h cs, [])
             else and_then (computeOne chk root p h d) (\<lambda>out.
                    case out of
                      SetVal v \<Rightarrow> Inr (Node (h\<lparr>Val := v\<rparr>) cs, [])
                    | Queue t \<Rightarrow> Inr (Node h cs, [t])))
      else and_then (derive_kids chk sp root p h (length cs) 0 cs) (\<lambda>(cs, ts). Inr (Node h cs, ts)))"
| "derive_kids chk sp root p h len i [] = Inr ([], [])"
| "derive_kids chk sp root p h len i (c # cs) =
     (if \<not> contributes h len i
      then and_then (derive_kids chk sp root p h len (Suc i) cs) (\<lambda>(cs, ts). Inr (c # cs, ts))
      else and_then (derive chk sp root (p @ [i]) c) (\<lambda>(c, ts1).
             and_then (derive_kids chk sp root p h len (Suc i) cs) (\<lambda>(cs, ts2).
               Inr (c # cs, ts1 @ ts2))))"

section \<open>Checksums in containment order\<close>

fun set_val :: "node \<Rightarrow> pos \<Rightarrow> u64 \<Rightarrow> node" where
  "set_val (Node h cs) [] v = Node (h\<lparr>Val := v\<rparr>) cs"
| "set_val (Node h cs) (i # p) v =
     (if i < length cs then Node h (cs[i := set_val (cs ! i) p v]) else Node h cs)"

text \<open>
  Each task depends on the tasks whose fields lie in its range. \<open>byOff\<close> lists the
  tasks by field offset; the binary search skips those before the range.
\<close>

definition byOff :: "cstask list \<Rightarrow> nat list" where
  "byOff ts =
     (let idx = [0..<length ts]
      in if sorted (map (\<lambda>k. fieldOff (ts ! k)) idx) then idx
         else sort_key (\<lambda>k. fieldOff (ts ! k)) idx)"

definition deps_of :: "cstask list \<Rightarrow> nat \<Rightarrow> nat list" where
  "deps_of ts i =
     (let t = ts ! i;
          cand = dropWhile (\<lambda>k. fieldOff (ts ! k) < rangeOff t) (byOff ts);
          inside = takeWhile (\<lambda>j. fieldOff (ts ! j) < rangeEnd t) cand
      in filter (\<lambda>j. \<not> (j = i \<or> fieldEnd (ts ! j) > rangeEnd t)) inside)"

definition buildDeps :: "cstask list \<Rightarrow> nat list list" where
  "buildDeps ts = map (deps_of ts) [0..<length ts]"

definition run_task :: "cstask \<Rightarrow> byte list \<times> node \<Rightarrow> ir_error + (byte list \<times> node)" where
  "run_task t st =
     (let (buf, root) = st
      in if fieldEnd t > length buf \<or> rangeEnd t > length buf \<or> rangeOff t > rangeEnd t then Inl GoPanic
         else
           let buf = (if selfInclusive t
                      then overwrite (fieldOff t) (replicate (fieldEnd t - fieldOff t) 0) buf
                      else buf);
               v = tFn t (window (rangeOff t) (rangeEnd t) buf);
               val = truncate_val (v + tAddend t) (Width (tHdr t))
           in case putInt (window (fieldOff t) (fieldEnd t) buf) val (Width (tHdr t)) (Endian (tHdr t)) of
                None \<Rightarrow> Inl GoPanic
              | Some field \<Rightarrow> Inr (overwrite (fieldOff t) field buf, set_val root (tPos t) val))"

fun release :: "nat \<Rightarrow> nat \<Rightarrow> nat list list \<Rightarrow> nat list \<Rightarrow> nat list \<times> nat list" where
  "release i j (d # ds) (k # ks) =
     (let (ks', rs) = release i (Suc j) ds ks
      in if k \<le> 0 then (k # ks', rs)
         else if i \<in> set d then ((k - 1) # ks', if k - 1 = 0 then j # rs else rs)
         else (k # ks', rs))"
| "release i j _ ks = (ks, [])"

definition waiting :: "nat list \<Rightarrow> nat" where
  "waiting ks = length (filter (\<lambda>k. k > 0) ks)"

lemma release_waiting: "length (snd (release i j ds ks)) + waiting (fst (release i j ds ks)) = waiting ks"
  by (induction i j ds ks rule: release.induct) (auto simp: waiting_def Let_def split: prod.splits)

function kahn :: "cstask list \<Rightarrow> nat list list \<Rightarrow> nat list \<Rightarrow> nat list \<Rightarrow> byte list \<times> node \<Rightarrow> nat \<Rightarrow>
    ir_error + ((byte list \<times> node) \<times> nat)" where
  "kahn ts deps indeg [] st cnt = Inr (st, cnt)"
| "kahn ts deps indeg (i # pending) st cnt =
     (case run_task (ts ! i) st of
        Inl e \<Rightarrow> Inl e
      | Inr st \<Rightarrow>
          (case release i 0 deps indeg of
             (indeg, ready) \<Rightarrow> kahn ts deps indeg (pending @ ready) st (cnt + 1)))"
  by pat_completeness auto
termination
proof (relation "measure (\<lambda>(ts, deps, indeg, pending, st, cnt). length pending + waiting indeg)")
  fix ts :: "cstask list" and deps :: "nat list list" and indeg indeg' ready pending :: "nat list"
    and i cnt :: nat and st st' :: "byte list \<times> node"
  assume "(indeg', ready) = release i 0 deps indeg"
  then show "((ts, deps, indeg', pending @ ready, st', cnt + 1), ts, deps, indeg, i # pending, st, cnt)
      \<in> measure (\<lambda>(ts, deps, indeg, pending, st, cnt). length pending + waiting indeg)"
    using release_waiting [of i 0 deps indeg] by (cases "release i 0 deps indeg") simp
qed simp

definition checksums :: "cstask list \<Rightarrow> byte list \<times> node \<Rightarrow> ir_error + (byte list \<times> node)" where
  "checksums ts st =
     (let deps = buildDeps ts;
          indeg = map length deps;
          ready = filter (\<lambda>i. indeg ! i = 0) [0..<length ts]
      in and_then (kahn ts deps indeg ready st 0) (\<lambda>(st, cnt).
           if cnt \<noteq> length ts then Inl CyclicDerivation else Inr st))"

definition Fix :: "registry \<Rightarrow> suppress \<Rightarrow> node \<Rightarrow> ir_error + (byte list \<times> node)" where
  "Fix chk sp root =
     and_then (derive chk sp root [] root) (\<lambda>(root, ts).
       let buf = AppendEncode [] root
       in if length ts > 0 then checksums ts (buf, root) else Inr (buf, root))"

end
