(* ===== verification/IR_Shape.thy ===== *)
theory IR_Shape
  imports IR_Fixup
begin

text \<open>
  What a fixup leaves alone. \<open>erase\<close> forgets the values of derived nodes; two
  trees with the same erasure have the same shape, and sizes, offsets,
  references and ranges only depend on the shape. This is the argument the
  source gives for computing sizes and offsets once, up front.
\<close>

section \<open>Shapes\<close>

definition erase_hdr :: "hdr \<Rightarrow> hdr" where
  "erase_hdr h = (if Kind h = KindDerived then h\<lparr>Val := 0\<rparr> else h)"

fun erase :: "node \<Rightarrow> node" where
  "erase (Node h cs) = Node (erase_hdr h) (map erase cs)"

definition same_shape :: "node \<Rightarrow> node \<Rightarrow> bool" where
  "same_shape a b \<longleftrightarrow> erase a = erase b"

named_theorems erasure \<open>functions of a tree that do not see derived values\<close>

lemma erase_hdr_fields [simp]:
  "Kind (erase_hdr h) = Kind h" "Width (erase_hdr h) = Width h" "Sel (erase_hdr h) = Sel h"
  "Name (erase_hdr h) = Name h" "Raw (erase_hdr h) = Raw h" "flags (erase_hdr h) = flags h"
  "MinLen (erase_hdr h) = MinLen h" "MaxLen (erase_hdr h) = MaxLen h" "Endian (erase_hdr h) = Endian h"
  "Derive (erase_hdr h) = Derive h" "Target (erase_hdr h) = Target h"
  by (simp_all add: erase_hdr_def)

lemma hdr_erase [simp]: "hdr (erase n) = erase_hdr (hdr n)"
  and Children_erase [simp]: "Children (erase n) = map erase (Children n)"
  by (cases n, simp)+

lemma contributes_erase [simp]: "contributes (erase_hdr h) len i = contributes h len i"
  by (simp add: contributes_def selected_index_def Present_def)

lemma check_node_erase [simp]: "check_node (erase_hdr h) len = check_node h len"
proof -
  have "check_kind (erase_hdr h) = check_kind h" by (simp only: check_kind_def erase_hdr_fields)
  moreover have "check_by_kind (erase_hdr h) len = check_by_kind h len"
    by (simp only: check_by_kind_def erase_hdr_fields)
  moreover have "check_bounds (erase_hdr h) len = check_bounds h len"
    by (simp only: check_bounds_def FitsLen_def erase_hdr_fields)
  ultimately show ?thesis by (simp only: check_node_def)
qed

lemma valid_erase [erasure]: "valid (erase n) = valid n"
  by (induction n) (auto simp: list_all_iff)

lemma measure_kids_erase:
  "(\<And>c. c \<in> set cs \<Longrightarrow> measure_node (erase c) = measure_node c) \<Longrightarrow>
   measure_kids (erase_hdr h) len i (map erase cs) = measure_kids h len i cs"
  by (induction cs arbitrary: i) simp_all

lemma measure_erase [erasure]: "measure_node (erase n) = measure_node n"
  by (induction n) (simp add: measure_kids_erase)

lemma subtree_erase [erasure]: "subtree (erase n) p = map_option erase (subtree n p)"
  by (induction n p rule: subtree.induct) auto

lemma before_erase: "i \<le> length cs \<Longrightarrow> before (erase_hdr h) (map erase cs) i = before h cs i"
  unfolding before_def kid_size_def by (intro sum.cong) (auto simp: measure_erase)

lemma off_at_erase [erasure]: "off_at (erase n) p = off_at n p"
  by (induction n p rule: off_at.induct) (auto simp: before_erase)

lemma child_index_from_erase: "child_index_from i name (map erase cs) = child_index_from i name cs"
  by (induction i name cs rule: child_index_from.induct) auto

lemma child_index_from_bound: "child_index_from 0 name cs = Some i \<Longrightarrow> i < length cs"
  using child_index_from_Some [of 0 name cs i] by simp

lemma follow_erase: "follow (erase n) ss = follow n ss"
proof (induction n ss rule: follow.induct)
  case (2 n s ss)
  show ?case
  proof (cases "ByIndex s")
    case True
    then show ?thesis using "2.IH"(1) by (cases "nat (sIndex s) < length (Children n)") auto
  next
    case False
    then show ?thesis using "2.IH"(2)
      by (auto simp: child_index_from_erase child_index_from_bound split: option.splits)
  qed
qed simp

lemma Resolve_erase [erasure]: "Resolve r (erase root) p = Resolve r root p"
  by (auto simp: Resolve_def subtree_erase follow_erase Let_def split: option.splits)

lemma span_erase [erasure]: "span (erase root) p d = span root p d"
proof -
  have "off_map (erase root) = off_map root" by (simp add: off_map_off_at fun_eq_iff off_at_erase)
  moreover have "length_map (erase root) = length_map root"
    by (simp add: fun_eq_iff length_map_def subtree_erase measure_erase split: option.splits)
  ultimately show ?thesis unfolding span_def Resolve_erase by (simp only:)
qed

lemma same_shapeD:
  assumes "same_shape a b"
  shows "valid a = valid b" "measure_node a = measure_node b" "off_at a p = off_at b p"
    "span a p d = span b p d" "Resolve r a p = Resolve r b p"
    "map_option erase (subtree a p) = map_option erase (subtree b p)"
  using assms unfolding same_shape_def
  by (metis valid_erase, metis measure_erase, metis off_at_erase, metis span_erase,
      metis Resolve_erase, metis subtree_erase)

lemma same_shape_refl [simp]: "same_shape a a"
  by (simp add: same_shape_def)

lemma same_shape_trans: "same_shape a b \<Longrightarrow> same_shape b c \<Longrightarrow> same_shape a c"
  by (simp add: same_shape_def)

lemma same_shape_sym: "same_shape a b \<Longrightarrow> same_shape b a"
  by (simp add: same_shape_def)

section \<open>Writing a derived value\<close>

lemma set_val_erase:
  "subtree n p = Some m \<Longrightarrow> Kind (hdr m) = KindDerived \<Longrightarrow> erase (set_val n p v) = erase n"
proof (induction n p v rule: set_val.induct)
  case (2 h cs i p v)
  then have "map erase (cs[i := set_val (cs ! i) p v]) = map erase cs"
    by (auto simp: map_update list_update_same_conv split: if_splits)
  with 2 show ?case by auto
qed (auto simp: erase_hdr_def)

lemma subtree_set_val:
  "subtree n p = Some m \<Longrightarrow>
   subtree (set_val n p v) p = Some (upd (\<lambda>h. h\<lparr>Val := v\<rparr>) m)"
  by (induction n p v arbitrary: m rule: set_val.induct) (auto simp: upd_def split: if_splits)

lemma subtree_set_val_other:
  assumes "\<not> prefix q p" and "\<not> prefix p q"
  shows "subtree (set_val n p v) q = subtree n q"
  using assms
proof (induction n p v arbitrary: q rule: set_val.induct)
  case (2 h cs i p v)
  then obtain j q' where q: "q = j # q'" by (cases q) auto
  with 2 show ?case by (cases "j = i") auto
qed simp

text \<open>Replacing a child by one of the same size overwrites its bytes.\<close>

lemma overwrite_append: "overwrite (length xs) zs (xs @ ys @ us) = xs @ zs @ us" if "length zs = length ys"
  using that by (simp add: overwrite_def)

lemma overwrite_nested:
  assumes "a + length ys \<le> k" and "b + k \<le> length xs"
  shows "overwrite b (overwrite a ys (window b (b + k) xs)) xs = overwrite (b + a) ys xs"
  using assms by (intro nth_equalityI) (auto simp: nth_overwrite nth_window)

lemma Encode_update_kid:
  assumes v: "valid (Node h cs)" and v': "valid c" and i: "i < length cs"
    and con: "contributes h (length cs) i" and m: "measure_node c = measure_node (cs ! i)"
  shows "Encode (Node h (cs[i := c])) = overwrite (before h cs i) (Encode c) (Encode (Node h cs))"
proof -
  have leaf: "\<not> IsLeaf (Kind h)" using kid_in_container [OF v i] .
  have vn: "valid (Node h (cs[i := c]))"
    using v v' by (auto simp: list_all_iff dest!: set_update_subset_insert [THEN subsetD])
  have idx: "[0..<length cs] = [0..<i] @ i # [Suc i..<length cs]"
    using i by (metis less_imp_le_nat upt_add_eq_append upt_conv_Cons le_add_diff_inverse zero_le)
  let ?pre = "concat (map (kid_bytes h cs) [0..<i])"
    and ?post = "concat (map (kid_bytes h cs) [Suc i..<length cs])"
  have same: "map (kid_bytes h (cs[i := c])) ks = map (kid_bytes h cs) ks" if "i \<notin> set ks" for ks
    using that by (intro map_cong refl) (simp add: kid_bytes_def, metis nth_list_update_neq)
  have enc: "Encode (Node h cs) = ?pre @ Encode (cs ! i) @ ?post"
    using con by (simp add: Encode_kids [OF v leaf] idx kid_bytes_def)
  have enc': "Encode (Node h (cs[i := c])) = ?pre @ Encode c @ ?post"
    using con i same [of "[0..<i]"] same [of "[Suc i..<length cs]"]
    by (simp add: Encode_kids [OF vn leaf] idx kid_bytes_def [of h "cs[i := c]" i] del: map_eq_conv)
  have "length ?pre = before h cs i"
    using length_kid_bytes [of cs i h] i length_Encode_measure valid_nth [OF v] by auto
  moreover have "length (Encode c) = length (Encode (cs ! i))"
    using m length_Encode_measure [OF v'] length_Encode_measure [OF valid_nth [OF v i]] by simp
  ultimately show ?thesis using overwrite_append [of "Encode c" "Encode (cs ! i)" ?pre ?post]
    by (simp add: enc enc')
qed

lemma Encode_set_val:
  assumes "valid n" and "off_at n p = Some a" and "subtree n p = Some m" and "Kind (hdr m) = KindDerived"
  shows "Encode (set_val n p v) =
    overwrite a (int_bytes v (Width (hdr m)) (Endian (hdr m))) (Encode n)"
  using assms
proof (induction n p v arbitrary: a rule: set_val.induct)
  case (1 h cs v)
  then have "Encode (Node (h\<lparr>Val := v\<rparr>) cs) = int_bytes v (Width h) (Endian h)"
    and "length (Encode (Node h cs)) = Width h"
    by (auto simp: Encode_Node)
  with 1 show ?case by (auto simp: overwrite_def)
next
  case (2 h cs i p v)
  from "2.prems" obtain b where b: "i < length cs" "contributes h (length cs) i"
    "off_at (cs ! i) p = Some b" "a = before h cs i + b" "subtree (cs ! i) p = Some m"
    by (auto split: if_splits)
  have vi: "valid (cs ! i)" using valid_nth [OF "2.prems"(1) b(1)] .
  let ?c = "set_val (cs ! i) p v"
  have er: "erase ?c = erase (cs ! i)" using set_val_erase [OF b(5) "2.prems"(4)] .
  then have vc: "valid ?c" and mc: "measure_node ?c = measure_node (cs ! i)"
    using vi by (metis valid_erase, metis measure_erase)
  have leafm: "measure_node m = Width (hdr m)" using "2.prems"(4) by (cases m) simp
  have fit: "b + Width (hdr m) \<le> measure_node (cs ! i)"
    using measure_le_parent [OF vi b(3,5)] leafm by simp
  have room: "before h cs i + measure_node (cs ! i) \<le> length (Encode (Node h cs))"
    using measure_le_parent [of "Node h cs" "[i]" "before h cs i" "cs ! i"] "2.prems"(1) b
    by (simp add: length_Encode_measure)
  have "Encode (set_val (Node h cs) (i # p) v) =
      overwrite (before h cs i) (Encode ?c) (Encode (Node h cs))"
    using Encode_update_kid [OF "2.prems"(1) vc b(1,2) mc] b(1) by simp
  also have "Encode ?c = overwrite b (int_bytes v (Width (hdr m)) (Endian (hdr m)))
      (window (before h cs i) (before h cs i + measure_node (cs ! i)) (Encode (Node h cs)))"
    using "2.IH" [OF b(1) vi b(3,5) "2.prems"(4)] Encode_kid_window [OF "2.prems"(1) b(1,2)] by simp
  finally show ?case
    using overwrite_nested [of b "int_bytes v (Width (hdr m)) (Endian (hdr m))" "measure_node (cs ! i)"
        "before h cs i" "Encode (Node h cs)"] fit room b(4) by simp
qed

end
