(* ===== verification/IR_Correct.thy ===== *)
theory IR_Correct
  imports IR_Shape
begin

text \<open>
  Correctness of the fixup: what the derivation walk writes and queues, that the
  ordered pass computes every checksum over bytes that no later write changes,
  and the resulting statement about the tree and the bytes \<open>Fix\<close> returns.
\<close>

section \<open>The derivation walk\<close>

text \<open>The children, in terms of the walk of each.\<close>

lemma derive_kids_spec:
  "derive_kids chk sp root p h len i cs = Inr (cs', ts) \<Longrightarrow>
   length cs' = length cs \<and>
   (\<exists>tss. length tss = length cs \<and> ts = concat tss \<and>
     (\<forall>j < length cs.
        if contributes h len (i + j)
        then derive chk sp root (p @ [i + j]) (cs ! j) = Inr (cs' ! j, tss ! j)
        else cs' ! j = cs ! j \<and> tss ! j = []))"
proof (induction cs arbitrary: i cs' ts)
  case Nil
  then show ?case by simp
next
  case (Cons c cs)
  show ?case
  proof (cases "contributes h len i")
    case False
    with Cons.prems obtain ds where ds: "derive_kids chk sp root p h len (Suc i) cs = Inr (ds, ts)"
      "cs' = c # ds" by (auto simp: and_then_Inr)
    from Cons.IH [OF ds(1)] obtain tss where "length ds = length cs" "length tss = length cs" "ts = concat tss"
      "\<forall>j < length cs. if contributes h len (Suc i + j)
        then derive chk sp root (p @ [Suc i + j]) (cs ! j) = Inr (ds ! j, tss ! j)
        else ds ! j = cs ! j \<and> tss ! j = []" by blast
    with ds False show ?thesis
      by (intro conjI exI [of _ "[] # tss"]) (auto simp: nth_Cons split: nat.splits)
  next
    case True
    with Cons.prems obtain c' ts1 ds ts2 where ds: "derive chk sp root (p @ [i]) c = Inr (c', ts1)"
      "derive_kids chk sp root p h len (Suc i) cs = Inr (ds, ts2)" "cs' = c' # ds" "ts = ts1 @ ts2"
      by (auto simp: and_then_Inr)
    from Cons.IH [OF ds(2)] obtain tss where "length ds = length cs" "length tss = length cs" "ts2 = concat tss"
      "\<forall>j < length cs. if contributes h len (Suc i + j)
        then derive chk sp root (p @ [Suc i + j]) (cs ! j) = Inr (ds ! j, tss ! j)
        else ds ! j = cs ! j \<and> tss ! j = []" by blast
    with ds True show ?thesis
      by (intro conjI exI [of _ "ts1 # tss"]) (auto simp: nth_Cons split: nat.splits)
  qed
qed

lemma derive_container:
  assumes "derive chk sp root p (Node h cs) = Inr (n', ts)" and "Kind h \<noteq> KindDerived"
  obtains cs' tss where "n' = Node h cs'" "length cs' = length cs" "length tss = length cs" "ts = concat tss"
    "derive_kids chk sp root p h (length cs) 0 cs = Inr (cs', ts)"
    "\<And>j. j < length cs \<Longrightarrow> contributes h (length cs) j \<Longrightarrow>
       derive chk sp root (p @ [j]) (cs ! j) = Inr (cs' ! j, tss ! j)"
    "\<And>j. j < length cs \<Longrightarrow> \<not> contributes h (length cs) j \<Longrightarrow> cs' ! j = cs ! j \<and> tss ! j = []"
proof -
  from assms obtain cs' where cs': "derive_kids chk sp root p h (length cs) 0 cs = Inr (cs', ts)"
    "n' = Node h cs'" by (auto simp: and_then_Inr)
  from derive_kids_spec [OF cs'(1)] obtain tss where "length cs' = length cs" "length tss = length cs"
    "ts = concat tss" "\<forall>j < length cs. if contributes h (length cs) j
        then derive chk sp root (p @ [j]) (cs ! j) = Inr (cs' ! j, tss ! j)
        else cs' ! j = cs ! j \<and> tss ! j = []" unfolding add_0 by blast
  with that cs' show thesis by metis
qed

text \<open>
  \<open>derived_out\<close> is what the walk leaves of one encoded derived node: nothing when it is
  suppressed, the computed value, or the unchanged node and a queued task.
\<close>

definition derived_out :: "registry \<Rightarrow> suppress \<Rightarrow> node \<Rightarrow> pos \<Rightarrow> node \<Rightarrow> derivation \<Rightarrow> node option \<Rightarrow> cstask set \<Rightarrow> bool" where
  "derived_out chk sp root p n d n' ts \<longleftrightarrow>
     (if suppresses sp p n d then n' = Some n
      else (\<exists>v. computeOne chk root p (hdr n) d = Inr (SetVal v) \<and> n' = Some (upd (\<lambda>h. h\<lparr>Val := v\<rparr>) n)) \<or>
           (\<exists>t \<in> ts. computeOne chk root p (hdr n) d = Inr (Queue t) \<and> n' = Some n))"

lemma derived_out_mono: "derived_out chk sp root p n d n' ts \<Longrightarrow> ts \<subseteq> ts' \<Longrightarrow> derived_out chk sp root p n d n' ts'"
  unfolding derived_out_def by (meson subsetD)

lemma derive_leaf_cases:
  assumes "derive chk sp root p (Node h cs) = Inr (n', ts)" and "Kind h = KindDerived"
  obtains (Suppressed) d where "Derive h = Some d" "suppresses sp p (Node h cs) d" "n' = Node h cs" "ts = []"
  | (Value) d v where "Derive h = Some d" "\<not> suppresses sp p (Node h cs) d"
      "computeOne chk root p h d = Inr (SetVal v)" "n' = Node (h\<lparr>Val := v\<rparr>) cs" "ts = []"
  | (Task) d t where "Derive h = Some d" "\<not> suppresses sp p (Node h cs) d"
      "computeOne chk root p h d = Inr (Queue t)" "n' = Node h cs" "ts = [t]"
proof -
  from assms obtain d where d: "Derive h = Some d" by (cases "Derive h") auto
  show thesis
  proof (cases "suppresses sp p (Node h cs) d")
    case True
    with assms d show ?thesis by (intro Suppressed [OF d True]) simp_all
  next
    case False
    with assms d obtain out where out: "computeOne chk root p h d = Inr out"
      "(case out of SetVal v \<Rightarrow> Inr (Node (h\<lparr>Val := v\<rparr>) cs, []) | Queue t \<Rightarrow> Inr (Node h cs, [t])) =
         (Inr (n', ts) :: ir_error + (node \<times> cstask list))"
      by (auto simp: and_then_Inr)
    show ?thesis
    proof (cases out)
      case (SetVal v)
      show ?thesis by (rule Value [OF d False out(1) [unfolded SetVal]]) (use out(2) SetVal in simp_all)
    next
      case (Queue t)
      show ?thesis by (rule Task [OF d False out(1) [unfolded Queue]]) (use out(2) Queue in simp_all)
    qed
  qed
qed

lemma derive_leaf:
  assumes "derive chk sp root p (Node h cs) = Inr (n', ts)" and "Kind h = KindDerived" and "Derive h = Some d"
  shows "derived_out chk sp root p (Node h cs) d (Some n') (set ts)"
  using assms(1,2) by (cases rule: derive_leaf_cases) (use assms(3) in \<open>simp_all add: derived_out_def upd_def\<close>)

lemma derive_derived:
  assumes "derive chk sp root p n = Inr (n', ts)" and "valid n"
    and "off_at n q = Some a" and "subtree n q = Some m" and "Kind (hdr m) = KindDerived"
    and "Derive (hdr m) = Some d"
  shows "derived_out chk sp root (p @ q) m d (subtree n' q) (set ts)"
  using assms
proof (induction n arbitrary: p n' ts q a)
  case (Node h cs)
  show ?case
  proof (cases q)
    case Nil
    with Node.prems derive_leaf [of chk sp root p h cs n' ts d] show ?thesis by auto
  next
    case (Cons i q')
    from Node.prems(3) Cons obtain b where i: "i < length cs" "contributes h (length cs) i"
      "off_at (cs ! i) q' = Some b" by (auto split: if_splits)
    then have "\<not> IsLeaf (Kind h)" using kid_in_container Node.prems(2) by blast
    then have "Kind h \<noteq> KindDerived" by (auto simp: IsLeaf_def)
    from Node.prems(1) this obtain cs' tss where cs': "n' = Node h cs'" and
      tss: "length cs' = length cs" "length tss = length cs"
      "ts = concat tss" "derive chk sp root (p @ [i]) (cs ! i) = Inr (cs' ! i, tss ! i)"
      by (rule derive_container) (use i in blast)
    have "derived_out chk sp root ((p @ [i]) @ q') m d (subtree (cs' ! i) q') (set (tss ! i))"
      using Node.IH [OF nth_mem [OF i(1)] tss(4) valid_nth [OF Node.prems(2) i(1)] i(3)]
        Node.prems(4-6) Cons i(1) by simp
    moreover have "set (tss ! i) \<subseteq> set ts"
      unfolding tss(3) set_concat using tss(2) i(1) by (intro UN_upper) simp
    ultimately show ?thesis
      using derived_out_mono Cons cs' tss(1) i(1) by auto
  qed
qed

lemma derive_erase: "derive chk sp root p n = Inr (n', ts) \<Longrightarrow> erase n' = erase n"
proof (induction n arbitrary: p n' ts)
  case (Node h cs)
  show ?case
  proof (cases "Kind h = KindDerived")
    case True
    with Node.prems show ?thesis
      by (cases rule: derive_leaf_cases) (use True in \<open>simp_all add: erase_hdr_def\<close>)
  next
    case False
    from Node.prems this show ?thesis
    proof (rule derive_container)
      fix cs' tss assume kids: "n' = Node h cs'" "length cs' = length cs"
        "\<And>j. j < length cs \<Longrightarrow> contributes h (length cs) j \<Longrightarrow>
           derive chk sp root (p @ [j]) (cs ! j) = Inr (cs' ! j, tss ! j)"
        "\<And>j. j < length cs \<Longrightarrow> \<not> contributes h (length cs) j \<Longrightarrow> cs' ! j = cs ! j \<and> tss ! j = []"
      have "erase (cs' ! j) = erase (cs ! j)" if "j < length cs" for j
        using kids(3,4) [OF that] Node.IH [OF nth_mem [OF that]]
        by (cases "contributes h (length cs) j") auto
      then show ?thesis using kids(1,2) by (auto intro: nth_equalityI)
    qed
  qed
qed

text \<open>Where queued tasks come from.\<close>

lemma derive_tasks:
  assumes "derive chk sp root p n = Inr (n', ts)" and "t \<in> set ts" and "valid n"
  shows "\<exists>q a m d. off_at n q = Some a \<and> subtree n q = Some m \<and> Kind (hdr m) = KindDerived \<and>
     Derive (hdr m) = Some d \<and> \<not> suppresses sp (p @ q) m d \<and>
     computeOne chk root (p @ q) (hdr m) d = Inr (Queue t)"
  using assms
proof (induction n arbitrary: p n' ts)
  case (Node h cs)
  show ?case
  proof (cases "Kind h = KindDerived")
    case True
    from Node.prems(1) this show ?thesis
      by (cases rule: derive_leaf_cases) (use Node.prems(2) True in \<open>auto intro!: exI [of _ "[]"]\<close>)
  next
    case False
    from Node.prems(1) this obtain cs' tss where tss: "length tss = length cs" "ts = concat tss"
      "\<And>j. j < length cs \<Longrightarrow> contributes h (length cs) j \<Longrightarrow>
         derive chk sp root (p @ [j]) (cs ! j) = Inr (cs' ! j, tss ! j)"
      "\<And>j. j < length cs \<Longrightarrow> \<not> contributes h (length cs) j \<Longrightarrow> cs' ! j = cs ! j \<and> tss ! j = []"
      by (rule derive_container) blast
    from Node.prems(2) tss(1,2) obtain j where j: "j < length cs" "t \<in> set (tss ! j)"
      by (auto simp: in_set_conv_nth [of _ tss])
    have con: "contributes h (length cs) j"
    proof (rule ccontr)
      assume "\<not> contributes h (length cs) j"
      from tss(4) [OF j(1) this] j(2) show False by simp
    qed
    from Node.IH [OF nth_mem [OF j(1)] tss(3) [OF j(1) con] j(2) valid_nth [OF Node.prems(3) j(1)]]
    obtain q a m d where "off_at (cs ! j) q = Some a" "subtree (cs ! j) q = Some m"
      "Kind (hdr m) = KindDerived" "Derive (hdr m) = Some d" "\<not> suppresses sp ((p @ [j]) @ q) m d"
      "computeOne chk root ((p @ [j]) @ q) (hdr m) d = Inr (Queue t)" by blast
    with j con show ?thesis by (intro exI [of _ "j # q"]) auto
  qed
qed

lemma computeOne_QueueE:
  assumes "computeOne chk root p h d = Inr (Queue t)"
  obtains fn s e fo where "dKind d = DeriveChecksum" "chk (Algo d) = Some fn" "span root p d = Inr (s, e)"
    "off_map root p = Some fo"
    "t = \<lparr>tPos = p, tHdr = h, tAddend = Addend d, fieldOff = fo, fieldEnd = fo + Width h,
          rangeOff = s, rangeEnd = e, tFn = fn, selfInclusive = (fo \<ge> s \<and> fo + Width h \<le> e)\<rparr>"
proof (cases "dKind d")
  case DeriveChecksum
  note c = assms [unfolded computeOne_def DeriveChecksum derive_kind.case]
  then obtain fn where fn: "chk (Algo d) = Some fn" by (cases "chk (Algo d)") simp_all
  with c obtain se where se: "span root p d = Inr se" by (cases "span root p d") simp_all
  obtain s e where "se = (s, e)" by (cases se)
  with c fn se that [OF DeriveChecksum fn] show thesis
    by (cases "off_map root p") (simp_all add: Let_def split: if_splits)
qed (use assms in \<open>auto simp: computeOne_def and_then_Inr Let_def split: option.splits\<close>)

lemma computeOne_Queue_pos: "computeOne chk root p h d = Inr (Queue t) \<Longrightarrow> tPos t = p"
  by (erule computeOne_QueueE) simp

lemma derive_kids_distinct:
  assumes "\<forall>c \<in> set cs. \<forall>q c' ts. derive chk sp root q c = Inr (c', ts) \<longrightarrow>
      distinct (map tPos ts) \<and> (\<forall>t \<in> set ts. prefix q (tPos t))"
  shows "derive_kids chk sp root p h len i cs = Inr (cs', ts) \<Longrightarrow>
    distinct (map tPos ts) \<and> (\<forall>t \<in> set ts. \<exists>j \<ge> i. prefix (p @ [j]) (tPos t))"
  using assms
proof (induction cs arbitrary: i cs' ts)
  case (Cons c cs)
  show ?case
  proof (cases "contributes h len i")
    case False
    with Cons.prems(1) obtain ds where "derive_kids chk sp root p h len (Suc i) cs = Inr (ds, ts)"
      by (auto simp: and_then_Inr)
    from Cons.IH [OF this] Cons.prems(2) have "distinct (map tPos ts)"
      and "\<forall>t \<in> set ts. \<exists>j \<ge> Suc i. prefix (p @ [j]) (tPos t)" by simp_all
    then show ?thesis by (meson Suc_leD)
  next
    case True
    with Cons.prems obtain c' ts1 ds ts2 where ds: "derive chk sp root (p @ [i]) c = Inr (c', ts1)"
      "derive_kids chk sp root p h len (Suc i) cs = Inr (ds, ts2)" "ts = ts1 @ ts2"
      by (auto simp: and_then_Inr)
    have one: "distinct (map tPos ts1)" "\<forall>t \<in> set ts1. prefix (p @ [i]) (tPos t)"
      using Cons.prems(2) ds(1) by auto
    have two: "distinct (map tPos ts2)" "\<forall>t \<in> set ts2. \<exists>j \<ge> Suc i. prefix (p @ [j]) (tPos t)"
      using Cons.IH [OF ds(2)] Cons.prems(2) by simp_all
    have "tPos t \<noteq> tPos u" if t: "t \<in> set ts1" and u: "u \<in> set ts2" for t u
    proof
      assume eq: "tPos t = tPos u"
      from two(2) u obtain j where j: "j \<ge> Suc i" "prefix (p @ [j]) (tPos u)" by blast
      moreover have "prefix (p @ [i]) (tPos u)" using one(2) t eq by auto
      ultimately have "p @ [i] = p @ [j]"
        using prefix_length_prefix [of "p @ [i]" "tPos u" "p @ [j]"] prefix_order.eq_iff
          prefix_length_prefix [of "p @ [j]" "tPos u" "p @ [i]"] by auto
      with j show False by simp
    qed
    then have "distinct (map tPos ts)" using one(1) two(1) ds(3) by auto
    moreover have "\<exists>j \<ge> i. prefix (p @ [j]) (tPos t)" if "t \<in> set ts" for t
    proof (cases "t \<in> set ts1")
      case True
      with one(2) show ?thesis by auto
    next
      case False
      with that ds(3) two(2) obtain j where "j \<ge> Suc i" "prefix (p @ [j]) (tPos t)" by auto
      then show ?thesis by (intro exI [of _ j]) simp
    qed
    ultimately show ?thesis by blast
  qed
qed simp

lemma derive_distinct:
  "derive chk sp root p n = Inr (n', ts) \<Longrightarrow> distinct (map tPos ts) \<and> (\<forall>t \<in> set ts. prefix p (tPos t))"
proof (induction n arbitrary: p n' ts)
  case (Node h cs)
  show ?case
  proof (cases "Kind h = KindDerived")
    case True
    with Node.prems show ?thesis
      by (cases rule: derive_leaf_cases) (simp_all add: computeOne_Queue_pos)
  next
    case False
    with Node.prems obtain cs' where "derive_kids chk sp root p h (length cs) 0 cs = Inr (cs', ts)"
      by (auto simp: and_then_Inr)
    from derive_kids_distinct [OF _ this] Node.IH show ?thesis
      by (meson append_prefixD)
  qed
qed


section \<open>Queued checksums\<close>

text \<open>What a queued task says about the tree.\<close>

definition task_at :: "registry \<Rightarrow> node \<Rightarrow> cstask \<Rightarrow> bool" where
  "task_at chk root t \<longleftrightarrow>
     (\<exists>m d. off_at root (tPos t) = Some (fieldOff t) \<and> subtree root (tPos t) = Some m \<and>
        Kind (hdr m) = KindDerived \<and> Derive (hdr m) = Some d \<and> dKind d = DeriveChecksum \<and>
        hdr m = tHdr t \<and> fieldEnd t = fieldOff t + Width (tHdr t) \<and>
        span root (tPos t) d = Inr (rangeOff t, rangeEnd t) \<and> chk (Algo d) = Some (tFn t) \<and>
        tAddend t = Addend d \<and>
        selfInclusive t = (fieldOff t \<ge> rangeOff t \<and> fieldEnd t \<le> rangeEnd t))"

lemma computeOne_task:
  assumes "computeOne chk root p (hdr m) d = Inr (Queue t)"
    and "off_at root p = Some a" and "subtree root p = Some m"
    and "Kind (hdr m) = KindDerived" and "Derive (hdr m) = Some d"
  shows "task_at chk root t"
  using assms(1)
proof (rule computeOne_QueueE)
  fix fn s e fo
  assume "dKind d = DeriveChecksum" "chk (Algo d) = Some fn" "span root p d = Inr (s, e)"
    "off_map root p = Some fo"
    "t = \<lparr>tPos = p, tHdr = hdr m, tAddend = Addend d, fieldOff = fo, fieldEnd = fo + Width (hdr m),
          rangeOff = s, rangeEnd = e, tFn = fn, selfInclusive = (fo \<ge> s \<and> fo + Width (hdr m) \<le> e)\<rparr>"
  with assms(2-5) show ?thesis
    unfolding task_at_def off_map_off_at by (intro exI [of _ m] exI [of _ d]) simp
qed

lemma derive_tasks_at:
  assumes "derive chk sp root [] root = Inr (n', ts)" and "valid root" and "t \<in> set ts"
  shows "task_at chk root t"
proof -
  from derive_tasks [OF assms(1,3,2)] obtain q a m d where
    "off_at root q = Some a" "subtree root q = Some m" "Kind (hdr m) = KindDerived" "Derive (hdr m) = Some d"
    "computeOne chk root q (hdr m) d = Inr (Queue t)" by auto
  then show ?thesis by (intro computeOne_task)
qed

section \<open>Fields and ranges\<close>

text \<open>A derived field has no other node's boundary inside it.\<close>

lemma valid_subtree: "valid n \<Longrightarrow> subtree n p = Some m \<Longrightarrow> valid m"
  by (induction n p rule: subtree.induct) (auto simp: valid_children split: if_splits)

lemma leaf_position:
  "valid n \<Longrightarrow> subtree n p = Some m \<Longrightarrow> IsLeaf (Kind (hdr m)) \<Longrightarrow> off_at n (p @ q) = Some a \<Longrightarrow> q = []"
proof (induction n p arbitrary: a rule: subtree.induct)
  case (1 n)
  then show ?case using kid_in_container [of "hdr n" "Children n"] by (cases n; cases q) (auto split: if_splits)
next
  case (2 n i p)
  then show ?case by (auto simp: valid_children split: if_splits)
qed

lemma field_boundary:
  assumes v: "valid n" and f: "off_at n p = Some f" "subtree n p = Some m" "Kind (hdr m) = KindDerived"
    and q: "off_at n q = Some a" "subtree n q = Some k"
  shows "(a \<le> f \<or> f + Width (hdr m) \<le> a) \<and>
         (a + measure_node k \<le> f \<or> f + Width (hdr m) \<le> a + measure_node k)"
proof -
  have w: "measure_node m = Width (hdr m)" using f(3) by (cases m) simp
  consider "prefix q p" | "prefix p q" | "\<not> prefix q p" "\<not> prefix p q" by blast
  then show ?thesis
  proof cases
    case 1
    then obtain r where r: "p = q @ r" by (auto simp: prefix_def)
    with off_at_append [OF q, of r] f(1) obtain b where b: "off_at k r = Some b" "f = a + b" by auto
    have "subtree k r = Some m" using f(2) q(2) r by (simp add: subtree_append)
    from measure_le_parent [OF valid_subtree [OF v q(2)] b(1) this] b(2) w show ?thesis by simp
  next
    case 2
    then obtain r where r: "q = p @ r" by (auto simp: prefix_def)
    have "r = []" using leaf_position [OF v f(2), of r a] f(3) q(1) r by (simp add: IsLeaf_def)
    with r f q w show ?thesis by simp
  next
    case 3
    with disjoint_intervals [OF v q(1) f(1) q(2) f(2)] w show ?thesis by auto
  qed
qed

lemma span_boundaries:
  assumes "span root p d = Inr (s, e)"
  obtains q a k where "off_at root q = Some s" "off_at root a = Some k" "s \<le> k" "k + length_map root a = e"
  using assms that unfolding span_def off_map_off_at
  by (auto simp: and_then_Inr split: option.splits if_splits)

lemma field_range:
  assumes v: "valid n" and f: "off_at n p = Some f" "subtree n p = Some m" "Kind (hdr m) = KindDerived"
    and sp: "span n r d = Inr (s, e)"
  shows "s \<le> f \<and> f + Width (hdr m) \<le> e \<or> f + Width (hdr m) \<le> s \<or> e \<le> f"
proof -
  from sp obtain q a k where b: "off_at n q = Some s" "off_at n a = Some k" "s \<le> k" "k + length_map n a = e"
    by (rule span_boundaries)
  from off_at_subtree [OF b(1)] off_at_subtree [OF b(2)] obtain x y where "subtree n q = Some x" "subtree n a = Some y"
    by auto
  with field_boundary [OF v f b(1)] field_boundary [OF v f b(2)] b(3,4) show ?thesis
    by (auto simp: length_map_def)
qed

lemma fields_disjoint:
  assumes v: "valid n"
    and f: "off_at n p = Some a" "subtree n p = Some m" "Kind (hdr m) = KindDerived"
    and g: "off_at n q = Some b" "subtree n q = Some k" "Kind (hdr k) = KindDerived"
    and ne: "p \<noteq> q"
  shows "\<not> prefix p q \<and> \<not> prefix q p \<and> (a + Width (hdr m) \<le> b \<or> b + Width (hdr k) \<le> a)"
proof -
  have "\<not> prefix p q" using leaf_position [OF v f(2)] f(3) g(1) ne by (auto simp: prefix_def IsLeaf_def)
  moreover have "\<not> prefix q p" using leaf_position [OF v g(2)] g(3) f(1) ne by (auto simp: prefix_def IsLeaf_def)
  ultimately show ?thesis
    using disjoint_intervals [OF v f(1) g(1) f(2) g(2)] f(3) g(3) by (cases m; cases k) auto
qed

lemma span_in_bytes:
  assumes "valid n" and "span n r d = Inr (s, e)"
  shows "s \<le> e \<and> e \<le> measure_node n"
proof -
  from assms(2) obtain q a k where b: "off_at n q = Some s" "off_at n a = Some k" "s \<le> k" "k + length_map n a = e"
    by (rule span_boundaries)
  from off_at_subtree [OF b(2)] obtain y where "subtree n a = Some y" by auto
  with measure_le_parent [OF assms(1) b(2) this] b show ?thesis by (simp add: length_map_def)
qed

end
