(* ===== verification/IR_Checksums.thy ===== *)
theory IR_Checksums
  imports IR_Correct
begin

text \<open>
  The ordered checksum pass of \<open>pkg/ir/fixup.go\<close>: every checksum is computed
  over bytes that no later write changes, and the pass stops short only when
  tasks depend on each other in a cycle.
\<close>

section \<open>One task\<close>

definition zeroed :: "cstask \<Rightarrow> byte list \<Rightarrow> byte list" where
  "zeroed t bs = (if selfInclusive t
     then overwrite (fieldOff t) (replicate (fieldEnd t - fieldOff t) 0) bs else bs)"

definition checksum_of :: "cstask \<Rightarrow> byte list \<Rightarrow> u64" where
  "checksum_of t bs =
     truncate_val (tFn t (window (rangeOff t) (rangeEnd t) (zeroed t bs)) + tAddend t) (Width (tHdr t))"

lemma task_atE:
  assumes "task_at chk root t"
  obtains m d where "off_at root (tPos t) = Some (fieldOff t)" "subtree root (tPos t) = Some m"
    "Kind (hdr m) = KindDerived" "Derive (hdr m) = Some d" "dKind d = DeriveChecksum"
    "hdr m = tHdr t" "fieldEnd t = fieldOff t + Width (tHdr t)"
    "span root (tPos t) d = Inr (rangeOff t, rangeEnd t)" "chk (Algo d) = Some (tFn t)"
    "tAddend t = Addend d"
    "selfInclusive t = (fieldOff t \<ge> rangeOff t \<and> fieldEnd t \<le> rangeEnd t)"
  using assms unfolding task_at_def by (elim exE conjE)

lemma task_atD:
  assumes "task_at chk root t" and "valid root"
  obtains m where "off_at root (tPos t) = Some (fieldOff t)" "subtree root (tPos t) = Some m"
    "Kind (hdr m) = KindDerived" "hdr m = tHdr t" "fieldEnd t = fieldOff t + Width (tHdr t)"
    "fieldEnd t \<le> measure_node root" "rangeOff t \<le> rangeEnd t" "rangeEnd t \<le> measure_node root"
    "0 < Width (tHdr t)"
proof -
  from assms(1) obtain m d where m: "off_at root (tPos t) = Some (fieldOff t)" "subtree root (tPos t) = Some m"
    "Kind (hdr m) = KindDerived" "hdr m = tHdr t" "fieldEnd t = fieldOff t + Width (tHdr t)"
    "span root (tPos t) d = Inr (rangeOff t, rangeEnd t)" by (rule task_atE)
  have "measure_node m = Width (tHdr t)" using m(3,4) by (cases m) simp
  with measure_le_parent [OF assms(2) m(1,2)] m(5) have "fieldEnd t \<le> measure_node root" by simp
  moreover have "valid m" using valid_subtree [OF assms(2) m(2)] .
  then have "0 < Width (tHdr t)" using m(3,4) check_node_width [of "hdr m" "length (Children m)"]
    by (auto simp: valid_iff [of m])
  moreover have "rangeOff t \<le> rangeEnd t" "rangeEnd t \<le> measure_node root"
    using span_in_bytes [OF assms(2) m(6)] by auto
  ultimately show thesis by (intro that [OF m(1-5)])
qed

lemma checksum_of_self:
  assumes "task_at chk root t" and "valid root" and "length bs = measure_node root"
    and "length xs = Width (tHdr t)"
  shows "checksum_of t (overwrite (fieldOff t) xs bs) = checksum_of t bs"
proof -
  from assms(1) obtain m d where d: "off_at root (tPos t) = Some (fieldOff t)"
    "subtree root (tPos t) = Some m" "Kind (hdr m) = KindDerived"
    "hdr m = tHdr t" "fieldEnd t = fieldOff t + Width (tHdr t)"
    "span root (tPos t) d = Inr (rangeOff t, rangeEnd t)"
    "selfInclusive t = (fieldOff t \<ge> rangeOff t \<and> fieldEnd t \<le> rangeEnd t)"
    by (rule task_atE)
  from assms(1,2) have len: "fieldEnd t \<le> measure_node root" "rangeEnd t \<le> measure_node root"
    using task_atD [of chk root t thesis for thesis] by blast+
  show ?thesis
  proof (cases "selfInclusive t")
    case True
    then show ?thesis
      using assms(3,4) d(5) len by (simp add: checksum_of_def zeroed_def overwrite_overwrite)
  next
    case False
    with field_range [OF assms(2) d(1-3) d(6)] d(4,5,7)
    have "fieldEnd t \<le> rangeOff t \<or> rangeEnd t \<le> fieldOff t" by auto
    with False len assms(3,4) d(5) show ?thesis
      by (auto simp: checksum_of_def zeroed_def window_overwrite_disjoint)
  qed
qed

text \<open>The field of \<open>u\<close> lies in the range of \<open>t\<close>.\<close>

definition covers :: "cstask \<Rightarrow> cstask \<Rightarrow> bool" where
  "covers t u \<longleftrightarrow> rangeOff t \<le> fieldOff u \<and> fieldEnd u \<le> rangeEnd t"

lemma zeroed_overwrite:
  assumes "fieldEnd t \<le> fieldOff u \<or> fieldOff u + length xs \<le> fieldOff t" and "fieldOff t \<le> fieldEnd t"
    and "fieldEnd t \<le> length bs" and "fieldOff u + length xs \<le> length bs"
  shows "zeroed t (overwrite (fieldOff u) xs bs) = overwrite (fieldOff u) xs (zeroed t bs)"
  using assms by (auto simp: zeroed_def intro!: nth_equalityI) (auto simp: nth_overwrite)

lemma checksum_of_other:
  assumes t: "task_at chk root t" and u: "task_at chk root u" and v: "valid root"
    and ne: "tPos t \<noteq> tPos u" and cov: "\<not> covers t u"
    and len: "length bs = measure_node root" "length xs = Width (tHdr u)"
  shows "checksum_of t (overwrite (fieldOff u) xs bs) = checksum_of t bs"
proof -
  from t obtain d where d: "span root (tPos t) d = Inr (rangeOff t, rangeEnd t)" by (rule task_atE)
  from task_atD [OF t v] obtain m where m: "off_at root (tPos t) = Some (fieldOff t)"
    "subtree root (tPos t) = Some m" "Kind (hdr m) = KindDerived" "hdr m = tHdr t"
    "fieldEnd t = fieldOff t + Width (tHdr t)" "fieldEnd t \<le> measure_node root" "rangeEnd t \<le> measure_node root" .
  from task_atD [OF u v] obtain k where k: "off_at root (tPos u) = Some (fieldOff u)"
    "subtree root (tPos u) = Some k" "Kind (hdr k) = KindDerived" "hdr k = tHdr u"
    "fieldEnd u = fieldOff u + Width (tHdr u)" "fieldEnd u \<le> measure_node root" .
  from field_range [OF v k(1-3) d] cov have out: "fieldEnd u \<le> rangeOff t \<or> rangeEnd t \<le> fieldOff u"
    by (auto simp: covers_def k(4,5))
  from fields_disjoint [OF v m(1-3) k(1-3) ne]
  have dis: "fieldEnd t \<le> fieldOff u \<or> fieldOff u + length xs \<le> fieldOff t" using m(4,5) k(4) len(2) by auto
  have "length (zeroed t bs) = length bs" using m(5,6) len(1) by (simp add: zeroed_def)
  with zeroed_overwrite [OF dis] window_overwrite_disjoint [of "fieldOff u" xs "zeroed t bs" "rangeEnd t" "rangeOff t"]
    m k out len show ?thesis by (auto simp: checksum_of_def)
qed

lemma run_task_spec:
  assumes t: "task_at chk root t" and v: "valid root" and sh: "same_shape cur root"
  shows "run_task t (Encode cur, cur) =
    Inr (Encode (set_val cur (tPos t) (checksum_of t (Encode cur))), set_val cur (tPos t) (checksum_of t (Encode cur)))"
proof -
  from task_atD [OF t v] obtain m where m: "off_at root (tPos t) = Some (fieldOff t)"
    "subtree root (tPos t) = Some m" "Kind (hdr m) = KindDerived" "hdr m = tHdr t"
    "fieldEnd t = fieldOff t + Width (tHdr t)" "fieldEnd t \<le> measure_node root"
    "rangeOff t \<le> rangeEnd t" "rangeEnd t \<le> measure_node root" .
  note sh' = same_shapeD [OF sh]
  have vc: "valid cur" using sh'(1) v by simp
  have oc: "off_at cur (tPos t) = Some (fieldOff t)" using sh'(3) m(1) by simp
  from sh'(6) [of "tPos t"] m(2) obtain k where k: "subtree cur (tPos t) = Some k" "erase k = erase m"
    by (cases "subtree cur (tPos t)") auto
  then have eh: "erase_hdr (hdr k) = erase_hdr (hdr m)" by (metis hdr_erase)
  then have kh: "Kind (hdr k) = KindDerived" "Width (hdr k) = Width (tHdr t)" "Endian (hdr k) = Endian (tHdr t)"
    using m(3,4) by (metis erase_hdr_fields(1), metis erase_hdr_fields(2), metis erase_hdr_fields(9))
  have len: "length (Encode cur) = measure_node root" using length_Encode_measure [OF vc] sh'(2) by simp
  let ?z = "zeroed t (Encode cur)" and ?v = "checksum_of t (Encode cur)"
  have lz: "length ?z = length (Encode cur)" using m(5,6) len by (simp add: zeroed_def)
  have lw: "length (window (fieldOff t) (fieldEnd t) ?z) = Width (tHdr t)"
    using m(5,6) len lz by simp
  have "putInt (window (fieldOff t) (fieldEnd t) ?z) ?v (Width (tHdr t)) (Endian (tHdr t)) =
      Some (int_bytes ?v (Width (tHdr t)) (Endian (tHdr t)))"
    using putInt_bytes [of "Width (tHdr t)" "window (fieldOff t) (fieldEnd t) ?z"] lw by simp
  moreover have "overwrite (fieldOff t) (int_bytes ?v (Width (tHdr t)) (Endian (tHdr t))) ?z =
      Encode (set_val cur (tPos t) ?v)"
    using Encode_set_val [OF vc oc k(1) kh(1), of ?v] kh m(5,6) len
    by (simp add: zeroed_def overwrite_overwrite)
  ultimately show ?thesis
    using m(5-8) len by (simp add: run_task_def checksum_of_def [symmetric] zeroed_def [symmetric] Let_def)
qed

section \<open>Dependencies\<close>

lemma sorted_dropWhile_less:
  "sorted (map f xs) \<Longrightarrow> set (dropWhile (\<lambda>k. f k < (a :: nat)) xs) = {k \<in> set xs. a \<le> f k}"
  by (induction xs) auto

lemma sorted_takeWhile_less:
  "sorted (map f xs) \<Longrightarrow> set (takeWhile (\<lambda>k. f k < (a :: nat)) xs) = {k \<in> set xs. f k < a}"
  by (induction xs) auto

lemma byOff_spec: "distinct (byOff ts)" "set (byOff ts) = {..<length ts}"
  "sorted (map (\<lambda>k. fieldOff (ts ! k)) (byOff ts))"
  by (auto simp: byOff_def Let_def)

lemma deps_of_spec:
  assumes "\<forall>t \<in> set ts. fieldOff t < fieldEnd t"
  shows "distinct (deps_of ts i)"
    and "set (deps_of ts i) = {j. j < length ts \<and> j \<noteq> i \<and> covers (ts ! i) (ts ! j)}"
proof -
  let ?f = "\<lambda>k. fieldOff (ts ! k)"
  let ?c = "dropWhile (\<lambda>k. ?f k < rangeOff (ts ! i)) (byOff ts)"
  have "sorted (map ?f ?c)"
    using sorted_wrt_drop [OF byOff_spec(3) [of ts]] by (simp add: dropWhile_eq_drop drop_map)
  then have inside: "set (takeWhile (\<lambda>j. ?f j < rangeEnd (ts ! i)) ?c) =
      {k \<in> set ?c. ?f k < rangeEnd (ts ! i)}" by (rule sorted_takeWhile_less)
  have cand: "set ?c = {k \<in> set (byOff ts). rangeOff (ts ! i) \<le> ?f k}"
    by (rule sorted_dropWhile_less [OF byOff_spec(3)])
  have field: "?f k < fieldEnd (ts ! k)" if "k < length ts" for k using assms that by auto
  show "set (deps_of ts i) = {j. j < length ts \<and> j \<noteq> i \<and> covers (ts ! i) (ts ! j)}"
  proof (rule set_eqI)
    fix k
    have "k \<in> set (deps_of ts i) \<longleftrightarrow> k < length ts \<and> rangeOff (ts ! i) \<le> ?f k \<and> ?f k < rangeEnd (ts ! i) \<and>
        k \<noteq> i \<and> fieldEnd (ts ! k) \<le> rangeEnd (ts ! i)"
      unfolding deps_of_def Let_def set_filter inside cand byOff_spec(2)
      by (simp add: not_less conj_comms)
    then show "k \<in> set (deps_of ts i) \<longleftrightarrow> k \<in> {j. j < length ts \<and> j \<noteq> i \<and> covers (ts ! i) (ts ! j)}"
      using field [of k] by (auto simp: covers_def)
  qed
  show "distinct (deps_of ts i)"
    using byOff_spec(1) by (auto simp: deps_of_def Let_def)
qed

lemma release_spec:
  "length deps = length indeg \<Longrightarrow>
   fst (release i b deps indeg) =
     map (\<lambda>j. if 0 < indeg ! j \<and> i \<in> set (deps ! j) then indeg ! j - 1 else indeg ! j) [0..<length indeg] \<and>
   snd (release i b deps indeg) =
     map (\<lambda>j. b + j) (filter (\<lambda>j. indeg ! j = 1 \<and> i \<in> set (deps ! j)) [0..<length indeg])"
proof (induction i b deps indeg rule: release.induct)
  case (1 i j d ds k ks)
  have up: "[0..<length (k # ks)] = 0 # map Suc [0..<length ks]"
    by (simp add: map_Suc_upt upt_conv_Cons del: upt_Suc)
  from 1 obtain ks' rs where "release i (Suc j) ds ks = (ks', rs)" by (cases "release i (Suc j) ds ks")
  with 1 show ?case
    unfolding up by (auto simp: Let_def filter_map o_def)
qed auto

section \<open>The ordered pass\<close>

text \<open>
  The counters of the pass after the tasks \<open>D\<close>: each counts the dependencies
  still to run, and a task has been released when its counter is zero.
\<close>

definition counters :: "nat list list \<Rightarrow> nat list \<Rightarrow> nat list \<Rightarrow> nat list \<Rightarrow> bool" where
  "counters deps indeg D pending \<longleftrightarrow>
     distinct (D @ pending) \<and> set (D @ pending) \<subseteq> {..<length deps} \<and> length indeg = length deps \<and>
     (\<forall>j < length deps. indeg ! j = length (filter (\<lambda>i. i \<notin> set D) (deps ! j)) \<and>
                       (j \<in> set (D @ pending) \<longleftrightarrow> indeg ! j = 0))"

lemma counters_D:
  assumes "counters deps indeg D pending" and "j < length deps" and "j \<in> set D \<or> j \<in> set pending"
  shows "filter (\<lambda>i. i \<notin> set D) (deps ! j) = []"
  using assms unfolding counters_def by (metis Un_iff length_0_conv set_append)

lemma filter_remove1:
  "distinct xs \<Longrightarrow> i \<in> set xs \<Longrightarrow> P i \<Longrightarrow>
   length (filter P xs) = Suc (length (filter (\<lambda>x. P x \<and> x \<noteq> i) xs))"
  by (induction xs) (auto intro: arg_cong [where f = length] filter_cong)

lemma filter_not_in:
  "i \<notin> set xs \<Longrightarrow> filter (\<lambda>x. P x \<and> x \<noteq> i) xs = filter P xs"
  by (induction xs) auto

lemma counters_step:
  assumes inv: "counters deps indeg D (i # pending)" and d: "\<And>j. j < length deps \<Longrightarrow> distinct (deps ! j)"
    and rel: "release i 0 deps indeg = (indeg', ready)"
  shows "counters deps indeg' (D @ [i]) (pending @ ready)"
proof -
  have len: "length indeg = length deps" and iD: "i \<notin> set D" "i < length deps"
    and cnt: "\<And>j. j < length deps \<Longrightarrow> indeg ! j = length (filter (\<lambda>i. i \<notin> set D) (deps ! j))"
    and zero: "\<And>j. j < length deps \<Longrightarrow> (j \<in> set (D @ i # pending)) = (indeg ! j = 0)"
    using inv by (auto simp: counters_def)
  from release_spec [of deps indeg i 0] rel len
  have indeg': "indeg' = map (\<lambda>j. if 0 < indeg ! j \<and> i \<in> set (deps ! j) then indeg ! j - 1 else indeg ! j)
      [0..<length deps]"
    and ready: "ready = filter (\<lambda>j. indeg ! j = 1 \<and> i \<in> set (deps ! j)) [0..<length deps]" by auto
  have c': "indeg' ! j = length (filter (\<lambda>k. k \<notin> set (D @ [i])) (deps ! j))" if j: "j < length deps" for j
  proof (cases "i \<in> set (deps ! j)")
    case True
    from filter_remove1 [OF d [OF j] True, of "\<lambda>k. k \<notin> set D"] iD cnt [OF j] True j show ?thesis
      by (simp add: indeg' conj_commute)
  next
    case False
    with filter_not_in [OF False, of "\<lambda>k. k \<notin> set D"] cnt [OF j] j False show ?thesis
      by (simp add: indeg' conj_commute)
  qed
  have z': "(j \<in> set ((D @ [i]) @ pending @ ready)) = (indeg' ! j = 0)" if j: "j < length deps" for j
    using zero [OF j] j by (auto simp: indeg' ready)
  have "distinct ((D @ [i]) @ pending @ ready)"
    using inv zero by (auto simp: counters_def ready)
  moreover have "set ((D @ [i]) @ pending @ ready) \<subseteq> {..<length deps}"
    using inv by (auto simp: counters_def ready)
  ultimately show ?thesis using c' z' by (simp add: counters_def indeg')
qed

text \<open>The bytes and the tree after the tasks \<open>D\<close>.\<close>

definition computed :: "node \<Rightarrow> cstask list \<Rightarrow> nat list \<Rightarrow> byte list \<times> node \<Rightarrow> bool" where
  "computed root ts D st \<longleftrightarrow>
     fst st = Encode (snd st) \<and> same_shape (snd st) root \<and>
     (\<forall>k \<in> set D. \<exists>m. subtree (snd st) (tPos (ts ! k)) = Some m \<and>
                    Val (hdr m) = checksum_of (ts ! k) (Encode (snd st))) \<and>
     (\<forall>p. (\<forall>k \<in> set D. \<not> prefix p (tPos (ts ! k)) \<and> \<not> prefix (tPos (ts ! k)) p) \<longrightarrow>
          subtree (snd st) p = subtree root p)"

lemma computed_cong: "computed root ts D st \<Longrightarrow> set D = set E \<Longrightarrow> computed root ts E st"
  by (simp add: computed_def)

definition tasks_ok :: "registry \<Rightarrow> node \<Rightarrow> cstask list \<Rightarrow> bool" where
  "tasks_ok chk root ts \<longleftrightarrow> valid root \<and> distinct (map tPos ts) \<and> (\<forall>t \<in> set ts. task_at chk root t)"

lemma tasks_ok_fields: "tasks_ok chk root ts \<Longrightarrow> t \<in> set ts \<Longrightarrow> fieldOff t < fieldEnd t"
  unfolding tasks_ok_def by (metis task_atD less_add_same_cancel1)

lemma buildDeps_spec:
  assumes "tasks_ok chk root ts" and "j < length ts"
  shows "distinct (buildDeps ts ! j)"
    and "set (buildDeps ts ! j) = {i. i < length ts \<and> i \<noteq> j \<and> covers (ts ! j) (ts ! i)}"
  using deps_of_spec [of ts j] tasks_ok_fields [OF assms(1)] assms(2) by (simp_all add: buildDeps_def)

text \<open>Running one task keeps the values of the tasks before it.\<close>

lemma run_task_values:
  assumes ok: "tasks_ok chk root ts" and i: "i < length ts" and D: "set D \<subseteq> {..<length ts}" "i \<notin> set D"
    and closed: "\<forall>k \<in> set D. \<not> covers (ts ! k) (ts ! i)"
    and sh: "same_shape cur root"
    and vals: "\<forall>k \<in> set D. \<exists>m. subtree cur (tPos (ts ! k)) = Some m \<and>
                 Val (hdr m) = checksum_of (ts ! k) (Encode cur)"
    and cur': "cur' = set_val cur (tPos (ts ! i)) (checksum_of (ts ! i) (Encode cur))"
  shows "same_shape cur' root"
    and "\<forall>k \<in> set (D @ [i]). \<exists>m. subtree cur' (tPos (ts ! k)) = Some m \<and>
           Val (hdr m) = checksum_of (ts ! k) (Encode cur')"
proof -
  have v: "valid root" and at: "\<And>k. k < length ts \<Longrightarrow> task_at chk root (ts ! k)"
    using ok by (auto simp: tasks_ok_def)
  let ?t = "ts ! i"
  from task_atD [OF at [OF i] v] obtain m where m: "off_at root (tPos ?t) = Some (fieldOff ?t)"
    "subtree root (tPos ?t) = Some m" "Kind (hdr m) = KindDerived" "hdr m = tHdr ?t"
    "fieldEnd ?t = fieldOff ?t + Width (tHdr ?t)" "fieldEnd ?t \<le> measure_node root" .
  note sh' = same_shapeD [OF sh]
  have vc: "valid cur" using sh'(1) v by simp
  have oc: "off_at cur (tPos ?t) = Some (fieldOff ?t)" using sh'(3) m(1) by simp
  from sh'(6) [of "tPos ?t"] m(2) obtain k where k: "subtree cur (tPos ?t) = Some k" "erase k = erase m"
    by (cases "subtree cur (tPos ?t)") auto
  then have eh: "erase_hdr (hdr k) = erase_hdr (hdr m)" by (metis hdr_erase)
  then have kh: "Kind (hdr k) = KindDerived" "Width (hdr k) = Width (tHdr ?t)"
    using m(3,4) by (metis erase_hdr_fields(1), metis erase_hdr_fields(2))
  have len: "length (Encode cur) = measure_node root" using length_Encode_measure [OF vc] sh'(2) by simp
  let ?x = "int_bytes (checksum_of ?t (Encode cur)) (Width (tHdr ?t)) (Endian (hdr k))"
  have enc: "Encode cur' = overwrite (fieldOff ?t) ?x (Encode cur)"
    using Encode_set_val [OF vc oc k(1) kh(1)] kh(2) by (simp add: cur')
  show "same_shape cur' root"
    using set_val_erase [OF k(1) kh(1)] sh by (simp add: same_shape_def cur')
  have self: "\<exists>m. subtree cur' (tPos ?t) = Some m \<and> Val (hdr m) = checksum_of ?t (Encode cur')"
    using subtree_set_val [OF k(1)] checksum_of_self [OF at [OF i] v len, of ?x]
    unfolding enc by (auto simp: cur' upd_def split: node.splits)
  have other: "\<exists>m. subtree cur' (tPos (ts ! k)) = Some m \<and> Val (hdr m) = checksum_of (ts ! k) (Encode cur')"
    if kD: "k \<in> set D" for k
  proof -
    have k: "k < length ts" "k \<noteq> i" using kD D by auto
    with ok i have ne: "tPos (ts ! k) \<noteq> tPos ?t"
      by (auto simp: tasks_ok_def distinct_conv_nth)
    from task_atD [OF at [OF k(1)] v] obtain m' where m': "off_at root (tPos (ts ! k)) = Some (fieldOff (ts ! k))"
      "subtree root (tPos (ts ! k)) = Some m'" "Kind (hdr m') = KindDerived" .
    have "subtree cur' (tPos (ts ! k)) = subtree cur (tPos (ts ! k))"
      using fields_disjoint [OF v m'(1-3) m(1-3) ne] by (simp add: cur' subtree_set_val_other)
    moreover have "checksum_of (ts ! k) (Encode cur') = checksum_of (ts ! k) (Encode cur)"
      unfolding enc
      by (rule checksum_of_other [OF at [OF k(1)] at [OF i] v ne]) (use closed kD len in auto)
    ultimately show ?thesis using vals kD by auto
  qed
  from self other show "\<forall>k \<in> set (D @ [i]). \<exists>m. subtree cur' (tPos (ts ! k)) = Some m \<and>
      Val (hdr m) = checksum_of (ts ! k) (Encode cur')" by auto
qed

lemma computed_step:
  assumes ok: "tasks_ok chk root ts" and inv: "counters (buildDeps ts) indeg D (i # pending)"
    and st: "computed root ts D st"
  shows "\<exists>st'. run_task (ts ! i) st = Inr st' \<and> computed root ts (D @ [i]) st'"
proof -
  obtain cur where cur: "st = (Encode cur, cur)" "same_shape cur root"
    using st by (cases st) (auto simp: computed_def)
  have len: "length (buildDeps ts) = length ts" by (simp add: buildDeps_def)
  have i: "i < length ts" "i \<notin> set D" and D: "set D \<subseteq> {..<length ts}"
    using inv len by (auto simp: counters_def)
  let ?cur' = "set_val cur (tPos (ts ! i)) (checksum_of (ts ! i) (Encode cur))"
  have run: "run_task (ts ! i) st = Inr (Encode ?cur', ?cur')"
    using run_task_spec [of chk root "ts ! i" cur] ok i cur by (auto simp: tasks_ok_def)
  have closed: "\<forall>k \<in> set D. \<not> covers (ts ! k) (ts ! i)"
  proof (intro ballI notI)
    fix k assume k: "k \<in> set D" and c: "covers (ts ! k) (ts ! i)"
    have kl: "k < length ts" "k \<noteq> i" using k D i by auto
    have "i \<in> set (buildDeps ts ! k)" unfolding buildDeps_spec(2) [OF ok kl(1)] using i kl c by simp
    moreover have "filter (\<lambda>j. j \<notin> set D) (buildDeps ts ! k) = []"
      using counters_D [OF inv] k kl len by auto
    ultimately show False using i(2) by (auto simp: filter_empty_conv)
  qed
  have vals: "\<forall>k \<in> set D. \<exists>m. subtree cur (tPos (ts ! k)) = Some m \<and>
      Val (hdr m) = checksum_of (ts ! k) (Encode cur)" using st cur by (simp add: computed_def)
  note step = run_task_values [OF ok i(1) D i(2) closed cur(2) vals refl]
  have "subtree ?cur' p = subtree root p"
    if p: "\<forall>k \<in> set (D @ [i]). \<not> prefix p (tPos (ts ! k)) \<and> \<not> prefix (tPos (ts ! k)) p" for p
    using st cur p subtree_set_val_other [of p "tPos (ts ! i)" cur] by (simp add: computed_def)
  with step have "computed root ts (D @ [i]) (Encode ?cur', ?cur')" by (simp add: computed_def)
  with run show ?thesis by blast
qed

lemma kahn_spec:
  assumes ok: "tasks_ok chk root ts"
  shows "counters (buildDeps ts) indeg D pending \<Longrightarrow> computed root ts D st \<Longrightarrow> cnt = length D \<Longrightarrow>
    \<exists>st' indeg' D'. kahn ts (buildDeps ts) indeg pending st cnt = Inr (st', length D') \<and>
      counters (buildDeps ts) indeg' D' [] \<and> computed root ts D' st'"
proof (induction "length pending + waiting indeg" arbitrary: D indeg pending st cnt rule: less_induct)
  case less
  show ?case
  proof (cases pending)
    case Nil
    with less.prems show ?thesis by auto
  next
    case (Cons i rest)
    obtain indeg' ready where rel: "release i 0 (buildDeps ts) indeg = (indeg', ready)" by fastforce
    from computed_step [OF ok _ less.prems(2)] less.prems(1) Cons obtain st' where
      st': "run_task (ts ! i) st = Inr st'" "computed root ts (D @ [i]) st'" by blast
    have "distinct (buildDeps ts ! j)" if "j < length (buildDeps ts)" for j
      using buildDeps_spec(1) [OF ok] that by (simp add: buildDeps_def)
    from counters_step [OF less.prems(1) [unfolded Cons] this rel]
    have c: "counters (buildDeps ts) indeg' (D @ [i]) (rest @ ready)" .
    have "length (rest @ ready) + waiting indeg' < length pending + waiting indeg"
      using release_waiting [of i 0 "buildDeps ts" indeg] rel Cons by simp
    from less.hyps [OF this c st'(2)] less.prems(3) show ?thesis
      by (simp add: Cons st'(1) rel)
  qed
qed

lemma tasks_start:
  "counters (buildDeps ts) (map length (buildDeps ts)) []
     (filter (\<lambda>i. map length (buildDeps ts) ! i = 0) [0..<length ts])"
  by (auto simp: counters_def buildDeps_def)

lemma counters_complete:
  "counters deps indeg D [] \<Longrightarrow> length D = length deps \<Longrightarrow> set D = {..<length deps}"
  unfolding counters_def
  by (metis append_Nil2 card_lessThan card_subset_eq distinct_card finite_lessThan)

lemma counters_stuck:
  assumes ok: "tasks_ok chk root ts" and c: "counters (buildDeps ts) indeg D []" and j: "j < length ts" "j \<notin> set D"
  shows "\<exists>i \<in> {..<length ts} - set D. i \<noteq> j \<and> covers (ts ! j) (ts ! i)"
proof -
  have len: "length (buildDeps ts) = length ts" by (simp add: buildDeps_def)
  then have "filter (\<lambda>i. i \<notin> set D) (buildDeps ts ! j) \<noteq> []"
    using c j unfolding counters_def append_Nil2 by (metis length_0_conv)
  then obtain i where "i \<in> set (buildDeps ts ! j)" "i \<notin> set D" by (auto simp: filter_empty_conv)
  then show ?thesis unfolding buildDeps_spec(2) [OF ok j(1)] by blast
qed

lemma counters_missing:
  assumes "counters deps indeg D []" and "length D \<noteq> length deps"
  shows "{..<length deps} - set D \<noteq> {}"
proof
  assume "{..<length deps} - set D = {}"
  moreover have "set D \<subseteq> {..<length deps}" "distinct D" using assms(1) by (simp_all add: counters_def)
  ultimately have "set D = {..<length deps}" by blast
  with \<open>distinct D\<close> distinct_card [of D] assms(2) show False by simp
qed

text \<open>The outcome of the pass.\<close>

lemma checksums_kahn:
  assumes ok: "tasks_ok chk root ts"
  obtains st indeg D where "counters (buildDeps ts) indeg D []" "computed root ts D st"
    "checksums ts (Encode root, root) = (if length D \<noteq> length ts then Inl CyclicDerivation else Inr st)"
proof -
  have "computed root ts [] (Encode root, root)" by (simp add: computed_def)
  from kahn_spec [OF ok tasks_start this, of 0] obtain st indeg D where
    k: "kahn ts (buildDeps ts) (map length (buildDeps ts))
      (filter (\<lambda>i. map length (buildDeps ts) ! i = 0) [0..<length ts]) (Encode root, root) 0 = Inr (st, length D)"
    and c: "counters (buildDeps ts) indeg D []" and st: "computed root ts D st"
    unfolding list.size by blast
  show thesis
    by (rule that [OF c st]) (simp only: checksums_def Let_def k and_then.simps prod.case)
qed

lemma checksums_outcome:
  assumes ok: "tasks_ok chk root ts"
  obtains (Ordered) st where "checksums ts (Encode root, root) = Inr st" "computed root ts [0..<length ts] st"
  | (Cyclic) R where "checksums ts (Encode root, root) = Inl CyclicDerivation" "R \<noteq> {}" "R \<subseteq> {..<length ts}"
      "\<forall>j \<in> R. \<exists>i \<in> R. i \<noteq> j \<and> covers (ts ! j) (ts ! i)"
proof -
  from checksums_kahn [OF ok] obtain st indeg D where c: "counters (buildDeps ts) indeg D []"
    and st: "computed root ts D st"
    and k: "checksums ts (Encode root, root) = (if length D \<noteq> length ts then Inl CyclicDerivation else Inr st)" .
  have len: "length (buildDeps ts) = length ts" by (simp add: buildDeps_def)
  show thesis
  proof (cases "length D = length ts")
    case True
    have "set D = set [0..<length ts]"
      unfolding counters_complete [OF c True [folded len]] len set_upt by (rule lessThan_atLeast0)
    from st this have st': "computed root ts [0..<length ts] st" by (rule computed_cong)
    have "checksums ts (Encode root, root) = Inr st" unfolding k using True by (simp only: simp_thms if_False)
    from this st' show ?thesis by (rule Ordered)
  next
    case False
    have "checksums ts (Encode root, root) = Inl CyclicDerivation" unfolding k using False by (simp only: simp_thms if_True)
    moreover have "{..<length ts} - set D \<noteq> {}" using counters_missing [OF c] False len by simp
    moreover have "\<forall>j \<in> {..<length ts} - set D. \<exists>i \<in> {..<length ts} - set D. i \<noteq> j \<and> covers (ts ! j) (ts ! i)"
      using counters_stuck [OF ok c] by blast
    moreover have "{..<length ts} - set D \<subseteq> {..<length ts}" by blast
    ultimately show ?thesis using Cyclic by metis
  qed
qed

end
