(* ===== verification/IR_Fixed.thy ===== *)
theory IR_Fixed
  imports IR_Checksums
begin

text \<open>
  What \<open>Fix\<close> of \<open>pkg/ir/fixup.go\<close> promises: the bytes it returns encode the tree it
  leaves, every encoded derived field that is not suppressed holds the value its
  derivation asks for of those bytes, and it never indexes out of range.
\<close>

section \<open>The value a derivation asks for\<close>

text \<open>
  The specification, stated of the final tree and bytes alone: a length is the
  number of bytes in the range, a count the number of children encoded under the target,
  an offset the position of the target, and a checksum the function applied to
  the bytes of the range, with the field itself read as zero when it lies there.
\<close>

definition zero_field :: "nat \<Rightarrow> nat \<Rightarrow> byte list \<Rightarrow> byte list" where
  "zero_field a w bs = overwrite a (replicate w 0) bs"

definition field_value :: "registry \<Rightarrow> node \<Rightarrow> byte list \<Rightarrow> pos \<Rightarrow> hdr \<Rightarrow> derivation \<Rightarrow> u64 option" where
  "field_value chk root bs p h d =
     (case dKind d of
        DeriveLength \<Rightarrow>
          (case span root p d of
             Inl _ \<Rightarrow> None
           | Inr (s, e) \<Rightarrow> Some (take_bit (8 * Width h) (of_nat (length (window s e bs)) + Addend d)))
      | DeriveCount \<Rightarrow>
          (case Resolve (From d) root p of
             Inl _ \<Rightarrow> None
           | Inr q \<Rightarrow> map_option (\<lambda>t. take_bit (8 * Width h)
               (of_nat (if Kind (hdr t) = KindOpt \<and> \<not> Present (hdr t) then 0 else length (Children t)) + Addend d))
               (subtree root q))
      | DeriveOffset \<Rightarrow>
          (case Resolve (From d) root p of
             Inl _ \<Rightarrow> None
           | Inr q \<Rightarrow> map_option (\<lambda>a. take_bit (8 * Width h) (of_nat a + Addend d)) (off_at root q))
      | DeriveChecksum \<Rightarrow>
          (case (chk (Algo d), span root p d, off_at root p) of
             (Some fn, Inr (s, e), Some a) \<Rightarrow>
               Some (take_bit (8 * Width h)
                 (fn (window s e (if s \<le> a \<and> a + Width h \<le> e then zero_field a (Width h) bs else bs)) + Addend d))
           | _ \<Rightarrow> None)
      | DeriveOther _ \<Rightarrow> None)"

text \<open>It depends on the shape of the tree and on the bytes.\<close>

lemma same_shape_subtree:
  assumes "same_shape a b"
  shows "(case subtree a q of None \<Rightarrow> subtree b q = None
          | Some m \<Rightarrow> \<exists>k. subtree b q = Some k \<and> erase k = erase m)"
  using same_shapeD(6) [OF assms, of q] by (cases "subtree a q"; cases "subtree b q") auto

lemma erase_counts:
  assumes "erase k = erase m"
  shows "Kind (hdr k) = Kind (hdr m)" "Present (hdr k) = Present (hdr m)"
    "length (Children k) = length (Children m)" "Width (hdr k) = Width (hdr m)" "Derive (hdr k) = Derive (hdr m)"
    "Endian (hdr k) = Endian (hdr m)"
proof -
  from assms have h: "erase_hdr (hdr k) = erase_hdr (hdr m)" and c: "map erase (Children k) = map erase (Children m)"
    by (metis hdr_erase, metis Children_erase)
  from h show "Kind (hdr k) = Kind (hdr m)" by (metis erase_hdr_fields(1))
  from h show "Present (hdr k) = Present (hdr m)" unfolding Present_def by (metis erase_hdr_fields(1,6))
  from h show "Width (hdr k) = Width (hdr m)" by (metis erase_hdr_fields(2))
  from h show "Derive (hdr k) = Derive (hdr m)" by (metis erase_hdr_fields(10))
  from h show "Endian (hdr k) = Endian (hdr m)" by (metis erase_hdr_fields(9))
  from c show "length (Children k) = length (Children m)" by (metis length_map)
qed

lemma field_value_shape:
  assumes sh: "same_shape a b" and w: "Width h = Width h'"
  shows "field_value chk a bs p h d = field_value chk b bs p h' d"
proof -
  have sub: "map_option (\<lambda>t. take_bit (8 * Width h') ((of_nat
      (if Kind (hdr t) = KindOpt \<and> \<not> Present (hdr t) then 0 else length (Children t)) :: u64) + Addend d)) (subtree a q) =
    map_option (\<lambda>t. take_bit (8 * Width h') ((of_nat
      (if Kind (hdr t) = KindOpt \<and> \<not> Present (hdr t) then 0 else length (Children t)) :: u64) + Addend d)) (subtree b q)" for q
  proof (cases "subtree a q")
    case None
    with same_shape_subtree [OF sh, of q] show ?thesis by simp
  next
    case (Some m)
    with same_shape_subtree [OF sh, of q] obtain k where k: "subtree b q = Some k" "erase k = erase m" by auto
    then show ?thesis using Some erase_counts(1-3) [OF k(2)] by simp
  qed
  show ?thesis
    unfolding field_value_def sub same_shapeD(3-5) [OF sh] w ..
qed

text \<open>The values the walk writes itself are those.\<close>

lemma computeOne_value:
  assumes v: "valid root" and c: "computeOne chk root p h d = Inr (SetVal x)"
    and len: "length bs = measure_node root"
  shows "field_value chk root bs p h d = Some x"
proof (cases "dKind d")
  case DeriveLength
  with c obtain s e where se: "span root p d = Inr (s, e)"
    and x: "x = truncate_val (int64_diff e s + Addend d) (Width h)"
    by (auto simp: computeOne_def and_then_Inr)
  from span_in_bytes [OF v se] have "int64_diff e s = of_nat (length (window s e bs))"
    using len by (simp add: int64_diff_def)
  with DeriveLength se x show ?thesis by (simp add: field_value_def truncate_val_take_bit)
next
  case DeriveCount
  with c obtain q where q: "Resolve (From d) root p = Inr q" by (auto simp: computeOne_def and_then_Inr)
  with c DeriveCount show ?thesis
    by (cases "subtree root q") (simp_all add: computeOne_def field_value_def truncate_val_take_bit Let_def)
next
  case DeriveOffset
  with c obtain q where q: "Resolve (From d) root p = Inr q" by (auto simp: computeOne_def and_then_Inr)
  with c DeriveOffset show ?thesis
    by (cases "off_at root q") (simp_all add: computeOne_def field_value_def truncate_val_take_bit off_map_off_at)
next
  case DeriveChecksum
  note c' = c [unfolded computeOne_def DeriveChecksum derive_kind.case]
  show ?thesis
  proof (cases "chk (Algo d)")
    case (Some fn)
    with c' obtain s e where "span root p d = Inr (s, e)" by (auto simp: and_then_Inr)
    with c' Some show ?thesis by (cases "off_map root p") (simp_all add: Let_def split: if_splits)
  qed (use c' in simp)
qed (use c in \<open>simp add: computeOne_def\<close>)

lemma task_value:
  assumes t: "task_at chk root t" and m: "subtree root (tPos t) = Some m" "Derive (hdr m) = Some d"
  shows "field_value chk root bs (tPos t) (hdr m) d = Some (checksum_of t bs)"
proof -
  from t obtain k e where k: "off_at root (tPos t) = Some (fieldOff t)" "subtree root (tPos t) = Some k"
    "Kind (hdr k) = KindDerived" "Derive (hdr k) = Some e" "dKind e = DeriveChecksum"
    "hdr k = tHdr t" "fieldEnd t = fieldOff t + Width (tHdr t)"
    "span root (tPos t) e = Inr (rangeOff t, rangeEnd t)" "chk (Algo e) = Some (tFn t)"
    "tAddend t = Addend e" "selfInclusive t = (fieldOff t \<ge> rangeOff t \<and> fieldEnd t \<le> rangeEnd t)"
    by (rule task_atE)
  with m show ?thesis
    by (simp add: field_value_def checksum_of_def zeroed_def zero_field_def truncate_val_take_bit)
qed

section \<open>The fixup as a whole\<close>

lemma derive_same_shape: "derive chk sp root [] root = Inr (r, ts) \<Longrightarrow> same_shape r root"
  by (drule derive_erase) (simp add: same_shape_def)

lemma task_at_shape:
  assumes t: "task_at chk root t" and sh: "same_shape r root" and r: "subtree r (tPos t) = subtree root (tPos t)"
  shows "task_at chk r t"
  using t unfolding task_at_def same_shapeD(3,4) [OF sh] r .

text \<open>A queued node is as it was.\<close>

lemma derive_tasks_ok:
  assumes d: "derive chk sp root [] root = Inr (r, ts)" and v: "valid root"
  shows "tasks_ok chk r ts"
  unfolding tasks_ok_def
proof (intro conjI ballI)
  show "valid r" using same_shapeD(1) [OF derive_same_shape [OF d]] v by simp
  show "distinct (map tPos ts)" using derive_distinct [OF d] by blast
  fix t assume t: "t \<in> set ts"
  from derive_tasks [OF d t v] obtain q a m e where q: "off_at root q = Some a" "subtree root q = Some m"
    "Kind (hdr m) = KindDerived" "Derive (hdr m) = Some e" "\<not> suppresses sp q m e"
    "computeOne chk root q (hdr m) e = Inr (Queue t)" by auto
  have "derived_out chk sp root q m e (subtree r q) (set ts)"
    using derive_derived [OF d v q(1-4)] by simp
  with q(5,6) have "subtree r q = subtree root q" by (auto simp: derived_out_def q(2))
  then show "task_at chk r t"
    using task_at_shape [OF computeOne_task [OF q(6,1-4)] derive_same_shape [OF d]]
      computeOne_Queue_pos [OF q(6)] by simp
qed

lemma Fix_cases:
  assumes v: "valid root" and F: "Fix chk sp root = Inr (bs, root')"
  obtains r ts where "derive chk sp root [] root = Inr (r, ts)" "computed r ts [0..<length ts] (bs, root')"
proof -
  from F obtain r ts where d: "derive chk sp root [] root = Inr (r, ts)" and
    f: "(if length ts > 0 then checksums ts (Encode r, r) else Inr (Encode r, r)) = Inr (bs, root')"
  proof (cases "derive chk sp root [] root")
    case (Inr rt)
    obtain r ts where "rt = (r, ts)" by (cases rt)
    with Inr F that [of r ts] show ?thesis by (simp add: Fix_def Encode_def Let_def cong: if_cong)
  qed (use F in \<open>simp add: Fix_def\<close>)
  show thesis
  proof (cases "length ts > 0")
    case True
    with f have "checksums ts (Encode r, r) = Inr (bs, root')" by simp
    with checksums_outcome [OF derive_tasks_ok [OF d v]] that [OF d] show ?thesis
      by (metis Inl_Inr_False sum.inject(2))
  next
    case False
    with f have "computed r ts [0..<length ts] (bs, root')" by (auto simp: computed_def)
    with that d show ?thesis by blast
  qed
qed

text \<open>A position that is no task's keeps what the walk left there.\<close>

lemma derive_taskE:
  assumes "derive chk sp root [] root = Inr (r, ts)" and "valid root" and "t \<in> set ts"
  obtains a m d where "off_at root (tPos t) = Some a" "subtree root (tPos t) = Some m"
    "Kind (hdr m) = KindDerived" "Derive (hdr m) = Some d" "\<not> suppresses sp (tPos t) m d"
    "computeOne chk root (tPos t) (hdr m) d = Inr (Queue t)"
proof -
  from derive_tasks [OF assms(1,3,2)] obtain q a m d where q: "off_at root q = Some a" "subtree root q = Some m"
    "Kind (hdr m) = KindDerived" "Derive (hdr m) = Some d" "\<not> suppresses sp q m d"
    "computeOne chk root q (hdr m) d = Inr (Queue t)" by auto
  from computeOne_Queue_pos [OF q(6)] q that show thesis by blast
qed

lemma untouched:
  assumes v: "valid root" and d: "derive chk sp root [] root = Inr (r, ts)"
    and c: "computed r ts [0..<length ts] (bs, root')"
    and p: "off_at root p = Some a" "subtree root p = Some m" "Kind (hdr m) = KindDerived"
    and no: "\<And>t. t \<in> set ts \<Longrightarrow> tPos t \<noteq> p"
  shows "subtree root' p = subtree r p"
proof -
  have "\<not> prefix p (tPos t) \<and> \<not> prefix (tPos t) p" if t: "t \<in> set ts" for t
  proof -
    from derive_taskE [OF d v t] obtain b k where "off_at root (tPos t) = Some b" "subtree root (tPos t) = Some k"
      "Kind (hdr k) = KindDerived" .
    from fields_disjoint [OF v p this no [OF t, symmetric]] show ?thesis by blast
  qed
  then show ?thesis using c by (simp add: computed_def)
qed

lemma computed_value:
  assumes "computed r ts [0..<length ts] (bs, root')" and "t \<in> set ts"
  shows "bs = Encode root'" "\<exists>m. subtree root' (tPos t) = Some m \<and> Val (hdr m) = checksum_of t bs"
proof -
  show "bs = Encode root'" using assms(1) by (simp add: computed_def)
  from assms(2) obtain k where "k < length ts" "t = ts ! k" by (auto simp: in_set_conv_nth)
  with assms(1) show "\<exists>m. subtree root' (tPos t) = Some m \<and> Val (hdr m) = checksum_of t bs"
    by (simp add: computed_def)
qed

lemma Fix_bytes:
  assumes "valid root" and "Fix chk sp root = Inr (bs, root')"
  shows "bs = Encode root' \<and> same_shape root' root \<and> valid root' \<and> length bs = measure_node root"
proof -
  from Fix_cases [OF assms] obtain r ts where d: "derive chk sp root [] root = Inr (r, ts)"
    and c: "computed r ts [0..<length ts] (bs, root')" .
  from c have b: "bs = Encode root'" "same_shape root' r" by (simp_all add: computed_def)
  with derive_same_shape [OF d] have "same_shape root' root" using same_shape_trans by blast
  with b assms(1) same_shapeD(1,2) [OF this] show ?thesis by (simp add: length_Encode_measure)
qed

text \<open>The bytes \<open>Fix\<close> returns are the encoding of the tree it leaves, and that
  tree differs from the given one in the values of derived nodes only.\<close>

lemma Fix_encodes:
  assumes "valid root" and "Fix chk sp root = Inr (bs, root')"
  shows "bs = Encode root' \<and> same_shape root' root \<and> valid root' \<and> length bs = measure_node root"
  by (rule Fix_bytes [OF assms])

text \<open>C1. Every derived node that is encoded ends with the value its derivation asks
  for of the returned bytes, unless it is suppressed, and then it is unchanged.\<close>

theorem Fix_values:
  assumes v: "valid root" and F: "Fix chk sp root = Inr (bs, root')"
    and p: "off_at root p = Some a" "subtree root p = Some m" "Kind (hdr m) = KindDerived"
      "Derive (hdr m) = Some d"
  shows "\<exists>m'. subtree root' p = Some m' \<and>
    (if suppresses sp p m d then m' = m
     else field_value chk root' bs p (hdr m') d = Some (Val (hdr m')))"
proof -
  from Fix_cases [OF v F] obtain r ts where w: "derive chk sp root [] root = Inr (r, ts)"
    and c: "computed r ts [0..<length ts] (bs, root')" .
  note enc = Fix_bytes [OF v F]
  have out: "derived_out chk sp root p m d (subtree r p) (set ts)"
    using derive_derived [OF w v p] by simp
  have task: "tPos t \<noteq> p" if "t \<in> set ts" and "\<nexists>t. \<not> suppresses sp p m d \<and> computeOne chk root p (hdr m) d = Inr (Queue t)" for t
    using derive_taskE [OF w v that(1)] that(2) p(2,4) by (metis option.inject)
  consider (S) "suppresses sp p m d" "subtree r p = Some m"
    | (V) x where "\<not> suppresses sp p m d" "computeOne chk root p (hdr m) d = Inr (SetVal x)"
        "subtree r p = Some (upd (\<lambda>h. h\<lparr>Val := x\<rparr>) m)"
    | (Q) t where "\<not> suppresses sp p m d" "computeOne chk root p (hdr m) d = Inr (Queue t)" "t \<in> set ts"
    using out by (auto simp: derived_out_def split: if_splits)
  then show ?thesis
  proof cases
    case S
    then have "subtree root' p = Some m"
      using untouched [OF v w c p(1-3) task] by auto
    with S show ?thesis by simp
  next
    case V
    then have "subtree root' p = Some (upd (\<lambda>h. h\<lparr>Val := x\<rparr>) m)"
      using untouched [OF v w c p(1-3) task] by auto
    moreover have "field_value chk root bs p (hdr m) d = Some x"
      using computeOne_value [OF v V(2), of bs] enc by blast
    ultimately show ?thesis
      using V(1) field_value_shape [of root' root "(hdr m)\<lparr>Val := x\<rparr>" "hdr m"] enc by simp
  next
    case Q
    have tp: "tPos t = p" using computeOne_Queue_pos [OF Q(2)] .
    from computed_value [OF c Q(3)] tp obtain m' where m': "subtree root' p = Some m'"
      "Val (hdr m') = checksum_of t bs" by auto
    have "task_at chk root t" using computeOne_task [OF Q(2) p(1-4)] .
    with task_value [of chk root t m d bs] p tp
    have val: "field_value chk root bs p (hdr m) d = Some (checksum_of t bs)" by simp
    have "erase m' = erase m" using same_shape_subtree [of root' root p] enc m'(1) p(2) by auto
    from erase_counts(4) [OF this] val m' Q(1) show ?thesis
      using field_value_shape [of root' root "hdr m'" "hdr m"] enc by simp
  qed
qed

section \<open>Errors\<close>

lemma derive_kids_error:
  "derive_kids chk sp root p h len i cs = Inl e \<Longrightarrow>
   \<exists>j < length cs. contributes h len (i + j) \<and> derive chk sp root (p @ [i + j]) (cs ! j) = Inl e"
proof (induction cs arbitrary: i)
  case (Cons c cs)
  have rest: "\<exists>j < length (c # cs). contributes h len (i + j) \<and> derive chk sp root (p @ [i + j]) ((c # cs) ! j) = Inl e"
    if "derive_kids chk sp root p h len (Suc i) cs = Inl e"
  proof -
    from Cons.IH [OF that] obtain j where "j < length cs" "contributes h len (Suc i + j)"
      "derive chk sp root (p @ [Suc i + j]) (cs ! j) = Inl e" by blast
    then show ?thesis by (intro exI [of _ "Suc j"]) simp
  qed
  show ?case
  proof (cases "contributes h len i")
    case False
    with Cons.prems rest show ?thesis by (cases "derive_kids chk sp root p h len (Suc i) cs") auto
  next
    case True
    show ?thesis
    proof (cases "derive chk sp root (p @ [i]) c")
      case (Inl e')
      with True Cons.prems show ?thesis by (intro exI [of _ 0]) simp
    next
      case (Inr x)
      with True Cons.prems rest show ?thesis
        by (cases x; cases "derive_kids chk sp root p h len (Suc i) cs") auto
    qed
  qed
qed simp

lemma derive_error:
  assumes "derive chk sp root p n = Inl e" and "valid n"
  shows "\<exists>q a m d. off_at n q = Some a \<and> subtree n q = Some m \<and> Kind (hdr m) = KindDerived \<and>
    Derive (hdr m) = Some d \<and> \<not> suppresses sp (p @ q) m d \<and> computeOne chk root (p @ q) (hdr m) d = Inl e"
  using assms
proof (induction n arbitrary: p)
  case (Node h cs)
  show ?case
  proof (cases "Kind h = KindDerived")
    case True
    from Node.prems(2) True obtain d where d: "Derive h = Some d"
      using check_node_derive [of h "length cs"] by auto
    have s: "\<not> suppresses sp p (Node h cs) d" using Node.prems(1) True d by auto
    have "computeOne chk root p h d = Inl e"
    proof (cases "computeOne chk root p h d")
      case (Inr out)
      with Node.prems(1) True d s show ?thesis by (cases out) simp_all
    qed (use Node.prems(1) True d s in simp)
    with True d s show ?thesis by (intro exI [of _ "[]"]) auto
  next
    case False
    with Node.prems(1) have "derive_kids chk sp root p h (length cs) 0 cs = Inl e"
      by (cases "derive_kids chk sp root p h (length cs) 0 cs") auto
    from derive_kids_error [OF this] obtain j where j: "j < length cs" "contributes h (length cs) j"
      "derive chk sp root (p @ [j]) (cs ! j) = Inl e" by auto
    from Node.IH [OF nth_mem [OF j(1)] j(3) valid_nth [OF Node.prems(2) j(1)]] obtain q a m d where
      "off_at (cs ! j) q = Some a" "subtree (cs ! j) q = Some m" "Kind (hdr m) = KindDerived"
      "Derive (hdr m) = Some d" "\<not> suppresses sp ((p @ [j]) @ q) m d"
      "computeOne chk root ((p @ [j]) @ q) (hdr m) d = Inl e" by blast
    with j show ?thesis by (intro exI [of _ "j # q"]) auto
  qed
qed

lemma follow_error: "follow n ss = Inl e \<Longrightarrow> e = NoSuchNode"
proof (induction n ss rule: follow.induct)
  case (2 n s ss)
  show ?case
  proof (cases "ByIndex s")
    case True
    with 2 show ?thesis
      by (cases "follow (Children n ! nat (sIndex s)) ss") (auto split: if_splits)
  next
    case False
    show ?thesis
    proof (cases "child_index_from 0 (sName s) (Children n)")
      case (Some i)
      with False 2 show ?thesis by (cases "follow (Children n ! i) ss") auto
    qed (use False 2 in simp)
  qed
qed simp

lemma Resolve_error: "Resolve r root p = Inl e \<Longrightarrow> 0 \<le> Up r \<Longrightarrow> e = NoSuchNode"
proof -
  assume r: "Resolve r root p = Inl e" and up: "0 \<le> Up r"
  have "map_sum id ((@) b) (follow n (Steps r)) = Inl e \<Longrightarrow> e = NoSuchNode" for b n
    using follow_error [of n "Steps r"] by (cases "follow n (Steps r)") auto
  with r up show ?thesis
    by (auto simp: Resolve_def Let_def split: if_splits option.splits)
qed

lemma span_error:
  assumes "span root p d = Inl e" and "0 \<le> Up (From d)" and "0 \<le> Up (To d)"
  shows "e \<in> {NoSuchNode, NotEncoded, ReversedRange}"
proof (cases "Resolve (From d) root p")
  case (Inl e')
  with assms Resolve_error [OF Inl] show ?thesis by (simp add: span_def)
next
  case (Inr q0)
  note f = Inr
  show ?thesis
  proof (cases "off_map root q0")
    case (Some start)
    show ?thesis
    proof (cases "if \<not> IsZero (To d) then Resolve (To d) root p else Inr q0")
      case (Inl e')
      then have "Resolve (To d) root p = Inl e'" by (simp split: if_splits)
      from Resolve_error [OF this assms(3)] Inl Some f assms(1) show ?thesis by (simp add: span_def)
    next
      case (Inr q)
      with Some f assms(1) show ?thesis
        by (cases "off_map root q") (auto simp: span_def split: if_splits)
    qed
  qed (use assms(1) f in \<open>simp add: span_def\<close>)
qed

definition refs_rise :: "node \<Rightarrow> bool" where
  "refs_rise root \<longleftrightarrow> list_all (\<lambda>n. case Derive (hdr n) of None \<Rightarrow> True
     | Some d \<Rightarrow> 0 \<le> Up (From d) \<and> 0 \<le> Up (To d)) (preorder root)"

definition ranges_itself :: "node \<Rightarrow> pos \<Rightarrow> bool" where
  "ranges_itself root p \<longleftrightarrow>
     (\<exists>m d a s e. subtree root p = Some m \<and> Derive (hdr m) = Some d \<and> dKind d = DeriveChecksum \<and> \<not> SelfZero d \<and>
        off_at root p = Some a \<and> span root p d = Inr (s, e) \<and> s \<le> a \<and> a + Width (hdr m) \<le> e)"

lemma computeOne_error:
  assumes e: "computeOne chk root p h d = Inl e" and up: "0 \<le> Up (From d)" "0 \<le> Up (To d)"
    and p: "subtree root p = Some m" "h = hdr m" "Derive h = Some d"
  shows "e \<in> {NoSuchNode, NotEncoded, ReversedRange, UnknownAlgo, UnknownClass} \<or>
    e = CyclicDerivation \<and> ranges_itself root p"
proof (cases "dKind d")
  case DeriveLength
  with e have "span root p d = Inl e" by (cases "span root p d") (auto simp: computeOne_def)
  from span_error [OF this up] show ?thesis by auto
next
  case DeriveCount
  show ?thesis
  proof (cases "Resolve (From d) root p")
    case (Inl e')
    with DeriveCount e Resolve_error [OF Inl up(1)] show ?thesis by (simp add: computeOne_def)
  next
    case (Inr q)
    with Resolve_subtree [OF Inr] p(1) obtain t where "subtree root q = Some t" by auto
    with Inr DeriveCount e show ?thesis by (simp add: computeOne_def Let_def)
  qed
next
  case DeriveOffset
  show ?thesis
  proof (cases "Resolve (From d) root p")
    case (Inl e')
    with DeriveOffset e Resolve_error [OF Inl up(1)] show ?thesis by (simp add: computeOne_def)
  next
    case (Inr q)
    with DeriveOffset e show ?thesis by (cases "off_map root q") (simp_all add: computeOne_def)
  qed
next
  case DeriveChecksum
  note c = e [unfolded computeOne_def DeriveChecksum derive_kind.case]
  show ?thesis
  proof (cases "chk (Algo d)")
    case (Some fn)
    show ?thesis
    proof (cases "span root p d")
      case (Inl e')
      with c Some span_error [OF Inl up] show ?thesis by auto
    next
      case (Inr se)
      obtain s t where se: "se = (s, t)" by (cases se)
      show ?thesis
      proof (cases "off_map root p")
        case None
        with c Some Inr se show ?thesis by simp
      next
        case (Some a)
        with c \<open>chk (Algo d) = Some fn\<close> Inr se
        have "s \<le> a \<and> a + Width h \<le> t \<and> \<not> SelfZero d \<and> e = CyclicDerivation"
          by (simp add: Let_def split: if_splits)
        moreover have "span root p d = Inr (s, t)" "off_at root p = Some a" using Inr se Some by (simp_all add: off_map_off_at)
        ultimately show ?thesis
          using DeriveChecksum p unfolding ranges_itself_def by blast
      qed
    qed
  qed (use c in simp)
qed (use e in \<open>simp add: computeOne_def\<close>)

lemma preorder_subtree: "subtree n p = Some m \<Longrightarrow> m \<in> set (preorder n)"
proof (induction n p rule: subtree.induct)
  case (1 n)
  then show ?case by (cases m) simp
next
  case (2 n i p)
  then show ?case by (cases n) (auto split: if_splits)
qed

lemma refs_riseD:
  "refs_rise root \<Longrightarrow> subtree root p = Some m \<Longrightarrow> Derive (hdr m) = Some d \<Longrightarrow> 0 \<le> Up (From d) \<and> 0 \<le> Up (To d)"
  by (drule preorder_subtree) (auto simp: refs_rise_def list_all_iff)

lemma Fix_error_cases:
  assumes v: "valid root" and up: "refs_rise root" and F: "Fix chk sp root = Inl e"
  shows "(\<exists>p. e \<in> {NoSuchNode, NotEncoded, ReversedRange, UnknownAlgo, UnknownClass} \<or>
            e = CyclicDerivation \<and> ranges_itself root p) \<or>
    (\<exists>r ts R. derive chk sp root [] root = Inr (r, ts) \<and> e = CyclicDerivation \<and> R \<noteq> {} \<and> R \<subseteq> {..<length ts} \<and>
      (\<forall>j \<in> R. \<exists>i \<in> R. i \<noteq> j \<and> covers (ts ! j) (ts ! i)))"
proof (cases "derive chk sp root [] root")
  case (Inl e')
  with F have "e' = e" by (simp add: Fix_def)
  with derive_error [OF Inl v] obtain q a m d where q: "off_at root q = Some a" "subtree root q = Some m"
    "Derive (hdr m) = Some d" "computeOne chk root q (hdr m) d = Inl e" by auto
  from computeOne_error [OF q(4) _ _ q(2) refl q(3)] refs_riseD [OF up q(2,3)] show ?thesis by blast
next
  case (Inr rt)
  obtain r ts where rt: "rt = (r, ts)" by (cases rt)
  with Inr F have k: "checksums ts (Encode r, r) = Inl e"
    by (simp add: Fix_def Encode_def Let_def split: if_splits)
  from derive_tasks_ok [OF Inr [unfolded rt] v] show ?thesis
  proof (cases rule: checksums_outcome)
    case (Ordered st)
    with k show ?thesis by simp
  next
    case (Cyclic R)
    with k Inr rt show ?thesis by auto
  qed
qed

text \<open>C3. On a valid tree whose references climb no negative number of levels (\<open>Validate\<close>
  does not check that), a fixup either succeeds or fails with one of the errors it documents; no
  index of the ordered pass or of a reference is out of range.\<close>

theorem Fix_no_panic:
  assumes "valid root" and "refs_rise root"
  shows "case Fix chk sp root of
      Inl e \<Rightarrow> e \<in> {NoSuchNode, NotEncoded, ReversedRange, UnknownAlgo, UnknownClass, CyclicDerivation} \<and>
        e \<noteq> GoPanic \<and> e \<noteq> MissingDerivation
    | Inr _ \<Rightarrow> True"
proof (cases "Fix chk sp root")
  case (Inl e)
  from Fix_error_cases [OF assms Inl] Inl show ?thesis by auto
qed simp

text \<open>The field at \<open>q\<close> lies in the range of the checksum at \<open>p\<close>.\<close>

definition checksum_covers :: "node \<Rightarrow> pos \<Rightarrow> pos \<Rightarrow> bool" where
  "checksum_covers root p q \<longleftrightarrow>
     (\<exists>m d s e k b. subtree root p = Some m \<and> Derive (hdr m) = Some d \<and> dKind d = DeriveChecksum \<and>
        span root p d = Inr (s, e) \<and> off_at root q = Some b \<and> subtree root q = Some k \<and>
        s \<le> b \<and> b + Width (hdr k) \<le> e)"

lemma covers_positions:
  assumes "task_at chk root t" and "task_at chk root u" and "covers t u"
  shows "checksum_covers root (tPos t) (tPos u)"
proof -
  from assms(1) obtain m d where t: "subtree root (tPos t) = Some m" "Derive (hdr m) = Some d"
    "dKind d = DeriveChecksum" "span root (tPos t) d = Inr (rangeOff t, rangeEnd t)" by (rule task_atE)
  from assms(2) obtain k where u: "off_at root (tPos u) = Some (fieldOff u)" "subtree root (tPos u) = Some k"
    "hdr k = tHdr u" "fieldEnd u = fieldOff u + Width (tHdr u)" by (rule task_atE)
  from assms(3) u(3,4) have "rangeOff t \<le> fieldOff u \<and> fieldOff u + Width (hdr k) \<le> rangeEnd t"
    by (simp add: covers_def)
  with t u(1,2) show ?thesis unfolding checksum_covers_def by blast
qed

text \<open>C2. A fixup reports a cycle only where there is one: a checksum over its own
  field that does not ask for it to be read as zero, or a set of checksums
  each of which covers the field of another.\<close>

theorem Fix_cycle:
  assumes v: "valid root" and up: "refs_rise root" and F: "Fix chk sp root = Inl CyclicDerivation"
  shows "(\<exists>p. ranges_itself root p) \<or>
    (\<exists>P. P \<noteq> {} \<and> (\<forall>p \<in> P. \<exists>q \<in> P. q \<noteq> p \<and> checksum_covers root p q))"
proof -
  have "(\<exists>p. ranges_itself root p) \<or> (\<exists>r ts R. derive chk sp root [] root = Inr (r, ts) \<and> R \<noteq> {} \<and>
      R \<subseteq> {..<length ts} \<and> (\<forall>j \<in> R. \<exists>i \<in> R. i \<noteq> j \<and> covers (ts ! j) (ts ! i)))"
    using Fix_error_cases [OF assms] by simp
  then consider p where "ranges_itself root p"
    | r ts R where "derive chk sp root [] root = Inr (r, ts)" "R \<noteq> {}" "R \<subseteq> {..<length ts}"
      "\<forall>j \<in> R. \<exists>i \<in> R. i \<noteq> j \<and> covers (ts ! j) (ts ! i)" by (elim disjE exE conjE)
  then show ?thesis
  proof cases
    case 2
    have at: "task_at chk root t" if "t \<in> set ts" for t using derive_tasks_at [OF 2(1) v that] .
    let ?P = "(\<lambda>i. tPos (ts ! i)) ` R"
    have "\<exists>q \<in> ?P. q \<noteq> tPos (ts ! j) \<and> checksum_covers root (tPos (ts ! j)) q" if j: "j \<in> R" for j
    proof -
      from 2(4) j obtain i where i: "i \<in> R" "i \<noteq> j" "covers (ts ! j) (ts ! i)" by blast
      have l: "i < length ts" "j < length ts" using 2(3) i(1) j by auto
      have "distinct (map tPos ts)" using derive_distinct [OF 2(1)] by blast
      from nth_eq_iff_index_eq [OF this, of i j] l i(2) have "tPos (ts ! i) \<noteq> tPos (ts ! j)" by simp
      moreover have "checksum_covers root (tPos (ts ! j)) (tPos (ts ! i))"
        by (rule covers_positions [OF at [OF nth_mem [OF l(2)]] at [OF nth_mem [OF l(1)]] i(3)])
      ultimately show ?thesis using i(1) by blast
    qed
    then have "\<forall>p \<in> ?P. \<exists>q \<in> ?P. q \<noteq> p \<and> checksum_covers root p q" by (intro ballI) (elim imageE, simp only:)
    moreover have "?P \<noteq> {}" using 2(2) by simp
    ultimately show ?thesis by (intro disjI2 exI [of _ ?P] conjI)
  qed (intro disjI1 exI)
qed

section \<open>A worked tree\<close>

text \<open>A record with a length of its payload and a checksum over both.\<close>

definition leaf :: "kind \<Rightarrow> nat \<Rightarrow> string \<Rightarrow> byte list \<Rightarrow> derivation option \<Rightarrow> node" where
  "leaf k w name raw d = Node \<lparr>Kind = k, Width = w, Endian = BigEndian, flags = 0, Sel = 0, Val = 0, Name = name,
     Raw = raw, MinLen = 0, MaxLen = 0, Derive = d, Target = None\<rparr> []"

definition sum_bytes :: checksum_fn where
  "sum_bytes bs = fold (\<lambda>b s. s + ucast b) bs 0"

definition ex_chk :: registry where
  "ex_chk a = (if a = ''sum8'' then Some sum_bytes else None)"

definition ex_tree :: node where
  "ex_tree = Node \<lparr>Kind = KindStruct, Width = 0, Endian = BigEndian, flags = 0, Sel = 0, Val = 0, Name = ''rec'',
     Raw = [], MinLen = 0, MaxLen = 0, Derive = None, Target = None\<rparr>
     [leaf KindDerived 1 ''len'' [] (Some \<lparr>dKind = DeriveLength, From = Sibling ''data'', To = Parent,
        Algo = [], SelfZero = False, Addend = 0\<rparr>),
      leaf KindBytes 0 ''data'' [65, 66] None,
      leaf KindDerived 1 ''sum'' [] (Some \<lparr>dKind = DeriveChecksum, From = Parent, To = Parent,
        Algo = ''sum8'', SelfZero = True, Addend = 0\<rparr>)]"

lemma ex_valid: "valid ex_tree"
  by code_simp

lemma ex_rises: "refs_rise ex_tree"
  by code_simp

lemma ex_Fix: "Fix ex_chk SuppressNone ex_tree =
    Inr ([2, 65, 66, 133], set_val (set_val ex_tree [0] 2) [2] 133)"
  by code_simp

lemma Fix_encodes_witness:
  "[2, 65, 66, 133] = Encode (set_val (set_val ex_tree [0] 2) [2] 133)"
  using Fix_encodes [OF ex_valid ex_Fix] by blast

lemma ex_sum:
  "off_at ex_tree [2] = Some 3" "subtree ex_tree [2] = Some (Children ex_tree ! 2)"
  "Kind (hdr (Children ex_tree ! 2)) = KindDerived"
  "Derive (hdr (Children ex_tree ! 2)) = Some \<lparr>dKind = DeriveChecksum, From = Parent, To = Parent,
     Algo = ''sum8'', SelfZero = True, Addend = 0\<rparr>"
  by code_simp+

lemma ex_sum_after:
  "subtree (set_val (set_val ex_tree [0] 2) [2] 133) [2] = Some (upd (\<lambda>h. h\<lparr>Val := 133\<rparr>) (Children ex_tree ! 2))"
  by code_simp

theorem Fix_values_witness:
  "field_value ex_chk (set_val (set_val ex_tree [0] 2) [2] 133) [2, 65, 66, 133] [2]
     ((hdr (Children ex_tree ! 2))\<lparr>Val := 133\<rparr>)
     \<lparr>dKind = DeriveChecksum, From = Parent, To = Parent, Algo = ''sum8'', SelfZero = True, Addend = 0\<rparr> = Some 133"
  using Fix_values [OF ex_valid ex_Fix ex_sum]
  unfolding ex_sum_after by (simp add: suppresses_def SuppressNone_def)

text \<open>Two checksums over each other's fields.\<close>

definition ex_cyclic :: node where
  "ex_cyclic = Node (hdr ex_tree)
     [leaf KindDerived 1 ''a'' [] (Some \<lparr>dKind = DeriveChecksum, From = Sibling ''b'', To = Parent,
        Algo = ''sum8'', SelfZero = False, Addend = 0\<rparr>),
      leaf KindDerived 1 ''b'' [] (Some \<lparr>dKind = DeriveChecksum, From = Sibling ''a'', To = Parent,
        Algo = ''sum8'', SelfZero = False, Addend = 0\<rparr>)]"

lemma ex_cyclic_Fix: "valid ex_cyclic" "refs_rise ex_cyclic"
  "Fix ex_chk SuppressNone ex_cyclic = Inl CyclicDerivation"
  by code_simp+

theorem Fix_no_panic_witness:
  "Fix ex_chk SuppressNone ex_cyclic = Inl CyclicDerivation \<and>
   CyclicDerivation \<in> {NoSuchNode, NotEncoded, ReversedRange, UnknownAlgo, UnknownClass, CyclicDerivation} \<and>
   Fix ex_chk SuppressNone ex_cyclic \<noteq> Inl GoPanic"
  using Fix_no_panic [OF ex_cyclic_Fix(1,2), of ex_chk SuppressNone] ex_cyclic_Fix(3) by simp

text \<open>A reference that climbs minus one levels passes validation, and resolving it indexes past
  the ancestors.\<close>

definition ex_climb :: node where
  "ex_climb = Node (hdr ex_tree)
     [leaf KindDerived 1 ''len'' [] (Some \<lparr>dKind = DeriveLength, From = Parent\<lparr>Up := - 1\<rparr>, To = Parent,
        Algo = [], SelfZero = False, Addend = 0\<rparr>)]"

lemma negative_climb_panics: "valid ex_climb \<and> Fix ex_chk SuppressNone ex_climb = Inl GoPanic"
  by code_simp

theorem Fix_cycle_witness:
  "(\<exists>p. ranges_itself ex_cyclic p) \<or>
    (\<exists>P. P \<noteq> {} \<and> (\<forall>p \<in> P. \<exists>q \<in> P. q \<noteq> p \<and> checksum_covers ex_cyclic p q))"
  by (rule Fix_cycle [OF ex_cyclic_Fix])

text \<open>An encoded node is found in the bytes of the tree at the offset and with the size
  the layout passes compute.\<close>

lemma Encode_at_offset:
  assumes "valid root" and "off_map root p = Some a" and "subtree root p = Some m"
  shows "window a (a + length_map root p) (Encode root) = Encode m \<and> a + length_map root p \<le> length (Encode root)"
  using Encode_window [OF assms(1) _ assms(3), of a] measure_le_parent [OF assms(1) _ assms(3), of a] assms(2,3)
    length_Encode_measure [OF assms(1)]
  by (simp add: off_map_off_at length_map_def)

lemma Encode_at_offset_witness:
  "window 1 (1 + length_map ex_tree [1]) (Encode ex_tree) = Encode (Children ex_tree ! 1)"
proof -
  have "off_map ex_tree [1] = Some 1" "subtree ex_tree [1] = Some (Children ex_tree ! 1)" by code_simp+
  from Encode_at_offset [OF ex_valid this] show ?thesis by blast
qed

end
