(* ===== verification/IR_Clone.thy ===== *)
theory IR_Clone
  imports IR_Encode
begin

text \<open>
  Deep and copy-on-write copies, \<open>pkg/ir/arena.go\<close>, and the structural equality of
  \<open>pkg/ir/node.go\<close> they preserve. The slab bookkeeping of the arena is memory
  management; a copy is a tree with the same contents and the shared mark cleared.
\<close>

section \<open>Copies\<close>

definition unshare :: "hdr \<Rightarrow> hdr" where
  "unshare h = h\<lparr>flags := flags h AND NOT flagShared\<rparr>"

fun clone :: "node \<Rightarrow> node" where
  "clone (Node h cs) = Node (unshare h) (map clone cs)"

text \<open>\<open>Copy\<close> is the same copy onto the heap.\<close>

fun Copy :: "node \<Rightarrow> node" where
  "Copy (Node h cs) =
     Node \<lparr>Kind = Kind h, Width = Width h, Endian = Endian h, flags = flags h AND NOT flagShared,
           Sel = Sel h, Val = Val h, Name = Name h, Raw = Raw h, MinLen = MinLen h, MaxLen = MaxLen h,
           Derive = Derive h, Target = Target h\<rparr> (map Copy cs)"

definition Share :: "node \<Rightarrow> node" where
  "Share n = upd (\<lambda>h. h\<lparr>flags := flags h OR flagShared\<rparr>) n"

definition Mutable :: "node \<Rightarrow> node" where
  "Mutable n =
     (if \<not> Shared (hdr n) then n else Node (unshare (hdr n)) (map Share (Children n)))"

datatype arena_error = SharedParent | IndexRange | NoChild

definition MutableChild :: "node \<Rightarrow> int \<Rightarrow> arena_error + (node \<times> node)" where
  "MutableChild parent i =
     (if Shared (hdr parent) then Inl SharedParent
      else if i < 0 \<or> i \<ge> int (length (Children parent)) then Inl IndexRange
      else let c = Mutable (Children parent ! nat i)
           in Inr (c, Node (hdr parent) ((Children parent)[nat i := c])))"

text \<open>
  \<open>MutablePath\<close> copies every shared node on the way and returns the position of the
  node reached with the root that now holds it.
\<close>

definition step_index :: "node \<Rightarrow> step \<Rightarrow> arena_error + int" where
  "step_index cur s =
     (if ByIndex s then Inr (sIndex s)
      else let i = ChildIndex cur (sName s) in if i < 0 then Inl NoChild else Inr i)"

fun mutable_steps :: "node \<Rightarrow> step list \<Rightarrow> arena_error + (pos \<times> node)" where
  "mutable_steps cur [] = Inr ([], cur)"
| "mutable_steps cur (s # ss) =
     and_then (step_index cur s) (\<lambda>i.
     and_then (MutableChild cur i) (\<lambda>(next, cur).
     and_then (mutable_steps next ss) (\<lambda>(p, next).
       Inr (nat i # p, Node (hdr cur) ((Children cur)[nat i := next])))))"

definition MutablePath :: "node \<Rightarrow> step list \<Rightarrow> arena_error + (pos \<times> node)" where
  "MutablePath root ss = mutable_steps (Mutable root) ss"

lemma Copy_clone: "Copy n = clone n"
  by (induction n) (simp add: unshare_def)

section \<open>A copy has the same contents\<close>

lemma unshare_fields [simp]:
  "Kind (unshare h) = Kind h" "Width (unshare h) = Width h" "Sel (unshare h) = Sel h" "Val (unshare h) = Val h"
  "Name (unshare h) = Name h" "Raw (unshare h) = Raw h" "Endian (unshare h) = Endian h"
  "MinLen (unshare h) = MinLen h" "MaxLen (unshare h) = MaxLen h"
  "Derive (unshare h) = Derive h" "Target (unshare h) = Target h"
  by (simp_all add: unshare_def)

lemma flag_kept:
  fixes f :: byte
  assumes "flagShared AND f = 0"
  shows "(b AND NOT flagShared) AND f = b AND f" and "(b OR flagShared) AND f = b AND f"
proof -
  have no: "\<not> (bit flagShared n \<and> bit f n)" for n
    using arg_cong [OF assms, of "\<lambda>x. bit x n"] by (simp add: bit_simps)
  show "(b AND NOT flagShared) AND f = b AND f" by (rule bit_word_eqI) (use no in \<open>auto simp: bit_simps\<close>)
  show "(b OR flagShared) AND f = b AND f" by (rule bit_word_eqI) (use no in \<open>auto simp: bit_simps\<close>)
qed

lemma flags_apart: "flagShared AND flagPresent = 0" "flagShared AND flagSigned = 0" "flagShared AND flagImmutable = 0"
  by (simp_all add: flagShared_def flagPresent_def flagSigned_def flagImmutable_def)

lemmas flags_kept = flag_kept [OF flags_apart(1)] flag_kept [OF flags_apart(2)] flag_kept [OF flags_apart(3)]

lemma unshare_flags [simp]:
  "Present (unshare h) = Present h" "Signed (unshare h) = Signed h" "Immutable (unshare h) = Immutable h"
  "\<not> Shared (unshare h)"
  unfolding Present_def Signed_def Immutable_def Shared_def unshare_def
  by (simp_all add: flags_kept) (simp add: and.assoc)

lemma bytesEqual_iff: "bytesEqual a b \<longleftrightarrow> a = b"
  by (auto simp: bytesEqual_def list_all_iff intro: nth_equalityI)

lemma ref_equal_iff: "ref_equal r q \<longleftrightarrow> r = q"
  by (auto simp: ref_equal_def list_all_iff intro!: nref.equality nth_equalityI)

lemma derivation_equal_iff: "derivation_equal d e \<longleftrightarrow> d = e"
  by (auto simp: derivation_equal_def ref_equal_iff)

lemma opt_equal_eq: "(\<And>a b. eq a b \<longleftrightarrow> a = b) \<Longrightarrow> opt_equal eq x y \<longleftrightarrow> x = y"
  by (cases x; cases y) auto

text \<open>The fields \<open>Equal\<close> compares in one node.\<close>

definition same_hdr :: "hdr \<Rightarrow> hdr \<Rightarrow> bool" where
  "same_hdr a b \<longleftrightarrow> Kind a = Kind b \<and> Name a = Name b \<and> Width a = Width b \<and>
     Endian a = Endian b \<and> Sel a = Sel b \<and> Val a = Val b \<and>
     MinLen a = MinLen b \<and> MaxLen a = MaxLen b \<and>
     Present a = Present b \<and> Signed a = Signed b \<and> Immutable a = Immutable b \<and>
     Raw a = Raw b \<and> Derive a = Derive b \<and> Target a = Target b"

lemma Equal_Node: "Equal (Node a as) (Node b bs) \<longleftrightarrow> same_hdr a b \<and> list_all2 Equal as bs"
  unfolding Equal.simps same_hdr_def bytesEqual_iff
    opt_equal_eq [where eq = ref_equal, OF ref_equal_iff]
    opt_equal_eq [where eq = derivation_equal, OF derivation_equal_iff]
  by (auto dest: list_all2_lengthD)

declare Equal.simps [simp del]

lemma list_all2_kids: "list_all2 P as bs \<longleftrightarrow> length as = length bs \<and> (\<forall>i < length as. P (as ! i) (bs ! i))"
  by (rule list_all2_conv_all_nth)

text \<open>\<open>Equal\<close> is an equivalence.\<close>

lemma Equal_refl: "Equal n n"
  by (induction n) (simp add: Equal_Node same_hdr_def list.rel_refl_strong)

lemma Equal_sym: "Equal a b \<Longrightarrow> Equal b a"
proof (induction a arbitrary: b)
  case (Node h cs)
  then show ?case by (cases b) (auto simp: Equal_Node same_hdr_def list_all2_kids)
qed

lemma Equal_trans: "Equal a b \<Longrightarrow> Equal b c \<Longrightarrow> Equal a c"
proof (induction a arbitrary: b c)
  case (Node h cs)
  obtain hb bs hc ds where bc: "b = Node hb bs" "c = Node hc ds" by (cases b; cases c) auto
  with Node.prems have "same_hdr h hc" by (auto simp: Equal_Node same_hdr_def)
  moreover have "list_all2 Equal cs ds"
    unfolding list_all2_kids
  proof (intro conjI allI impI)
    show "length cs = length ds" using Node.prems bc by (auto simp: Equal_Node list_all2_kids)
    fix i assume i: "i < length cs"
    with Node.prems bc have "Equal (cs ! i) (bs ! i)" "Equal (bs ! i) (ds ! i)"
      by (auto simp: Equal_Node list_all2_kids)
    then show "Equal (cs ! i) (ds ! i)" using Node.IH [OF nth_mem [OF i]] by blast
  qed
  ultimately show ?case using bc by (simp add: Equal_Node)
qed

lemma same_hdr_selected: "same_hdr a b \<Longrightarrow> selected_index a len = selected_index b len"
  by (simp add: same_hdr_def selected_index_def)

lemma same_hdr_check:
  assumes "same_hdr a b"
  shows "check_node a len = check_node b len"
proof -
  from assms have f: "Kind a = Kind b" "Width a = Width b" "Sel a = Sel b" "MinLen a = MinLen b"
    "MaxLen a = MaxLen b" "Raw a = Raw b" "Derive a = Derive b" "Target a = Target b"
    by (simp_all add: same_hdr_def)
  have "check_kind a = check_kind b" "check_by_kind a len = check_by_kind b len" "check_bounds a len = check_bounds b len"
    by (simp_all only: check_kind_def check_by_kind_def check_bounds_def FitsLen_def f)
  then show ?thesis by (simp only: check_node_def)
qed

text \<open>Equal trees are interchangeable on the wire and to the validator.\<close>

lemma Equal_Encode:
  "Equal a b \<Longrightarrow> Encode a = Encode b \<and> valid a = valid b"
proof (induction a arbitrary: b)
  case (Node h cs)
  obtain hb bs where b: "b = Node hb bs" by (cases b)
  with Node.prems have h: "same_hdr h hb" and l: "length cs = length bs"
    and kid: "\<And>i. i < length cs \<Longrightarrow> Equal (cs ! i) (bs ! i)"
    by (auto simp: Equal_Node list_all2_kids)
  have e: "Encode (cs ! i) = Encode (bs ! i) \<and> valid (cs ! i) = valid (bs ! i)" if "i < length cs" for i
    using Node.IH [OF nth_mem [OF that] kid [OF that]] .
  from h have f: "Kind h = Kind hb" "Width h = Width hb" "Raw h = Raw hb" "Val h = Val hb"
    "Endian h = Endian hb" "Present h = Present hb" by (simp_all add: same_hdr_def)
  have "map Encode cs = map Encode bs" using e l by (intro nth_equalityI) auto
  moreover have "selected_index h (length cs) = selected_index hb (length bs)"
    using same_hdr_selected [OF h] l by simp
  moreover have "list_all valid cs = list_all valid bs" using e l by (auto simp: list_all_length)
  ultimately show ?case
    unfolding b Encode_Node f valid.simps same_hdr_check [OF h] l
    using e l by (auto split: option.splits dest: selected_index_less)
qed

text \<open>Copies are equal to their original, and share nothing.\<close>

fun unshared :: "node \<Rightarrow> bool" where
  "unshared (Node h cs) \<longleftrightarrow> \<not> Shared h \<and> list_all unshared cs"

lemma clone_Equal: "Equal (clone n) n"
  by (induction n) (simp add: Equal_Node same_hdr_def list_all2_kids)

text \<open>A copy, into the arena or onto the heap, is structurally equal to its original,
  holds no node that is marked shared, and encodes to the same bytes.\<close>

lemma clone_independent: 
  "Equal (clone n) n \<and> unshared (clone n) \<and> Copy n = clone n \<and> Encode (Copy n) = Encode n"
proof -
  have "unshared (clone n)" by (induction n) (simp add: list_all_iff)
  moreover have "Encode (clone n) = Encode n" using Equal_Encode [OF clone_Equal] by blast
  ultimately show ?thesis by (simp add: clone_Equal Copy_clone)
qed

lemma clone_hdr [simp]: "hdr (clone n) = unshare (hdr n)" "length (Children (clone n)) = length (Children n)"
  by (cases n, simp)+

lemma valid_clone [simp]: "valid (clone n) = valid n"
  using Equal_Encode [OF clone_Equal] by blast

lemma Encode_clone [simp]: "Encode (clone n) = Encode n"
  using Equal_Encode [OF clone_Equal] by blast

section \<open>Copying a path\<close>

lemma Share_fields [simp]:
  "Kind (hdr (Share n)) = Kind (hdr n)" "Name (hdr (Share n)) = Name (hdr n)"
  "Children (Share n) = Children n"
  by (simp_all add: Share_def)

lemma Share_Equal: "Equal (Share n) n"
proof (cases n)
  case (Node h cs)
  have "same_hdr (h\<lparr>flags := flags h OR flagShared\<rparr>) h"
    by (simp add: same_hdr_def Present_def Signed_def Immutable_def flags_kept)
  then show ?thesis by (simp add: Node Share_def upd_def Equal_Node list.rel_refl_strong Equal_refl)
qed

lemma Mutable_Equal: "Equal (Mutable n) n"
proof (cases n)
  case (Node h cs)
  have "list_all2 Equal (map Share cs) cs" by (simp add: list_all2_kids Share_Equal)
  then show ?thesis
    by (simp add: Node Mutable_def Equal_refl) (simp add: Equal_Node same_hdr_def)
qed

lemma Mutable_unshared [simp]: "\<not> Shared (hdr (Mutable n))"
  by (simp add: Mutable_def)

text \<open>Structurally equal trees have the same encoding and the same validity, whatever
  their shared marks.\<close>

lemma Equal_interchangeable:
  assumes "Equal a b"
  shows "Encode a = Encode b \<and> valid a = valid b \<and> EncodedLen a = EncodedLen b"
  using Equal_Encode [OF assms] length_Encode [of a] length_Encode [of b] by simp

definition ex_leaf :: "byte \<Rightarrow> node" where
  "ex_leaf fl = Node \<lparr>Kind = KindBytes, Width = 0, Endian = BigEndian, flags = fl, Sel = 0, Val = 0, Name = ''p'',
     Raw = [1, 2, 3], MinLen = 1, MaxLen = 8, Derive = None, Target = None\<rparr> []"

lemma Equal_interchangeable_witness: "Encode (ex_leaf 0) = Encode (ex_leaf 1)"
proof -
  have "Equal (ex_leaf 0) (ex_leaf 1)" by code_simp
  from Equal_interchangeable [OF this] show ?thesis by blast
qed

text \<open>Copying a path, level by level.\<close>

lemma Equal_update_kid:
  assumes "i < length cs" and "Equal c (cs ! i)"
  shows "Equal (Node h (cs[i := c])) (Node h cs)"
  using assms by (auto simp: Equal_Node same_hdr_def list_all2_kids nth_list_update Equal_refl)

lemma mutable_steps_spec:
  "mutable_steps cur ss = Inr (p, cur') \<Longrightarrow> \<not> Shared (hdr cur) \<Longrightarrow>
   Equal cur' cur \<and> \<not> Shared (hdr cur') \<and> (\<exists>m. subtree cur' p = Some m \<and> \<not> Shared (hdr m))"
proof (induction ss arbitrary: cur p cur')
  case Nil
  then show ?case by (auto simp: Equal_refl)
next
  case (Cons s ss)
  obtain h cs where cur: "cur = Node h cs" by (cases cur)
  from Cons.prems(1) obtain i nc where i: "step_index cur s = Inr i" "MutableChild cur i = Inr nc"
    by (auto simp: and_then_Inr)
  obtain nx cur1 where nc: "nc = (nx, cur1)" by (cases nc)
  from i(2) Cons.prems(2) nc cur have b: "0 \<le> i" "nat i < length cs" "nx = Mutable (cs ! nat i)"
    "cur1 = Node h (cs[nat i := nx])"
    by (auto simp: MutableChild_def Let_def split: if_splits)
  from Cons.prems(1) i nc obtain q next' where q: "mutable_steps nx ss = Inr (q, next')"
    "p = nat i # q" "cur' = Node h (cs[nat i := next'])"
    using b(4) by (auto simp: and_then_Inr)
  from Cons.IH [OF q(1)] b(3) have IH: "Equal next' nx" "\<exists>m. subtree next' q = Some m \<and> \<not> Shared (hdr m)" by auto
  have "Equal next' (cs ! nat i)" using Equal_trans [OF IH(1)] Mutable_Equal b(3) by blast
  from Equal_update_kid [OF b(2) this] IH(2) Cons.prems(2) show ?case
    using q(2,3) b(2) cur by simp
qed

text \<open>Copying a path for writing leaves a tree structurally equal to the given one
  in which the node reached, and the root, may be modified in place.\<close>

lemma MutablePath_writable:
  assumes "MutablePath root ss = Inr (p, root')"
  shows "Equal root' root \<and> \<not> Shared (hdr root') \<and>
    (\<exists>m. subtree root' p = Some m \<and> \<not> Shared (hdr m))"
proof -
  have "\<not> Shared (hdr (Mutable root))" by simp
  from mutable_steps_spec [OF assms [unfolded MutablePath_def] this] show ?thesis
    using Equal_trans [OF _ Mutable_Equal] by blast
qed

definition ex_shared :: node where
  "ex_shared = Share (Node (hdr (ex_leaf 0)\<lparr>Kind := KindStruct, Raw := [], MinLen := 0, MaxLen := 0\<rparr>) [ex_leaf 1])"

lemma MutablePath_writable_witness:
  "\<exists>root'. MutablePath ex_shared [\<lparr>sName = ''p'', sIndex = 0, ByIndex = False\<rparr>] = Inr ([0], root') \<and> Equal root' ex_shared"
proof -
  have m: "MutablePath ex_shared [\<lparr>sName = ''p'', sIndex = 0, ByIndex = False\<rparr>] =
      Inr ([0], Node (unshare (hdr ex_shared)) [clone (ex_leaf 1)])" by code_simp
  from MutablePath_writable [OF m] m show ?thesis by blast
qed

end
