(* ===== verification/Mutate_Base.thy ===== *)
theory Mutate_Base
  imports Rng IR_Encode
begin

text \<open>
  The context of the mutation operators and what every operator shares:
  \<open>pkg/mutate/mutate.go\<close>, the dictionary of \<open>dict.go\<close> as data, and the slice
  helpers of \<open>bytes.go\<close>. An operator returns whether it reports a change, the
  node it leaves in place of the given one, and the parameter stream; an index
  out of range or a draw from an empty range is the panic \<open>None\<close>.
\<close>

section \<open>The context\<close>

record dictionary =
  tokens :: "byte list list"
  names :: "string list"
  levels :: "int list"

text \<open>
  The streams are threaded explicitly, the arena is memory management, and the
  root is where positions start; what remains is read-only.
\<close>

record ctx =
  Dict :: "dictionary option"
  Donor :: "node option"
  MaxBytes :: int
  MaxChildren :: int

type_synonym outcome = "(bool \<times> node \<times> rand) option"

datatype mkind = KindByte | KindStructural | KindSplice | KindDictionary | KindUnknown nat

definition mkind_String :: "mkind \<Rightarrow> string" where
  "mkind_String k =
     (case k of KindByte \<Rightarrow> ''byte'' | KindStructural \<Rightarrow> ''structural'' | KindSplice \<Rightarrow> ''splice''
      | KindDictionary \<Rightarrow> ''dictionary'' | KindUnknown _ \<Rightarrow> ''unknown'')"

record streams =
  Rand :: rand
  Select :: rand
  Nodes :: rand

definition NewCtx :: "u64 \<Rightarrow> u32 \<Rightarrow> streams" where
  "NewCtx campaignSeed workerID =
     \<lparr>Rand = Rng.Derive campaignSeed workerID StreamMutatorParam,
      Select = Rng.Derive campaignSeed workerID StreamMutatorSelect,
      Nodes = Rng.Derive campaignSeed workerID StreamStructure\<rparr>"

definition maxGrowth :: int where "maxGrowth = 4096"

definition budget :: "ctx \<Rightarrow> int \<Rightarrow> int" where
  "budget c cur =
     (if MaxBytes c \<le> 0 then maxGrowth
      else let room = MaxBytes c - cur in if room < maxGrowth then room else maxGrowth)"

definition isWritable :: "node \<Rightarrow> bool" where
  "isWritable n \<longleftrightarrow> \<not> Immutable (hdr n) \<and> (Kind (hdr n) = KindBytes \<or> Kind (hdr n) = KindStr)"

definition isPayload :: "node \<Rightarrow> bool" where
  "isPayload n \<longleftrightarrow> isWritable n \<and> length (Raw (hdr n)) > 0"

definition IsPayload :: "node \<Rightarrow> bool" where
  "IsPayload n = isPayload n"

definition canGrow :: "ctx \<Rightarrow> node \<Rightarrow> int" where
  "canGrow c n =
     (let room = budget c (int (length (Raw (hdr n))))
      in if MaxLen (hdr n) > 0
         then let declared = MaxLen (hdr n) - int (length (Raw (hdr n)))
              in if declared < room then declared else room
         else room)"

definition canShrink :: "node \<Rightarrow> int" where
  "canShrink n = int (length (Raw (hdr n))) - MinLen (hdr n)"

section \<open>Slices\<close>

text \<open>\<open>insertRun\<close> grows the slice, shifts its tail and fills the gap.\<close>

definition insertRun :: "byte list \<Rightarrow> int \<Rightarrow> int \<Rightarrow> byte \<Rightarrow> byte list option" where
  "insertRun b start cnt fill =
     (if cnt < 0 then None
      else do {
        let grown = b @ replicate (nat cnt) 0;
        tail \<leftarrow> slice_of b start (int (length b));
        grown \<leftarrow> copy_at grown (start + cnt) tail;
        for_upto (nat cnt) (\<lambda>i g. set_at g (start + int i) fill) grown
      })"

definition writeInt :: "byte list \<Rightarrow> u64 \<Rightarrow> nat \<Rightarrow> endian \<Rightarrow> byte list option" where
  "writeInt dst v width e =
     (if e = LittleEndian
      then for_upto width (\<lambda>i d. set_at d (int i) (ucast (drop_bit (8 * i) v))) dst
      else for_upto width (\<lambda>i d. set_at d (int i) (ucast (drop_bit (8 * (width - 1 - i)) v))) dst)"

text \<open>Writing elements one after the other, up to a point.\<close>

lemma ok_fill:
  assumes "0 \<le> start" and "start + int k \<le> int (length xs)"
    and "Q (overwrite (nat start) (map f [0..<k]) xs)"
  shows "ok (for_upto k (\<lambda>i g. set_at g (start + int i) (f i)) xs) Q"
proof (rule ok_for_upto [where I = "\<lambda>i g. g = overwrite (nat start) (map f [0..<i]) xs"])
  show "xs = overwrite (nat start) (map f [0..<0]) xs" by (simp add: overwrite_def)
next
  fix j g assume j: "j < k" "g = overwrite (nat start) (map f [0..<j]) xs"
  have start: "nat start + j < length xs" "nat (start + int j) = nat start + j" using assms(1,2) j(1) by linarith+
  have "(overwrite (nat start) (map f [0..<j]) xs)[nat start + j := f j] = overwrite (nat start) (map f [0..<Suc j]) xs"
    using start(1) by (intro nth_equalityI) (auto simp: nth_overwrite nth_list_update nth_append less_Suc_eq)
  then show "ok (set_at g (start + int j) (f j)) (\<lambda>g. g = overwrite (nat start) (map f [0..<Suc j]) xs)"
    using start assms(1) j by (intro wp) auto
next
  fix g assume "g = overwrite (nat start) (map f [0..<k]) xs"
  with assms(3) show "Q g" by simp
qed

lemma insertRun_spec:
  assumes "0 \<le> start" and "start \<le> int (length b)" and "0 \<le> cnt"
  shows "insertRun b start cnt fill = Some (insert_at (nat start) (replicate (nat cnt) fill) b)"
proof -
  obtain a k where a: "start = int a" "a \<le> length b" and k: "cnt = int k"
    using assms by (metis nat_eq_iff2 of_nat_le_iff nonneg_int_cases)
  let ?g = "overwrite (a + k) (take (length b - a) (window a (length b) b)) (b @ replicate k 0)"
  have g: "?g = take (a + k) (b @ replicate k 0) @ drop a b"
    using a(2) by (simp add: overwrite_def window_def)
  then have len: "length ?g = length b + k" using a(2) by simp
  have fill: "map (\<lambda>i. fill) [0..<k] = replicate k fill" by (simp add: map_replicate_const)
  have "overwrite a (replicate k fill) ?g = insert_at a (replicate k fill) b"
    unfolding g using a(2) by (simp add: overwrite_def insert_at_def)
  then have "ok (insertRun b start cnt fill) (\<lambda>g. g = insert_at a (replicate k fill) b)"
    unfolding insertRun_def a(1) k Let_def using a(2) len
    by (intro wp ok_fill) (auto simp: fill add.commute nat_add_distrib)
  then show ?thesis by (auto simp: a(1) k elim: okE)
qed

lemma writeInt_putInt: "w \<le> length dst \<Longrightarrow> writeInt dst v w e = putInt dst v w e"
proof -
  assume w: "w \<le> length dst"
  have "ok (for_upto w (\<lambda>i d. set_at d (0 + int i) (f i)) dst) (\<lambda>d. d = map f [0..<w] @ drop w dst)"
    for f :: "nat \<Rightarrow> byte"
    using w by (intro ok_fill) (auto simp: overwrite_def)
  then have "for_upto w (\<lambda>i d. set_at d (int i) (f i)) dst = Some (map f [0..<w] @ drop w dst)"
    for f :: "nat \<Rightarrow> byte" by (auto elim: okE)
  with w show ?thesis by (simp add: writeInt_def putInt_def)
qed

lemma ok_writeInt [wp]:
  "w \<le> length dst \<Longrightarrow> Q (int_bytes v w e @ drop w dst) \<Longrightarrow> ok (writeInt dst v w e) Q"
  by (simp add: writeInt_putInt putInt_bytes)

lemma ok_insertRun [wp]:
  "0 \<le> start \<Longrightarrow> start \<le> int (length b) \<Longrightarrow> 0 \<le> cnt \<Longrightarrow>
   Q (insert_at (nat start) (replicate (nat cnt) fill) b) \<Longrightarrow> ok (insertRun b start cnt fill) Q"
  by (simp add: insertRun_spec)

end
