(* ===== verification/Mutate_Bytes.thy ===== *)
theory Mutate_Bytes
  imports Mutate_Base
begin

text \<open>
  The byte-level operators, \<open>pkg/mutate/bytes.go\<close>: each with the guard
  \<open>CanApply\<close> and the transformation \<open>Mutate\<close>. Assigning \<open>n.Raw\<close> is \<open>set_raw\<close>.
\<close>

definition set_raw :: "byte list \<Rightarrow> node \<Rightarrow> node" where
  "set_raw raw n = upd (\<lambda>h. h\<lparr>Raw := raw\<rparr>) n"

lemma set_raw_simps [simp]:
  "hdr (set_raw raw n) = (hdr n)\<lparr>Raw := raw\<rparr>" "Children (set_raw raw n) = Children n"
  by (simp_all add: set_raw_def)

section \<open>Boundary values\<close>

definition interesting8 :: "int list" where
  "interesting8 = [-128, -1, 0, 1, 16, 32, 64, 100, 127]"

definition interesting16 :: "int list" where
  "interesting16 = [-32768, -129, 128, 255, 256, 512, 1000, 1024, 4096, 32767]"

definition interesting32 :: "int list" where
  "interesting32 = [-2147483648, -100663046, -32769, 32768, 65535, 65536, 100663045, 2147483647]"

definition interesting64 :: "int list" where
  "interesting64 = [-9223372036854775808, -2147483649, 2147483648, 4294967295, 4294967296, 9223372036854775807]"

definition arithMax :: int where "arithMax = 35"

section \<open>Operators that keep the length\<close>

text \<open>\<open>1 << c.Rand.Intn(3)\<close>: a width of 1, 2 or 4.\<close>

definition pick_width :: "rand \<Rightarrow> (int \<times> rand) option" where
  "pick_width r = do { (k, r) \<leftarrow> Intn 3 r; Some (2 ^ nat k, r) }"

lemma ok_pick_width [wp]:
  assumes "\<And>w r'. w \<in> {1, 2, 4} \<Longrightarrow> 1 \<le> w \<Longrightarrow> w \<le> 4 \<Longrightarrow> Q (w, r')"
  shows "ok (pick_width r) Q"
proof -
  have "Q (2 ^ nat k, r')" if k: "0 \<le> k" "k < 3" for k :: int and r'
  proof -
    consider "k = 0" | "k = 1" | "k = 2" using k by linarith
    then show ?thesis by cases (simp_all add: assms)
  qed
  then show ?thesis unfolding pick_width_def by (intro wp) auto
qed

definition BitFlip_CanApply :: "ctx \<Rightarrow> node \<Rightarrow> bool" where
  "BitFlip_CanApply c n = isPayload n"

definition BitFlip_Mutate :: "ctx \<Rightarrow> node \<Rightarrow> rand \<Rightarrow> outcome" where
  "BitFlip_Mutate c n r = do {
     (bits, r) \<leftarrow> pick_width r;
     let tot = int (length (Raw (hdr n))) * 8;
     if tot < bits then Some (False, n, r)
     else do {
       (start, r) \<leftarrow> Intn (tot - bits + 1) r;
       raw \<leftarrow> for_upto (nat bits) (\<lambda>i raw. do {
           let p = start + int i;
           b \<leftarrow> get_at raw (p div 8);
           set_at raw (p div 8) (b XOR push_bit (nat (p mod 8)) 1)
         }) (Raw (hdr n));
       Some (True, set_raw raw n, r)
     }
   }"

definition ByteFlip_CanApply :: "ctx \<Rightarrow> node \<Rightarrow> bool" where
  "ByteFlip_CanApply c n = isPayload n"

definition ByteFlip_Mutate :: "ctx \<Rightarrow> node \<Rightarrow> rand \<Rightarrow> outcome" where
  "ByteFlip_Mutate c n r = do {
     (width, r) \<leftarrow> pick_width r;
     if int (length (Raw (hdr n))) < width then Some (False, n, r)
     else do {
       (start, r) \<leftarrow> Intn (int (length (Raw (hdr n))) - width + 1) r;
       raw \<leftarrow> for_upto (nat width) (\<lambda>i raw. do {
           b \<leftarrow> get_at raw (start + int i);
           set_at raw (start + int i) (b XOR 0xff)
         }) (Raw (hdr n));
       Some (True, set_raw raw n, r)
     }
   }"

text \<open>A write into the window \<open>n.Raw[start:start+width]\<close> is a write into \<open>n.Raw\<close>.\<close>

definition write_window :: "byte list \<Rightarrow> int \<Rightarrow> int \<Rightarrow> u64 \<Rightarrow> endian \<Rightarrow> byte list option" where
  "write_window raw start width v e = do {
     win \<leftarrow> slice_of raw start (start + width);
     win \<leftarrow> writeInt win v (nat width) e;
     copy_at raw start win
   }"

definition pick_endian :: "rand \<Rightarrow> endian \<times> rand" where
  "pick_endian r = (let (b, r) = Bool r in (if b then LittleEndian else BigEndian, r))"

definition pick_delta :: "rand \<Rightarrow> (int \<times> rand) option" where
  "pick_delta r = do {
     (delta, r) \<leftarrow> IntRange 1 arithMax r;
     let (b, r) = Bool r;
     Some (if b then - delta else delta, r)
   }"

lemma ok_pick_endian [wp]: "(\<And>e r'. ok (f e r') Q) \<Longrightarrow> ok (case pick_endian r of (e, r) \<Rightarrow> f e r) Q"
  by (rule ok_prod) blast

lemma ok_pick_delta [wp]:
  assumes "\<And>d r'. d \<noteq> 0 \<Longrightarrow> - 35 \<le> d \<Longrightarrow> d \<le> 35 \<Longrightarrow> Q (d, r')"
  shows "ok (pick_delta r) Q"
  unfolding pick_delta_def arithMax_def Let_def by (intro wp) (auto intro: assms)

definition Arith_CanApply :: "ctx \<Rightarrow> node \<Rightarrow> bool" where
  "Arith_CanApply c n = isPayload n"

definition Arith_Mutate :: "ctx \<Rightarrow> node \<Rightarrow> rand \<Rightarrow> outcome" where
  "Arith_Mutate c n r = do {
     (width, r) \<leftarrow> pick_width r;
     if int (length (Raw (hdr n))) < width then Some (False, n, r)
     else do {
       (start, r) \<leftarrow> Intn (int (length (Raw (hdr n))) - width + 1) r;
       (delta, r) \<leftarrow> pick_delta r;
       let (e, r) = pick_endian r;
       win \<leftarrow> slice_of (Raw (hdr n)) start (start + width);
       v \<leftarrow> ReadInt win (nat width) e False;
       raw \<leftarrow> write_window (Raw (hdr n)) start width (v + word_of_int delta) e;
       Some (True, set_raw raw n, r)
     }
   }"

definition Interesting_CanApply :: "ctx \<Rightarrow> node \<Rightarrow> bool" where
  "Interesting_CanApply c n = isPayload n"

definition Interesting_Mutate :: "ctx \<Rightarrow> node \<Rightarrow> rand \<Rightarrow> outcome" where
  "Interesting_Mutate c n r = do {
     (width, r) \<leftarrow> pick_width r;
     if int (length (Raw (hdr n))) < width then Some (False, n, r)
     else do {
       (start, r) \<leftarrow> Intn (int (length (Raw (hdr n))) - width + 1) r;
       let pool = (if width = 1 then interesting8 else if width = 2 then interesting16 else interesting32);
       (i, r) \<leftarrow> Intn (int (length pool)) r;
       v \<leftarrow> get_at pool i;
       let (e, r) = pick_endian r;
       raw \<leftarrow> write_window (Raw (hdr n)) start width (word_of_int v) e;
       Some (True, set_raw raw n, r)
     }
   }"

definition RandomByte_CanApply :: "ctx \<Rightarrow> node \<Rightarrow> bool" where
  "RandomByte_CanApply c n = isPayload n"

definition RandomByte_Mutate :: "ctx \<Rightarrow> node \<Rightarrow> rand \<Rightarrow> outcome" where
  "RandomByte_Mutate c n r = do {
     (start, r) \<leftarrow> Intn (int (length (Raw (hdr n)))) r;
     (x, r) \<leftarrow> IntRange 1 255 r;
     b \<leftarrow> get_at (Raw (hdr n)) start;
     raw \<leftarrow> set_at (Raw (hdr n)) start (b XOR word_of_int x);
     Some (True, set_raw raw n, r)
   }"

definition SetBlock_CanApply :: "ctx \<Rightarrow> node \<Rightarrow> bool" where
  "SetBlock_CanApply c n = isPayload n"

definition SetBlock_Mutate :: "ctx \<Rightarrow> node \<Rightarrow> rand \<Rightarrow> outcome" where
  "SetBlock_Mutate c n r = do {
     let raw = Raw (hdr n);
     (start, r) \<leftarrow> Intn (int (length raw)) r;
     (len, r) \<leftarrow> IntRange 1 (min (int (length raw) - start) 64) r;
     let (b, r) = Bool r;
     (v, r) \<leftarrow> (if b then do { (i, r) \<leftarrow> Intn (int (length raw)) r; x \<leftarrow> get_at raw i; Some (x, r) }
                else Some (Byte r));
     raw \<leftarrow> for_upto (nat len) (\<lambda>i raw. set_at raw (start + int i) v) raw;
     Some (True, set_raw raw n, r)
   }"

section \<open>Operators that change the length\<close>

definition InsertBytes_CanApply :: "ctx \<Rightarrow> node \<Rightarrow> bool" where
  "InsertBytes_CanApply c n \<longleftrightarrow> isWritable n \<and> canGrow c n > 0"

definition InsertBytes_Mutate :: "ctx \<Rightarrow> node \<Rightarrow> rand \<Rightarrow> outcome" where
  "InsertBytes_Mutate c n r = do {
     let raw = Raw (hdr n);
     let room = canGrow c n;
     if room \<le> 0 then Some (False, n, r)
     else do {
       (cnt, r) \<leftarrow> IntRange 1 (min room 64) r;
       (start, r) \<leftarrow> Intn (int (length raw) + 1) r;
       (fill, r) \<leftarrow>
         (if length raw > 0
          then (let (b, r) = Bool r
                in if b then do { (i, r) \<leftarrow> Intn (int (length raw)) r; x \<leftarrow> get_at raw i; Some (x, r) }
                   else Some (Byte r))
          else Some (Byte r));
       raw \<leftarrow> insertRun raw start cnt fill;
       Some (True, set_raw raw n, r)
     }
   }"

definition DeleteBytes_CanApply :: "ctx \<Rightarrow> node \<Rightarrow> bool" where
  "DeleteBytes_CanApply c n \<longleftrightarrow> isPayload n \<and> length (Raw (hdr n)) > 1 \<and> canShrink n > 0"

definition DeleteBytes_Mutate :: "ctx \<Rightarrow> node \<Rightarrow> rand \<Rightarrow> outcome" where
  "DeleteBytes_Mutate c n r = do {
     let raw = Raw (hdr n);
     let room = canShrink n;
     if room \<le> 0 then Some (False, n, r)
     else do {
       (start, r) \<leftarrow> Intn (int (length raw)) r;
       (len, r) \<leftarrow> IntRange 1 (min (min (int (length raw) - start) room) 64) r;
       front \<leftarrow> slice_of raw 0 start;
       back \<leftarrow> slice_of raw (start + len) (int (length raw));
       Some (True, set_raw (front @ back) n, r)
     }
   }"

definition CopyBytes_CanApply :: "ctx \<Rightarrow> node \<Rightarrow> bool" where
  "CopyBytes_CanApply c n \<longleftrightarrow> isPayload n \<and> length (Raw (hdr n)) > 1"

definition CopyBytes_Mutate :: "ctx \<Rightarrow> node \<Rightarrow> rand \<Rightarrow> outcome" where
  "CopyBytes_Mutate c n r = do {
     let raw = Raw (hdr n);
     (src, r) \<leftarrow> Intn (int (length raw)) r;
     (len, r) \<leftarrow> IntRange 1 (min (int (length raw) - src) 64) r;
     let (b, r) = Bool r;
     if b then do {
       (dst, r) \<leftarrow> Intn (int (length raw)) r;
       let len = min len (int (length raw) - dst);
       if len = 0 then Some (False, n, r)
       else do {
         run \<leftarrow> slice_of raw src (src + len);
         raw \<leftarrow> copy_at raw dst run;
         Some (True, set_raw raw n, r)
       }
     }
     else do {
       let room = canGrow c n;
       if room \<le> 0 then Some (False, n, r)
       else do {
         let len = min len room;
         (dst, r) \<leftarrow> Intn (int (length raw) + 1) r;
         tmp \<leftarrow> slice_of raw src (src + len);
         raw \<leftarrow> insertRun raw dst len 0;
         raw \<leftarrow> copy_at raw dst tmp;
         Some (True, set_raw raw n, r)
       }
     }
   }"

section \<open>What an operator promises\<close>

text \<open>
  The sizes of a node in memory and of its 32-bit fields.
\<close>

definition fits_memory :: "node \<Rightarrow> bool" where
  "fits_memory n \<longleftrightarrow> int (length (Raw (hdr n))) < 2 ^ 47 \<and> int (length (Children n)) < 2 ^ 31 \<and>
     MinLen (hdr n) < 2 ^ 31 \<and> MaxLen (hdr n) < 2 ^ 31 \<and>
     - (2 ^ 31) \<le> Sel (hdr n) \<and> Sel (hdr n) < 2 ^ 31"

text \<open>
  A node an operator may be handed: it fits in memory and declares no negative
  minimum. \<open>Validate\<close> does not check the second, and the operators that draw
  below a number of children or bytes panic without it (\<open>negative_minimum_panics\<close>
  in Mutate_Ops).
\<close>

definition in_memory :: "node \<Rightarrow> bool" where
  "in_memory n \<longleftrightarrow> int (length (Raw (hdr n))) < 2 ^ 47 \<and> int (length (Children n)) < 2 ^ 31 \<and>
     0 \<le> MinLen (hdr n) \<and> MinLen (hdr n) < 2 ^ 31 \<and> MaxLen (hdr n) < 2 ^ 31 \<and>
     - (2 ^ 31) \<le> Sel (hdr n) \<and> Sel (hdr n) < 2 ^ 31"

lemma in_memory_split: "in_memory n \<longleftrightarrow> fits_memory n \<and> 0 \<le> MinLen (hdr n)"
  by (auto simp: in_memory_def fits_memory_def)

text \<open>
  The contract of every operator on a node it accepts: it does not panic,
  leaves the node alone when it reports no change, and keeps its kind, its
  name and its validity, declared bounds included.
\<close>

definition conforms :: "node \<Rightarrow> bool \<times> node \<times> rand \<Rightarrow> bool" where
  "conforms n out \<longleftrightarrow> (case out of (changed, n', r) \<Rightarrow>
     (\<not> changed \<longrightarrow> n' = n) \<and> Kind (hdr n') = Kind (hdr n) \<and> Name (hdr n') = Name (hdr n) \<and>
     (valid n \<longrightarrow> valid n'))"

text \<open>An operator that never reports a change it did not make.\<close>

definition truthful :: "node \<Rightarrow> bool \<times> node \<times> rand \<Rightarrow> bool" where
  "truthful n out \<longleftrightarrow> (case out of (changed, n', r) \<Rightarrow> changed \<longrightarrow> n' \<noteq> n)"

lemma conforms_same [simp]: "conforms n (False, n, r)"
  by (simp add: conforms_def)

lemma valid_set_raw:
  assumes "valid n" and "isWritable n" and "FitsLen (hdr n) (int (length raw))"
  shows "valid (set_raw raw n)"
proof -
  obtain h cs where n: "n = Node h cs" by (cases n)
  let ?h = "h\<lparr>Raw := raw\<rparr>"
  have k: "Kind h = KindBytes \<or> Kind h = KindStr" using assms(2) n by (simp add: isWritable_def)
  have chk: "check_node h (length cs) = None" using assms(1) n by simp
  have "check_kind ?h = check_kind h" "check_by_kind ?h (length cs) = check_by_kind h (length cs)"
    by (simp_all add: check_kind_def check_by_kind_def)
  moreover have "check_bounds h (length cs) = None" "check_kind h = False" "check_by_kind h (length cs) = None"
    using chk by (auto simp: check_node_def split: if_splits option.splits)
  moreover have "check_bounds ?h (length cs) = None"
    using calculation(3) k assms(3) n by (auto simp: check_bounds_def FitsLen_def split: if_splits)
  ultimately have "check_node ?h (length cs) = None" by (simp add: check_node_def)
  with assms(1) n show ?thesis by (simp add: set_raw_def upd_def)
qed

lemma valid_FitsLen: "valid n \<Longrightarrow> isWritable n \<Longrightarrow> FitsLen (hdr n) (int (length (Raw (hdr n))))"
  by (cases n) (auto simp: check_node_def check_by_kind_def check_bounds_def isWritable_def split: if_splits)

lemma conforms_set_raw:
  assumes "isWritable n"
    and "valid n \<Longrightarrow> FitsLen (hdr n) (int (length (Raw (hdr n)))) \<Longrightarrow> FitsLen (hdr n) (int (length raw))"
  shows "conforms n (True, set_raw raw n, r)"
  using valid_set_raw [of n raw] valid_FitsLen [of n] assms by (auto simp: conforms_def)

lemma conforms_same_length:
  "isWritable n \<Longrightarrow> length raw = length (Raw (hdr n)) \<Longrightarrow> conforms n (True, set_raw raw n, r)"
  by (rule conforms_set_raw) simp_all

lemma truthful_set_raw:
  assumes "raw \<noteq> Raw (hdr n)"
  shows "truthful n (True, set_raw raw n, r)"
proof -
  have "set_raw raw n \<noteq> n"
  proof
    assume "set_raw raw n = n"
    then have "Raw (hdr (set_raw raw n)) = Raw (hdr n)" by (simp only:)
    with assms show False by simp
  qed
  then show ?thesis by (simp add: truthful_def)
qed

lemma truthful_same [simp]: "truthful n (False, n', r)"
  by (simp add: truthful_def)

section \<open>The operators keep their contract\<close>

definition wire_bit :: "byte list \<Rightarrow> int \<Rightarrow> bool" where
  "wire_bit xs p = bit (xs ! nat (p div 8)) (nat (p mod 8))"

lemma wire_bit_flip:
  assumes "0 \<le> p" "p < 8 * int (length xs)" "0 \<le> q" "q < 8 * int (length xs)"
  shows "wire_bit (xs[nat (p div 8) := xs ! nat (p div 8) XOR push_bit (nat (p mod 8)) 1]) q =
    (wire_bit xs q \<noteq> (q = p))"
proof (cases "nat (q div 8) = nat (p div 8)")
  case True
  with assms have d: "q div 8 = p div 8" by simp
  have m: "nat (q mod 8) < 8" "nat (p mod 8) < 8" by simp_all
  have "(q = p) = (nat (q mod 8) = nat (p mod 8))"
    using d by (metis mult_div_mod_eq nat_eq_iff2 pos_mod_sign zero_less_numeral)
  moreover have "nat (p div 8) < length xs" using assms by simp
  ultimately show ?thesis using d m by (auto simp: wire_bit_def bit_simps)
next
  case False
  then show ?thesis by (auto simp: wire_bit_def nth_list_update)
qed

text \<open>A bit flip inverts a run of 1, 2 or 4 adjacent bits and nothing else.\<close>

definition flips_run :: "byte list \<Rightarrow> byte list \<Rightarrow> bool" where
  "flips_run xs ys \<longleftrightarrow> length ys = length xs \<and>
     (\<exists>start bits. bits \<in> {1, 2, 4} \<and> 0 \<le> start \<and> start + bits \<le> 8 * int (length xs) \<and>
        (\<forall>q. 0 \<le> q \<and> q < 8 * int (length xs) \<longrightarrow>
             wire_bit ys q = (wire_bit xs q \<noteq> (start \<le> q \<and> q < start + bits))))"

lemma flips_run_neq: "flips_run xs ys \<Longrightarrow> ys \<noteq> xs"
  unfolding flips_run_def by (metis insertE less_add_same_cancel1 less_le_trans
      order_refl singletonD zero_less_numeral zero_less_one)

lemma flip_loop:
  assumes "0 \<le> start" and "start + int k \<le> 8 * int (length xs)"
  shows "ok (for_upto k (\<lambda>i raw. do {
           let p = start + int i;
           b \<leftarrow> get_at raw (p div 8);
           set_at raw (p div 8) (b XOR push_bit (nat (p mod 8)) 1)
         }) xs)
     (\<lambda>ys. length ys = length xs \<and> (\<forall>q. 0 \<le> q \<and> q < 8 * int (length xs) \<longrightarrow>
        wire_bit ys q = (wire_bit xs q \<noteq> (start \<le> q \<and> q < start + int k))))"
proof (rule ok_for_upto [where I = "\<lambda>i ys. length ys = length xs \<and> (\<forall>q. 0 \<le> q \<and> q < 8 * int (length xs) \<longrightarrow>
    wire_bit ys q = (wire_bit xs q \<noteq> (start \<le> q \<and> q < start + int i)))"], goal_cases)
  case (2 j ys)
  then have p: "0 \<le> start + int j" "start + int j < 8 * int (length ys)" using assms by auto
  then have "(start + int j) div 8 < int (length ys)" "0 \<le> (start + int j) div 8" by auto
  then show ?case
    unfolding Let_def using 2 wire_bit_flip [OF p] by (intro wp) auto
qed auto

lemma payload_length:
  assumes "isPayload n" and "in_memory n"
  shows "1 \<le> int (length (Raw (hdr n))) \<and> int (length (Raw (hdr n))) < 2 ^ 47 \<and> isWritable n"
  using assms by (cases "Raw (hdr n)") (simp_all add: isPayload_def in_memory_def)

lemma BitFlip_ok:
  assumes "isPayload n" and "in_memory n"
  shows "ok (BitFlip_Mutate c n r) (\<lambda>(changed, n', r'). changed \<and>
     n' = set_raw (Raw (hdr n')) n \<and> flips_run (Raw (hdr n)) (Raw (hdr n')))"
proof -
  let ?raw = "Raw (hdr n)"
  have len: "1 \<le> int (length ?raw)" "int (length ?raw) < 2 ^ 47"
    using payload_length [OF assms] by auto
  have loop: "ok (for_upto (nat bits) (\<lambda>i raw. do {
           let p = start + int i;
           b \<leftarrow> get_at raw (p div 8);
           set_at raw (p div 8) (b XOR push_bit (nat (p mod 8)) 1)
         }) ?raw) (flips_run ?raw)"
    if "bits \<in> {1, 2, 4}" "0 \<le> start" "start < int (length ?raw) * 8 - bits + 1" for bits start
  proof (rule ok_mono [OF flip_loop])
    have b: "int (nat bits) = bits" using that by auto
    show "0 \<le> start" "start + int (nat bits) \<le> 8 * int (length ?raw)" using that b by linarith+
    fix ys assume ys: "length ys = length ?raw \<and> (\<forall>q. 0 \<le> q \<and> q < 8 * int (length ?raw) \<longrightarrow>
        wire_bit ys q = (wire_bit ?raw q \<noteq> (start \<le> q \<and> q < start + int (nat bits))))"
    have "start + bits \<le> 8 * int (length ?raw)" using that by linarith
    with ys that(1,2) show "flips_run ?raw ys" unfolding flips_run_def b by blast
  qed
  show ?thesis
    unfolding BitFlip_Mutate_def Let_def
  proof (intro wp, goal_cases)
    case (4 w r1 start r2)
    from loop [OF 4(1) 4(5), of] 4 show ?case
      by (auto simp: Let_def elim!: ok_mono)
  qed (use len in auto)
qed

lemma BitFlip_conforms:
  "BitFlip_CanApply c n \<Longrightarrow> in_memory n \<Longrightarrow> ok (BitFlip_Mutate c n r) (\<lambda>out. conforms n out \<and> truthful n out)"
proof -
  assume p: "BitFlip_CanApply c n" "in_memory n"
  then have w: "isWritable n" and p': "isPayload n" by (simp_all add: BitFlip_CanApply_def isPayload_def)
  show ?thesis
  proof (rule ok_mono [OF BitFlip_ok [OF p' p(2)]], clarify)
    fix b n' r' assume n': "b" "n' = set_raw (Raw (hdr n')) n" "flips_run (Raw (hdr n)) (Raw (hdr n'))"
    then have "length (Raw (hdr n')) = length (Raw (hdr n))" by (simp add: flips_run_def)
    from conforms_same_length [OF w this, of r'] truthful_set_raw [OF flips_run_neq [OF n'(3)], of r'] n'(1,2)
    show "conforms n (b, n', r') \<and> truthful n (b, n', r')" by simp
  qed
qed

lemma overwrite_neq: "k < length ys \<Longrightarrow> a + length ys \<le> length xs \<Longrightarrow> ys ! k \<noteq> xs ! (a + k) \<Longrightarrow> overwrite a ys xs \<noteq> xs"
  using nth_overwrite [of a ys xs "a + k"] by auto

lemma xor_neq: "x \<noteq> 0 \<Longrightarrow> b XOR x \<noteq> (b :: byte)"
  by (metis xor_self_eq xor.assoc xor.left_neutral)

lemma flip_bytes_loop:
  fixes xs :: "byte list"
  assumes "0 \<le> start" and "start + int k \<le> int (length xs)"
  shows "ok (for_upto k (\<lambda>i raw. do { b \<leftarrow> get_at raw (start + int i); set_at raw (start + int i) (b XOR 0xff) }) xs)
     (\<lambda>ys. ys = overwrite (nat start) (map (\<lambda>i. xs ! (nat start + i) XOR 0xff) [0..<k]) xs)"
proof (rule ok_for_upto [where I = "\<lambda>i ys. ys = overwrite (nat start) (map (\<lambda>i. xs ! (nat start + i) XOR 0xff) [0..<i]) xs"],
    goal_cases)
  case (2 j ys)
  have at: "nat (start + int j) = nat start + j" "nat start + j < length xs" using assms 2(1) by linarith+
  have len: "length ys = length xs" using 2 at by simp
  have "ys ! (nat start + j) = xs ! (nat start + j)" using 2 at by (simp add: nth_overwrite)
  moreover have "ys[nat start + j := x] = overwrite (nat start) (map f [0..<j] @ [x]) xs"
    if "ys = overwrite (nat start) (map f [0..<j]) xs" for f :: "nat \<Rightarrow> byte" and x
    using that at by (intro nth_equalityI) (auto simp: nth_overwrite nth_list_update nth_append)
  ultimately show ?case using 2 at len assms by (intro wp) auto
qed (auto simp: overwrite_def)

lemma payload_writable: "isPayload n \<Longrightarrow> isWritable n"
  by (simp add: isPayload_def)

lemma ByteFlip_conforms:
  assumes "ByteFlip_CanApply c n" and "in_memory n"
  shows "ok (ByteFlip_Mutate c n r) (\<lambda>out. conforms n out \<and> truthful n out)"
proof -
  have p: "isPayload n" using assms(1) by (simp add: ByteFlip_CanApply_def)
  note len = payload_length [OF p assms(2)]
  show ?thesis
    unfolding ByteFlip_Mutate_def Let_def
  proof (intro wp, goal_cases)
    case (4 w r1 start r2)
    have l: "0 \<le> start" "start + int (nat w) \<le> int (length (Raw (hdr n)))" using 4 by auto
    show ?case
    proof (rule ok_mono [OF flip_bytes_loop [OF l]])
      fix ys assume ys: "ys = overwrite (nat start) (map (\<lambda>i. Raw (hdr n) ! (nat start + i) XOR 0xff) [0..<nat w]) (Raw (hdr n))"
      have "ys \<noteq> Raw (hdr n)" unfolding ys
        by (rule overwrite_neq [of 0]) (use 4 l in \<open>auto simp: xor_neq\<close>)
      moreover have "nat start + nat w \<le> length (Raw (hdr n))" using l by linarith
      then have "length ys = length (Raw (hdr n))" using ys by simp
      ultimately show "ok (Some (True, set_raw ys n, r2)) (\<lambda>out. conforms n out \<and> truthful n out)"
        using conforms_same_length truthful_set_raw len by simp
    qed
  qed (use len in auto)
qed

text \<open>Writes into a window.\<close>

lemma ok_write_window [wp]:
  assumes "0 \<le> start" and "0 \<le> w" and "start + w \<le> int (length raw)"
    and "Q (overwrite (nat start) (int_bytes v (nat w) e) raw)"
  shows "ok (write_window raw start w v e) Q"
proof -
  have "length (window (nat start) (nat (start + w)) raw) = nat w" using assms(1-3) by simp
  then show ?thesis
    unfolding write_window_def using assms by (intro wp) auto
qed

lemma overwrite_window_neq:
  "ys \<noteq> window a (a + length ys) xs \<Longrightarrow> a + length ys \<le> length xs \<Longrightarrow> overwrite a ys xs \<noteq> xs"
  by (metis window_overwrite_same)

lemma small_delta:
  assumes "d \<noteq> 0" "- 35 \<le> d" "d \<le> 35" "1 \<le> w"
  shows "take_bit (8 * w) (word_of_int d :: u64) \<noteq> 0"
proof
  assume z: "take_bit (8 * w) (word_of_int d :: u64) = 0"
  have "take_bit 8 (take_bit (8 * w) (word_of_int d :: u64)) = take_bit 8 (word_of_int d)"
    using assms(4) by (simp add: min_def)
  with z have "take_bit 8 (word_of_int d :: u64) = 0" by simp
  then have "(word_of_int (take_bit 8 d) :: u64) = 0" by (simp add: take_bit_of_int)
  then have "uint (word_of_int (take_bit 8 d) :: u64) = 0" by simp
  moreover have "uint (word_of_int (take_bit 8 d) :: u64) = take_bit 8 d"
    by (rule sint_of_small_nat) (auto simp: take_bit_eq_mod intro: less_trans [OF pos_mod_bound])
  ultimately have "d mod 256 = 0" by (simp add: take_bit_eq_mod)
  with assms(1-3) show False by presburger
qed

lemma same_take_bit:
  fixes a b :: u64
  assumes "take_bit k a = take_bit k b"
  shows "take_bit k (a - b) = 0"
proof -
  have "take_bit k (uint a) = take_bit k (uint b)" using assms by (metis unsigned_take_bit_eq)
  then have "take_bit k (uint a - uint b) = 0" using take_bit_diff [of k "uint a" "uint b"] by simp
  moreover have "take_bit k (a - b) = word_of_int (take_bit k (uint a - uint b))"
    by (simp flip: take_bit_of_int)
  ultimately show ?thesis by simp
qed

lemma Arith_conforms:
  assumes "Arith_CanApply c n" and "in_memory n"
  shows "ok (Arith_Mutate c n r) (\<lambda>out. conforms n out \<and> truthful n out)"
proof -
  have p: "isPayload n" using assms(1) by (simp add: Arith_CanApply_def)
  note len = payload_length [OF p assms(2)]
  let ?raw = "Raw (hdr n)"
  show ?thesis
    unfolding Arith_Mutate_def Let_def
  proof (intro wp, goal_cases)
    case (7 w r1 start r2 d r3 e r4)
    let ?win = "window (nat start) (nat (start + w)) ?raw"
    have l: "nat start + nat w \<le> length ?raw" "nat (start + w) = nat start + nat w" using 7 by linarith+
    then have lw: "length ?win = nat w" by simp
    have w8: "nat w \<le> 8" using 7 by linarith
    from lw w8 obtain v where v: "ReadInt ?win (nat w) e False = Some v" "int_bytes v (nat w) e = ?win"
      by (rule ReadInt_onto)
    let ?ys = "int_bytes (v + word_of_int d) (nat w) e"
    have "?ys \<noteq> ?win"
    proof
      assume "?ys = ?win"
      with v(2) have "take_bit (8 * nat w) (v + word_of_int d) = take_bit (8 * nat w) v"
        using int_bytes_inject by metis
      from same_take_bit [OF this] have "take_bit (8 * nat w) (word_of_int d :: u64) = 0" by simp
      moreover have "1 \<le> nat w" using 7(2) by simp
      ultimately show False using small_delta [OF 7(7-9)] by blast
    qed
    then have neq: "overwrite (nat start) ?ys ?raw \<noteq> ?raw"
      by (intro overwrite_window_neq) (use l in simp_all)
    show ?case unfolding v(1)
    proof (intro wp)
      show "conforms n (True, set_raw (overwrite (nat start) ?ys ?raw) n, r4) \<and>
            truthful n (True, set_raw (overwrite (nat start) ?ys ?raw) n, r4)"
        using neq l len by (simp add: conforms_same_length truthful_set_raw)
    qed (use 7 in auto)
  qed (use len in auto)
qed

text \<open>
  \<open>Interesting\<close> and \<open>SetBlock\<close> report a change whenever they write, whether or not
  the bytes differ from those already there.
\<close>

lemma Interesting_conforms:
  assumes "Interesting_CanApply c n" and "in_memory n"
  shows "ok (Interesting_Mutate c n r) (conforms n)"
proof -
  have p: "isPayload n" using assms(1) by (simp add: Interesting_CanApply_def)
  note len = payload_length [OF p assms(2)]
  show ?thesis
    unfolding Interesting_Mutate_def Let_def
  proof (intro wp, goal_cases)
    case (11 w r1 start r2 i r3 e r4)
    have "nat start + nat w \<le> length (Raw (hdr n))" using 11 by linarith
    with len show ?case by (intro conforms_same_length) simp_all
  qed (use len in \<open>auto simp: interesting8_def interesting16_def interesting32_def\<close>)
qed

lemma byte_of_small: "1 \<le> x \<Longrightarrow> x \<le> 255 \<Longrightarrow> (word_of_int x :: byte) \<noteq> 0"
proof
  assume x: "1 \<le> x" "x \<le> 255" "(word_of_int x :: byte) = 0"
  from x(1,2) have "uint (word_of_int x :: byte) = x" by (simp add: uint_word_of_int)
  with x(1) show False unfolding x(3) by simp
qed

lemma RandomByte_conforms:
  assumes "RandomByte_CanApply c n" and "in_memory n"
  shows "ok (RandomByte_Mutate c n r) (\<lambda>(changed, n', r'). changed \<and>
    conforms n (changed, n', r') \<and> truthful n (changed, n', r'))"
proof -
  have p: "isPayload n" using assms(1) by (simp add: RandomByte_CanApply_def)
  note len = payload_length [OF p assms(2)]
  show ?thesis
    unfolding RandomByte_Mutate_def
  proof (intro wp, goal_cases)
    case (10 start r1 x r2)
    let ?raw = "Raw (hdr n)"
    have b: "nat start < length ?raw" using 10 by linarith
    have "?raw[nat start := ?raw ! nat start XOR word_of_int x] ! nat start \<noteq> ?raw ! nat start"
      using b 10 xor_neq [OF byte_of_small] by simp
    then have "?raw[nat start := ?raw ! nat start XOR word_of_int x] \<noteq> ?raw" by metis
    with len show ?case by (simp add: conforms_same_length truthful_set_raw)
  qed (use len in auto)
qed

lemma ok_pick_existing:
  assumes "length raw > 0" and "int (length raw) < 2 ^ 47" and "\<And>x r'. Q (x, r')"
  shows "ok (do { (i, r) \<leftarrow> Intn (int (length raw)) r; x \<leftarrow> get_at raw i; Some (x, r) }) Q"
  using assms by (intro wp) auto

lemma ok_SomeByte: "(\<And>x r'. Q (x, r')) \<Longrightarrow> ok (Some (Byte r)) Q"
  by (cases "Byte r") simp

lemma SetBlock_conforms:
  assumes "SetBlock_CanApply c n" and "in_memory n"
  shows "ok (SetBlock_Mutate c n r) (conforms n)"
proof -
  have p: "isPayload n" using assms(1) by (simp add: SetBlock_CanApply_def)
  note len = payload_length [OF p assms(2)]
  let ?raw = "Raw (hdr n)"
  have fill: "ok (for_upto (nat l) (\<lambda>i raw. set_at raw (start + int i) v) ?raw)
      (\<lambda>raw. ok (Some (True, set_raw raw n, r')) (conforms n))"
    if "0 \<le> start" "1 \<le> l" "l \<le> min (int (length ?raw) - start) 64" for start l v r'
  proof (rule ok_fill)
    have "nat start + nat l \<le> length ?raw" using that by linarith
    with len show "ok (Some (True, set_raw (overwrite (nat start) (map (\<lambda>i. v) [0..<nat l]) ?raw) n, r')) (conforms n)"
      by (simp add: conforms_same_length)
  qed (use that in auto)
  show ?thesis
    unfolding SetBlock_Mutate_def Let_def
    by (intro wp ok_pick_existing ok_SomeByte fill) (use len in auto)
qed

text \<open>Growth within \<open>canGrow\<close> keeps the declared bounds.\<close>

lemma grow_fits:
  assumes "FitsLen (hdr n) (int (length (Raw (hdr n))))" and "length (Raw (hdr n)) \<le> l"
    and "int l \<le> int (length (Raw (hdr n))) + canGrow c n"
  shows "FitsLen (hdr n) (int l)"
  using assms by (auto simp: FitsLen_def canGrow_def Let_def split: if_splits)

lemma canGrow_bound: "canGrow c n \<le> 4096"
  by (auto simp: canGrow_def budget_def maxGrowth_def Let_def)

lemma shrink_fits:
  assumes "FitsLen (hdr n) (int (length (Raw (hdr n))))" and "l \<le> length (Raw (hdr n))"
    and "int (length (Raw (hdr n))) - canShrink n \<le> int l"
  shows "FitsLen (hdr n) (int l)"
  using assms by (auto simp: FitsLen_def canShrink_def)

lemma conforms_insert:
  assumes "isWritable n" and "0 \<le> k" and "k \<le> canGrow c n" and "start \<le> length (Raw (hdr n))"
    and "length raw = length (Raw (hdr n)) + nat k"
  shows "conforms n (True, set_raw raw n, r)"
proof (rule conforms_set_raw [OF assms(1)])
  assume "FitsLen (hdr n) (int (length (Raw (hdr n))))"
  then show "FitsLen (hdr n) (int (length raw))"
    by (rule grow_fits [where c = c]) (use assms in auto)
qed

lemma in_memory_raw: "in_memory n \<Longrightarrow> int (length (Raw (hdr n))) < 2 ^ 47"
  by (simp add: in_memory_def)

lemma InsertBytes_conforms:
  assumes "InsertBytes_CanApply c n" and "in_memory n"
  shows "ok (InsertBytes_Mutate c n r) (\<lambda>out. conforms n out \<and> truthful n out)"
proof -
  have w: "isWritable n" and room: "0 < canGrow c n" "canGrow c n \<le> 4096"
    using assms(1) canGrow_bound by (auto simp: InsertBytes_CanApply_def)
  note len = in_memory_raw [OF assms(2)]
  let ?raw = "Raw (hdr n)"
  have insert: "ok (insertRun ?raw start cnt fill) (\<lambda>raw. ok (Some (True, set_raw raw n, r')) (\<lambda>out. conforms n out \<and> truthful n out))"
    if "1 \<le> cnt" "cnt \<le> min (canGrow c n) 64" "0 \<le> start" "start < int (length ?raw) + 1" for cnt start fill r'
  proof (intro ok_insertRun)
    let ?new = "insert_at (nat start) (replicate (nat cnt) fill) ?raw"
    have "length ?new = length ?raw + nat cnt" using that by simp
    moreover from this have "length ?new \<noteq> length ?raw" using that(1) by linarith
    then have "?new \<noteq> ?raw" by (intro notI) (simp only:)
    ultimately show "ok (Some (True, set_raw ?new n, r')) (\<lambda>out. conforms n out \<and> truthful n out)"
      using conforms_insert [OF w, of cnt c "nat start"] truthful_set_raw that by auto
  qed (use that in auto)
  show ?thesis
    unfolding InsertBytes_Mutate_def Let_def
    by (intro wp ok_pick_existing ok_SomeByte insert) (use len room in auto)
qed

lemma conforms_shrink:
  assumes "isWritable n" and "length raw \<le> length (Raw (hdr n))"
    and "int (length (Raw (hdr n))) - canShrink n \<le> int (length raw)"
  shows "conforms n (True, set_raw raw n, r)"
proof (rule conforms_set_raw [OF assms(1)])
  assume "FitsLen (hdr n) (int (length (Raw (hdr n))))"
  then show "FitsLen (hdr n) (int (length raw))"
    by (rule shrink_fits) (use assms in auto)
qed

lemma DeleteBytes_conforms:
  assumes "DeleteBytes_CanApply c n" and "in_memory n"
  shows "ok (DeleteBytes_Mutate c n r) (\<lambda>out. conforms n out \<and> truthful n out)"
proof -
  have p: "isPayload n" and room: "0 < canShrink n" using assms(1) by (auto simp: DeleteBytes_CanApply_def)
  note len = payload_length [OF p assms(2)]
  let ?raw = "Raw (hdr n)"
  have cut: "conforms n (True, set_raw raw n, r') \<and> truthful n (True, set_raw raw n, r')"
    if l: "0 \<le> start" "1 \<le> l" "l \<le> min (min (int (length ?raw) - start) (canShrink n)) 64"
      and raw: "raw = window 0 (nat start) ?raw @ window (nat (start + l)) (length ?raw) ?raw" for start l raw r'
  proof
    have "nat start \<le> length ?raw" "nat (start + l) \<le> length ?raw" using l by linarith+
    then have lr: "int (length raw) = int (length ?raw) - l" using l raw by simp
    then show "conforms n (True, set_raw raw n, r')"
      using len l by (intro conforms_shrink) auto
    have "raw \<noteq> ?raw" using lr l by auto
    then show "truthful n (True, set_raw raw n, r')" by (rule truthful_set_raw)
  qed
  show ?thesis
    unfolding DeleteBytes_Mutate_def Let_def
    by (intro wp cut) (use len room in auto)
qed

lemma CopyBytes_conforms:
  assumes "CopyBytes_CanApply c n" and "in_memory n"
  shows "ok (CopyBytes_Mutate c n r) (conforms n)"
proof -
  have p: "isPayload n" using assms(1) by (auto simp: CopyBytes_CanApply_def)
  note len = payload_length [OF p assms(2)]
  let ?raw = "Raw (hdr n)"
  have over: "conforms n (True, set_raw (overwrite (nat dst) (take (length ?raw - nat dst) run) ?raw) n, r')"
    if "0 \<le> dst" "dst < int (length ?raw)" for dst run r'
    using len that by (intro conforms_same_length) (simp_all add: nat_le_iff)
  have ins: "conforms n (True, set_raw (overwrite (nat dst) (take (length (insert_at (nat dst) (replicate (nat k) 0) ?raw) - nat dst)
      run) (insert_at (nat dst) (replicate (nat k) 0) ?raw)) n, r')"
    if "0 \<le> dst" "dst < int (length ?raw) + 1" "1 \<le> k" "k \<le> canGrow c n" for dst k run r'
  proof (rule conforms_insert [where c = c and k = k and start = "nat dst"])
    let ?gap = "insert_at (nat dst) (replicate (nat k) 0) ?raw"
    have "length ?gap = length ?raw + nat k" "nat dst \<le> length ?gap" using that by simp_all
    from length_copy [OF this(2), of run] this(1)
    show "length (overwrite (nat dst) (take (length ?gap - nat dst) run) ?gap) = length ?raw + nat k"
      by (simp only:)
  qed (use that len in auto)
  show ?thesis
    unfolding CopyBytes_Mutate_def Let_def
    by (intro wp over ins) (use len canGrow_bound [of c n] in auto)
qed

end
