(* ===== verification/Mutate_Dict.thy ===== *)
theory Mutate_Dict
  imports Mutate_Bytes
begin

text \<open>
  Dictionaries, \<open>pkg/mutate/dict.go\<close>: the token store, the AFL text format and the two
  operators that use tokens. Text is a list of ASCII characters; a token is
  the list of their codes.
\<close>

section \<open>The store\<close>

definition NewDictionary :: dictionary where
  "NewDictionary = \<lparr>tokens = [], names = [], levels = []\<rparr>"

definition Dict_Add :: "dictionary \<Rightarrow> string \<Rightarrow> byte list \<Rightarrow> int \<Rightarrow> dictionary" where
  "Dict_Add d name token level =
     (if length token = 0 then d
      else d\<lparr>tokens := tokens d @ [token], names := names d @ [name], levels := levels d @ [level]\<rparr>)"

definition Dict_Len :: "dictionary option \<Rightarrow> nat" where
  "Dict_Len d = (case d of None \<Rightarrow> 0 | Some d \<Rightarrow> length (tokens d))"

definition Dict_Token :: "dictionary option \<Rightarrow> rand \<Rightarrow> (byte list \<times> rand) option" where
  "Dict_Token d r =
     (if Dict_Len d = 0 then Some ([], r)
      else do {
        d \<leftarrow> d;
        (i, r) \<leftarrow> Intn (int (length (tokens d))) r;
        tok \<leftarrow> get_at (tokens d) i;
        Some (tok, r)
      })"

definition Dict_At :: "dictionary \<Rightarrow> int \<Rightarrow> (string \<times> byte list) option" where
  "Dict_At d i = do { n \<leftarrow> get_at (names d) i; t \<leftarrow> get_at (tokens d) i; Some (n, t) }"

section \<open>The text format\<close>

datatype dict_error =
    NoEquals | BadLevel | NotQuoted | TrailingBackslash | ShortHex | BadHex | UnknownEscape

definition is_space :: "char \<Rightarrow> bool" where
  "is_space c \<longleftrightarrow> c = CHR '' '' \<or> c = CHR 0x09 \<or> c = CHR 0x0A \<or> c = CHR 0x0B \<or> c = CHR 0x0C \<or> c = CHR 0x0D"

text \<open>The spaces beyond ASCII that \<open>unicode.IsSpace\<close> accepts, by their bytes in UTF-8: two of two bytes, and
  those of three.\<close>

definition space2 :: "char \<Rightarrow> char \<Rightarrow> bool" where
  "space2 c d = (if c = CHR 0xC2 then d = CHR 0x85 \<or> d = CHR 0xA0 else False)"

definition space3 :: "char \<Rightarrow> char \<Rightarrow> char \<Rightarrow> bool" where
  "space3 c d e =
     (if c = CHR 0xE1 then d = CHR 0x9A \<and> e = CHR 0x80
      else if c = CHR 0xE2 then
        (if d = CHR 0x80 then (0x80 \<le> (of_char e :: nat) \<and> (of_char e :: nat) \<le> 0x8A) \<or>
             e = CHR 0xA8 \<or> e = CHR 0xA9 \<or> e = CHR 0xAF
         else d = CHR 0x81 \<and> e = CHR 0x9F)
      else if c = CHR 0xE3 then d = CHR 0x80 \<and> e = CHR 0x80
      else False)"

text \<open>The spaces at the front of a text taken off, and with the bytes of each the other way round, those at the end.\<close>

fun trim_front :: "(char \<Rightarrow> char \<Rightarrow> bool) \<Rightarrow> (char \<Rightarrow> char \<Rightarrow> char \<Rightarrow> bool) \<Rightarrow> string \<Rightarrow> string" where
  "trim_front two three [] = []"
| "trim_front two three (c # s) =
     (if is_space c then trim_front two three s
      else (case s of
              [] \<Rightarrow> c # s
            | d # t \<Rightarrow>
                if two c d then trim_front two three t
                else (case t of
                        [] \<Rightarrow> c # s
                      | e # u \<Rightarrow> if three c d e then trim_front two three u else c # s)))"

definition TrimSpace :: "string \<Rightarrow> string" where
  "TrimSpace s = rev (trim_front (\<lambda>d c. space2 c d) (\<lambda>e d c. space3 c d e) (rev (trim_front space2 space3 s)))"

lemma trim_front_suffix: "\<exists>p. s = p @ trim_front two three s"
proof (induction two three s rule: trim_front.induct)
  case (2 two three c s)
  have step: "\<exists>p. c # s = p @ x" if "\<exists>p. s = p @ x" for x using that by (metis append_Cons)
  show ?case
  proof (cases "is_space c")
    case True
    then show ?thesis using step [OF 2(1)] by simp
  next
    case c: False
    show ?thesis
    proof (cases s)
      case d: (Cons d t)
      show ?thesis
      proof (cases "two c d")
        case True
        with 2(2) [OF c d] have "\<exists>p. s = p @ trim_front two three t" unfolding d by (metis append_Cons)
        with True c d show ?thesis using step by simp
      next
        case t: False
        show ?thesis
        proof (cases t)
          case u: (Cons e u)
          show ?thesis
          proof (cases "three c d e")
            case True
            with 2(3) [OF c d t u] have "\<exists>p. s = p @ trim_front two three u" unfolding d u by (metis append_Cons)
            with True c d t u show ?thesis using step by simp
          qed (use c d t u in simp)
        qed (use c d t in simp)
      qed
    qed (use c in simp)
  qed
qed simp

lemma TrimSpace_trims:
  "TrimSpace ([CHR 0xE2, CHR 0x80, CHR 0xA8] @ '' a b'' @ [CHR 0xC2, CHR 0xA0, CHR 0x0A]) = ''a b''"
  by code_simp

text \<open>\<open>strconv.ParseUint\<close> of one hexadecimal digit, and \<open>strconv.Atoi\<close>.\<close>

definition hex_digit :: "char \<Rightarrow> nat option" where
  "hex_digit c =
     (let n = (of_char c :: nat)
      in if 48 \<le> n \<and> n \<le> 57 then Some (n - 48)
         else if 97 \<le> n \<and> n \<le> 102 then Some (n - 87)
         else if 65 \<le> n \<and> n \<le> 70 then Some (n - 55)
         else None)"

definition dec_digit :: "char \<Rightarrow> nat option" where
  "dec_digit c = (let n = (of_char c :: nat) in if 48 \<le> n \<and> n \<le> 57 then Some (n - 48) else None)"

fun parse_digits :: "nat \<Rightarrow> string \<Rightarrow> nat option" where
  "parse_digits acc [] = Some acc"
| "parse_digits acc (c # cs) =
     (case dec_digit c of None \<Rightarrow> None | Some d \<Rightarrow> parse_digits (10 * acc + d) cs)"

definition Atoi :: "string \<Rightarrow> int option" where
  "Atoi s =
     (let (neg, ds) = (case s of [] \<Rightarrow> (False, []) | c # cs \<Rightarrow>
                         if c = CHR ''-'' then (True, cs) else if c = CHR ''+'' then (False, cs) else (False, s))
      in if ds = [] then None
         else case parse_digits 0 ds of
                None \<Rightarrow> None
              | Some n \<Rightarrow> let v = (if neg then - int n else int n) in if fits_int v then Some v else None)"

definition byte_of :: "char \<Rightarrow> byte" where
  "byte_of c = of_char c"

fun unquote_body :: "string \<Rightarrow> dict_error + byte list" where
  "unquote_body [] = Inr []"
| "unquote_body (c # cs) =
     (if c \<noteq> CHR 0x5C then and_then (unquote_body cs) (\<lambda>out. Inr (byte_of c # out))
      else case cs of
             [] \<Rightarrow> Inl TrailingBackslash
           | e # cs \<Rightarrow>
               if e = CHR 0x5C then and_then (unquote_body cs) (\<lambda>out. Inr (0x5C # out))
               else if e = CHR 0x22 then and_then (unquote_body cs) (\<lambda>out. Inr (0x22 # out))
               else if e = CHR ''n'' then and_then (unquote_body cs) (\<lambda>out. Inr (0x0A # out))
               else if e = CHR ''r'' then and_then (unquote_body cs) (\<lambda>out. Inr (0x0D # out))
               else if e = CHR ''t'' then and_then (unquote_body cs) (\<lambda>out. Inr (0x09 # out))
               else if e = CHR ''0'' then and_then (unquote_body cs) (\<lambda>out. Inr (0 # out))
               else if e = CHR ''x'' then
                 (case cs of
                    h # l # cs \<Rightarrow>
                      (case (hex_digit h, hex_digit l) of
                         (Some a, Some b) \<Rightarrow> and_then (unquote_body cs) (\<lambda>out. Inr (of_nat (16 * a + b) # out))
                       | _ \<Rightarrow> Inl BadHex)
                  | _ \<Rightarrow> Inl ShortHex)
               else Inl UnknownEscape)"

definition unquoteToken :: "string \<Rightarrow> dict_error + byte list" where
  "unquoteToken s =
     (if length s < 2 \<or> hd s \<noteq> CHR 0x22 \<or> last s \<noteq> CHR 0x22 then Inl NotQuoted
      else unquote_body (butlast (tl s)))"

text \<open>One line that is neither blank nor a comment: its name, level and token text.\<close>

definition split_line :: "string \<Rightarrow> dict_error + (string \<times> int \<times> string)" where
  "split_line text =
     (if hd text = CHR 0x22 then Inr ([], 0, text)
      else if CHR ''='' \<notin> set text then Inl NoEquals
      else let name = TrimSpace (takeWhile (\<lambda>c. c \<noteq> CHR ''='') text);
               rest = TrimSpace (tl (dropWhile (\<lambda>c. c \<noteq> CHR ''='') text))
           in if CHR 0x40 \<in> set name
              then (case Atoi (tl (dropWhile (\<lambda>c. c \<noteq> CHR 0x40) name)) of
                      None \<Rightarrow> Inl BadLevel
                    | Some lv \<Rightarrow> Inr (takeWhile (\<lambda>c. c \<noteq> CHR 0x40) name, lv, rest))
              else Inr (name, 0, rest))"

definition parse_line :: "string \<Rightarrow> dict_error + (string \<times> int \<times> byte list) option" where
  "parse_line line =
     (let text = TrimSpace line
      in if text = [] \<or> hd text = CHR ''#'' then Inr None
         else and_then (split_line text) (\<lambda>(name, level, rest).
                and_then (unquoteToken rest) (\<lambda>tok. Inr (Some (name, level, tok)))))"

text \<open>The scanner's lines; an error carries its line number.\<close>

fun parse_lines :: "nat \<Rightarrow> string list \<Rightarrow> dictionary \<Rightarrow> (nat \<times> dict_error) + dictionary" where
  "parse_lines line [] d = Inr d"
| "parse_lines line (t # ts) d =
     (case parse_line t of
        Inl e \<Rightarrow> Inl (line, e)
      | Inr None \<Rightarrow> parse_lines (line + 1) ts d
      | Inr (Some (name, level, tok)) \<Rightarrow> parse_lines (line + 1) ts (Dict_Add d name tok level))"

definition ParseDictionary :: "string list \<Rightarrow> (nat \<times> dict_error) + dictionary" where
  "ParseDictionary ts = parse_lines 1 ts NewDictionary"

section \<open>The operators\<close>

definition DictOverwrite_CanApply :: "ctx \<Rightarrow> node \<Rightarrow> bool" where
  "DictOverwrite_CanApply c n \<longleftrightarrow> Dict_Len (Dict c) > 0 \<and> isPayload n"

definition DictOverwrite_Mutate :: "ctx \<Rightarrow> node \<Rightarrow> rand \<Rightarrow> outcome" where
  "DictOverwrite_Mutate c n r = do {
     (tok, r) \<leftarrow> Dict_Token (Dict c) r;
     if length tok = 0 \<or> length tok > length (Raw (hdr n)) then Some (False, n, r)
     else do {
       (start, r) \<leftarrow> Intn (int (length (Raw (hdr n))) - int (length tok) + 1) r;
       raw \<leftarrow> copy_at (Raw (hdr n)) start tok;
       Some (True, set_raw raw n, r)
     }
   }"

definition DictInsert_CanApply :: "ctx \<Rightarrow> node \<Rightarrow> bool" where
  "DictInsert_CanApply c n \<longleftrightarrow> Dict_Len (Dict c) > 0 \<and> isWritable n \<and> canGrow c n > 0"

definition DictInsert_Mutate :: "ctx \<Rightarrow> node \<Rightarrow> rand \<Rightarrow> outcome" where
  "DictInsert_Mutate c n r = do {
     (tok, r) \<leftarrow> Dict_Token (Dict c) r;
     if length tok = 0 \<or> int (length tok) > canGrow c n then Some (False, n, r)
     else do {
       (start, r) \<leftarrow> Intn (int (length (Raw (hdr n))) + 1) r;
       raw \<leftarrow> insertRun (Raw (hdr n)) start (int (length tok)) 0;
       raw \<leftarrow> copy_at raw start tok;
       Some (True, set_raw raw n, r)
     }
   }"

text \<open>Tokens are never empty, and a dictionary fits in memory.\<close>

definition dict_ok :: "dictionary option \<Rightarrow> bool" where
  "dict_ok d \<longleftrightarrow> int (Dict_Len d) < 2 ^ 47"

lemma ok_Dict_Token [wp]:
  assumes "0 < Dict_Len d" and "dict_ok d" and "\<And>tok r'. tok \<in> set (tokens (the d)) \<Longrightarrow> Q (tok, r')"
  shows "ok (Dict_Token d r) Q"
proof -
  obtain x where d: "d = Some x" "0 < length (tokens x)" "int (length (tokens x)) < 2 ^ 47"
    using assms(1,2) by (cases d) (auto simp: Dict_Len_def dict_ok_def)
  have "ok (do { (i, r) \<leftarrow> Intn (int (length (tokens x))) r; tok \<leftarrow> get_at (tokens x) i; Some (tok, r) }) Q"
    by (intro wp) (use d assms(3) in auto)
  with d show ?thesis by (simp add: Dict_Token_def Dict_Len_def)
qed

lemma DictOverwrite_conforms:
  assumes "DictOverwrite_CanApply c n" and "in_memory n" and "dict_ok (Dict c)"
  shows "ok (DictOverwrite_Mutate c n r) (conforms n)"
proof -
  have p: "isPayload n" "0 < Dict_Len (Dict c)" using assms(1) by (auto simp: DictOverwrite_CanApply_def)
  note len = payload_length [OF p(1) assms(2)]
  have over: "conforms n (True, set_raw (overwrite (nat k) (take (length (Raw (hdr n)) - nat k) tok) (Raw (hdr n))) n, r')"
    if "0 \<le> k" "k \<le> int (length (Raw (hdr n)))" for k tok r'
    using len that by (intro conforms_same_length) (simp_all add: nat_le_iff)
  show ?thesis
    unfolding DictOverwrite_Mutate_def by (intro wp over) (use len p assms(3) in auto)
qed

text \<open>Inserting a token: the gap and the copy give \<open>insert_at\<close>.\<close>

lemma overwrite_gap:
  "a \<le> length xs \<Longrightarrow> length gap = length tok \<Longrightarrow>
   overwrite a (take (length (insert_at a gap xs) - a) tok) (insert_at a gap xs) = insert_at a tok xs"
  by (simp add: overwrite_def insert_at_def)

lemma DictInsert_conforms:
  assumes "DictInsert_CanApply c n" and "in_memory n" and "dict_ok (Dict c)"
  shows "ok (DictInsert_Mutate c n r) (\<lambda>out. conforms n out \<and> truthful n out)"
proof -
  have w: "isWritable n" "0 < Dict_Len (Dict c)" using assms(1) by (auto simp: DictInsert_CanApply_def)
  note len = in_memory_raw [OF assms(2)]
  let ?raw = "Raw (hdr n)"
  have ins: "conforms n (True, set_raw (overwrite (nat k) (take (length (insert_at (nat k) (replicate (nat (int (length tok))) 0) ?raw) - nat k) tok)
        (insert_at (nat k) (replicate (nat (int (length tok))) 0) ?raw)) n, r') \<and>
      truthful n (True, set_raw (overwrite (nat k) (take (length (insert_at (nat k) (replicate (nat (int (length tok))) 0) ?raw) - nat k) tok)
        (insert_at (nat k) (replicate (nat (int (length tok))) 0) ?raw)) n, r')"
    if k: "0 \<le> k" "k < int (length ?raw) + 1" and t: "length tok \<noteq> 0" "int (length tok) \<le> canGrow c n" for k tok r'
  proof -
    have kl: "nat k \<le> length ?raw" using k by linarith
    have new: "overwrite (nat k) (take (length (insert_at (nat k) (replicate (nat (int (length tok))) 0) ?raw) - nat k) tok)
        (insert_at (nat k) (replicate (nat (int (length tok))) 0) ?raw) = insert_at (nat k) tok ?raw"
      by (rule overwrite_gap [OF kl]) simp
    have l: "length (insert_at (nat k) tok ?raw) = length ?raw + nat (int (length tok))" using kl by simp
    have "insert_at (nat k) tok ?raw \<noteq> ?raw" using l t(1) by (metis add_cancel_right_right nat_int)
    with conforms_insert [OF w(1) _ t(2) kl l] truthful_set_raw show ?thesis unfolding new by simp
  qed
  show ?thesis
    unfolding DictInsert_Mutate_def by (intro wp ins) (use len w assms(3) in auto)
qed

section \<open>Every token can be written, and no line is lost\<close>

definition hex_char :: "nat \<Rightarrow> char" where
  "hex_char k = (if k < 10 then char_of (48 + k) else char_of (87 + k))"

text \<open>A spelling of a byte the format has: \<open>\<close>backslash x and two digits.\<close>

definition escape_byte :: "byte \<Rightarrow> string" where
  "escape_byte b = [CHR 0x5C, CHR ''x'', hex_char (unat b div 16), hex_char (unat b mod 16)]"

definition quote_token :: "byte list \<Rightarrow> string" where
  "quote_token tok = CHR 0x22 # concat (map escape_byte tok) @ [CHR 0x22]"

lemma hex_digit_char: "k < 16 \<Longrightarrow> hex_digit (hex_char k) = Some k"
  by (auto simp: hex_digit_def hex_char_def Let_def)

lemma unquote_escape: "unquote_body (escape_byte b @ cs) = and_then (unquote_body cs) (\<lambda>out. Inr (b # out))"
proof -
  have u: "unat b < 256" using unsigned_less [of b, where 'a = nat] by simp
  then have "hex_digit (hex_char (unat b div 16)) = Some (unat b div 16)"
    "hex_digit (hex_char (unat b mod 16)) = Some (unat b mod 16)" by (simp_all add: hex_digit_char)
  moreover have "(of_nat (16 * (unat b div 16) + unat b mod 16) :: byte) = b" by simp
  ultimately show ?thesis by (simp add: escape_byte_def)
qed

lemma unquote_escapes: "unquote_body (concat (map escape_byte tok)) = Inr tok"
  by (induction tok) (simp_all add: unquote_escape)

text \<open>C13. Every token has a spelling the dictionary format reads back.\<close>

theorem unquote_quote: "unquoteToken (quote_token tok) = Inr tok"
  by (simp add: unquoteToken_def quote_token_def unquote_escapes)

text \<open>Printable text without escapes stands for itself.\<close>

lemma unquote_plain: "CHR 0x5C \<notin> set cs \<Longrightarrow> unquote_body cs = Inr (map byte_of cs)"
  by (induction cs) auto

definition entry_of :: "string \<Rightarrow> (string \<times> int \<times> byte list) list" where
  "entry_of t = (case parse_line t of Inr (Some (name, level, tok)) \<Rightarrow>
     (if tok = [] then [] else [(name, level, tok)]) | _ \<Rightarrow> [])"

lemma parse_lines_spec:
  "case parse_lines k ts d of
     Inr d' \<Rightarrow> (\<forall>t \<in> set ts. \<exists>e. parse_line t = Inr e) \<and>
       tokens d' = tokens d @ map (\<lambda>(n, l, t). t) (concat (map entry_of ts)) \<and>
       names d' = names d @ map (\<lambda>(n, l, t). n) (concat (map entry_of ts)) \<and>
       levels d' = levels d @ map (\<lambda>(n, l, t). l) (concat (map entry_of ts))
   | Inl (line, e) \<Rightarrow> k \<le> line \<and> line < k + length ts \<and> parse_line (ts ! (line - k)) = Inl e \<and>
       (\<forall>j < line - k. \<exists>x. parse_line (ts ! j) = Inr x)"
proof (induction ts arbitrary: k d)
  case (Cons t ts)
  show ?case
  proof (cases "parse_line t")
    case (Inr e)
    define d' where "d' = (case e of None \<Rightarrow> d | Some (name, level, tok) \<Rightarrow> Dict_Add d name tok level)"
    have step: "parse_lines k (t # ts) d = parse_lines (k + 1) ts d'"
      using Inr by (auto simp: d'_def split: option.split)
    have d': "tokens d' = tokens d @ map (\<lambda>(n, l, t). t) (entry_of t)"
      "names d' = names d @ map (\<lambda>(n, l, t). n) (entry_of t)" "levels d' = levels d @ map (\<lambda>(n, l, t). l) (entry_of t)"
      using Inr by (auto simp: d'_def entry_of_def Dict_Add_def split: option.split)
    show ?thesis
    proof (cases "parse_lines (k + 1) ts d'")
      case (Inl le)
      obtain line er where le: "le = (line, er)" by (cases le)
      with Cons.IH [of "k + 1" d'] Inl have IH: "k + 1 \<le> line" "line < k + 1 + length ts"
        "parse_line (ts ! (line - (k + 1))) = Inl er" "\<forall>j < line - (k + 1). \<exists>x. parse_line (ts ! j) = Inr x" by auto
      then have "line - k = Suc (line - (k + 1))" by simp
      with IH Inl le step \<open>parse_line t = Inr e\<close> show ?thesis
        by (auto simp: less_Suc_eq_0_disj)
    next
      case (Inr r)
      with Cons.IH [of "k + 1" d'] step d' \<open>parse_line t = Inr e\<close> show ?thesis by auto
    qed
  qed simp
qed simp

text \<open>A dictionary that loads holds every token of its text, in order, and one that
  does not names the first malformed line.\<close>

lemma ParseDictionary_complete:
  "case ParseDictionary ts of
     Inr d \<Rightarrow> (\<forall>t \<in> set ts. \<exists>e. parse_line t = Inr e) \<and>
       zip (names d) (zip (levels d) (tokens d)) = concat (map entry_of ts)
   | Inl (line, e) \<Rightarrow> 1 \<le> line \<and> line \<le> length ts \<and> parse_line (ts ! (line - 1)) = Inl e \<and>
       (\<forall>j < line - 1. \<exists>x. parse_line (ts ! j) = Inr x)"
proof -
  have z: "zip (map (\<lambda>(n, l, t). n) xs) (zip (map (\<lambda>(n, l, t). l) xs) (map (\<lambda>(n, l, t). t) xs)) = xs"
    for xs :: "(string \<times> int \<times> byte list) list" by (induction xs) auto
  show ?thesis
    using parse_lines_spec [of 1 ts NewDictionary] z [of "concat (map entry_of ts)"]
    by (auto simp: ParseDictionary_def NewDictionary_def split: sum.splits)
qed

lemma ParseDictionary_complete_witness:
  "(\<exists>e. parse_line (''k@2='' @ quote_token [97, 0]) = Inr e) \<and>
   ParseDictionary [''# c'', ''k@2='' @ quote_token [97, 0]] =
     Inr \<lparr>tokens = [[97, 0]], names = [''k''], levels = [2]\<rparr>"
proof -
  let ?ts = "[''# c'', ''k@2='' @ quote_token [97, 0]]"
  have d: "ParseDictionary ?ts = Inr \<lparr>tokens = [[97, 0]], names = [''k''], levels = [2]\<rparr>" by code_simp
  show ?thesis using ParseDictionary_complete [of ?ts] unfolding d by simp
qed

end
