(* ===== verification/Mutate_Struct.thy ===== *)
theory Mutate_Struct
  imports Mutate_Bytes IR_Clone
begin

text \<open>
  The structured operators, \<open>pkg/mutate/structured.go\<close>: typed integers, variants,
  optional parts and sequences.
\<close>

definition maxRepeatChildren :: int where "maxRepeatChildren = 4096"

definition childBudget :: "ctx \<Rightarrow> node \<Rightarrow> int" where
  "childBudget c n =
     (let limit = (if MaxChildren c \<le> 0 then maxRepeatChildren else MaxChildren c);
          limit = (if MaxLen (hdr n) > 0 \<and> MaxLen (hdr n) < limit then MaxLen (hdr n) else limit)
      in limit - int (length (Children n)))"

definition set_val_field :: "u64 \<Rightarrow> node \<Rightarrow> node" where
  "set_val_field v n = upd (\<lambda>h. h\<lparr>Val := v\<rparr>) n"

definition set_kids :: "node list \<Rightarrow> node \<Rightarrow> node" where
  "set_kids cs n = Node (hdr n) cs"

section \<open>Typed integers\<close>

definition isMutableInt :: "node \<Rightarrow> bool" where
  "isMutableInt n \<longleftrightarrow> \<not> Immutable (hdr n) \<and> Kind (hdr n) = KindInt"

definition IntArith_CanApply :: "ctx \<Rightarrow> node \<Rightarrow> bool" where
  "IntArith_CanApply c n = isMutableInt n"

definition IntArith_Mutate :: "ctx \<Rightarrow> node \<Rightarrow> rand \<Rightarrow> outcome" where
  "IntArith_Mutate c n r = do {
     (delta, r) \<leftarrow> pick_delta r;
     Some (True, set_val_field (Val (hdr n) + word_of_int delta) n, r)
   }"

definition IntInteresting_CanApply :: "ctx \<Rightarrow> node \<Rightarrow> bool" where
  "IntInteresting_CanApply c n = isMutableInt n"

definition int_pool :: "nat \<Rightarrow> int list" where
  "int_pool width =
     (if width = 1 then interesting8 else if width = 2 then interesting16
      else if width = 4 then interesting32 else interesting64)"

definition IntInteresting_Mutate :: "ctx \<Rightarrow> node \<Rightarrow> rand \<Rightarrow> outcome" where
  "IntInteresting_Mutate c n r = do {
     let pool = int_pool (Width (hdr n));
     (i, r) \<leftarrow> Intn (int (length pool)) r;
     v \<leftarrow> get_at pool i;
     if word_of_int v = Val (hdr n) then Some (False, n, r)
     else Some (True, set_val_field (word_of_int v) n, r)
   }"

definition IntRandom_CanApply :: "ctx \<Rightarrow> node \<Rightarrow> bool" where
  "IntRandom_CanApply c n = isMutableInt n"

definition IntRandom_Mutate :: "ctx \<Rightarrow> node \<Rightarrow> rand \<Rightarrow> outcome" where
  "IntRandom_Mutate c n r =
     (let (v, r) = Uint64 r;
          v = (if Width (hdr n) < 8 then v AND (push_bit (8 * Width (hdr n)) 1 - 1) else v)
      in if v = Val (hdr n) then Some (False, n, r)
         else Some (True, set_val_field v n, r))"

definition IntBitFlip_CanApply :: "ctx \<Rightarrow> node \<Rightarrow> bool" where
  "IntBitFlip_CanApply c n = isMutableInt n"

definition IntBitFlip_Mutate :: "ctx \<Rightarrow> node \<Rightarrow> rand \<Rightarrow> outcome" where
  "IntBitFlip_Mutate c n r = do {
     (k, r) \<leftarrow> Intn (int (Width (hdr n)) * 8) r;
     Some (True, set_val_field (Val (hdr n) XOR push_bit (nat k) 1) n, r)
   }"

section \<open>Variants and optional parts\<close>

definition ChoiceSwitch_CanApply :: "ctx \<Rightarrow> node \<Rightarrow> bool" where
  "ChoiceSwitch_CanApply c n \<longleftrightarrow>
     \<not> Immutable (hdr n) \<and> Kind (hdr n) = KindChoice \<and> length (Children n) > 1"

definition ChoiceSwitch_Mutate :: "ctx \<Rightarrow> node \<Rightarrow> rand \<Rightarrow> outcome" where
  "ChoiceSwitch_Mutate c n r = do {
     (next, r) \<leftarrow> Intn (int (length (Children n)) - 1) r;
     let next = (if to_int32 next \<ge> Sel (hdr n) then next + 1 else next);
     Some (True, upd (\<lambda>h. h\<lparr>Sel := to_int32 next\<rparr>) n, r)
   }"

definition OptToggle_CanApply :: "ctx \<Rightarrow> node \<Rightarrow> bool" where
  "OptToggle_CanApply c n \<longleftrightarrow>
     \<not> Immutable (hdr n) \<and> Kind (hdr n) = KindOpt \<and> length (Children n) = 1"

definition OptToggle_Mutate :: "ctx \<Rightarrow> node \<Rightarrow> rand \<Rightarrow> outcome" where
  "OptToggle_Mutate c n r = Some (True, upd (\<lambda>h. SetPresent (\<not> Present h) h) n, r)"

section \<open>Sequences\<close>

definition isRepeat :: "node \<Rightarrow> bool" where
  "isRepeat n \<longleftrightarrow> \<not> Immutable (hdr n) \<and> Kind (hdr n) = KindRepeat"

text \<open>The slot is opened by a grown slice whose tail is shifted by one.\<close>

definition insertChild :: "node list \<Rightarrow> int \<Rightarrow> node \<Rightarrow> node list option" where
  "insertChild kids start kid = do {
     let grown = kids @ [kid];
     tail \<leftarrow> slice_of kids start (int (length kids));
     grown \<leftarrow> copy_at grown (start + 1) tail;
     set_at grown start kid
   }"

definition RepeatInsert_CanApply :: "ctx \<Rightarrow> node \<Rightarrow> bool" where
  "RepeatInsert_CanApply c n \<longleftrightarrow> isRepeat n \<and> length (Children n) > 0 \<and> childBudget c n > 0"

definition RepeatInsert_Mutate :: "ctx \<Rightarrow> node \<Rightarrow> rand \<Rightarrow> outcome" where
  "RepeatInsert_Mutate c n r =
     (if childBudget c n < 1 then Some (False, n, r)
      else do {
        (src, r) \<leftarrow> Intn (int (length (Children n))) r;
        kid \<leftarrow> get_at (Children n) src;
        (start, r) \<leftarrow> Intn (int (length (Children n)) + 1) r;
        kids \<leftarrow> insertChild (Children n) start (clone kid);
        Some (True, set_kids kids n, r)
      })"

definition RepeatDelete_CanApply :: "ctx \<Rightarrow> node \<Rightarrow> bool" where
  "RepeatDelete_CanApply c n \<longleftrightarrow> isRepeat n \<and> int (length (Children n)) > MinLen (hdr n)"

definition RepeatDelete_Mutate :: "ctx \<Rightarrow> node \<Rightarrow> rand \<Rightarrow> outcome" where
  "RepeatDelete_Mutate c n r = do {
     (start, r) \<leftarrow> Intn (int (length (Children n))) r;
     front \<leftarrow> slice_of (Children n) 0 start;
     back \<leftarrow> slice_of (Children n) (start + 1) (int (length (Children n)));
     Some (True, set_kids (front @ back) n, r)
   }"

definition RepeatDuplicate_CanApply :: "ctx \<Rightarrow> node \<Rightarrow> bool" where
  "RepeatDuplicate_CanApply c n \<longleftrightarrow> isRepeat n \<and> length (Children n) > 0 \<and> childBudget c n > 0"

definition RepeatDuplicate_Mutate :: "ctx \<Rightarrow> node \<Rightarrow> rand \<Rightarrow> outcome" where
  "RepeatDuplicate_Mutate c n r = do {
     let kids = Children n;
     let room = childBudget c n;
     if room < 1 then Some (False, n, r)
     else do {
       (start, r) \<leftarrow> Intn (int (length kids)) r;
       (cnt, r) \<leftarrow> IntRange 1 (min (min (int (length kids) - start) room) 16) r;
       tail \<leftarrow> slice_of kids start (int (length kids));
       kids \<leftarrow> copy_at (kids @ replicate (nat cnt) n) (start + cnt) tail;
       kids \<leftarrow> for_upto (nat cnt) (\<lambda>i kids. do {
           src \<leftarrow> get_at kids (start + cnt + int i);
           set_at kids (start + int i) (clone src)
         }) kids;
       Some (True, set_kids kids n, r)
     }
   }"

definition RepeatSwap_CanApply :: "ctx \<Rightarrow> node \<Rightarrow> bool" where
  "RepeatSwap_CanApply c n \<longleftrightarrow> isRepeat n \<and> length (Children n) > 1"

definition RepeatSwap_Mutate :: "ctx \<Rightarrow> node \<Rightarrow> rand \<Rightarrow> outcome" where
  "RepeatSwap_Mutate c n r = do {
     (i, r) \<leftarrow> Intn (int (length (Children n))) r;
     (j, r) \<leftarrow> Intn (int (length (Children n)) - 1) r;
     let j = (if j \<ge> i then j + 1 else j);
     a \<leftarrow> get_at (Children n) j;
     b \<leftarrow> get_at (Children n) i;
     kids \<leftarrow> set_at (Children n) i a;
     kids \<leftarrow> set_at kids j b;
     Some (True, set_kids kids n, r)
   }"

definition shuffle_swap :: "nat \<Rightarrow> nat \<Rightarrow> bool \<times> 'a list \<Rightarrow> bool \<times> 'a list" where
  "shuffle_swap i j = (\<lambda>(moved, kids). if i \<noteq> j then (True, swap_at i j kids) else (moved, kids))"

definition RepeatShuffle_CanApply :: "ctx \<Rightarrow> node \<Rightarrow> bool" where
  "RepeatShuffle_CanApply c n \<longleftrightarrow> isRepeat n \<and> length (Children n) > 1"

definition RepeatShuffle_Mutate :: "ctx \<Rightarrow> node \<Rightarrow> rand \<Rightarrow> outcome" where
  "RepeatShuffle_Mutate c n r = do {
     ((moved, kids), r) \<leftarrow> Shuffle (int (length (Children n))) shuffle_swap (False, Children n) r;
     Some (moved, set_kids kids n, r)
   }"

section \<open>Contracts\<close>

text \<open>An update of fields the validator does not read, or reads the same.\<close>

lemma valid_upd:
  "check_node (f (hdr n)) (length (Children n)) = check_node (hdr n) (length (Children n)) \<Longrightarrow>
   valid (upd f n) = valid n"
  by (cases n) (simp add: upd_def)

lemma conforms_upd:
  assumes "Kind (f (hdr n)) = Kind (hdr n)" and "Name (f (hdr n)) = Name (hdr n)"
    and "valid n \<Longrightarrow> check_node (f (hdr n)) (length (Children n)) = check_node (hdr n) (length (Children n))"
  shows "conforms n (True, upd f n, r)"
  using assms valid_upd [of f n] by (auto simp: conforms_def)

lemma check_node_fields:
  assumes "Kind a = Kind b" "Width a = Width b" "Sel a = Sel b" "MinLen a = MinLen b" "MaxLen a = MaxLen b"
    "Raw a = Raw b" "Derive a = Derive b" "Target a = Target b"
  shows "check_node a len = check_node b len"
proof -
  have "check_kind a = check_kind b" "check_by_kind a len = check_by_kind b len" "check_bounds a len = check_bounds b len"
    by (simp_all only: check_kind_def check_by_kind_def check_bounds_def FitsLen_def assms)
  then show ?thesis by (simp only: check_node_def)
qed

lemma check_node_Val: "check_node (h\<lparr>Val := v\<rparr>) len = check_node h len"
  by (rule check_node_fields) simp_all

lemma check_node_parts:
  "check_node h len = None \<longleftrightarrow> \<not> check_kind h \<and> check_by_kind h len = None \<and> check_bounds h len = None"
  by (simp add: check_node_def split: option.split)

lemma check_node_Sel:
  assumes "Kind h = KindChoice" and "check_node h len = None" and "0 \<le> s" and "s < int len"
  shows "check_node (h\<lparr>Sel := s\<rparr>) len = None"
proof -
  have "check_kind (h\<lparr>Sel := s\<rparr>) = check_kind h" "check_bounds (h\<lparr>Sel := s\<rparr>) len = check_bounds h len"
    by (simp_all add: check_kind_def check_bounds_def FitsLen_def)
  moreover have "check_by_kind (h\<lparr>Sel := s\<rparr>) len = None" using assms(1,3,4) by (simp add: check_by_kind_def)
  ultimately show ?thesis using assms(2) unfolding check_node_parts by simp
qed

lemma conforms_set_val: "conforms n (True, set_val_field v n, r)"
  unfolding set_val_field_def by (rule conforms_upd) (simp_all add: check_node_Val)

lemma truthful_hdr: "hdr n' \<noteq> hdr n \<Longrightarrow> truthful n (b, n', r)"
  by (auto simp: truthful_def)

lemma truthful_set_val: "v \<noteq> Val (hdr n) \<Longrightarrow> truthful n (True, set_val_field v n, r)"
proof (rule truthful_hdr)
  assume v: "v \<noteq> Val (hdr n)"
  have "Val (hdr (set_val_field v n)) = v" by (simp add: set_val_field_def)
  with v show "hdr (set_val_field v n) \<noteq> hdr n" by metis
qed

lemma IntArith_conforms: "ok (IntArith_Mutate c n r) (\<lambda>out. conforms n out \<and> truthful n out)"
  unfolding IntArith_Mutate_def
proof (intro wp, goal_cases)
  case (1 d r')
  have "(word_of_int d :: u64) \<noteq> 0" using small_delta [of d 1] 1 by auto
  then show ?case by (simp add: conforms_set_val truthful_set_val)
qed

lemma int_pool_length: "0 < length (int_pool w)" "length (int_pool w) \<le> 10"
  by (simp_all add: int_pool_def interesting8_def interesting16_def interesting32_def interesting64_def)

lemma IntInteresting_conforms: "ok (IntInteresting_Mutate c n r) (\<lambda>out. conforms n out \<and> truthful n out)"
  unfolding IntInteresting_Mutate_def Let_def
  by (intro wp) (use int_pool_length [of "Width (hdr n)"] in
    \<open>auto intro: conforms_set_val truthful_set_val\<close>)

lemma IntRandom_conforms: "ok (IntRandom_Mutate c n r) (\<lambda>out. conforms n out \<and> truthful n out)"
  by (cases "Uint64 r") (auto simp: IntRandom_Mutate_def Let_def intro: conforms_set_val truthful_set_val)

lemma IntBitFlip_conforms:
  assumes "isMutableInt n" and "valid n"
  shows "ok (IntBitFlip_Mutate c n r) (\<lambda>out. conforms n out \<and> truthful n out)"
proof -
  obtain h cs where n: "n = Node h cs" by (cases n)
  with assms have w: "Width (hdr n) \<in> {1, 2, 4, 8}"
    using check_node_width [of h "length cs"] by (auto simp: isMutableInt_def)
  show ?thesis
    unfolding IntBitFlip_Mutate_def
  proof (intro wp, goal_cases)
    case (3 k r')
    have "nat k < 64" using 3 w by auto
    then have "bit (Val (hdr n) XOR push_bit (nat k) 1) (nat k) \<noteq> bit (Val (hdr n)) (nat k)"
      by (simp add: bit_simps)
    then have "Val (hdr n) XOR push_bit (nat k) 1 \<noteq> Val (hdr n)" by metis
    then show ?case by (simp add: conforms_set_val truthful_set_val)
  qed (use w in auto)
qed

lemma ChoiceSwitch_conforms:
  assumes "ChoiceSwitch_CanApply c n" and "in_memory n"
  shows "ok (ChoiceSwitch_Mutate c n r) (\<lambda>out. conforms n out \<and> truthful n out)"
proof -
  obtain h cs where n: "n = Node h cs" by (cases n)
  have k: "Kind h = KindChoice" "1 < length cs" "int (length cs) < 2 ^ 31" "- (2 ^ 31) \<le> Sel h"
    using assms n by (auto simp: ChoiceSwitch_CanApply_def in_memory_def)
  have chk: "check_node (h\<lparr>Sel := s\<rparr>) (length cs) = check_node h (length cs)"
    if "0 \<le> s" "s < int (length cs)" "check_node h (length cs) = None" for s
    using check_node_Sel [OF k(1) that(3,1,2)] that(3) by simp
  show ?thesis
    unfolding ChoiceSwitch_Mutate_def Let_def
  proof (intro wp, goal_cases)
    case (3 v r')
    let ?s = "to_int32 (if to_int32 v \<ge> Sel (hdr n) then v + 1 else v)"
    have v: "to_int32 v = v" "to_int32 (v + 1) = v + 1" using 3 k(2,3) n by simp_all
    then have s: "0 \<le> ?s" "?s < int (length cs)" "?s \<noteq> Sel (hdr n)" using 3 n by auto
    have "conforms n (True, upd (\<lambda>h. h\<lparr>Sel := ?s\<rparr>) n, r')"
      using chk [OF s(1,2)] n by (intro conforms_upd) simp_all
    moreover have "hdr (upd (\<lambda>h. h\<lparr>Sel := ?s\<rparr>) n) \<noteq> hdr n"
    proof
      assume "hdr (upd (\<lambda>h. h\<lparr>Sel := ?s\<rparr>) n) = hdr n"
      then have "Sel (hdr (upd (\<lambda>h. h\<lparr>Sel := ?s\<rparr>) n)) = Sel (hdr n)" by (simp only:)
      with s(3) show False by simp
    qed
    ultimately show ?case using truthful_hdr by blast
  qed (use k n in auto)
qed

lemma OptToggle_conforms:
  assumes "OptToggle_CanApply c n"
  shows "ok (OptToggle_Mutate c n r) (\<lambda>out. conforms n out \<and> truthful n out)"
proof -
  let ?f = "\<lambda>h. SetPresent (\<not> Present h) h"
  have chk: "check_node (?f (hdr n)) len = check_node (hdr n) len" for len
    by (rule check_node_fields) simp_all
  have "Present (hdr (upd ?f n)) \<noteq> Present (hdr n)" using assms by (simp add: OptToggle_CanApply_def)
  then have "truthful n (True, upd ?f n, r)" by (intro truthful_hdr) metis
  moreover have "conforms n (True, upd ?f n, r)" using chk by (intro conforms_upd) simp_all
  ultimately show ?thesis by (simp add: OptToggle_Mutate_def)
qed

text \<open>Replacing the children of a sequence within its declared bounds.\<close>

lemma valid_set_kids:
  assumes "valid n" and "Kind (hdr n) = KindRepeat" and "\<And>c. c \<in> set kids \<Longrightarrow> valid c"
    and "FitsLen (hdr n) (int (length kids))"
  shows "valid (set_kids kids n)"
proof -
  obtain h cs where n: "n = Node h cs" by (cases n)
  with assms have "check_node h (length cs) = None" by simp
  then have "\<not> check_kind h" "check_by_kind h (length cs) = None" "check_bounds h (length cs) = None"
    by (simp_all add: check_node_parts)
  moreover have "check_by_kind h (length kids) = None" using assms(2) n by (simp add: check_by_kind_def)
  moreover have "check_bounds h (length kids) = None"
    using calculation(3) assms(2,4) n by (auto simp: check_bounds_def IsLeaf_def split: if_splits)
  ultimately have "check_node h (length kids) = None" by (simp add: check_node_parts)
  with assms(3) n show ?thesis by (simp add: set_kids_def list_all_iff)
qed

lemma valid_kids_fit:
  assumes "valid n" and "Kind (hdr n) = KindRepeat"
  shows "FitsLen (hdr n) (int (length (Children n)))" and "\<And>c. c \<in> set (Children n) \<Longrightarrow> valid c"
proof -
  obtain h cs where n: "n = Node h cs" by (cases n)
  with assms have "check_bounds h (length cs) = None" by (simp add: check_node_parts)
  with assms(2) n show "FitsLen (hdr n) (int (length (Children n)))"
    by (auto simp: check_bounds_def split: if_splits)
  show "\<And>c. c \<in> set (Children n) \<Longrightarrow> valid c" using assms(1) by (rule valid_children)
qed

lemma conforms_set_kids:
  assumes "isRepeat n"
    and "valid n \<Longrightarrow> FitsLen (hdr n) (int (length (Children n))) \<Longrightarrow> FitsLen (hdr n) (int (length kids))"
    and "valid n \<Longrightarrow> (\<And>c. c \<in> set (Children n) \<Longrightarrow> valid c) \<Longrightarrow> list_all valid kids"
  shows "conforms n (True, set_kids kids n, r)"
proof -
  have k: "Kind (hdr n) = KindRepeat" using assms(1) by (simp add: isRepeat_def)
  have "valid (set_kids kids n)" if v: "valid n"
    using valid_set_kids [OF v k] valid_kids_fit [OF v k] assms(2,3) [OF v] by (simp add: list_all_iff)
  then show ?thesis by (simp add: conforms_def set_kids_def)
qed

lemma truthful_set_kids: "kids \<noteq> Children n \<Longrightarrow> truthful n (b, set_kids kids n, r)"
  by (cases n) (auto simp: truthful_def set_kids_def)

lemma child_grow_fits:
  assumes "FitsLen (hdr n) (int (length (Children n)))" and "length (Children n) \<le> l"
    and "int l \<le> int (length (Children n)) + childBudget c n"
  shows "FitsLen (hdr n) (int l)"
  using assms by (auto simp: FitsLen_def childBudget_def Let_def split: if_splits)

lemma insertChild_spec:
  assumes "0 \<le> start" and "start \<le> int (length kids)"
  shows "insertChild kids start kid = Some (insert_at (nat start) [kid] kids)"
proof -
  obtain a where a: "start = int a" "a \<le> length kids" using assms by (metis nonneg_int_cases of_nat_le_iff)
  let ?g = "overwrite (a + 1) (take (length (kids @ [kid]) - (a + 1)) (drop a kids)) (kids @ [kid])"
  have "?g = take (a + 1) (kids @ [kid]) @ drop a kids"
    using a(2) by (simp add: overwrite_def)
  then have "?g[a := kid] = insert_at a [kid] kids" using a(2)
    by (simp add: insert_at_def list_update_append take_Suc_conv_app_nth min_def split: if_splits)
       (cases "a = length kids"; simp add: upd_conv_take_nth_drop nth_append)
  then show ?thesis
    using a by (simp add: insertChild_def slice_of_def copy_at_def set_at_def window_def overwrite_def nat_add_distrib)
qed

lemma RepeatInsert_conforms:
  assumes "RepeatInsert_CanApply c n" and "in_memory n"
  shows "ok (RepeatInsert_Mutate c n r) (\<lambda>out. conforms n out \<and> truthful n out)"
proof -
  have rep: "isRepeat n" and len: "0 < length (Children n)" "int (length (Children n)) < 2 ^ 31"
    and room: "0 < childBudget c n"
    using assms by (auto simp: RepeatInsert_CanApply_def in_memory_def)
  have ins: "conforms n (True, set_kids (insert_at k [clone (Children n ! i)] (Children n)) n, r') \<and>
      truthful n (True, set_kids (insert_at k [clone (Children n ! i)] (Children n)) n, r')"
    if k: "k \<le> length (Children n)" and i: "i < length (Children n)" for k i r'
  proof
    let ?kids = "insert_at k [clone (Children n ! i)] (Children n)"
    have l: "length ?kids = Suc (length (Children n))" using k by simp
    show "truthful n (True, set_kids ?kids n, r')"
      by (rule truthful_set_kids) (use l in \<open>metis n_not_Suc_n\<close>)
    show "conforms n (True, set_kids ?kids n, r')"
    proof (rule conforms_set_kids [OF rep])
      assume "FitsLen (hdr n) (int (length (Children n)))"
      then show "FitsLen (hdr n) (int (length ?kids))"
        by (rule child_grow_fits [where c = c]) (use l room in simp_all)
    next
      assume "\<And>c. c \<in> set (Children n) \<Longrightarrow> valid c"
      then show "list_all valid ?kids" using i by (simp add: list_all_iff set_insert_at)
    qed
  qed
  show ?thesis
    unfolding RepeatInsert_Mutate_def
  proof (intro wp, goal_cases)
    case (8 i r1 k r2)
    then have "nat k \<le> length (Children n)" "nat i < length (Children n)" by linarith+
    with ins show ?case using 8 by (simp add: insertChild_spec)
  qed (use len room in auto)
qed

lemma RepeatDelete_conforms:
  assumes "RepeatDelete_CanApply c n" and "in_memory n"
  shows "ok (RepeatDelete_Mutate c n r) (\<lambda>out. conforms n out \<and> truthful n out)"
proof -
  have rep: "isRepeat n" and len: "MinLen (hdr n) < int (length (Children n))" "0 \<le> MinLen (hdr n)"
    "int (length (Children n)) < 2 ^ 31"
    using assms by (auto simp: RepeatDelete_CanApply_def in_memory_def)
  have del: "conforms n (True, set_kids (window 0 (nat k) (Children n) @ window (nat (k + 1)) (length (Children n)) (Children n)) n, r') \<and>
      truthful n (True, set_kids (window 0 (nat k) (Children n) @ window (nat (k + 1)) (length (Children n)) (Children n)) n, r')"
    (is "conforms n (True, set_kids ?kids n, r') \<and> _")
    if k: "0 \<le> k" "k < int (length (Children n))" for k r'
  proof
    have l: "Suc (length ?kids) = length (Children n)" using k by simp
    then show "truthful n (True, set_kids ?kids n, r')"
      by (intro truthful_set_kids) (metis n_not_Suc_n)
    show "conforms n (True, set_kids ?kids n, r')"
    proof (rule conforms_set_kids [OF rep])
      assume "FitsLen (hdr n) (int (length (Children n)))"
      then show "FitsLen (hdr n) (int (length ?kids))" using len l by (auto simp: FitsLen_def)
    next
      assume "\<And>c. c \<in> set (Children n) \<Longrightarrow> valid c"
      then show "list_all valid ?kids"
        unfolding list_all_iff window_def set_append by (metis Un_iff in_set_dropD in_set_takeD)
    qed
  qed
  show ?thesis
    unfolding RepeatDelete_Mutate_def by (intro wp) (use len del in auto)
qed

text \<open>The duplicated run, element by element.\<close>

lemma RepeatDuplicate_conforms:
  assumes "RepeatDuplicate_CanApply c n" and "in_memory n"
  shows "ok (RepeatDuplicate_Mutate c n r) (\<lambda>out. conforms n out \<and> truthful n out)"
proof -
  have rep: "isRepeat n" and len: "0 < length (Children n)" "int (length (Children n)) < 2 ^ 31"
    and room: "0 < childBudget c n"
    using assms by (auto simp: RepeatDuplicate_CanApply_def in_memory_def)
  let ?cs = "Children n"
  have loop: "ok (for_upto (nat cnt) (\<lambda>i kids. do {
           src \<leftarrow> get_at kids (start + cnt + int i);
           set_at kids (start + int i) (clone src)
         }) (overwrite (nat (start + cnt)) (take (length (?cs @ replicate (nat cnt) n) - nat (start + cnt))
               (window (nat start) (nat (int (length ?cs))) ?cs)) (?cs @ replicate (nat cnt) n)))
      (\<lambda>kids. ok (Some (True, set_kids kids n, r')) (\<lambda>out. conforms n out \<and> truthful n out))"
    if b: "0 \<le> start" "start < int (length ?cs)" "1 \<le> cnt" "cnt \<le> min (min (int (length ?cs) - start) (childBudget c n)) 16"
    for start cnt r'
  proof -
    obtain a k where a: "start = int a" "cnt = int k" using b(1,3) by (metis nonneg_int_cases order_trans zero_le_one)
    have ak: "a < length ?cs" "1 \<le> k" "a + k \<le> length ?cs" "int k \<le> childBudget c n" using b a by linarith+
    define g where "g = overwrite (a + k) (take (length (?cs @ replicate k n) - (a + k)) (window a (length ?cs) ?cs)) (?cs @ replicate k n)"
    have g: "g = take (a + k) ?cs @ drop a ?cs" using ak by (simp add: g_def overwrite_def window_def)
    then have lg: "length g = length ?cs + k" using ak by simp
    have "ok (for_upto k (\<lambda>i kids. do { src \<leftarrow> get_at kids (int a + int k + int i); set_at kids (int a + int i) (clone src) }) g)
      (\<lambda>kids. kids = take a ?cs @ map (\<lambda>j. clone (?cs ! (a + j))) [0..<k] @ drop a ?cs)"
    proof (rule ok_for_upto [where I = "\<lambda>i kids. kids = take a ?cs @ map (\<lambda>j. clone (?cs ! (a + j))) [0..<i] @ drop (a + i) g"],
        goal_cases)
      case 1
      have "take a g = take a ?cs" using ak by (simp add: g)
      then show ?case using append_take_drop_id [of a g] by simp
    next
      case (2 j kids)
      have lk: "length kids = length ?cs + k" unfolding 2(2) using 2(1) ak lg by simp
      have at: "nat (int a + int j) = a + j" "nat (int a + int k + int j) = a + k + j" by linarith+
      have dg: "drop (a + j) g = g ! (a + j) # drop (a + Suc j) g"
        using 2(1) ak lg by (simp add: Cons_nth_drop_Suc)
      have "kids ! (a + k + j) = g ! (a + k + j)"
        unfolding 2(2) using 2(1) ak lg by (simp add: nth_append add.commute add.left_commute)
      also have "\<dots> = ?cs ! (a + j)" using 2(1) ak by (simp add: g nth_append)
      finally have src: "kids ! (a + k + j) = ?cs ! (a + j)" .
      have upd: "kids[a + j := x] = take a ?cs @ (map (\<lambda>j. clone (?cs ! (a + j))) [0..<j] @ [x]) @ drop (a + Suc j) g" for x
        unfolding 2(2) dg using ak by (simp add: list_update_append)
      show ?case
      proof (intro wp)
        show "int a + int k + int j < int (length kids)" "int a + int j < int (length kids)"
          using 2(1) ak lk by simp_all
        show "kids[nat (int a + int j) := clone (kids ! nat (int a + int k + int j))] =
            take a ?cs @ map (\<lambda>j. clone (?cs ! (a + j))) [0..<Suc j] @ drop (a + Suc j) g"
          unfolding at src upd by simp
      qed simp_all
    next
      case (3 kids)
      have "drop (a + k) g = drop a ?cs" using ak by (simp add: g)
      then show ?case using 3 by simp
    qed
    moreover have "conforms n (True, set_kids kids n, r') \<and> truthful n (True, set_kids kids n, r')"
      if kids: "kids = take a ?cs @ map (\<lambda>j. clone (?cs ! (a + j))) [0..<k] @ drop a ?cs" for kids
    proof
      have l: "length kids = length ?cs + k" using kids ak by simp
      show "truthful n (True, set_kids kids n, r')"
        by (rule truthful_set_kids) (use l ak in auto)
      show "conforms n (True, set_kids kids n, r')"
      proof (rule conforms_set_kids [OF rep])
        assume "FitsLen (hdr n) (int (length ?cs))"
        then show "FitsLen (hdr n) (int (length kids))"
          by (rule child_grow_fits [where c = c]) (use l ak in simp_all)
      next
        assume "\<And>c. c \<in> set ?cs \<Longrightarrow> valid c"
        then show "list_all valid kids" using ak
          by (auto simp: kids list_all_iff dest: in_set_takeD in_set_dropD)
      qed
    qed
    moreover have "nat (start + cnt) = a + k" "nat cnt = k" "nat start = a" using a by simp_all
    ultimately show ?thesis unfolding a g_def [symmetric] by (auto elim!: ok_mono simp: g_def)
  qed
  show ?thesis
    unfolding RepeatDuplicate_Mutate_def Let_def
    by (intro wp loop) (use len room in auto)
qed

lemma isRepeat_swap:
  assumes "isRepeat n" and "mset kids = mset (Children n)"
  shows "conforms n (True, set_kids kids n, r)"
proof (rule conforms_set_kids [OF assms(1)])
  have len: "length kids = length (Children n)" using assms(2) by (metis size_mset)
  show "FitsLen (hdr n) (int (length (Children n))) \<Longrightarrow> FitsLen (hdr n) (int (length kids))" using len by simp
next
  assume "\<And>c. c \<in> set (Children n) \<Longrightarrow> valid c"
  moreover have "set kids = set (Children n)" using assms(2) by (rule mset_eq_setD)
  ultimately show "list_all valid kids" by (simp add: list_all_iff)
qed

lemma RepeatSwap_conforms:
  assumes "RepeatSwap_CanApply c n" and "in_memory n"
  shows "ok (RepeatSwap_Mutate c n r) (\<lambda>(changed, n', r'). changed \<and> conforms n (changed, n', r') \<and>
    (\<exists>i j. i \<noteq> j \<and> i < length (Children n) \<and> j < length (Children n) \<and> n' = set_kids (swap_at i j (Children n)) n))"
proof -
  have rep: "isRepeat n" and len: "1 < length (Children n)" "int (length (Children n)) < 2 ^ 31"
    using assms by (auto simp: RepeatSwap_CanApply_def in_memory_def)
  have swap: "conforms n (True, set_kids (swap_at i j (Children n)) n, r')"
    if "i < length (Children n)" "j < length (Children n)" for i j r'
    by (rule isRepeat_swap [OF rep]) (use that in simp)
  show ?thesis
    unfolding RepeatSwap_Mutate_def Let_def
  proof (intro wp, goal_cases)
    case (13 i r1 j0 r2)
    let ?j = "if i \<le> j0 then j0 + 1 else j0"
    have b: "nat i < length (Children n)" "nat ?j < length (Children n)" "nat i \<noteq> nat ?j" using 13 by auto
    with swap [OF b(1,2)] show ?case unfolding swap_at_def [symmetric] prod.case by blast
  qed (use len in auto)
qed

text \<open>
  The shuffle. Its elements are distinct nodes, so that the order can be read off
  the slice; the identity comes only from drawing \<open>j = i\<close> every time.
\<close>

lemma shuffle_swap_pair:
  "shuffle_swap i j (moved, kids) = (if i \<noteq> j then (True, swap_at i j kids) else (moved, kids))"
  by (simp add: shuffle_swap_def)

lemma shuffle_loop_spec:
  "shuffle_loop k shuffle_swap (moved, xs) r = Some ((moved', ys), r') \<Longrightarrow>
   distinct xs \<Longrightarrow> k < length xs \<Longrightarrow> length xs < 2 ^ 31 \<Longrightarrow>
   mset ys = mset xs \<and> (\<forall>i > k. i < length xs \<longrightarrow> ys ! i = xs ! i) \<and> (moved' \<longleftrightarrow> moved \<or> ys \<noteq> xs)"
proof (induction k arbitrary: moved xs r)
  case (Suc k)
  from Suc.prems(1) obtain j r1 where j: "Intn (int (Suc k) + 1) r = Some (j, r1)"
    and rest: "shuffle_loop k shuffle_swap (shuffle_swap (Suc k) (nat j) (moved, xs)) r1 = Some ((moved', ys), r')"
    by (auto split: bind_splits)
  from Intn_range [OF j] Suc.prems(3,4) have jb: "0 \<le> j" "nat j \<le> Suc k" by auto
  show ?case
  proof (cases "nat j = Suc k")
    case True
    with rest have "shuffle_loop k shuffle_swap (moved, xs) r1 = Some ((moved', ys), r')" by (simp add: shuffle_swap_pair)
    from Suc.IH [OF this Suc.prems(2)] Suc.prems(3,4) show ?thesis by auto
  next
    case False
    let ?xs = "swap_at (Suc k) (nat j) xs"
    from False rest have r: "shuffle_loop k shuffle_swap (True, ?xs) r1 = Some ((moved', ys), r')"
      by (simp add: shuffle_swap_pair)
    have b: "nat j < length xs" "Suc k < length xs" using jb False Suc.prems(3) by auto
    from Suc.IH [OF r] Suc.prems(2-4) b have IH: "mset ys = mset ?xs"
      "\<forall>i > k. i < length xs \<longrightarrow> ys ! i = ?xs ! i" "moved'" by auto
    have "ys ! Suc k = xs ! nat j" using IH(2) b by (simp add: nth_swap_at)
    moreover have "xs ! nat j \<noteq> xs ! Suc k" using Suc.prems(2) b False by (simp add: nth_eq_iff_index_eq)
    ultimately have "ys \<noteq> xs" by metis
    moreover have "ys ! i = xs ! i" if "Suc k < i" "i < length xs" for i
      using IH(2) that b jb False by (simp add: nth_swap_at)
    ultimately show ?thesis using IH b by simp
  qed
qed simp

lemma shuffle_loop_total:
  "int k < 2 ^ 31 \<Longrightarrow> \<exists>st r'. shuffle_loop k swap s r = Some (st, r')"
proof (induction k arbitrary: s r)
  case (Suc k)
  from Intn_ex [of "int (Suc k) + 1" r] Suc.prems obtain j r1 where "Intn (int (Suc k) + 1) r = Some (j, r1)" by auto
  with Suc show ?case by simp
qed simp

lemma shuffle_moved:
  "shuffle_loop k shuffle_swap (True, xs) r = Some ((moved', ys), r') \<Longrightarrow> moved'"
proof (induction k arbitrary: xs r)
  case (Suc k)
  then obtain j r1 where "shuffle_loop k shuffle_swap (shuffle_swap (Suc k) (nat j) (True, xs)) r1 = Some ((moved', ys), r')"
    by (auto split: bind_splits)
  with Suc.IH show ?case by (auto simp: shuffle_swap_pair split: if_splits)
qed simp

lemma shuffle_loop_mset:
  "shuffle_loop k shuffle_swap (moved, xs) r = Some ((moved', ys), r') \<Longrightarrow> k < length xs \<Longrightarrow> length xs < 2 ^ 31 \<Longrightarrow>
   mset ys = mset xs \<and> (\<not> moved' \<longrightarrow> ys = xs)"
proof (induction k arbitrary: moved xs r)
  case (Suc k)
  from Suc.prems(1) obtain j r1 where j: "Intn (int (Suc k) + 1) r = Some (j, r1)"
    and rest: "shuffle_loop k shuffle_swap (shuffle_swap (Suc k) (nat j) (moved, xs)) r1 = Some ((moved', ys), r')"
    by (auto split: bind_splits)
  from Intn_range [OF j] Suc.prems(2,3) have jb: "0 \<le> j" "nat j \<le> Suc k" by auto
  show ?case
  proof (cases "nat j = Suc k")
    case True
    with rest have "shuffle_loop k shuffle_swap (moved, xs) r1 = Some ((moved', ys), r')" by (simp add: shuffle_swap_pair)
    from Suc.IH [OF this] Suc.prems(2,3) show ?thesis by simp
  next
    case False
    with rest have r: "shuffle_loop k shuffle_swap (True, swap_at (Suc k) (nat j) xs) r1 = Some ((moved', ys), r')"
      by (simp add: shuffle_swap_pair)
    have "moved' \<and> mset ys = mset (swap_at (Suc k) (nat j) xs)"
      using Suc.IH [OF r] shuffle_moved [OF r] Suc.prems(2,3) by simp
    with jb False Suc.prems(2) show ?thesis by simp
  qed
qed simp

lemma Shuffle_run:
  assumes "1 < length xs" and "int (length xs) < 2 ^ 31"
  obtains moved ys r' where "Shuffle (int (length xs)) shuffle_swap (False, xs) r = Some ((moved, ys), r')"
    "mset ys = mset xs" "\<not> moved \<longrightarrow> ys = xs" "distinct xs \<Longrightarrow> moved \<longleftrightarrow> ys \<noteq> xs"
proof -
  let ?k = "nat (int (length xs) - 1)"
  have k: "?k < length xs" "int ?k < 2 ^ 31" "length xs < 2 ^ 31" using assms by auto
  from shuffle_loop_total [OF k(2), of shuffle_swap "(False, xs)" r] obtain moved ys r' where
    st: "shuffle_loop ?k shuffle_swap (False, xs) r = Some ((moved, ys), r')" by auto
  then have run: "Shuffle (int (length xs)) shuffle_swap (False, xs) r = Some ((moved, ys), r')"
    by (simp add: Shuffle_def)
  from shuffle_loop_mset [OF st k(1,3)] have m: "mset ys = mset xs" "\<not> moved \<longrightarrow> ys = xs" by auto
  have "distinct xs \<Longrightarrow> moved \<longleftrightarrow> ys \<noteq> xs" using shuffle_loop_spec [OF st _ k(1,3)] by simp
  with run m that show thesis by blast
qed

lemma RepeatShuffle_conforms:
  assumes "RepeatShuffle_CanApply c n" and "in_memory n"
  shows "ok (RepeatShuffle_Mutate c n r) (conforms n)"
proof -
  have rep: "isRepeat n" and len: "1 < length (Children n)" "int (length (Children n)) < 2 ^ 31"
    using assms by (auto simp: RepeatShuffle_CanApply_def in_memory_def)
  from Shuffle_run [OF len, of r] obtain moved ys r' where
    st: "Shuffle (int (length (Children n))) shuffle_swap (False, Children n) r = Some ((moved, ys), r')"
    "mset ys = mset (Children n)" "\<not> moved \<longrightarrow> ys = Children n" by metis
  have same: "set_kids (Children n) n = n" by (cases n) (simp add: set_kids_def)
  have "conforms n (moved, set_kids ys n, r')"
  proof (cases moved)
    case True
    with isRepeat_swap [OF rep st(2)] show ?thesis by simp
  qed (use st(3) same in simp)
  then show ?thesis by (simp add: RepeatShuffle_Mutate_def st(1))
qed

text \<open>A shuffle keeps the elements, and on elements that are distinct nodes it
  reports a change exactly when it made one.\<close>

lemma RepeatShuffle_exact:
  assumes "RepeatShuffle_CanApply c n" and "in_memory n" and "distinct (Children n)"
  shows "ok (RepeatShuffle_Mutate c n r) (\<lambda>(changed, n', r').
    mset (Children n') = mset (Children n) \<and> hdr n' = hdr n \<and> changed = (n' \<noteq> n))"
proof -
  have len: "1 < length (Children n)" "int (length (Children n)) < 2 ^ 31"
    using assms by (auto simp: RepeatShuffle_CanApply_def in_memory_def)
  from Shuffle_run [OF len, of r] obtain moved ys r' where
    st: "Shuffle (int (length (Children n))) shuffle_swap (False, Children n) r = Some ((moved, ys), r')"
    "mset ys = mset (Children n)" "distinct (Children n) \<Longrightarrow> moved \<longleftrightarrow> ys \<noteq> Children n" by metis
  have "set_kids ys n \<noteq> n \<longleftrightarrow> ys \<noteq> Children n" by (cases n) (auto simp: set_kids_def)
  with st assms(3) show ?thesis by (simp add: RepeatShuffle_Mutate_def set_kids_def)
qed

definition ex_seq :: node where
  "ex_seq = Node ((hdr (ex_leaf 0))\<lparr>Kind := KindRepeat, Raw := [], MinLen := 0, MaxLen := 0\<rparr>)
     [set_raw [1] (ex_leaf 0), set_raw [2] (ex_leaf 0)]"

lemma RepeatShuffle_exact_witness:
  "ok (RepeatShuffle_Mutate \<lparr>Dict = None, Donor = None, MaxBytes = 0, MaxChildren = 0\<rparr> ex_seq (New 1)) (\<lambda>(changed, n', r').
    mset (Children n') = mset (Children ex_seq) \<and> hdr n' = hdr ex_seq \<and> changed = (n' \<noteq> ex_seq))"
  by (rule RepeatShuffle_exact) code_simp+

end
