(* ===== verification/Mutate_Splice.thy ===== *)
theory Mutate_Splice
  imports Mutate_Struct
begin

text \<open>
  Crossover, \<open>pkg/mutate/splice.go\<close>: grafting a matching subtree of a donor, and
  copying bytes out of a donor's payload.
\<close>

section \<open>Choosing a node of the donor\<close>

text \<open>
  Reservoir sampling over the walk: the \<open>k\<close>-th candidate replaces the choice when a
  draw from \<open>[0, k)\<close> is zero. The state of the walk is the choice, the number
  of candidates seen and the stream.
\<close>

definition reservoir_step :: "(node \<Rightarrow> bool) \<Rightarrow> node \<Rightarrow> (node option \<times> nat \<times> rand) option \<Rightarrow>
    (node option \<times> nat \<times> rand) option" where
  "reservoir_step P x st = do {
     (chosen, seen, r) \<leftarrow> st;
     if P x then do {
       (k, r) \<leftarrow> Intn (int (seen + 1)) r;
       Some (if k = 0 then Some x else chosen, seen + 1, r)
     } else Some (chosen, seen, r)
   }"

definition reservoir :: "(node \<Rightarrow> bool) \<Rightarrow> node \<Rightarrow> rand \<Rightarrow> (node option \<times> rand) option" where
  "reservoir P donor r = do {
     (chosen, seen, r) \<leftarrow> Walk (\<lambda>x st. (True, reservoir_step P x st)) donor (Some (None, 0, r));
     Some (chosen, r)
   }"

definition pickMatching :: "node \<Rightarrow> node \<Rightarrow> rand \<Rightarrow> (node option \<times> rand) option" where
  "pickMatching donor want r =
     reservoir (\<lambda>x. Kind (hdr x) = Kind (hdr want) \<and> Name (hdr x) = Name (hdr want)) donor r"

definition pickPayload :: "node \<Rightarrow> rand \<Rightarrow> (node option \<times> rand) option" where
  "pickPayload donor r = reservoir isPayload donor r"

text \<open>It always chooses when there is a candidate, and only candidates.\<close>

lemma reservoir_fold:
  assumes "int (seen + length xs) < 2 ^ 62" and "(chosen = None) = (seen = 0)"
    and "\<forall>y. chosen = Some y \<longrightarrow> P y \<and> y \<in> U" and "set xs \<subseteq> U"
  shows "\<exists>chosen' seen' r'. fold (reservoir_step P) xs (Some (chosen, seen, r)) = Some (chosen', seen', r') \<and>
    (chosen' = None \<longleftrightarrow> seen = 0 \<and> filter P xs = []) \<and>
    (\<forall>y. chosen' = Some y \<longrightarrow> P y \<and> y \<in> U)"
  using assms
proof (induction xs arbitrary: chosen seen r)
  case (Cons x xs)
  show ?case
  proof (cases "P x")
    case True
    from Intn_ex [of "int (seen + 1)" r] Cons.prems(1) obtain k r1 where
      k: "Intn (int (seen + 1)) r = Some (k, r1)" "0 \<le> k" "k < int (seen + 1)" by auto
    let ?c = "if k = 0 then Some x else chosen"
    have step: "reservoir_step P x (Some (chosen, seen, r)) = Some (?c, seen + 1, r1)"
      using True k by (simp add: reservoir_step_def)
    have c: "(?c = None) = (seen + 1 = 0)" using k Cons.prems(2) by auto
    have y: "\<forall>y. ?c = Some y \<longrightarrow> P y \<and> y \<in> U" using True Cons.prems(3,4) by simp
    from Cons.IH [OF _ c y, of r1] Cons.prems(1,4) show ?thesis
      by (simp only: fold_Cons o_apply step) (use True in simp)
  next
    case False
    with Cons.IH [of seen chosen r] Cons.prems show ?thesis by (simp add: reservoir_step_def)
  qed
qed auto

lemma ok_reservoir:
  assumes "int (Count donor) < 2 ^ 47"
    and "\<And>chosen r'. (chosen = None) = (filter P (preorder donor) = []) \<Longrightarrow>
      (\<And>y. chosen = Some y \<Longrightarrow> P y \<and> y \<in> set (preorder donor)) \<Longrightarrow> Q (chosen, r')"
  shows "ok (reservoir P donor r) Q"
proof -
  have "int (0 + length (preorder donor)) < 2 ^ 62" using assms(1) by (simp add: Count_preorder)
  from reservoir_fold [OF this, of None P "set (preorder donor)" r]
  obtain chosen seen r' where f: "fold (reservoir_step P) (preorder donor) (Some (None, 0, r)) = Some (chosen, seen, r')"
    "(chosen = None) = (filter P (preorder donor) = [])"
    "\<forall>y. chosen = Some y \<longrightarrow> P y \<and> y \<in> set (preorder donor)" by auto
  from assms(2) [OF f(2)] f(3) show ?thesis by (simp add: reservoir_def Walk_preorder f(1))
qed

section \<open>The operators\<close>

definition graft :: "node \<Rightarrow> node \<Rightarrow> node" where
  "graft dst src = upd (\<lambda>h. h\<lparr>Name := Name (hdr dst)\<rparr>) (clone src)"

definition SpliceSubtree_CanApply :: "ctx \<Rightarrow> pos \<Rightarrow> node \<Rightarrow> bool" where
  "SpliceSubtree_CanApply c p n \<longleftrightarrow>
     Donor c \<noteq> None \<and> p \<noteq> [] \<and> \<not> Immutable (hdr n) \<and>
     Kind (hdr n) \<noteq> KindDerived \<and> Kind (hdr n) \<noteq> KindRef"

definition SpliceSubtree_Mutate :: "ctx \<Rightarrow> node \<Rightarrow> rand \<Rightarrow> outcome" where
  "SpliceSubtree_Mutate c n r =
     (case Donor c of
        None \<Rightarrow> Some (False, n, r)
      | Some donor \<Rightarrow> do {
          (chosen, r) \<leftarrow> pickMatching donor n r;
          case chosen of
            None \<Rightarrow> Some (False, n, r)
          | Some x \<Rightarrow>
              if Equal x n then Some (False, n, r)
              else if (Kind (hdr n) = KindBytes \<or> Kind (hdr n) = KindStr) \<and>
                      \<not> FitsLen (hdr n) (int (length (Raw (hdr x)))) then Some (False, n, r)
              else if Kind (hdr n) = KindRepeat \<and>
                      \<not> FitsLen (hdr n) (int (length (Children x))) then Some (False, n, r)
              else Some (True, graft n x, r)
        })"

definition SpliceBytes_CanApply :: "ctx \<Rightarrow> node \<Rightarrow> bool" where
  "SpliceBytes_CanApply c n \<longleftrightarrow> Donor c \<noteq> None \<and> isPayload n"

definition SpliceBytes_Mutate :: "ctx \<Rightarrow> node \<Rightarrow> rand \<Rightarrow> outcome" where
  "SpliceBytes_Mutate c n r =
     (case Donor c of
        None \<Rightarrow> Some (False, n, r)
      | Some donor \<Rightarrow> do {
          (chosen, r) \<leftarrow> pickPayload donor r;
          case chosen of
            None \<Rightarrow> Some (False, n, r)
          | Some src \<Rightarrow>
              if length (Raw (hdr src)) = 0 then Some (False, n, r)
              else do {
                (first, r) \<leftarrow> Intn (int (length (Raw (hdr src)))) r;
                (len, r) \<leftarrow> IntRange 1 (min (int (length (Raw (hdr src))) - first) 256) r;
                let (b, r) = Bool r;
                if b then do {
                  (start, r) \<leftarrow> Intn (int (length (Raw (hdr n)))) r;
                  let len = min len (int (length (Raw (hdr n))) - start);
                  if len = 0 then Some (False, n, r)
                  else do {
                    run \<leftarrow> slice_of (Raw (hdr src)) first (first + len);
                    raw \<leftarrow> copy_at (Raw (hdr n)) start run;
                    Some (True, set_raw raw n, r)
                  }
                }
                else do {
                  let len = min len (canGrow c n);
                  if len \<le> 0 then Some (False, n, r)
                  else do {
                    (start, r) \<leftarrow> Intn (int (length (Raw (hdr n))) + 1) r;
                    raw \<leftarrow> insertRun (Raw (hdr n)) start len 0;
                    run \<leftarrow> slice_of (Raw (hdr src)) first (first + len);
                    raw \<leftarrow> copy_at raw start run;
                    Some (True, set_raw raw n, r)
                  }
                }
              }
        })"

text \<open>A donor is a valid tree that fits in memory.\<close>

definition donor_ok :: "ctx \<Rightarrow> bool" where
  "donor_ok c \<longleftrightarrow> (case Donor c of None \<Rightarrow> True
     | Some d \<Rightarrow> valid d \<and> int (Count d) < 2 ^ 47 \<and> list_all fits_memory (preorder d))"

lemma valid_preorder: "valid n \<Longrightarrow> m \<in> set (preorder n) \<Longrightarrow> valid m"
proof (induction n)
  case (Node h cs)
  then show ?case by (auto simp: list_all_iff)
qed

lemma graft_same: "Name (hdr x) = Name (hdr n) \<Longrightarrow> graft n x = clone x"
  by (cases x) (simp add: graft_def upd_def unshare_def)

lemma SpliceSubtree_conforms:
  assumes "SpliceSubtree_CanApply c p n" and "donor_ok c"
  shows "ok (SpliceSubtree_Mutate c n r) (\<lambda>out. conforms n out \<and> truthful n out)"
proof (cases "Donor c")
  case (Some donor)
  with assms(2) have d: "valid donor" "int (Count donor) < 2 ^ 47" by (auto simp: donor_ok_def)
  have graft: "conforms n (True, graft n x, r') \<and> truthful n (True, graft n x, r')"
    if x: "x \<in> set (preorder donor)" "Kind (hdr x) = Kind (hdr n)" "Name (hdr x) = Name (hdr n)" "\<not> Equal x n" for x r'
  proof
    have g: "graft n x = clone x" using x(3) by (rule graft_same)
    have "valid x" using valid_preorder [OF d(1) x(1)] .
    then show "conforms n (True, graft n x, r')" using x(2,3) by (simp add: conforms_def g)
    have "clone x \<noteq> n" using x(4) clone_Equal [of x] Equal_sym by metis
    then show "truthful n (True, graft n x, r')" by (simp add: truthful_def g)
  qed
  show ?thesis
    unfolding SpliceSubtree_Mutate_def Some option.case pickMatching_def
  proof (intro wp ok_reservoir [OF d(2)])
    fix chosen r'
    assume y: "\<And>y. chosen = Some y \<Longrightarrow> (Kind (hdr y) = Kind (hdr n) \<and> Name (hdr y) = Name (hdr n)) \<and> y \<in> set (preorder donor)"
    show "ok (case chosen of None \<Rightarrow> Some (False, n, r')
          | Some x \<Rightarrow>
              if Equal x n then Some (False, n, r')
              else if (Kind (hdr n) = KindBytes \<or> Kind (hdr n) = KindStr) \<and>
                      \<not> FitsLen (hdr n) (int (length (Raw (hdr x)))) then Some (False, n, r')
              else if Kind (hdr n) = KindRepeat \<and>
                      \<not> FitsLen (hdr n) (int (length (Children x))) then Some (False, n, r')
              else Some (True, graft n x, r')) (\<lambda>out. conforms n out \<and> truthful n out)"
      using y graft by (cases chosen) auto
  qed
qed (simp add: SpliceSubtree_Mutate_def)

lemma SpliceBytes_conforms:
  assumes "SpliceBytes_CanApply c n" and "in_memory n" and "donor_ok c"
  shows "ok (SpliceBytes_Mutate c n r) (conforms n)"
proof -
  have p: "isPayload n" using assms(1) by (simp add: SpliceBytes_CanApply_def)
  note len = payload_length [OF p assms(2)]
  let ?raw = "Raw (hdr n)"
  from assms(1) obtain donor where donor: "Donor c = Some donor" by (auto simp: SpliceBytes_CanApply_def)
  with assms(3) have d: "int (Count donor) < 2 ^ 47" "list_all fits_memory (preorder donor)" by (auto simp: donor_ok_def)
  have over: "conforms n (True, set_raw (overwrite (nat k) (take (length ?raw - nat k) run) ?raw) n, r')"
    if "0 \<le> k" "k < int (length ?raw)" for k run r'
    using len that by (intro conforms_same_length) (simp_all add: nat_le_iff)
  have ins: "conforms n (True, set_raw (overwrite (nat k) (take (length (insert_at (nat k) (replicate (nat l) 0) ?raw) - nat k)
      run) (insert_at (nat k) (replicate (nat l) 0) ?raw)) n, r')"
    if "0 \<le> k" "k < int (length ?raw) + 1" "0 < l" "l \<le> canGrow c n" for k l run r'
  proof (rule conforms_insert [where c = c and k = l and start = "nat k"])
    let ?gap = "insert_at (nat k) (replicate (nat l) 0) ?raw"
    have "length ?gap = length ?raw + nat l" "nat k \<le> length ?gap" using that by simp_all
    from length_copy [OF this(2), of run] this(1)
    show "length (overwrite (nat k) (take (length ?gap - nat k) run) ?gap) = length ?raw + nat l" by (simp only:)
  qed (use that len in auto)
  show ?thesis
    unfolding SpliceBytes_Mutate_def donor option.case pickPayload_def
  proof (intro ok_bind ok_reservoir [OF d(1)] ok_pair, goal_cases)
    case (1 chosen r1)
    show ?case
    proof (cases chosen)
      case (Some src)
      with 1(2) have "isPayload src" "src \<in> set (preorder donor)" by auto
      with d(2) have src: "int (length (Raw (hdr src))) < 2 ^ 47" by (auto simp: list_all_iff fits_memory_def)
      show ?thesis
        unfolding Some option.case Let_def
        by (intro wp over ins) (use len src canGrow_bound [of c n] in auto)
    qed simp
  qed
qed

end
