(* ===== verification/Mutate_Ops.thy ===== *)
theory Mutate_Ops
  imports Mutate_Dict Mutate_Splice
begin

text \<open>
  The interface \<open>Mutator\<close> of \<open>pkg/mutate/mutate.go\<close> and the list \<open>All\<close> of its
  implementations. An interface value is a constructor of \<open>op\<close>; a method call is a
  dispatch on it. The contract of the interface is a locale, and the operators
  of the package are shown to meet it.
\<close>

datatype op =
    BitFlip | ByteFlip | Arith | Interesting | RandomByte
  | InsertBytes | DeleteBytes | CopyBytes | SetBlock
  | IntArith | IntInteresting | IntRandom | IntBitFlip
  | ChoiceSwitch | OptToggle
  | RepeatInsert | RepeatDelete | RepeatDuplicate | RepeatSwap | RepeatShuffle
  | DictOverwrite | DictInsert
  | SpliceSubtree | SpliceBytes

definition All :: "op list" where
  "All = [BitFlip, ByteFlip, Arith, Interesting, RandomByte,
          InsertBytes, DeleteBytes, CopyBytes, SetBlock,
          IntArith, IntInteresting, IntRandom, IntBitFlip,
          ChoiceSwitch, OptToggle,
          RepeatInsert, RepeatDelete, RepeatDuplicate, RepeatSwap, RepeatShuffle,
          DictOverwrite, DictInsert,
          SpliceSubtree, SpliceBytes]"

fun op_Name :: "op \<Rightarrow> string" where
  "op_Name BitFlip = ''bitflip''"
| "op_Name ByteFlip = ''byteflip''"
| "op_Name Arith = ''arith''"
| "op_Name Interesting = ''interesting''"
| "op_Name RandomByte = ''randbyte''"
| "op_Name InsertBytes = ''insert''"
| "op_Name DeleteBytes = ''delete''"
| "op_Name CopyBytes = ''copy''"
| "op_Name SetBlock = ''setblock''"
| "op_Name IntArith = ''int-arith''"
| "op_Name IntInteresting = ''int-interesting''"
| "op_Name IntRandom = ''int-random''"
| "op_Name IntBitFlip = ''int-bitflip''"
| "op_Name ChoiceSwitch = ''choice-switch''"
| "op_Name OptToggle = ''opt-toggle''"
| "op_Name RepeatInsert = ''repeat-insert''"
| "op_Name RepeatDelete = ''repeat-delete''"
| "op_Name RepeatDuplicate = ''repeat-duplicate''"
| "op_Name RepeatSwap = ''repeat-swap''"
| "op_Name RepeatShuffle = ''repeat-shuffle''"
| "op_Name DictOverwrite = ''dict-overwrite''"
| "op_Name DictInsert = ''dict-insert''"
| "op_Name SpliceSubtree = ''splice-subtree''"
| "op_Name SpliceBytes = ''splice-bytes''"

fun KindOf :: "op \<Rightarrow> mkind" where
  "KindOf BitFlip = KindByte" | "KindOf ByteFlip = KindByte" | "KindOf Arith = KindByte"
| "KindOf Interesting = KindByte" | "KindOf RandomByte = KindByte"
| "KindOf InsertBytes = KindByte" | "KindOf DeleteBytes = KindByte"
| "KindOf CopyBytes = KindByte" | "KindOf SetBlock = KindByte"
| "KindOf IntArith = KindStructural" | "KindOf IntInteresting = KindStructural"
| "KindOf IntRandom = KindStructural" | "KindOf IntBitFlip = KindStructural"
| "KindOf ChoiceSwitch = KindStructural" | "KindOf OptToggle = KindStructural"
| "KindOf RepeatInsert = KindStructural" | "KindOf RepeatDelete = KindStructural"
| "KindOf RepeatDuplicate = KindStructural" | "KindOf RepeatSwap = KindStructural"
| "KindOf RepeatShuffle = KindStructural"
| "KindOf DictOverwrite = KindDictionary" | "KindOf DictInsert = KindDictionary"
| "KindOf SpliceSubtree = KindSplice" | "KindOf SpliceBytes = KindSplice"

fun CanApply :: "op \<Rightarrow> ctx \<Rightarrow> pos \<Rightarrow> node \<Rightarrow> bool" where
  "CanApply BitFlip c p n = BitFlip_CanApply c n"
| "CanApply ByteFlip c p n = ByteFlip_CanApply c n"
| "CanApply Arith c p n = Arith_CanApply c n"
| "CanApply Interesting c p n = Interesting_CanApply c n"
| "CanApply RandomByte c p n = RandomByte_CanApply c n"
| "CanApply InsertBytes c p n = InsertBytes_CanApply c n"
| "CanApply DeleteBytes c p n = DeleteBytes_CanApply c n"
| "CanApply CopyBytes c p n = CopyBytes_CanApply c n"
| "CanApply SetBlock c p n = SetBlock_CanApply c n"
| "CanApply IntArith c p n = IntArith_CanApply c n"
| "CanApply IntInteresting c p n = IntInteresting_CanApply c n"
| "CanApply IntRandom c p n = IntRandom_CanApply c n"
| "CanApply IntBitFlip c p n = IntBitFlip_CanApply c n"
| "CanApply ChoiceSwitch c p n = ChoiceSwitch_CanApply c n"
| "CanApply OptToggle c p n = OptToggle_CanApply c n"
| "CanApply RepeatInsert c p n = RepeatInsert_CanApply c n"
| "CanApply RepeatDelete c p n = RepeatDelete_CanApply c n"
| "CanApply RepeatDuplicate c p n = RepeatDuplicate_CanApply c n"
| "CanApply RepeatSwap c p n = RepeatSwap_CanApply c n"
| "CanApply RepeatShuffle c p n = RepeatShuffle_CanApply c n"
| "CanApply DictOverwrite c p n = DictOverwrite_CanApply c n"
| "CanApply DictInsert c p n = DictInsert_CanApply c n"
| "CanApply SpliceSubtree c p n = SpliceSubtree_CanApply c p n"
| "CanApply SpliceBytes c p n = SpliceBytes_CanApply c n"

fun Mutate :: "op \<Rightarrow> ctx \<Rightarrow> node \<Rightarrow> rand \<Rightarrow> outcome" where
  "Mutate BitFlip c n r = BitFlip_Mutate c n r"
| "Mutate ByteFlip c n r = ByteFlip_Mutate c n r"
| "Mutate Arith c n r = Arith_Mutate c n r"
| "Mutate Interesting c n r = Interesting_Mutate c n r"
| "Mutate RandomByte c n r = RandomByte_Mutate c n r"
| "Mutate InsertBytes c n r = InsertBytes_Mutate c n r"
| "Mutate DeleteBytes c n r = DeleteBytes_Mutate c n r"
| "Mutate CopyBytes c n r = CopyBytes_Mutate c n r"
| "Mutate SetBlock c n r = SetBlock_Mutate c n r"
| "Mutate IntArith c n r = IntArith_Mutate c n r"
| "Mutate IntInteresting c n r = IntInteresting_Mutate c n r"
| "Mutate IntRandom c n r = IntRandom_Mutate c n r"
| "Mutate IntBitFlip c n r = IntBitFlip_Mutate c n r"
| "Mutate ChoiceSwitch c n r = ChoiceSwitch_Mutate c n r"
| "Mutate OptToggle c n r = OptToggle_Mutate c n r"
| "Mutate RepeatInsert c n r = RepeatInsert_Mutate c n r"
| "Mutate RepeatDelete c n r = RepeatDelete_Mutate c n r"
| "Mutate RepeatDuplicate c n r = RepeatDuplicate_Mutate c n r"
| "Mutate RepeatSwap c n r = RepeatSwap_Mutate c n r"
| "Mutate RepeatShuffle c n r = RepeatShuffle_Mutate c n r"
| "Mutate DictOverwrite c n r = DictOverwrite_Mutate c n r"
| "Mutate DictInsert c n r = DictInsert_Mutate c n r"
| "Mutate SpliceSubtree c n r = SpliceSubtree_Mutate c n r"
| "Mutate SpliceBytes c n r = SpliceBytes_Mutate c n r"

section \<open>The contract\<close>

definition ctx_ok :: "ctx \<Rightarrow> bool" where
  "ctx_ok c \<longleftrightarrow> dict_ok (Dict c) \<and> donor_ok c"

text \<open>
  What a client of the interface may rely on: an operator that accepts a valid
  node returns (it does not panic), and conforms.
\<close>

locale mutators =
  fixes can :: "'op \<Rightarrow> ctx \<Rightarrow> pos \<Rightarrow> node \<Rightarrow> bool"
    and mut :: "'op \<Rightarrow> ctx \<Rightarrow> node \<Rightarrow> rand \<Rightarrow> outcome"
  assumes mut_ok: "can m c p n \<Longrightarrow> ctx_ok c \<Longrightarrow> valid n \<Longrightarrow> in_memory n \<Longrightarrow> ok (mut m c n r) (conforms n)"
begin

lemma returns: "can m c p n \<Longrightarrow> ctx_ok c \<Longrightarrow> valid n \<Longrightarrow> in_memory n \<Longrightarrow> mut m c n r \<noteq> None"
  using mut_ok ok_not_None by blast

lemma keeps_valid:
  assumes "can m c p n" "ctx_ok c" "valid n" "in_memory n" and "mut m c n r = Some (changed, n', r')"
  shows "valid n' \<and> Kind (hdr n') = Kind (hdr n) \<and> Name (hdr n') = Name (hdr n) \<and> (\<not> changed \<longrightarrow> n' = n)"
  using okD [OF mut_ok [OF assms(1-4)] assms(5)] assms(3) by (simp add: conforms_def)

end

lemma weaken: "ok m (\<lambda>out. P out \<and> Q out) \<Longrightarrow> ok m P"
  by (erule ok_mono) simp

lemma RandomByte_weaken: "RandomByte_CanApply c n \<Longrightarrow> in_memory n \<Longrightarrow> ok (RandomByte_Mutate c n r) (conforms n)"
  by (rule ok_mono [OF RandomByte_conforms]) auto

lemma RepeatSwap_weaken: "RepeatSwap_CanApply c n \<Longrightarrow> in_memory n \<Longrightarrow> ok (RepeatSwap_Mutate c n r) (conforms n)"
  by (rule ok_mono [OF RepeatSwap_conforms]) auto

lemma op_conforms:
  "CanApply m c p n \<Longrightarrow> ctx_ok c \<Longrightarrow> valid n \<Longrightarrow> in_memory n \<Longrightarrow> ok (Mutate m c n r) (conforms n)"
  unfolding ctx_ok_def
  by (cases m) (simp_all add: weaken [OF BitFlip_conforms] weaken [OF ByteFlip_conforms] weaken [OF Arith_conforms]
      Interesting_conforms RandomByte_weaken weaken [OF InsertBytes_conforms] weaken [OF DeleteBytes_conforms]
      CopyBytes_conforms SetBlock_conforms weaken [OF IntArith_conforms] weaken [OF IntInteresting_conforms]
      weaken [OF IntRandom_conforms] weaken [OF IntBitFlip_conforms] IntBitFlip_CanApply_def
      weaken [OF ChoiceSwitch_conforms] weaken [OF OptToggle_conforms] weaken [OF RepeatInsert_conforms]
      weaken [OF RepeatDelete_conforms] weaken [OF RepeatDuplicate_conforms] RepeatSwap_weaken
      RepeatShuffle_conforms DictOverwrite_conforms weaken [OF DictInsert_conforms]
      weaken [OF SpliceSubtree_conforms] SpliceBytes_conforms)

interpretation ops: mutators CanApply Mutate
  by unfold_locales (rule op_conforms)


text \<open>Operators that never report a change they did not make.\<close>

definition exact :: "op \<Rightarrow> bool" where
  "exact m \<longleftrightarrow> m \<notin> {Interesting, SetBlock, CopyBytes, RepeatSwap, RepeatShuffle, DictOverwrite, SpliceBytes}"

lemma strengthen: "ok m (\<lambda>out. P out \<and> Q out) \<Longrightarrow> ok m Q"
  by (erule ok_mono) simp

lemma RandomByte_truthful: "RandomByte_CanApply c n \<Longrightarrow> in_memory n \<Longrightarrow> ok (RandomByte_Mutate c n r) (truthful n)"
  by (rule ok_mono [OF RandomByte_conforms]) auto

text \<open>Operators other than those that overwrite with chosen bytes report a change only
  when they made one, which is what per-operator accounting relies on.\<close>

lemma Mutate_truthful:
  assumes "exact m" and "CanApply m c p n" and "ctx_ok c" and "valid n" and "in_memory n"
    and "Mutate m c n r = Some (changed, n', r')"
  shows "changed = (n' \<noteq> n)"
proof -
  have "ok (Mutate m c n r) (truthful n)"
    using assms(1-5) unfolding ctx_ok_def exact_def
    by (cases m) (simp_all add: strengthen [OF BitFlip_conforms] strengthen [OF ByteFlip_conforms]
        strengthen [OF Arith_conforms] RandomByte_truthful strengthen [OF InsertBytes_conforms]
        strengthen [OF DeleteBytes_conforms] strengthen [OF IntArith_conforms] strengthen [OF IntInteresting_conforms]
        strengthen [OF IntRandom_conforms] strengthen [OF IntBitFlip_conforms] IntBitFlip_CanApply_def
        strengthen [OF ChoiceSwitch_conforms] strengthen [OF OptToggle_conforms] strengthen [OF RepeatInsert_conforms]
        strengthen [OF RepeatDelete_conforms] strengthen [OF RepeatDuplicate_conforms]
        strengthen [OF DictInsert_conforms] strengthen [OF SpliceSubtree_conforms])
  from okD [OF this assms(6)] okD [OF op_conforms [OF assms(2-5)] assms(6)]
  show ?thesis by (auto simp: truthful_def conforms_def)
qed

definition ex_ctx :: ctx where
  "ex_ctx = \<lparr>Dict = None, Donor = None, MaxBytes = 0, MaxChildren = 0\<rparr>"

lemma ex_ctx_ok: "ctx_ok ex_ctx"
  by (simp add: ctx_ok_def ex_ctx_def dict_ok_def Dict_Len_def donor_ok_def)

lemma ex_leaf_ok: "valid (ex_leaf 0)" "in_memory (ex_leaf 0)" "CanApply DeleteBytes ex_ctx [0] (ex_leaf 0)"
  by code_simp+



text \<open>A valid empty sequence with a negative minimum is accepted by the operator that deletes an
  element, which then draws an index below zero elements.\<close>

definition ex_negative :: node where
  "ex_negative = Node ((hdr (ex_leaf 0))\<lparr>Kind := KindRepeat, Raw := [], MinLen := - 1, MaxLen := 0\<rparr>) []"

lemma negative_minimum_panics:
  "valid ex_negative \<and> fits_memory ex_negative \<and> CanApply RepeatDelete ex_ctx [] ex_negative \<and>
   Mutate RepeatDelete ex_ctx ex_negative r = None"
proof -
  have "valid ex_negative" "fits_memory ex_negative" "CanApply RepeatDelete ex_ctx [] ex_negative" by code_simp+
  moreover have "Mutate RepeatDelete ex_ctx ex_negative r = None"
    by (simp add: RepeatDelete_Mutate_def ex_negative_def Intn_def)
  ultimately show ?thesis by blast
qed

lemma Mutate_truthful_witness:
  "\<exists>changed n' r'. Mutate DeleteBytes ex_ctx (ex_leaf 0) (New 3) = Some (changed, n', r') \<and>
     changed = (n' \<noteq> ex_leaf 0)"
proof -
  have ex: "exact DeleteBytes" by (simp add: exact_def)
  from ops.returns [OF ex_leaf_ok(3) ex_ctx_ok ex_leaf_ok(1,2)] obtain changed n' r' where
    m: "Mutate DeleteBytes ex_ctx (ex_leaf 0) (New 3) = Some (changed, n', r')" by (metis prod_cases3 not_None_eq)
  from Mutate_truthful [OF ex ex_leaf_ok(3) ex_ctx_ok ex_leaf_ok(1,2) m] m show ?thesis by blast
qed

end
