(* ===== verification/Mutate_Frame.thy ===== *)
theory Mutate_Frame
  imports Mutate_Ops
begin

text \<open>
  Drawing from a stream moves its counter and leaves its base alone: a stream
  is always its seed and a position. \<open>safe m Q\<close> says that \<open>Q\<close> holds of the result
  of \<open>m\<close> if there is one; the rules of \<open>frame\<close> walk a \<open>do\<close> block without
  asking that its indices be in range.
\<close>

definition safe :: "'a option \<Rightarrow> ('a \<Rightarrow> bool) \<Rightarrow> bool" where
  "safe m Q \<longleftrightarrow> (case m of None \<Rightarrow> True | Some a \<Rightarrow> Q a)"

named_theorems frame \<open>what holds of a result, if there is one\<close>

lemma safeI: "(\<And>a. m = Some a \<Longrightarrow> Q a) \<Longrightarrow> safe m Q"
  by (simp add: safe_def split: option.split)

lemma safeD: "safe m Q \<Longrightarrow> m = Some a \<Longrightarrow> Q a"
  by (simp add: safe_def)

lemma safe_any: "(\<And>a. Q a) \<Longrightarrow> safe m Q"
  by (simp add: safe_def split: option.split)

lemma safe_bind [frame]: "safe m (\<lambda>a. safe (f a) Q) \<Longrightarrow> safe (m \<bind> f) Q"
  by (cases m) (simp_all add: safe_def)

lemma safe_Some [frame]: "Q a \<Longrightarrow> safe (Some a) Q"
  by (simp add: safe_def)

lemma safe_None [frame]: "safe None Q"
  by (simp add: safe_def)

lemma safe_if [frame]: "(b \<Longrightarrow> safe m Q) \<Longrightarrow> (\<not> b \<Longrightarrow> safe k Q) \<Longrightarrow> safe (if b then m else k) Q"
  by simp

lemma safe_case_prod: "(\<And>a b. x = (a, b) \<Longrightarrow> safe (f a b) Q) \<Longrightarrow> safe (case x of (a, b) \<Rightarrow> f a b) Q"
  by (cases x) simp

lemma safe_option [frame]:
  "(x = None \<Longrightarrow> safe m Q) \<Longrightarrow> (\<And>a. x = Some a \<Longrightarrow> safe (f a) Q) \<Longrightarrow>
   safe (case x of None \<Rightarrow> m | Some a \<Rightarrow> f a) Q"
  by (cases x) simp_all

lemmas safe_slices [frame] =
  safe_any [of _ "get_at xs i" for xs i] safe_any [of _ "set_at xs i x" for xs i x]
  safe_any [of _ "slice_of xs a b" for xs a b] safe_any [of _ "copy_at xs a b" for xs a b]
  safe_any [of _ "for_upto k f x" for k f x]
  safe_any [of _ "insertRun b s k f" for b s k f] safe_any [of _ "writeInt b s k f" for b s k f]
  safe_any [of _ "ReadInt b s k f" for b s k f] safe_any [of _ "putInt b s k f" for b s k f]
  safe_any [of _ "write_window b s k f e" for b s k f e]
  safe_any [of _ "insertChild b s k" for b s k]

text \<open>Drawing moves the counter of a stream and leaves its base.\<close>

lemma safe_pair [frame]: "safe (f a b) Q \<Longrightarrow> safe (case (a, b) of (x, y) \<Rightarrow> f x y) Q"
  by simp

lemma safe_Intn [frame]: "(\<And>v r'. base r' = base r \<Longrightarrow> Q (v, r')) \<Longrightarrow> safe (Intn n r) Q"
  by (rule safeI) (auto simp: Intn_def split_beta split: if_splits)

lemma safe_Uint64 [frame]: "(\<And>v r'. base r' = base r \<Longrightarrow> safe (f v r') Q) \<Longrightarrow> safe (case Uint64 r of (v, r) \<Rightarrow> f v r) Q"
  by (simp add: Uint64_eq)

lemma safe_Byte [frame]: "(\<And>v r'. base r' = base r \<Longrightarrow> safe (f v r') Q) \<Longrightarrow> safe (case Byte r of (v, r) \<Rightarrow> f v r) Q"
  by (simp add: Byte_def Uint64_eq)

lemma safe_Byte' [frame]: "(\<And>v r'. base r' = base r \<Longrightarrow> Q (v, r')) \<Longrightarrow> safe (Some (Byte r)) Q"
  by (simp add: Byte_def Uint64_eq safe_def)

lemma safe_Bool [frame]: "(\<And>v r'. base r' = base r \<Longrightarrow> safe (f v r') Q) \<Longrightarrow> safe (case Bool r of (v, r) \<Rightarrow> f v r) Q"
  by (simp add: Bool_def Uint64_eq)

lemma safe_pick_endian [frame]: "(\<And>v r'. base r' = base r \<Longrightarrow> safe (f v r') Q) \<Longrightarrow> safe (case pick_endian r of (v, r) \<Rightarrow> f v r) Q"
  by (simp add: pick_endian_def Bool_def Uint64_eq)

lemma safe_IntRange [frame]: "(\<And>v r'. base r' = base r \<Longrightarrow> Q (v, r')) \<Longrightarrow> safe (IntRange lo hi r) Q"
  unfolding IntRange_def Let_def by (intro frame) auto

lemma safe_pick_width [frame]: "(\<And>v r'. base r' = base r \<Longrightarrow> Q (v, r')) \<Longrightarrow> safe (pick_width r) Q"
  unfolding pick_width_def Let_def by (intro frame) auto

lemma safe_pick_delta [frame]: "(\<And>v r'. base r' = base r \<Longrightarrow> Q (v, r')) \<Longrightarrow> safe (pick_delta r) Q"
  unfolding pick_delta_def Let_def by (intro frame) auto

lemma safe_Dict_Token [frame]: "(\<And>v r'. base r' = base r \<Longrightarrow> Q (v, r')) \<Longrightarrow> safe (Dict_Token d r) Q"
  unfolding Dict_Token_def Let_def by (intro frame safe_any [of _ d]) auto

lemma safe_shuffle_loop:
  "safe (shuffle_loop k f s r) (\<lambda>(t, r'). base r' = base r)"
proof (induction k arbitrary: s r)
  case (Suc k)
  have "safe (shuffle_loop k f (f (Suc k) (nat v) s) r') (\<lambda>(t, r''). base r'' = base r)" if "base r' = base r" for v r'
    using Suc.IH [of "f (Suc k) (nat v) s" r'] that by simp
  then show ?case unfolding shuffle_loop.simps by (intro frame) simp
qed (simp add: safe_def)

lemma safe_Shuffle [frame]:
  "(\<And>t r'. base r' = base r \<Longrightarrow> Q (t, r')) \<Longrightarrow> safe (Shuffle n f s r) Q"
  using safe_shuffle_loop [of "nat (n - 1)" f s r] by (auto simp: Shuffle_def safe_def split: option.splits)

lemma safe_reservoir [frame]:
  assumes "\<And>x r'. base r' = base r \<Longrightarrow> Q (x, r')"
  shows "safe (reservoir P d r) Q"
proof -
  have step: "safe (reservoir_step P x st) (\<lambda>(c, k, r'). base r' = b)" if h: "safe st (\<lambda>(c, k, r'). base r' = b)" for x st b
  proof (cases st)
    case (Some a)
    then obtain ch k q where st: "st = Some (ch, k, q)" "base q = b" using h Some by (cases a) (auto simp: safe_def)
    show ?thesis unfolding reservoir_step_def st(1) by (intro frame) (auto simp: st(2) safe_def)
  qed (simp add: reservoir_step_def safe_def)
  have "safe (fold (reservoir_step P) xs st) (\<lambda>(c, k, r'). base r' = b)"
    if "safe st (\<lambda>(c, k, r'). base r' = b)" for xs st b
    using that by (induction xs arbitrary: st) (auto intro: step)
  from this [of "Some (None, 0, r)" "base r" "preorder d"]
  have "safe (Walk (\<lambda>x st. (True, reservoir_step P x st)) d (Some (None, 0, r))) (\<lambda>(c, k, r'). base r' = base r)"
    by (simp add: Walk_preorder safe_def)
  then show ?thesis
    unfolding reservoir_def using assms by (intro frame) (auto simp: safe_def split: option.splits)
qed

lemma BitFlip_base: "safe (BitFlip_Mutate c n r) (\<lambda>(ch, n', r'). base r' = base r)"
  unfolding BitFlip_Mutate_def Let_def by (intro frame) auto
lemma ByteFlip_base: "safe (ByteFlip_Mutate c n r) (\<lambda>(ch, n', r'). base r' = base r)"
  unfolding ByteFlip_Mutate_def Let_def by (intro frame) auto
lemma Arith_base: "safe (Arith_Mutate c n r) (\<lambda>(ch, n', r'). base r' = base r)"
  unfolding Arith_Mutate_def Let_def by (intro frame) auto
lemma Interesting_base: "safe (Interesting_Mutate c n r) (\<lambda>(ch, n', r'). base r' = base r)"
  unfolding Interesting_Mutate_def Let_def by (intro frame) auto
lemma RandomByte_base: "safe (RandomByte_Mutate c n r) (\<lambda>(ch, n', r'). base r' = base r)"
  unfolding RandomByte_Mutate_def Let_def by (intro frame) auto
lemma InsertBytes_base: "safe (InsertBytes_Mutate c n r) (\<lambda>(ch, n', r'). base r' = base r)"
  unfolding InsertBytes_Mutate_def Let_def by (intro frame) auto
lemma DeleteBytes_base: "safe (DeleteBytes_Mutate c n r) (\<lambda>(ch, n', r'). base r' = base r)"
  unfolding DeleteBytes_Mutate_def Let_def by (intro frame) auto
lemma CopyBytes_base: "safe (CopyBytes_Mutate c n r) (\<lambda>(ch, n', r'). base r' = base r)"
  unfolding CopyBytes_Mutate_def Let_def by (intro frame) auto
lemma SetBlock_base: "safe (SetBlock_Mutate c n r) (\<lambda>(ch, n', r'). base r' = base r)"
  unfolding SetBlock_Mutate_def Let_def by (intro frame) auto
lemma IntArith_base: "safe (IntArith_Mutate c n r) (\<lambda>(ch, n', r'). base r' = base r)"
  unfolding IntArith_Mutate_def Let_def by (intro frame) auto
lemma IntInteresting_base: "safe (IntInteresting_Mutate c n r) (\<lambda>(ch, n', r'). base r' = base r)"
  unfolding IntInteresting_Mutate_def Let_def by (intro frame) auto
lemma IntRandom_base: "safe (IntRandom_Mutate c n r) (\<lambda>(ch, n', r'). base r' = base r)"
  unfolding IntRandom_Mutate_def Let_def by (intro frame) auto
lemma IntBitFlip_base: "safe (IntBitFlip_Mutate c n r) (\<lambda>(ch, n', r'). base r' = base r)"
  unfolding IntBitFlip_Mutate_def Let_def by (intro frame) auto
lemma ChoiceSwitch_base: "safe (ChoiceSwitch_Mutate c n r) (\<lambda>(ch, n', r'). base r' = base r)"
  unfolding ChoiceSwitch_Mutate_def Let_def by (intro frame) auto
lemma OptToggle_base: "safe (OptToggle_Mutate c n r) (\<lambda>(ch, n', r'). base r' = base r)"
  unfolding OptToggle_Mutate_def Let_def by (intro frame) auto
lemma RepeatInsert_base: "safe (RepeatInsert_Mutate c n r) (\<lambda>(ch, n', r'). base r' = base r)"
  unfolding RepeatInsert_Mutate_def Let_def by (intro frame) auto
lemma RepeatDelete_base: "safe (RepeatDelete_Mutate c n r) (\<lambda>(ch, n', r'). base r' = base r)"
  unfolding RepeatDelete_Mutate_def Let_def by (intro frame) auto
lemma RepeatDuplicate_base: "safe (RepeatDuplicate_Mutate c n r) (\<lambda>(ch, n', r'). base r' = base r)"
  unfolding RepeatDuplicate_Mutate_def Let_def by (intro frame) auto
lemma RepeatSwap_base: "safe (RepeatSwap_Mutate c n r) (\<lambda>(ch, n', r'). base r' = base r)"
  unfolding RepeatSwap_Mutate_def Let_def by (intro frame) auto
lemma DictOverwrite_base: "safe (DictOverwrite_Mutate c n r) (\<lambda>(ch, n', r'). base r' = base r)"
  unfolding DictOverwrite_Mutate_def Let_def by (intro frame) auto
lemma DictInsert_base: "safe (DictInsert_Mutate c n r) (\<lambda>(ch, n', r'). base r' = base r)"
  unfolding DictInsert_Mutate_def Let_def by (intro frame) auto
lemma RepeatShuffle_base: "safe (RepeatShuffle_Mutate c n r) (\<lambda>(ch, n', r'). base r' = base r)"
  unfolding RepeatShuffle_Mutate_def Let_def by (intro frame) (auto simp: safe_def)

lemma SpliceSubtree_base: "safe (SpliceSubtree_Mutate c n r) (\<lambda>(ch, n', r'). base r' = base r)"
  unfolding SpliceSubtree_Mutate_def pickMatching_def by (intro frame) auto

lemma SpliceBytes_base: "safe (SpliceBytes_Mutate c n r) (\<lambda>(ch, n', r'). base r' = base r)"
  unfolding SpliceBytes_Mutate_def pickPayload_def Let_def by (intro frame) auto

lemma Mutate_base:
  assumes "Mutate m c n r = Some (ch, n', r')"
  shows "base r' = base r"
proof -
  have "safe (Mutate m c n r) (\<lambda>(ch, n', r'). base r' = base r)"
    by (cases m) (simp_all only: Mutate.simps BitFlip_base ByteFlip_base Arith_base Interesting_base
        RandomByte_base InsertBytes_base DeleteBytes_base CopyBytes_base SetBlock_base IntArith_base
        IntInteresting_base IntRandom_base IntBitFlip_base ChoiceSwitch_base OptToggle_base
        RepeatInsert_base RepeatDelete_base RepeatDuplicate_base RepeatSwap_base RepeatShuffle_base
        DictOverwrite_base DictInsert_base SpliceSubtree_base SpliceBytes_base)
  from safeD [OF this assms] show ?thesis by simp
qed

end
