(* ===== verification/Index_Map.thy ===== *)
theory Index_Map
  imports Prelude
begin

text \<open>
  A slice with a map from keys to the positions that hold them, the shape of
  the operator table of the mutation scheduler, of the corpus and of the state
  model: \<open>indexed key xs idx\<close> says that the map finds exactly the elements of the
  slice, so that no key occurs twice.
\<close>

definition indexed :: "('a \<Rightarrow> 'k) \<Rightarrow> 'a list \<Rightarrow> ('k \<rightharpoonup> nat) \<Rightarrow> bool" where
  "indexed key xs idx \<longleftrightarrow> (\<forall>k i. idx k = Some i \<longleftrightarrow> i < length xs \<and> key (xs ! i) = k)"

lemma indexed_Some: "indexed key xs idx \<Longrightarrow> idx k = Some i \<Longrightarrow> i < length xs \<and> key (xs ! i) = k"
  by (simp add: indexed_def)

lemma indexed_None: "indexed key xs idx \<Longrightarrow> idx k = None \<Longrightarrow> i < length xs \<Longrightarrow> key (xs ! i) \<noteq> k"
  unfolding indexed_def by (metis option.distinct(1))

lemma indexed_nth: "indexed key xs idx \<Longrightarrow> i < length xs \<Longrightarrow> idx (key (xs ! i)) = Some i"
  by (simp add: indexed_def)

lemma indexed_inj:
  "indexed key xs idx \<Longrightarrow> i < length xs \<Longrightarrow> j < length xs \<Longrightarrow> key (xs ! i) = key (xs ! j) \<Longrightarrow> i = j"
  using indexed_nth [of key xs idx] by (metis option.inject)

lemma indexed_distinct: "indexed key xs idx \<Longrightarrow> distinct (map key xs)"
  unfolding distinct_conv_nth using indexed_inj [of key xs idx] by auto

lemma indexed_empty [simp]: "indexed key [] Map.empty"
  by (simp add: indexed_def)

lemma indexed_mem: "indexed key xs idx \<Longrightarrow> (idx k \<noteq> None) = (k \<in> key ` set xs)"
  by (cases "idx k") (force dest: indexed_Some indexed_None simp: in_set_conv_nth image_iff)+

lemma indexed_find:
  assumes "indexed key xs idx"
  shows "(case idx k of None \<Rightarrow> None | Some i \<Rightarrow> Some (xs ! i)) = find (\<lambda>x. key x = k) xs"
proof (cases "find (\<lambda>x. key x = k) xs")
  case None
  then have "idx k = None" using indexed_mem [OF assms, of k] by (auto simp: find_None_iff)
  with None show ?thesis by simp
next
  case (Some x)
  then obtain i where i: "i < length xs" "key (xs ! i) = k" "x = xs ! i" by (auto simp: find_Some_iff)
  with indexed_nth [OF assms i(1)] Some show ?thesis by simp
qed

lemma indexed_push:
  assumes "indexed key xs idx" and "idx (key x) = None"
  shows "indexed key (xs @ [x]) (idx(key x \<mapsto> length xs))"
  unfolding indexed_def
proof (intro allI)
  fix k i
  have old: "idx k = Some i \<longleftrightarrow> i < length xs \<and> key (xs ! i) = k" using assms(1) by (simp add: indexed_def)
  consider "i < length xs" | "i = length xs" | "length xs < i" by linarith
  then show "(idx(key x \<mapsto> length xs)) k = Some i \<longleftrightarrow> i < length (xs @ [x]) \<and> key ((xs @ [x]) ! i) = k"
  proof cases
    case 1
    then have "key (xs ! i) \<noteq> key x" using indexed_None [OF assms] by blast
    with 1 old show ?thesis by (auto simp: nth_append)
  next
    case 2
    with old show ?thesis by auto
  next
    case 3
    with old show ?thesis by auto
  qed
qed

lemma indexed_update:
  "indexed key xs idx \<Longrightarrow> (\<And>y. y = xs ! i \<Longrightarrow> key (f y) = key y) \<Longrightarrow> indexed key (xs[i := f (xs ! i)]) idx"
proof -
  assume ix: "indexed key xs idx" and f: "\<And>y. y = xs ! i \<Longrightarrow> key (f y) = key y"
  have "key (xs[i := f (xs ! i)] ! j) = key (xs ! j)" if "j < length xs" for j
    using that f by (cases "j = i") simp_all
  with ix show ?thesis by (auto simp: indexed_def)
qed

lemma last_nth: "i < length xs \<Longrightarrow> last xs = xs ! (length xs - 1) \<and> length xs - 1 < length xs"
  by (cases xs rule: rev_cases) simp_all

text \<open>Filling the hole of a removed element with the last one.\<close>

definition swap_remove :: "nat \<Rightarrow> 'a list \<Rightarrow> 'a list" where
  "swap_remove i xs = butlast (xs[i := last xs])"

definition unindex :: "('a \<Rightarrow> 'k) \<Rightarrow> nat \<Rightarrow> 'a list \<Rightarrow> ('k \<rightharpoonup> nat) \<Rightarrow> ('k \<rightharpoonup> nat)" where
  "unindex key i xs idx =
     (let idx = idx(key (xs ! i) := None)
      in if i < length xs - 1 then idx(key (last xs) \<mapsto> i) else idx)"

lemma length_swap_remove [simp]: "length (swap_remove i xs) = length xs - 1"
  by (simp add: swap_remove_def)

lemma nth_swap_remove:
  "i < length xs \<Longrightarrow> j < length xs - 1 \<Longrightarrow> swap_remove i xs ! j = (if j = i then last xs else xs ! j)"
  by (simp add: swap_remove_def nth_butlast nth_list_update)

lemma indexed_swap_remove:
  assumes ix: "indexed key xs idx" and i: "i < length xs"
  shows "indexed key (swap_remove i xs) (unindex key i xs idx)"
  unfolding indexed_def
proof (intro allI)
  fix k j
  let ?l = "length xs - 1"
  have l: "last xs = xs ! ?l" "?l < length xs" using last_nth [OF i] by simp_all
  note inj = indexed_inj [OF ix]
  have old: "idx k = Some j \<longleftrightarrow> j < length xs \<and> key (xs ! j) = k" using ix by (simp add: indexed_def)
  show "unindex key i xs idx k = Some j \<longleftrightarrow> j < length (swap_remove i xs) \<and> key (swap_remove i xs ! j) = k"
  proof (cases "j < ?l")
    case True
    then show ?thesis
      using old inj [of i ?l] inj [of i j] inj [of j ?l] i l
      by (auto simp: unindex_def Let_def nth_swap_remove)
  next
    case False
    have "unindex key i xs idx k \<noteq> Some j"
    proof
      assume "unindex key i xs idx k = Some j"
      then have "idx k = Some j" and k: "k \<noteq> key (xs ! i)" "i < ?l \<longrightarrow> k \<noteq> key (last xs)"
        using False by (auto simp: unindex_def Let_def split: if_splits)
      then have "j < length xs" and kj: "key (xs ! j) = k" using old by auto
      with False have "j = ?l" by linarith
      with kj k l i show False by (cases "i = ?l") auto
    qed
    with False show ?thesis by simp
  qed
qed

lemma mset_swap_remove:
  assumes "i < length xs"
  shows "mset xs = add_mset (xs ! i) (mset (swap_remove i xs))"
proof -
  let ?l = "length xs - 1"
  have "xs[i := last xs] \<noteq> []" using assms by auto
  have l: "last xs = xs ! ?l" "?l < length xs" using last_nth [OF assms] by simp_all
  have sw: "mset (swap_at i ?l xs) = mset xs" using assms l by simp
  have "swap_at i ?l xs = swap_remove i xs @ [xs ! i]"
    using assms l by (intro nth_equalityI) (auto simp: nth_swap_at nth_append nth_swap_remove less_Suc_eq)
  then show ?thesis using sw by simp
qed

end
