(* ===== verification/Mutate_Sched.thy ===== *)
theory Mutate_Sched
  imports Mutate_Frame Index_Map
begin

text \<open>
  The operator scheduler, \<open>Scheduler\<close> of \<open>pkg/mutate/scheduler.go\<close>: the table of
  operators with their weights and counters, the weighted choice of an operator and then
  of a node, the round of stacked mutations, and the provenance record that lets
  a round be replayed. The scratch slices of the Go struct are threaded as values;
  \<open>Report\<close> sorts by a floating point rate and is not modelled.
\<close>

section \<open>The operator table\<close>

record op_stats =
  Attempts :: u64
  Applied :: u64
  Kept :: u64 \<comment> \<open>\<open>Interesting\<close>\<close>
  Found :: u64 \<comment> \<open>\<open>Findings\<close>\<close>

definition zero_stats :: op_stats where
  "zero_stats = \<lparr>Attempts = 0, Applied = 0, Kept = 0, Found = 0\<rparr>"

record scheduler =
  Ops :: "op list"
  Weights :: "int list"
  OpStats :: "op_stats list"
  Index :: "string \<rightharpoonup> nat"
  SizeWeighting :: bool
  MinStack :: int
  MaxStack :: int

record op_record =
  Mutator :: string
  Path :: pos
  RandPos :: u64

definition Scheduler_Add :: "scheduler \<Rightarrow> op \<Rightarrow> int \<Rightarrow> scheduler" where
  "Scheduler_Add s m weight =
     (case Index s (op_Name m) of
        Some i \<Rightarrow> s\<lparr>Weights := (Weights s)[i := weight]\<rparr>
      | None \<Rightarrow> s\<lparr>Index := (Index s)(op_Name m \<mapsto> length (Ops s)), Ops := Ops s @ [m],
                Weights := Weights s @ [weight], OpStats := OpStats s @ [zero_stats]\<rparr>)"

definition NewScheduler :: "op list \<Rightarrow> scheduler" where
  "NewScheduler ms =
     fold (\<lambda>m s. Scheduler_Add s m 1) ms
       \<lparr>Ops = [], Weights = [], OpStats = [], Index = Map.empty,
        SizeWeighting = True, MinStack = 1, MaxStack = 8\<rparr>"

definition Default :: scheduler where
  "Default =
     fold (\<lambda>m s. Scheduler_Add s m
       (case KindOf m of KindStructural \<Rightarrow> 6 | KindSplice \<Rightarrow> 2 | KindDictionary \<Rightarrow> 3 | _ \<Rightarrow> 4))
       All (NewScheduler [])"

definition SetWeight :: "scheduler \<Rightarrow> string \<Rightarrow> int \<Rightarrow> scheduler \<times> bool" where
  "SetWeight s name weight =
     (case Index s name of
        Some i \<Rightarrow> (s\<lparr>Weights := (Weights s)[i := weight]\<rparr>, True)
      | None \<Rightarrow> (s, False))"

definition Operator :: "scheduler \<Rightarrow> string \<Rightarrow> op option" where
  "Operator s name = (case Index s name of None \<Rightarrow> None | Some i \<Rightarrow> Some (Ops s ! i))"

definition StatsFor :: "scheduler \<Rightarrow> string \<Rightarrow> op_stats option" where
  "StatsFor s name = (case Index s name of None \<Rightarrow> None | Some i \<Rightarrow> Some (OpStats s ! i))"

definition bump :: "nat \<Rightarrow> (op_stats \<Rightarrow> op_stats) \<Rightarrow> scheduler \<Rightarrow> scheduler" where
  "bump i f s = s\<lparr>OpStats := (OpStats s)[i := f (OpStats s ! i)]\<rparr>"

definition credit :: "bool \<Rightarrow> bool \<Rightarrow> op_record \<Rightarrow> scheduler \<Rightarrow> scheduler" where
  "credit interesting finding rc s =
     (case Index s (Mutator rc) of
        None \<Rightarrow> s
      | Some i \<Rightarrow>
          (let s = (if interesting then bump i (\<lambda>t. t\<lparr>Kept := Kept t + 1\<rparr>) s else s)
           in if finding then bump i (\<lambda>t. t\<lparr>Found := Found t + 1\<rparr>) s else s))"

definition RecordOutcome :: "scheduler \<Rightarrow> op_record list \<Rightarrow> bool \<Rightarrow> bool \<Rightarrow> scheduler" where
  "RecordOutcome s recs interesting finding =
     (if \<not> interesting \<and> \<not> finding then s else fold (credit interesting finding) recs s)"

definition ResetStats :: "scheduler \<Rightarrow> scheduler" where
  "ResetStats s = s\<lparr>OpStats := map (\<lambda>_. zero_stats) (OpStats s)\<rparr>"

section \<open>Choosing a node\<close>

definition nodeWeight :: "scheduler \<Rightarrow> node \<Rightarrow> int" where
  "nodeWeight s n =
     (if \<not> SizeWeighting s then 1
      else if Kind (hdr n) = KindBytes \<or> Kind (hdr n) = KindStr then
        (let w = 1 + int (length (Raw (hdr n)) div 64) in if w > 32 then 32 else w)
      else 1)"

record pick =
  pickTotal :: int
  chosen :: "pos option"
  pickNodes :: rand

definition consider_node :: "scheduler \<Rightarrow> op \<Rightarrow> ctx \<Rightarrow> pos \<Rightarrow> node \<Rightarrow> pick \<Rightarrow> pick option" where
  "consider_node s m c p n k =
     (if CanApply m c p n then do {
        let w = nodeWeight s n;
        let tot = to_int64 (pickTotal k + w);
        (v, r) \<leftarrow> Intn tot (pickNodes k);
        Some (k\<lparr>pickTotal := tot, pickNodes := r, chosen := (if v < w then Some p else chosen k)\<rparr>)
      } else Some k)"

fun walkPick :: "scheduler \<Rightarrow> op \<Rightarrow> ctx \<Rightarrow> pos \<Rightarrow> node \<Rightarrow> pick \<Rightarrow> pick option"
  and walkPick_kids :: "scheduler \<Rightarrow> op \<Rightarrow> ctx \<Rightarrow> pos \<Rightarrow> nat \<Rightarrow> node list \<Rightarrow> pick \<Rightarrow> pick option" where
  "walkPick s m c p (Node h cs) k =
     consider_node s m c p (Node h cs) k \<bind> walkPick_kids s m c p 0 cs"
| "walkPick_kids s m c p i [] k = Some k"
| "walkPick_kids s m c p i (n # ns) k =
     walkPick s m c (p @ [i]) n k \<bind> walkPick_kids s m c p (Suc i) ns"

definition pickNodeFor :: "scheduler \<Rightarrow> ctx \<Rightarrow> node \<Rightarrow> op \<Rightarrow> rand \<Rightarrow> (pos option \<times> rand) option" where
  "pickNodeFor s c tree m r = do {
     k \<leftarrow> walkPick s m c [] tree \<lparr>pickTotal = 0, chosen = None, pickNodes = r\<rparr>;
     Some (chosen k, pickNodes k)
   }"

section \<open>A round of mutations\<close>

text \<open>The node a pointer names is overwritten in place: the tree with the node at a position replaced.\<close>

fun put_node :: "node \<Rightarrow> pos \<Rightarrow> node \<Rightarrow> node" where
  "put_node n [] m = m"
| "put_node (Node h cs) (i # p) m =
     (if i < length cs then Node h (cs[i := put_node (cs ! i) p m]) else Node h cs)"

record mround =
  rSched :: scheduler
  rTree :: node
  rStreams :: streams
  rOps :: "op_record list"

definition maxOperatorRetries :: nat where "maxOperatorRetries = 8"

text \<open>
  One attempt with the operator of index \<open>i\<close> at the node chosen for it, and the
  attempts for one slot of the stack. The flag of an attempt says whether the
  operator reported a change; that of a slot, that the round is over because
  every operator is disabled.
\<close>

definition attempt :: "ctx \<Rightarrow> nat \<Rightarrow> op \<Rightarrow> pos \<Rightarrow> mround \<Rightarrow> (bool \<times> mround) option" where
  "attempt c i m p x = do {
     n \<leftarrow> subtree (rTree x) p;
     let at_pos = Position (Rand (rStreams x));
     let x = x\<lparr>rSched := bump i (\<lambda>t. t\<lparr>Attempts := Attempts t + 1\<rparr>) (rSched x)\<rparr>;
     (changed, n', r) \<leftarrow> Mutate m c n (Rand (rStreams x));
     let x = x\<lparr>rTree := put_node (rTree x) p n', rStreams := (rStreams x)\<lparr>Rand := r\<rparr>\<rparr>;
     if \<not> changed then Some (False, x)
     else Some (True, x\<lparr>rSched := bump i (\<lambda>t. t\<lparr>Applied := Applied t + 1\<rparr>) (rSched x),
            rOps := rOps x @ [\<lparr>Mutator = op_Name m, Path = p, RandPos = at_pos\<rparr>]\<rparr>)
   }"

fun try_slot :: "nat \<Rightarrow> ctx \<Rightarrow> mround \<Rightarrow> (bool \<times> mround) option" where
  "try_slot 0 c x = Some (False, x)"
| "try_slot (Suc tries) c x = do {
     (oi, sel) \<leftarrow> Weighted (Weights (rSched x)) (Select (rStreams x));
     let x = x\<lparr>rStreams := (rStreams x)\<lparr>Select := sel\<rparr>\<rparr>;
     if oi < 0 then Some (True, x)
     else do {
       m \<leftarrow> get_at (Ops (rSched x)) oi;
       (picked, nodes) \<leftarrow> pickNodeFor (rSched x) c (rTree x) m (Nodes (rStreams x));
       let x = x\<lparr>rStreams := (rStreams x)\<lparr>Nodes := nodes\<rparr>\<rparr>;
       case picked of
         None \<Rightarrow> try_slot tries c x
       | Some p \<Rightarrow> do {
           (changed, x) \<leftarrow> attempt c (nat oi) m p x;
           if changed then Some (False, x) else try_slot tries c x
         }
     }
   }"

fun slots :: "nat \<Rightarrow> ctx \<Rightarrow> mround \<Rightarrow> mround option" where
  "slots 0 c x = Some x"
| "slots (Suc k) c x = do {
     (over, x) \<leftarrow> try_slot maxOperatorRetries c x;
     if over then Some x else slots k c x
   }"

definition Scheduler_Mutate :: "scheduler \<Rightarrow> ctx \<Rightarrow> streams \<Rightarrow> node \<Rightarrow> mround option" where
  "Scheduler_Mutate s c st tree = do {
     (stack, st) \<leftarrow> (if MaxStack s > MinStack s then do {
         (v, r) \<leftarrow> Intn (MaxStack s - MinStack s + 1) (Nodes st);
         Some (MinStack s + v, st\<lparr>Nodes := r\<rparr>)
       } else Some (MinStack s, st));
     slots (nat stack) c \<lparr>rSched = s, rTree = tree, rStreams = st, rOps = []\<rparr>
   }"

section \<open>The table stays consistent\<close>

definition table_ok :: "scheduler \<Rightarrow> bool" where
  "table_ok s \<longleftrightarrow> length (Weights s) = length (Ops s) \<and> length (OpStats s) = length (Ops s) \<and>
     indexed op_Name (Ops s) (Index s)"

lemma table_indexed: "table_ok s \<Longrightarrow> indexed op_Name (Ops s) (Index s)"
  by (simp add: table_ok_def)

lemmas table_IndexD = indexed_Some [OF table_indexed]
lemmas table_NoneD = indexed_None [OF table_indexed]
lemmas table_index = indexed_nth [OF table_indexed]

lemma table_cong:
  "table_ok s \<Longrightarrow> Ops s' = Ops s \<Longrightarrow> Index s' = Index s \<Longrightarrow> length (Weights s') = length (Weights s) \<Longrightarrow>
   length (OpStats s') = length (OpStats s) \<Longrightarrow> table_ok s'"
  by (simp add: table_ok_def)

lemma bump_simps [simp]:
  "Ops (bump i f s) = Ops s" "Weights (bump i f s) = Weights s" "Index (bump i f s) = Index s"
  "length (OpStats (bump i f s)) = length (OpStats s)" "MinStack (bump i f s) = MinStack s"
  "MaxStack (bump i f s) = MaxStack s"
  by (simp_all add: bump_def)

lemma table_bump [simp]: "table_ok (bump i f s) = table_ok s"
  by (simp add: table_ok_def)

lemma table_Add: "table_ok s \<Longrightarrow> table_ok (Scheduler_Add s m w)"
proof (cases "Index s (op_Name m)")
  case None
  assume s: "table_ok s"
  with None show ?thesis by (simp add: Scheduler_Add_def table_ok_def indexed_push)
next
  case (Some i)
  assume "table_ok s"
  then show ?thesis by (rule table_cong) (simp_all add: Scheduler_Add_def Some)
qed

lemma table_fold: "table_ok s \<Longrightarrow> (\<And>x s. table_ok s \<Longrightarrow> table_ok (f x s)) \<Longrightarrow> table_ok (fold f xs s)"
  by (induction xs arbitrary: s) auto

lemma table_NewScheduler: "table_ok (NewScheduler ms)"
  unfolding NewScheduler_def by (rule table_fold [OF _ table_Add]) (simp_all add: table_ok_def)

lemma table_Default: "table_ok Default"
  unfolding Default_def by (rule table_fold [OF table_NewScheduler table_Add])

lemma table_SetWeight: "table_ok s \<Longrightarrow> table_ok (fst (SetWeight s name w))"
  by (auto simp: SetWeight_def table_ok_def split: option.split)

lemma table_credit [simp]: "table_ok (credit a b rc s) = table_ok s"
  by (auto simp: credit_def Let_def split: option.split)

lemma table_RecordOutcome: "table_ok s \<Longrightarrow> table_ok (RecordOutcome s recs a b)"
  unfolding RecordOutcome_def by (auto intro!: table_fold)

lemma table_ResetStats: "table_ok s \<Longrightarrow> table_ok (ResetStats s)"
  by (simp add: ResetStats_def table_ok_def)

section \<open>What the walk chooses\<close>

text \<open>The nodes of a tree with their positions, in the order of the walk.\<close>

fun located :: "pos \<Rightarrow> node \<Rightarrow> (pos \<times> node) list"
  and located_kids :: "pos \<Rightarrow> nat \<Rightarrow> node list \<Rightarrow> (pos \<times> node) list" where
  "located p (Node h cs) = (p, Node h cs) # located_kids p 0 cs"
| "located_kids p i [] = []"
| "located_kids p i (n # ns) = located (p @ [i]) n @ located_kids p (Suc i) ns"

lemma walkPick_mfold:
  "walkPick s m c p n k = mfold (\<lambda>(q, x). consider_node s m c q x) (located p n) k"
  "walkPick_kids s m c p i ns k = mfold (\<lambda>(q, x). consider_node s m c q x) (located_kids p i ns) k"
  by (induction s m c p n k and s m c p i ns k rule: walkPick_walkPick_kids.induct)
     (auto simp: mfold_append intro: bind_option_cong)

lemma located_length:
  "length (located p n) = length (preorder n)"
  "length (located_kids p i ns) = length (concat (map preorder ns))"
  by (induction p n and p i ns rule: located_located_kids.induct) simp_all

lemma located_iff:
  "(q, x) \<in> set (located p n) \<longleftrightarrow> (\<exists>r. q = p @ r \<and> subtree n r = Some x)"
  "(q, x) \<in> set (located_kids p i ns) \<longleftrightarrow>
     (\<exists>j r. j < length ns \<and> q = p @ (i + j) # r \<and> subtree (ns ! j) r = Some x)"
proof (induction p n and p i ns rule: located_located_kids.induct)
  case (1 p h cs)
  show ?case
  proof
    assume "(q, x) \<in> set (located p (Node h cs))"
    then consider "q = p" "x = Node h cs" | j r where "j < length cs" "q = p @ j # r" "subtree (cs ! j) r = Some x"
      using 1 by auto
    then show "\<exists>r. q = p @ r \<and> subtree (Node h cs) r = Some x"
      by cases (force intro: exI [of _ "[]"], force intro: exI [of _ "_ # _"])
  next
    assume "\<exists>r. q = p @ r \<and> subtree (Node h cs) r = Some x"
    then obtain r where r: "q = p @ r" "subtree (Node h cs) r = Some x" by blast
    show "(q, x) \<in> set (located p (Node h cs))"
    proof (cases r)
      case (Cons j r')
      with r have "j < length cs" "subtree (cs ! j) r' = Some x" by (auto split: if_splits)
      with 1 r(1) Cons show ?thesis by (simp add: exI [of _ j])
    next
      case Nil
      with r have "x = Node h cs" "q = p" by simp_all
      then show ?thesis by simp
    qed
  qed
next
  case (3 p i n ns)
  show ?case
  proof
    assume "(q, x) \<in> set (located_kids p i (n # ns))"
    then consider r where "q = p @ i # r" "subtree n r = Some x"
      | j r where "j < length ns" "q = p @ (Suc i + j) # r" "subtree (ns ! j) r = Some x"
      using 3 by auto
    then show "\<exists>j r. j < length (n # ns) \<and> q = p @ (i + j) # r \<and> subtree ((n # ns) ! j) r = Some x"
    proof cases
      case 1
      then show ?thesis by (intro exI [of _ 0] exI [of _ r]) simp
    next
      case 2
      then show ?thesis by (intro exI [of _ "Suc j"] exI [of _ r]) simp
    qed
  next
    assume "\<exists>j r. j < length (n # ns) \<and> q = p @ (i + j) # r \<and> subtree ((n # ns) ! j) r = Some x"
    then obtain j r where r: "j < length (n # ns)" "q = p @ (i + j) # r" "subtree ((n # ns) ! j) r = Some x" by blast
    show "(q, x) \<in> set (located_kids p i (n # ns))"
    proof (cases j)
      case 0
      with r 3 show ?thesis by simp
    next
      case (Suc j')
      with r have "j' < length ns" "q = p @ (Suc i + j') # r" "subtree (ns ! j') r = Some x" by simp_all
      with 3(2) have "(q, x) \<in> set (located_kids p (Suc i) ns)" by blast
      then show ?thesis by simp
    qed
  qed
qed simp

lemma nodeWeight_range: "1 \<le> nodeWeight s n \<and> nodeWeight s n \<le> 32"
  by (simp add: nodeWeight_def Let_def)

text \<open>
  The reservoir after a prefix of the walk: something is chosen exactly when something
  in the prefix could be, and it is one of those nodes.
\<close>

definition pick_inv :: "op \<Rightarrow> ctx \<Rightarrow> (pos \<times> node) list \<Rightarrow> pick \<Rightarrow> bool" where
  "pick_inv m c done k \<longleftrightarrow>
     0 \<le> pickTotal k \<and> pickTotal k \<le> 32 * int (length done) \<and>
     (case chosen k of
        None \<Rightarrow> pickTotal k = 0 \<and> (\<forall>(p, n) \<in> set done. \<not> CanApply m c p n)
      | Some p \<Rightarrow> \<exists>n. (p, n) \<in> set done \<and> CanApply m c p n)"

lemma consider_inv:
  assumes "pick_inv m c done k" and "32 * int (Suc (length done)) < 2 ^ 63"
  shows "ok (consider_node s m c p n k) (pick_inv m c (done @ [(p, n)]))"
proof (cases "CanApply m c p n")
  case True
  have b: "1 \<le> nodeWeight s n" "nodeWeight s n \<le> 32" using nodeWeight_range by auto
  have t: "0 \<le> pickTotal k" "pickTotal k \<le> 32 * int (length done)" using assms(1) by (auto simp: pick_inv_def)
  with b assms(2) have f: "to_int64 (pickTotal k + nodeWeight s n) = pickTotal k + nodeWeight s n"
    by (intro to_int64_fits) (simp add: fits_int_def)
  show ?thesis
    unfolding consider_node_def Let_def using True b t assms f
    by (intro wp) (auto simp: pick_inv_def split: option.splits)
next
  case False
  then show ?thesis using assms(1) by (auto simp: consider_node_def pick_inv_def split: option.splits)
qed

lemma pickNodeFor_ok:
  assumes "int (Count tree) < 2 ^ 57"
  shows "ok (pickNodeFor s c tree m r) (\<lambda>(picked, r').
    case picked of
      None \<Rightarrow> \<forall>p n. subtree tree p = Some n \<longrightarrow> \<not> CanApply m c p n
    | Some p \<Rightarrow> \<exists>n. subtree tree p = Some n \<and> CanApply m c p n)"
  unfolding pickNodeFor_def walkPick_mfold
proof (intro wp, rule ok_mfold [where I = "pick_inv m c"], goal_cases)
  case 1
  show ?case by (simp add: pick_inv_def)
next
  case (2 ys y k)
  have "length (located [] tree) = Count tree" by (simp add: located_length Count_preorder)
  with 2 assms have "32 * int (Suc (length ys)) < 2 ^ 63" by simp
  with consider_inv [OF 2(3) this] show ?case by (cases y) simp
next
  case (3 k)
  then show ?case by (auto simp: pick_inv_def located_iff split: option.splits)
qed

section \<open>A tree with one node replaced\<close>

lemma Children_put_node:
  "hdr (put_node (Node h cs) (i # p) m) = h"
  "length (Children (put_node (Node h cs) (i # p) m)) = length cs"
  by auto

lemma put_node_same: "subtree t p = Some n \<Longrightarrow> put_node t p n = t"
proof (induction t p n rule: put_node.induct)
  case (2 h cs i p m)
  then show ?case by (auto split: if_splits)
qed simp

lemma put_node_valid:
  "valid t \<Longrightarrow> valid m \<Longrightarrow> valid (put_node t p m)"
proof (induction t p m rule: put_node.induct)
  case (2 h cs i p m)
  then show ?case by (auto simp: list_all_iff dest!: set_update_subset_insert [THEN subsetD])
qed simp

lemma subtree_preorder: "subtree t p = Some n \<Longrightarrow> n \<in> set (preorder t)"
proof (induction t p rule: subtree.induct)
  case (1 n)
  then show ?case by (cases n) auto
next
  case (2 n i p)
  then show ?case by (cases n) (auto split: if_splits)
qed

lemma subtree_valid: "valid t \<Longrightarrow> subtree t p = Some n \<Longrightarrow> valid n"
  using valid_preorder subtree_preorder by blast

section \<open>One mutation as a step\<close>

text \<open>
  The tree is small enough for its sizes to be Go integers. What the operators of a
  table can make of a tree in one step is the relation \<open>mutates\<close>.
\<close>

definition mem_ok :: "node \<Rightarrow> bool" where
  "mem_ok t \<longleftrightarrow> list_all in_memory (preorder t) \<and> int (Count t) < 2 ^ 57"

inductive mutates :: "op list \<Rightarrow> ctx \<Rightarrow> node \<Rightarrow> node \<Rightarrow> bool" for ms c where
  mutate: "\<lbrakk>m \<in> set ms; subtree t p = Some n; CanApply m c p n; Mutate m c n r = Some (changed, n', r')\<rbrakk>
    \<Longrightarrow> mutates ms c t (put_node t p n')"

inductive_cases mutatesE: "mutates ms c t t'"

text \<open>Replaying one record of a provenance chain from the seed of the parameter stream.\<close>

definition replay_op :: "scheduler \<Rightarrow> ctx \<Rightarrow> rand \<Rightarrow> op_record \<Rightarrow> node \<Rightarrow> node option" where
  "replay_op s c r rc t = do {
     m \<leftarrow> Operator s (Mutator rc);
     n \<leftarrow> subtree t (Path rc);
     (changed, n', r') \<leftarrow> Mutate m c n (Seek r (RandPos rc));
     Some (put_node t (Path rc) n')
   }"

definition replay :: "scheduler \<Rightarrow> ctx \<Rightarrow> rand \<Rightarrow> op_record list \<Rightarrow> node \<Rightarrow> node option" where
  "replay s c r recs t = mfold (replay_op s c r) recs t"

text \<open>How often an operator occurs in a provenance chain, and what a round adds to the counters.\<close>

definition hits :: "string \<Rightarrow> op_record list \<Rightarrow> nat" where
  "hits name recs = length (filter (\<lambda>rc. Mutator rc = name) recs)"

definition tallied :: "scheduler \<Rightarrow> op_record list \<Rightarrow> scheduler \<Rightarrow> bool" where
  "tallied s recs s' \<longleftrightarrow>
     Ops s' = Ops s \<and> Weights s' = Weights s \<and> Index s' = Index s \<and>
     length (OpStats s') = length (OpStats s) \<and>
     (\<forall>i < length (OpStats s). \<exists>a. hits (op_Name (Ops s ! i)) recs \<le> a \<and>
        OpStats s' ! i = (OpStats s ! i)
          \<lparr>Attempts := Attempts (OpStats s ! i) + of_nat a,
           Applied := Applied (OpStats s ! i) + of_nat (hits (op_Name (Ops s ! i)) recs)\<rparr>)"

lemma hits_append [simp]: "hits name (xs @ ys) = hits name xs + hits name ys"
  by (simp add: hits_def)

lemma hits_Nil [simp]: "hits name [] = 0"
  by (simp add: hits_def)

lemma tallied_refl: "tallied s [] s"
  unfolding tallied_def by (auto intro!: exI [of _ 0])

lemma tallied_table: "tallied s recs s' \<Longrightarrow> table_ok s \<Longrightarrow> table_ok s'"
  by (rule table_cong) (simp_all add: tallied_def)

lemma tallied_trans:
  assumes "tallied s xs s1" and "tallied s1 ys s2"
  shows "tallied s (xs @ ys) s2"
proof -
  have "\<exists>a. hits (op_Name (Ops s ! i)) (xs @ ys) \<le> a \<and>
        OpStats s2 ! i = (OpStats s ! i)
          \<lparr>Attempts := Attempts (OpStats s ! i) + of_nat a,
           Applied := Applied (OpStats s ! i) + of_nat (hits (op_Name (Ops s ! i)) (xs @ ys))\<rparr>"
    if i: "i < length (OpStats s)" for i
  proof -
    let ?x = "hits (op_Name (Ops s ! i)) xs" and ?y = "hits (op_Name (Ops s ! i)) ys"
    obtain a where a: "?x \<le> a" "OpStats s1 ! i = (OpStats s ! i)
          \<lparr>Attempts := Attempts (OpStats s ! i) + of_nat a, Applied := Applied (OpStats s ! i) + of_nat ?x\<rparr>"
      using assms(1) i by (auto simp: tallied_def)
    have "i < length (OpStats s1)" "Ops s1 = Ops s" using assms(1) i by (simp_all add: tallied_def)
    then obtain b where b: "?y \<le> b" "OpStats s2 ! i = (OpStats s1 ! i)
          \<lparr>Attempts := Attempts (OpStats s1 ! i) + of_nat b, Applied := Applied (OpStats s1 ! i) + of_nat ?y\<rparr>"
      using assms(2) by (auto simp: tallied_def)
    show ?thesis using a b by (intro exI [of _ "a + b"]) simp
  qed
  with assms show ?thesis by (simp add: tallied_def)
qed

lemma tallied_attempt:
  "tallied s [] (bump i (\<lambda>t. t\<lparr>Attempts := Attempts t + 1\<rparr>) s)"
proof -
  have "OpStats (bump i (\<lambda>t. t\<lparr>Attempts := Attempts t + 1\<rparr>) s) ! j = (OpStats s ! j)
      \<lparr>Attempts := Attempts (OpStats s ! j) + of_nat (if j = i then 1 else 0),
       Applied := Applied (OpStats s ! j) + of_nat 0\<rparr>" if "j < length (OpStats s)" for j
    using that by (simp add: bump_def nth_list_update)
  then show ?thesis unfolding tallied_def hits_Nil bump_simps by blast
qed

lemma bump_nth:
  "j < length (OpStats s) \<Longrightarrow> OpStats (bump i f s) ! j = (if j = i then f (OpStats s ! j) else OpStats s ! j)"
  by (simp add: bump_def nth_list_update)

lemma tallied_applied:
  assumes "table_ok s" and "i < length (Ops s)" and "Mutator rc = op_Name (Ops s ! i)"
  shows "tallied s [rc] (bump i (\<lambda>t. t\<lparr>Applied := Applied t + 1\<rparr>) (bump i (\<lambda>t. t\<lparr>Attempts := Attempts t + 1\<rparr>) s))"
    (is "tallied s [rc] ?s'")
proof -
  have len: "length (OpStats s) = length (Ops s)" using assms(1) by (simp add: table_ok_def)
  have nth: "OpStats ?s' ! j = (if j = i then (OpStats s ! j)\<lparr>Attempts := Attempts (OpStats s ! j) + 1,
      Applied := Applied (OpStats s ! j) + 1\<rparr> else OpStats s ! j)" if "j < length (OpStats s)" for j
    using that by (simp add: bump_nth)
  have "\<exists>a. hits (op_Name (Ops s ! j)) [rc] \<le> a \<and> OpStats ?s' ! j = (OpStats s ! j)
      \<lparr>Attempts := Attempts (OpStats s ! j) + of_nat a,
       Applied := Applied (OpStats s ! j) + of_nat (hits (op_Name (Ops s ! j)) [rc])\<rparr>"
    if j: "j < length (OpStats s)" for j
  proof (cases "j = i")
    case True
    then have "hits (op_Name (Ops s ! j)) [rc] = 1" using assms(3) by (simp add: hits_def)
    then show ?thesis using nth [OF j] True by (intro exI [of _ 1]) simp
  next
    case False
    have "op_Name (Ops s ! j) \<noteq> op_Name (Ops s ! i)"
      using table_index [OF assms(1), of j] table_index [OF assms(1,2)] j len False by force
    then have "hits (op_Name (Ops s ! j)) [rc] = 0" using assms(3) by (simp add: hits_def)
    then show ?thesis using nth [OF j] False by (intro exI [of _ 0]) simp
  qed
  then show ?thesis unfolding tallied_def bump_simps by blast
qed

section \<open>A slot of the round\<close>

text \<open>
  What a slot does to a round: at most one mutation, recorded so that it can be
  replayed, and counted.
\<close>

definition slot_post :: "ctx \<Rightarrow> mround \<Rightarrow> mround \<Rightarrow> op_record list \<Rightarrow> bool" where
  "slot_post c x y new \<longleftrightarrow>
     tallied (rSched x) new (rSched y) \<and> rOps y = rOps x @ new \<and>
     base (Rand (rStreams y)) = base (Rand (rStreams x)) \<and> valid (rTree y) \<and>
     (new = [] \<and> rTree y = rTree x \<or>
      (\<exists>rc. new = [rc] \<and> mutates (Ops (rSched x)) c (rTree x) (rTree y) \<and>
        replay_op (rSched x) c (Rand (rStreams x)) rc (rTree x) = Some (rTree y)))"

definition ready :: "ctx \<Rightarrow> mround \<Rightarrow> bool" where
  "ready c x \<longleftrightarrow> table_ok (rSched x) \<and> wsum (Weights (rSched x)) < 2 ^ 63 \<and> ctx_ok c \<and>
     valid (rTree x) \<and> mem_ok (rTree x)"

lemma Seek_eq: "base r = base q \<Longrightarrow> Seek q (Position r) = r"
  by (cases r; cases q) (simp add: Seek_def Position_def)

lemma ok_Weighted:
  assumes "wsum ws < 2 ^ 63" and "\<And>r'. Q (-1, r')"
    and "\<And>i r'. i < length ws \<Longrightarrow> Q (int i, r')"
  shows "ok (Weighted ws r) Q"
  using weighted_choice [OF assms(1), of r] assms(2,3) by (auto intro: okI split: if_splits)

lemma replay_op_cong:
  assumes "Ops s' = Ops s" and "Index s' = Index s" and "base r' = base r"
  shows "replay_op s' c r' = replay_op s c r"
proof -
  have "Seek r' q = Seek r q" for q using assms(3) by (simp add: Seek_def)
  then show ?thesis by (intro ext) (simp only: replay_op_def Operator_def assms(1,2))
qed

lemma slot_retry:
  assumes "slot_post c x' y new" and "tallied (rSched x) [] (rSched x')" and "rOps x' = rOps x"
    and "rTree x' = rTree x" and "base (Rand (rStreams x')) = base (Rand (rStreams x))"
  shows "slot_post c x y new"
proof -
  have "tallied (rSched x) new (rSched y)"
    using tallied_trans [OF assms(2), of new] assms(1) by (simp add: slot_post_def)
  moreover have o: "Ops (rSched x') = Ops (rSched x)" "Index (rSched x') = Index (rSched x)"
    using assms(2) by (simp_all add: tallied_def)
  moreover note replay_op_cong [OF o assms(5), of c]
  ultimately show ?thesis
    using assms by (simp add: slot_post_def)
qed

lemma ready_retry:
  assumes "ready c x" and "tallied (rSched x) [] (rSched x')" and "rTree x' = rTree x"
  shows "ready c x'"
  using assms tallied_table [OF assms(2)] by (simp add: ready_def tallied_def)

lemma slot_post_refl:
  assumes "valid (rTree x)" and "tallied (rSched x) [] (rSched y)" and "rOps y = rOps x" and "rTree y = rTree x"
    and "base (Rand (rStreams y)) = base (Rand (rStreams x))"
  shows "slot_post c x y []"
  using assms by (simp add: slot_post_def)

lemma attempt_ok:
  assumes x: "ready c x" and i: "i < length (Ops (rSched x))" and n: "subtree (rTree x) p = Some n"
    and can: "CanApply (Ops (rSched x) ! i) c p n"
  shows "ok (attempt c i (Ops (rSched x) ! i) p x) (\<lambda>(changed, y).
    \<exists>new. slot_post c x y new \<and> (\<not> changed \<longrightarrow> new = [] \<and> ready c y))"
proof -
  let ?m = "Ops (rSched x) ! i"
  have r: "table_ok (rSched x)" "ctx_ok c" "valid (rTree x)" "mem_ok (rTree x)" using x by (simp_all add: ready_def)
  have n_ok: "valid n" "in_memory n"
    using subtree_valid [OF r(3) n] subtree_preorder [OF n] r(4) by (auto simp: mem_ok_def list_all_iff)
  from ops.returns [OF can r(2) n_ok] obtain changed n' r' where
    m: "Mutate ?m c n (Rand (rStreams x)) = Some (changed, n', r')" by (metis prod_cases3 not_None_eq)
  have out: "\<not> changed \<longrightarrow> n' = n" "valid n'"
    using okD [OF op_conforms [OF can r(2) n_ok] m] n_ok(1) by (simp_all add: conforms_def)
  have b: "base r' = base (Rand (rStreams x))" by (rule Mutate_base [OF m])
  let ?y = "x\<lparr>rSched := bump i (\<lambda>t. t\<lparr>Attempts := Attempts t + 1\<rparr>) (rSched x),
    rTree := put_node (rTree x) p n', rStreams := (rStreams x)\<lparr>Rand := r'\<rparr>\<rparr>"
  let ?rc = "\<lparr>Mutator = op_Name ?m, Path = p, RandPos = Position (Rand (rStreams x))\<rparr>"
  show ?thesis
  proof (cases changed)
    case True
    let ?z = "?y\<lparr>rSched := bump i (\<lambda>t. t\<lparr>Applied := Applied t + 1\<rparr>) (rSched ?y), rOps := rOps ?y @ [?rc]\<rparr>"
    have "replay_op (rSched x) c (Rand (rStreams x)) ?rc (rTree x) = Some (put_node (rTree x) p n')"
      using table_index [OF r(1) i] n m by (simp add: replay_op_def Operator_def Seek_eq)
    moreover have "mutates (Ops (rSched x)) c (rTree x) (put_node (rTree x) p n')"
      using i n can m by (intro mutate [of ?m]) auto
    ultimately have "slot_post c x ?z [?rc]"
      using tallied_applied [OF r(1) i, of ?rc] put_node_valid [OF r(3) out(2), of p] b
      by (simp add: slot_post_def)
    with True n m show ?thesis by (auto simp: attempt_def Let_def)
  next
    case False
    with out(1) n put_node_same have t: "rTree ?y = rTree x" by simp
    have tal: "tallied (rSched x) [] (rSched ?y)" by (simp add: tallied_attempt)
    have "ready c ?y" by (rule ready_retry [OF x tal t])
    moreover have "slot_post c x ?y []" by (rule slot_post_refl [OF r(3) tal _ t]) (simp_all add: b)
    ultimately show ?thesis using False n m by (auto simp: attempt_def Let_def)
  qed
qed

lemma try_slot_ok:
  assumes "ready c x"
  shows "ok (try_slot k c x) (\<lambda>(stop, y). \<exists>new. slot_post c x y new)"
  using assms
proof (induction k arbitrary: x)
  case 0
  then have "slot_post c x x []" by (intro slot_post_refl) (auto simp: ready_def tallied_refl)
  then show ?case by auto
next
  case (Suc k)
  let ?post = "\<lambda>(stop, y). \<exists>new. slot_post c x y new"
  have x: "wsum (Weights (rSched x)) < 2 ^ 63" "valid (rTree x)" "int (Count (rTree x)) < 2 ^ 57"
    "length (Weights (rSched x)) = length (Ops (rSched x))"
    using Suc.prems by (auto simp: ready_def mem_ok_def table_ok_def)
  have stop: "?post (True, x\<lparr>rStreams := (rStreams x)\<lparr>Select := sel\<rparr>\<rparr>)" for sel
    using x(2) by (auto intro!: exI [of _ "[]"] slot_post_refl simp: tallied_refl)
  have again: "ok (try_slot k c y) ?post" if y: "ready c y" "slot_post c x y []" for y
  proof (rule ok_mono [OF Suc.IH [OF y(1)]], clarify)
    fix stop z new assume z: "slot_post c y z new"
    from y(2) show "\<exists>new. slot_post c x z new"
      by (intro exI [of _ new] slot_retry [OF z]) (simp_all add: slot_post_def)
  qed
  have picked: "ok (case picked of None \<Rightarrow> try_slot k c y
       | Some p \<Rightarrow> attempt c i (Ops (rSched y) ! i) p y \<bind>
           (\<lambda>(changed, z). if changed then Some (False, z) else try_slot k c z)) ?post"
    if y: "y = x\<lparr>rStreams := st\<rparr>" "Rand st = Rand (rStreams x)" and i: "i < length (Ops (rSched x))"
      and p: "case picked of None \<Rightarrow> True
        | Some p \<Rightarrow> \<exists>n. subtree (rTree x) p = Some n \<and> CanApply (Ops (rSched x) ! i) c p n" for y st i picked
  proof -
    have ry: "ready c y" using Suc.prems y(1) by (simp add: ready_def)
    have xy: "slot_post c x z new" if "slot_post c y z new" for z new
      using slot_retry [OF that, of x] y by (simp add: tallied_refl)
    show ?thesis
    proof (cases picked)
      case None
      have "slot_post c x y []" using x(2) y by (intro slot_post_refl) (simp_all add: tallied_refl)
      with None again [OF ry] show ?thesis by simp
    next
      case (Some p)
      with p y obtain n where n: "subtree (rTree y) p = Some n" "CanApply (Ops (rSched y) ! i) c p n" by auto
      have "ok (attempt c i (Ops (rSched y) ! i) p y \<bind>
           (\<lambda>(changed, z). if changed then Some (False, z) else try_slot k c z)) ?post"
      proof (rule ok_bind, rule ok_mono [OF attempt_ok [OF ry _ n]])
        show "i < length (Ops (rSched y))" using i y by simp
        fix a assume "case a of (changed, z) \<Rightarrow> \<exists>new. slot_post c y z new \<and> (\<not> changed \<longrightarrow> new = [] \<and> ready c z)"
        then obtain changed z new where a: "a = (changed, z)" "slot_post c y z new"
          "\<not> changed \<Longrightarrow> new = [] \<and> ready c z" by auto
        show "ok (case a of (changed, z) \<Rightarrow> if changed then Some (False, z) else try_slot k c z) ?post"
        proof (cases changed)
          case True
          with xy [OF a(2)] a(1) show ?thesis by auto
        next
          case False
          with xy [OF a(2)] again [of z] a(1,3) show ?thesis by simp
        qed
      qed
      with Some show ?thesis by simp
    qed
  qed
  show ?case
    unfolding try_slot.simps Let_def
  proof (rule ok_bind, rule ok_Weighted [OF x(1)], goal_cases)
    case (1 sel)
    then show ?case using stop by simp
  next
    case (2 i sel)
    then have i: "i < length (Ops (rSched x))" using x(4) by simp
    show ?case
    proof (simp add: get_at_def i, rule ok_bind, rule ok_mono [OF pickNodeFor_ok [OF x(3)]], clarify, goal_cases)
      case (1 pk nodes)
      then show ?case
        using picked [OF refl _ i, of "(rStreams x)\<lparr>Select := sel, Nodes := nodes\<rparr>" pk]
        by (simp split: option.splits)
    qed
  qed
qed

section \<open>The whole round\<close>

text \<open>No sequence of fewer than \<open>k\<close> mutations outgrows the memory.\<close>

definition stays_small :: "nat \<Rightarrow> op list \<Rightarrow> ctx \<Rightarrow> node \<Rightarrow> bool" where
  "stays_small k ms c t \<longleftrightarrow> (\<forall>j<k. \<forall>u. (mutates ms c ^^ j) t u \<longrightarrow> mem_ok u)"

lemma stays_small_now: "stays_small (Suc k) ms c t \<Longrightarrow> mem_ok t"
  unfolding stays_small_def by (elim allE [of _ 0]) simp

lemma stays_small_less: "stays_small (Suc k) ms c t \<Longrightarrow> stays_small k ms c t"
  unfolding stays_small_def using less_SucI by blast

lemma stays_small_step: "stays_small (Suc k) ms c t \<Longrightarrow> mutates ms c t u \<Longrightarrow> stays_small k ms c u"
  unfolding stays_small_def using relpowp_Suc_I2 [of "mutates ms c" t u] Suc_mono by blast

definition round_post :: "nat \<Rightarrow> ctx \<Rightarrow> mround \<Rightarrow> mround \<Rightarrow> op_record list \<Rightarrow> bool" where
  "round_post k c x y new \<longleftrightarrow>
     tallied (rSched x) new (rSched y) \<and> rOps y = rOps x @ new \<and> length new \<le> k \<and> valid (rTree y) \<and>
     replay (rSched x) c (Rand (rStreams x)) new (rTree x) = Some (rTree y)"

lemma slot_post_replay:
  assumes "slot_post c x y new"
  shows "length new \<le> 1 \<and> replay (rSched x) c (Rand (rStreams x)) new (rTree x) = Some (rTree y) \<and>
    (rTree y = rTree x \<or> mutates (Ops (rSched x)) c (rTree x) (rTree y))"
proof -
  consider "new = []" "rTree y = rTree x"
    | rc where "new = [rc]" "mutates (Ops (rSched x)) c (rTree x) (rTree y)"
        "replay_op (rSched x) c (Rand (rStreams x)) rc (rTree x) = Some (rTree y)"
    using assms by (auto simp: slot_post_def)
  then show ?thesis by cases (simp_all add: replay_def)
qed

lemma slots_ok:
  assumes "table_ok (rSched x)" and "wsum (Weights (rSched x)) < 2 ^ 63" and "ctx_ok c"
    and "valid (rTree x)" and "stays_small k (Ops (rSched x)) c (rTree x)"
  shows "ok (slots k c x) (\<lambda>y. \<exists>new. round_post k c x y new)"
  using assms
proof (induction k arbitrary: x)
  case 0
  then show ?case by (auto simp: round_post_def replay_def tallied_refl intro!: exI [of _ "[]"])
next
  case (Suc k)
  have "ready c x" using Suc.prems stays_small_now by (simp add: ready_def)
  then show ?case
    unfolding slots.simps
  proof (rule ok_bind [OF ok_mono [OF try_slot_ok]])
    fix a :: "bool \<times> mround" assume "case a of (stop, y) \<Rightarrow> \<exists>new. slot_post c x y new"
    then obtain stop y new where a: "a = (stop, y)" and y: "slot_post c x y new" by auto
    have tal: "tallied (rSched x) new (rSched y)" and ops: "rOps y = rOps x @ new" and v: "valid (rTree y)"
      and b: "base (Rand (rStreams y)) = base (Rand (rStreams x))"
      using y by (simp_all add: slot_post_def)
    have cfg: "Ops (rSched y) = Ops (rSched x)" "Index (rSched y) = Index (rSched x)"
      "Weights (rSched y) = Weights (rSched x)" using tal by (simp_all add: tallied_def)
    have len: "length new \<le> 1" and re: "replay (rSched x) c (Rand (rStreams x)) new (rTree x) = Some (rTree y)"
      and small: "stays_small k (Ops (rSched x)) c (rTree y)"
      using slot_post_replay [OF y] stays_small_less [OF Suc.prems(5)] stays_small_step [OF Suc.prems(5)] by auto
    have one: "round_post (Suc k) c x y new" using tal ops v len re by (simp add: round_post_def)
    have "ok (slots k c y) (\<lambda>z. \<exists>more. round_post k c y z more)"
      by (rule Suc.IH) (use Suc.prems tallied_table [OF tal] cfg v small in simp_all)
    then have "ok (slots k c y) (\<lambda>z. \<exists>new. round_post (Suc k) c x z new)"
    proof (rule ok_mono, clarify)
      fix z more assume z: "round_post k c y z more"
      have "replay (rSched x) c (Rand (rStreams x)) (new @ more) (rTree x) = Some (rTree z)"
        using z re replay_op_cong [OF cfg(1,2) b, of c] by (simp add: round_post_def replay_def mfold_append)
      with z tallied_trans [OF tal] len ops show "\<exists>new. round_post (Suc k) c x z new"
        by (auto simp: round_post_def intro!: exI [of _ "new @ more"])
    qed
    with one a show "ok (case a of (stop, y) \<Rightarrow> if stop then Some y else slots k c y)
        (\<lambda>z. \<exists>new. round_post (Suc k) c x z new)" by auto
  qed
qed

definition max_stack :: "scheduler \<Rightarrow> nat" where
  "max_stack s = nat (max (MinStack s) (MaxStack s))"

lemma stays_small_mono: "stays_small k ms c t \<Longrightarrow> j \<le> k \<Longrightarrow> stays_small j ms c t"
  unfolding stays_small_def using less_le_trans by blast

lemma Scheduler_Mutate_ok:
  assumes "table_ok s" and "wsum (Weights s) < 2 ^ 63" and "MaxStack s - MinStack s + 1 < 2 ^ 63" and "ctx_ok c"
    and "valid t" and "stays_small (max_stack s) (Ops s) c t"
  shows "ok (Scheduler_Mutate s c st t) (\<lambda>y. tallied s (rOps y) (rSched y) \<and> length (rOps y) \<le> max_stack s \<and>
    valid (rTree y) \<and> replay s c (Rand st) (rOps y) t = Some (rTree y))"
proof -
  have run: "ok (slots (nat k) c \<lparr>rSched = s, rTree = t, rStreams = st', rOps = []\<rparr>) (\<lambda>y. tallied s (rOps y) (rSched y) \<and>
      length (rOps y) \<le> max_stack s \<and> valid (rTree y) \<and> replay s c (Rand st) (rOps y) t = Some (rTree y))"
    if "nat k \<le> max_stack s" "Rand st' = Rand st" for k st'
    by (rule ok_mono [OF slots_ok])
       (use assms that stays_small_mono [OF assms(6) that(1)] in \<open>auto simp: round_post_def\<close>)
  show ?thesis
    unfolding Scheduler_Mutate_def using assms(3)
    by (intro wp run) (auto simp: max_stack_def intro!: run)
qed

text \<open>A round of mutations on a valid tree returns, leaves a valid tree, and applies no more
  operators than the configured stack allows; what it adds to each operator's counters is
  exactly what its provenance record lists.\<close>

lemma Scheduler_Mutate_round:
  assumes "table_ok s" and "wsum (Weights s) < 2 ^ 63" and "MaxStack s - MinStack s + 1 < 2 ^ 63" and "ctx_ok c"
    and "valid t" and "stays_small (max_stack s) (Ops s) c t"
  shows "\<exists>y. Scheduler_Mutate s c st t = Some y \<and> valid (rTree y) \<and> length (rOps y) \<le> max_stack s \<and>
    tallied s (rOps y) (rSched y)"
  using Scheduler_Mutate_ok [OF assms] by (auto elim: okE)

text \<open>C5. The provenance of a round reproduces it: replaying the recorded operators at the recorded
  paths, each from its recorded position of the parameter stream, makes the same tree.\<close>

theorem Scheduler_Mutate_replays:
  assumes "table_ok s" and "wsum (Weights s) < 2 ^ 63" and "MaxStack s - MinStack s + 1 < 2 ^ 63" and "ctx_ok c"
    and "valid t" and "stays_small (max_stack s) (Ops s) c t" and "Scheduler_Mutate s c st t = Some y"
  shows "replay s c (Rand st) (rOps y) t = Some (rTree y)"
  using okD [OF Scheduler_Mutate_ok [OF assms(1-6)] assms(7)] by simp

text \<open>An operator is given a node exactly when the tree has one it can act on, and it can act on
  the node it is given.\<close>

lemma pickNodeFor_finds:
  assumes "int (Count t) < 2 ^ 57"
  shows "\<exists>picked r'. pickNodeFor s c t m r = Some (picked, r') \<and>
    (picked = None \<longleftrightarrow> (\<nexists>p n. subtree t p = Some n \<and> CanApply m c p n)) \<and>
    (\<forall>p. picked = Some p \<longrightarrow> (\<exists>n. subtree t p = Some n \<and> CanApply m c p n))"
proof -
  obtain picked r' where p: "pickNodeFor s c t m r = Some (picked, r')"
    and q: "case picked of None \<Rightarrow> \<forall>p n. subtree t p = Some n \<longrightarrow> \<not> CanApply m c p n
      | Some p \<Rightarrow> \<exists>n. subtree t p = Some n \<and> CanApply m c p n"
    using pickNodeFor_ok [OF assms, of s c m r] by (auto elim!: okE)
  then show ?thesis by (intro exI [of _ picked] exI [of _ r']) (cases picked, auto)
qed

section \<open>Credit for an outcome\<close>

lemma credit_Ops [simp]: "Ops (credit a b rc s) = Ops s"
  by (simp add: credit_def Let_def split: option.split)

lemma credit_nth:
  assumes "table_ok s" and "i < length (Ops s)"
  shows "OpStats (credit a b rc s) ! i = (OpStats s ! i)
    \<lparr>Kept := Kept (OpStats s ! i) + of_nat (if a then hits (op_Name (Ops s ! i)) [rc] else 0),
     Found := Found (OpStats s ! i) + of_nat (if b then hits (op_Name (Ops s ! i)) [rc] else 0)\<rparr>"
proof -
  have len: "i < length (OpStats s)" using assms by (simp add: table_ok_def)
  show ?thesis
  proof (cases "Index s (Mutator rc)")
    case None
    then have "hits (op_Name (Ops s ! i)) [rc] = 0" using table_NoneD [OF assms(1) None assms(2)] by (simp add: hits_def)
    with None show ?thesis by (simp add: credit_def)
  next
    case (Some j)
    then have "Mutator rc = op_Name (Ops s ! j)" using table_IndexD [OF assms(1)] by simp
    then have h: "hits (op_Name (Ops s ! i)) [rc] = (if j = i then 1 else 0)"
      using table_index [OF assms] Some by (auto simp: hits_def)
    show ?thesis
      by (cases a; cases b; cases "j = i") (simp_all add: credit_def Some h bump_nth len)
  qed
qed

lemma RecordOutcome_fold:
  assumes "table_ok s" and "i < length (Ops s)"
  shows "OpStats (fold (credit a b) recs s) ! i = (OpStats s ! i)
    \<lparr>Kept := Kept (OpStats s ! i) + of_nat (if a then hits (op_Name (Ops s ! i)) recs else 0),
     Found := Found (OpStats s ! i) + of_nat (if b then hits (op_Name (Ops s ! i)) recs else 0)\<rparr>"
  using assms
proof (induction recs arbitrary: s)
  case (Cons rc recs)
  have "hits n (rc # recs) = hits n [rc] + hits n recs" for n by (simp add: hits_def)
  then show ?case
    using Cons.IH [of "credit a b rc s"] Cons.prems by (simp add: credit_nth add.assoc)
qed simp

text \<open>An outcome is credited to the operators of its provenance record, once for every time
  they occur in it, and to no other.\<close>

lemma RecordOutcome_credits:
  assumes "table_ok s" and "i < length (Ops s)"
  shows "OpStats (RecordOutcome s recs interesting finding) ! i = (OpStats s ! i)
    \<lparr>Kept := Kept (OpStats s ! i) + of_nat (if interesting then hits (op_Name (Ops s ! i)) recs else 0),
     Found := Found (OpStats s ! i) + of_nat (if finding then hits (op_Name (Ops s ! i)) recs else 0)\<rparr>"
  using RecordOutcome_fold [OF assms] by (simp add: RecordOutcome_def)

section \<open>Every scheduler the program can build\<close>

lemma attempt_table: "attempt c i m p x = Some (changed, y) \<Longrightarrow> table_ok (rSched y) = table_ok (rSched x)"
  by (auto simp: attempt_def Let_def bind_eq_Some_conv split: if_split_asm)

lemma try_slot_table: "try_slot k c x = Some (stop, y) \<Longrightarrow> table_ok (rSched y) = table_ok (rSched x)"
proof (induction k arbitrary: x)
  case (Suc k)
  from Suc.prems show ?case
    by (auto simp: Let_def bind_eq_Some_conv split: if_split_asm option.split_asm
        dest!: Suc.IH attempt_table)
qed simp

lemma slots_table: "slots k c x = Some y \<Longrightarrow> table_ok (rSched x) \<Longrightarrow> table_ok (rSched y)"
proof (induction k arbitrary: x)
  case (Suc k)
  from Suc.prems show ?case
    by (auto simp: bind_eq_Some_conv split: if_split_asm dest: try_slot_table Suc.IH)
qed simp

lemma Scheduler_Mutate_table: "Scheduler_Mutate s c st t = Some y \<Longrightarrow> table_ok s \<Longrightarrow> table_ok (rSched y)"
  by (auto simp: Scheduler_Mutate_def bind_eq_Some_conv dest: slots_table)

inductive sched_reach :: "scheduler \<Rightarrow> bool" where
  new: "sched_reach (NewScheduler ms)"
| add: "sched_reach s \<Longrightarrow> sched_reach (Scheduler_Add s m w)"
| weight: "sched_reach s \<Longrightarrow> sched_reach (fst (SetWeight s name w))"
| mutate: "sched_reach s \<Longrightarrow> Scheduler_Mutate s c st t = Some y \<Longrightarrow> sched_reach (rSched y)"
| outcome: "sched_reach s \<Longrightarrow> sched_reach (RecordOutcome s recs interesting finding)"
| reset: "sched_reach s \<Longrightarrow> sched_reach (ResetStats s)"

text \<open>However a scheduler is built and used, its tables agree: the index finds exactly the
  registered operators, each under its own name and once.\<close>

lemma sched_reach_table:
  assumes "sched_reach s"
  shows "table_ok s \<and> (\<forall>name. Operator s name = find (\<lambda>m. op_Name m = name) (Ops s))"
proof -
  have ok: "table_ok s"
    using assms
    by induction (auto intro: table_NewScheduler table_Add table_SetWeight Scheduler_Mutate_table
        table_RecordOutcome table_ResetStats)
  then have "Operator s name = find (\<lambda>m. op_Name m = name) (Ops s)" for name
    by (simp add: Operator_def indexed_find [OF table_indexed])
  with ok show ?thesis by blast
qed

section \<open>Witnesses\<close>

definition ex_int :: "u64 \<Rightarrow> node" where
  "ex_int v = Node \<lparr>Kind = KindInt, Width = 2, Endian = BigEndian, flags = 0, Sel = 0, Val = v, Name = ''n'',
     Raw = [], MinLen = 0, MaxLen = 0, Derive = None, Target = None\<rparr> []"

definition ex_sched :: scheduler where
  "ex_sched = NewScheduler [IntBitFlip]"

lemma ex_sched_simps: "Ops ex_sched = [IntBitFlip]" "Weights ex_sched = [1]" "MinStack ex_sched = 1" "MaxStack ex_sched = 8"
  by (simp_all add: ex_sched_def NewScheduler_def Scheduler_Add_def)

lemma ex_sched_table: "table_ok ex_sched"
  by (simp add: ex_sched_def table_NewScheduler)

lemma ex_int_ok: "valid (ex_int v)" "mem_ok (ex_int v)" "int (Count (ex_int v)) < 2 ^ 57"
  by (simp_all add: ex_int_def check_simps FitsLen_def IsLeaf_def mem_ok_def Count_preorder in_memory_def)

lemma ex_int_mutates: "mutates [IntBitFlip] c (ex_int v) u \<Longrightarrow> \<exists>w. u = ex_int w"
proof (erule mutatesE)
  fix m p n changed n' r r'
  assume "u = put_node (ex_int v) p n'" "m \<in> set [IntBitFlip]" "subtree (ex_int v) p = Some n"
    "Mutate m c n r = Some (changed, n', r')"
  moreover from this have "p = []" by (cases p) (auto simp: ex_int_def)
  ultimately show "\<exists>w. u = ex_int w"
    by (auto simp: ex_int_def IntBitFlip_Mutate_def bind_eq_Some_conv set_val_field_def upd_def)
qed

lemma ex_int_small: "stays_small k [IntBitFlip] c (ex_int v)"
proof -
  have "(mutates [IntBitFlip] c ^^ j) (ex_int v) u \<Longrightarrow> \<exists>w. u = ex_int w" for j u
  proof (induction j arbitrary: u)
    case (Suc j)
    then show ?case using ex_int_mutates by (auto elim!: relpowp_Suc_E) blast
  qed auto
  then show ?thesis using ex_int_ok(2) by (fastforce simp: stays_small_def)
qed

lemmas ex_round = ex_sched_table ex_sched_simps ex_ctx_ok ex_int_ok

lemma Scheduler_Mutate_round_witness:
  "\<exists>y. Scheduler_Mutate ex_sched ex_ctx (NewCtx 1 0) (ex_int 5) = Some y \<and> valid (rTree y)"
proof -
  have "\<exists>y. Scheduler_Mutate ex_sched ex_ctx (NewCtx 1 0) (ex_int 5) = Some y \<and> valid (rTree y) \<and>
      length (rOps y) \<le> max_stack ex_sched \<and> tallied ex_sched (rOps y) (rSched y)"
    by (rule Scheduler_Mutate_round) (simp_all add: ex_round ex_int_small)
  then show ?thesis by blast
qed

lemma ex_round_returns: "\<exists>y. Scheduler_Mutate ex_sched ex_ctx st (ex_int 5) = Some y"
  using ok_not_None [OF Scheduler_Mutate_ok [of ex_sched ex_ctx "ex_int 5" st]]
  by (auto simp: ex_round ex_int_small)

theorem Scheduler_Mutate_replays_witness:
  "\<exists>y. Scheduler_Mutate ex_sched ex_ctx (NewCtx 1 0) (ex_int 5) = Some y \<and>
     replay ex_sched ex_ctx (Rand (NewCtx 1 0)) (rOps y) (ex_int 5) = Some (rTree y)"
proof -
  obtain y where y: "Scheduler_Mutate ex_sched ex_ctx (NewCtx 1 0) (ex_int 5) = Some y" using ex_round_returns by blast
  have "replay ex_sched ex_ctx (Rand (NewCtx 1 0)) (rOps y) (ex_int 5) = Some (rTree y)"
    by (rule Scheduler_Mutate_replays [OF _ _ _ _ _ _ y]) (simp_all add: ex_round ex_int_small)
  with y show ?thesis by blast
qed

lemma pickNodeFor_finds_witness:
  "\<exists>p r'. pickNodeFor ex_sched ex_ctx (ex_int 5) IntBitFlip (New 1) = Some (Some p, r')"
proof -
  have "subtree (ex_int 5) [] = Some (ex_int 5) \<and> CanApply IntBitFlip ex_ctx [] (ex_int 5)"
    by (simp add: ex_int_def IntBitFlip_CanApply_def isMutableInt_def Immutable_def)
  then have "\<not> (\<nexists>p n. subtree (ex_int 5) p = Some n \<and> CanApply IntBitFlip ex_ctx p n)" by blast
  with pickNodeFor_finds [OF ex_int_ok(3), of ex_sched ex_ctx 5 IntBitFlip "New 1"] show ?thesis
    by (metis not_None_eq)
qed

lemma RecordOutcome_credits_witness:
  "Kept (OpStats (RecordOutcome ex_sched [\<lparr>Mutator = ''int-bitflip'', Path = [], RandPos = 3\<rparr>] True False) ! 0) = 1"
  using RecordOutcome_credits [OF ex_sched_table, of 0 "[\<lparr>Mutator = ''int-bitflip'', Path = [], RandPos = 3\<rparr>]" True False]
  by (simp add: ex_sched_simps hits_def) (simp add: ex_sched_def NewScheduler_def Scheduler_Add_def zero_stats_def)

lemma sched_reach_table_witness:
  "Operator (Scheduler_Add ex_sched BitFlip 3) ''bitflip'' = Some BitFlip"
  using sched_reach_table [OF sched_reach.add [OF sched_reach.new], of "[IntBitFlip]" BitFlip 3]
  by (simp add: ex_sched_def [symmetric] Scheduler_Add_def ex_sched_simps split: option.splits)
     (simp add: ex_sched_def NewScheduler_def Scheduler_Add_def)

end
