(* ===== verification/Corpus.thy ===== *)
theory Corpus
  imports Index_Map IR_Node Rng
begin

text \<open>
  The corpus of \<open>pkg/corpus/corpus.go\<close>: content-addressed entries, admission and
  removal, the totals kept beside them, and of \<open>pkg/corpus/schedule.go\<close> the uniform
  and the round-robin schedule and the favoured set. The fast schedule weighs
  entries in floating point and is not modelled. The digest function is SHA-256
  of the standard library and is an argument; the time of discovery is only
  reported and is left out.
\<close>

section \<open>Entries\<close>

type_synonym digest = "byte list"

record testcase =
  ID :: digest
  Input :: node
  Bytes :: "byte list"
  ExecTime :: u64
  Size :: int
  Coverage :: int
  Fuzzed :: u64
  Kids :: u64 \<comment> \<open>\<open>Meta.Children\<close>\<close>
  Depth :: int
  Favoured :: bool

definition NewTestcase :: "(byte list \<Rightarrow> digest) \<Rightarrow> node \<Rightarrow> byte list \<Rightarrow> testcase" where
  "NewTestcase sum256 input encoded =
     \<lparr>ID = sum256 encoded, Input = input, Bytes = encoded, ExecTime = 0,
      Size = int (length encoded), Coverage = 0, Fuzzed = 0, Kids = 0, Depth = 0, Favoured = False\<rparr>"

record corpus =
  entries :: "testcase list"
  byID :: "digest \<rightharpoonup> nat"
  totalBytes :: u64
  totalTime :: u64
  totalCov :: u64

definition NewCorpus :: corpus where
  "NewCorpus = \<lparr>entries = [], byID = Map.empty, totalBytes = 0, totalTime = 0, totalCov = 0\<rparr>"

definition Len :: "corpus \<Rightarrow> nat" where
  "Len c = length (entries c)"

definition At :: "corpus \<Rightarrow> int \<Rightarrow> testcase option" where
  "At c i = get_at (entries c) i"

definition Lookup :: "corpus \<Rightarrow> digest \<Rightarrow> testcase option" where
  "Lookup c d = (case byID c d of None \<Rightarrow> None | Some i \<Rightarrow> Some (entries c ! i))"

definition Contains :: "corpus \<Rightarrow> digest \<Rightarrow> bool" where
  "Contains c d \<longleftrightarrow> byID c d \<noteq> None"

definition Add :: "corpus \<Rightarrow> testcase \<Rightarrow> corpus \<times> bool" where
  "Add c tc =
     (if byID c (ID tc) \<noteq> None then (c, False)
      else (c\<lparr>byID := (byID c)(ID tc \<mapsto> length (entries c)), entries := entries c @ [tc],
              totalBytes := totalBytes c + word_of_int (Size tc),
              totalTime := totalTime c + ExecTime tc,
              totalCov := totalCov c + word_of_int (Coverage tc)\<rparr>, True))"

definition Remove :: "corpus \<Rightarrow> int \<Rightarrow> corpus option" where
  "Remove c i = do {
     tc \<leftarrow> get_at (entries c) i;
     let c = c\<lparr>totalBytes := totalBytes c - word_of_int (Size tc),
               totalTime := totalTime c - ExecTime tc,
               totalCov := totalCov c - word_of_int (Coverage tc)\<rparr>;
     let idx = (byID c)(ID tc := None);
     let final = length (entries c) - 1;
     let es = butlast ((entries c)[nat i := entries c ! final]);
     Some (c\<lparr>entries := es,
             byID := (if i < int final then idx(ID (es ! nat i) \<mapsto> nat i) else idx)\<rparr>)
   }"

record corpus_stats =
  Entries :: nat
  TotalBytes :: u64
  MaxDepth :: int
  FavouredCount :: nat

definition Stats :: "corpus \<Rightarrow> corpus_stats" where
  "Stats c =
     fold (\<lambda>e s.
       let s = (if Depth e > MaxDepth s then s\<lparr>MaxDepth := Depth e\<rparr> else s)
       in if Favoured e then s\<lparr>FavouredCount := FavouredCount s + 1\<rparr> else s)
       (entries c) \<lparr>Entries = length (entries c), TotalBytes = totalBytes c, MaxDepth = 0, FavouredCount = 0\<rparr>"

definition SortedByCoverage :: "corpus \<Rightarrow> nat list" where
  "SortedByCoverage c = sort_key (\<lambda>i. - Coverage (entries c ! i)) [0..<length (entries c)]"

section \<open>The invariant\<close>

definition total :: "(testcase \<Rightarrow> u64) \<Rightarrow> testcase list \<Rightarrow> u64" where
  "total f es = sum_list (map f es)"

definition corpus_ok :: "corpus \<Rightarrow> bool" where
  "corpus_ok c \<longleftrightarrow> indexed ID (entries c) (byID c) \<and>
     totalBytes c = total (\<lambda>e. word_of_int (Size e)) (entries c) \<and>
     totalTime c = total ExecTime (entries c) \<and>
     totalCov c = total (\<lambda>e. word_of_int (Coverage e)) (entries c)"

lemma total_mset: "mset xs = mset ys \<Longrightarrow> total f xs = total f ys"
  unfolding total_def by (metis mset_map sum_mset_sum_list)

lemma total_simps [simp]: "total f [] = 0" "total f (xs @ [x]) = total f xs + f x" "total f (x # xs) = f x + total f xs"
  by (simp_all add: total_def)

lemma NewCorpus_ok: "corpus_ok NewCorpus"
  by (simp add: NewCorpus_def corpus_ok_def)

lemma Add_ok: "corpus_ok c \<Longrightarrow> corpus_ok (fst (Add c tc))"
  by (auto simp: Add_def corpus_ok_def intro: indexed_push)

lemma Remove_swap:
  assumes "i < length (entries c)"
  shows "Remove c (int i) = Some (c\<lparr>
     totalBytes := totalBytes c - word_of_int (Size (entries c ! i)),
     totalTime := totalTime c - ExecTime (entries c ! i),
     totalCov := totalCov c - word_of_int (Coverage (entries c ! i)),
     entries := swap_remove i (entries c), byID := unindex ID i (entries c) (byID c)\<rparr>)"
proof -
  have l: "entries c ! (length (entries c) - Suc 0) = last (entries c)" using last_nth [OF assms] by simp
  then have b: "butlast ((entries c)[i := entries c ! (length (entries c) - Suc 0)]) = swap_remove i (entries c)"
    by (simp add: swap_remove_def)
  have e: "swap_remove i (entries c) ! i = last (entries c)" if "i < length (entries c) - 1"
    using nth_swap_remove [OF assms that] by simp
  show ?thesis using assms e
    by (simp add: Remove_def get_at_def Let_def b unindex_def)
qed

lemma Remove_ok:
  assumes "corpus_ok c" and "i < length (entries c)"
  shows "ok (Remove c (int i)) (\<lambda>c'. corpus_ok c' \<and> mset (entries c) = add_mset (entries c ! i) (mset (entries c')) \<and>
    entries c' = swap_remove i (entries c))"
proof -
  have "total f (entries c) = f (entries c ! i) + total f (swap_remove i (entries c))" for f
    using total_mset [of "entries c" "entries c ! i # swap_remove i (entries c)" f] mset_swap_remove [OF assms(2)] by simp
  then show ?thesis
    using assms indexed_swap_remove [of ID "entries c" "byID c" i] mset_swap_remove [OF assms(2)]
    by (simp add: Remove_swap corpus_ok_def)
qed

section \<open>Favoured entries\<close>

text \<open>
  \<open>MarkFavoured\<close>: for each feature the first of the smallest entries that reach
  it. The cost is the size; the source converts it to a float, which is exact for
  every size below \<open>2 ^ 53\<close>.
\<close>

definition offer :: "nat \<Rightarrow> int \<Rightarrow> u32 \<Rightarrow> (u32 \<rightharpoonup> nat \<times> int) \<Rightarrow> (u32 \<rightharpoonup> nat \<times> int)" where
  "offer i w edge best =
     (case best edge of
        None \<Rightarrow> best(edge \<mapsto> (i, w))
      | Some (j, prev) \<Rightarrow> if w < prev then best(edge \<mapsto> (i, w)) else best)"

fun best_entries :: "(testcase \<Rightarrow> u32 list) \<Rightarrow> nat \<Rightarrow> testcase list \<Rightarrow> (u32 \<rightharpoonup> nat \<times> int) \<Rightarrow> (u32 \<rightharpoonup> nat \<times> int)" where
  "best_entries coverageOf i [] best = best"
| "best_entries coverageOf i (tc # tcs) best =
     best_entries coverageOf (Suc i) tcs (fold (offer i (Size tc)) (coverageOf tc) best)"

definition MarkFavoured :: "(testcase \<Rightarrow> u32 list) \<Rightarrow> corpus \<Rightarrow> corpus" where
  "MarkFavoured coverageOf c =
     (let best = best_entries coverageOf 0 (entries c) Map.empty;
          edges = concat (map coverageOf (entries c));
          chosen = map (\<lambda>e. fst (the (best e))) edges
      in c\<lparr>entries := map (\<lambda>i. (entries c ! i)\<lparr>Favoured := i \<in> set chosen\<rparr>) [0..<length (entries c)]\<rparr>)"

text \<open>The best entry for a feature among a list: the earliest of minimal size.\<close>

definition cheapest :: "(testcase \<Rightarrow> u32 list) \<Rightarrow> testcase list \<Rightarrow> u32 \<Rightarrow> nat \<Rightarrow> bool" where
  "cheapest cov es e i \<longleftrightarrow> i < length es \<and> e \<in> set (cov (es ! i)) \<and>
     (\<forall>j < length es. e \<in> set (cov (es ! j)) \<longrightarrow> Size (es ! i) < Size (es ! j) \<or> Size (es ! i) = Size (es ! j) \<and> i \<le> j)"

lemma fold_offer:
  "fold (offer i w) es best e =
     (if e \<in> set es then (case best e of None \<Rightarrow> Some (i, w)
        | Some (j, prev) \<Rightarrow> if w < prev then Some (i, w) else Some (j, prev)) else best e)"
  by (induction es arbitrary: best) (auto simp: offer_def split: option.splits prod.splits if_splits)

lemma best_entries_spec:
  assumes "\<And>e. case best e of None \<Rightarrow> \<forall>tc \<in> set seen. e \<notin> set (cov tc)
      | Some (j, w) \<Rightarrow> cheapest cov seen e j \<and> w = Size (seen ! j)"
  shows "case best_entries cov (length seen) es best e of None \<Rightarrow> \<forall>tc \<in> set (seen @ es). e \<notin> set (cov tc)
      | Some (j, w) \<Rightarrow> cheapest cov (seen @ es) e j \<and> w = Size ((seen @ es) ! j)"
  using assms
proof (induction es arbitrary: best seen)
  case (Cons tc es)
  let ?b = "fold (offer (length seen) (Size tc)) (cov tc) best"
  have step: "case ?b e of None \<Rightarrow> \<forall>t \<in> set (seen @ [tc]). e \<notin> set (cov t)
      | Some (j, w) \<Rightarrow> cheapest cov (seen @ [tc]) e j \<and> w = Size ((seen @ [tc]) ! j)" for e
  proof -
    have old: "cheapest cov (seen @ [tc]) e j" if "cheapest cov seen e j" "e \<in> set (cov tc) \<longrightarrow> Size (seen ! j) \<le> Size tc" for j
      using that by (auto simp: cheapest_def nth_append less_Suc_eq)
    have new: "cheapest cov (seen @ [tc]) e (length seen)"
      if "e \<in> set (cov tc)" "\<forall>j < length seen. e \<in> set (cov (seen ! j)) \<longrightarrow> Size tc < Size (seen ! j)"
      using that by (auto simp: cheapest_def nth_append less_Suc_eq)
    show ?thesis
    proof (cases "best e")
      case None
      with Cons.prems [of e] have "\<forall>j < length seen. e \<notin> set (cov (seen ! j))" by simp
      with None Cons.prems [of e] new show ?thesis by (simp add: fold_offer)
    next
      case (Some jw)
      obtain j w where jw: "jw = (j, w)" by (cases jw)
      with Some Cons.prems [of e] have j: "cheapest cov seen e j" "w = Size (seen ! j)" by simp_all
      then have lt: "j < length seen" by (simp add: cheapest_def)
      have "Size tc < w \<Longrightarrow> \<forall>k < length seen. e \<in> set (cov (seen ! k)) \<longrightarrow> Size tc < Size (seen ! k)"
        using j by (fastforce simp: cheapest_def)
      with Some jw j lt old new show ?thesis by (auto simp: fold_offer nth_append)
    qed
  qed
  have "length (seen @ [tc]) = Suc (length seen)" "(seen @ [tc]) @ es = seen @ tc # es" by simp_all
  with Cons.IH [of "seen @ [tc]" ?b, OF step] show ?case by (simp only: best_entries.simps)
next
  case Nil
  from Nil [of e] show ?case by (simp only: best_entries.simps append_Nil2)
qed

lemma cheapest_unique:
  assumes "cheapest cov es e j" and "cheapest cov es e k"
  shows "j = k"
proof -
  have "Size (es ! j) < Size (es ! k) \<or> Size (es ! j) = Size (es ! k) \<and> j \<le> k"
    and "Size (es ! k) < Size (es ! j) \<or> Size (es ! k) = Size (es ! j) \<and> k \<le> j"
    using assms by (simp_all add: cheapest_def)
  then show ?thesis by linarith
qed

lemma favoured_iff:
  assumes "i < length (entries c)"
  shows "Favoured (entries (MarkFavoured cov c) ! i) \<longleftrightarrow> (\<exists>e. cheapest cov (entries c) e i)"
proof -
  let ?best = "best_entries cov 0 (entries c) Map.empty"
  have spec: "case ?best e of None \<Rightarrow> \<forall>tc \<in> set (entries c). e \<notin> set (cov tc)
      | Some (j, w) \<Rightarrow> cheapest cov (entries c) e j \<and> w = Size (entries c ! j)" for e
    using best_entries_spec [where seen = "[]" and best = Map.empty and cov = cov and es = "entries c" and e = e]
    by (simp only: append_Nil list.size) simp
  have uniq: "cheapest cov (entries c) e j \<Longrightarrow> cheapest cov (entries c) e k \<Longrightarrow> j = k" for e j k
    using cheapest_unique by blast
  have the_best: "fst (the (?best e)) = j" if "cheapest cov (entries c) e j" for e j
  proof (cases "?best e")
    case None
    with spec [of e] that show ?thesis by (auto simp: cheapest_def)
  next
    case (Some jw)
    with spec [of e] uniq [OF that] show ?thesis by (auto split: prod.splits)
  qed
  have ex: "\<exists>j. cheapest cov (entries c) e j" if "e \<in> set (concat (map cov (entries c)))" for e
    using spec [of e] that by (auto split: option.splits)
  have "i \<in> set (map (\<lambda>e. fst (the (?best e))) (concat (map cov (entries c)))) \<longleftrightarrow> (\<exists>e. cheapest cov (entries c) e i)"
  proof
    assume "i \<in> set (map (\<lambda>e. fst (the (?best e))) (concat (map cov (entries c))))"
    then obtain e where "e \<in> set (concat (map cov (entries c)))" "i = fst (the (?best e))" by auto
    with ex the_best show "\<exists>e. cheapest cov (entries c) e i" by metis
  next
    assume "\<exists>e. cheapest cov (entries c) e i"
    then obtain e where e: "cheapest cov (entries c) e i" by blast
    then have "e \<in> set (concat (map cov (entries c)))" by (auto simp: cheapest_def)
    with the_best [OF e] show "i \<in> set (map (\<lambda>e. fst (the (?best e))) (concat (map cov (entries c))))" by force
  qed
  with assms show ?thesis by (simp add: MarkFavoured_def Let_def)
qed

section \<open>Schedules\<close>

datatype sched_error = EmptyCorpus

definition bump_fuzzed :: "corpus \<Rightarrow> int \<Rightarrow> corpus option" where
  "bump_fuzzed c i = do {
     tc \<leftarrow> get_at (entries c) i;
     Some (c\<lparr>entries := (entries c)[nat i := tc\<lparr>Fuzzed := Fuzzed tc + 1\<rparr>]\<rparr>)
   }"

record rand_scheduler =
  randFixed :: int

definition NewRandScheduler :: rand_scheduler where
  "NewRandScheduler = \<lparr>randFixed = 64\<rparr>"

definition Rand_Next :: "rand_scheduler \<Rightarrow> corpus \<Rightarrow> rand \<Rightarrow> ((sched_error + int) \<times> rand_scheduler \<times> rand) option" where
  "Rand_Next s c r =
     (if Len c = 0 then Some (Inl EmptyCorpus, s, r)
      else do { (i, r) \<leftarrow> Intn (int (Len c)) r; Some (Inr i, s, r) })"

definition Rand_Energy :: "rand_scheduler \<Rightarrow> corpus \<Rightarrow> int \<Rightarrow> int" where
  "Rand_Energy s c i = randFixed s"

definition Rand_Update :: "rand_scheduler \<Rightarrow> corpus \<Rightarrow> int \<Rightarrow> corpus option" where
  "Rand_Update s c i = bump_fuzzed c i"

record round_robin =
  rrFixed :: int
  rrNext :: int

definition NewRoundRobin :: round_robin where
  "NewRoundRobin = \<lparr>rrFixed = 64, rrNext = 0\<rparr>"

definition RoundRobin_Next :: "round_robin \<Rightarrow> corpus \<Rightarrow> rand \<Rightarrow> ((sched_error + int) \<times> round_robin \<times> rand) option" where
  "RoundRobin_Next s c r =
     (if Len c = 0 then Some (Inl EmptyCorpus, s, r)
      else let s = (if rrNext s \<ge> int (Len c) then s\<lparr>rrNext := 0\<rparr> else s);
               i = rrNext s
           in Some (Inr i, s\<lparr>rrNext := i + 1\<rparr>, r))"

definition RoundRobin_Energy :: "round_robin \<Rightarrow> corpus \<Rightarrow> int \<Rightarrow> int" where
  "RoundRobin_Energy s c i = rrFixed s"

definition RoundRobin_Update :: "round_robin \<Rightarrow> corpus \<Rightarrow> int \<Rightarrow> corpus option" where
  "RoundRobin_Update s c i = bump_fuzzed c i"

text \<open>
  The contract of \<open>Scheduler\<close>: a schedule fails on the empty corpus and otherwise
  names an entry; what it records of an execution keeps the corpus consistent
  and its entries in place.
\<close>

locale schedule =
  fixes inv :: "'s \<Rightarrow> bool"
    and nxt :: "'s \<Rightarrow> corpus \<Rightarrow> rand \<Rightarrow> ((sched_error + int) \<times> 's \<times> rand) option"
    and upd :: "'s \<Rightarrow> corpus \<Rightarrow> int \<Rightarrow> corpus option"
  assumes nxt_ok: "inv s \<Longrightarrow> int (length (entries c)) < 2 ^ 63 \<Longrightarrow>
      ok (nxt s c r) (\<lambda>(res, s', r'). inv s' \<and>
        (case res of Inl e \<Rightarrow> entries c = [] | Inr i \<Rightarrow> 0 \<le> i \<and> i < int (length (entries c))))"
    and upd_ok: "corpus_ok c \<Longrightarrow> 0 \<le> i \<Longrightarrow> i < int (length (entries c)) \<Longrightarrow>
      ok (upd s c i) (\<lambda>c'. corpus_ok c' \<and> map ID (entries c') = map ID (entries c))"
begin

text \<open>A turn of the loop: pick an entry, run it, record that it ran; and a number of turns.\<close>

definition turn :: "'s \<times> corpus \<times> rand \<Rightarrow> ('s \<times> corpus \<times> rand) option" where
  "turn st = (case st of (s, c, r) \<Rightarrow> do {
     (res, s, r) \<leftarrow> nxt s c r;
     case res of Inl e \<Rightarrow> Some (s, c, r) | Inr i \<Rightarrow> do { c \<leftarrow> upd s c i; Some (s, c, r) }
   })"

definition good :: "digest list \<Rightarrow> 's \<times> corpus \<times> rand \<Rightarrow> bool" where
  "good ds st \<longleftrightarrow> (case st of (s, c, r) \<Rightarrow>
     inv s \<and> corpus_ok c \<and> int (length (entries c)) < 2 ^ 63 \<and> map ID (entries c) = ds)"

lemma turn_good: "good ds st \<Longrightarrow> ok (turn st) (good ds)"
proof -
  obtain s c r where st: "st = (s, c, r)" by (cases st)
  assume "good ds st"
  then have g: "inv s" "corpus_ok c" "int (length (entries c)) < 2 ^ 63" "map ID (entries c) = ds"
    by (simp_all add: st good_def)
  have run: "ok (case res of Inl e \<Rightarrow> Some (s', c, r') | Inr i \<Rightarrow> do { c \<leftarrow> upd s' c i; Some (s', c, r') }) (good ds)"
    if "inv s'" "case res of Inl e \<Rightarrow> entries c = [] | Inr i \<Rightarrow> 0 \<le> i \<and> i < int (length (entries c))"
    for res :: "sched_error + int" and s' r'
  proof (cases res)
    case (Inl e)
    then show ?thesis using g that by (simp add: good_def)
  next
    case (Inr i)
    then have "ok (upd s' c i) (\<lambda>c'. corpus_ok c' \<and> map ID (entries c') = map ID (entries c))"
      using upd_ok [OF g(2)] that by simp
    then have "ok (upd s' c i) (\<lambda>c. ok (Some (s', c, r')) (good ds))"
    proof (rule ok_mono)
      fix c' assume c': "corpus_ok c' \<and> map ID (entries c') = map ID (entries c)"
      then have "length (entries c') = length (entries c)" by (metis length_map)
      with c' g that(1) show "ok (Some (s', c', r')) (good ds)" by (simp add: good_def)
    qed
    with Inr show ?thesis by (auto intro: ok_bind)
  qed
  show ?thesis
    unfolding turn_def st prod.case
    by (rule ok_bind, rule ok_mono [OF nxt_ok [OF g(1,3)]]) (auto intro: run)
qed

lemma turns_good: "good ds st \<Longrightarrow> ok (for_upto k (\<lambda>_. turn) st) (good ds)"
  by (rule ok_for_upto [where I = "\<lambda>_. good ds"]) (auto intro: turn_good)

end

lemma map_field_update: "i < length xs \<Longrightarrow> f (g (xs ! i)) = f (xs ! i) \<Longrightarrow> map f (xs[i := g (xs ! i)]) = map f xs"
  by (simp add: map_update list_update_same_conv)

lemma bump_fuzzed_ok:
  assumes "corpus_ok c" and "0 \<le> i" and "i < int (length (entries c))"
  shows "ok (bump_fuzzed c i) (\<lambda>c'. corpus_ok c' \<and> map ID (entries c') = map ID (entries c))"
proof -
  let ?f = "\<lambda>tc. tc\<lparr>Fuzzed := Fuzzed tc + 1\<rparr>" and ?e = "entries c ! nat i"
  have i: "nat i < length (entries c)" using assms by linarith
  have "indexed ID ((entries c)[nat i := ?f ?e]) (byID c)"
    using indexed_update [of ID "entries c" "byID c" "nat i" ?f] assms(1) by (simp add: corpus_ok_def)
  moreover note map_field_update [OF i, of ID ?f] map_field_update [OF i, of ExecTime ?f]
    map_field_update [OF i, of "\<lambda>e. word_of_int (Size e) :: u64" ?f]
    map_field_update [OF i, of "\<lambda>e. word_of_int (Coverage e) :: u64" ?f]
  ultimately show ?thesis
    using assms by (simp add: bump_fuzzed_def get_at_def corpus_ok_def total_def)
qed

interpretation rand_schedule: schedule "\<lambda>_. True" Rand_Next Rand_Update
proof unfold_locales
  fix s :: rand_scheduler and c :: corpus and r assume "int (length (entries c)) < 2 ^ 63"
  then show "ok (Rand_Next s c r) (\<lambda>(res, s', r'). True \<and>
      (case res of Inl e \<Rightarrow> entries c = [] | Inr i \<Rightarrow> 0 \<le> i \<and> i < int (length (entries c))))"
    unfolding Rand_Next_def by (intro wp) (auto simp: Len_def)
qed (auto simp: Rand_Update_def bump_fuzzed_ok)

interpretation round_robin: schedule "\<lambda>s. 0 \<le> rrNext s" RoundRobin_Next RoundRobin_Update
  by unfold_locales (auto simp: RoundRobin_Next_def Let_def Len_def RoundRobin_Update_def bump_fuzzed_ok)

text \<open>The indices a number of consecutive picks of the round-robin schedule return.\<close>

fun round_robin_picks :: "nat \<Rightarrow> round_robin \<Rightarrow> corpus \<Rightarrow> rand \<Rightarrow> int list" where
  "round_robin_picks 0 s c r = []"
| "round_robin_picks (Suc k) s c r =
     (case RoundRobin_Next s c r of Some (Inr i, s, r) \<Rightarrow> i # round_robin_picks k s c r | _ \<Rightarrow> [])"

lemma round_robin_picks_mod:
  assumes "0 \<le> rrNext s" and "0 < Len c"
  shows "round_robin_picks k s c r =
    map (\<lambda>j. ((if rrNext s \<ge> int (Len c) then 0 else rrNext s) + int j) mod int (Len c)) [0..<k]"
  using assms(1)
proof (induction k arbitrary: s)
  case (Suc k)
  define n where "n = int (Len c)"
  define m where "m = (if rrNext s \<ge> n then 0 else rrNext s)"
  have m: "0 \<le> m" "m < n" using Suc.prems assms(2) by (auto simp: m_def n_def)
  let ?s = "s\<lparr>rrNext := m + 1\<rparr>"
  have next_s: "RoundRobin_Next s c r = Some (Inr m, ?s, r)"
    using assms(2) by (simp add: RoundRobin_Next_def Let_def m_def n_def)
  have wrap: "((if m + 1 \<ge> n then 0 else m + 1) + int j) mod n = (m + int (Suc j)) mod n" for j
  proof (cases "m + 1 = n")
    case True
    then have e: "m + int (Suc j) = int j + n" by simp
    show ?thesis unfolding e using True by simp
  next
    case False
    with m have "\<not> n \<le> m + 1" by linarith
    then show ?thesis by (simp add: algebra_simps)
  qed
  have "round_robin_picks k ?s c r = map (\<lambda>j. (m + int (Suc j)) mod n) [0..<k]"
  proof -
    have "round_robin_picks k ?s c r = map (\<lambda>j. ((if m + 1 \<ge> n then 0 else m + 1) + int j) mod n) [0..<k]"
      using Suc.IH [of ?s] m(1) unfolding n_def [symmetric] by simp
    then show ?thesis by (simp only: wrap)
  qed
  moreover have "m mod n = m" using m by simp
  ultimately have "round_robin_picks (Suc k) s c r = map (\<lambda>j. (m + int j) mod n) [0..<Suc k]"
    by (simp add: next_s map_upt_Suc del: upt_Suc)
  then show ?case by (simp only: m_def n_def)
qed simp

section \<open>What the package promises\<close>

text \<open>C11. The round-robin schedule is fair: over as many consecutive picks as the corpus has
  entries, from wherever it stands, every entry is picked exactly once.\<close>

theorem round_robin_fair:
  assumes "0 \<le> rrNext s" and "0 < Len c"
  shows "distinct (round_robin_picks (Len c) s c r) \<and> set (round_robin_picks (Len c) s c r) = {0..<int (Len c)}"
proof -
  let ?n = "int (Len c)" and ?m = "if rrNext s \<ge> int (Len c) then 0 else rrNext s"
  let ?f = "\<lambda>j. (?m + int j) mod ?n"
  have "inj_on ?f {0..<Len c}"
  proof (rule inj_onI)
    fix i j assume ij: "i \<in> {0..<Len c}" "j \<in> {0..<Len c}" "?f i = ?f j"
    then have "int i mod ?n = int j mod ?n" by (metis add_diff_cancel_left' mod_diff_left_eq)
    with ij show "i = j" by simp
  qed
  then have d: "distinct (round_robin_picks (Len c) s c r)"
    unfolding round_robin_picks_mod [OF assms] by (simp add: distinct_map)
  have sub: "set (round_robin_picks (Len c) s c r) \<subseteq> {0..<?n}"
    unfolding round_robin_picks_mod [OF assms] using assms(2) by auto
  have "card (set (round_robin_picks (Len c) s c r)) = card {0..<?n}"
    using distinct_card [OF d] by (simp add: round_robin_picks_mod [OF assms])
  with sub d show ?thesis using card_subset_eq [of "{0..<?n}"] by simp
qed

text \<open>C10. The favoured entries are, for every feature some entry reaches, the first of the smallest
  that reach it, and no others.\<close>

theorem MarkFavoured_minimal:
  assumes "i < length (entries c)"
  shows "Favoured (entries (MarkFavoured cov c) ! i) \<longleftrightarrow>
    (\<exists>e. e \<in> set (cov (entries c ! i)) \<and>
      (\<nexists>j. j < length (entries c) \<and> e \<in> set (cov (entries c ! j)) \<and>
        (Size (entries c ! j) < Size (entries c ! i) \<or> Size (entries c ! j) = Size (entries c ! i) \<and> j < i)))"
proof -
  have "cheapest cov (entries c) e i \<longleftrightarrow> e \<in> set (cov (entries c ! i)) \<and>
      (\<nexists>j. j < length (entries c) \<and> e \<in> set (cov (entries c ! j)) \<and>
        (Size (entries c ! j) < Size (entries c ! i) \<or> Size (entries c ! j) = Size (entries c ! i) \<and> j < i))" for e
    using assms unfolding cheapest_def by (auto simp: not_less not_le) force+
  then show ?thesis unfolding favoured_iff [OF assms] by blast
qed

end
