(* ===== verification/Corpus_Distill.thy ===== *)
theory Corpus_Distill
  imports Corpus Complex_Main
begin

text \<open>
  Distillation, \<open>pkg/corpus/distill.go\<close>: the greedy choice of a small subset of a
  corpus that reaches every feature the corpus reaches, and the reduction of the
  corpus to it. What an entry reaches is the argument \<open>coverageOf\<close>. The maps of
  features are sets; entries are chosen by index, the flags in \<open>chosen\<close>.
\<close>

section \<open>The greedy cover\<close>

definition gain :: "u32 set \<Rightarrow> u32 list \<Rightarrow> nat" where
  "gain uncovered cover = length (filter (\<lambda>f. f \<in> uncovered) cover)"

record best =
  bestAt :: "nat option"
  bestGain :: nat
  bestSize :: nat

definition look :: "u32 set \<Rightarrow> bool list \<Rightarrow> u32 list list \<Rightarrow> nat list \<Rightarrow> nat \<Rightarrow> best \<Rightarrow> best" where
  "look uncovered chosen covers sizes i b =
     (if chosen ! i then b
      else let g = gain uncovered (covers ! i); size = sizes ! i
           in if g = 0 then b
              else if g > bestGain b \<or> g = bestGain b \<and> size < bestSize b
              then \<lparr>bestAt = Some i, bestGain = g, bestSize = size\<rparr>
              else b)"

definition find_best :: "u32 set \<Rightarrow> bool list \<Rightarrow> u32 list list \<Rightarrow> nat list \<Rightarrow> nat option" where
  "find_best uncovered chosen covers sizes =
     bestAt (fold (look uncovered chosen covers sizes) [0..<length chosen]
       \<lparr>bestAt = None, bestGain = 0, bestSize = 0\<rparr>)"

text \<open>The scan finds, among the entries not chosen, one of the largest gain.\<close>

definition leads :: "u32 set \<Rightarrow> bool list \<Rightarrow> u32 list list \<Rightarrow> nat \<Rightarrow> best \<Rightarrow> bool" where
  "leads uncovered chosen covers k b \<longleftrightarrow>
     (case bestAt b of
        None \<Rightarrow> bestGain b = 0 \<and> (\<forall>i < k. \<not> chosen ! i \<longrightarrow> gain uncovered (covers ! i) = 0)
      | Some i \<Rightarrow> i < k \<and> \<not> chosen ! i \<and> bestGain b = gain uncovered (covers ! i) \<and> 0 < bestGain b \<and>
          (\<forall>j < k. \<not> chosen ! j \<longrightarrow> gain uncovered (covers ! j) \<le> bestGain b))"

lemma look_leads: "leads u ch cv k b \<Longrightarrow> leads u ch cv (Suc k) (look u ch cv sz k b)"
  unfolding leads_def look_def Let_def by (auto simp: less_Suc_eq split: option.splits)

lemma fold_leads: "leads u ch cv k (fold (look u ch cv sz) [0..<k] \<lparr>bestAt = None, bestGain = 0, bestSize = 0\<rparr>)"
  by (induction k) (simp_all add: look_leads, simp add: leads_def)

lemma find_best_Some:
  assumes "find_best u ch cv sz = Some i"
  shows "i < length ch \<and> \<not> ch ! i \<and> 0 < gain u (cv ! i) \<and>
    (\<forall>j < length ch. \<not> ch ! j \<longrightarrow> gain u (cv ! j) \<le> gain u (cv ! i))"
  using assms fold_leads [of u ch cv "length ch" sz] by (auto simp: find_best_def leads_def)

lemma find_best_None:
  assumes "find_best u ch cv sz = None" and "i < length ch" and "\<not> ch ! i"
  shows "gain u (cv ! i) = 0"
  using assms fold_leads [of u ch cv "length ch" sz] by (auto simp: find_best_def leads_def)

lemma flag_count:
  assumes "b < length ch" and "\<not> ch ! b"
  shows "length (filter Not (ch[b := True])) < length (filter Not ch)"
proof -
  have "filter Not ch = filter Not (take b ch) @ False # filter Not (drop (Suc b) ch)"
    using assms by (subst id_take_nth_drop [OF assms(1)]) simp
  moreover have "filter Not (ch[b := True]) = filter Not (take b ch) @ filter Not (drop (Suc b) ch)"
    using assms by (simp add: upd_conv_take_nth_drop)
  ultimately show ?thesis by simp
qed

function greedy :: "u32 list list \<Rightarrow> nat list \<Rightarrow> u32 set \<Rightarrow> bool list \<Rightarrow> u32 set \<times> bool list" where
  "greedy covers sizes uncovered chosen =
     (if uncovered = {} then (uncovered, chosen)
      else case find_best uncovered chosen covers sizes of
             None \<Rightarrow> (uncovered, chosen)
           | Some b \<Rightarrow> greedy covers sizes (uncovered - set (covers ! b)) (chosen[b := True]))"
  by pat_completeness auto

termination
  by (relation "measure (\<lambda>(covers, sizes, uncovered, chosen). length (filter Not chosen))")
     (auto dest: find_best_Some intro: flag_count)

declare greedy.simps [simp del]

record distill_report =
  Keep :: "testcase list"
  Drop :: "testcase list"
  Features :: nat
  Covered :: nat
  BeforeBytes :: int
  AfterBytes :: int

definition Distill :: "testcase list \<Rightarrow> (testcase \<Rightarrow> u32 list) \<Rightarrow> distill_report" where
  "Distill es coverageOf =
     (if es = [] then \<lparr>Keep = [], Drop = [], Features = 0, Covered = 0, BeforeBytes = 0, AfterBytes = 0\<rparr>
      else
        let covers = map coverageOf es;
            sizes = map (\<lambda>tc. length (Bytes tc)) es;
            every = set (concat covers);
            (uncovered, chosen) = greedy covers sizes every (replicate (length es) False);
            keep = map fst (filter snd (zip es chosen))
        in \<lparr>Keep = keep, Drop = map fst (filter (\<lambda>(tc, ch). \<not> ch) (zip es chosen)),
            Features = card every, Covered = card every - card uncovered,
            BeforeBytes = sum_list (map (\<lambda>tc. int (length (Bytes tc))) es),
            AfterBytes = sum_list (map (\<lambda>tc. int (length (Bytes tc))) keep)\<rparr>)"

text \<open>\<open>Corpus.Distill\<close> removes the dropped entries from the last to the first.\<close>

fun drop_from :: "nat \<Rightarrow> digest set \<Rightarrow> corpus \<Rightarrow> corpus option" where
  "drop_from 0 dropped c = Some c"
| "drop_from (Suc i) dropped c = do {
     tc \<leftarrow> get_at (entries c) (int i);
     c \<leftarrow> (if ID tc \<in> dropped then Remove c (int i) else Some c);
     drop_from i dropped c
   }"

definition Corpus_Distill :: "corpus \<Rightarrow> (testcase \<Rightarrow> u32 list) \<Rightarrow> (corpus \<times> distill_report) option" where
  "Corpus_Distill c coverageOf =
     (let rep = Distill (entries c) coverageOf
      in do { c \<leftarrow> drop_from (length (entries c)) (ID ` set (Drop rep)) c; Some (c, rep) })"

section \<open>What the greedy loop leaves\<close>

lemma gain_pos: "0 < gain u cv \<longleftrightarrow> u \<inter> set cv \<noteq> {}"
  by (auto simp: gain_def filter_empty_conv)

lemma gain_card: "distinct cv \<Longrightarrow> gain u cv = card (u \<inter> set cv)"
  unfolding gain_def by (metis distinct_card distinct_filter inf_commute set_filter Int_def)

text \<open>Features not reached by an entry chosen so far, and reached by some entry, are the uncovered ones.\<close>

definition greedy_inv :: "u32 list list \<Rightarrow> u32 set \<Rightarrow> bool list \<Rightarrow> bool" where
  "greedy_inv covers u ch \<longleftrightarrow> length ch = length covers \<and>
     u = set (concat covers) - (\<Union>i \<in> {i. i < length ch \<and> ch ! i}. set (covers ! i))"

lemma greedy_inv_step:
  assumes "greedy_inv cv u ch" and "b < length ch"
  shows "greedy_inv cv (u - set (cv ! b)) (ch[b := True])"
proof -
  have "{i. i < length ch \<and> ch[b := True] ! i} = insert b {i. i < length ch \<and> ch ! i}"
    using assms(2) by (auto simp: nth_list_update)
  with assms(1) show ?thesis by (auto simp: greedy_inv_def)
qed

lemma greedy_covers:
  "greedy_inv cv u ch \<Longrightarrow> greedy cv sz u ch = (u', ch') \<Longrightarrow> u' = {} \<and> greedy_inv cv u' ch'"
proof (induction cv sz u ch rule: greedy.induct)
  case (1 cv sz u ch)
  show ?case
  proof (cases "u = {}")
    case True
    then show ?thesis using "1.prems" by (simp add: greedy.simps)
  next
    case False
    then obtain f where f: "f \<in> u" by blast
    with "1.prems"(1) obtain i where i: "i < length ch" "\<not> ch ! i" "f \<in> set (cv ! i)"
      by (auto simp: greedy_inv_def in_set_conv_nth) metis
    with f have "0 < gain u (cv ! i)" by (auto simp: gain_pos)
    with i find_best_None obtain b where b: "find_best u ch cv sz = Some b"
      by (metis not_None_eq less_irrefl)
    then have "b < length ch" using find_best_Some by blast
    from "1.IH" [OF False b greedy_inv_step [OF "1.prems"(1) this]] "1.prems"(2) False b
    show ?thesis by (auto simp: greedy.simps [of cv sz u ch])
  qed
qed

lemma greedy_inv_init: "length cv = n \<Longrightarrow> greedy_inv cv (set (concat cv)) (replicate n False)"
  by (auto simp: greedy_inv_def)

text \<open>
  The loop is the greedy set cover: with \<open>k\<close> entries that reach everything, every
  round covers at least a \<open>k\<close>-th of what is left, so the rounds are at most \<open>k\<close>
  times a harmonic number.
\<close>

definition harmonic :: "nat \<Rightarrow> real" where
  "harmonic n = (\<Sum>i = 1..n. 1 / real i)"

lemma harmonic_Suc: "harmonic (Suc n) = harmonic n + 1 / real (Suc n)"
  by (simp add: harmonic_def)

lemma harmonic_drop: "g \<le> n \<Longrightarrow> harmonic (n - g) + real g / real n \<le> harmonic n"
proof (induction g)
  case (Suc g)
  have n: "n - g = Suc (n - Suc g)" "0 < n" using Suc.prems by simp_all
  have "1 / real n \<le> 1 / real (n - g)" using n by (intro divide_left_mono) auto
  then have "harmonic (n - Suc g) + 1 / real n \<le> harmonic (n - g)" unfolding n(1) harmonic_Suc by simp
  with Suc show ?case by (simp add: add_divide_distrib)
qed simp

definition chosen_count :: "bool list \<Rightarrow> nat" where
  "chosen_count ch = length (filter (\<lambda>b. b) ch)"

lemma flags_set:
  assumes "b < length ch" and "\<not> ch ! b"
  shows "chosen_count (ch[b := True]) = Suc (chosen_count ch)"
proof -
  have "filter (\<lambda>b. b) ch = filter (\<lambda>b. b) (take b ch) @ filter (\<lambda>b. b) (drop (Suc b) ch)"
    using assms by (subst id_take_nth_drop [OF assms(1)]) simp
  then show ?thesis using assms by (simp add: chosen_count_def upd_conv_take_nth_drop)
qed

lemma largest_share:
  assumes inv: "greedy_inv cv u ch" and dist: "\<And>i. i < length cv \<Longrightarrow> distinct (cv ! i)"
    and opt: "Opt \<subseteq> {..<length cv}" "set (concat cv) \<subseteq> (\<Union>i \<in> Opt. set (cv ! i))"
    and most: "\<And>j. j < length ch \<Longrightarrow> \<not> ch ! j \<Longrightarrow> gain u (cv ! j) \<le> g"
  shows "card u \<le> card Opt * g"
proof -
  have fin: "finite Opt" using opt(1) finite_subset by blast
  have u: "u \<subseteq> (\<Union>i \<in> Opt. u \<inter> set (cv ! i))" using inv opt(2) by (auto simp: greedy_inv_def)
  have each: "card (u \<inter> set (cv ! i)) \<le> g" if "i \<in> Opt" for i
  proof (cases "ch ! i")
    case True
    have "i < length ch" using that opt(1) inv by (auto simp: greedy_inv_def)
    with True inv have "u \<inter> set (cv ! i) = {}" by (auto simp: greedy_inv_def)
    then show ?thesis by simp
  next
    case False
    have "i < length cv" using that opt(1) by auto
    with most [of i] False dist inv show ?thesis by (simp add: gain_card greedy_inv_def)
  qed
  have "card u \<le> card (\<Union>i \<in> Opt. u \<inter> set (cv ! i))"
    using u fin by (intro card_mono) auto
  also have "\<dots> \<le> (\<Sum>i \<in> Opt. card (u \<inter> set (cv ! i)))" by (rule card_UN_le [OF fin])
  also have "\<dots> \<le> (\<Sum>i \<in> Opt. g)" by (rule sum_mono) (rule each)
  finally show ?thesis by simp
qed

lemma greedy_bound:
  assumes "greedy_inv cv u ch" and "\<And>i. i < length cv \<Longrightarrow> distinct (cv ! i)"
    and "Opt \<subseteq> {..<length cv}" "set (concat cv) \<subseteq> (\<Union>i \<in> Opt. set (cv ! i))"
    and "greedy cv sz u ch = (u', ch')"
  shows "real (chosen_count ch') \<le> real (chosen_count ch) + real (card Opt) * harmonic (card u)"
  using assms
proof (induction cv sz u ch rule: greedy.induct)
  case (1 cv sz u ch)
  have harm: "0 \<le> harmonic n" for n by (simp add: harmonic_def sum_nonneg)
  show ?case
  proof (cases "u = {}")
    case True
    then show ?thesis using "1.prems" by (simp add: greedy.simps harmonic_def)
  next
    case False
    show ?thesis
    proof (cases "find_best u ch cv sz")
      case None
      then show ?thesis using "1.prems"(5) False harm [of "card u"] by (simp add: greedy.simps)
    next
      case (Some b)
      let ?g = "gain u (cv ! b)" and ?k = "card Opt"
      note best = find_best_Some [OF Some]
      have fin: "finite u" using "1.prems"(1) by (auto simp: greedy_inv_def)
      have b: "b < length cv" using best "1.prems"(1) by (simp add: greedy_inv_def)
      have g: "?g = card (u \<inter> set (cv ! b))" using "1.prems"(2) [OF b] by (rule gain_card)
      have le: "?g \<le> card u" unfolding g using fin by (intro card_mono) auto
      have left: "card (u - set (cv ! b)) = card u - ?g" unfolding g using fin by (simp add: card_Diff_subset_Int)
      have share: "card u \<le> ?k * ?g"
        by (rule largest_share [OF "1.prems"(1-4)]) (use best in blast)+
      have step: "greedy_inv cv (u - set (cv ! b)) (ch[b := True])"
        using greedy_inv_step [OF "1.prems"(1)] best by blast
      have "greedy cv sz (u - set (cv ! b)) (ch[b := True]) = (u', ch')"
        using "1.prems"(5) False Some by (simp add: greedy.simps [of cv sz u ch])
      from "1.IH" [OF False Some step "1.prems"(2-4) this]
      have "real (chosen_count ch') \<le> real (chosen_count ch) + 1 + real ?k * harmonic (card u - ?g)"
        using best by (simp add: left flags_set)
      moreover have "1 + real ?k * harmonic (card u - ?g) \<le> real ?k * harmonic (card u)"
      proof -
        have u: "0 < card u" using False fin by auto
        have "real (card u) \<le> real ?k * real ?g" using share by (metis of_nat_le_iff of_nat_mult)
        then have "1 \<le> real ?k * (real ?g / real (card u))" using u by (simp add: field_simps)
        moreover have "real ?k * (harmonic (card u - ?g) + real ?g / real (card u)) \<le> real ?k * harmonic (card u)"
          by (rule mult_left_mono [OF harmonic_drop [OF le]]) simp
        ultimately show ?thesis by (simp add: algebra_simps)
      qed
      ultimately show ?thesis by linarith
    qed
  qed
qed

lemma greedy_rounds:
  "greedy_inv cv u ch \<Longrightarrow> greedy cv sz u ch = (u', ch') \<Longrightarrow> chosen_count ch' \<le> chosen_count ch + card u"
proof (induction cv sz u ch rule: greedy.induct)
  case (1 cv sz u ch)
  show ?case
  proof (cases "u = {} \<or> find_best u ch cv sz = None")
    case True
    then have "ch' = ch" using "1.prems"(2) by (auto simp: greedy.simps [of cv sz u ch] split: if_splits)
    then show ?thesis by simp
  next
    case False
    then obtain b where u: "u \<noteq> {}" and b: "find_best u ch cv sz = Some b" by auto
    note best = find_best_Some [OF b]
    have "finite u" using "1.prems"(1) by (auto simp: greedy_inv_def)
    moreover have "u \<inter> set (cv ! b) \<noteq> {}" using best by (simp add: gain_pos [symmetric])
    ultimately have "card (u - set (cv ! b)) < card u" by (intro psubset_card_mono) auto
    moreover have "greedy cv sz (u - set (cv ! b)) (ch[b := True]) = (u', ch')"
      using "1.prems"(2) u b by (simp add: greedy.simps [of cv sz u ch])
    ultimately show ?thesis
      using "1.IH" [OF u b greedy_inv_step [OF "1.prems"(1)]] best by (simp add: flags_set)
  qed
qed

section \<open>The report\<close>

lemma zip_flags: "length ch = length es \<Longrightarrow>
    length (map fst (filter snd (zip es ch))) = chosen_count ch \<and>
    mset (map fst (filter snd (zip es ch))) + mset (map fst (filter (\<lambda>(tc, b). \<not> b) (zip es ch))) = mset es"
  by (induction es ch rule: list_induct2') (auto simp: chosen_count_def)

lemma zip_flags_mem:
  assumes "length ch = length es"
  shows "x \<in> set (map fst (filter snd (zip es ch))) \<longleftrightarrow> (\<exists>i < length es. ch ! i \<and> x = es ! i)"
    and "x \<in> set (map fst (filter (\<lambda>(tc, b). \<not> b) (zip es ch))) \<longleftrightarrow> (\<exists>i < length es. \<not> ch ! i \<and> x = es ! i)"
  using assms by (force simp: set_zip)+

lemma zip_filter: "map fst (filter snd (zip es (map P es))) = filter P es"
  by (induction es) auto

lemma DistillE:
  obtains ch where "length ch = length es"
    and "Keep (Distill es cov) = map fst (filter snd (zip es ch))"
    and "Drop (Distill es cov) = map fst (filter (\<lambda>(tc, b). \<not> b) (zip es ch))"
    and "Features (Distill es cov) = card (set (concat (map cov es)))"
    and "Covered (Distill es cov) = Features (Distill es cov)"
    and "greedy_inv (map cov es) {} ch" and "chosen_count ch \<le> card (set (concat (map cov es)))"
    and "\<And>Opt. (\<forall>tc \<in> set es. distinct (cov tc)) \<Longrightarrow> Opt \<subseteq> {..<length es} \<Longrightarrow>
      set (concat (map cov es)) \<subseteq> (\<Union>i \<in> Opt. set (cov (es ! i))) \<Longrightarrow>
      real (chosen_count ch) \<le> real (card Opt) * harmonic (card (set (concat (map cov es))))"
proof (cases "es = []")
  case True
  then show thesis
    by (intro that [of "[]"]) (auto simp: Distill_def greedy_inv_def chosen_count_def harmonic_def)
next
  case False
  let ?cv = "map cov es" and ?sz = "map (\<lambda>tc. length (Bytes tc)) es"
  let ?u = "set (concat ?cv)" and ?ch = "replicate (length es) False"
  obtain u' ch where g: "greedy ?cv ?sz ?u ?ch = (u', ch)" by force
  have inv: "greedy_inv ?cv ?u ?ch" by (rule greedy_inv_init) simp
  from greedy_covers [OF inv g] have u': "u' = {}" and ch: "greedy_inv ?cv {} ch" by auto
  have f0: "chosen_count ?ch = 0" by (simp add: chosen_count_def)
  show thesis
  proof (rule that [of ch])
    show "length ch = length es" using ch by (simp add: greedy_inv_def)
    show "chosen_count ch \<le> card ?u" using greedy_rounds [OF inv g] f0 by simp
    show "real (chosen_count ch) \<le> real (card Opt) * harmonic (card ?u)"
      if "\<forall>tc \<in> set es. distinct (cov tc)" "Opt \<subseteq> {..<length es}" "?u \<subseteq> (\<Union>i \<in> Opt. set (cov (es ! i)))" for Opt
      using greedy_bound [OF inv _ _ _ g, of Opt] that f0 by (fastforce simp: subset_iff)
  qed (use False g u' ch in \<open>simp_all add: Distill_def Let_def\<close>)
qed

lemma Distill_keeps_features:
  "set (concat (map cov (Keep (Distill es cov)))) = set (concat (map cov es))"
proof -
  obtain ch where len: "length ch = length es" and keep: "Keep (Distill es cov) = map fst (filter snd (zip es ch))"
    and inv: "greedy_inv (map cov es) {} ch" by (rule DistillE)
  have k: "x \<in> set (Keep (Distill es cov)) \<longleftrightarrow> (\<exists>i < length es. ch ! i \<and> x = es ! i)" for x
    unfolding keep by (rule zip_flags_mem(1) [OF len])
  have "set (concat (map cov es)) \<subseteq> (\<Union>i \<in> {i. i < length ch \<and> ch ! i}. set (map cov es ! i))"
    using inv unfolding greedy_inv_def by blast
  moreover have "set (map cov es ! i) \<subseteq> (\<Union>x \<in> set (Keep (Distill es cov)). set (cov x))" if "i < length ch" "ch ! i" for i
    using that k [of "es ! i"] len by auto
  ultimately have "set (concat (map cov es)) \<subseteq> (\<Union>x \<in> set (Keep (Distill es cov)). set (cov x))"
    by blast
  moreover have "set (Keep (Distill es cov)) \<subseteq> set es" using k by (auto simp: in_set_conv_nth)
  ultimately show ?thesis by auto
qed

section \<open>Reducing the corpus\<close>

lemma drop_from_ok:
  assumes "corpus_ok c" and "k \<le> length (entries c)"
    and "\<forall>j < length (entries c). k \<le> j \<longrightarrow> ID (entries c ! j) \<notin> D"
  shows "ok (drop_from k D c) (\<lambda>c'. corpus_ok c' \<and>
    mset (entries c') = filter_mset (\<lambda>e. ID e \<notin> D) (mset (entries c)))"
  using assms
proof (induction k arbitrary: c)
  case 0
  then have "filter_mset (\<lambda>e. ID e \<notin> D) (mset (entries c)) = mset (entries c)"
    by (auto simp: filter_mset_eq_conv in_set_conv_nth)
  with 0 show ?case by simp
next
  case (Suc i)
  have i: "i < length (entries c)" using Suc.prems(2) by simp
  show ?case
  proof (cases "ID (entries c ! i) \<in> D")
    case True
    have "ok (Remove c (int i)) (\<lambda>c1. ok (drop_from i D c1) (\<lambda>c'. corpus_ok c' \<and>
        mset (entries c') = filter_mset (\<lambda>e. ID e \<notin> D) (mset (entries c))))"
    proof (rule ok_mono [OF Remove_ok [OF Suc.prems(1) i]], elim conjE)
      fix c1 assume c1: "corpus_ok c1" "mset (entries c) = add_mset (entries c ! i) (mset (entries c1))"
        "entries c1 = swap_remove i (entries c)"
      have "ID (entries c1 ! j) \<notin> D" if j: "j < length (entries c1)" "i \<le> j" for j
      proof (cases "j = i")
        case True
        then have "entries c1 ! j = entries c ! (length (entries c) - 1)"
          using j c1(3) i last_nth [OF i] by (simp add: nth_swap_remove)
        moreover have "Suc i \<le> length (entries c) - 1" "length (entries c) - 1 < length (entries c)"
          using j c1(3) True by auto
        ultimately show ?thesis using Suc.prems(3) by metis
      next
        case False
        then show ?thesis using j c1(3) i Suc.prems(3) by (simp add: nth_swap_remove)
      qed
      with Suc.IH [OF c1(1)] i c1 True
      show "ok (drop_from i D c1) (\<lambda>c'. corpus_ok c' \<and>
          mset (entries c') = filter_mset (\<lambda>e. ID e \<notin> D) (mset (entries c)))"
        by simp
    qed
    with True i show ?thesis by (auto simp: get_at_def intro: ok_bind)
  next
    case False
    then have "\<forall>j < length (entries c). i \<le> j \<longrightarrow> ID (entries c ! j) \<notin> D"
      using Suc.prems(3) by (metis Suc_leI le_neq_implies_less)
    with Suc.IH [OF Suc.prems(1)] i False show ?thesis by (simp add: get_at_def)
  qed
qed

lemma Distill_by_digest:
  assumes "distinct (map ID es)"
  shows "Keep (Distill es cov) = filter (\<lambda>e. ID e \<notin> ID ` set (Drop (Distill es cov))) es"
proof -
  obtain ch where len: "length ch = length es" and keep: "Keep (Distill es cov) = map fst (filter snd (zip es ch))"
    and drop: "Drop (Distill es cov) = map fst (filter (\<lambda>(tc, b). \<not> b) (zip es ch))" by (rule DistillE)
  have d: "x \<in> set (Drop (Distill es cov)) \<longleftrightarrow> (\<exists>i < length es. \<not> ch ! i \<and> x = es ! i)" for x
    unfolding drop by (rule zip_flags_mem(2) [OF len])
  have inj: "i = j" if "i < length es" "j < length es" "ID (es ! i) = ID (es ! j)" for i j
    using assms that by (simp add: distinct_conv_nth) metis
  have "ch ! i \<longleftrightarrow> ID (es ! i) \<notin> ID ` set (Drop (Distill es cov))" if "i < length es" for i
    using that inj d by (auto simp: image_iff) blast
  then have "ch = map (\<lambda>e. ID e \<notin> ID ` set (Drop (Distill es cov))) es"
    using len by (intro nth_equalityI) auto
  then show ?thesis unfolding keep by (metis zip_filter)
qed

lemma Corpus_Distill_ok:
  assumes "corpus_ok c"
  shows "ok (Corpus_Distill c cov) (\<lambda>(c', rep). corpus_ok c' \<and> rep = Distill (entries c) cov \<and>
    mset (entries c') = mset (Keep rep))"
proof -
  have "distinct (map ID (entries c))" using assms indexed_distinct by (auto simp: corpus_ok_def)
  from Distill_by_digest [OF this, of cov]
  have k: "mset (Keep (Distill (entries c) cov)) =
      filter_mset (\<lambda>e. ID e \<notin> ID ` set (Drop (Distill (entries c) cov))) (mset (entries c))" by (metis mset_filter)
  show ?thesis
    unfolding Corpus_Distill_def Let_def
    by (rule ok_bind, rule ok_mono [OF drop_from_ok [OF assms]]) (auto simp: k)
qed

section \<open>Every corpus the program can build\<close>

lemma MarkFavoured_ok:
  assumes "corpus_ok c"
  shows "corpus_ok (MarkFavoured cov c)"
proof -
  define fav where "fav i = Favoured (entries (MarkFavoured cov c) ! i)" for i
  have fav: "entries (MarkFavoured cov c) = map (\<lambda>i. (entries c ! i)\<lparr>Favoured := fav i\<rparr>) [0..<length (entries c)]"
    by (simp add: MarkFavoured_def Let_def fav_def)
  have "indexed ID (entries (MarkFavoured cov c)) (byID c)"
    using assms unfolding fav by (auto simp: corpus_ok_def indexed_def)
  moreover have "total f (entries (MarkFavoured cov c)) = total f (entries c)"
    if "\<And>t b. f (t\<lparr>Favoured := b\<rparr>) = f t" for f
  proof -
    have "map f (entries (MarkFavoured cov c)) = map f (entries c)"
      unfolding fav by (rule nth_equalityI) (simp_all add: that)
    then show ?thesis by (simp add: total_def)
  qed
  ultimately show ?thesis
    using assms by (simp add: corpus_ok_def) (simp add: MarkFavoured_def Let_def)
qed

inductive corpus_reach :: "corpus \<Rightarrow> bool" where
  new: "corpus_reach NewCorpus"
| add: "corpus_reach c \<Longrightarrow> corpus_reach (fst (Add c tc))"
| remove: "corpus_reach c \<Longrightarrow> Remove c i = Some c' \<Longrightarrow> corpus_reach c'"
| fuzzed: "corpus_reach c \<Longrightarrow> bump_fuzzed c i = Some c' \<Longrightarrow> corpus_reach c'"
| favour: "corpus_reach c \<Longrightarrow> corpus_reach (MarkFavoured cov c)"
| distill: "corpus_reach c \<Longrightarrow> Corpus_Distill c cov = Some (c', rep) \<Longrightarrow> corpus_reach c'"

lemma corpus_reach_corpus_ok: "corpus_reach c \<Longrightarrow> corpus_ok c"
proof (induction rule: corpus_reach.induct)
  case (remove c i c')
  then have "0 \<le> i" "nat i < length (entries c)" by (auto simp: Remove_def get_at_def split: if_splits)
  with okD [OF Remove_ok [OF remove.IH, of "nat i"]] remove(2) show ?case by simp
next
  case (fuzzed c i c')
  then have "0 \<le> i" "i < int (length (entries c))" by (auto simp: bump_fuzzed_def get_at_def split: if_splits)
  from okD [OF bump_fuzzed_ok [OF fuzzed.IH this] fuzzed(2)] show ?case by simp
next
  case (distill c cov c' rep)
  from okD [OF Corpus_Distill_ok [OF distill.IH] distill(2)] show ?case by simp
qed (simp_all add: NewCorpus_ok Add_ok MarkFavoured_ok)

section \<open>What the package promises\<close>

text \<open>C9. However a corpus was built, its entries are distinct by digest, a lookup finds exactly the
  entry with the digest, and the totals are the sums over the entries.\<close>

theorem corpus_reach_consistent:
  assumes "corpus_reach c"
  shows "distinct (map ID (entries c)) \<and> Lookup c d = find (\<lambda>e. ID e = d) (entries c) \<and>
    totalBytes c = (\<Sum>e \<leftarrow> entries c. word_of_int (Size e)) \<and> totalTime c = (\<Sum>e \<leftarrow> entries c. ExecTime e) \<and>
    totalCov c = (\<Sum>e \<leftarrow> entries c. word_of_int (Coverage e))"
proof -
  have c: "corpus_ok c" by (rule corpus_reach_corpus_ok [OF assms])
  then have ix: "indexed ID (entries c) (byID c)" by (simp add: corpus_ok_def)
  have "Lookup c d = find (\<lambda>e. ID e = d) (entries c)" by (simp add: Lookup_def indexed_find [OF ix])
  with c indexed_distinct [OF ix] show ?thesis by (simp add: corpus_ok_def total_def)
qed

text \<open>C6. Distillation loses nothing and ends: the kept entries reach every feature the corpus
  reaches, kept and dropped entries partition the corpus, and no more entries are kept than
  there are features.\<close>

theorem Distill_lossless:
  "set (concat (map cov (Keep (Distill es cov)))) = set (concat (map cov es)) \<and>
   Covered (Distill es cov) = Features (Distill es cov) \<and>
   mset (Keep (Distill es cov)) + mset (Drop (Distill es cov)) = mset es \<and>
   length (Keep (Distill es cov)) \<le> Features (Distill es cov)"
proof -
  obtain ch where "length ch = length es" "Keep (Distill es cov) = map fst (filter snd (zip es ch))"
    "Drop (Distill es cov) = map fst (filter (\<lambda>(tc, b). \<not> b) (zip es ch))"
    "Features (Distill es cov) = card (set (concat (map cov es)))"
    "Covered (Distill es cov) = Features (Distill es cov)" "chosen_count ch \<le> card (set (concat (map cov es)))"
    by (rule DistillE [of es cov])
  then show ?thesis using Distill_keeps_features [of cov es] zip_flags [of ch es] by simp
qed

text \<open>C7. Distillation is within a logarithmic factor of the smallest subset that reaches
  everything.\<close>

theorem Distill_near_optimal:
  assumes "\<forall>tc \<in> set es. distinct (cov tc)" and "Opt \<subseteq> {..<length es}"
    and "set (concat (map cov es)) \<subseteq> (\<Union>i \<in> Opt. set (cov (es ! i)))"
  shows "real (length (Keep (Distill es cov))) \<le> real (card Opt) * harmonic (Features (Distill es cov))"
proof -
  obtain ch where "length ch = length es" "Keep (Distill es cov) = map fst (filter snd (zip es ch))"
    "Features (Distill es cov) = card (set (concat (map cov es)))"
    "real (chosen_count ch) \<le> real (card Opt) * harmonic (card (set (concat (map cov es))))"
    by (rule DistillE [of es cov]) (use assms in blast)
  then show ?thesis using zip_flags [of ch es] by simp
qed

text \<open>C8. Reducing a corpus leaves exactly the kept entries, and leaves it consistent, although
  each removal moves the last entry.\<close>

theorem Corpus_Distill_keeps:
  assumes "corpus_reach c"
  shows "\<exists>c' rep. Corpus_Distill c cov = Some (c', rep) \<and> corpus_ok c' \<and> mset (entries c') = mset (Keep rep) \<and>
    set (concat (map cov (entries c'))) = set (concat (map cov (entries c)))"
proof -
  from Corpus_Distill_ok [OF corpus_reach_corpus_ok [OF assms], of cov] obtain c' rep where
    r: "Corpus_Distill c cov = Some (c', rep)" "corpus_ok c'" "rep = Distill (entries c) cov"
      "mset (entries c') = mset (Keep rep)" by (auto elim!: okE)
  from r(4) have "set (entries c') = set (Keep rep)" by (metis set_mset_mset)
  then have "set (concat (map cov (entries c'))) = set (concat (map cov (entries c)))"
    using Distill_keeps_features [of cov "entries c"] r(3) by simp
  with r show ?thesis by blast
qed

section \<open>Witnesses\<close>

definition ex_tc :: "byte list \<Rightarrow> testcase" where
  "ex_tc b = NewTestcase (\<lambda>bs. bs) (Node \<lparr>Kind = KindBytes, Width = 0, Endian = BigEndian, flags = 0, Sel = 0, Val = 0,
     Name = [], Raw = b, MinLen = 0, MaxLen = 0, Derive = None, Target = None\<rparr> []) b"

definition ex_cov :: "testcase \<Rightarrow> u32 list" where
  "ex_cov tc = map ucast (Bytes tc)"

definition ex_entries :: "testcase list" where
  "ex_entries = [ex_tc [1, 2], ex_tc [2, 3, 4], ex_tc [1], ex_tc [4]]"

definition ex_corpus :: corpus where
  "ex_corpus = fold (\<lambda>tc c. fst (Add c tc)) ex_entries NewCorpus"

lemma ex_corpus_reach: "corpus_reach ex_corpus"
proof -
  have "corpus_reach c \<Longrightarrow> corpus_reach (fold (\<lambda>tc c. fst (Add c tc)) xs c)" for xs c
    by (induction xs arbitrary: c) (auto intro: corpus_reach.add)
  then show ?thesis by (simp add: ex_corpus_def corpus_reach.new)
qed

theorem corpus_reach_consistent_witness: "map ID (entries ex_corpus) = [[1, 2], [2, 3, 4], [1], [4]] \<and>
    Lookup ex_corpus [2, 3, 4] = Some (ex_tc [2, 3, 4])"
proof -
  have "entries ex_corpus = ex_entries" by code_simp
  with corpus_reach_consistent [OF ex_corpus_reach, of "[2, 3, 4]"] show ?thesis
    by (simp add: ex_entries_def ex_tc_def NewTestcase_def)
qed

theorem Distill_near_optimal_witness:
  "real (length (Keep (Distill ex_entries ex_cov))) \<le> 2 * harmonic (Features (Distill ex_entries ex_cov))"
proof -
  have d: "\<forall>tc \<in> set ex_entries. distinct (ex_cov tc)" by code_simp
  have c: "set (concat (map ex_cov ex_entries)) \<subseteq> (\<Union>i \<in> {0, 1}. set (ex_cov (ex_entries ! i)))" by code_simp
  show ?thesis
    using Distill_near_optimal [OF d _ c] by (simp add: ex_entries_def)
qed

theorem Corpus_Distill_keeps_witness:
  "\<exists>c' rep. Corpus_Distill ex_corpus ex_cov = Some (c', rep) \<and> corpus_ok c'"
  using Corpus_Distill_keeps [OF ex_corpus_reach, of ex_cov] by blast

theorem round_robin_fair_witness:
  "distinct (round_robin_picks 4 (NewRoundRobin\<lparr>rrNext := 3\<rparr>) ex_corpus (New 0))"
proof -
  have "Len ex_corpus = 4" by code_simp
  then show ?thesis
    using round_robin_fair [of "NewRoundRobin\<lparr>rrNext := 3\<rparr>" ex_corpus "New 0"] by simp
qed

theorem MarkFavoured_minimal_witness:
  "Favoured (entries (MarkFavoured ex_cov ex_corpus) ! 2)"
proof -
  have "2 < length (entries ex_corpus)" by code_simp
  have en: "entries ex_corpus = ex_entries" by code_simp
  have "\<not> list_ex (\<lambda>j. 1 \<in> set (ex_cov (ex_entries ! j)) \<and>
      (Size (ex_entries ! j) < Size (ex_entries ! 2) \<or> Size (ex_entries ! j) = Size (ex_entries ! 2) \<and> j < 2)) [0..<4]"
    and one: "1 \<in> set (ex_cov (ex_entries ! 2))" by code_simp+
  then have "\<nexists>j. j < length ex_entries \<and> 1 \<in> set (ex_cov (ex_entries ! j)) \<and>
      (Size (ex_entries ! j) < Size (ex_entries ! 2) \<or> Size (ex_entries ! j) = Size (ex_entries ! 2) \<and> j < 2)"
    by (simp add: list_ex_iff ex_entries_def)
  with one MarkFavoured_minimal [OF \<open>2 < length (entries ex_corpus)\<close>, of ex_cov] show ?thesis
    unfolding en by blast
qed

end
