(* ===== verification/Feedback_Map.thy ===== *)
theory Feedback_Map
  imports Rng
begin

text \<open>
  Coverage of \<open>pkg/feedback/coverage.go\<close> and \<open>pkg/feedback/counters.go\<close>: the
  map of edge counters, its buckets and signature, the feedback that remembers
  which buckets have been reached, and the observer that folds a target's inline
  counters into the map. A \<open>MapFeedback\<close> holds a pointer to its map; the model
  passes the contents of the map to the operations that read it. The density and
  the novelty ratio are floating point and left out.
\<close>

section \<open>The map\<close>

definition DefaultMapSize :: int where "DefaultMapSize = 65536"

record coverage_map =
  mapName :: string
  buf :: "byte list"
  backend :: string

definition NewCoverageMap :: "string \<Rightarrow> int \<Rightarrow> coverage_map" where
  "NewCoverageMap name sz =
     (let sz = (if sz \<le> 0 then DefaultMapSize else sz)
      in \<lparr>mapName = name, buf = replicate (nat sz) 0, backend = []\<rparr>)"

definition SetBuffer :: "coverage_map \<Rightarrow> byte list \<Rightarrow> coverage_map" where
  "SetBuffer m b = m\<lparr>buf := b\<rparr>"

definition Map_Size :: "coverage_map \<Rightarrow> nat" where
  "Map_Size m = length (buf m)"

text \<open>\<open>clear\<close> of a byte slice.\<close>

definition cleared :: "byte list \<Rightarrow> byte list" where
  "cleared b = replicate (length b) 0"

definition Map_Pre :: "coverage_map \<Rightarrow> coverage_map" where
  "Map_Pre m = m\<lparr>buf := cleared (buf m)\<rparr>"

definition Hit :: "coverage_map \<Rightarrow> int \<Rightarrow> byte option" where
  "Hit m i = get_at (buf m) i"

definition Map_Covered :: "coverage_map \<Rightarrow> nat" where
  "Map_Covered m = fold (\<lambda>c n. if c \<noteq> 0 then n + 1 else n) (buf m) 0"

definition bucketOf :: "byte \<Rightarrow> byte" where
  "bucketOf c =
     (if c = 0 then 0 else if c = 1 then 1 else if c = 2 then 2 else if c = 3 then 4
      else if c \<le> 7 then 8 else if c \<le> 15 then 16 else if c \<le> 31 then 32
      else if c \<le> 127 then 64 else 128)"

definition offset64 :: u64 where "offset64 = 14695981039346656037"
definition prime64 :: u64 where "prime64 = 1099511628211"

text \<open>\<open>Write\<close> of \<open>hash/fnv\<close>, 64 bits, variant 1a.\<close>

definition fnv_write :: "byte list \<Rightarrow> u64 \<Rightarrow> u64" where
  "fnv_write bs h = fold (\<lambda>b h. (h XOR ucast b) * prime64) bs h"

fun signature_from :: "nat \<Rightarrow> byte list \<Rightarrow> u64 \<Rightarrow> u64" where
  "signature_from i [] h = h"
| "signature_from i (c # cs) h =
     (if c = 0 then signature_from (Suc i) cs h
      else let h = (h XOR ucast (of_nat i :: u32)) * prime64;
               h = (h XOR ucast (bucketOf c)) * prime64
           in signature_from (Suc i) cs h)"

definition Signature :: "coverage_map \<Rightarrow> u64" where
  "Signature m = signature_from 0 (buf m) offset64"

section \<open>The feedback\<close>

record map_feedback =
  fbName :: string
  virgin :: "byte list"
  pendingIdx :: "int list"
  pendingBits :: "byte list"
  covered :: int

definition NewMapFeedback :: "string \<Rightarrow> coverage_map \<Rightarrow> map_feedback" where
  "NewMapFeedback name m =
     \<lparr>fbName = name, virgin = replicate (length (buf m)) 0, pendingIdx = [], pendingBits = [], covered = 0\<rparr>"

definition check :: "byte list \<Rightarrow> nat \<Rightarrow> map_feedback \<Rightarrow> map_feedback option" where
  "check b i f = do {
     c \<leftarrow> get_at b (int i);
     if c = 0 then Some f
     else do {
       v \<leftarrow> get_at (virgin f) (int i);
       if v AND bucketOf c \<noteq> 0 then Some f
       else Some (f\<lparr>pendingIdx := pendingIdx f @ [to_int32 (int i)],
                    pendingBits := pendingBits f @ [v OR bucketOf c]\<rparr>)
     }
   }"

text \<open>\<open>binary.LittleEndian.Uint64\<close> of the first eight bytes.\<close>

definition le64 :: "byte list \<Rightarrow> u64" where
  "le64 bs = fold (\<lambda>i v. v OR push_bit (8 * i) (ucast (bs ! i))) [0..<8] 0"

text \<open>The loop over whole words, which skips a word of zeros, and then the loop over the rest.\<close>

fun scan_words :: "nat \<Rightarrow> nat \<Rightarrow> byte list \<Rightarrow> map_feedback \<Rightarrow> map_feedback option" where
  "scan_words 0 i b f = Some f"
| "scan_words (Suc words) i b f =
     (if le64 (drop i b) = 0 then scan_words words (i + 8) b f
      else mfold (check b) [i..<i + 8] f \<bind> scan_words words (i + 8) b)"

definition Map_IsInteresting :: "byte list \<Rightarrow> map_feedback \<Rightarrow> (string + bool \<times> nat) option \<times> map_feedback" where
  "Map_IsInteresting b f =
     (if length b \<noteq> length (virgin f) then (Some (Inl ''size''), f)
      else
        let f0 = f\<lparr>pendingIdx := [], pendingBits := []\<rparr>
        in case scan_words (length b div 8) 0 b f0 \<bind>
                  mfold (check b) [length b div 8 * 8..<length b] of
             None \<Rightarrow> (None, f0)
           | Some f \<Rightarrow> (let n = length (pendingIdx f) in (Some (Inr (n \<noteq> 0, n)), f)))"

definition commit_one :: "int \<times> byte \<Rightarrow> map_feedback \<Rightarrow> map_feedback option" where
  "commit_one p f = do {
     v \<leftarrow> get_at (virgin f) (fst p);
     vs \<leftarrow> set_at (virgin f) (fst p) (snd p);
     Some (f\<lparr>covered := (if v = 0 then covered f + 1 else covered f), virgin := vs\<rparr>)
   }"

definition Map_Append :: "map_feedback \<Rightarrow> map_feedback option" where
  "Map_Append f = do {
     f \<leftarrow> mfold commit_one (zip (pendingIdx f) (pendingBits f)) f;
     Some (f\<lparr>pendingIdx := [], pendingBits := []\<rparr>)
   }"

definition Map_Discard :: "map_feedback \<Rightarrow> map_feedback" where
  "Map_Discard f = f\<lparr>pendingIdx := [], pendingBits := []\<rparr>"

definition count_reached :: "byte list \<Rightarrow> int" where
  "count_reached v = int (length (filter (\<lambda>b. b \<noteq> 0) v))"

definition LoadVirgin :: "byte list \<Rightarrow> map_feedback \<Rightarrow> string + map_feedback" where
  "LoadVirgin v f =
     (if length v \<noteq> length (virgin f) then Inl ''size''
      else Inr (f\<lparr>virgin := v, covered := count_reached v\<rparr>))"

section \<open>Inline counters\<close>

definition CounterMagic :: u32 where "CounterMagic = 0x434E5432"
definition counterHeaderSize :: nat where "counterHeaderSize = 16"

record counter_observer =
  coName :: string
  region :: "byte list"
  coCount :: u32
  coCovered :: nat
  failed :: u32

definition Counter_Pre :: "counter_observer \<Rightarrow> counter_observer" where
  "Counter_Pre o0 =
     (if length (region o0) \<le> counterHeaderSize then o0
      else o0\<lparr>region := take counterHeaderSize (region o0) @ cleared (drop counterHeaderSize (region o0))\<rparr>)"

definition le32 :: "byte list \<Rightarrow> u32" where
  "le32 bs = fold (\<lambda>i v. v OR push_bit (8 * i) (ucast (bs ! i))) [0..<4] 0"

datatype counter_error = NotMapped u32 u32 | OutsideRegion u32 u32

definition counters :: "counter_observer \<Rightarrow> (counter_error + byte list option) \<times> counter_observer" where
  "counters o0 =
     (if length (region o0) < counterHeaderSize then (Inr None, o0)
      else if le32 (window 0 4 (region o0)) \<noteq> CounterMagic then (Inr None, o0)
      else
        let offset = le32 (window 4 8 (region o0));
            count = le32 (window 8 12 (region o0));
            why = le32 (window 12 16 (region o0));
            o1 = o0\<lparr>failed := why, coCount := count\<rparr>
        in if why \<noteq> 0 then (Inl (NotMapped why count), o1)
           else let fin = unat offset + unat count
                in if count = 0 \<or> fin > length (region o0) then (Inl (OutsideRegion count offset), o1)
                   else (Inr (Some (window (unat offset) fin (region o0))), o1))"

definition SpreadIndex :: "u32 \<Rightarrow> u32" where
  "SpreadIndex i =
     (let x = i;
          x = x XOR drop_bit 16 x;
          x = x * 0x7FEB352D;
          x = x XOR drop_bit 15 x;
          x = x * 0x846CA68B;
          x = x XOR drop_bit 16 x
      in x)"

definition fold_counter :: "u32 \<Rightarrow> nat \<times> byte \<Rightarrow> nat \<times> byte list \<Rightarrow> (nat \<times> byte list) option" where
  "fold_counter msk ic st = (case (ic, st) of ((i, c), (cov, b)) \<Rightarrow>
     if c = 0 then Some (cov, b)
     else do {
       let slot = int (unat (SpreadIndex (of_nat i) AND msk));
       v \<leftarrow> get_at b slot;
       b \<leftarrow> (if v < 255 then set_at b slot (v + 1) else Some b);
       Some (cov + 1, b)
     })"

definition Counter_Post ::
  "counter_observer \<Rightarrow> byte list \<Rightarrow> ((counter_error + unit) \<times> counter_observer \<times> byte list) option" where
  "Counter_Post o0 b =
     (case counters o0 of
        (Inl e, o1) \<Rightarrow> Some (Inl e, o1, b)
      | (Inr None, o1) \<Rightarrow> Some (Inr (), o1, b)
      | (Inr (Some cs), o1) \<Rightarrow>
          (if b = [] then Some (Inr (), o1\<lparr>coCovered := 0\<rparr>, b)
           else do {
             let msk = of_nat (length b) - 1;
             (cov, b) \<leftarrow> mfold (fold_counter msk) (enumerate 0 cs) (0, b);
             Some (Inr (), o1\<lparr>coCovered := cov\<rparr>, b)
           }))"

definition Counter_Reset :: "counter_observer \<Rightarrow> counter_observer" where
  "Counter_Reset o0 = Counter_Pre (o0\<lparr>coCovered := 0\<rparr>)"

section \<open>Buckets\<close>

lemma bucket_power: "c \<noteq> 0 \<Longrightarrow> \<exists>k < 8. bucketOf c = 2 ^ k"
  unfolding bucketOf_def
  by (auto intro: exI [of _ 0] exI [of _ 1] exI [of _ 2] exI [of _ 3] exI [of _ 4] exI [of _ 5] exI [of _ 6] exI [of _ 7])

lemma bucket_zero: "bucketOf c = 0 \<longleftrightarrow> c = 0"
  using bucket_power [of c] by (cases "c = 0") (auto simp: bucketOf_def)

lemma single_bit_absorb:
  fixes v :: byte
  assumes "k < 8" and "v AND 2 ^ k \<noteq> 0"
  shows "v OR 2 ^ k = v"
proof -
  have b: "bit (2 ^ k :: byte) n \<longleftrightarrow> n = k" for n using assms(1) by (auto simp: bit_simps)
  have "bit v k" using assms(2) by (auto simp: bit_eq_iff [where 'a = "8 word"] bit_and_iff b)
  then show ?thesis by (intro bit_eqI) (auto simp: bit_or_iff b)
qed

lemma bucket_absorb: "v AND bucketOf c \<noteq> 0 \<Longrightarrow> v OR bucketOf c = v"
  using bucket_power [of c] single_bit_absorb by (cases "c = 0") (auto simp: bucketOf_def [of 0])

section \<open>Skipping words\<close>

lemma or_zero: "x OR y = 0 \<longleftrightarrow> x = 0 \<and> y = (0 :: 'a::len word)"
  by (auto simp: bit_eq_iff bit_or_iff)

lemma push_byte_zero:
  assumes "k \<le> 56"
  shows "push_bit k (ucast (b :: byte) :: u64) = 0 \<longleftrightarrow> b = 0"
proof
  assume z: "push_bit k (ucast b :: u64) = 0"
  show "b = 0"
  proof (rule bit_eqI)
    fix n assume n: "possible_bit TYPE(byte) n"
    then have "n < 8" by simp
    moreover have "\<not> bit (push_bit k (ucast b :: u64)) (n + k)" using z by simp
    ultimately show "bit b n = bit 0 n" using assms by (simp add: bit_simps)
  qed
qed simp

lemma le64_zero: "le64 bs = 0 \<longleftrightarrow> (\<forall>i < 8. bs ! i = 0)"
proof -
  have "fold (\<lambda>i v. v OR push_bit (8 * i) (ucast (bs ! i) :: u64)) [0..<k] 0 = 0 \<longleftrightarrow> (\<forall>i < k. bs ! i = 0)"
    if "k \<le> 8" for k
    using that by (induction k) (auto simp: or_zero push_byte_zero less_Suc_eq)
  from this [of 8] show ?thesis by (simp add: le64_def)
qed

lemma check_zero: "i < length b \<Longrightarrow> b ! i = 0 \<Longrightarrow> check b i f = Some f"
  by (simp add: check_def get_at_def)

lemma mfold_check_zero: "(\<forall>i \<in> set is. i < length b \<and> b ! i = 0) \<Longrightarrow> mfold (check b) is f = Some f"
  by (induction "is" arbitrary: f) (simp_all add: check_zero)

lemma scan_words_plain:
  "i + 8 * words \<le> length b \<Longrightarrow> scan_words words i b f = mfold (check b) [i..<i + 8 * words] f"
proof (induction words arbitrary: i f)
  case (Suc words)
  have "[i..<i + 8 * Suc words] = [i..<i + 8] @ [i + 8..<i + 8 + 8 * words]"
    using upt_add_eq_append [of i "i + 8" "8 * words"] by (simp add: algebra_simps)
  then have split: "mfold (check b) [i..<i + 8 * Suc words] f =
      mfold (check b) [i..<i + 8] f \<bind> mfold (check b) [i + 8..<i + 8 + 8 * words]"
    by (simp only: mfold_append)
  have IH: "scan_words words (i + 8) b = mfold (check b) [i + 8..<i + 8 + 8 * words]"
    using Suc.IH [of "i + 8"] Suc.prems by (intro ext) simp
  show ?case
  proof (cases "le64 (drop i b) = 0")
    case True
    have "j < length b \<and> b ! j = 0" if "j \<in> set [i..<i + 8]" for j
    proof -
      have "j - i < 8" "i \<le> j" "i + 8 \<le> length b" using that Suc.prems by auto
      moreover from this have "drop i b ! (j - i) = 0" using True le64_zero by blast
      ultimately show ?thesis by simp
    qed
    then have "mfold (check b) [i..<i + 8] f = Some f" by (intro mfold_check_zero) blast
    then show ?thesis unfolding split by (simp add: True IH del: upt_Suc)
  next
    case False
    then show ?thesis unfolding split by (simp only: scan_words.simps IH if_False)
  qed
qed simp

text \<open>The scan of the whole map, word by word, is the scan counter by counter.\<close>

lemma scan_plain:
  "scan_words (length b div 8) 0 b f \<bind> mfold (check b) [length b div 8 * 8..<length b] =
   mfold (check b) [0..<length b] f"
proof -
  have "[0..<length b] = [0..<length b div 8 * 8] @ [length b div 8 * 8..<length b]"
    by (metis div_times_less_eq_dividend le_add1 add_0 upt_add_eq_append le_Suc_ex)
  moreover have "scan_words (length b div 8) 0 b f = mfold (check b) [0..<length b div 8 * 8] f"
    using scan_words_plain [of 0 "length b div 8" b f] by (simp add: mult.commute)
  ultimately show ?thesis by (simp add: mfold_append)
qed

section \<open>What a judgement finds and a commit absorbs\<close>

text \<open>A counter is new when it is in a bucket no committed execution reached.\<close>

definition fresh :: "byte list \<Rightarrow> byte list \<Rightarrow> nat \<Rightarrow> bool" where
  "fresh v b i \<longleftrightarrow> b ! i \<noteq> 0 \<and> v ! i AND bucketOf (b ! i) = 0"

definition absorbed :: "byte list \<Rightarrow> byte list \<Rightarrow> byte list" where
  "absorbed v b = map2 (\<lambda>v c. v OR bucketOf c) v b"

lemma check_step:
  assumes "i < length b" and "length (virgin f) = length b" and "int (length b) < 2 ^ 31"
  shows "check b i f = Some (if fresh (virgin f) b i
    then f\<lparr>pendingIdx := pendingIdx f @ [int i], pendingBits := pendingBits f @ [virgin f ! i OR bucketOf (b ! i)]\<rparr> else f)"
  using assms by (simp add: check_def get_at_def fresh_def)

lemma scan_pending:
  assumes "length (virgin f) = length b" and "int (length b) < 2 ^ 31" and "k \<le> length b"
  shows "mfold (check b) [0..<k] (f\<lparr>pendingIdx := [], pendingBits := []\<rparr>) = Some (f\<lparr>
    pendingIdx := map int (filter (fresh (virgin f) b) [0..<k]),
    pendingBits := map (\<lambda>i. virgin f ! i OR bucketOf (b ! i)) (filter (fresh (virgin f) b) [0..<k])\<rparr>)"
  using assms(3)
proof (induction k)
  case (Suc k)
  have e: "mfold (check b) [0..<Suc k] f0 = mfold (check b) [0..<k] f0 \<bind> check b k" for f0
    by (simp add: mfold_snoc)
  show ?case unfolding e using Suc assms(1,2) by (simp add: check_step)
qed simp

lemma IsInteresting_eq:
  assumes "length (virgin f) = length b" and "int (length b) < 2 ^ 31"
  shows "Map_IsInteresting b f =
    (let new = filter (fresh (virgin f) b) [0..<length b]
     in (Some (Inr (new \<noteq> [], length new)), f\<lparr>pendingIdx := map int new,
          pendingBits := map (\<lambda>i. virgin f ! i OR bucketOf (b ! i)) new\<rparr>))"
  unfolding Map_IsInteresting_def scan_plain using scan_pending [OF assms, of "length b"] assms(1)
  by (simp add: Let_def)

lemma count_update:
  "i < length v \<Longrightarrow> x \<noteq> 0 \<Longrightarrow> count_reached (v[i := x]) = count_reached v + (if v ! i = 0 then 1 else 0)"
  unfolding count_reached_def
  by (subst (2) id_take_nth_drop, assumption) (simp add: upd_conv_take_nth_drop)

lemma commit_all:
  assumes "distinct is" and "\<forall>i \<in> set is. i < length (virgin f) \<and> g i \<noteq> 0" and "covered f = count_reached (virgin f)"
  shows "\<exists>f'. mfold commit_one (zip (map int is) (map g is)) f = Some f' \<and>
    length (virgin f') = length (virgin f) \<and> covered f' = count_reached (virgin f') \<and>
    (\<forall>i < length (virgin f). virgin f' ! i = (if i \<in> set is then g i else virgin f ! i))"
  using assms
proof (induction "is" arbitrary: f)
  case (Cons i "is")
  let ?f = "f\<lparr>covered := (if virgin f ! i = 0 then covered f + 1 else covered f), virgin := (virgin f)[i := g i]\<rparr>"
  have one: "commit_one (int i, g i) f = Some ?f" using Cons.prems by (simp add: commit_one_def get_at_def set_at_def)
  have "covered ?f = count_reached (virgin ?f)" using Cons.prems by (simp add: count_update)
  with Cons.IH [of ?f] Cons.prems obtain f' where f': "mfold commit_one (zip (map int is) (map g is)) ?f = Some f'"
    "length (virgin f') = length (virgin f)" "covered f' = count_reached (virgin f')"
    "\<forall>j < length (virgin f). virgin f' ! j = (if j \<in> set is then g j else (virgin f)[i := g i] ! j)" by auto
  then show ?case using one Cons.prems(1) by (auto simp: nth_list_update intro!: exI [of _ f'])
qed simp

lemma length_absorbed [simp]: "length v = length b \<Longrightarrow> length (absorbed v b) = length b"
  by (simp add: absorbed_def)

lemma nth_absorbed: "length v = length b \<Longrightarrow> i < length b \<Longrightarrow> absorbed v b ! i = v ! i OR bucketOf (b ! i)"
  by (simp add: absorbed_def)

lemma not_fresh_absorbed: "\<not> fresh v b i \<Longrightarrow> v ! i OR bucketOf (b ! i) = v ! i"
  by (auto simp: fresh_def bucket_absorb bucketOf_def [of 0])

lemma judge_commit:
  assumes len: "length (virgin f) = length b" "int (length b) < 2 ^ 31" and cov: "covered f = count_reached (virgin f)"
    and j: "Map_IsInteresting b f = (res, f1)"
  shows "\<exists>f2. Map_Append f1 = Some f2 \<and> virgin f2 = absorbed (virgin f) b \<and>
    covered f2 = count_reached (virgin f2) \<and> pendingIdx f2 = []"
proof -
  let ?new = "filter (fresh (virgin f) b) [0..<length b]" and ?g = "\<lambda>i. virgin f ! i OR bucketOf (b ! i)"
  have f1: "f1 = f\<lparr>pendingIdx := map int ?new, pendingBits := map ?g ?new\<rparr>"
    using j unfolding IsInteresting_eq [OF len] by (simp add: Let_def)
  have g: "\<forall>i \<in> set ?new. i < length (virgin f1) \<and> ?g i \<noteq> 0"
    using len(1) by (auto simp: f1 fresh_def or_zero bucket_zero)
  obtain f2 where f2: "mfold commit_one (zip (map int ?new) (map ?g ?new)) f1 = Some f2"
    "length (virgin f2) = length (virgin f1)" "covered f2 = count_reached (virgin f2)"
    "\<forall>i < length (virgin f1). virgin f2 ! i = (if i \<in> set ?new then ?g i else virgin f1 ! i)"
    using commit_all [OF _ g] cov by (auto simp: f1)
  have "virgin f2 = absorbed (virgin f) b"
  proof (rule nth_equalityI)
    fix i assume "i < length (virgin f2)"
    then have i: "i < length b" using f2(2) len(1) by (simp add: f1)
    then show "virgin f2 ! i = absorbed (virgin f) b ! i"
      using f2(4) len(1) not_fresh_absorbed [of "virgin f" b i] by (simp add: f1 nth_absorbed)
  qed (use f2(2) len(1) in \<open>simp add: f1\<close>)
  with f2 show ?thesis by (simp add: Map_Append_def f1)
qed

text \<open>What has been absorbed is not new again.\<close>

lemma absorbed_stale: "length v = length b \<Longrightarrow> i < length b \<Longrightarrow> \<not> fresh (absorbed v b) b i"
proof -
  assume a: "length v = length b" "i < length b"
  have "(v ! i OR bucketOf (b ! i)) AND bucketOf (b ! i) = bucketOf (b ! i)"
    by (simp add: bit.conj_disj_distrib2 word_bw_comms)
  with a show ?thesis by (auto simp: fresh_def nth_absorbed bucket_zero)
qed

section \<open>The abstract feedback: a set of reached buckets\<close>

definition reached :: "byte list \<Rightarrow> (nat \<times> nat) set" where
  "reached b = {(i, k). i < length b \<and> bit (bucketOf (b ! i)) k}"

definition seen :: "byte list \<Rightarrow> (nat \<times> nat) set" where
  "seen v = {(i, k). i < length v \<and> bit (v ! i) k}"

lemma bucket_bits:
  assumes "c \<noteq> 0"
  obtains k where "k < 8" "\<And>n. bit (bucketOf c) n \<longleftrightarrow> n = k"
proof -
  from bucket_power [OF assms] obtain k where k: "k < 8" "bucketOf c = 2 ^ k" by blast
  then have "bit (bucketOf c) n \<longleftrightarrow> n = k" for n by (auto simp: bit_simps)
  with k that show thesis by blast
qed

lemma fresh_iff:
  assumes "length v = length b" and "i < length b"
  shows "fresh v b i \<longleftrightarrow> (\<exists>k. (i, k) \<in> reached b - seen v)"
proof (cases "b ! i = 0")
  case True
  then show ?thesis by (auto simp: fresh_def reached_def bucketOf_def)
next
  case False
  then obtain k where k: "k < 8" "\<And>n. bit (bucketOf (b ! i)) n \<longleftrightarrow> n = k" by (rule bucket_bits) blast
  have "v ! i AND bucketOf (b ! i) = 0 \<longleftrightarrow> \<not> bit (v ! i) k"
    using k by (auto simp: bit_eq_iff [where 'a = "8 word"] bit_and_iff)
  with False k assms show ?thesis by (auto simp: fresh_def reached_def seen_def)
qed

lemma seen_absorbed: "length v = length b \<Longrightarrow> seen (absorbed v b) = seen v \<union> reached b"
  by (auto simp: seen_def reached_def nth_absorbed bit_or_iff)

text \<open>C14. The coverage feedback is a set of reached buckets: it fires exactly when an execution
  reaches a bucket outside the set, its count is the number of counters that do, a commit adds
  what the execution reached, and a discard changes nothing.\<close>

theorem MapFeedback_refines:
  assumes "length (virgin f) = length b" and "int (length b) < 2 ^ 31" and "covered f = count_reached (virgin f)"
  shows "\<exists>n f1 f2. Map_IsInteresting b f = (Some (Inr (\<not> reached b \<subseteq> seen (virgin f), n)), f1) \<and>
    n = card (fst ` (reached b - seen (virgin f))) \<and>
    Map_Append f1 = Some f2 \<and> seen (virgin f2) = seen (virgin f) \<union> reached b \<and>
    covered f2 = count_reached (virgin f2) \<and> virgin (Map_Discard f1) = virgin f"
proof -
  let ?new = "filter (fresh (virgin f) b) [0..<length b]"
  obtain res f1 where j: "Map_IsInteresting b f = (res, f1)" by force
  from judge_commit [OF assms j] obtain f2 where f2: "Map_Append f1 = Some f2"
    "virgin f2 = absorbed (virgin f) b" "covered f2 = count_reached (virgin f2)" by blast
  have new: "set ?new = fst ` (reached b - seen (virgin f))"
    using fresh_iff [OF assms(1)] by (force simp: reached_def)
  have "length ?new = card (set ?new)" by (intro distinct_card [symmetric]) simp
  moreover have "?new \<noteq> [] \<longleftrightarrow> \<not> reached b \<subseteq> seen (virgin f)"
    using new by (metis Diff_eq_empty_iff image_is_empty set_empty)
  ultimately have "res = Some (Inr (\<not> reached b \<subseteq> seen (virgin f), card (fst ` (reached b - seen (virgin f)))))"
    and "virgin (Map_Discard f1) = virgin f"
    using j new unfolding IsInteresting_eq [OF assms(1,2)] by (auto simp: Let_def Map_Discard_def)
  with j f2 seen_absorbed [OF assms(1)] show ?thesis by auto
qed

text \<open>Once an execution has been committed it is never interesting again, whatever has been
  committed since.\<close>

lemma MapFeedback_settles:
  assumes "length (virgin f) = length b" and "int (length b) < 2 ^ 31" and "reached b \<subseteq> seen (virgin f)"
  shows "\<exists>f1. Map_IsInteresting b f = (Some (Inr (False, 0)), f1) \<and> virgin f1 = virgin f \<and> Map_Append f1 = Some f1"
proof -
  have "filter (fresh (virgin f) b) [0..<length b] = []"
    using fresh_iff [OF assms(1)] assms(3) by (auto simp: filter_empty_conv)
  then show ?thesis unfolding IsInteresting_eq [OF assms(1,2)] by (simp add: Let_def Map_Append_def)
qed

section \<open>The signature\<close>

lemma signature_cong:
  "map bucketOf xs = map bucketOf ys \<Longrightarrow> signature_from i xs h = signature_from i ys h"
proof (induction i xs h arbitrary: ys rule: signature_from.induct)
  case (2 i c cs h)
  then obtain d ds where ys: "ys = d # ds" "bucketOf d = bucketOf c" "map bucketOf cs = map bucketOf ds"
    by (cases ys) auto
  have "d = 0 \<longleftrightarrow> c = 0" using ys(2) bucket_zero by metis
  with 2 ys show ?case by (cases "c = 0") (simp_all add: Let_def)
qed simp

text \<open>The signature of an execution depends on the buckets of its counters only, so another
  number of turns of a loop within the same bucket leaves it unchanged.\<close>

lemma Signature_buckets:
  assumes "map bucketOf (buf m) = map bucketOf (buf m')"
  shows "Signature m = Signature m'"
  unfolding Signature_def by (rule signature_cong [OF assms])

section \<open>Folding counters\<close>

lemma spread_inverse_1: "0x7FEB352D * 0x1D69E2A5 = (1 :: u32)"
  by simp

lemma spread_inverse_2: "0x846CA68B * 0x43021123 = (1 :: u32)"
  by simp

lemma SpreadIndex_inj: "SpreadIndex x = SpreadIndex y \<Longrightarrow> x = y"
  unfolding SpreadIndex_def Let_def
  by (drule xorshift_inj [where k = 16, rotated], simp,
      drule mult_inv_inj [OF spread_inverse_2],
      drule xorshift_inj [where k = 15, rotated], simp,
      drule mult_inv_inj [OF spread_inverse_1],
      drule xorshift_inj [where k = 16, rotated], simp)

definition slot_of :: "nat \<Rightarrow> nat \<Rightarrow> nat" where
  "slot_of n i = unat (SpreadIndex (of_nat i) AND (of_nat n - 1))"

lemma slot_of_less:
  assumes "0 < n" and "n \<le> 2 ^ 32"
  shows "slot_of n i < n"
proof -
  have "(of_nat n - 1 :: u32) = of_nat (n - 1)" using assms(1) by (simp add: of_nat_diff)
  moreover have "unat (of_nat k :: u32) = k" if "k < 2 ^ 32" for k
    using that by (simp add: unat_of_nat take_bit_nat_eq_self)
  from this [of "n - 1"] have "unat (of_nat (n - 1) :: u32) = n - 1" using assms by linarith
  ultimately have "unat (of_nat n - 1 :: u32) = n - 1" by simp
  moreover have "slot_of n i \<le> unat (of_nat n - 1 :: u32)"
    unfolding slot_of_def by (rule word_le_nat_alt [THEN iffD1], rule word_and_le1)
  ultimately show ?thesis using assms(1) by simp
qed

definition touched :: "byte list \<Rightarrow> nat" where
  "touched cs = length (filter (\<lambda>c. c \<noteq> 0) cs)"

lemma byte_Suc:
  assumes "x < (255 :: byte)"
  shows "x \<le> x + 1 \<and> x + 1 \<noteq> 0"
proof -
  have "1 + x \<noteq> 0"
  proof
    assume "1 + x = 0"
    then have "x = - 1" by (simp add: eq_neg_iff_add_eq_0 add.commute)
    with assms show False by simp
  qed
  then show ?thesis using unatSuc [of x] by (simp add: word_le_nat_alt add.commute)
qed

lemma fold_counters:
  assumes "b0 \<noteq> []" and "length b0 \<le> 2 ^ 32"
  shows "ok (mfold (fold_counter (of_nat (length b0) - 1)) (enumerate k cs) (n0, b0)) (\<lambda>(n, b).
    n = n0 + touched cs \<and> length b = length b0 \<and> (\<forall>j < length b0. b0 ! j \<le> b ! j) \<and>
    (\<forall>i < length cs. cs ! i \<noteq> 0 \<longrightarrow> b ! slot_of (length b0) (k + i) \<noteq> 0))"
  using assms
proof (induction cs arbitrary: k n0 b0)
  case (Cons c cs)
  let ?s = "slot_of (length b0) k" and ?m = "of_nat (length b0) - 1 :: u32"
  have s: "?s < length b0" using slot_of_less Cons.prems by simp
  define b1 where "b1 = (if c = 0 \<or> \<not> b0 ! ?s < 255 then b0 else b0[?s := b0 ! ?s + 1])"
  define n1 where "n1 = (if c = 0 then n0 else n0 + 1)"
  have step: "fold_counter ?m (k, c) (n0, b0) = Some (n1, b1)"
    using s by (simp add: fold_counter_def n1_def b1_def get_at_def set_at_def slot_of_def [symmetric] Let_def)
  have len: "length b1 = length b0" by (simp add: b1_def)
  have up: "x < 255 \<Longrightarrow> x \<le> x + 1 \<and> x + 1 \<noteq> 0" for x :: byte by (rule byte_Suc)
  have ge: "\<forall>j < length b0. b0 ! j \<le> b1 ! j" using up s by (auto simp: b1_def nth_list_update)
  have nz: "c \<noteq> 0 \<Longrightarrow> b1 ! ?s \<noteq> 0" using up [of "b0 ! ?s"] s by (auto simp: b1_def)
  have ne: "b1 \<noteq> []" "length b1 \<le> 2 ^ 32" using len Cons.prems by (auto simp flip: length_greater_0_conv)
  have t: "n1 + touched cs = n0 + touched (c # cs)" by (simp add: n1_def touched_def)
  have "ok (mfold (fold_counter ?m) (enumerate (Suc k) cs) (n1, b1)) (\<lambda>(n, b).
    n = n0 + touched (c # cs) \<and> length b = length b0 \<and> (\<forall>j < length b0. b0 ! j \<le> b ! j) \<and>
    (\<forall>i < length (c # cs). (c # cs) ! i \<noteq> 0 \<longrightarrow> b ! slot_of (length b0) (k + i) \<noteq> 0))"
  proof (rule ok_mono [OF Cons.IH [OF ne, of "Suc k" n1, unfolded len t]], clarify, intro conjI allI impI)
    fix b :: "byte list" and j assume b: "length b = length b0" "\<forall>j < length b0. b1 ! j \<le> b ! j" "j < length b0"
    with ge show "b0 ! j \<le> b ! j" using order_trans by blast
  next
    fix b :: "byte list" and i
    assume b: "\<forall>j < length b0. b1 ! j \<le> b ! j"
      "\<forall>i < length cs. cs ! i \<noteq> 0 \<longrightarrow> b ! slot_of (length b0) (Suc k + i) \<noteq> 0"
      and i: "i < length (c # cs)" "(c # cs) ! i \<noteq> 0"
    show "b ! slot_of (length b0) (k + i) \<noteq> 0"
    proof (cases i)
      case 0
      with i nz s b(1) show ?thesis by (metis add.right_neutral nth_Cons_0 word_le_0_iff)
    next
      case (Suc i')
      with i b(2) show ?thesis by simp
    qed
  qed auto
  then show ?case by (simp add: step)
qed (simp add: touched_def)

lemma counters_region: "region (snd (counters o0)) = region o0"
  by (simp add: counters_def Let_def)

text \<open>Folding a target's counters never leaves the region or the map: it fails only with the
  errors the runtime can cause, and otherwise every counter that was hit marks its slot, no
  mark is lost to wrap-around, and the number of counters hit is reported.\<close>

lemma Counter_Post_marks:
  assumes "b \<noteq> []" and "length b \<le> 2 ^ 32"
  shows "case counters o0 of
      (Inl e, o1) \<Rightarrow> Counter_Post o0 b = Some (Inl e, o1, b)
    | (Inr None, o1) \<Rightarrow> Counter_Post o0 b = Some (Inr (), o1, b)
    | (Inr (Some cs), o1) \<Rightarrow> \<exists>b'. Counter_Post o0 b = Some (Inr (), o1\<lparr>coCovered := touched cs\<rparr>, b') \<and>
        length b' = length b \<and> (\<forall>j < length b. b ! j \<le> b' ! j) \<and>
        (\<forall>i < length cs. cs ! i \<noteq> 0 \<longrightarrow> b' ! slot_of (length b) i \<noteq> 0)"
proof -
  obtain res o1 where c: "counters o0 = (res, o1)" by force
  show ?thesis
  proof (cases res)
    case (Inr m)
    show ?thesis
    proof (cases m)
      case (Some cs)
      from fold_counters [OF assms, of 0 cs 0] obtain n b' where
        "mfold (fold_counter (of_nat (length b) - 1)) (enumerate 0 cs) (0, b) = Some (n, b')"
        "n = touched cs" "length b' = length b" "\<forall>j < length b. b ! j \<le> b' ! j"
        "\<forall>i < length cs. cs ! i \<noteq> 0 \<longrightarrow> b' ! slot_of (length b) i \<noteq> 0"
        by (auto elim!: okE)
      with c Inr Some assms(1) show ?thesis by (simp add: Counter_Post_def)
    qed (use c Inr in \<open>simp add: Counter_Post_def\<close>)
  qed (use c in \<open>simp add: Counter_Post_def\<close>)
qed

text \<open>The counters an observer hands over are exactly the bytes the header names, and never
  bytes beyond the region.\<close>

lemma counters_window:
  assumes "counters o0 = (Inr (Some cs), o1)"
  shows "length cs = unat (coCount o1) \<and> 0 < length cs \<and> failed o1 = 0 \<and>
    (\<exists>start. start + length cs \<le> length (region o0) \<and> (\<forall>i < length cs. cs ! i = region o0 ! (start + i)))"
proof -
  let ?off = "unat (le32 (window 4 8 (region o0)))" and ?cnt = "le32 (window 8 12 (region o0))"
  from assms have cs: "cs = window ?off (?off + unat ?cnt) (region o0)"
    and le: "?off + unat ?cnt \<le> length (region o0)" and nz: "?cnt \<noteq> 0"
    and o1: "coCount o1 = ?cnt" "failed o1 = 0"
    by (auto simp: counters_def Let_def split: if_splits)
  have "0 < unat ?cnt" using nz by (simp add: unat_gt_0)
  with cs le o1 show ?thesis by (auto simp: nth_window intro!: exI [of _ ?off])
qed

section \<open>Witnesses\<close>

definition ex_map :: coverage_map where
  "ex_map = \<lparr>mapName = ''edges'', buf = [0, 0, 0, 0, 0, 0, 0, 0, 0, 3, 0, 200], backend = []\<rparr>"

definition ex_region :: "byte list" where
  "ex_region = [0x32, 0x54, 0x4E, 0x43, 16, 0, 0, 0, 3, 0, 0, 0, 0, 0, 0, 0, 5, 0, 9, 7]"

definition ex_observer :: counter_observer where
  "ex_observer = \<lparr>coName = ''counters'', region = ex_region, coCount = 0, coCovered = 0, failed = 0\<rparr>"

lemma ex_observer_counters: "fst (counters ex_observer) = Inr (Some [5, 0, 9])"
  by code_simp

theorem MapFeedback_refines_witness:
  "fst (Map_IsInteresting (buf ex_map) (NewMapFeedback ''cov'' ex_map)) = Some (Inr (True, 2))"
proof -
  let ?f = "NewMapFeedback ''cov'' ex_map"
  have c: "covered ?f = count_reached (virgin ?f)" and l: "length (virgin ?f) = length (buf ex_map)"
    and s: "length (filter (fresh (virgin ?f) (buf ex_map)) [0..<length (buf ex_map)]) = 2" by code_simp+
  have "int (length (buf ex_map)) < 2 ^ 31" by (simp add: ex_map_def)
  with MapFeedback_refines [OF l _ c] obtain n f1 where
    "Map_IsInteresting (buf ex_map) ?f = (Some (Inr (\<not> reached (buf ex_map) \<subseteq> seen (virgin ?f), n)), f1)" by blast
  moreover have "Map_IsInteresting (buf ex_map) ?f = (Some (Inr (True, 2)), snd (Map_IsInteresting (buf ex_map) ?f))"
    by code_simp
  ultimately show ?thesis by simp
qed

lemma MapFeedback_settles_witness:
  "\<exists>f1. Map_IsInteresting [0, 3] \<lparr>fbName = [], virgin = [1, 4], pendingIdx = [], pendingBits = [], covered = 2\<rparr> =
     (Some (Inr (False, 0)), f1)"
proof -
  have "reached [0, 3] \<subseteq> seen [1, 4]"
    by (auto simp: reached_def seen_def bucketOf_def less_Suc_eq)
  then show ?thesis
    using MapFeedback_settles [of "\<lparr>fbName = [], virgin = [1, 4], pendingIdx = [], pendingBits = [], covered = 2\<rparr>" "[0, 3]"]
    by auto
qed

lemma Signature_buckets_witness:
  "Signature \<lparr>mapName = [], buf = [0, 5, 100], backend = []\<rparr> = Signature \<lparr>mapName = ''b'', buf = [0, 7, 33], backend = []\<rparr>"
  by (rule Signature_buckets) (simp add: bucketOf_def)

lemma Counter_Post_marks_witness:
  "\<exists>o1 b'. Counter_Post ex_observer (replicate 8 0) = Some (Inr (), o1, b') \<and> coCovered o1 = 2"
proof -
  obtain o1 where c: "counters ex_observer = (Inr (Some [5, 0, 9]), o1)"
    using ex_observer_counters by (metis prod.collapse)
  have "touched [5, 0, 9] = 2" by (simp add: touched_def)
  with Counter_Post_marks [of "replicate 8 0" ex_observer] c show ?thesis by auto
qed

lemma counters_window_witness: "unat (coCount (snd (counters ex_observer))) = 3"
proof -
  obtain o1 where c: "counters ex_observer = (Inr (Some [5, 0, 9]), o1)"
    using ex_observer_counters by (metis prod.collapse)
  from counters_window [OF this] c show ?thesis by simp
qed

end
