(* ===== verification/Feedback_Stack.thy ===== *)
theory Feedback_Stack
  imports Feedback_Map
begin

text \<open>
  The feedback algebra of \<open>pkg/feedback/feedback.go\<close>: combinators, negation and
  constants over leaf feedbacks, the exit kinds, and the turn the engine takes
  with a stack (\<open>internal/engine/engine.go\<close>): judge, then commit or discard. The
  leaves are reached through their interface, a record of operations, which the
  coverage feedback implements. Of a score the count of new signals is kept; its
  other members are floating point.
\<close>

section \<open>Exit kinds\<close>

datatype exit_kind = ExitOK | ExitCrash | ExitTimeout | ExitOOM | ExitError | ExitOther nat

definition exit_String :: "exit_kind \<Rightarrow> string" where
  "exit_String e =
     (case e of ExitOK \<Rightarrow> ''ok'' | ExitCrash \<Rightarrow> ''crash'' | ExitTimeout \<Rightarrow> ''timeout''
      | ExitOOM \<Rightarrow> ''oom'' | ExitError \<Rightarrow> ''error'' | ExitOther _ \<Rightarrow> ''unknown'')"

definition IsFault :: "exit_kind \<Rightarrow> bool" where
  "IsFault e \<longleftrightarrow> e = ExitCrash \<or> e = ExitTimeout \<or> e = ExitOOM"

section \<open>The stack\<close>

type_synonym verdict = "string + bool \<times> int"

record ('l, 'e) leaf_ops =
  leaf_name :: "'l \<Rightarrow> string"
  judge :: "'e \<Rightarrow> 'l \<Rightarrow> verdict \<times> 'l"
  commit :: "'l \<Rightarrow> 'l"
  rollback :: "'l \<Rightarrow> 'l"

datatype 'l feedback =
    Leaf 'l
  | Combinator string "'l feedback list" bool "bool list"
  | Negate "'l feedback"
  | Constant bool string

definition AllOf :: "'l feedback list \<Rightarrow> 'l feedback" where
  "AllOf fs = Combinator ''all'' fs True []"

definition AnyOf :: "'l feedback list \<Rightarrow> 'l feedback" where
  "AnyOf fs = Combinator ''any'' fs False []"

definition Fast :: "'l feedback \<Rightarrow> 'l feedback \<Rightarrow> 'l feedback" where
  "Fast cheap expensive = Combinator ''fast'' [cheap, expensive] True []"

definition Not_of :: "'l feedback \<Rightarrow> 'l feedback" where
  "Not_of f = Negate f"

definition Never :: "'l feedback" where "Never = Constant False ''never''"
definition Always :: "'l feedback" where "Always = Constant True ''always''"

fun join_with :: "string \<Rightarrow> string list \<Rightarrow> string" where
  "join_with sep [] = []"
| "join_with sep [x] = x"
| "join_with sep (x # y # xs) = x @ sep @ join_with sep (y # xs)"

fun fb_Name :: "('l, 'e) leaf_ops \<Rightarrow> 'l feedback \<Rightarrow> string" where
  "fb_Name ops (Leaf l) = leaf_name ops l"
| "fb_Name ops (Combinator name fs every fired) = name @ ''('' @ join_with '', '' (map (fb_Name ops) fs) @ '')''"
| "fb_Name ops (Negate f) = ''not('' @ fb_Name ops f @ '')''"
| "fb_Name ops (Constant v name) = name"

text \<open>
  A combinator judges its children in order and remembers which of them fired. An
  error returns at once and leaves the later flags as they were.
\<close>

fun IsInteresting :: "('l, 'e) leaf_ops \<Rightarrow> 'e \<Rightarrow> 'l feedback \<Rightarrow> verdict \<times> 'l feedback"
  and judge_kids :: "('l, 'e) leaf_ops \<Rightarrow> 'e \<Rightarrow> bool \<Rightarrow> bool \<Rightarrow> int \<Rightarrow> 'l feedback list \<Rightarrow> bool list \<Rightarrow>
        verdict \<times> 'l feedback list \<times> bool list" where
  "IsInteresting ops env (Leaf l) = (let (v, l) = judge ops env l in (v, Leaf l))"
| "IsInteresting ops env (Combinator name fs every fired) =
     (let fired = (if length fired < length fs then replicate (length fs) False else take (length fs) fired);
          (v, fs, fired) = judge_kids ops env every every 0 fs fired
      in (v, Combinator name fs every fired))"
| "IsInteresting ops env (Negate f) =
     (case IsInteresting ops env f of
        (Inl e, f) \<Rightarrow> (Inl e, Negate f)
      | (Inr (fires, s), f) \<Rightarrow> (Inr (\<not> fires, s), Negate f))"
| "IsInteresting ops env (Constant v name) = (Inr (v, 0), Constant v name)"
| "judge_kids ops env every res tot (f # fs) (d # fired) =
     (if every \<and> \<not> res then
        (let (v, fs, fired) = judge_kids ops env every res tot fs fired in (v, f # fs, False # fired))
      else case IsInteresting ops env f of
             (Inl e, f) \<Rightarrow> (Inl (fb_Name ops f @ '': '' @ e), f # fs, False # fired)
           | (Inr (fires, s), f) \<Rightarrow>
               (let (v, fs, fired) = judge_kids ops env every (if every then res \<and> fires else res \<or> fires) (tot + s) fs fired
                in (v, f # fs, fires # fired)))"
| "judge_kids ops env every res tot fs fired = (Inr (res, tot), fs, fired)"

fun fb_Discard :: "('l, 'e) leaf_ops \<Rightarrow> 'l feedback \<Rightarrow> 'l feedback" where
  "fb_Discard ops (Leaf l) = Leaf (rollback ops l)"
| "fb_Discard ops (Combinator name fs every fired) = Combinator name (map (fb_Discard ops) fs) every fired"
| "fb_Discard ops (Negate f) = Negate (fb_Discard ops f)"
| "fb_Discard ops (Constant v name) = Constant v name"

fun fb_Append :: "('l, 'e) leaf_ops \<Rightarrow> 'l feedback \<Rightarrow> 'l feedback"
  and append_kids :: "('l, 'e) leaf_ops \<Rightarrow> 'l feedback list \<Rightarrow> bool list \<Rightarrow> 'l feedback list" where
  "fb_Append ops (Leaf l) = Leaf (commit ops l)"
| "fb_Append ops (Combinator name fs every fired) = Combinator name (append_kids ops fs fired) every fired"
| "fb_Append ops (Negate f) = Negate (fb_Append ops f)"
| "fb_Append ops (Constant v name) = Constant v name"
| "append_kids ops [] fired = []"
| "append_kids ops (f # fs) [] = fb_Discard ops f # append_kids ops fs []"
| "append_kids ops (f # fs) (d # fired) =
     (if d then fb_Append ops f else fb_Discard ops f) # append_kids ops fs fired"

fun Children_of :: "'l feedback \<Rightarrow> 'l feedback list" where
  "Children_of (Combinator name fs every fired) = fs"
| "Children_of (Negate f) = [f]"
| "Children_of _ = []"

fun FindFeedback :: "('l, 'e) leaf_ops \<Rightarrow> string \<Rightarrow> 'l feedback \<Rightarrow> 'l feedback option"
  and find_kid :: "('l, 'e) leaf_ops \<Rightarrow> string \<Rightarrow> 'l feedback list \<Rightarrow> 'l feedback option" where
  "FindFeedback ops name (Leaf l) = (if leaf_name ops l = name then Some (Leaf l) else None)"
| "FindFeedback ops name (Constant v n) = (if n = name then Some (Constant v n) else None)"
| "FindFeedback ops name (Negate f) =
     (if fb_Name ops (Negate f) = name then Some (Negate f) else FindFeedback ops name f)"
| "FindFeedback ops name (Combinator n fs every fired) =
     (if fb_Name ops (Combinator n fs every fired) = name then Some (Combinator n fs every fired)
      else find_kid ops name fs)"
| "find_kid ops name [] = None"
| "find_kid ops name (f # fs) =
     (case FindFeedback ops name f of Some g \<Rightarrow> Some g | None \<Rightarrow> find_kid ops name fs)"

text \<open>
  What the engine does with a stack after an execution. The objective is asked
  between the judgement and the commit; \<open>objective\<close> is the error it fails with,
  if it does, and then the engine returns with nothing committed or discarded.
\<close>

definition evaluate_feedback :: "('l, 'e) leaf_ops \<Rightarrow> string option \<Rightarrow> 'e \<Rightarrow> 'l feedback \<Rightarrow> verdict \<times> 'l feedback" where
  "evaluate_feedback ops objective env f =
     (case IsInteresting ops env f of
        (Inl e, f) \<Rightarrow> (Inl e, f)
      | (Inr (fires, s), f) \<Rightarrow>
          (case objective of
             Some e \<Rightarrow> (Inl e, f)
           | None \<Rightarrow> (Inr (fires, s), if fires then fb_Append ops f else fb_Discard ops f)))"

text \<open>The turn with an objective that answers.\<close>

definition turn :: "('l, 'e) leaf_ops \<Rightarrow> 'e \<Rightarrow> 'l feedback \<Rightarrow> verdict \<times> 'l feedback" where
  "turn ops env f = evaluate_feedback ops None env f"

text \<open>The coverage feedback as a leaf; the environment of an execution is its map.\<close>

definition map_ops :: "(map_feedback, byte list) leaf_ops" where
  "map_ops = \<lparr>leaf_name = fbName,
     judge = (\<lambda>b f. case Map_IsInteresting b f of
        (Some (Inl e), f) \<Rightarrow> (Inl e, f)
      | (Some (Inr (fires, n)), f) \<Rightarrow> (Inr (fires, int n), f)
      | (None, f) \<Rightarrow> (Inl ''panic'', f)),
     commit = (\<lambda>f. case Map_Append f of Some f \<Rightarrow> f | None \<Rightarrow> f),
     rollback = Map_Discard\<rparr>"

section \<open>The contract of a leaf\<close>

text \<open>
  A leaf keeps a committed state, its view by \<open>view\<close>. Judging does not change it and
  depends on it and the execution only; a commit learns from the execution just
  judged, a rollback forgets it, and an execution that is not interesting has
  nothing to teach.
\<close>

fun shape :: "('l \<Rightarrow> 'a) \<Rightarrow> 'l feedback \<Rightarrow> 'a feedback" where
  "shape view (Leaf l) = Leaf (view l)"
| "shape view (Combinator name fs every fired) = Combinator name (map (shape view) fs) every []"
| "shape view (Negate f) = Negate (shape view f)"
| "shape view (Constant v name) = Constant v name"

fun leaves :: "'l feedback \<Rightarrow> 'l list" where
  "leaves (Leaf l) = [l]"
| "leaves (Combinator name fs every fired) = concat (map leaves fs)"
| "leaves (Negate f) = leaves f"
| "leaves (Constant v name) = []"

text \<open>The formula a stack stands for, and what its leaves hold after a commit.\<close>

fun holds :: "('a \<Rightarrow> bool) \<Rightarrow> 'a feedback \<Rightarrow> bool" where
  "holds h (Leaf a) = h a"
| "holds h (Combinator name fs every fired) =
     (if every then list_all (holds h) fs else list_ex (holds h) fs)"
| "holds h (Negate f) = (\<not> holds h f)"
| "holds h (Constant v name) = v"

fun learnt :: "('a \<Rightarrow> bool) \<Rightarrow> ('a \<Rightarrow> 'a) \<Rightarrow> 'a feedback \<Rightarrow> 'a feedback"
  and learnt_kids :: "('a \<Rightarrow> bool) \<Rightarrow> ('a \<Rightarrow> 'a) \<Rightarrow> bool \<Rightarrow> bool \<Rightarrow> 'a feedback list \<Rightarrow> 'a feedback list" where
  "learnt h g (Leaf a) = Leaf (g a)"
| "learnt h g (Combinator name fs every fired) = Combinator name (learnt_kids h g every True fs) every []"
| "learnt h g (Negate f) = Negate (learnt h g f)"
| "learnt h g (Constant v name) = Constant v name"
| "learnt_kids h g every asked [] = []"
| "learnt_kids h g every asked (f # fs) =
     (if asked \<and> holds h f then learnt h g f else f) #
       learnt_kids h g every (asked \<and> (every \<longrightarrow> holds h f)) fs"

lemma judge_kids_ask:
  assumes "\<not> (every \<and> \<not> res)" and "IsInteresting ops env f = (Inr (b, s), f')"
    and "judge_kids ops env every (if every then res \<and> b else res \<or> b) (tot + s) fs fired = (v, fs', fired')"
  shows "judge_kids ops env every res tot (f # fs) (d # fired) = (v, f' # fs', b # fired')"
  using assms by (simp only: judge_kids.simps(1) if_False) simp

locale leaf_contract =
  fixes ops :: "('l, 'e) leaf_ops"
    and view :: "'l \<Rightarrow> 'a"
    and inv :: "'e \<Rightarrow> 'l \<Rightarrow> bool"
    and hold :: "'e \<Rightarrow> 'a \<Rightarrow> bool"
    and learn :: "'e \<Rightarrow> 'a \<Rightarrow> 'a"
  assumes judge_law: "inv env l \<Longrightarrow> \<exists>n l'. judge ops env l = (Inr (hold env (view l), n), l') \<and>
      inv env l' \<and> view l' = view l \<and> inv env (commit ops l') \<and> view (commit ops l') = learn env (view l)"
    and rollback_law: "inv env l \<Longrightarrow> inv env (rollback ops l) \<and> view (rollback ops l) = view l"
    and quiet: "\<not> hold env a \<Longrightarrow> learn env a = a"
begin

definition good :: "'e \<Rightarrow> 'l feedback \<Rightarrow> bool" where
  "good env f \<longleftrightarrow> (\<forall>l \<in> set (leaves f). inv env l)"

lemma good_simps [simp]:
  "good env (Leaf l) = inv env l" "good env (Combinator name fs every fired) = (\<forall>f \<in> set fs. good env f)"
  "good env (Negate f) = good env f" "good env (Constant v name)"
  by (auto simp: good_def)

lemma Discard_ok: "good env f \<Longrightarrow> good env (fb_Discard ops f) \<and> shape view (fb_Discard ops f) = shape view f"
  by (induction f) (auto simp: rollback_law)

definition judged :: "'e \<Rightarrow> 'l feedback \<Rightarrow> 'l feedback \<Rightarrow> bool" where
  "judged env f f' \<longleftrightarrow> good env f' \<and> shape view f' = shape view f \<and> good env (fb_Append ops f') \<and>
     shape view (fb_Append ops f') = learnt (hold env) (learn env) (shape view f)"

lemma judge_kids_ok:
  assumes "\<And>f. f \<in> set fs \<Longrightarrow> good env f \<Longrightarrow>
      \<exists>n f'. IsInteresting ops env f = (Inr (holds (hold env) (shape view f), n), f') \<and> judged env f f'"
    and "\<And>f. f \<in> set fs \<Longrightarrow> good env f" and "length fired = length fs" and "asked = (every \<longrightarrow> res)"
  shows "\<exists>n fs' fired'. judge_kids ops env every res tot fs fired =
      (Inr (if every then res \<and> list_all (\<lambda>f. holds (hold env) (shape view f)) fs
            else res \<or> list_ex (\<lambda>f. holds (hold env) (shape view f)) fs, n), fs', fired') \<and>
    (\<forall>f \<in> set fs'. good env f) \<and> map (shape view) fs' = map (shape view) fs \<and>
    (\<forall>f \<in> set (append_kids ops fs' fired'). good env f) \<and>
    map (shape view) (append_kids ops fs' fired') = learnt_kids (hold env) (learn env) every asked (map (shape view) fs)"
  using assms
proof (induction fs arbitrary: fired res tot asked)
  case (Cons f fs)
  obtain d ds where fired: "fired = d # ds" "length ds = length fs" using Cons.prems(3) by (cases fired) auto
  let ?h = "\<lambda>f. holds (hold env) (shape view f)"
  show ?case
  proof (cases "every \<and> \<not> res")
    case True
    obtain n fs' ds' where k: "judge_kids ops env every res tot fs ds = (Inr (False, n), fs', ds')"
      "\<forall>f \<in> set fs'. good env f" "map (shape view) fs' = map (shape view) fs"
      "\<forall>f \<in> set (append_kids ops fs' ds'). good env f"
      "map (shape view) (append_kids ops fs' ds') = learnt_kids (hold env) (learn env) every False (map (shape view) fs)"
      using Cons.IH [of ds False res tot] Cons.prems(1,2) fired(2) True by auto
    with True Cons.prems(2,4) fired Discard_ok [of env f] show ?thesis by auto
  next
    case False
    obtain s f' where f': "IsInteresting ops env f = (Inr (?h f, s), f')" and j: "judged env f f'"
      using Cons.prems(1) [of f] Cons.prems(2) by auto
    let ?res = "if every then res \<and> ?h f else res \<or> ?h f"
    obtain n fs' ds' where k: "judge_kids ops env every ?res (tot + s) fs ds = (Inr (if every then ?res \<and> list_all ?h fs
          else ?res \<or> list_ex ?h fs, n), fs', ds')"
      "\<forall>f \<in> set fs'. good env f" "map (shape view) fs' = map (shape view) fs"
      "\<forall>f \<in> set (append_kids ops fs' ds'). good env f"
      "map (shape view) (append_kids ops fs' ds') =
        learnt_kids (hold env) (learn env) every (every \<longrightarrow> ?res) (map (shape view) fs)"
      using Cons.IH [of ds "every \<longrightarrow> ?res" ?res "tot + s"] Cons.prems(1,2) fired(2) by auto
    have asked: "asked" "(every \<longrightarrow> ?res) = (asked \<and> (every \<longrightarrow> ?h f))" using False Cons.prems(4) by auto
    have run: "judge_kids ops env every res tot (f # fs) fired =
        (Inr (if every then ?res \<and> list_all ?h fs else ?res \<or> list_ex ?h fs, n), f' # fs', ?h f # ds')"
      unfolding fired(1) by (rule judge_kids_ask [OF False f' k(1)])
    have app: "append_kids ops (f' # fs') (?h f # ds') =
        (if ?h f then fb_Append ops f' else fb_Discard ops f') # append_kids ops fs' ds'" by simp
    show ?thesis
      unfolding run app using j k(2-5) Discard_ok [of env f'] asked by (auto simp: judged_def)
  qed
qed simp

lemma IsInteresting_ok:
  "good env f \<Longrightarrow>
   \<exists>n f'. IsInteresting ops env f = (Inr (holds (hold env) (shape view f), n), f') \<and> judged env f f'"
proof (induction f)
  case (Leaf l)
  then obtain n l' where "judge ops env l = (Inr (hold env (view l), n), l')"
      "inv env l'" "view l' = view l" "inv env (commit ops l')" "view (commit ops l') = learn env (view l)"
    using judge_law by fastforce
  then show ?case by (simp add: judged_def)
next
  case (Combinator name fs every fired)
  let ?fired = "if length fired < length fs then replicate (length fs) False else take (length fs) fired"
  have "length ?fired = length fs" by simp
  from judge_kids_ok [where fs = fs and fired = ?fired and env = env and every = every and res = every and tot = 0,
      OF Combinator.IH _ this refl] Combinator.prems
  obtain n fs' fired' where "judge_kids ops env every every 0 fs ?fired =
      (Inr (if every then every \<and> list_all (\<lambda>f. holds (hold env) (shape view f)) fs
            else every \<or> list_ex (\<lambda>f. holds (hold env) (shape view f)) fs, n), fs', fired')"
    "\<forall>f \<in> set fs'. good env f" "map (shape view) fs' = map (shape view) fs"
    "\<forall>f \<in> set (append_kids ops fs' fired'). good env f"
    "map (shape view) (append_kids ops fs' fired') = learnt_kids (hold env) (learn env) every True (map (shape view) fs)"
    by auto
  then show ?case by (auto simp: judged_def list.pred_map list_ex_iff list_all_iff)
next
  case (Negate f)
  then show ?case by (auto simp: judged_def)
qed (simp add: judged_def)

text \<open>A turn of the engine: the verdict is the formula, and the leaves learn what a commit teaches.\<close>

lemma turn_ok:
  assumes "good env f"
  shows "\<exists>n f'. turn ops env f = (Inr (holds (hold env) (shape view f), n), f') \<and> good env f' \<and>
    shape view f' = (if holds (hold env) (shape view f) then learnt (hold env) (learn env) (shape view f) else shape view f)"
proof -
  obtain n f' where f': "IsInteresting ops env f = (Inr (holds (hold env) (shape view f), n), f')" "judged env f f'"
    using IsInteresting_ok [OF assms] by blast
  then have "good env f'" by (simp add: judged_def)
  with f' Discard_ok [OF this] show ?thesis by (simp add: turn_def evaluate_feedback_def judged_def)
qed

text \<open>When the objective fails nothing has been learnt, whatever the stack made of the execution.\<close>

lemma objective_fails:
  assumes "good env f"
  shows "\<exists>f'. evaluate_feedback ops (Some e) env f = (Inl e, f') \<and> good env f' \<and> shape view f' = shape view f"
  using IsInteresting_ok [OF assms] by (auto simp: evaluate_feedback_def judged_def)

text \<open>A negated leaf never learns: when the negation fires there is nothing to learn.\<close>

lemma negated_leaf: "inv env l \<Longrightarrow> \<exists>n f'. turn ops env (Negate (Leaf l)) = (Inr (\<not> hold env (view l), n), f') \<and>
    shape view f' = Negate (Leaf (view l))"
  using turn_ok [of env "Negate (Leaf l)"] quiet by auto

end

section \<open>Stacks over the coverage map\<close>

definition fits :: "byte list \<Rightarrow> map_feedback \<Rightarrow> bool" where
  "fits b f \<longleftrightarrow> length (virgin f) = length b \<and> int (length b) < 2 ^ 31 \<and> covered f = count_reached (virgin f)"

definition known :: "map_feedback \<Rightarrow> (nat \<times> nat) set" where "known f = seen (virgin f)"

lemma map_judge_law:
  assumes "fits b l"
  shows "\<exists>n l'. judge map_ops b l = (Inr (\<not> reached b \<subseteq> known l, n), l') \<and> fits b l' \<and> known l' = known l \<and>
    fits b (commit map_ops l') \<and> known (commit map_ops l') = known l \<union> reached b"
proof -
  from assms have a: "length (virgin l) = length b" "int (length b) < 2 ^ 31" "covered l = count_reached (virgin l)"
    by (auto simp: fits_def)
  let ?new = "filter (fresh (virgin l) b) [0..<length b]"
  obtain res l' where j: "Map_IsInteresting b l = (res, l')" by force
  have res: "res = Some (Inr (?new \<noteq> [], length ?new))" and l': "virgin l' = virgin l" "covered l' = covered l"
    using j unfolding IsInteresting_eq [OF a(1,2)] by (auto simp: Let_def)
  have new: "?new \<noteq> [] \<longleftrightarrow> \<not> reached b \<subseteq> known l"
    using fresh_iff [OF a(1)] by (force simp: reached_def known_def filter_empty_conv)
  from judge_commit [OF a j] obtain l2 where l2: "Map_Append l' = Some l2" "virgin l2 = absorbed (virgin l) b"
    "covered l2 = count_reached (virgin l2)" by blast
  have "judge map_ops b l = (Inr (\<not> reached b \<subseteq> known l, int (length ?new)), l')" "commit map_ops l' = l2"
    using j res new l2(1) by (simp_all add: map_ops_def)
  with a l' l2 seen_absorbed [OF a(1)] show ?thesis by (auto simp: fits_def known_def)
qed

interpretation maps: leaf_contract map_ops known fits "\<lambda>b a. \<not> reached b \<subseteq> a" "\<lambda>b a. a \<union> reached b"
proof (unfold_locales, goal_cases)
  case 1
  then show ?case by (rule map_judge_law)
qed (auto simp: map_ops_def Map_Discard_def fits_def known_def)

lemma maps_good: "maps.good b f \<longleftrightarrow> (\<forall>l \<in> set (leaves f). fits b l)"
  by (simp add: maps.good_def)

text \<open>C15. A turn of the engine with a stack of coverage feedbacks: the verdict is the boolean formula
  the stack spells over "this execution reached something the leaf does not know"; when it holds
  exactly the leaves that were asked and fired learn the execution, and otherwise none does.\<close>

theorem feedback_stack_turn:
  assumes "\<forall>l \<in> set (leaves f). fits b l"
  shows "\<exists>n f'. turn map_ops b f = (Inr (holds (\<lambda>a. \<not> reached b \<subseteq> a) (shape known f), n), f') \<and>
    (\<forall>l \<in> set (leaves f'). fits b l) \<and>
    shape known f' = (if holds (\<lambda>a. \<not> reached b \<subseteq> a) (shape known f)
       then learnt (\<lambda>a. \<not> reached b \<subseteq> a) (\<lambda>a. a \<union> reached b) (shape known f) else shape known f)"
  using maps.turn_ok [of b f] assms by (simp add: maps_good)

lemma shape_negate: "shape g f = Negate (Leaf a) \<Longrightarrow> \<exists>l. f = Negate (Leaf l) \<and> g l = a"
proof (cases f)
  case (Negate h)
  assume "shape g f = Negate (Leaf a)"
  with Negate show ?thesis by (cases h) auto
qed auto

lemma negated_step:
  assumes "fits b l"
  shows "\<exists>l'. snd (turn map_ops b (Negate (Leaf l))) = Negate (Leaf l') \<and> known l' = known l \<and> fits b l'"
proof -
  let ?f = "Negate (Leaf l)"
  have g: "maps.good b ?f" using assms by simp
  obtain n f' where f': "turn map_ops b ?f = (Inr (holds (\<lambda>a. \<not> reached b \<subseteq> a) (shape known ?f), n), f')"
    using maps.turn_ok [OF g] by blast
  have "shape known f' = (if holds (\<lambda>a. \<not> reached b \<subseteq> a) (shape known ?f)
      then learnt (\<lambda>a. \<not> reached b \<subseteq> a) (\<lambda>a. a \<union> reached b) (shape known ?f) else shape known ?f)" "maps.good b f'"
    using maps.turn_ok [OF g] f' by auto
  moreover from this(1) have "shape known f' = Negate (Leaf (known l))"
    by (cases "reached b \<subseteq> known l") (simp_all add: Un_absorb2)
  ultimately obtain l' where "f' = Negate (Leaf l')" "known l' = known l" "fits b l'"
    using shape_negate by fastforce
  with f' show ?thesis by simp
qed

text \<open>A negated coverage feedback never learns: whatever executions the engine takes it
  through, the inner feedback knows what it knew at the start.\<close>

lemma Not_never_learns:
  assumes "\<forall>b \<in> set bs. fits b l"
  shows "\<exists>l'. fold (\<lambda>b f. snd (turn map_ops b f)) bs (Not_of (Leaf l)) = Not_of (Leaf l') \<and> known l' = known l"
  using assms
proof (induction bs arbitrary: l)
  case (Cons b bs)
  obtain l1 where l1: "snd (turn map_ops b (Negate (Leaf l))) = Negate (Leaf l1)" "known l1 = known l" "fits b l1"
    using negated_step [of b l] Cons.prems by auto
  then have "\<forall>b \<in> set bs. fits b l1" using Cons.prems by (auto simp: fits_def)
  from Cons.IH [OF this] l1 show ?case by (simp add: Not_of_def)
qed (simp add: Not_of_def)

section \<open>The properties at concrete inputs\<close>

definition ex_leaf :: map_feedback where
  "ex_leaf = \<lparr>fbName = ''cov'', virgin = [1, 0], pendingIdx = [], pendingBits = [], covered = 1\<rparr>"

lemma ex_leaf_fits: "fits [1, 1] ex_leaf" "fits [1, 0] ex_leaf"
  by (simp_all add: fits_def ex_leaf_def count_reached_def)

theorem feedback_stack_turn_witness:
  "fst (turn map_ops [1, 1] (AllOf [Leaf ex_leaf, Not_of Always])) = Inr (False, 1)"
proof -
  let ?f = "AllOf [Leaf ex_leaf, Not_of Always]"
  have "\<forall>l \<in> set (leaves ?f). fits [1, 1] l" by (simp add: AllOf_def Not_of_def Always_def ex_leaf_fits)
  from feedback_stack_turn [OF this] have "\<exists>n. fst (turn map_ops [1, 1] ?f) = Inr (False, n)"
    by (auto simp: AllOf_def Not_of_def Always_def)
  moreover have "fst (turn map_ops [1, 1] ?f) = Inr (False, 1)" by code_simp
  ultimately show ?thesis by simp
qed

lemma Not_never_learns_witness:
  "\<exists>l. fold (\<lambda>b f. snd (turn map_ops b f)) [[1, 1], [1, 0], [1, 1]] (Not_of (Leaf ex_leaf)) = Not_of (Leaf l) \<and>
     known l = known ex_leaf"
  using Not_never_learns [of "[[1, 1], [1, 0], [1, 1]]" ex_leaf] ex_leaf_fits by simp

end
