(* ===== verification/Triage_Class.thy ===== *)
theory Triage_Class
  imports Feedback_Stack Mutate_Dict "HOL-Library.Sublist" "HOL-Library.Char_ord"
begin

text \<open>
  What a failure is (\<open>internal/triage/triage.go\<close>), how often it reproduces
  (\<open>verify.go\<close>), and the buckets findings are filed under (\<open>bucket.go\<close>, and the
  live buckets of \<open>internal/engine/engine.go\<close>). The program under test is a
  parameter: a \<open>harness\<close> runs an input in a world it may change, and reports
  whether the caller's context has been cancelled. Text is a list of characters,
  and of the space characters of \<open>unicode.IsSpace\<close> the ASCII ones are known.
\<close>

section \<open>Outcomes and classes\<close>

record finding =
  Kind_of :: string
  Signal_of :: int
  Summary :: string
  Detail :: string
  Frames :: "string list"

record outcome =
  Exit :: exit_kind
  Signal :: int
  Output :: string
  Coverage :: "byte list"
  Finding :: finding

definition Crashed :: "outcome \<Rightarrow> bool" where
  "Crashed o0 =
     (case Exit o0 of
        ExitCrash \<Rightarrow> True | ExitTimeout \<Rightarrow> True | ExitOOM \<Rightarrow> True
      | _ \<Rightarrow> Kind_of (Finding o0) \<noteq> [] \<and> Kind_of (Finding o0) \<noteq> ''ok'')"

record crash_class =
  ckKind :: string
  ckSignal :: int
  ckMarker :: string

definition Class_Equal :: "crash_class \<Rightarrow> crash_class \<Rightarrow> bool" where
  "Class_Equal c d \<longleftrightarrow> ckKind c = ckKind d \<and> ckSignal c = ckSignal d \<and> ckMarker c = ckMarker d"

text \<open>The decimal form \<open>%d\<close> prints.\<close>

fun show_nat :: "nat \<Rightarrow> string" where
  "show_nat n = (if n < 10 then [char_of (48 + n)] else show_nat (n div 10) @ [char_of (48 + n mod 10)])"

declare show_nat.simps [simp del]

definition show_int :: "int \<Rightarrow> string" where
  "show_int z = (if z < 0 then CHR ''-'' # show_nat (nat (- z)) else show_nat (nat z))"

definition Class_String :: "crash_class \<Rightarrow> string" where
  "Class_String c =
     ckKind c @ (if ckSignal c \<noteq> 0 then ''/sig'' @ show_int (ckSignal c) else []) @
     (if ckMarker c \<noteq> [] then ''/'' @ ckMarker c else [])"

section \<open>Markers\<close>

definition genericMarkerPrefixes :: "string list" where
  "genericMarkerPrefixes =
     [''Assertion failed:'', ''assertion failed:'', ''panic:'', ''FATAL:'', ''terminate called after throwing'']"

lemma field_shorter: "dropWhile p s = c # cs \<Longrightarrow> length (dropWhile (\<lambda>c. \<not> p c) (c # cs)) < length s"
proof -
  assume d: "dropWhile p s = c # cs"
  then have "\<not> p c" by (metis hd_dropWhile list.distinct(1) list.sel(1))
  then have "length (dropWhile (\<lambda>c. \<not> p c) (c # cs)) \<le> length cs" by (simp add: length_dropWhile_le)
  also have "length cs < length s" using d length_dropWhile_le [of p s] by simp
  finally show ?thesis .
qed

text \<open>\<open>strings.FieldsFunc\<close>: the non-empty runs between characters that satisfy the predicate.\<close>

function fields_func :: "(char \<Rightarrow> bool) \<Rightarrow> string \<Rightarrow> string list" where
  "fields_func p s =
     (case dropWhile p s of
        [] \<Rightarrow> []
      | c # cs \<Rightarrow> takeWhile (\<lambda>c. \<not> p c) (c # cs) # fields_func p (dropWhile (\<lambda>c. \<not> p c) (c # cs)))"
  by auto

termination
proof (relation "measure (\<lambda>(p, s). length s)")
  fix p :: "char \<Rightarrow> bool" and s c cs
  assume "dropWhile p s = c # cs"
  from field_shorter [OF this]
  show "((p, dropWhile (\<lambda>c. \<not> p c) (c # cs)), (p, s)) \<in> measure (\<lambda>(p, s). length s)"
    by (simp del: dropWhile.simps)
qed simp

declare fields_func.simps [simp del]

text \<open>The text from the first place where \<open>p\<close> occurs, as \<open>strings.Index\<close> finds it.\<close>

fun from_first :: "string \<Rightarrow> string \<Rightarrow> string option" where
  "from_first p s =
     (if prefix p s then Some s
      else case s of [] \<Rightarrow> None | c # s \<Rightarrow> from_first p s)"

declare from_first.simps [simp del]

fun first_some :: "('a \<Rightarrow> 'b option) \<Rightarrow> 'a list \<Rightarrow> 'b option" where
  "first_some f [] = None"
| "first_some f (x # xs) = (case f x of Some y \<Rightarrow> Some y | None \<Rightarrow> first_some f xs)"

definition volatileDigits :: nat where "volatileDigits = 5"

definition is_digit :: "char \<Rightarrow> bool" where
  "is_digit c \<longleftrightarrow> CHR ''0'' \<le> c \<and> c \<le> CHR ''9''"

definition isHexDigit :: "char \<Rightarrow> bool" where
  "isHexDigit c \<longleftrightarrow>
     CHR ''0'' \<le> c \<and> c \<le> CHR ''9'' \<or> CHR ''a'' \<le> c \<and> c \<le> CHR ''f'' \<or> CHR ''A'' \<le> c \<and> c \<le> CHR ''F''"

definition is_control :: "char \<Rightarrow> bool" where
  "is_control c \<longleftrightarrow> c < CHR '' '' \<or> c = CHR 0x7F"

text \<open>What follows an address at the head of the text, when there is one.\<close>

fun after_address :: "string \<Rightarrow> string option" where
  "after_address (z # x # s) =
     (if z = CHR ''0'' \<and> (x = CHR ''x'' \<or> x = CHR ''X'') \<and> takeWhile isHexDigit s \<noteq> []
      then Some (dropWhile isHexDigit s) else None)"
| "after_address _ = None"

lemma after_address_shorter: "after_address s = Some t \<Longrightarrow> length t < length s"
proof (induction s rule: after_address.induct)
  case (1 z x s)
  then show ?case using length_dropWhile_le [of isHexDigit s] by (auto split: if_split_asm)
qed auto

function scrub :: "string \<Rightarrow> string" where
  "scrub [] = []"
| "scrub (c # s) =
     (if is_control c then CHR '' '' # scrub s
      else case after_address (c # s) of
             Some rest \<Rightarrow> ''0xADDR'' @ scrub rest
           | None \<Rightarrow>
               if is_digit c \<and> volatileDigits \<le> length (takeWhile is_digit (c # s))
               then CHR ''#'' # scrub (dropWhile is_digit (c # s))
               else c # scrub s)"
  by pat_completeness auto
termination
proof (relation "measure length")
  fix c s
  assume "is_digit c \<and> volatileDigits \<le> length (takeWhile is_digit (c # s))"
  then show "(dropWhile is_digit (c # s), c # s) \<in> measure length"
    using length_dropWhile_le [of is_digit s] by simp
qed (auto dest: after_address_shorter)

text \<open>The spaces beyond ASCII that \<open>strings.Fields\<close> splits at, written as blanks.\<close>

fun blank_runes :: "string \<Rightarrow> string" where
  "blank_runes [] = []"
| "blank_runes (c # s) =
     (case s of
        [] \<Rightarrow> [c]
      | d # t \<Rightarrow>
          if space2 c d then CHR '' '' # blank_runes t
          else (case t of
                  [] \<Rightarrow> c # blank_runes s
                | e # u \<Rightarrow> if space3 c d e then CHR '' '' # blank_runes u else c # blank_runes s))"

lemma blank_runes_chars: "set (blank_runes s) \<subseteq> {CHR '' ''} \<union> set s"
proof (induction s rule: blank_runes.induct)
  case (2 c s)
  show ?case
  proof (cases s)
    case (Cons d t)
    note step = blank_runes.simps(2) [of c "d # t"]
    show ?thesis
    proof (cases t)
      case Nil
      then show ?thesis unfolding \<open>s = d # t\<close> step by auto
    next
      case (Cons e u)
      note sd = \<open>s = d # t\<close>
      have two: "set (blank_runes t) \<subseteq> {CHR '' ''} \<union> set t" if "space2 c d" by (rule 2(1) [OF sd that])
      have three: "set (blank_runes u) \<subseteq> {CHR '' ''} \<union> set u" if "\<not> space2 c d" "space3 c d e"
        by (rule 2(3) [OF sd that(1) Cons that(2)])
      have one: "set (blank_runes (d # t)) \<subseteq> {CHR '' ''} \<union> set (d # t)" if "\<not> space2 c d" "\<not> space3 c d e"
        using 2(4) [OF sd that(1) Cons that(2)] unfolding sd .
      consider "space2 c d" | "\<not> space2 c d" "space3 c d e" | "\<not> space2 c d" "\<not> space3 c d e" by blast
      then show ?thesis
      proof cases
        case 1
        with two show ?thesis unfolding sd step by auto
      next
        case 2
        with three [OF 2] show ?thesis unfolding sd step Cons by auto
      next
        case 3
        then have eq: "blank_runes (c # d # e # u) = c # blank_runes (d # e # u)"
          by (subst blank_runes.simps(2)) simp
        from one [OF 3] show ?thesis unfolding sd Cons eq by (auto simp del: blank_runes.simps(2))
      qed
    qed
  qed simp
qed simp

definition maxMarker :: nat where "maxMarker = 160"

definition normaliseMarker :: "string \<Rightarrow> string" where
  "normaliseMarker s = take maxMarker (join_with '' '' (fields_func is_space (blank_runes (scrub s))))"

definition is_break :: "char \<Rightarrow> bool" where
  "is_break c \<longleftrightarrow> c = CHR 0x0A \<or> c = CHR 0x0D"

definition extractMarker :: "string \<Rightarrow> string list \<Rightarrow> string" where
  "extractMarker out marks =
     (if out = [] \<or> marks = [] then []
      else case first_some (\<lambda>line. let line = TrimSpace line in first_some (\<lambda>p. from_first p line) marks)
                  (fields_func is_break out) of
             Some m \<Rightarrow> normaliseMarker m
           | None \<Rightarrow> [])"

definition NewClassifier :: "string list \<Rightarrow> string list" where
  "NewClassifier extra = (if extra = [] then genericMarkerPrefixes else extra @ genericMarkerPrefixes)"

definition Classify_with :: "string list \<Rightarrow> outcome \<Rightarrow> crash_class" where
  "Classify_with marks o0 =
     \<lparr>ckKind = (if Kind_of (Finding o0) \<noteq> [] then Kind_of (Finding o0)
                else case Exit o0 of
                       ExitTimeout \<Rightarrow> ''hang'' | ExitOOM \<Rightarrow> ''oom'' | ExitCrash \<Rightarrow> ''crash''
                     | ExitError \<Rightarrow> ''error'' | _ \<Rightarrow> ''ok''),
      ckSignal = Signal o0, ckMarker = extractMarker (Output o0) marks\<rparr>"

definition Classify :: "outcome \<Rightarrow> crash_class" where
  "Classify o0 = Classify_with genericMarkerPrefixes o0"

section \<open>Verification of a reproducer\<close>

record ('c, 'w) harness =
  cancelled :: "'w \<Rightarrow> string option"
  execute :: "'c \<Rightarrow> 'w \<Rightarrow> (string + outcome) \<times> 'w"

record verify_report =
  Trials :: nat
  Reproduced :: nat
  vrClass :: crash_class
  Divergent :: "crash_class list"

definition no_class :: crash_class where
  "no_class = \<lparr>ckKind = [], ckSignal = 0, ckMarker = []\<rparr>"

definition DefaultTrials :: int where "DefaultTrials = 5"

definition tally :: "string list \<Rightarrow> outcome \<Rightarrow> verify_report \<times> string set \<Rightarrow> verify_report \<times> string set" where
  "tally marks o0 rs = (case rs of (rep, shown) \<Rightarrow>
     let rep = rep\<lparr>Trials := Trials rep + 1\<rparr>
     in if \<not> Crashed o0 then (rep, shown)
        else let c = Classify_with marks o0; rep = rep\<lparr>Reproduced := Reproduced rep + 1\<rparr>
             in if ckKind (vrClass rep) = [] then (rep\<lparr>vrClass := c\<rparr>, insert (Class_String c) shown)
                else if \<not> Class_Equal c (vrClass rep) \<and> Class_String c \<notin> shown
                then (rep\<lparr>Divergent := Divergent rep @ [c]\<rparr>, insert (Class_String c) shown)
                else (rep, shown))"

fun verify_loop :: "string list \<Rightarrow> ('c, 'w) harness \<Rightarrow> 'c \<Rightarrow> nat \<Rightarrow> verify_report \<times> string set \<Rightarrow> 'w \<Rightarrow>
    verify_report \<times> string option \<times> 'w" where
  "verify_loop marks h input 0 rs w = (fst rs, None, w)"
| "verify_loop marks h input (Suc k) rs w =
     (case cancelled h w of
        Some e \<Rightarrow> (fst rs, Some e, w)
      | None \<Rightarrow>
          (case execute h input w of
             (Inl e, w) \<Rightarrow> (fst rs, Some e, w)
           | (Inr o0, w) \<Rightarrow> verify_loop marks h input k (tally marks o0 rs) w))"

definition Verify :: "string list \<Rightarrow> ('c, 'w) harness \<Rightarrow> 'c \<Rightarrow> int \<Rightarrow> 'w \<Rightarrow> verify_report \<times> string option \<times> 'w" where
  "Verify marks h input trials w =
     (let trials = (if trials \<le> 0 then DefaultTrials else trials)
      in verify_loop marks h input (nat trials)
           (\<lparr>Trials = 0, Reproduced = 0, vrClass = no_class, Divergent = []\<rparr>, {}) w)"

definition State :: "verify_report \<Rightarrow> string" where
  "State r =
     (if Trials r = 0 then ''new'' else if Reproduced r = 0 then ''unverified''
      else if Reproduced r = Trials r then ''verified'' else ''flaky'')"

section \<open>Buckets\<close>

definition DefaultFrameSkip :: "string list" where
  "DefaultFrameSkip =
     [''__asan'', ''__msan'', ''__tsan'', ''__ubsan'', ''__sanitizer'', ''__interceptor'', ''operator new'',
      ''operator delete'', ''malloc'', ''calloc'', ''realloc'', ''free'', ''memcpy'', ''memmove'', ''memset'',
      ''abort'', ''__libc_'', ''raise'', ''__GI_'']"

datatype strategy =
    SignalStrategy
  | MarkerStrategy
  | FrameStrategy int "string list option"
  | CoverageStrategy
  | Chain "strategy list"

fun strategy_Name :: "strategy \<Rightarrow> string" where
  "strategy_Name SignalStrategy = ''signal''"
| "strategy_Name MarkerStrategy = ''marker''"
| "strategy_Name (FrameStrategy d sk) = ''frames''"
| "strategy_Name CoverageStrategy = ''coverage''"
| "strategy_Name (Chain ss) = ''chain''"

definition frameFunction :: "string \<Rightarrow> string" where
  "frameFunction frame =
     (let name = takeWhile (\<lambda>c. c \<noteq> CHR '' '') frame
      in if name \<noteq> [] \<and> length name < length frame then name else frame)"

definition hasAnyPrefix :: "string \<Rightarrow> string list \<Rightarrow> bool" where
  "hasAnyPrefix s marks = list_ex (\<lambda>p. prefix p s) marks"

fun keep_frames :: "nat \<Rightarrow> string list \<Rightarrow> string list \<Rightarrow> string list" where
  "keep_frames k sk [] = []"
| "keep_frames k sk (f # fs) =
     (let name = frameFunction f
      in if hasAnyPrefix name sk then keep_frames k sk fs
         else if k \<le> 1 then [name] else name # keep_frames (k - 1) sk fs)"

text \<open>The hash is over the indices of the counters that were touched, each as four bytes.\<close>

definition le32_bytes :: "u32 \<Rightarrow> byte list" where
  "le32_bytes v = map (\<lambda>i. ucast (drop_bit (8 * i) v)) [0..<4]"

definition le64_bytes :: "u64 \<Rightarrow> byte list" where
  "le64_bytes v = map (\<lambda>i. ucast (drop_bit (8 * i) v)) [0..<8]"

fun cov_hash :: "nat \<Rightarrow> byte list \<Rightarrow> u64 \<Rightarrow> u64" where
  "cov_hash i [] h = h"
| "cov_hash i (v # vs) h =
     (if v = 0 then cov_hash (Suc i) vs h else cov_hash (Suc i) vs (fnv_write (le32_bytes (of_nat i)) h))"

definition hex_bytes :: "byte list \<Rightarrow> string" where
  "hex_bytes bs = concat (map (\<lambda>b. [hex_char (unat b div 16), hex_char (unat b mod 16)]) bs)"

definition Signal_Signature :: "outcome \<Rightarrow> crash_class \<Rightarrow> string option" where
  "Signal_Signature o0 c = Some (if ckSignal c \<noteq> 0 then ckKind c @ ''/sig'' @ show_int (ckSignal c) else ckKind c)"

definition Marker_Signature :: "outcome \<Rightarrow> crash_class \<Rightarrow> string option" where
  "Marker_Signature o0 c = (if ckMarker c = [] then None else Some (ckMarker c))"

definition Frame_Signature :: "int \<Rightarrow> string list option \<Rightarrow> outcome \<Rightarrow> crash_class \<Rightarrow> string option" where
  "Frame_Signature d sk o0 c =
     (let depth = (if d \<le> 0 then 5 else d);
          sk = (case sk of None \<Rightarrow> DefaultFrameSkip | Some sk \<Rightarrow> sk);
          kept = keep_frames (nat depth) sk (Frames (Finding o0))
      in if kept = [] then None else Some (join_with '';'' kept))"

definition Coverage_Signature :: "outcome \<Rightarrow> crash_class \<Rightarrow> string option" where
  "Coverage_Signature o0 c =
     (if list_all (\<lambda>v. v = 0) (Coverage o0) then None
      else Some (hex_bytes (le64_bytes (cov_hash 0 (Coverage o0) offset64))))"

fun strategy_Signature :: "strategy \<Rightarrow> outcome \<Rightarrow> crash_class \<Rightarrow> string option"
  and chain_Signature :: "strategy list \<Rightarrow> outcome \<Rightarrow> crash_class \<Rightarrow> string option" where
  "strategy_Signature SignalStrategy o0 c = Signal_Signature o0 c"
| "strategy_Signature MarkerStrategy o0 c = Marker_Signature o0 c"
| "strategy_Signature (FrameStrategy d sk) o0 c = Frame_Signature d sk o0 c"
| "strategy_Signature CoverageStrategy o0 c = Coverage_Signature o0 c"
| "strategy_Signature (Chain ss) o0 c = chain_Signature ss o0 c"
| "chain_Signature [] o0 c = None"
| "chain_Signature (s # ss) o0 c =
     (case strategy_Signature s o0 c of
        Some sig \<Rightarrow> Some (strategy_Name s @ '':'' @ sig)
      | None \<Rightarrow> chain_Signature ss o0 c)"

definition DefaultChain :: strategy where
  "DefaultChain = Chain [FrameStrategy 0 None, MarkerStrategy, CoverageStrategy, SignalStrategy]"

definition StrategyNamed :: "string \<Rightarrow> strategy" where
  "StrategyNamed name =
     (if name = ''signal'' then SignalStrategy else if name = ''marker'' then MarkerStrategy
      else if name = ''frames'' then FrameStrategy 0 None else if name = ''coverage'' then CoverageStrategy
      else DefaultChain)"

definition Bucket :: "strategy \<Rightarrow> outcome \<Rightarrow> crash_class \<Rightarrow> string \<times> string" where
  "Bucket s o0 c =
     (case strategy_Signature s o0 c of
        None \<Rightarrow> (strategy_Name s, ''unclassified'')
      | Some sig \<Rightarrow> (strategy_Name s, sig))"

section \<open>Live buckets of the engine\<close>

definition maxMarkerBytes :: nat where "maxMarkerBytes = 64"

text \<open>The rewriting loop; the second argument is what the builder holds.\<close>

function mark :: "string \<Rightarrow> string \<Rightarrow> string" where
  "mark [] b = b"
| "mark (c # s) b =
     (if length b \<ge> maxMarkerBytes then b
      else if is_control c then mark s b
      else case after_address (c # s) of
             Some rest \<Rightarrow> mark rest (b @ ''0xADDR'')
           | None \<Rightarrow>
               if volatileDigits \<le> length (takeWhile is_digit (c # s))
               then mark (dropWhile is_digit (c # s)) (b @ ''#'')
               else mark s (b @ [c]))"
  by pat_completeness auto
termination
proof (relation "measure (\<lambda>(s, b). length s)")
  fix c s and b :: string
  assume "volatileDigits \<le> length (takeWhile is_digit (c # s))"
  then have "is_digit c" by (cases "is_digit c") (auto simp: volatileDigits_def)
  then show "((dropWhile is_digit (c # s), b @ ''#''), c # s, b) \<in> measure (\<lambda>(s, b). length s)"
    using length_dropWhile_le [of is_digit s] by simp
qed (auto dest: after_address_shorter)

definition markerOf :: "string \<Rightarrow> string" where
  "markerOf detail =
     (let line = TrimSpace (takeWhile (\<lambda>c. \<not> is_break c) detail)
      in if line = [] then [] else TrimSpace (mark line []))"

definition bucketKey :: "finding \<Rightarrow> string" where
  "bucketKey f =
     (if Frames f \<noteq> [] then Kind_of f @ concat (map (\<lambda>fr. ''|'' @ fr) (take 3 (Frames f)))
      else let m = markerOf (Detail f)
           in if m \<noteq> [] then Kind_of f @ ''|'' @ m
              else if Summary f \<noteq> [] then Kind_of f @ ''|'' @ Summary f
              else Kind_of f)"

section \<open>Lines and markers\<close>

text \<open>\<open>fields_func\<close> by one pass over the text, with the field being read in a buffer.\<close>

fun chop :: "(char \<Rightarrow> bool) \<Rightarrow> string \<Rightarrow> string \<Rightarrow> string list" where
  "chop p [] w = (if w = [] then [] else [rev w])"
| "chop p (c # s) w =
     (if p c then (if w = [] then chop p s [] else rev w # chop p s []) else chop p s (c # w))"

lemma fields_func_skip: "p c \<Longrightarrow> fields_func p (c # s) = fields_func p s"
  by (subst (1 2) fields_func.simps) simp

lemma fields_func_word:
  assumes "w \<noteq> []" and "\<forall>c \<in> set w. \<not> p c" and "s = [] \<or> p (hd s)"
  shows "fields_func p (w @ s) = w # fields_func p s"
proof -
  obtain c w' where w: "w = c # w'" using assms(1) by (cases w) auto
  have d: "dropWhile p (w @ s) = w @ s" using assms(2) w by simp
  have "takeWhile (\<lambda>c. \<not> p c) (w @ s) = w" "dropWhile (\<lambda>c. \<not> p c) (w @ s) = s"
    using assms(2,3) by (auto simp: takeWhile_append dropWhile_append takeWhile_eq_Nil_iff dropWhile_eq_self_iff)
  with d show ?thesis by (subst fields_func.simps) (simp add: w)
qed

lemma fields_chop: "\<forall>c \<in> set w. \<not> p c \<Longrightarrow> fields_func p (rev w @ s) = chop p s w"
proof (induction s arbitrary: w)
  case Nil
  show ?case
  proof (cases "w = []")
    case False
    then show ?thesis using fields_func_word [of "rev w" p "[]"] Nil by (simp add: fields_func.simps [of p "[]"])
  qed (simp add: fields_func.simps)
next
  case (Cons c s)
  show ?case
  proof (cases "p c")
    case True
    then have "fields_func p (c # s) = chop p s []" using Cons.IH [of "[]"] by (simp add: fields_func_skip)
    with True Cons.prems show ?thesis using fields_func_word [of "rev w" p "c # s"] by (cases "w = []") auto
  next
    case False
    with Cons.IH [of "c # w"] Cons.prems show ?thesis by simp
  qed
qed

lemma fields_func_chop: "fields_func p s = chop p s []"
  using fields_chop [of "[]" p s] by simp

lemma chop_nonempty: "f \<in> set (chop p s w) \<Longrightarrow> f \<noteq> []"
  by (induction s arbitrary: w) (auto split: if_split_asm)

lemma chop_chars: "f \<in> set (chop p s w) \<Longrightarrow> set f \<subseteq> set s \<union> set w"
  by (induction s arbitrary: w) (fastforce split: if_split_asm)+

lemma join_chars: "set (join_with sep fs) \<subseteq> set sep \<union> \<Union> (set ` set fs)"
  by (induction sep fs rule: join_with.induct) auto

text \<open>A text with each line feed written as carriage return and line feed.\<close>

definition crlf :: "string \<Rightarrow> string" where
  "crlf s = concat (map (\<lambda>c. if c = CHR 0x0A then [CHR 0x0D, CHR 0x0A] else [c]) s)"

lemma crlf_lines: "fields_func is_break (crlf s) = fields_func is_break s"
proof -
  have "chop is_break (crlf s) w = chop is_break s w" for w
    by (induction s arbitrary: w) (auto simp: crlf_def is_break_def)
  then show ?thesis by (simp add: fields_func_chop)
qed

lemma scrub_printable: "c \<in> set (scrub s) \<Longrightarrow> \<not> is_control c"
proof (induction s rule: scrub.induct)
  case (2 c' s)
  have k: "\<not> is_control d" if "d \<in> set ''0xADDR'' \<union> {CHR '' '', CHR ''#''}" for d
    using that by (auto simp: is_control_def less_char_def)
  show ?case
  proof (cases "is_control c'")
    case False
    then show ?thesis
      using 2 k by (auto split: option.split_asm if_split_asm)
  qed (use 2 k in auto)
qed simp

lemma normaliseMarker_printable:
  "list_all (\<lambda>c. \<not> is_control c) (normaliseMarker s) \<and> length (normaliseMarker s) \<le> maxMarker"
proof -
  let ?j = "join_with '' '' (fields_func is_space (blank_runes (scrub s)))"
  have "set ?j \<subseteq> {CHR '' ''} \<union> set (scrub s)"
    using join_chars [of "'' ''" "fields_func is_space (blank_runes (scrub s))"] chop_chars [where s = "blank_runes (scrub s)" and w = "[]"]
      blank_runes_chars [of "scrub s"] by (fastforce simp: fields_func_chop)
  then have "\<forall>c \<in> set ?j. \<not> is_control c" using scrub_printable by (auto simp: is_control_def less_char_def)
  then show ?thesis by (auto simp: normaliseMarker_def list_all_iff dest: in_set_takeD)
qed

text \<open>A marker never carries a control character of the target's output and is at most 160
  characters long, and a failure reported with carriage returns has the class of the same failure
  reported without.\<close>

lemma Classify_markers:
  "list_all (\<lambda>c. \<not> is_control c) (ckMarker (Classify o0)) \<and> length (ckMarker (Classify o0)) \<le> maxMarker \<and>
   Classify (o0\<lparr>Output := crlf (Output o0)\<rparr>) = Classify o0"
proof -
  have "crlf s = [] \<longleftrightarrow> s = []" for s by (cases s) (auto simp: crlf_def)
  then show ?thesis
    using normaliseMarker_printable
    by (auto simp: Classify_def Classify_with_def extractMarker_def crlf_lines split: option.split)
qed

section \<open>Which evidence a bucket rests on\<close>

text \<open>The first link of the default chain that has something to say, with what it says.\<close>

definition evidence :: "outcome \<Rightarrow> crash_class \<Rightarrow> (string \<times> string) option" where
  "evidence o0 c =
     first_some (\<lambda>s. map_option (Pair (strategy_Name s)) (strategy_Signature s o0 c))
       [FrameStrategy 0 None, MarkerStrategy, CoverageStrategy, SignalStrategy]"

lemma until_colon: "CHR '':'' \<notin> set a \<Longrightarrow> takeWhile (\<lambda>c. c \<noteq> CHR '':'') (a @ '':'' @ e) = a"
  by (induction a) auto

lemma DefaultChain_evidence:
  "\<exists>n e. evidence o0 c = Some (n, e) \<and> CHR '':'' \<notin> set n \<and> Bucket DefaultChain o0 c = (''chain'', n @ '':'' @ e)"
  unfolding evidence_def Bucket_def DefaultChain_def
  by (cases "Frame_Signature 0 None o0 c"; cases "Marker_Signature o0 c"; cases "Coverage_Signature o0 c")
    (simp_all add: Signal_Signature_def)

text \<open>Under the default chain every finding has a bucket, named by the first link that has
  evidence, and two findings share a bucket exactly when the same link gave both the same
  signature.\<close>

lemma DefaultChain_link:
  "(\<exists>n e. evidence o0 c = Some (n, e) \<and> Bucket DefaultChain o0 c = (''chain'', n @ '':'' @ e)) \<and>
   (Bucket DefaultChain o0 c = Bucket DefaultChain o1 d \<longleftrightarrow> evidence o0 c = evidence o1 d)"
proof -
  obtain n e where 1: "evidence o0 c = Some (n, e)" "CHR '':'' \<notin> set n" "Bucket DefaultChain o0 c = (''chain'', n @ '':'' @ e)"
    using DefaultChain_evidence by blast
  obtain m e' where 2: "evidence o1 d = Some (m, e')" "CHR '':'' \<notin> set m" "Bucket DefaultChain o1 d = (''chain'', m @ '':'' @ e')"
    using DefaultChain_evidence by blast
  have "n @ '':'' @ e = m @ '':'' @ e' \<longleftrightarrow> n = m \<and> e = e'"
    using until_colon [OF 1(2), of e] until_colon [OF 2(2), of e'] by auto
  with 1 2 show ?thesis by auto
qed

section \<open>The live marker\<close>

lemma mark_all:
  assumes "list_all P b" and "list_all P ''0xADDR#''" and "\<And>c. \<not> is_control c \<Longrightarrow> P c"
  shows "list_all P (mark s b)"
  using assms(1)
proof (induction s b rule: mark.induct)
  case (2 c' s b)
  have k: "list_all P (b @ ''0xADDR'')" "list_all P (b @ ''#'')" using 2(5) assms(2) by simp_all
  show ?case
  proof (cases "after_address (c' # s)")
    case (Some rest)
    show ?thesis
      unfolding mark.simps Some option.case using 2(1) 2(4) [OF _ _ Some k(1)] 2(5) by simp
  next
    case None
    show ?thesis
      unfolding mark.simps None option.case using 2(1) 2(2) [OF _ _ None _ k(2)] 2(3) [OF _ _ None] 2(5) assms(3) by simp
  qed
qed simp

lemma mark_chars: "list_all (\<lambda>c. \<not> is_control c) (mark s [])"
  by (rule mark_all) (auto simp: is_control_def less_char_def)

lemma mark_length: "length b \<le> maxMarkerBytes + 5 \<Longrightarrow> length (mark s b) \<le> maxMarkerBytes + 5"
proof (induction s b rule: mark.induct)
  case (2 c' s b)
  show ?case
  proof (cases "after_address (c' # s)")
    case (Some rest)
    with 2(4) [OF _ _ Some] 2(1,5) show ?thesis by simp
  next
    case None
    with 2(2,3) [OF _ _ None] 2(1,5) show ?thesis by simp
  qed
qed simp

lemma TrimSpace_sub: "set (TrimSpace s) \<subseteq> set s" "length (TrimSpace s) \<le> length s"
proof -
  have front: "set (trim_front f g u) \<subseteq> set u \<and> length (trim_front f g u) \<le> length u" for f g u
  proof -
    obtain p where "u = p @ trim_front f g u" using trim_front_suffix by blast
    then have "set u = set p \<union> set (trim_front f g u)" "length u = length p + length (trim_front f g u)"
      by (metis set_append, metis length_append)
    then show ?thesis by auto
  qed
  show "set (TrimSpace s) \<subseteq> set s" "length (TrimSpace s) \<le> length s"
    using front [of space2 space3 s] front [of "\<lambda>d c. space2 c d" "\<lambda>e d c. space3 c d e" "rev (trim_front space2 space3 s)"]
    by (auto simp: TrimSpace_def)
qed

text \<open>The live marker of a finding carries no control character and stays within a few bytes of
  its cap; a detail that begins with a line break has none.\<close>

lemma markerOf_safe:
  "list_all (\<lambda>c. \<not> is_control c) (markerOf d) \<and> length (markerOf d) \<le> maxMarkerBytes + 5 \<and>
   markerOf (CHR 0x0A # d) = []"
proof -
  let ?m = "mark (TrimSpace (takeWhile (\<lambda>c. \<not> is_break c) d)) []"
  have "\<forall>c \<in> set (TrimSpace ?m). \<not> is_control c" using TrimSpace_sub(1) [of ?m] mark_chars by (auto simp: list_all_iff)
  moreover have "length (TrimSpace ?m) \<le> maxMarkerBytes + 5"
    by (rule order_trans [OF TrimSpace_sub(2)]) (rule mark_length, simp)
  moreover have "markerOf (CHR 0x0A # d) = []" by (simp add: markerOf_def is_break_def TrimSpace_def)
  ultimately show ?thesis by (auto simp: markerOf_def Let_def list_all_iff)
qed

section \<open>What verification reports\<close>

text \<open>The outcomes of the runs, up to the first that could not be made, and the distinct elements
  of a list in the order of their first occurrence.\<close>

fun outcomes :: "('c, 'w) harness \<Rightarrow> 'c \<Rightarrow> nat \<Rightarrow> 'w \<Rightarrow> outcome list" where
  "outcomes h input 0 w = []"
| "outcomes h input (Suc k) w =
     (if cancelled h w \<noteq> None then []
      else case execute h input w of (Inl e, w) \<Rightarrow> [] | (Inr o0, w) \<Rightarrow> o0 # outcomes h input k w)"

definition firsts :: "'a list \<Rightarrow> 'a list" where
  "firsts xs = rev (remdups (rev xs))"

lemma firsts_snoc: "firsts (xs @ [x]) = (if x \<in> set xs then firsts xs else firsts xs @ [x])"
  by (simp add: firsts_def)

lemma verify_loop_outcomes:
  "\<exists>err w'. verify_loop marks h input k rs w = (fst (fold (tally marks) (outcomes h input k w) rs), err, w') \<and>
     (err = None \<longleftrightarrow> length (outcomes h input k w) = k)"
proof (induction k arbitrary: rs w)
  case (Suc k)
  show ?case
  proof (cases "cancelled h w")
    case None
    show ?thesis
    proof (cases "execute h input w")
      case (Pair r w1)
      with None Suc.IH [of _ w1] show ?thesis by (cases r) auto
    qed
  qed auto
qed simp

definition tallied :: "string list \<Rightarrow> outcome list \<Rightarrow> verify_report \<times> string set \<Rightarrow> bool" where
  "tallied marks os rs \<longleftrightarrow>
     Trials (fst rs) = length os \<and> Reproduced (fst rs) = length (filter Crashed os) \<and>
     (ckKind (vrClass (fst rs)) = [] \<longleftrightarrow> filter Crashed os = []) \<and>
     snd rs = set (map (\<lambda>x. Class_String (Classify_with marks x)) (filter Crashed os)) \<and>
     map Class_String ((if filter Crashed os = [] then [] else [vrClass (fst rs)]) @ Divergent (fst rs)) =
       firsts (map (\<lambda>x. Class_String (Classify_with marks x)) (filter Crashed os))"

lemma Classify_kind: "Crashed x \<Longrightarrow> ckKind (Classify_with marks x) \<noteq> []"
  by (auto simp: Crashed_def Classify_with_def split: exit_kind.split)

lemma tally_tallied:
  assumes "tallied marks os rs"
  shows "tallied marks (os @ [x]) (tally marks x rs)"
proof -
  obtain rep shown where rs: "rs = (rep, shown)" by (cases rs)
  show ?thesis
  proof (cases "Crashed x")
    case False
    with assms show ?thesis by (cases "filter Crashed os = []") (simp_all add: rs tally_def tallied_def)
  next
    case True
    let ?c = "Classify_with marks x"
    have eq: "Class_Equal ?c d \<Longrightarrow> Class_String ?c = Class_String d" for d
      by (simp add: Class_Equal_def Class_String_def)
    let ?l = "map (\<lambda>x. Class_String (Classify_with marks x)) (filter Crashed os)"
    show ?thesis
    proof (cases "filter Crashed os = []")
      case none: True
      with True assms Classify_kind [OF True, of marks] show ?thesis
        by (simp add: rs tally_def tallied_def Let_def firsts_def)
    next
      case False
      have l: "Class_String (vrClass rep) # map Class_String (Divergent rep) = firsts ?l"
        and shown: "shown = set ?l" and kind: "ckKind (vrClass rep) \<noteq> []"
        and n: "Trials rep = length os" "Reproduced rep = length (filter Crashed os)"
        using assms False by (simp_all add: rs tallied_def)
      have "Class_String (vrClass rep) \<in> set (firsts ?l)" unfolding l [symmetric] by simp
      then have "Class_String (vrClass rep) \<in> shown" by (simp add: shown firsts_def)
      with eq have d: "\<not> Class_Equal ?c (vrClass rep) \<and> Class_String ?c \<notin> shown \<longleftrightarrow> Class_String ?c \<notin> set ?l"
        unfolding shown by metis
      have t: "tally marks x rs =
          (if Class_String ?c \<in> set ?l then (rep\<lparr>Trials := Trials rep + 1, Reproduced := Reproduced rep + 1\<rparr>, shown)
           else (rep\<lparr>Trials := Trials rep + 1, Reproduced := Reproduced rep + 1, Divergent := Divergent rep @ [?c]\<rparr>,
             insert (Class_String ?c) shown))"
        using True kind d by (simp add: rs tally_def Let_def del: set_map)
      have f: "filter Crashed (os @ [x]) = filter Crashed os @ [x]" using True by simp
      have m: "firsts (map (\<lambda>x. Class_String (Classify_with marks x)) (filter Crashed os @ [x])) =
          (if Class_String ?c \<in> set ?l then firsts ?l else firsts ?l @ [Class_String ?c])"
        by (simp only: map_append list.map firsts_snoc)
      show ?thesis
      proof (cases "Class_String ?c \<in> set ?l")
        case True
        then show ?thesis using l n kind False shown
          unfolding tallied_def t m f by (simp del: set_map add: insert_absorb)
      next
        case new: False
        then show ?thesis using l [symmetric] n kind False shown
          unfolding tallied_def t m f by (simp del: set_map)
      qed
    qed
  qed
qed

lemma fold_tallied: "tallied marks os rs \<Longrightarrow> tallied marks (os @ xs) (fold (tally marks) xs rs)"
proof (induction xs arbitrary: os rs)
  case (Cons x xs)
  from Cons.IH [OF tally_tallied [OF Cons.prems]] show ?case by simp
qed simp

text \<open>Verification counts the trials it made and the ones that failed, calls a reproducer verified
  exactly when every trial failed, and names every kind of failure it saw once, the first one
  first; without an error it made as many trials as it was asked for.\<close>

lemma Verify_report:
  assumes "Verify marks h input trials w = (rep, err, w')"
    and os: "os = outcomes h input (nat (if trials \<le> 0 then DefaultTrials else trials)) w"
  shows "Trials rep = length os \<and> Reproduced rep = length (filter Crashed os) \<and>
    (State rep = ''verified'' \<longleftrightarrow> os \<noteq> [] \<and> list_all Crashed os) \<and>
    map Class_String ((if Reproduced rep = 0 then [] else [vrClass rep]) @ Divergent rep) =
      firsts (map (\<lambda>x. Class_String (Classify_with marks x)) (filter Crashed os)) \<and>
    (err = None \<longleftrightarrow> int (length os) = (if trials \<le> 0 then DefaultTrials else trials))"
proof -
  let ?n = "if trials \<le> 0 then DefaultTrials else trials"
  let ?r0 = "\<lparr>Trials = 0, Reproduced = 0, vrClass = no_class, Divergent = []\<rparr> :: verify_report"
  have n: "0 < ?n" by (simp add: DefaultTrials_def)
  have "tallied marks [] (?r0, {})" by (simp add: tallied_def no_class_def firsts_def)
  from fold_tallied [OF this, of os] have t: "tallied marks os (fold (tally marks) os (?r0, {}))" by simp
  have "rep = fst (fold (tally marks) os (?r0, {}))" "err = None \<longleftrightarrow> length os = nat ?n"
    using assms(1) verify_loop_outcomes [of marks h input "nat ?n" "(?r0, {})" w]
    by (auto simp: Verify_def os Let_def)
  moreover have "length (filter Crashed os) = length os \<longleftrightarrow> list_all Crashed os"
    by (simp add: list_all_iff) (metis filter_True length_filter_less nat_neq_iff)
  ultimately show ?thesis
    using t n by (auto simp: tallied_def State_def list_all_iff)
qed

section \<open>The properties at concrete inputs\<close>

text \<open>A program under test that follows a script of outcomes.\<close>

definition scripted :: "('c, outcome list) harness" where
  "scripted = \<lparr>cancelled = (\<lambda>w. None),
     execute = (\<lambda>c w. case w of [] \<Rightarrow> (Inl ''script ended'', []) | x # xs \<Rightarrow> (Inr x, xs))\<rparr>"

definition ex_finding :: finding where
  "ex_finding = \<lparr>Kind_of = [], Signal_of = 0, Summary = [], Detail = [], Frames = []\<rparr>"

definition ex_crash :: "int \<Rightarrow> outcome" where
  "ex_crash n = \<lparr>Exit = ExitCrash, Signal = n, Output = ''panic: at 0x7f01 line 12'', Coverage = [], Finding = ex_finding\<rparr>"

definition ex_clean :: outcome where
  "ex_clean = \<lparr>Exit = ExitOK, Signal = 0, Output = [], Coverage = [], Finding = ex_finding\<rparr>"

lemma ex_marker: "ckMarker (Classify (ex_crash 11)) = ''panic: at 0xADDR line 12''"
  by code_simp

lemma Verify_report_witness:
  "case Verify genericMarkerPrefixes scripted [0 :: byte] 3 [ex_crash 11, ex_clean, ex_crash 6] of
     (rep, err, w) \<Rightarrow> Trials rep = 3 \<and> Reproduced rep = 2 \<and> State rep \<noteq> ''verified''"
proof -
  let ?w = "[ex_crash 11, ex_clean, ex_crash 6]"
  obtain rep err w' where v: "Verify genericMarkerPrefixes scripted [0 :: byte] 3 ?w = (rep, err, w')"
    by (cases "Verify genericMarkerPrefixes scripted [0 :: byte] 3 ?w") auto
  have os: "outcomes scripted [0 :: byte] (nat (if (3 :: int) \<le> 0 then DefaultTrials else 3)) ?w = ?w"
    by (simp add: scripted_def numeral_eq_Suc)
  have "Crashed (ex_crash n)" "\<not> Crashed ex_clean" for n
    by (simp_all add: Crashed_def ex_crash_def ex_clean_def ex_finding_def)
  with Verify_report [OF v os [symmetric]] v show ?thesis by simp
qed

end
