(* ===== verification/Triage_Minimize.thy ===== *)
theory Triage_Minimize
  imports Triage_Class
begin

text \<open>
  Minimisation of a reproducer, \<open>internal/triage/minimize.go\<close>: delta debugging over
  bytes with an execution budget, the normalising pass, and the pass over the
  messages of a session. The run is total: every loop is a HOL function, so ending is
  part of each definition. The report's percentage is floating point and left out.
\<close>

section \<open>Options, report and the budgeted test\<close>

record minimize_options =
  MaxRuns :: int
  Preserve :: "(outcome \<Rightarrow> bool) option"
  Normalize :: bool

definition DefaultMaxRuns :: int where "DefaultMaxRuns = 4000"

record minimize_report =
  OriginalSize :: nat
  MinimizedSize :: nat
  Runs :: int
  Exhausted :: bool

definition first_report :: "nat \<Rightarrow> minimize_report" where
  "first_report k = \<lparr>OriginalSize = k, MinimizedSize = k, Runs = 0, Exhausted = False\<rparr>"

definition budget_of :: "minimize_options \<Rightarrow> int" where
  "budget_of opts = (if MaxRuns opts \<le> 0 then DefaultMaxRuns else MaxRuns opts)"

text \<open>What a candidate must do: what the caller asks for, or fail in the class of the input.\<close>

definition baseline :: "('c, 'w) harness \<Rightarrow> minimize_options \<Rightarrow> 'c \<Rightarrow> minimize_report \<times> 'w \<Rightarrow>
    (string + (outcome \<Rightarrow> bool)) \<times> minimize_report \<times> 'w" where
  "baseline h opts input s = (case s of (rep, w) \<Rightarrow>
     (case Preserve opts of
       Some p \<Rightarrow> (Inr p, rep, w)
     | None \<Rightarrow>
         (case execute h input w of
            (Inl e, w) \<Rightarrow> (Inl e, rep, w)
          | (Inr orig, w) \<Rightarrow>
              let rep = rep\<lparr>Runs := Runs rep + 1\<rparr>
              in if \<not> Crashed orig then (Inl ''the input to minimise does not fail'', rep, w)
                 else let want = Classify orig
                      in (Inr (\<lambda>x. Crashed x \<and> Class_Equal (Classify x) want), rep, w))))"

definition still :: "('c, 'w) harness \<Rightarrow> (outcome \<Rightarrow> bool) \<Rightarrow> int \<Rightarrow> 'c \<Rightarrow> minimize_report \<times> 'w \<Rightarrow>
    (string + bool) \<times> minimize_report \<times> 'w" where
  "still h p limit c s = (case s of (rep, w) \<Rightarrow>
     if Runs rep \<ge> limit then (Inr False, rep\<lparr>Exhausted := True\<rparr>, w)
     else (case execute h c w of (r, w) \<Rightarrow>
            let rep = rep\<lparr>Runs := Runs rep + 1\<rparr>
            in (case r of Inl e \<Rightarrow> (Inl e, rep, w) | Inr x \<Rightarrow> (Inr (p x), rep, w))))"

section \<open>Delta debugging\<close>

text \<open>The starts of the blocks of one granularity, from the end.\<close>

definition starts :: "nat \<Rightarrow> nat \<Rightarrow> nat list" where
  "starts k sz = map (\<lambda>j. k - (j + 1) * sz) [0..<k div sz]"

definition cut :: "nat \<Rightarrow> nat \<Rightarrow> 'a list \<Rightarrow> 'a list" where
  "cut start sz best = take start best @ drop (min (start + sz) (length best)) best"

fun sweep :: "('a list, 'w) harness \<Rightarrow> (outcome \<Rightarrow> bool) \<Rightarrow> int \<Rightarrow> nat \<Rightarrow> 'a list \<Rightarrow> nat list \<Rightarrow> minimize_report \<times> 'w \<Rightarrow>
    (string + 'a list option) \<times> minimize_report \<times> 'w" where
  "sweep h p limit sz best [] s = (Inr None, s)"
| "sweep h p limit sz best (start # rest) s =
     (let candidate = cut start sz best
      in if candidate = [] then sweep h p limit sz best rest s
         else case still h p limit candidate s of
                (Inl e, s) \<Rightarrow> (Inl e, s)
              | (Inr good, s) \<Rightarrow>
                  if good then (Inr (Some candidate), s)
                  else if Exhausted (fst s) then (Inr None, s)
                  else sweep h p limit sz best rest s)"

lemma starts_bound: "start \<in> set (starts k sz) \<Longrightarrow> start + sz \<le> k"
proof -
  assume "start \<in> set (starts k sz)"
  then obtain j where j: "j < k div sz" "start = k - (j + 1) * sz" by (auto simp: starts_def)
  then have "(j + 1) * sz \<le> k div sz * sz" by (intro mult_le_mono1) simp
  also have "\<dots> \<le> k" by simp
  finally show ?thesis using j(2) by simp
qed

lemma sweep_cut:
  "sweep h p limit sz best ss s = (Inr (Some c), s') \<Longrightarrow> \<exists>start \<in> set ss. c = cut start sz best \<and> c \<noteq> []"
  by (induction ss arbitrary: s) (auto simp: Let_def split: if_split_asm prod.split_asm sum.split_asm)

lemma length_cut: "start + sz \<le> length best \<Longrightarrow> length (cut start sz best) = length best - sz"
  by (simp add: cut_def)

lemma sweep_length:
  assumes "sweep h p limit sz best (starts (length best) sz) s = (Inr (Some c), s')"
  shows "length c = length best - sz \<and> c \<noteq> []"
  using sweep_cut [OF assms] by (auto dest: starts_bound simp: length_cut)

function minimize_loop :: "('a list, 'w) harness \<Rightarrow> (outcome \<Rightarrow> bool) \<Rightarrow> int \<Rightarrow> nat \<Rightarrow> 'a list \<Rightarrow> minimize_report \<times> 'w \<Rightarrow>
    string option \<times> 'a list \<times> minimize_report \<times> 'w" where
  "minimize_loop h p limit blocks best s =
     (if length best \<le> 1 \<or> Exhausted (fst s) then (None, best, s)
      else case cancelled h (snd s) of
             Some e \<Rightarrow> (Some e, best, s)
           | None \<Rightarrow>
               let sz = length best div blocks
               in if sz = 0 then (None, best, s)
                  else (case sweep h p limit sz best (starts (length best) sz) s of
                         (Inl e, s) \<Rightarrow> (Some e, best, s)
                       | (Inr (Some c), s) \<Rightarrow> minimize_loop h p limit blocks c s
                       | (Inr None, s) \<Rightarrow>
                           if blocks \<ge> length best then (None, best, s)
                           else minimize_loop h p limit (2 * blocks) best s))"
  by pat_completeness auto

termination
proof (relation "measures [\<lambda>(h, p, limit, blocks, best, s). length best,
    \<lambda>(h, p, limit, blocks, best, s). length best - blocks]", goal_cases)
  case (2 h p limit blocks best s sz r s' b)
  then have "blocks \<noteq> 0" by (metis div_by_0)
  with 2 show ?case by auto
next
  case (3 h p limit blocks best s sz r s' b c)
  then have "length c = length best - sz \<and> c \<noteq> []" by (metis sweep_length)
  moreover have "length best \<noteq> 0" using 3(1) by (cases best) auto
  ultimately show ?case using 3(4) by auto
qed simp

declare minimize_loop.simps [simp del]

section \<open>Normalisation\<close>

definition filler :: byte where "filler = 0x20"

fun normalize_from :: "(byte list, 'w) harness \<Rightarrow> (outcome \<Rightarrow> bool) \<Rightarrow> int \<Rightarrow> nat \<Rightarrow> nat \<Rightarrow> byte list \<Rightarrow> minimize_report \<times> 'w \<Rightarrow>
    string option \<times> byte list \<times> minimize_report \<times> 'w" where
  "normalize_from h p limit i 0 out s = (None, out, s)"
| "normalize_from h p limit i (Suc k) out s =
     (case cancelled h (snd s) of
        Some e \<Rightarrow> (Some e, out, s)
      | None \<Rightarrow>
          if out ! i = filler then normalize_from h p limit (Suc i) k out s
          else (case still h p limit (out[i := filler]) s of
                 (Inl e, s) \<Rightarrow> (Some e, out[i := filler], s)
               | (Inr good, s) \<Rightarrow>
                   let out = (if good then out[i := filler] else out)
                   in if Exhausted (fst s) then (None, out, s)
                      else normalize_from h p limit (Suc i) k out s))"

definition normalize_bytes :: "(byte list, 'w) harness \<Rightarrow> (outcome \<Rightarrow> bool) \<Rightarrow> int \<Rightarrow> byte list \<Rightarrow> minimize_report \<times> 'w \<Rightarrow>
    string option \<times> byte list \<times> minimize_report \<times> 'w" where
  "normalize_bytes h p limit out s = normalize_from h p limit 0 (length out) out s"

definition Minimize :: "(byte list, 'w) harness \<Rightarrow> byte list \<Rightarrow> minimize_options \<Rightarrow> 'w \<Rightarrow>
    byte list option \<times> minimize_report \<times> string option \<times> 'w" where
  "Minimize h input opts w =
     (let rep = first_report (length input)
      in if length input \<le> 1 then (Some input, rep, None, w)
         else let limit = budget_of opts
              in case baseline h opts input (rep, w) of
                   (Inl e, rep, w) \<Rightarrow> (None, rep, Some e, w)
                 | (Inr p, s) \<Rightarrow>
                     (case minimize_loop h p limit 2 input s of
                        (Some e, best, rep, w) \<Rightarrow> (Some best, rep, Some e, w)
                      | (None, best, s) \<Rightarrow>
                          (case (if Normalize opts \<and> \<not> Exhausted (fst s) then normalize_bytes h p limit best s
                                 else (None, best, s)) of
                             (Some e, best, rep, w) \<Rightarrow> (Some best, rep, Some e, w)
                           | (None, best, rep, w) \<Rightarrow>
                               (Some best, rep\<lparr>MinimizedSize := length best\<rparr>, None, w))))"

section \<open>Sessions\<close>

fun drop_messages :: "('m list, 'w) harness \<Rightarrow> (outcome \<Rightarrow> bool) \<Rightarrow> int \<Rightarrow> nat \<Rightarrow> 'm list \<Rightarrow> minimize_report \<times> 'w \<Rightarrow>
    string option \<times> 'm list \<times> minimize_report \<times> 'w" where
  "drop_messages h p limit 0 best s = (None, best, s)"
| "drop_messages h p limit (Suc i) best s =
     (if Exhausted (fst s) then (None, best, s)
      else case cancelled h (snd s) of
             Some e \<Rightarrow> (Some e, best, s)
           | None \<Rightarrow>
               if length best = 1 then (None, best, s)
               else if Runs (fst s) \<ge> limit then (None, best, (fst s)\<lparr>Exhausted := True\<rparr>, snd s)
               else let candidate = take i best @ drop (Suc i) best
                    in (case execute h candidate (snd s) of (r, w) \<Rightarrow>
                         let rep = (fst s)\<lparr>Runs := Runs (fst s) + 1\<rparr>
                         in (case r of
                              Inl e \<Rightarrow> (Some e, best, rep, w)
                            | Inr x \<Rightarrow> drop_messages h p limit i (if p x then candidate else best) (rep, w))))"

definition MinimizeSequence :: "('m list, 'w) harness \<Rightarrow> 'm list \<Rightarrow> minimize_options \<Rightarrow> 'w \<Rightarrow>
    'm list option \<times> minimize_report \<times> string option \<times> 'w" where
  "MinimizeSequence h session opts w =
     (let rep = first_report (length session)
      in if length session \<le> 1 then (Some session, rep, None, w)
         else case baseline h opts session (rep, w) of
                (Inl e, rep, w) \<Rightarrow> (None, rep, Some e, w)
              | (Inr p, s) \<Rightarrow>
                  (case drop_messages h p (budget_of opts) (length session) session s of
                     (Some e, best, rep, w) \<Rightarrow> (Some best, rep, Some e, w)
                   | (None, best, rep, w) \<Rightarrow> (Some best, rep\<lparr>MinimizedSize := length best\<rparr>, None, w)))"

section \<open>The budget\<close>

text \<open>\<open>in_budget\<close>: a loop that starts within the budget stays within it.\<close>

definition in_budget :: "int \<Rightarrow> minimize_report \<times> 'w \<Rightarrow> bool" where
  "in_budget limit s \<longleftrightarrow> Runs (fst s) \<le> limit"

lemma still_within: "in_budget limit s \<Longrightarrow> in_budget limit (snd (still h p limit c s))"
  by (auto simp: in_budget_def still_def Let_def split: prod.split sum.split)

lemma sweep_within: "in_budget limit s \<Longrightarrow> in_budget limit (snd (sweep h p limit sz best ss s))"
proof (induction ss arbitrary: s)
  case (Cons start ss)
  have "in_budget limit (snd (still h p limit (cut start sz best) s))" using Cons.prems by (rule still_within)
  with Cons show ?case by (auto simp: Let_def split: prod.split sum.split)
qed simp

lemma normalize_within: "in_budget limit s \<Longrightarrow> in_budget limit (snd (snd (normalize_from h p limit i k out s)))"
proof (induction k arbitrary: i out s)
  case (Suc k)
  have "in_budget limit (snd (still h p limit (out[i := filler]) s))" using Suc.prems by (rule still_within)
  with Suc show ?case by (auto simp: Let_def split: option.split prod.split sum.split)
qed simp

lemma drop_within: "in_budget limit s \<Longrightarrow> in_budget limit (snd (snd (drop_messages h p limit i best s)))"
  by (induction i arbitrary: best s) (auto simp: in_budget_def Let_def split: option.split prod.split sum.split)

lemma budget_positive: "1 \<le> budget_of opts"
  by (simp add: budget_of_def DefaultMaxRuns_def)

lemma baseline_within: "in_budget (budget_of opts) (snd (baseline h opts c (first_report k, w)))"
  using budget_positive [of opts]
  by (auto simp: baseline_def in_budget_def first_report_def Let_def split: option.split prod.split sum.split)

section \<open>What stays of the input\<close>

lemma suffix_drop_le:
  assumes "i \<le> j \<or> length xs \<le> j"
  shows "suffix (drop j xs) (drop i xs)"
proof (cases "i \<le> j")
  case True
  then have "drop j xs = drop (j - i) (drop i xs)" by simp
  then show ?thesis by (metis suffix_drop)
qed (use assms in simp)

lemma cut_subseq: "subseq (cut start sz best) best"
proof -
  have "suffix (drop (min (start + sz) (length best)) best) (drop start best)"
    by (rule suffix_drop_le) auto
  then have "subseq (take start best @ drop (min (start + sz) (length best)) best) (take start best @ drop start best)"
    by (intro list_emb_append_mono subseq_order.refl suffix_imp_subseq)
  then show ?thesis by (simp add: cut_def)
qed

text \<open>Induction over the loop: an invariant of the best candidate and the state that every sweep keeps.\<close>

lemma minimize_loop_invariant:
  assumes "I best s"
    and "\<And>best s sz r s'. I best s \<Longrightarrow> sweep h p limit sz best (starts (length best) sz) s = (r, s') \<Longrightarrow>
      I best s' \<and> (\<forall>c. r = Inr (Some c) \<longrightarrow> I c s')"
  shows "I (fst (snd (minimize_loop h p limit blocks best s))) (snd (snd (minimize_loop h p limit blocks best s)))"
  using assms
proof (induction h p limit blocks best s rule: minimize_loop.induct)
  case (1 h p limit blocks best s)
  let ?sz = "length best div blocks"
  show ?case
  proof (cases "length best \<le> 1 \<or> Exhausted (fst s) \<or> cancelled h (snd s) \<noteq> None \<or> ?sz = 0")
    case True
    then show ?thesis using 1(3) by (subst (1 2) minimize_loop.simps) (auto simp: Let_def split: option.split)
  next
    case False
    obtain r s' where sw: "sweep h p limit ?sz best (starts (length best) ?sz) s = (r, s')"
      by (cases "sweep h p limit ?sz best (starts (length best) ?sz) s") auto
    from 1(4) [OF 1(3) sw] have I: "I best s'" "\<And>c. r = Inr (Some c) \<Longrightarrow> I c s'" by auto
    have go: "\<not> (length best \<le> 1 \<or> Exhausted (fst s))" "cancelled h (snd s) = None" "?sz \<noteq> 0"
      using False by auto
    show ?thesis
    proof (cases r)
      case (Inl e)
      then show ?thesis using go sw I by (subst (1 2) minimize_loop.simps) simp
    next
      case inr: (Inr b)
      show ?thesis
      proof (cases b)
        case (Some c)
        with inr have c: "r = Inr (Some c)" by simp
        from 1(2) [OF go(1,2) refl go(3) sw [symmetric] inr Some I(2) [OF c] 1(4)] show ?thesis
          using go sw c by (subst (1 2) minimize_loop.simps) simp
      next
        case None
        show ?thesis
        proof (cases "length best \<le> blocks")
          case True
          then show ?thesis using go sw I inr None by (subst (1 2) minimize_loop.simps) simp
        next
          case False
          from 1(1) [OF go(1,2) refl go(3) sw [symmetric] inr None False I(1) 1(4)] show ?thesis
            using go sw inr None False by (subst (1 2) minimize_loop.simps) simp
        qed
      qed
    qed
  qed
qed

lemma minimize_loop_subseq:
  assumes "best \<noteq> []"
  shows "subseq (fst (snd (minimize_loop h p limit blocks best s))) best \<and>
     fst (snd (minimize_loop h p limit blocks best s)) \<noteq> []"
proof (rule minimize_loop_invariant [where I = "\<lambda>c s. subseq c best \<and> c \<noteq> []"])
  fix b s sz r s'
  assume "subseq b best \<and> b \<noteq> []" "sweep h p limit sz b (starts (length b) sz) s = (r, s')"
  then show "(subseq b best \<and> b \<noteq> []) \<and> (\<forall>c. r = Inr (Some c) \<longrightarrow> subseq c best \<and> c \<noteq> [])"
    using sweep_cut cut_subseq subseq_order.trans by blast
qed (use assms in simp)

lemma minimize_loop_within:
  assumes "in_budget limit s"
  shows "in_budget limit (snd (snd (minimize_loop h p limit blocks best s)))"
proof (rule minimize_loop_invariant [where I = "\<lambda>c s. in_budget limit s"])
  fix b s sz r s'
  assume "in_budget limit s" "sweep h p limit sz b (starts (length b) sz) s = (r, s')"
  then show "in_budget limit s' \<and> (\<forall>c. r = Inr (Some c) \<longrightarrow> in_budget limit s')"
    using sweep_within by (metis snd_conv)
qed (rule assms)

text \<open>Normalising only overwrites.\<close>

definition filled :: "byte list \<Rightarrow> byte list \<Rightarrow> bool" where
  "filled out mid \<longleftrightarrow> list_all2 (\<lambda>a b. a = b \<or> a = filler) out mid"

lemma filled_update: "filled out mid \<Longrightarrow> filled (out[i := filler]) mid"
  by (cases "i < length out") (auto simp: filled_def list_all2_conv_all_nth nth_list_update)

lemma filled_refl [simp]: "filled out out"
  by (simp add: filled_def list_all2_conv_all_nth)

lemma normalize_filled: "filled out mid \<Longrightarrow> filled (fst (snd (normalize_from h p limit i k out s))) mid"
proof (induction k arbitrary: i out s)
  case (Suc k)
  then show ?case by (auto simp: Let_def filled_update split: option.split prod.split sum.split)
qed simp

lemma filled_length: "filled out mid \<Longrightarrow> length out = length mid"
  by (simp add: filled_def list_all2_lengthD)

lemma sized: "(r :: minimize_report)\<lparr>MinimizedSize := k\<rparr> = r \<Longrightarrow> MinimizedSize r = k"
  by (cases r) simp

lemma Minimize_cases:
  assumes "Minimize h input opts w = (Some out, rep, err, w')" and "1 < length input"
  obtains p s e1 best s1 where "baseline h opts input (first_report (length input), w) = (Inr p, s)"
    "minimize_loop h p (budget_of opts) 2 input s = (e1, best, s1)"
    "e1 \<noteq> None \<and> out = best \<and> err = e1 \<and> (rep, w') = s1 \<or>
     e1 = None \<and> (\<not> Normalize opts \<or> Exhausted (fst s1)) \<and> out = best \<and> err = None \<and>
       (rep, w') = ((fst s1)\<lparr>MinimizedSize := length best\<rparr>, snd s1) \<or>
     e1 = None \<and> Normalize opts \<and> \<not> Exhausted (fst s1) \<and>
       (\<exists>s2. normalize_bytes h p (budget_of opts) best s1 = (err, out, s2) \<and>
          (rep, w') = (if err = None then ((fst s2)\<lparr>MinimizedSize := length out\<rparr>, snd s2) else s2))"
proof -
  obtain r s where b: "baseline h opts input (first_report (length input), w) = (r, s)"
    by (cases "baseline h opts input (first_report (length input), w)") auto
  with assms obtain p where p: "r = Inr p"
    by (cases r) (auto simp: Minimize_def Let_def split: prod.split_asm)
  obtain e1 best s1 where l: "minimize_loop h p (budget_of opts) 2 input s = (e1, best, s1)"
    by (cases "minimize_loop h p (budget_of opts) 2 input s") auto
  obtain e2 out2 s2 where n: "normalize_bytes h p (budget_of opts) best s1 = (e2, out2, s2)"
    by (cases "normalize_bytes h p (budget_of opts) best s1") auto
  have "e1 \<noteq> None \<and> out = best \<and> err = e1 \<and> (rep, w') = s1 \<or>
     e1 = None \<and> (\<not> Normalize opts \<or> Exhausted (fst s1)) \<and> out = best \<and> err = None \<and>
       (rep, w') = ((fst s1)\<lparr>MinimizedSize := length best\<rparr>, snd s1) \<or>
     e1 = None \<and> Normalize opts \<and> \<not> Exhausted (fst s1) \<and>
       (\<exists>s2. normalize_bytes h p (budget_of opts) best s1 = (err, out, s2) \<and>
          (rep, w') = (if err = None then ((fst s2)\<lparr>MinimizedSize := length out\<rparr>, snd s2) else s2))"
    using assms b p l n
    by (cases e1; cases e2; cases s; cases s1; cases s2) (auto simp: Minimize_def Let_def split: if_split_asm)
  with b p l that show thesis by blast
qed

text \<open>C18. Whatever the program under test answers, minimising ends with a reproducer that is no
  longer than the input, is not empty unless the input was, is a subsequence of it except for the
  bytes the normalising pass overwrote, and cost no more executions than the budget.\<close>

theorem Minimize_shrinks:
  assumes "Minimize h input opts w = (Some out, rep, err, w')"
  shows "(\<exists>mid. subseq mid input \<and> filled out mid \<and> (\<not> Normalize opts \<longrightarrow> out = mid)) \<and>
    length out \<le> length input \<and> (input \<noteq> [] \<longrightarrow> out \<noteq> []) \<and> Runs rep \<le> budget_of opts \<and>
    (err = None \<longrightarrow> MinimizedSize rep = length out)"
proof (cases "1 < length input")
  case False
  then show ?thesis using assms budget_positive [of opts] by (auto simp: Minimize_def Let_def first_report_def)
next
  case True
  then have ne: "input \<noteq> []" by auto
  obtain p s e1 best s1 where
    b: "baseline h opts input (first_report (length input), w) = (Inr p, s)"
    and l: "minimize_loop h p (budget_of opts) 2 input s = (e1, best, s1)"
    and out: "e1 \<noteq> None \<and> out = best \<and> err = e1 \<and> (rep, w') = s1 \<or>
     e1 = None \<and> (\<not> Normalize opts \<or> Exhausted (fst s1)) \<and> out = best \<and> err = None \<and>
       (rep, w') = ((fst s1)\<lparr>MinimizedSize := length best\<rparr>, snd s1) \<or>
     e1 = None \<and> Normalize opts \<and> \<not> Exhausted (fst s1) \<and>
       (\<exists>s2. normalize_bytes h p (budget_of opts) best s1 = (err, out, s2) \<and>
          (rep, w') = (if err = None then ((fst s2)\<lparr>MinimizedSize := length out\<rparr>, snd s2) else s2))"
    by (rule Minimize_cases [OF assms True])
  have best: "subseq best input" "best \<noteq> []" using minimize_loop_subseq [OF ne, of h p "budget_of opts" 2 s] l by auto
  have s1: "in_budget (budget_of opts) s1"
    using minimize_loop_within [of "budget_of opts" s h p 2 input] baseline_within [of opts h input "length input" w] b l by simp
  have n: "filled out best \<and> in_budget (budget_of opts) s2" if "normalize_bytes h p (budget_of opts) best s1 = (err, out, s2)" for s2
    using normalize_filled [OF filled_refl, of h p "budget_of opts" 0 "length best" best s1]
      normalize_within [OF s1, of h p 0 "length best" best] that by (simp add: normalize_bytes_def)
  have "filled out best \<and> (\<not> Normalize opts \<longrightarrow> out = best) \<and> Runs rep \<le> budget_of opts \<and>
      (err = None \<longrightarrow> MinimizedSize rep = length out)"
    using out s1 n by (cases s1) (auto simp: in_budget_def dest: sized split: if_split_asm prod.split_asm)
  moreover have "length out = length best" using calculation filled_length by blast
  ultimately show ?thesis using best list_emb_length [of "(=)" best input] by fastforce
qed

section \<open>A program that answers each input the same way\<close>

definition replies :: "('c, 'w) harness \<Rightarrow> ('c \<Rightarrow> outcome) \<Rightarrow> bool" where
  "replies h f \<longleftrightarrow> (\<forall>c w. fst (execute h c w) = Inr (f c))"

definition fails_alike :: "minimize_options \<Rightarrow> outcome \<Rightarrow> outcome \<Rightarrow> bool" where
  "fails_alike opts orig x =
     (case Preserve opts of Some p \<Rightarrow> p x | None \<Rightarrow> Crashed x \<and> Class_Equal (Classify x) (Classify orig))"

lemma replies_execute: "replies h f \<Longrightarrow> \<exists>w'. execute h c w = (Inr (f c), w')"
  unfolding replies_def by (metis prod.collapse)

lemma still_replies:
  assumes "replies h f" and "still h p limit c s = (r, s')"
  shows "r = Inr (Runs (fst s) < limit \<and> p (f c)) \<and> (Exhausted (fst s') \<longleftrightarrow> Exhausted (fst s) \<or> limit \<le> Runs (fst s))"
proof -
  obtain w' where "execute h c (snd s) = (Inr (f c), w')" using replies_execute [OF assms(1)] by blast
  with assms(2) show ?thesis by (cases s) (auto simp: still_def Let_def split: if_split_asm)
qed

lemma sweep_replies:
  assumes "replies h f" and "sweep h p limit sz best ss s = (r, s')"
  shows "(\<exists>b. r = Inr b) \<and> (\<forall>c. r = Inr (Some c) \<longrightarrow> p (f c)) \<and>
    (r = Inr None \<longrightarrow> \<not> Exhausted (fst s') \<longrightarrow>
      (\<forall>start \<in> set ss. cut start sz best \<noteq> [] \<longrightarrow> \<not> p (f (cut start sz best))))"
  using assms(2)
proof (induction ss arbitrary: s)
  case (Cons start ss)
  show ?case
  proof (cases "cut start sz best = []")
    case True
    with Cons.prems have "sweep h p limit sz best ss s = (r, s')" by simp
    from Cons.IH [OF this] True show ?thesis by auto
  next
    case False
    obtain r1 s1 where t: "still h p limit (cut start sz best) s = (r1, s1)"
      by (cases "still h p limit (cut start sz best) s")
    from still_replies [OF assms(1) t] have r1: "r1 = Inr (Runs (fst s) < limit \<and> p (f (cut start sz best)))"
      "Exhausted (fst s1) \<longleftrightarrow> Exhausted (fst s) \<or> limit \<le> Runs (fst s)" by auto
    consider "Runs (fst s) < limit \<and> p (f (cut start sz best))"
      | "\<not> (Runs (fst s) < limit \<and> p (f (cut start sz best)))" "Exhausted (fst s1)"
      | "\<not> p (f (cut start sz best))" "\<not> Exhausted (fst s1)" using r1(2) by fastforce
    then show ?thesis
      using Cons.prems Cons.IH [of s1] False t r1(1) by cases (auto simp: Let_def)
  qed
qed auto

lemma minimize_loop_replies:
  assumes "replies h f" and "p (f best)"
  shows "p (f (fst (snd (minimize_loop h p limit blocks best s))))"
proof (rule minimize_loop_invariant [where I = "\<lambda>c s. p (f c)"])
  fix b s sz r s'
  assume "p (f b)" "sweep h p limit sz b (starts (length b) sz) s = (r, s')"
  then show "p (f b) \<and> (\<forall>c. r = Inr (Some c) \<longrightarrow> p (f c))" using sweep_replies [OF assms(1)] by blast
qed (rule assms(2))

lemma normalize_replies:
  assumes "replies h f" and "p (f out)"
  shows "p (f (fst (snd (normalize_from h p limit i k out s))))"
  using assms(2)
proof (induction k arbitrary: i out s)
  case (Suc k)
  obtain r1 s1 where t: "still h p limit (out[i := filler]) s = (r1, s1)"
    by (cases "still h p limit (out[i := filler]) s")
  from still_replies [OF assms(1) t] Suc show ?case
    using t by (auto simp: Let_def split: option.split)
qed simp

lemma baseline_replies:
  assumes "replies h f" and "fails_alike opts (f c) (f c)"
  shows "\<exists>s'. baseline h opts c s = (Inr (fails_alike opts (f c)), s') \<and> Exhausted (fst s') = Exhausted (fst s)"
proof -
  obtain rep w where s: "s = (rep, w)" by (cases s)
  obtain w' where "execute h c w = (Inr (f c), w')" using replies_execute [OF assms(1)] by blast
  then show ?thesis
    using assms(2) by (cases "Preserve opts") (auto simp: baseline_def s fails_alike_def [abs_def] Let_def)
qed

text \<open>C16. With a program that answers each input the same way, a reproducer of a failure is minimised
  to a reproducer of the same failure, also when the budget runs out or the run is cancelled.\<close>

theorem Minimize_keeps:
  assumes "replies h f" and "fails_alike opts (f input) (f input)"
  shows "\<exists>out rep err w'. Minimize h input opts w = (Some out, rep, err, w') \<and> fails_alike opts (f input) (f out)"
proof (cases "1 < length input")
  case True
  let ?p = "fails_alike opts (f input)" and ?b = "budget_of opts"
  obtain s where b: "baseline h opts input (first_report (length input), w) = (Inr ?p, s)"
    using baseline_replies [OF assms] by blast
  obtain e1 best s1 where l: "minimize_loop h ?p ?b 2 input s = (e1, best, s1)"
    by (cases "minimize_loop h ?p ?b 2 input s") auto
  obtain e2 out s2 where n: "normalize_bytes h ?p ?b best s1 = (e2, out, s2)"
    by (cases "normalize_bytes h ?p ?b best s1") auto
  have "?p (f best)" using minimize_loop_replies [of h f ?p input ?b 2 s, OF assms] l by simp
  moreover from normalize_replies [of h f ?p best ?b 0 "length best" s1, OF assms(1) this]
  have "?p (f out)" using n by (simp add: normalize_bytes_def)
  ultimately show ?thesis
    using True b l n by (cases e1; cases e2; cases s; cases s1; cases s2) (auto simp: Minimize_def Let_def)
qed (use assms in \<open>simp add: Minimize_def Let_def\<close>)

section \<open>How small the result is\<close>

text \<open>No single element can be left out.\<close>

definition one_minimal :: "('a list \<Rightarrow> bool) \<Rightarrow> 'a list \<Rightarrow> bool" where
  "one_minimal fails c \<longleftrightarrow> (\<forall>i < length c. \<not> fails (take i c @ drop (Suc i) c))"

lemma one_minimal_sweep:
  assumes "\<forall>start \<in> set (starts (length best) 1). cut start 1 best \<noteq> [] \<longrightarrow> \<not> fails (cut start 1 best)"
    and "2 \<le> length best"
  shows "one_minimal fails best"
  unfolding one_minimal_def
proof (intro allI impI)
  fix i assume i: "i < length best"
  then have "i \<in> set (starts (length best) 1)"
    by (auto simp: starts_def image_iff intro!: bexI [of _ "length best - (i + 1)"])
  moreover have "cut i 1 best = take i best @ drop (Suc i) best" using i by (simp add: cut_def min_def)
  moreover have "take i best @ drop (Suc i) best \<noteq> []" using assms(2) i by auto
  ultimately show "\<not> fails (take i best @ drop (Suc i) best)" using assms(1) by metis
qed

lemma one_block:
  assumes "blocks \<le> k" and "k < 2 * blocks"
  shows "k div blocks = (1 :: nat)"
  using assms by (simp add: div_nat_eqI)

lemma one_left:
  assumes "blocks \<le> k" and "2 \<le> blocks" and "k - k div blocks < blocks"
  shows "k - k div blocks + 1 = (blocks :: nat)"
proof -
  have "k div blocks = 1"
  proof (rule ccontr)
    assume "k div blocks \<noteq> 1"
    moreover have "1 \<le> k div blocks" using assms(1,2) by (simp add: Suc_leI div_greater_zero_iff)
    ultimately have two: "2 \<le> k div blocks" by simp
    have "k div blocks * blocks \<le> k" by simp
    then have m: "k div blocks * (blocks - 1) \<le> k - k div blocks" by (simp add: diff_mult_distrib2 diff_le_mono)
    have "2 * (blocks - 1) \<le> k div blocks * (blocks - 1)" using two by (rule mult_le_mono1)
    from order_trans [OF this m] show False using assms(2,3) by linarith
  qed
  with assms show ?thesis by simp
qed

lemma minimize_loop_minimal:
  assumes "replies h f" and "minimize_loop h p limit blocks best s = (None, out, s')" and "\<not> Exhausted (fst s')"
    and "2 \<le> blocks" and "\<exists>k. blocks = 2 ^ k" and "best \<noteq> []"
    and "length best < blocks \<Longrightarrow> one_minimal (\<lambda>c. p (f c)) best \<or> length best + 1 = blocks"
  shows "length out = 1 \<or> one_minimal (\<lambda>c. p (f c)) out \<or> (\<exists>k. length out + 1 = 2 ^ k)"
  using assms
proof (induction h p limit blocks best s rule: minimize_loop.induct)
  case (1 h p limit blocks best s)
  let ?sz = "length best div blocks"
  show ?case
  proof (cases "length best \<le> 1 \<or> Exhausted (fst s) \<or> cancelled h (snd s) \<noteq> None")
    case True
    with 1(4,5) have "out = best \<and> length best \<le> 1"
      by (subst (asm) minimize_loop.simps) (auto split: if_split_asm option.split_asm)
    with 1(8) show ?thesis by (cases best) auto
  next
    case False
    then have go: "\<not> (length best \<le> 1 \<or> Exhausted (fst s))" "cancelled h (snd s) = None" by auto
    show ?thesis
    proof (cases "?sz = 0")
      case True
      then have "length best < blocks" using 1(6) by (simp add: div_eq_0_iff)
      moreover have "out = best" using 1(4) go True by (subst (asm) minimize_loop.simps) simp
      ultimately show ?thesis using 1(7,9) by auto
    next
      case sz: False
      obtain r s1 where sw: "sweep h p limit ?sz best (starts (length best) ?sz) s = (r, s1)"
        by (cases "sweep h p limit ?sz best (starts (length best) ?sz) s") auto
      from sweep_replies [OF 1(3) sw] obtain b where b: "r = Inr b"
        and none: "b = None \<Longrightarrow> \<not> Exhausted (fst s1) \<Longrightarrow>
          \<forall>start \<in> set (starts (length best) ?sz). cut start ?sz best \<noteq> [] \<longrightarrow> \<not> p (f (cut start ?sz best))" by auto
      have blocks: "blocks \<le> length best" using sz by (simp add: div_eq_0_iff not_less)
      show ?thesis
      proof (cases b)
        case (Some c)
        have c: "length c = length best - ?sz" "c \<noteq> []" using sweep_length [of h p limit ?sz best s c s1] sw b Some by auto
        have "length c + 1 = blocks" if "length c < blocks"
          using one_left [OF blocks 1(6)] c(1) that by simp
        moreover have "minimize_loop h p limit blocks c s1 = (None, out, s')"
          using 1(4) go sz sw b Some by (subst (asm) minimize_loop.simps) simp
        ultimately show ?thesis
          using 1(2) [OF go refl sz sw [symmetric] b Some 1(3) _ 1(5,6,7) c(2)] by blast
      next
        case None
        have live: "\<not> Exhausted (fst s1)"
        proof
          assume e: "Exhausted (fst s1)"
          have "minimize_loop h p limit blocks best s = (if length best \<le> blocks then (None, best, s1)
              else minimize_loop h p limit (2 * blocks) best s1)"
            using go sz sw b None by (subst minimize_loop.simps) simp
          also have "\<dots> = (None, best, s1)" using e by (subst minimize_loop.simps) simp
          finally show False using 1(4,5) e by simp
        qed
        have small: "one_minimal (\<lambda>c. p (f c)) best" if "length best < 2 * blocks"
        proof (rule one_minimal_sweep)
          have "?sz = 1" using one_block [OF blocks that] .
          then show "\<forall>start \<in> set (starts (length best) 1). cut start 1 best \<noteq> [] \<longrightarrow> \<not> p (f (cut start 1 best))"
            using none [OF None live] by simp
        qed (use go in auto)
        show ?thesis
        proof (cases "length best \<le> blocks")
          case True
          then have "out = best" using 1(4) go sz sw b None by (subst (asm) minimize_loop.simps) simp
          with small True 1(6) show ?thesis by auto
        next
          case False
          then have "minimize_loop h p limit (2 * blocks) best s1 = (None, out, s')"
            using 1(4) go sz sw b None by (subst (asm) minimize_loop.simps) simp
          moreover have "\<exists>k. 2 * blocks = 2 ^ k" using 1(7) by (metis power_Suc)
          ultimately show ?thesis
            using 1(1) [OF go refl sz sw [symmetric] b None False 1(3) _ 1(5) _ _ 1(8)] small 1(6) by auto
        qed
      qed
    qed
  qed
qed

text \<open>C17. Against a program that answers each input the same way, and without the pass that blanks
  bytes, when minimisation ends within its budget no single byte can be left out of the result
  without losing the failure, except for a result of one byte or of one byte less than a power of
  two.\<close>

theorem Minimize_minimal:
  assumes "replies h f" and "Minimize h input opts w = (Some out, rep, None, w')" and "\<not> Exhausted rep"
    and "\<not> Normalize opts" and "fails_alike opts (f input) (f input)"
  shows "length out \<le> 1 \<or> one_minimal (\<lambda>c. fails_alike opts (f input) (f c)) out \<or> (\<exists>k. length out + 1 = 2 ^ k)"
proof (cases "1 < length input")
  case False
  then show ?thesis using assms(2) by (simp add: Minimize_def Let_def)
next
  case True
  let ?p = "fails_alike opts (f input)" and ?b = "budget_of opts"
  obtain s where b: "baseline h opts input (first_report (length input), w) = (Inr ?p, s)"
    using baseline_replies [OF assms(1,5)] by blast
  obtain e best s1 where l: "minimize_loop h ?p ?b 2 input s = (e, best, s1)"
    by (cases "minimize_loop h ?p ?b 2 input s") auto
  have "e = None" "out = best" "\<not> Exhausted (fst s1)"
    using assms(2-4) True b l by (cases e; cases s1; auto simp: Minimize_def Let_def)+
  then have "minimize_loop h ?p ?b 2 input s = (None, out, s1)" using l by simp
  from minimize_loop_minimal [OF assms(1) this \<open>\<not> Exhausted (fst s1)\<close>] True show ?thesis
    by (force intro: exI [of _ 1])
qed

definition needs_a_and_c :: "(byte list, unit) harness" where
  "needs_a_and_c = \<lparr>cancelled = (\<lambda>w. None),
     execute = (\<lambda>c w. (Inr (if 97 \<in> set c \<and> 99 \<in> set c then ex_crash 11 else ex_clean), ()))\<rparr>"

definition plain_options :: minimize_options where
  "plain_options = \<lparr>MaxRuns = 0, Preserve = None, Normalize = False\<rparr>"

text \<open>The exception is real: a program that fails on every input with an a and a c has a
  reproducer of four bytes that is minimised to three, although the two would do.\<close>

lemma Minimize_stops_early:
  "(let (out, rep, err, w) = Minimize needs_a_and_c [97, 98, 99, 100] plain_options ()
    in out = Some [97, 98, 99] \<and> err = None \<and> \<not> Exhausted rep) \<and>
   (let x = fst (execute needs_a_and_c [97, 98, 99, 100] ()); y = fst (execute needs_a_and_c [97, 99] ())
    in x = y \<and> map_sum id Crashed y = Inr True)"
  by code_simp

section \<open>Sessions\<close>

definition without :: "nat \<Rightarrow> 'a list \<Rightarrow> 'a list" where
  "without i c = take i c @ drop (Suc i) c"

lemma without_append: "without (length pre) (pre @ x # suf) = pre @ suf"
  by (simp add: without_def)

lemma drop_messages_run:
  assumes "replies h f" and "p (f (pre @ suf))"
    and "drop_messages h p limit (length pre) (pre @ suf) s = (e, out, s')"
  shows "subseq out (pre @ suf) \<and> p (f out) \<and>
    ((\<forall>a b. subseq a b \<longrightarrow> p (f a) \<longrightarrow> p (f b)) \<longrightarrow> e = None \<longrightarrow> \<not> Exhausted (fst s') \<longrightarrow>
     (\<forall>j < length suf. \<not> p (f (pre @ without j suf))) \<longrightarrow>
     length out = 1 \<or> (\<forall>j < length out. \<not> p (f (without j out))))"
  using assms(2,3)
proof (induction pre arbitrary: suf s rule: rev_induct)
  case Nil
  then show ?case by simp
next
  case (snoc x pre)
  show ?case
  proof (cases "Exhausted (fst s) \<or> cancelled h (snd s) \<noteq> None \<or> length (pre @ x # suf) = 1 \<or> limit \<le> Runs (fst s)")
    case True
    with snoc.prems show ?thesis by (auto split: option.split_asm if_split_asm)
  next
    case False
    obtain w' where w': "execute h (pre @ suf) (snd s) = (Inr (f (pre @ suf)), w')"
      using replies_execute [OF assms(1)] by blast
    let ?s = "((fst s)\<lparr>Runs := Runs (fst s) + 1\<rparr>, w')"
    have step: "drop_messages h p limit (length pre) (if p (f (pre @ suf)) then pre @ suf else pre @ x # suf) ?s = (e, out, s')"
      using snoc.prems(2) False w' by (auto simp: Let_def)
    show ?thesis
    proof (cases "p (f (pre @ suf))")
      case True
      have sub: "subseq (pre @ t) ((pre @ [x]) @ t)" for t
        by (simp add: list_emb_append_mono list_emb_Cons)
      from snoc.IH [OF True, of ?s] step True
      have IH: "subseq out (pre @ suf) \<and> p (f out) \<and>
        ((\<forall>a b. subseq a b \<longrightarrow> p (f a) \<longrightarrow> p (f b)) \<longrightarrow> e = None \<longrightarrow> \<not> Exhausted (fst s') \<longrightarrow>
         (\<forall>j < length suf. \<not> p (f (pre @ without j suf))) \<longrightarrow>
         length out = 1 \<or> (\<forall>j < length out. \<not> p (f (without j out))))" by simp
      with sub [of suf] have "subseq out ((pre @ [x]) @ suf)" using subseq_order.trans by blast
      with IH sub show ?thesis by blast
    next
      case False
      have cons: "\<forall>j < length (x # suf). \<not> p (f (pre @ without j (x # suf)))"
        if "\<forall>j < length suf. \<not> p (f ((pre @ [x]) @ without j suf))"
      proof (intro allI impI)
        fix j assume "j < length (x # suf)"
        with that False show "\<not> p (f (pre @ without j (x # suf)))" by (cases j) (auto simp: without_def)
      qed
      from snoc.IH [of "x # suf" ?s] snoc.prems(1) step False cons show ?thesis by auto
    qed
  qed
qed

text \<open>A session is minimised by dropping messages: the result is a subsequence that still fails
  the same way, within the budget; when adding messages never hides the failure, the one pass over
  the session is enough and no message of the result can be left out.\<close>

lemma MinimizeSequence_keeps:
  assumes "replies h f" and "fails_alike opts (f session) (f session)"
    and "MinimizeSequence h session opts w = (res, rep, err, w')"
  shows "\<exists>out. res = Some out \<and> subseq out session \<and> fails_alike opts (f session) (f out) \<and> Runs rep \<le> budget_of opts \<and>
    ((\<forall>a b. subseq a b \<longrightarrow> fails_alike opts (f session) (f a) \<longrightarrow> fails_alike opts (f session) (f b)) \<longrightarrow>
     err = None \<longrightarrow> \<not> Exhausted rep \<longrightarrow> length out \<le> 1 \<or> one_minimal (\<lambda>c. fails_alike opts (f session) (f c)) out)"
proof (cases "1 < length session")
  case True
  let ?p = "fails_alike opts (f session)" and ?b = "budget_of opts"
  obtain s where b: "baseline h opts session (first_report (length session), w) = (Inr ?p, s)"
    using baseline_replies [OF assms(1,2)] by blast
  obtain e out s1 where d: "drop_messages h ?p ?b (length session) session s = (e, out, s1)"
    by (cases "drop_messages h ?p ?b (length session) session s") auto
  have "in_budget ?b s1"
    using drop_within [of ?b s h ?p "length session" session] baseline_within [of opts h session "length session" w] b d by simp
  moreover have r: "res = Some out \<and> err = e \<and> Runs rep = Runs (fst s1) \<and> Exhausted rep = Exhausted (fst s1)"
    using assms(3) True b d by (cases e; cases s1) (auto simp: MinimizeSequence_def Let_def)
  ultimately show ?thesis
    using drop_messages_run [of h f ?p session "[]" ?b s e out s1] assms(1,2) d
    by (auto simp: in_budget_def one_minimal_def without_def)
qed (use assms budget_positive [of opts] in \<open>auto simp: MinimizeSequence_def Let_def first_report_def\<close>)

section \<open>The properties at concrete inputs\<close>

definition ab_outcome :: "byte list \<Rightarrow> outcome" where
  "ab_outcome c = (if 97 \<in> set c \<and> 99 \<in> set c then ex_crash 11 else ex_clean)"

lemma ab_replies: "replies needs_a_and_c ab_outcome"
  by (simp add: replies_def needs_a_and_c_def ab_outcome_def)

lemma ex_crashed [simp]: "Crashed (ex_crash n)" "\<not> Crashed ex_clean"
  by (simp_all add: Crashed_def ex_crash_def ex_clean_def ex_finding_def)

lemma ab_fails: "fails_alike plain_options (ab_outcome c) (ab_outcome d) \<longleftrightarrow>
    97 \<in> set d \<and> 99 \<in> set d \<and> (97 \<in> set c \<and> 99 \<in> set c \<or> \<not> Class_Equal (Classify ex_clean) (Classify ex_clean) \<or>
      Class_Equal (Classify (ex_crash 11)) (Classify ex_clean))"
  by (auto simp: fails_alike_def plain_options_def ab_outcome_def Class_Equal_def)

theorem Minimize_shrinks_witness:
  "\<exists>out. fst (Minimize needs_a_and_c [97, 98, 99, 100] plain_options ()) = Some out \<and> length out \<le> 4 \<and> out \<noteq> []"
proof -
  have "fst (Minimize needs_a_and_c [97, 98, 99, 100] plain_options ()) = Some [97, 98, 99]" by code_simp
  then obtain rep err w' where "Minimize needs_a_and_c [97, 98, 99, 100] plain_options () = (Some [97, 98, 99], rep, err, w')"
    by (metis prod.collapse)
  from Minimize_shrinks [OF this] show ?thesis
    using \<open>fst (Minimize needs_a_and_c [97, 98, 99, 100] plain_options ()) = Some [97, 98, 99]\<close> by auto
qed

theorem Minimize_keeps_witness:
  "\<exists>out. fst (Minimize needs_a_and_c [97, 98, 99, 100] plain_options ()) = Some out \<and> 97 \<in> set out \<and> 99 \<in> set out"
proof -
  have "fails_alike plain_options (ab_outcome [97, 98, 99, 100]) (ab_outcome [97, 98, 99, 100])" by (simp add: ab_fails)
  from Minimize_keeps [OF ab_replies this] show ?thesis by (metis ab_fails fst_conv)
qed

theorem Minimize_minimal_witness:
  "\<exists>out. fst (Minimize needs_a_and_c [98, 97, 100, 98, 99] plain_options ()) = Some out \<and>
     (length out \<le> 1 \<or> one_minimal (\<lambda>c. 97 \<in> set c \<and> 99 \<in> set c) out \<or> (\<exists>k. length out + 1 = 2 ^ k))"
proof -
  let ?m = "Minimize needs_a_and_c [98, 97, 100, 98, 99] plain_options ()"
  have "(case ?m of (out, rep, err, w) \<Rightarrow> out \<noteq> None \<and> err = None \<and> \<not> Exhausted rep)" by code_simp
  then obtain out rep where m: "?m = (Some out, rep, None, ())" "\<not> Exhausted rep" by (auto split: prod.split_asm)
  have "fails_alike plain_options (ab_outcome [98, 97, 100, 98, 99]) (ab_outcome [98, 97, 100, 98, 99])" by (simp add: ab_fails)
  from Minimize_minimal [OF ab_replies m _ this] have "length out \<le> 1 \<or> one_minimal (\<lambda>c. 97 \<in> set c \<and> 99 \<in> set c) out \<or>
      (\<exists>k. length out + 1 = 2 ^ k)" by (simp add: ab_fails) (simp add: plain_options_def)
  with m(1) show ?thesis by simp
qed

definition needs_login :: "(byte list list, unit) harness" where
  "needs_login = \<lparr>cancelled = (\<lambda>w. None),
     execute = (\<lambda>c w. (Inr (if [1] \<in> set c then ex_crash 6 else ex_clean), ()))\<rparr>"

lemma MinimizeSequence_keeps_witness:
  "\<exists>out. fst (MinimizeSequence needs_login [[0], [1], [2]] plain_options ()) = Some out \<and> [1] \<in> set out"
proof -
  let ?f = "\<lambda>c. if [1] \<in> set c then ex_crash 6 else ex_clean"
  have r: "replies needs_login ?f" by (simp add: replies_def needs_login_def)
  have p: "fails_alike plain_options (?f [[0], [1], [2]]) (?f d) \<longleftrightarrow> [1] \<in> set d" for d
    by (auto simp: fails_alike_def plain_options_def Class_Equal_def)
  obtain res rep err w' where m: "MinimizeSequence needs_login [[0], [1], [2]] plain_options () = (res, rep, err, w')"
    by (cases "MinimizeSequence needs_login [[0], [1], [2]] plain_options ()") auto
  have "fails_alike plain_options (?f [[0], [1], [2]]) (?f [[0], [1], [2]])" unfolding p by simp
  from MinimizeSequence_keeps [OF r this m] m show ?thesis unfolding p by auto
qed

end
