(* ===== verification/State_Label.thy ===== *)
theory State_Label
  imports Triage_Class "HOL-Library.List_Lexorder" "HOL-Library.AList"
begin

text \<open>
  Protocol states of \<open>pkg/state\<close>: labels and traces (\<open>state.go\<close>), the functions that
  read a label off a response (\<open>statefn.go\<close>), the normalisation of responses
  (\<open>normalise.go\<close>) and the observer that builds the trace of a session
  (\<open>observer.go\<close>). A Go string is its bytes, so a label is a list of bytes and labels
  are ordered as Go orders strings. The screen normalisers, which work on runes, are
  not modelled.
\<close>

section \<open>Labels and transitions\<close>

type_synonym label = "byte list"

definition bytes_of :: "string \<Rightarrow> byte list" where
  "bytes_of s = map of_char s"

definition Unknown :: label where "Unknown = [63]"
definition Closed :: label where "Closed = [99, 108, 111, 115, 101, 100]"
definition Start :: label where "Start = [115, 116, 97, 114, 116]"

datatype transition = Transition (From: label) (To: label)

text \<open>The order \<open>sortedTransitions\<close> sorts by: the source first, then the destination.\<close>

instantiation transition :: linorder
begin

definition less_transition :: "transition \<Rightarrow> transition \<Rightarrow> bool" where
  "s < t \<longleftrightarrow> (if From s \<noteq> From t then From s < From t else To s < To t)"

definition less_eq_transition :: "transition \<Rightarrow> transition \<Rightarrow> bool" where
  "s \<le> t \<longleftrightarrow> s = t \<or> s < (t :: transition)"

instance
  by standard
    (auto simp: less_transition_def less_eq_transition_def transition.expand split: if_splits
      dest: less_asym intro: less_trans)

end

definition Transition_String :: "transition \<Rightarrow> byte list" where
  "Transition_String t = From t @ [45, 62] @ To t"

section \<open>Traces\<close>

record trace =
  States :: "label list"

definition NewTrace :: trace where
  "NewTrace = \<lparr>States = [Start]\<rparr>"

definition Observe :: "label \<Rightarrow> trace \<Rightarrow> trace" where
  "Observe l t = t\<lparr>States := States t @ [if l = [] then Unknown else l]\<rparr>"

definition Trace_Reset :: "trace \<Rightarrow> trace" where
  "Trace_Reset t = t\<lparr>States := [Start]\<rparr>"

definition Current :: "trace \<Rightarrow> label" where
  "Current t = (if States t = [] then Start else last (States t))"

definition Trace_Len :: "trace \<Rightarrow> nat" where
  "Trace_Len t = (if States t = [] then 0 else length (States t) - 1)"

fun moves :: "label list \<Rightarrow> transition list" where
  "moves (a # b # ls) = Transition a b # moves (b # ls)"
| "moves _ = []"

definition Transitions :: "trace \<Rightarrow> transition list" where
  "Transitions t = moves (States t)"

definition Reached :: "label \<Rightarrow> trace \<Rightarrow> bool" where
  "Reached l t = list_ex (\<lambda>s. s = l) (States t)"

text \<open>The loop of \<open>IndexOf\<close> starts at the second state and returns the index of a message.\<close>

fun index_after :: "nat \<Rightarrow> label \<Rightarrow> label list \<Rightarrow> int" where
  "index_after i l [] = -1"
| "index_after i l (s # ss) = (if s = l then int i - 1 else index_after (Suc i) l ss)"

definition IndexOf :: "label \<Rightarrow> trace \<Rightarrow> int" where
  "IndexOf l t = index_after 1 l (drop 1 (States t))"

definition sortedLabels :: "(label \<times> nat) list \<Rightarrow> label list" where
  "sortedLabels m = sort (map fst m)"

definition sortedTransitions :: "(transition \<times> nat) list \<Rightarrow> transition list" where
  "sortedTransitions m = sort (map fst m)"

section \<open>Normalisation\<close>

datatype normaliser = CollapseDigits | CollapseQuoted | CollapseSpace | TruncateAfter int

definition digit_byte :: "byte \<Rightarrow> bool" where
  "digit_byte c \<longleftrightarrow> 48 \<le> c \<and> c \<le> 57"

fun collapse_digits :: "bool \<Rightarrow> byte list \<Rightarrow> byte list" where
  "collapse_digits inRun [] = []"
| "collapse_digits inRun (c # b) =
     (if digit_byte c then (if inRun then collapse_digits True b else 35 # collapse_digits True b)
      else c # collapse_digits False b)"

fun collapse_quoted :: "byte \<Rightarrow> byte list \<Rightarrow> byte list" where
  "collapse_quoted q [] = []"
| "collapse_quoted q (c # b) =
     (if q = 0 \<and> (c = 34 \<or> c = 39) then c # 36 # collapse_quoted c b
      else if q \<noteq> 0 \<and> c = q then c # collapse_quoted 0 b
      else if q \<noteq> 0 then collapse_quoted q b
      else c # collapse_quoted q b)"

text \<open>\<open>unicode.IsSpace\<close> of a byte taken as a rune.\<close>

definition space_byte :: "byte \<Rightarrow> bool" where
  "space_byte c \<longleftrightarrow> 9 \<le> c \<and> c \<le> 13 \<or> c = 32 \<or> c = 0x85 \<or> c = 0xA0"

fun collapse_space :: "bool \<Rightarrow> bool \<Rightarrow> byte list \<Rightarrow> byte list" where
  "collapse_space inRun started [] = []"
| "collapse_space inRun started (c # b) =
     (if space_byte c then collapse_space True started b
      else (if inRun \<and> started then [32] else []) @ c # collapse_space False True b)"

fun Normalise :: "normaliser \<Rightarrow> byte list \<Rightarrow> byte list" where
  "Normalise CollapseDigits b = collapse_digits False b"
| "Normalise CollapseQuoted b = collapse_quoted 0 b"
| "Normalise CollapseSpace b = collapse_space False False b"
| "Normalise (TruncateAfter n) b = (if n \<le> 0 \<or> int (length b) \<le> n then b else take (nat n) b)"

definition DefaultNormalisers :: "normaliser list" where
  "DefaultNormalisers = [CollapseDigits, CollapseQuoted, CollapseSpace]"

definition normalise_all :: "normaliser list \<Rightarrow> byte list \<Rightarrow> byte list" where
  "normalise_all ns b = fold Normalise ns b"

section \<open>State functions\<close>

datatype state_fn =
    StatusFn "byte list"
  | FingerprintFn "normaliser list" bool
  | ConstantFn label

definition maxWordStatus :: nat where "maxWordStatus = 12"

definition firstLine :: "byte list \<Rightarrow> byte list" where
  "firstLine b = takeWhile (\<lambda>c. \<not> (c = 10 \<or> c = 13)) b"

definition blank :: "byte \<Rightarrow> bool" where "blank c \<longleftrightarrow> c = 32 \<or> c = 9"

definition leadingToken :: "byte list \<Rightarrow> byte list" where
  "leadingToken s = takeWhile (\<lambda>c. \<not> blank c) (dropWhile blank s)"

text \<open>Whether \<open>strconv.Atoi\<close> accepts a token: an optional sign and digits whose value fits.\<close>

definition decimal_value :: "byte list \<Rightarrow> int" where
  "decimal_value ds = foldl (\<lambda>v d. 10 * v + (uint d - 48)) 0 ds"

definition Atoi_ok :: "byte list \<Rightarrow> bool" where
  "Atoi_ok s =
     (let neg = (s \<noteq> [] \<and> hd s = 45);
          ds = (if s \<noteq> [] \<and> (hd s = 45 \<or> hd s = 43) then tl s else s)
      in ds \<noteq> [] \<and> list_all digit_byte ds \<and>
         fits_int (if neg then - decimal_value ds else decimal_value ds))"

definition Status_Label :: "byte list \<Rightarrow> byte list \<Rightarrow> label" where
  "Status_Label pre resp =
     (let line = firstLine resp
      in if line = [] then []
         else if pre \<noteq> [] \<and> \<not> prefix pre line then []
         else let line = (if pre \<noteq> [] then dropWhile (\<lambda>c. c = 32) (drop (length pre) line) else line);
                  tok = leadingToken line
              in if tok = [] then []
                 else if \<not> Atoi_ok tok \<and> length tok > maxWordStatus then []
                 else tok)"

text \<open>A length rounded down to a power of two.\<close>

function length_bucket :: "nat \<Rightarrow> nat \<Rightarrow> nat" where
  "length_bucket n b = (if b = 0 \<or> \<not> b \<le> n div 2 then b else length_bucket n (b * 2))"
  by pat_completeness auto
termination
  by (relation "measure (\<lambda>(n, b). n - b)") auto

declare length_bucket.simps [simp del]

fun hex_nat :: "nat \<Rightarrow> byte list" where
  "hex_nat n =
     (let d = (if n mod 16 < 10 then of_nat (48 + n mod 16) else of_nat (87 + n mod 16))
      in if n < 16 then [d] else hex_nat (n div 16) @ [d])"

declare hex_nat.simps [simp del]

definition Fingerprint_Label :: "normaliser list \<Rightarrow> bool \<Rightarrow> byte list \<Rightarrow> label" where
  "Fingerprint_Label ns buckets resp =
     (if resp = [] then []
      else let h = fnv_write (normalise_all ns resp) offset64;
               h = (if buckets then fnv_write (le64_bytes (of_nat (length_bucket (length resp) 1))) h else h)
           in 102 # hex_nat (unat (h AND 0xFFFFFF)))"

fun Label :: "state_fn \<Rightarrow> byte list \<Rightarrow> label" where
  "Label (StatusFn pre) resp = Status_Label pre resp"
| "Label (FingerprintFn ns buckets) resp = Fingerprint_Label ns buckets resp"
| "Label (ConstantFn l) resp = l"

definition FnNamed :: "byte list \<Rightarrow> state_fn" where
  "FnNamed name =
     (if name = bytes_of ''status'' then StatusFn []
      else if name = bytes_of ''http'' then StatusFn (bytes_of ''HTTP/1.1'')
      else if name = bytes_of ''constant'' \<or> name = bytes_of ''none'' then ConstantFn (bytes_of ''any'')
      else FingerprintFn DefaultNormalisers False)"

section \<open>The observer\<close>

definition DefaultMaxExemplar :: nat where "DefaultMaxExemplar = 256"

record observer =
  obName :: "byte list"
  obFn :: state_fn
  obTrace :: trace
  exemplars :: "(label \<times> byte list) list"
  maxExemplar :: nat

definition NewObserver :: "byte list \<Rightarrow> state_fn option \<Rightarrow> observer" where
  "NewObserver name fn =
     \<lparr>obName = name, obFn = (case fn of None \<Rightarrow> ConstantFn (bytes_of ''any'') | Some f \<Rightarrow> f),
      obTrace = NewTrace, exemplars = [], maxExemplar = DefaultMaxExemplar\<rparr>"

definition Observer_Reset :: "observer \<Rightarrow> observer" where
  "Observer_Reset ob = ob\<lparr>obTrace := Trace_Reset (obTrace ob), exemplars := []\<rparr>"

definition Observer_Post :: "exit_kind \<Rightarrow> observer \<Rightarrow> observer" where
  "Observer_Post ek ob = (if IsFault ek then ob\<lparr>obTrace := Observe Closed (obTrace ob)\<rparr> else ob)"

definition Hangup :: "observer \<Rightarrow> observer" where
  "Hangup ob = ob\<lparr>obTrace := Observe Closed (obTrace ob)\<rparr>"

definition Response :: "byte list \<Rightarrow> observer \<Rightarrow> observer" where
  "Response resp ob =
     (let l = Label (obFn ob) resp;
          l = (if l = [] then Unknown else l);
          ob = ob\<lparr>obTrace := Observe l (obTrace ob)\<rparr>
      in if map_of (exemplars ob) l = None \<and> resp \<noteq> []
         then ob\<lparr>exemplars := (l, take (min (length resp) (maxExemplar ob)) resp) # exemplars ob\<rparr>
         else ob)"

section \<open>Normalising twice\<close>

lemma digits_gone: "c \<in> set (collapse_digits r b) \<Longrightarrow> \<not> digit_byte c"
  by (induction r b rule: collapse_digits.induct) (auto simp: digit_byte_def split: if_splits)

lemma digits_fixed: "\<forall>c \<in> set b. \<not> digit_byte c \<Longrightarrow> collapse_digits r b = b"
  by (induction b arbitrary: r) auto

lemma quoted_chars: "set (collapse_quoted q b) \<subseteq> insert 36 (set b)"
  by (induction q b rule: collapse_quoted.induct) auto

lemma space_chars: "set (collapse_space r st b) \<subseteq> insert 32 (set b)"
  by (induction r st b rule: collapse_space.induct) auto

text \<open>The texts \<open>CollapseQuoted\<close> leaves alone: inside quotes there is the marker and nothing else.\<close>

inductive quoted :: "byte \<Rightarrow> byte list \<Rightarrow> bool" where
  quoted_Nil: "quoted q []"
| quoted_plain: "c \<noteq> 34 \<Longrightarrow> c \<noteq> 39 \<Longrightarrow> quoted 0 b \<Longrightarrow> quoted 0 (c # b)"
| quoted_open: "c = 34 \<or> c = 39 \<Longrightarrow> quoted c b \<Longrightarrow> quoted 0 (c # 36 # b)"
| quoted_close: "c = 34 \<or> c = 39 \<Longrightarrow> quoted 0 b \<Longrightarrow> quoted c (c # b)"

lemma quoted_out: "q = 0 \<or> q = 34 \<or> q = 39 \<Longrightarrow> quoted q (collapse_quoted q b)"
  by (induction q b rule: collapse_quoted.induct) (auto intro: quoted.intros)

lemma quoted_fixed: "quoted q b \<Longrightarrow> collapse_quoted q b = b"
  by (induction rule: quoted.induct) auto

lemma quoted_space:
  "quoted q b \<Longrightarrow> (q = 0 \<longrightarrow> quoted 0 (collapse_space r st b)) \<and> (q \<noteq> 0 \<longrightarrow> quoted q (collapse_space False True b))"
proof (induction arbitrary: r st rule: quoted.induct)
  case (quoted_plain c b)
  then show ?case by (auto intro!: quoted.intros)
next
  case (quoted_open c b)
  then show ?case by (auto simp: space_byte_def intro!: quoted.intros)
next
  case (quoted_close c b)
  then show ?case by (auto simp: space_byte_def intro!: quoted.intros)
qed (auto intro: quoted.intros)

lemma space_fixed_on: "collapse_space False True (collapse_space r st b) = collapse_space r st b"
  by (induction r st b rule: collapse_space.induct) (auto simp: space_byte_def)

lemma space_fixed: "collapse_space False False (collapse_space r False b) = collapse_space r False b"
  by (induction b arbitrary: r) (auto simp: space_fixed_on)

text \<open>The normalisation a fingerprint is taken of is a projection: normalising a normalised
  response changes nothing, and no digit survives it.\<close>

lemma normalise_projection:
  "normalise_all DefaultNormalisers (normalise_all DefaultNormalisers b) = normalise_all DefaultNormalisers b \<and>
   list_all (\<lambda>c. \<not> digit_byte c) (normalise_all DefaultNormalisers b)"
proof -
  let ?n = "collapse_space False False (collapse_quoted 0 (collapse_digits False b))"
  have n: "normalise_all DefaultNormalisers x = collapse_space False False (collapse_quoted 0 (collapse_digits False x))" for x
    by (simp add: normalise_all_def DefaultNormalisers_def)
  have free: "\<forall>c \<in> set ?n. \<not> digit_byte c"
  proof
    fix c assume "c \<in> set ?n"
    then have "c = 32 \<or> c = 36 \<or> c \<in> set (collapse_digits False b)"
      using space_chars [of False False] quoted_chars [of 0] by fastforce
    then show "\<not> digit_byte c" using digits_gone by (auto simp: digit_byte_def)
  qed
  have "collapse_digits False ?n = ?n" using digits_fixed [OF free] .
  moreover have "collapse_quoted 0 ?n = ?n"
    using quoted_space [OF quoted_out [of 0 "collapse_digits False b"], of False False] by (auto intro: quoted_fixed)
  moreover have "collapse_space False False ?n = ?n" by (rule space_fixed)
  ultimately show ?thesis using free unfolding n by (simp add: list_all_iff)
qed

section \<open>The trace of a session\<close>

definition state_of :: "state_fn \<Rightarrow> byte list \<Rightarrow> label" where
  "state_of fn resp = (if Label fn resp = [] then Unknown else Label fn resp)"

definition after_session :: "byte list list \<Rightarrow> observer \<Rightarrow> observer" where
  "after_session rs ob = fold Response rs (Observer_Reset ob)"

lemma Response_fields:
  "obFn (Response r ob) = obFn ob" "maxExemplar (Response r ob) = maxExemplar ob"
  "States (obTrace (Response r ob)) = States (obTrace ob) @ [state_of (obFn ob) r]"
  by (auto simp: Response_def Let_def Observe_def state_of_def Unknown_def)

lemma fold_Response:
  "obFn (fold Response rs ob) = obFn ob \<and> maxExemplar (fold Response rs ob) = maxExemplar ob \<and>
   States (obTrace (fold Response rs ob)) = States (obTrace ob) @ map (state_of (obFn ob)) rs"
  by (induction rs arbitrary: ob) (auto simp: Response_fields)

lemma session_states: "States (obTrace (after_session rs ob)) = Start # map (state_of (obFn ob)) rs"
  using fold_Response [of rs "Observer_Reset ob"] by (simp add: after_session_def Observer_Reset_def Trace_Reset_def)

lemma index_after_spec:
  "index_after i l ss = (if l \<in> set ss then int i - 1 + int (length (takeWhile (\<lambda>s. s \<noteq> l) ss)) else -1)"
  by (induction i l ss rule: index_after.induct) auto

lemma exemplars_fold:
  "map_of (exemplars (fold Response rs ob)) l =
     (case map_of (exemplars ob) l of Some x \<Rightarrow> Some x
      | None \<Rightarrow> map_option (take (maxExemplar ob)) (find (\<lambda>r. state_of (obFn ob) r = l \<and> r \<noteq> []) rs))"
proof (induction rs arbitrary: ob)
  case (Cons r rs)
  have "map_of (exemplars (Response r ob)) l =
      (case map_of (exemplars ob) l of Some x \<Rightarrow> Some x
       | None \<Rightarrow> if state_of (obFn ob) r = l \<and> r \<noteq> [] then Some (take (maxExemplar ob) r) else None)"
    by (auto simp: Response_def Let_def state_of_def min_def split: option.split)
  with Cons.IH [of "Response r ob"] show ?case
    by (auto simp: Response_fields split: option.splits)
qed (simp split: option.split)

text \<open>A session of n responses leaves a trace of n transitions from the start state; the index of
  a state is the first message that produced it, or minus one when none did; and the example kept
  for a state is the beginning of the first non-empty response with its label.\<close>

lemma Observer_session:
  "Trace_Len (obTrace (after_session rs ob)) = length rs \<and>
   map From (Transitions (obTrace (after_session rs ob))) = butlast (Start # map (state_of (obFn ob)) rs) \<and>
   map To (Transitions (obTrace (after_session rs ob))) = map (state_of (obFn ob)) rs \<and>
   IndexOf l (obTrace (after_session rs ob)) =
     (if l \<in> set (map (state_of (obFn ob)) rs)
      then int (length (takeWhile (\<lambda>r. state_of (obFn ob) r \<noteq> l) rs)) else -1) \<and>
   map_of (exemplars (after_session rs ob)) l =
     map_option (take (maxExemplar ob)) (find (\<lambda>r. state_of (obFn ob) r = l \<and> r \<noteq> []) rs)"
proof -
  have m: "map From (moves (a # ls)) = butlast (a # ls) \<and> map To (moves (a # ls)) = ls" for a :: label and ls
    by (induction ls arbitrary: a) auto
  have "map_of (exemplars (after_session rs ob)) l =
     map_option (take (maxExemplar ob)) (find (\<lambda>r. state_of (obFn ob) r = l \<and> r \<noteq> []) rs)"
    using exemplars_fold [of rs "Observer_Reset ob" l] by (simp add: after_session_def Observer_Reset_def)
  then show ?thesis
    using m [of Start "map (state_of (obFn ob)) rs"]
    by (simp add: Trace_Len_def Transitions_def IndexOf_def session_states index_after_spec takeWhile_map comp_def)
qed

end
