(* ===== verification/State_Model.thy ===== *)
theory State_Model
  imports State_Label
begin

text \<open>
  The protocol state machine a campaign learns, \<open>pkg/state/model.go\<close>: visit counts of
  states and transitions, the declared protocol and departures from it, examples and
  variants; and the feedback over it, \<open>pkg/state/feedback.go\<close>, which implements the
  leaf contract of the feedback stack. The Go maps are association lists with
  distinct keys; every report sorts them. The mutex serialises the operations, so each
  is one step.
\<close>

section \<open>The model\<close>

record model =
  declaredStates :: "label list"
  declaredMoves :: "transition list"
  visits :: "(label \<times> nat) list"
  taken :: "(transition \<times> nat) list"
  exemplar :: "(label \<times> byte list) list"
  variants :: "(label \<times> u64 list) list"
  outside :: "(transition \<times> nat) list"

definition maxVariants :: nat where "maxVariants = 16"

definition NewModel :: model where
  "NewModel = \<lparr>declaredStates = [], declaredMoves = [], visits = [], taken = [], exemplar = [], variants = [], outside = []\<rparr>"

text \<open>\<open>m[k]\<close> of a map of counts, and \<open>m[k]++\<close>.\<close>

definition tally_of :: "('k \<times> nat) list \<Rightarrow> 'k \<Rightarrow> nat" where
  "tally_of m k = (case map_of m k of None \<Rightarrow> 0 | Some n \<Rightarrow> n)"

definition increment :: "'k \<Rightarrow> ('k \<times> nat) list \<Rightarrow> ('k \<times> nat) list" where
  "increment k m = AList.update k (tally_of m k + 1) m"

definition Declare :: "label list \<Rightarrow> transition list \<Rightarrow> model \<Rightarrow> model" where
  "Declare ls ts m =
     (let ds = fold List.insert ls (List.insert Start (declaredStates m))
      in m\<lparr>declaredMoves := fold List.insert ts (declaredMoves m),
           declaredStates := fold (\<lambda>t ds. List.insert (To t) (List.insert (From t) ds)) ts ds\<rparr>)"

definition IsDeclared :: "model \<Rightarrow> bool" where
  "IsDeclared m \<longleftrightarrow> declaredMoves m \<noteq> []"

record novelty =
  NewStates :: nat
  NewTransitions :: nat
  Illegal :: "transition list"

definition novelty_Any :: "novelty \<Rightarrow> bool" where
  "novelty_Any n \<longleftrightarrow> NewStates n > 0 \<or> NewTransitions n > 0"

fun new_states :: "model \<Rightarrow> label list \<Rightarrow> label list \<Rightarrow> nat" where
  "new_states m found [] = 0"
| "new_states m found (s # ss) =
     (if s = Start then new_states m found ss
      else if tally_of (visits m) s = 0 \<and> s \<notin> set found then new_states m (s # found) ss + 1
      else new_states m found ss)"

fun new_moves :: "model \<Rightarrow> transition list \<Rightarrow> transition list \<Rightarrow> nat" where
  "new_moves m found [] = 0"
| "new_moves m found (t # ts) =
     (if tally_of (taken m) t = 0 \<and> t \<notin> set found then new_moves m (t # found) ts + 1
      else new_moves m found ts)"

definition inspect :: "trace \<Rightarrow> model \<Rightarrow> novelty" where
  "inspect t m =
     \<lparr>NewStates = new_states m [] (States t), NewTransitions = new_moves m [] (Transitions t),
      Illegal = filter (\<lambda>tr. IsDeclared m \<and> tr \<notin> set (declaredMoves m)) (Transitions t)\<rparr>"

definition hashBytes :: "byte list \<Rightarrow> u64" where
  "hashBytes b = fnv_write b offset64"

definition record_state :: "(label \<times> byte list) list \<Rightarrow> label \<Rightarrow> model \<Rightarrow> model" where
  "record_state exs s m =
     (if s = Start then m
      else
        let m = m\<lparr>visits := increment s (visits m)\<rparr>
        in case map_of exs s of
             None \<Rightarrow> m
           | Some ex \<Rightarrow>
               let m = (if map_of (exemplar m) s = None then m\<lparr>exemplar := AList.update s ex (exemplar m)\<rparr> else m);
                   heard = (case map_of (variants m) s of None \<Rightarrow> [] | Some hs \<Rightarrow> hs);
                   heard = (if length heard < maxVariants then List.insert (hashBytes ex) heard else heard)
               in m\<lparr>variants := AList.update s heard (variants m)\<rparr>)"

definition Record :: "trace \<Rightarrow> (label \<times> byte list) list \<Rightarrow> model \<Rightarrow> novelty \<times> model" where
  "Record t exs m =
     (let n = inspect t m;
          m = fold (record_state exs) (States t) m;
          m = m\<lparr>taken := fold increment (Transitions t) (taken m)\<rparr>;
          m = m\<lparr>outside := fold increment (Illegal n) (outside m)\<rparr>
      in (n, m))"

record model_coverage =
  mcStates :: nat
  mcTransitions :: nat
  mcDeclaredStates :: nat
  mcDeclaredTransitions :: nat
  mcIllegal :: nat

definition Model_Coverage :: "model \<Rightarrow> model_coverage" where
  "Model_Coverage m =
     \<lparr>mcStates = length (visits m), mcTransitions = length (taken m), mcDeclaredStates = length (declaredStates m),
      mcDeclaredTransitions = length (declaredMoves m), mcIllegal = length (outside m)\<rparr>"

definition Model_States :: "model \<Rightarrow> label list \<times> (label \<times> nat) list" where
  "Model_States m = (sortedLabels (visits m), visits m)"

definition Model_Transitions :: "model \<Rightarrow> transition list \<times> (transition \<times> nat) list" where
  "Model_Transitions m = (sortedTransitions (taken m), taken m)"

definition Model_Illegal :: "model \<Rightarrow> transition list \<times> (transition \<times> nat) list" where
  "Model_Illegal m = (sortedTransitions (outside m), outside m)"

definition Exemplar :: "model \<Rightarrow> label \<Rightarrow> byte list option" where
  "Exemplar m l = map_of (exemplar m) l"

definition Variants :: "model \<Rightarrow> label \<Rightarrow> nat" where
  "Variants m l = (case map_of (variants m) l of None \<Rightarrow> 0 | Some hs \<Rightarrow> length hs)"

definition Model_Size :: "model \<Rightarrow> nat" where
  "Model_Size m = length (visits m)"

text \<open>The insertion loop of \<open>Rarest\<close>: element \<open>j\<close> sinks while it is rarer than the one before it.\<close>

fun sink :: "(label \<Rightarrow> nat) \<Rightarrow> nat \<Rightarrow> label list \<Rightarrow> label list" where
  "sink cnt 0 ls = ls"
| "sink cnt (Suc j) ls =
     (if cnt (ls ! Suc j) < cnt (ls ! j) then sink cnt j (swap_at (Suc j) j ls) else ls)"

definition Rarest :: "int \<Rightarrow> model \<Rightarrow> label list" where
  "Rarest n m =
     (let (ls, counts) = Model_States m;
          ls = fold (sink (tally_of counts)) [1..<length ls] ls
      in if n > 0 \<and> int (length ls) > n then take (nat n) ls else ls)"

section \<open>The state feedback\<close>

record state_feedback =
  sfName :: string
  sfModel :: model
  pending :: "(trace \<times> (label \<times> byte list) list) option"
  pendingNov :: novelty

definition NewFeedback :: "string \<Rightarrow> model option \<Rightarrow> state_feedback" where
  "NewFeedback name m =
     \<lparr>sfName = name, sfModel = (case m of None \<Rightarrow> NewModel | Some m \<Rightarrow> m), pending = None,
      pendingNov = \<lparr>NewStates = 0, NewTransitions = 0, Illegal = []\<rparr>\<rparr>"

text \<open>The execution just observed is the trace and the examples of the observer.\<close>

definition State_IsInteresting :: "trace \<times> (label \<times> byte list) list \<Rightarrow> state_feedback \<Rightarrow> (bool \<times> nat) \<times> state_feedback" where
  "State_IsInteresting env f =
     (let nov = inspect (fst env) (sfModel f)
      in ((novelty_Any nov, NewStates nov + NewTransitions nov),
          f\<lparr>pending := Some env, pendingNov := nov\<rparr>))"

definition State_Append :: "state_feedback \<Rightarrow> state_feedback" where
  "State_Append f =
     (case pending f of
        None \<Rightarrow> f
      | Some (t, exs) \<Rightarrow> f\<lparr>sfModel := snd (Record t exs (sfModel f)), pending := None\<rparr>)"

definition State_Discard :: "state_feedback \<Rightarrow> state_feedback" where
  "State_Discard f = f\<lparr>pending := None\<rparr>"

section \<open>Counting\<close>

text \<open>\<open>counts m xs\<close>: the map holds how often each element occurs in the log.\<close>

definition counts :: "('k \<times> nat) list \<Rightarrow> 'k list \<Rightarrow> bool" where
  "counts m xs \<longleftrightarrow> distinct (map fst m) \<and> fst ` set m = set xs \<and> (\<forall>k. tally_of m k = count_list xs k)"

lemma counts_Nil: "counts [] []"
  by (simp add: counts_def tally_of_def)

lemma count_list_snoc: "count_list (xs @ [k]) x = (if x = k then count_list xs x + 1 else count_list xs x)"
  by (simp add: count_list_append)

lemma counts_increment: "counts m xs \<Longrightarrow> counts (increment k m) (xs @ [k])"
  by (auto simp: counts_def increment_def distinct_update dom_update tally_of_def update_conv' count_list_snoc)

lemma counts_fold: "counts m xs \<Longrightarrow> counts (fold increment ks m) (xs @ ks)"
proof (induction ks arbitrary: m xs)
  case (Cons k ks)
  from Cons.IH [OF counts_increment [OF Cons.prems]] show ?case by simp
qed simp

lemma counts_length: "counts m xs \<Longrightarrow> length m = card (set xs)"
  unfolding counts_def by (metis distinct_card length_map list.set_map)

lemma counts_tally: "counts m xs \<Longrightarrow> tally_of m k = count_list xs k"
  by (simp add: counts_def)

lemma record_states_visits:
  "visits (fold (record_state exs) ss m) = fold increment (filter (\<lambda>s. s \<noteq> Start) ss) (visits m) \<and>
   taken (fold (record_state exs) ss m) = taken m \<and> outside (fold (record_state exs) ss m) = outside m \<and>
   declaredMoves (fold (record_state exs) ss m) = declaredMoves m"
proof (induction ss arbitrary: m)
  case (Cons s ss)
  have "visits (record_state exs s m) = (if s = Start then visits m else increment s (visits m)) \<and>
      taken (record_state exs s m) = taken m \<and> outside (record_state exs s m) = outside m \<and>
      declaredMoves (record_state exs s m) = declaredMoves m"
    by (auto simp: record_state_def Let_def split: option.split)
  with Cons.IH [of "record_state exs s m"] show ?case by simp
qed simp

definition few_variants :: "model \<Rightarrow> bool" where
  "few_variants m \<longleftrightarrow> (\<forall>l. Variants m l \<le> maxVariants)"

lemma record_state_variants:
  assumes "few_variants m"
  shows "few_variants (record_state exs s m)"
proof (cases "s = Start \<or> map_of exs s = None")
  case True
  with assms show ?thesis by (auto simp: record_state_def few_variants_def Variants_def Let_def)
next
  case False
  then obtain ex where ex: "map_of exs s = Some ex" "s \<noteq> Start" by auto
  let ?h = "case map_of (variants m) s of None \<Rightarrow> [] | Some hs \<Rightarrow> hs"
  obtain h where h: "h = (if length ?h < maxVariants then List.insert (hashBytes ex) ?h else ?h)" by blast
  have "length ?h = Variants m s" by (simp add: Variants_def split: option.split)
  then have "length h \<le> maxVariants" using assms by (simp add: h few_variants_def List.insert_def)
  moreover have "Variants (record_state exs s m) l = (if l = s then length h else Variants m l)" for l
    using ex by (simp add: record_state_def Let_def Variants_def update_conv' h)
  ultimately show ?thesis using assms by (simp add: few_variants_def)
qed

lemma record_states_variants: "few_variants m \<Longrightarrow> few_variants (fold (record_state exs) ss m)"
  by (induction ss arbitrary: m) (simp_all add: record_state_variants)

text \<open>
  How a model comes about: declarations and recorded sessions in any order. With
  the model goes what it was told: the sessions recorded, the moves declared so
  far, and the moves of the sessions that, when they were recorded, a protocol had
  been declared for and did not have.
\<close>

inductive model_reach :: "trace list \<Rightarrow> transition set \<Rightarrow> transition list \<Rightarrow> model \<Rightarrow> bool" where
  reach_new: "model_reach [] {} [] NewModel"
| reach_declare: "model_reach ts D ds m \<Longrightarrow> model_reach ts (D \<union> set ms) ds (Declare ls ms m)"
| reach_record: "model_reach ts D ds m \<Longrightarrow>
    model_reach (ts @ [t]) D (ds @ filter (\<lambda>tr. D \<noteq> {} \<and> tr \<notin> D) (Transitions t)) (snd (Record t exs m))"

lemma fold_insert_set: "distinct xs \<Longrightarrow> set (fold List.insert ys xs) = set xs \<union> set ys \<and> distinct (fold List.insert ys xs)"
  by (induction ys arbitrary: xs) auto

lemma model_reach_counts:
  assumes "model_reach ts D ds m"
  shows "counts (visits m) (filter (\<lambda>s. s \<noteq> Start) (concat (map States ts))) \<and>
    counts (taken m) (concat (map Transitions ts)) \<and> few_variants m \<and>
    set (declaredMoves m) = D \<and> distinct (declaredMoves m) \<and> counts (outside m) ds \<and>
    set ds \<subseteq> set (concat (map Transitions ts))"
  using assms
proof (induction rule: model_reach.induct)
  case reach_new
  show ?case by (simp add: NewModel_def counts_Nil few_variants_def Variants_def)
next
  case (reach_declare ts D ds m ms ls)
  then show ?case using fold_insert_set [of "declaredMoves m" ms]
    by (simp add: Declare_def Let_def few_variants_def Variants_def)
next
  case (reach_record ts D ds m t exs)
  have "few_variants (snd (Record t exs m))"
    using record_states_variants [of m exs "States t"] reach_record.IH
    by (simp add: Record_def Let_def few_variants_def Variants_def)
  moreover have "Illegal (inspect t m) = filter (\<lambda>tr. D \<noteq> {} \<and> tr \<notin> D) (Transitions t)"
    using reach_record.IH by (auto simp: inspect_def IsDeclared_def intro!: filter_cong)
  ultimately show ?case
    using reach_record.IH record_states_visits [of exs "States t" m]
    by (auto simp: Record_def Let_def counts_fold)
qed

text \<open>C19. However a model was built, it counts exactly the visits and the moves of the recorded sessions
  and exactly the departures: the moves which, when their session was recorded, were not among the
  moves declared so far. It keeps at most sixteen variants of a state, and its coverage numbers are the
  numbers of distinct states, moves, declared moves and departures.\<close>

theorem Model_counts:
  assumes "model_reach ts D ds m"
  shows "counts (visits m) (filter (\<lambda>s. s \<noteq> Start) (concat (map States ts))) \<and>
    counts (taken m) (concat (map Transitions ts)) \<and> counts (outside m) ds \<and> Variants m l \<le> maxVariants \<and>
    mcStates (Model_Coverage m) = card (set (concat (map States ts)) - {Start}) \<and>
    mcTransitions (Model_Coverage m) = card (set (concat (map Transitions ts))) \<and>
    mcDeclaredTransitions (Model_Coverage m) = card D \<and>
    mcIllegal (Model_Coverage m) = card (set ds) \<and> mcIllegal (Model_Coverage m) \<le> mcTransitions (Model_Coverage m)"
proof -
  note r = model_reach_counts [OF assms]
  then have "card (set ds) \<le> card (set (concat (map Transitions ts)))" by (intro card_mono) simp_all
  moreover have "length (declaredMoves m) = card D" using r by (metis distinct_card)
  moreover have "set (filter (\<lambda>s. s \<noteq> Start) xs) = set xs - {Start}" for xs by auto
  ultimately show ?thesis
    using r counts_length [of "visits m" "filter (\<lambda>s. s \<noteq> Start) (concat (map States ts))"]
      counts_length [of "taken m" "concat (map Transitions ts)"] counts_length [of "outside m" ds]
    by (simp add: Model_Coverage_def few_variants_def del: set_filter set_concat)
qed

section \<open>The rarest states\<close>

lemma sink_insert:
  assumes "sorted (map cnt pre)"
  shows "sink cnt (length pre) (pre @ x # post) =
    takeWhile (\<lambda>a. cnt a \<le> cnt x) pre @ x # dropWhile (\<lambda>a. cnt a \<le> cnt x) pre @ post"
  using assms
proof (induction pre arbitrary: post rule: rev_induct)
  case (snoc y pre)
  have at: "(pre @ y # x # post) ! length pre = y" "(pre @ y # x # post) ! Suc (length pre) = x"
    by (simp_all add: nth_append)
  have sw: "swap_at (Suc (length pre)) (length pre) (pre @ y # x # post) = pre @ x # y # post"
    unfolding swap_at_def at by (simp add: list_update_append)
  show ?case
  proof (cases "cnt x < cnt y")
    case True
    then have "sink cnt (length (pre @ [y])) ((pre @ [y]) @ x # post) = sink cnt (length pre) (pre @ x # y # post)"
      using at sw by simp
    also have "\<dots> = takeWhile (\<lambda>a. cnt a \<le> cnt x) pre @ x # dropWhile (\<lambda>a. cnt a \<le> cnt x) pre @ y # post"
      using snoc by (simp add: sorted_append)
    finally show ?thesis using True by (simp add: takeWhile_append dropWhile_append)
  next
    case False
    then have "\<forall>a \<in> set (pre @ [y]). cnt a \<le> cnt x" using snoc.prems by (fastforce simp: sorted_append)
    with False at show ?thesis by (simp add: takeWhile_eq_all_conv [THEN iffD2] dropWhile_eq_Nil_conv [THEN iffD2])
  qed
qed simp

lemma insert_between:
  fixes cnt :: "'a \<Rightarrow> nat"
  assumes "sorted (map cnt (l @ r))" and "\<forall>a \<in> set l. cnt a \<le> cnt x" and "\<forall>a \<in> set r. cnt x < cnt a"
  shows "sorted (map cnt (l @ x # r)) \<and> mset (l @ x # r) = mset ((l @ r) @ [x]) \<and>
    filter (\<lambda>a. cnt a = k) (l @ x # r) = filter (\<lambda>a. cnt a = k) ((l @ r) @ [x])"
proof -
  have "filter (\<lambda>a. cnt a = k) r = []" if "cnt x = k" using assms(3) that by (auto simp: filter_empty_conv)
  moreover have "sorted (map cnt (l @ x # r))" using assms by (auto simp: sorted_append less_imp_le)
  ultimately show ?thesis by auto
qed

lemma dropWhile_above:
  fixes cnt :: "'a \<Rightarrow> nat"
  assumes "sorted (map cnt pre)" and "a \<in> set (dropWhile (\<lambda>a. cnt a \<le> c) pre)"
  shows "c < cnt a"
  using assms by (induction pre) (auto split: if_split_asm intro: less_le_trans)

lemma insertion_step:
  fixes cnt :: "'a \<Rightarrow> nat"
  assumes "sorted (map cnt pre)"
    and ys: "ys = takeWhile (\<lambda>a. cnt a \<le> cnt x) pre @ x # dropWhile (\<lambda>a. cnt a \<le> cnt x) pre"
  shows "sorted (map cnt ys) \<and> mset ys = mset (pre @ [x]) \<and>
    filter (\<lambda>a. cnt a = k) ys = filter (\<lambda>a. cnt a = k) (pre @ [x])"
proof -
  obtain l r where lr: "l = takeWhile (\<lambda>a. cnt a \<le> cnt x) pre" "r = dropWhile (\<lambda>a. cnt a \<le> cnt x) pre" by blast
  then have pre: "pre = l @ r" by simp
  have "\<forall>a \<in> set l. cnt a \<le> cnt x" unfolding lr(1) by (auto dest: set_takeWhileD)
  moreover have "\<forall>a \<in> set r. cnt x < cnt a" unfolding lr(2) using dropWhile_above [OF assms(1)] by blast
  moreover have "ys = l @ x # r" unfolding ys lr by simp
  ultimately show ?thesis using insert_between [of cnt l r x k] assms(1) unfolding pre by blast
qed

lemma insertion_sort:
  assumes "k \<le> length ls" and "1 \<le> k"
  shows "\<exists>pre. fold (sink cnt) [1..<k] ls = pre @ drop k ls \<and> sorted (map cnt pre) \<and> mset pre = mset (take k ls) \<and>
    (\<forall>c. filter (\<lambda>a. cnt a = c) pre = filter (\<lambda>a. cnt a = c) (take k ls))"
  using assms
proof (induction k)
  case (Suc k)
  show ?case
  proof (cases "k = 0")
    case True
    with Suc.prems show ?thesis by (intro exI [of _ "take 1 ls"]) (cases ls; simp)
  next
    case False
    with Suc obtain pre where pre: "fold (sink cnt) [1..<k] ls = pre @ drop k ls" "sorted (map cnt pre)"
      "mset pre = mset (take k ls)" "\<forall>c. filter (\<lambda>a. cnt a = c) pre = filter (\<lambda>a. cnt a = c) (take k ls)" by auto
    have len: "length pre = k" using pre(3) Suc.prems(1) by (metis Suc_leD length_take min_absorb2 size_mset)
    have d: "drop k ls = ls ! k # drop (Suc k) ls" "take (Suc k) ls = take k ls @ [ls ! k]"
      using Suc.prems(1) by (simp_all add: Cons_nth_drop_Suc take_Suc_conv_app_nth)
    let ?ys = "takeWhile (\<lambda>a. cnt a \<le> cnt (ls ! k)) pre @ ls ! k # dropWhile (\<lambda>a. cnt a \<le> cnt (ls ! k)) pre"
    have "fold (sink cnt) [1..<Suc k] ls = sink cnt k (pre @ drop k ls)"
      using False pre(1) by simp
    also have "\<dots> = ?ys @ drop (Suc k) ls"
      using sink_insert [OF pre(2), of "ls ! k" "drop (Suc k) ls"] by (simp add: len d)
    finally have "fold (sink cnt) [1..<Suc k] ls = ?ys @ drop (Suc k) ls" .
    moreover have "sorted (map cnt ?ys) \<and> mset ?ys = mset (pre @ [ls ! k]) \<and>
        (\<forall>c. filter (\<lambda>a. cnt a = c) ?ys = filter (\<lambda>a. cnt a = c) (pre @ [ls ! k]))"
      using insertion_step [OF pre(2) refl, of "ls ! k"] by simp
    ultimately show ?thesis using pre(3,4) unfolding d by (intro exI [of _ ?ys]) simp
  qed
qed simp

text \<open>C20. The rarest states are the states in the order of their visit counts, equal counts in the
  order of their labels, cut to the number asked for.\<close>

theorem Rarest_sorted:
  "Rarest n m = (let ls = sort_key (tally_of (visits m)) (sort (map fst (visits m)))
     in if 0 < n then take (nat n) ls else ls)"
proof -
  let ?ls = "sort (map fst (visits m))" and ?cnt = "tally_of (visits m)"
  have "fold (sink ?cnt) [1..<length ?ls] ?ls = sort_key ?cnt ?ls"
  proof (cases "?ls = []")
    case False
    then have "1 \<le> length ?ls" by (cases "visits m") auto
    from insertion_sort [OF order_refl this, of ?cnt] obtain pre where
      pre: "fold (sink ?cnt) [1..<length ?ls] ?ls = pre @ drop (length ?ls) ?ls" "sorted (map ?cnt pre)"
        "mset pre = mset (take (length ?ls) ?ls)"
        "\<forall>c. filter (\<lambda>a. ?cnt a = c) pre = filter (\<lambda>a. ?cnt a = c) (take (length ?ls) ?ls)" by blast
    have "sort_key ?cnt ?ls = pre"
    proof (rule properties_for_sort_key)
      show "filter (\<lambda>x. ?cnt k = ?cnt x) pre = filter (\<lambda>x. ?cnt k = ?cnt x) ?ls" for k
        using pre(4) by (simp add: eq_commute [of "?cnt k"])
    qed (use pre in simp_all)
    with pre(1) show ?thesis by simp
  qed simp
  then show ?thesis by (simp add: Rarest_def Model_States_def sortedLabels_def Let_def)
qed

section \<open>The state feedback as a leaf\<close>

text \<open>Two kinds of leaves side by side: a stack may hold both.\<close>

definition sum_ops :: "('l1, 'e1) leaf_ops \<Rightarrow> ('l2, 'e2) leaf_ops \<Rightarrow> ('l1 + 'l2, 'e1 \<times> 'e2) leaf_ops" where
  "sum_ops p q = \<lparr>leaf_name = case_sum (leaf_name p) (leaf_name q),
     judge = (\<lambda>e l. case l of
        Inl a \<Rightarrow> apsnd Inl (judge p (fst e) a)
      | Inr b \<Rightarrow> apsnd Inr (judge q (snd e) b)),
     commit = map_sum (commit p) (commit q), rollback = map_sum (rollback p) (rollback q)\<rparr>"

definition either :: "('x \<Rightarrow> 'r) \<Rightarrow> ('y \<Rightarrow> 'r) \<Rightarrow> 'x + 'y \<Rightarrow> 'r" where
  "either f g s = (case s of Inl a \<Rightarrow> f a | Inr b \<Rightarrow> g b)"

lemma either_simps [simp]: "either f g (Inl a) = f a" "either f g (Inr b) = g b"
  by (simp_all add: either_def)

lemma sum_contract:
  fixes p :: "('l1, 'e1) leaf_ops" and q :: "('l2, 'e2) leaf_ops" and v1 :: "'l1 \<Rightarrow> 'a1" and v2 :: "'l2 \<Rightarrow> 'a2"
  assumes "leaf_contract p v1 i1 h1 n1" and "leaf_contract q v2 i2 h2 n2"
  shows "leaf_contract (sum_ops p q) (map_sum v1 v2) (\<lambda>e. either (i1 (fst e)) (i2 (snd e)))
     (\<lambda>e. either (h1 (fst e)) (h2 (snd e))) (\<lambda>e. map_sum (n1 (fst e)) (n2 (snd e)))"
proof
  fix e :: "'e1 \<times> 'e2" and l :: "'l1 + 'l2"
  assume i: "either (i1 (fst e)) (i2 (snd e)) l"
  show "\<exists>n l'. judge (sum_ops p q) e l =
      (Inr (either (h1 (fst e)) (h2 (snd e)) (map_sum v1 v2 l), n), l') \<and>
     either (i1 (fst e)) (i2 (snd e)) l' \<and> map_sum v1 v2 l' = map_sum v1 v2 l \<and>
     either (i1 (fst e)) (i2 (snd e)) (commit (sum_ops p q) l') \<and>
     map_sum v1 v2 (commit (sum_ops p q) l') = map_sum (n1 (fst e)) (n2 (snd e)) (map_sum v1 v2 l)"
  proof (cases l)
    case (Inl a)
    with i leaf_contract.judge_law [OF assms(1), of "fst e" a] show ?thesis
      by (fastforce simp: sum_ops_def)
  next
    case (Inr b)
    with i leaf_contract.judge_law [OF assms(2), of "snd e" b] show ?thesis
      by (fastforce simp: sum_ops_def)
  qed
next
  fix e :: "'e1 \<times> 'e2" and l :: "'l1 + 'l2"
  assume "either (i1 (fst e)) (i2 (snd e)) l"
  then show "either (i1 (fst e)) (i2 (snd e)) (rollback (sum_ops p q) l) \<and>
      map_sum v1 v2 (rollback (sum_ops p q) l) = map_sum v1 v2 l"
    using leaf_contract.rollback_law [OF assms(1)] leaf_contract.rollback_law [OF assms(2)]
    by (cases l) (auto simp: sum_ops_def)
next
  fix e :: "'e1 \<times> 'e2" and a :: "'a1 + 'a2"
  assume "\<not> either (h1 (fst e)) (h2 (snd e)) a"
  then show "map_sum (n1 (fst e)) (n2 (snd e)) a = a"
    using leaf_contract.quiet [OF assms(1)] leaf_contract.quiet [OF assms(2)] by (cases a) auto
qed

type_synonym session_env = "trace \<times> (label \<times> byte list) list"

definition state_ops :: "(state_feedback, session_env) leaf_ops" where
  "state_ops = \<lparr>leaf_name = sfName,
     judge = (\<lambda>env f. case State_IsInteresting env f of ((fires, n), f) \<Rightarrow> (Inr (fires, int n), f)),
     commit = State_Append, rollback = State_Discard\<rparr>"

text \<open>What a model knows, and what a session shows.\<close>

definition explored :: "state_feedback \<Rightarrow> label set \<times> transition set" where
  "explored f = ({l. 0 < tally_of (visits (sfModel f)) l}, {t. 0 < tally_of (taken (sfModel f)) t})"

definition shown_states :: "session_env \<Rightarrow> label set" where
  "shown_states env = set (States (fst env)) - {Start}"

definition shown_moves :: "session_env \<Rightarrow> transition set" where
  "shown_moves env = set (Transitions (fst env))"

lemma new_states_zero: "new_states m found ss = 0 \<longleftrightarrow> set ss - {Start} \<subseteq> {l. 0 < tally_of (visits m) l} \<union> set found"
  by (induction m found ss rule: new_states.induct) auto

lemma new_moves_zero: "new_moves m found ts = 0 \<longleftrightarrow> set ts \<subseteq> {t. 0 < tally_of (taken m) t} \<union> set found"
  by (induction m found ts rule: new_moves.induct) auto

lemma novelty_explored:
  "novelty_Any (inspect (fst env) (sfModel f)) \<longleftrightarrow>
     \<not> (shown_states env \<subseteq> fst (explored f) \<and> shown_moves env \<subseteq> snd (explored f))"
proof -
  have "0 < new_states (sfModel f) [] (States (fst env)) \<longleftrightarrow> \<not> shown_states env \<subseteq> fst (explored f)"
    using new_states_zero [of "sfModel f" "[]" "States (fst env)"] by (auto simp: explored_def shown_states_def)
  moreover have "0 < new_moves (sfModel f) [] (Transitions (fst env)) \<longleftrightarrow> \<not> shown_moves env \<subseteq> snd (explored f)"
    using new_moves_zero [of "sfModel f" "[]" "Transitions (fst env)"] by (auto simp: explored_def shown_moves_def)
  ultimately show ?thesis by (simp add: novelty_Any_def inspect_def)
qed

lemma tally_increment: "0 < tally_of (increment k m) x \<longleftrightarrow> x = k \<or> 0 < tally_of m x"
  by (simp add: tally_of_def increment_def update_conv')

lemma tally_increments: "0 < tally_of (fold increment ks m) x \<longleftrightarrow> x \<in> set ks \<or> 0 < tally_of m x"
  by (induction ks arbitrary: m) (auto simp: tally_increment)

lemma Record_explored:
  "{l. 0 < tally_of (visits (snd (Record (fst env) exs m))) l} = {l. 0 < tally_of (visits m) l} \<union> shown_states env"
  "{t. 0 < tally_of (taken (snd (Record (fst env) exs m))) t} = {t. 0 < tally_of (taken m) t} \<union> shown_moves env"
  using record_states_visits [of exs "States (fst env)" m]
  by (auto simp: Record_def Let_def tally_increments shown_states_def shown_moves_def)

definition session_new :: "session_env \<Rightarrow> label set \<times> transition set \<Rightarrow> bool" where
  "session_new env a \<longleftrightarrow> \<not> (shown_states env \<subseteq> fst a \<and> shown_moves env \<subseteq> snd a)"

definition session_learn :: "session_env \<Rightarrow> label set \<times> transition set \<Rightarrow> label set \<times> transition set" where
  "session_learn env a = (fst a \<union> shown_states env, snd a \<union> shown_moves env)"

interpretation sessions: leaf_contract state_ops explored "\<lambda>env f. True" session_new session_learn
proof
  fix env and f :: state_feedback
  let ?f = "f\<lparr>pending := Some env, pendingNov := inspect (fst env) (sfModel f)\<rparr>"
  have j: "judge state_ops env f = (Inr (session_new env (explored f),
      int (NewStates (inspect (fst env) (sfModel f)) + NewTransitions (inspect (fst env) (sfModel f)))), ?f)"
    using novelty_explored [of env f]
    by (simp add: state_ops_def State_IsInteresting_def Let_def session_new_def)
  have c: "explored (commit state_ops ?f) = session_learn env (explored f)"
    using Record_explored [of env "snd env" "sfModel f"]
    by (cases env) (simp add: state_ops_def State_Append_def explored_def session_learn_def)
  have e: "explored ?f = explored f" by (simp add: explored_def)
  from j c e show "\<exists>n l'. judge state_ops env f = (Inr (session_new env (explored f), n), l') \<and> True \<and>
      explored l' = explored f \<and> True \<and> explored (commit state_ops l') = session_learn env (explored f)" by blast
qed (auto simp: state_ops_def State_Discard_def explored_def session_new_def session_learn_def)

section \<open>A campaign guided by coverage and by states\<close>

type_synonym guided_leaf = "map_feedback + state_feedback"

definition guided_ops :: "(guided_leaf, byte list \<times> session_env) leaf_ops" where
  "guided_ops = sum_ops map_ops state_ops"

definition understood :: "guided_leaf \<Rightarrow> (nat \<times> nat) set + label set \<times> transition set" where
  "understood = map_sum known explored"

definition leaf_fits :: "byte list \<times> session_env \<Rightarrow> guided_leaf \<Rightarrow> bool" where
  "leaf_fits e = either (fits (fst e)) (\<lambda>f. True)"

definition surprising :: "byte list \<times> session_env \<Rightarrow> (nat \<times> nat) set + label set \<times> transition set \<Rightarrow> bool" where
  "surprising e = either (\<lambda>a. \<not> reached (fst e) \<subseteq> a) (session_new (snd e))"

definition absorb :: "byte list \<times> session_env \<Rightarrow> (nat \<times> nat) set + label set \<times> transition set \<Rightarrow>
    (nat \<times> nat) set + label set \<times> transition set" where
  "absorb e = map_sum (\<lambda>a. a \<union> reached (fst e)) (session_learn (snd e))"

interpretation guided: leaf_contract guided_ops understood leaf_fits surprising absorb
  using sum_contract [OF maps.leaf_contract_axioms sessions.leaf_contract_axioms]
  by (simp add: guided_ops_def understood_def leaf_fits_def surprising_def absorb_def [abs_def]
      leaf_fits_def [abs_def] surprising_def [abs_def])

lemma guided_good: "guided.good e f \<longleftrightarrow> (\<forall>l \<in> set (leaves f). leaf_fits e l)"
  by (simp add: guided.good_def)

lemma guided_quiet: "\<not> surprising e a \<Longrightarrow> absorb e a = a"
  by (rule guided.quiet)

text \<open>A campaign that keeps an input for new coverage or for a new state keeps it exactly when the
  execution showed one of the two, and afterwards it knows everything the execution reached and
  every state and move of its session, whichever of the two made it keep the input.\<close>

lemma guided_any_learns:
  assumes "fits b c"
  shows "\<exists>n f. turn guided_ops (b, env) (AnyOf [Leaf (Inl c), Leaf (Inr s)]) =
      (Inr (\<not> reached b \<subseteq> known c \<or> session_new env (explored s), n), f) \<and>
    shape understood f = AnyOf [Leaf (Inl (known c \<union> reached b)), Leaf (Inr (session_learn env (explored s)))]"
proof -
  let ?e = "(b, env)" and ?f = "AnyOf [Leaf (Inl c), Leaf (Inr s)] :: guided_leaf feedback"
  have v: "understood (Inl c) = Inl (known c)" "understood (Inr s) = Inr (explored s)" by (simp_all add: understood_def)
  have h: "surprising ?e (Inl (known c)) \<longleftrightarrow> \<not> reached b \<subseteq> known c"
    "surprising ?e (Inr (explored s)) \<longleftrightarrow> session_new env (explored s)" by (simp_all add: surprising_def)
  have a: "absorb ?e (Inl (known c)) = Inl (known c \<union> reached b)"
    "absorb ?e (Inr (explored s)) = Inr (session_learn env (explored s))" by (simp_all add: absorb_def)
  have q: "known c \<union> reached b = known c" if "reached b \<subseteq> known c" using that by auto
  have q': "session_learn env (explored s) = explored s" if "\<not> session_new env (explored s)"
    using sessions.quiet that by blast
  have "guided.good ?e ?f" using assms by (simp add: AnyOf_def leaf_fits_def)
  from guided.turn_ok [OF this] obtain n f where t:
    "turn guided_ops ?e ?f = (Inr (holds (surprising ?e) (shape understood ?f), n), f)"
    "shape understood f = (if holds (surprising ?e) (shape understood ?f)
       then learnt (surprising ?e) (absorb ?e) (shape understood ?f) else shape understood ?f)" by blast
  have "holds (surprising ?e) (shape understood ?f) \<longleftrightarrow> \<not> reached b \<subseteq> known c \<or> session_new env (explored s)"
    by (simp add: AnyOf_def v h)
  moreover have "shape understood f = AnyOf [Leaf (Inl (known c \<union> reached b)), Leaf (Inr (session_learn env (explored s)))]"
    unfolding t(2) using q q'
    by (cases "reached b \<subseteq> known c"; cases "session_new env (explored s)") (simp_all add: AnyOf_def v h a)
  ultimately show ?thesis using t(1) by simp
qed

section \<open>The properties at concrete inputs\<close>

definition ex_trace :: trace where
  "ex_trace = Observe [50] (Observe [49] NewTrace)"

text \<open>A protocol in which state 49 is entered from the start; the session goes on to 50.\<close>

definition ex_declared :: model where
  "ex_declared = Declare [] [Transition Start [49]] NewModel"

lemma ex_reach:
  "model_reach [ex_trace, ex_trace] {Transition Start [49]} [Transition [49] [50], Transition [49] [50]]
     (snd (Record ex_trace [] (snd (Record ex_trace [] ex_declared))))"
proof -
  let ?D = "{} \<union> set [Transition Start [49]]"
  let ?ds = "filter (\<lambda>tr. ?D \<noteq> {} \<and> tr \<notin> ?D) (Transitions ex_trace)"
  have "model_reach (([] @ [ex_trace]) @ [ex_trace]) ?D (([] @ ?ds) @ ?ds)
      (snd (Record ex_trace [] (snd (Record ex_trace [] ex_declared))))"
    unfolding ex_declared_def by (intro reach_record reach_declare reach_new)
  moreover have "?ds = [Transition [49] [50]]" by code_simp
  ultimately show ?thesis by simp
qed

theorem Model_counts_witness:
  "mcStates (Model_Coverage (snd (Record ex_trace [] (snd (Record ex_trace [] ex_declared))))) = 2 \<and>
   mcIllegal (Model_Coverage (snd (Record ex_trace [] (snd (Record ex_trace [] ex_declared))))) = 1"
proof -
  have "set (concat (map States [ex_trace, ex_trace])) - {Start} = {[49], [50]}"
    by (auto simp: ex_trace_def Observe_def NewTrace_def Start_def)
  with Model_counts [OF ex_reach] show ?thesis by simp
qed

lemma guided_any_learns_witness:
  "\<exists>n f. turn guided_ops ([1, 1], (ex_trace, [])) (AnyOf [Leaf (Inl ex_leaf), Leaf (Inr (NewFeedback [] None))]) =
     (Inr (True, n), f)"
proof -
  have "\<not> reached [1, 1] \<subseteq> known ex_leaf"
  proof
    assume "reached [1, 1] \<subseteq> known ex_leaf"
    moreover have "(1, 0) \<in> reached [1, 1]" by (simp add: reached_def bucketOf_def)
    moreover have "(1, 0) \<notin> known ex_leaf" by (simp add: known_def seen_def ex_leaf_def)
    ultimately show False by blast
  qed
  with guided_any_learns [OF ex_leaf_fits(1), of "(ex_trace, [])" "NewFeedback [] None"] show ?thesis by auto
qed

end
