(* ===== verification/State_Sched.thy ===== *)
theory State_Sched
  imports State_Model Corpus_Distill
begin

text \<open>
  Scheduling by state, \<open>pkg/state/schedule.go\<close> and \<open>guidance.go\<close>: which corpus entry to
  fuzz, which message of its session to change, and the cache of traces both read. The
  probabilities are rationals, the constants those of the doubles nearest to 0.7 and 0.8.
  The guidance keeps the observer, the model and the scheduler in one record.
\<close>

section \<open>The trace store\<close>

record trace_store =
  traces :: "(digest \<times> trace) list"
  maxTraces :: int

definition DefaultTraceStoreSize :: int where "DefaultTraceStoreSize = 4096"

definition NewTraceStore :: trace_store where
  "NewTraceStore = \<lparr>traces = [], maxTraces = DefaultTraceStoreSize\<rparr>"

definition Store_Put :: "digest \<Rightarrow> trace option \<Rightarrow> trace_store \<Rightarrow> trace_store" where
  "Store_Put d t s =
     (case t of
        None \<Rightarrow> s
      | Some t \<Rightarrow>
          let s = (if int (length (traces s)) \<ge> maxTraces s then s\<lparr>traces := []\<rparr> else s)
          in s\<lparr>traces := AList.update d t (traces s)\<rparr>)"

definition Store_Get :: "digest \<Rightarrow> trace_store \<Rightarrow> trace option" where
  "Store_Get d s = map_of (traces s) d"

definition Store_Len :: "trace_store \<Rightarrow> nat" where
  "Store_Len s = length (traces s)"

section \<open>Choosing a state, an entry and a message\<close>

record state_sched =
  Explore :: rat
  RareStates :: int
  TailBias :: rat

definition DefaultExplore :: rat where "DefaultExplore = 6305039478318694 / 2 ^ 53"
definition DefaultRareStates :: int where "DefaultRareStates = 8"
definition DefaultTailBias :: rat where "DefaultTailBias = 7205759403792794 / 2 ^ 53"

definition NewStateSched :: state_sched where
  "NewStateSched = \<lparr>Explore = DefaultExplore, RareStates = DefaultRareStates, TailBias = DefaultTailBias\<rparr>"

definition rareDivisor :: int where "rareDivisor = 3"
definition minRareStates :: int where "minRareStates = 2"

definition rareCount :: "state_sched \<Rightarrow> model \<Rightarrow> int" where
  "rareCount s m =
     (let n = int (Model_Size m)
      in if n \<le> 0 then RareStates s
         else let tail = (n + rareDivisor - 1) div rareDivisor;
                  tail = (if tail < minRareStates then minRareStates else tail)
              in if RareStates s > 0 \<and> tail > RareStates s then RareStates s else tail)"

definition pickState :: "state_sched \<Rightarrow> model \<Rightarrow> rand \<Rightarrow> (label \<times> rand) option" where
  "pickState s m r =
     (let rare = Rarest (rareCount s m) m
      in if rare = [] then Some ([], r)
         else do {
           (i, r) \<leftarrow> Intn (int (length rare)) r;
           l \<leftarrow> get_at rare i;
           Some (l, r)
         })"

record aim =
  Seed :: int
  AimState :: label

definition no_aim :: aim where "no_aim = \<lparr>Seed = 0, AimState = []\<rparr>"

text \<open>The entries whose last trace reached the target, by index.\<close>

definition candidates :: "trace_store \<Rightarrow> corpus \<Rightarrow> label \<Rightarrow> int list" where
  "candidates ts c target =
     map int (filter (\<lambda>i. case Store_Get (ID (entries c ! i)) ts of None \<Rightarrow> False | Some t \<Rightarrow> Reached target t)
       [0..<Len c])"

definition PickSeed :: "state_sched \<Rightarrow> model \<Rightarrow> trace_store \<Rightarrow> corpus \<Rightarrow> rand \<Rightarrow> ((aim \<times> bool) \<times> rand) option" where
  "PickSeed s m ts c r =
     (if Len c = 0 \<or> Store_Len ts = 0 then Some ((no_aim, False), r)
      else
        let (go, r) = Chance (Explore s) r
        in if \<not> go then Some ((no_aim, False), r)
           else do {
             (target, r) \<leftarrow> pickState s m r;
             if target = [] then Some ((no_aim, False), r)
             else
               let cands = candidates ts c target
               in if cands = [] then Some ((no_aim, False), r)
                  else do {
                    (i, r) \<leftarrow> Intn (int (length cands)) r;
                    seed \<leftarrow> get_at cands i;
                    Some ((\<lparr>Seed = seed, AimState = target\<rparr>, True), r)
                  }
           })"

record choice =
  Message :: int
  Aimed :: label

definition anywhere :: "int \<Rightarrow> rand \<Rightarrow> (choice \<times> rand) option" where
  "anywhere messages r = do { (i, r) \<leftarrow> Intn messages r; Some (\<lparr>Message = i, Aimed = []\<rparr>, r) }"

definition aim_at :: "state_sched \<Rightarrow> trace \<Rightarrow> int \<Rightarrow> label \<Rightarrow> rand \<Rightarrow> (choice \<times> rand) option" where
  "aim_at s t messages target r =
     (let pos = IndexOf target t
      in if pos < 0 then anywhere messages r
         else
           let pos = (if pos \<ge> messages then messages - 1 else pos);
               (onward, r) = (if pos = 0 then (True, r) else Chance (TailBias s) r)
           in if onward
              then do { (i, r) \<leftarrow> Intn (messages - pos) r; Some (\<lparr>Message = pos + i, Aimed = target\<rparr>, r) }
              else do { (i, r) \<leftarrow> Intn pos r; Some (\<lparr>Message = i, Aimed = target\<rparr>, r) })"

definition State_Pick :: "state_sched \<Rightarrow> model \<Rightarrow> trace option \<Rightarrow> int \<Rightarrow> label \<Rightarrow> rand \<Rightarrow> (choice \<times> rand) option" where
  "State_Pick s m t messages goal r =
     (if messages \<le> 0 then Some (\<lparr>Message = -1, Aimed = []\<rparr>, r)
      else case t of
             None \<Rightarrow> anywhere messages r
           | Some t \<Rightarrow>
               if Trace_Len t = 0 then anywhere messages r
               else if goal \<noteq> [] then aim_at s t messages goal r
               else
                 let (go, r) = Chance (Explore s) r
                 in if \<not> go then anywhere messages r
                    else do {
                      (target, r) \<leftarrow> pickState s m r;
                      if target = [] then anywhere messages r else aim_at s t messages target r
                    })"

definition Messages :: "node option \<Rightarrow> nat" where
  "Messages n =
     (case n of None \<Rightarrow> 0 | Some n \<Rightarrow> if Kind (hdr n) = KindRepeat then length (Children n) else 1)"

definition SessionOf :: "node option \<Rightarrow> node option" where
  "SessionOf n = (case n of None \<Rightarrow> None | Some n \<Rightarrow> if Kind (hdr n) = KindRepeat then Some n else None)"

section \<open>Guidance\<close>

record guidance =
  gObserver :: observer
  gModel :: model
  gSched :: state_sched
  gTraces :: trace_store
  SequenceRate :: rat

definition DefaultSequenceRate :: rat where "DefaultSequenceRate = 1 / 4"

definition NewGuidance :: "state_fn \<Rightarrow> guidance" where
  "NewGuidance fn =
     \<lparr>gObserver = NewObserver (bytes_of ''state'') (Some fn), gModel = NewModel, gSched = NewStateSched,
      gTraces = NewTraceStore, SequenceRate = DefaultSequenceRate\<rparr>"

text \<open>The subtree to mutate, as the path to it from the root of the input.\<close>

definition Guidance_Target :: "guidance option \<Rightarrow> aim \<Rightarrow> digest \<Rightarrow> node option \<Rightarrow> rand \<Rightarrow> ((nat list \<times> label) \<times> rand) option" where
  "Guidance_Target g goal parent tree r =
     (case g of
        None \<Rightarrow> Some (([], []), r)
      | Some g \<Rightarrow>
          (case SessionOf tree of
             None \<Rightarrow> Some (([], []), r)
           | Some session \<Rightarrow>
               if Children session = [] then Some (([], []), r)
               else
                 let (whole, r) = Chance (SequenceRate g) r
                 in if whole then Some (([], []), r)
                    else do {
                      (c, r) \<leftarrow> State_Pick (gSched g) (gModel g) (Store_Get parent (gTraces g))
                        (int (length (Children session))) (AimState goal) r;
                      if Message c < 0 \<or> Message c \<ge> int (length (Children session)) then Some (([], []), r)
                      else Some (([nat (Message c)], Aimed c), r)
                    }))"

definition Guidance_Seed :: "guidance option \<Rightarrow> corpus \<Rightarrow> rand \<Rightarrow> ((aim \<times> bool) \<times> rand) option" where
  "Guidance_Seed g c r =
     (case g of None \<Rightarrow> Some ((no_aim, False), r) | Some g \<Rightarrow> PickSeed (gSched g) (gModel g) (gTraces g) c r)"

definition Guidance_Record :: "digest \<Rightarrow> guidance \<Rightarrow> guidance" where
  "Guidance_Record d g = g\<lparr>gTraces := Store_Put d (Some (obTrace (gObserver g))) (gTraces g)\<rparr>"

definition HasTrace :: "digest \<Rightarrow> guidance option \<Rightarrow> bool" where
  "HasTrace d g = (case g of None \<Rightarrow> False | Some g \<Rightarrow> Store_Get d (gTraces g) \<noteq> None)"

definition Guidance_Declare :: "transition list \<Rightarrow> guidance \<Rightarrow> guidance" where
  "Guidance_Declare ms g = (if ms = [] then g else g\<lparr>gModel := Declare [] ms (gModel g)\<rparr>)"

section \<open>The store is a bounded cache\<close>

text \<open>The trace store returns what was put last, never holds more than its bound, and putting into
  a full store, also under a digest it already holds, forgets every other trace.\<close>

lemma Store_Put_cache:
  assumes "1 \<le> maxTraces s" and "distinct (map fst (traces s))" and "int (Store_Len s) \<le> maxTraces s"
  shows "Store_Get d' (Store_Put d (Some t) s) =
      (if d' = d then Some t else if int (Store_Len s) = maxTraces s then None else Store_Get d' s) \<and>
    distinct (map fst (traces (Store_Put d (Some t) s))) \<and>
    int (Store_Len (Store_Put d (Some t) s)) \<le> maxTraces s \<and> maxTraces (Store_Put d (Some t) s) = maxTraces s"
proof -
  have len: "length (AList.update d t xs) \<le> length xs + 1" for xs :: "(digest \<times> trace) list"
    by (induction xs) auto
  show ?thesis
    using assms len [of "traces s"]
    by (auto simp: Store_Put_def Store_Get_def Store_Len_def Let_def update_conv' distinct_update)
qed

section \<open>Choices are in range\<close>

lemma anywhere_ok: "0 < messages \<Longrightarrow> messages < 2 ^ 63 \<Longrightarrow> (\<And>i r'. 0 \<le> i \<Longrightarrow> i < messages \<Longrightarrow> Q (\<lparr>Message = i, Aimed = []\<rparr>, r')) \<Longrightarrow>
    ok (anywhere messages r) Q"
  unfolding anywhere_def by (intro wp) auto

lemma aim_at_ok:
  assumes "0 < messages" and "messages < 2 ^ 63"
  shows "ok (aim_at s t messages target r) (\<lambda>(c, r'). 0 \<le> Message c \<and> Message c < messages \<and>
    Aimed c = (if IndexOf target t < 0 then [] else target))"
proof (cases "IndexOf target t < 0")
  case True
  then show ?thesis unfolding aim_at_def Let_def using assms by (simp, intro anywhere_ok) auto
next
  case False
  obtain pos where pos: "pos = (if IndexOf target t \<ge> messages then messages - 1 else IndexOf target t)" by blast
  obtain onward r1 where g: "(if pos = 0 then (True, r) else Chance (TailBias s) r) = (onward, r1)" by fastforce
  have b: "0 \<le> pos" "pos < messages" using False assms by (auto simp: pos)
  have "aim_at s t messages target r =
      (if onward then do { (i, r) \<leftarrow> Intn (messages - pos) r1; Some (\<lparr>Message = pos + i, Aimed = target\<rparr>, r) }
       else do { (i, r) \<leftarrow> Intn pos r1; Some (\<lparr>Message = i, Aimed = target\<rparr>, r) })"
    using False unfolding aim_at_def Let_def pos [symmetric] g by simp
  moreover have "pos \<noteq> 0" if "\<not> onward" using g that by auto
  ultimately show ?thesis
    using b assms(2) False by (cases onward) (auto intro!: wp)
qed

lemma Rarest_visits: "l \<in> set (Rarest n m) \<Longrightarrow> l \<in> fst ` set (visits m)"
  using set_take_subset by (fastforce simp: Rarest_sorted Let_def split: if_split_asm)

lemma length_Rarest: "length (Rarest n m) \<le> length (visits m)"
  by (simp add: Rarest_sorted Let_def)

lemma pickState_ok:
  assumes "int (Model_Size m) < 2 ^ 63"
  shows "ok (pickState s m r) (\<lambda>(l, r'). l = [] \<or> l \<in> fst ` set (visits m))"
proof (cases "Rarest (rareCount s m) m = []")
  case False
  have "int (length (Rarest (rareCount s m) m)) < 2 ^ 63"
    using assms length_Rarest [of "rareCount s m" m] by (simp add: Model_Size_def)
  moreover have "Rarest (rareCount s m) m ! i \<in> fst ` set (visits m)" if "i < length (Rarest (rareCount s m) m)" for i
    using Rarest_visits [OF nth_mem [OF that]] .
  ultimately show ?thesis
    using False unfolding pickState_def Let_def by (simp, intro wp) (auto intro!: wp simp: nat_less_iff)
qed (simp add: pickState_def)

text \<open>A session of n messages always gets a message below n to change, never a panic; the choice
  names a state only when that state is the one it was asked to aim for, or, when it was asked for
  none, a state of the model, and the session's trace has reached it.\<close>

lemma State_Pick_in_range:
  assumes "0 < messages" and "messages < 2 ^ 63" and "int (Model_Size m) < 2 ^ 63"
  shows "ok (State_Pick s m t messages goal r) (\<lambda>(c, r'). 0 \<le> Message c \<and> Message c < messages \<and>
    (Aimed c \<noteq> [] \<longrightarrow> (if goal \<noteq> [] then Aimed c = goal else Aimed c \<in> fst ` set (visits m)) \<and>
       (\<exists>tr. t = Some tr \<and> IndexOf (Aimed c) tr \<ge> 0)))"
proof (cases "t = None \<or> Trace_Len (the t) = 0")
  case True
  then show ?thesis
    unfolding State_Pick_def using assms by (cases t) (auto intro!: anywhere_ok)
next
  case False
  then obtain tr where t: "t = Some tr" "Trace_Len tr \<noteq> 0" by auto
  have aim: "ok (aim_at s tr messages target r1) (\<lambda>(c, r'). 0 \<le> Message c \<and> Message c < messages \<and>
      (Aimed c \<noteq> [] \<longrightarrow> P (Aimed c) \<and> IndexOf (Aimed c) tr \<ge> 0))" if "P target" for P target r1
    by (rule ok_mono [OF aim_at_ok [OF assms(1,2)]]) (use that in \<open>auto split: if_split_asm\<close>)
  have go: "State_Pick s m t messages goal r =
      (if goal \<noteq> [] then aim_at s tr messages goal r
       else case Chance (Explore s) r of (go, r) \<Rightarrow>
              if \<not> go then anywhere messages r
              else do { (target, r) \<leftarrow> pickState s m r;
                        if target = [] then anywhere messages r else aim_at s tr messages target r })"
    using t assms(1) by (simp add: State_Pick_def Let_def split_beta)
  show ?thesis
  proof (cases "goal = []")
    case False
    then show ?thesis unfolding go unfolding t(1) using aim [of "\<lambda>l. l = goal" goal r] by (auto elim!: ok_mono)
  next
    case True
    have "ok (do { (target, r) \<leftarrow> pickState s m r1;
              if target = [] then anywhere messages r else aim_at s tr messages target r })
       (\<lambda>(c, r'). 0 \<le> Message c \<and> Message c < messages \<and>
         (Aimed c \<noteq> [] \<longrightarrow> Aimed c \<in> fst ` set (visits m) \<and> IndexOf (Aimed c) tr \<ge> 0))" for r1
    proof (intro ok_bind ok_mono [OF pickState_ok [OF assms(3)]])
      fix a :: "label \<times> rand" assume "case a of (l, r') \<Rightarrow> l = [] \<or> l \<in> fst ` set (visits m)"
      then show "ok (case a of (target, r) \<Rightarrow> if target = [] then anywhere messages r else aim_at s tr messages target r)
         (\<lambda>(c, r'). 0 \<le> Message c \<and> Message c < messages \<and>
           (Aimed c \<noteq> [] \<longrightarrow> Aimed c \<in> fst ` set (visits m) \<and> IndexOf (Aimed c) tr \<ge> 0))"
        using aim [of "\<lambda>l. l \<in> fst ` set (visits m)"] assms(1,2)
        by (cases a) (auto intro!: anywhere_ok)
    qed
    then show ?thesis unfolding go unfolding t(1) using True assms(1,2)
      by (auto intro!: ok_prod anywhere_ok elim!: ok_mono)
  qed
qed

section \<open>An aim is honoured\<close>

lemma candidates_mem:
  assumes "i \<in> set (candidates ts c target)"
  shows "0 \<le> i \<and> i < int (Len c) \<and> (\<exists>t. Store_Get (ID (entries c ! nat i)) ts = Some t \<and> Reached target t)"
  using assms by (auto simp: candidates_def split: option.split_asm)

lemma get_at_mem: "get_at xs i = Some x \<Longrightarrow> x \<in> set xs"
  by (auto simp: get_at_def nat_less_iff split: if_split_asm intro!: nth_mem)

lemma pickState_visits: "pickState s m r = Some (l, r') \<Longrightarrow> l \<noteq> [] \<Longrightarrow> l \<in> fst ` set (visits m)"
  by (auto simp: pickState_def Let_def bind_eq_Some_conv split: if_split_asm dest!: get_at_mem Rarest_visits)

lemma PickSeed_aim:
  assumes "PickSeed s m ts c r = Some ((a, True), r')"
  shows "0 \<le> Seed a \<and> Seed a < int (Len c) \<and> AimState a \<in> fst ` set (visits m) \<and> AimState a \<noteq> [] \<and>
    (\<exists>t. Store_Get (ID (entries c ! nat (Seed a))) ts = Some t \<and> Reached (AimState a) t)"
proof -
  from assms obtain target r1 r2 i where p: "pickState s m r1 = Some (target, r2)" "target \<noteq> []"
    "get_at (candidates ts c target) i = Some (Seed a)" "AimState a = target"
    by (auto simp: PickSeed_def Let_def bind_eq_Some_conv split: if_split_asm prod.split_asm)
  then have "Seed a \<in> set (candidates ts c target)"
    by (auto dest: get_at_mem)
  from candidates_mem [OF this] p(2,4) pickState_visits [OF p(1,2)] show ?thesis by simp
qed

lemma Reached_IndexOf: "Reached l t \<Longrightarrow> l \<noteq> Start \<Longrightarrow> hd (States t) = Start \<Longrightarrow> 0 \<le> IndexOf l t"
  by (cases "States t") (auto simp: Reached_def IndexOf_def index_after_spec list_ex_iff)

lemma visits_not_Start: "model_reach ts D ds m \<Longrightarrow> Start \<notin> fst ` set (visits m)"
  using model_reach_counts [of ts D ds m] by (simp add: counts_def)

text \<open>The two halves of a decision agree: when the seed was chosen for a state, its session gets
  either a mutation of the whole sequence or a message chosen for that very state, which the
  entry's last trace reached; nothing panics and the message exists.\<close>

lemma aim_honoured:
  assumes "model_reach ts D ds (gModel g)" and "int (Model_Size (gModel g)) < 2 ^ 63"
    and "list_all (\<lambda>(d, t). hd (States t) = Start \<and> Trace_Len t \<noteq> 0) (traces (gTraces g))"
    and "Guidance_Seed (Some g) c r = Some ((a, True), r')"
    and "int (length (Children n)) < 2 ^ 63"
  shows "ok (Guidance_Target (Some g) a (ID (entries c ! nat (Seed a))) (Some n) r1) (\<lambda>((path, l), r2).
    path = [] \<and> l = [] \<or>
    l = AimState a \<and> (\<exists>i < length (Children n). path = [i]) \<and>
    (\<exists>t. Store_Get (ID (entries c ! nat (Seed a))) (gTraces g) = Some t \<and> Reached l t))"
proof -
  let ?d = "ID (entries c ! nat (Seed a))"
  from assms(4) PickSeed_aim obtain t where t: "AimState a \<in> fst ` set (visits (gModel g))" "AimState a \<noteq> []"
    "Store_Get ?d (gTraces g) = Some t" "Reached (AimState a) t" by (fastforce simp: Guidance_Seed_def)
  have "(?d, t) \<in> set (traces (gTraces g))" using t(3) by (auto simp: Store_Get_def dest: map_of_SomeD)
  then have tr: "hd (States t) = Start" "Trace_Len t \<noteq> 0" using assms(3) by (auto simp: list_all_iff)
  have idx: "0 \<le> IndexOf (AimState a) t"
    using Reached_IndexOf [OF t(4) _ tr(1)] visits_not_Start [OF assms(1)] t(1) by metis
  have pick: "ok (State_Pick (gSched g) (gModel g) (Some t) (int (length (Children n))) (AimState a) r2)
      (\<lambda>(c, r'). 0 \<le> Message c \<and> Message c < int (length (Children n)) \<and> Aimed c = AimState a)"
    if "Children n \<noteq> []" for r2
    using aim_at_ok [of "int (length (Children n))" "gSched g" t "AimState a" r2] that assms(5) tr(2) t(2) idx
    by (simp add: State_Pick_def)
  show ?thesis
  proof (cases "Kind (hdr n) = KindRepeat \<and> Children n \<noteq> []")
    case False
    then show ?thesis by (auto simp: Guidance_Target_def SessionOf_def)
  next
    case True
    then have "Guidance_Target (Some g) a ?d (Some n) r1 =
       (case Chance (SequenceRate g) r1 of (whole, r) \<Rightarrow>
          if whole then Some (([], []), r)
          else do {
            (c, r) \<leftarrow> State_Pick (gSched g) (gModel g) (Some t) (int (length (Children n))) (AimState a) r;
            if Message c < 0 \<or> Message c \<ge> int (length (Children n)) then Some (([], []), r)
            else Some (([nat (Message c)], Aimed c), r)
          })"
      by (simp add: Guidance_Target_def SessionOf_def Let_def t(3) cong: if_cong)
    then show ?thesis
      using True t(3,4) by (auto intro!: ok_prod ok_bind ok_mono [OF pick] simp: nat_less_iff)
  qed
qed

section \<open>The properties at concrete inputs\<close>

definition ex_store :: trace_store where
  "ex_store = \<lparr>traces = [([1], ex_trace), ([2], ex_trace)], maxTraces = 2\<rparr>"

lemma Store_Put_cache_witness:
  "Store_Get [2] (Store_Put [1] (Some ex_trace) ex_store) = None \<and>
   Store_Get [1] (Store_Put [1] (Some ex_trace) ex_store) = Some ex_trace"
  using Store_Put_cache [of ex_store "[2]" "[1]" ex_trace] Store_Put_cache [of ex_store "[1]" "[1]" ex_trace]
  by (simp add: ex_store_def Store_Len_def)

lemma State_Pick_in_range_witness:
  "\<exists>c r'. State_Pick NewStateSched NewModel (Some ex_trace) 3 [50] (Rng.New 7) = Some (c, r') \<and> 0 \<le> Message c \<and> Message c < 3"
proof -
  have "int (Model_Size NewModel) < 2 ^ 63" by (simp add: Model_Size_def NewModel_def)
  from okE [OF State_Pick_in_range [OF _ _ this, of 3 NewStateSched "Some ex_trace" "[50]" "Rng.New 7"]]
  show ?thesis by (simp, metis (mono_tags, lifting) case_prodE)
qed

definition ex_guidance :: guidance where
  "ex_guidance = \<lparr>gObserver = NewObserver [] None, gModel = snd (Record ex_trace [] NewModel),
     gSched = \<lparr>Explore = 1, RareStates = 8, TailBias = 1 / 2\<rparr>,
     gTraces = \<lparr>traces = [([2, 3, 4], ex_trace)], maxTraces = 4\<rparr>, SequenceRate = 0\<rparr>"

definition ex_session :: node where
  "ex_session = Node \<lparr>Kind = KindRepeat, Width = 0, Endian = BigEndian, flags = 0, Sel = 0, Val = 0, Name = [], Raw = [],
     MinLen = 0, MaxLen = 0, Derive = None, Target = None\<rparr> (replicate 3 (Node \<lparr>Kind = KindBytes, Width = 0, Endian = BigEndian,
       flags = 0, Sel = 0, Val = 0, Name = [], Raw = [], MinLen = 0, MaxLen = 0, Derive = None, Target = None\<rparr> []))"

lemma ex_rare: "Rarest (rareCount (gSched ex_guidance) (gModel ex_guidance)) (gModel ex_guidance) = [[49], [50]]"
  by code_simp

lemma ex_entries_corpus: "entries ex_corpus = ex_entries"
  by code_simp

lemma ex_candidates: "l \<in> {[49], [50]} \<Longrightarrow> candidates (gTraces ex_guidance) ex_corpus l = [1]"
  by (auto simp: candidates_def ex_entries_corpus Len_def ex_entries_def ex_tc_def NewTestcase_def ex_guidance_def
    Store_Get_def Reached_def ex_trace_def Observe_def NewTrace_def Start_def upt_rec)

lemma ex_seed:
  "\<exists>a r. Guidance_Seed (Some ex_guidance) ex_corpus (Rng.New 7) = Some ((a, True), r) \<and> Seed a = 1"
proof -
  have "ok (pickState (gSched ex_guidance) (gModel ex_guidance) r) (\<lambda>(l, r). l \<in> {[49], [50]})" for r
    by (auto simp: pickState_def ex_rare Let_def get_at_def nat_less_iff nth_Cons' intro!: ok_bind ok_prod ok_Intn)
  then obtain l r where l: "pickState (gSched ex_guidance) (gModel ex_guidance) (Rng.New 7) = Some (l, r)" "l \<in> {[49], [50]}"
    by (fastforce elim!: okE)
  from Intn_ex [of 1 r] obtain r' where "Intn 1 r = Some (0, r')" by (auto dest: Intn_1)
  moreover have "Len ex_corpus \<noteq> 0" "Store_Len (gTraces ex_guidance) \<noteq> 0" "Explore (gSched ex_guidance) = 1"
    by (simp_all add: Len_def ex_entries_corpus ex_entries_def Store_Len_def ex_guidance_def)
  ultimately show ?thesis using l
    by (auto simp: Guidance_Seed_def PickSeed_def Chance_def ex_candidates get_at_def)
qed

lemma aim_honoured_witness:
  "\<exists>a r path l r2. Guidance_Seed (Some ex_guidance) ex_corpus (Rng.New 7) = Some ((a, True), r) \<and>
     Guidance_Target (Some ex_guidance) a [2, 3, 4] (Some ex_session) (Rng.New 9) = Some ((path, l), r2) \<and>
     (path = [] \<and> l = [] \<or> l = AimState a \<and> length path = 1)"
proof -
  from ex_seed obtain a r where seed: "Guidance_Seed (Some ex_guidance) ex_corpus (Rng.New 7) = Some ((a, True), r)" "Seed a = 1"
    by blast
  have reach: "model_reach [ex_trace] {} [] (gModel ex_guidance)"
    using reach_record [OF reach_new, where t = ex_trace and exs = "[]"] by (simp add: ex_guidance_def)
  have n: "int (Model_Size (gModel ex_guidance)) < 2 ^ 63" by code_simp
  have tr: "list_all (\<lambda>(d, t). hd (States t) = Start \<and> Trace_Len t \<noteq> 0) (traces (gTraces ex_guidance))" by code_simp
  have len: "int (length (Children ex_session)) < 2 ^ 63" by (simp add: ex_session_def)
  have d: "ID (entries ex_corpus ! nat (Seed a)) = [2, 3, 4]"
    by (simp add: seed(2) ex_entries_corpus ex_entries_def ex_tc_def NewTestcase_def)
  from aim_honoured [OF reach n tr seed(1) len, of "Rng.New 9", unfolded d] show ?thesis
    using seed(1) by (fastforce elim!: okE)
qed

end
