(* ===== verification/Learn_Mealy.thy ===== *)
theory Learn_Mealy
  imports Rng "HOL-Library.AList" "HOL-Library.Sublist"
begin

text \<open>
  Active automata learning: the learned machine of \<open>pkg/learn/mealy.go\<close> and the learner of
  \<open>pkg/learn/lstar.go\<close>. A word is a list of symbols, a symbol the bytes of a Go string; the maps
  keyed by strings are association lists and partial functions. The target is a parameter, a function from a word
  and a world to an answer and the next world. The counters of the learner are unbounded
  here. An index outside a slice, possible when two words share a key, is \<open>None\<close>.
\<close>

type_synonym symbol = "byte list"
type_synonym query = "symbol list"

section \<open>The learned machine\<close>

record mealy =
  Inputs :: query \<comment> \<open>\<open>Alphabet\<close>\<close>
  Trans :: "(symbol \<times> nat) list list"
  Out :: "(symbol \<times> symbol) list list"
  Access :: "query list"

definition Mealy_States :: "mealy \<Rightarrow> nat" where
  "Mealy_States m = length (Trans m)"

text \<open>A successor outside the machine is the panic of the next index.\<close>

fun run_from :: "mealy \<Rightarrow> nat \<Rightarrow> query \<Rightarrow> query option" where
  "run_from m s [] = Some []"
| "run_from m s (a # w) =
     (if s \<ge> length (Out m) then None
      else case map_of (Out m ! s) a of
             None \<Rightarrow> do { out \<leftarrow> run_from m s w; Some ([] # out) }
           | Some x \<Rightarrow>
               if s \<ge> length (Trans m) then None
               else do {
                 out \<leftarrow> run_from m (case map_of (Trans m ! s) a of None \<Rightarrow> 0 | Some s' \<Rightarrow> s') w;
                 Some (x # out)
               })"

definition Run :: "mealy \<Rightarrow> query \<Rightarrow> query option" where
  "Run m w = run_from m 0 w"

text \<open>\<open>Transitions\<close> counts the rendered triples of a state, a symbol and an output.\<close>

fun decimal :: "nat \<Rightarrow> byte list" where
  "decimal n = (if n < 10 then [of_nat (48 + n)] else decimal (n div 10) @ [of_nat (48 + n mod 10)])"

declare decimal.simps [simp del]

definition rendered :: "nat \<Rightarrow> symbol \<times> symbol \<Rightarrow> byte list" where
  "rendered s = (\<lambda>(a, out). decimal s @ [47] @ a @ [47] @ out)"

definition Mealy_Transitions :: "mealy \<Rightarrow> nat" where
  "Mealy_Transitions m = card (set (concat (map (\<lambda>s. map (rendered s) (Out m ! s)) [0..<length (Out m)])))"

definition Reachable :: "mealy \<Rightarrow> query list" where
  "Reachable m = sort_key length (Access m)"

section \<open>Options, errors and the report\<close>

record options =
  Alphabet :: query
  MaxQueries :: int
  MaxStates :: int
  EquivalenceWords :: int
  MaxWordLength :: int
  Seed :: u64

definition DefaultMaxQueries :: int where "DefaultMaxQueries = 5000"
definition DefaultMaxStates :: int where "DefaultMaxStates = 32"
definition DefaultEquivalenceWords :: int where "DefaultEquivalenceWords = 200"
definition DefaultMaxWordLength :: int where "DefaultMaxWordLength = 12"

definition fill_options :: "options \<Rightarrow> options" where
  "fill_options o0 =
     (let o1 = (if MaxQueries o0 \<le> 0 then o0\<lparr>MaxQueries := DefaultMaxQueries\<rparr> else o0);
          o2 = (if MaxStates o1 \<le> 0 then o1\<lparr>MaxStates := DefaultMaxStates\<rparr> else o1);
          o3 = (if EquivalenceWords o2 \<le> 0 then o2\<lparr>EquivalenceWords := DefaultEquivalenceWords\<rparr> else o2)
      in if MaxWordLength o3 \<le> 0 then o3\<lparr>MaxWordLength := DefaultMaxWordLength\<rparr> else o3)"

definition maxRounds :: "options \<Rightarrow> int" where
  "maxRounds opts = MaxStates opts * int (length (Alphabet opts)) + 16"

datatype 'e learn_error =
    Budget \<comment> \<open>\<open>errBudget\<close>\<close>
  | Stopped \<comment> \<open>\<open>context.Canceled\<close> or \<open>DeadlineExceeded\<close>\<close>
  | WrongLength nat nat
  | TargetError 'e

datatype 'e why =
    Settled | ManyRounds nat | StatesCap | NotDeterministic | OutOfQueries | CampaignStopped | TargetSilent "'e learn_error"

record 'e learn_report =
  Queries :: nat
  Cached :: nat
  Rounds :: nat
  Checked :: nat
  Partial :: bool
  Why :: "'e why"

section \<open>The learner\<close>

text \<open>What the learner asks of its target and of its context.\<close>

record ('w, 'e) target =
  Output :: "bool \<Rightarrow> query \<Rightarrow> 'w \<Rightarrow> ('e learn_error + query) \<times> 'w" \<comment> \<open>the flag tells the caller's context from the background\<close>
  Expired :: "'w \<Rightarrow> bool" \<comment> \<open>whether the caller's context has ended\<close>

record 'w learner =
  access :: "query list" \<comment> \<open>\<open>s\<close>\<close>
  suffix_cols :: "query list" \<comment> \<open>\<open>e\<close>\<close>
  cache :: "byte list \<rightharpoonup> query"
  rows :: "byte list \<rightharpoonup> symbol list"
  queries :: nat
  cached :: nat
  world :: 'w

definition key :: "query \<Rightarrow> byte list" where
  "key w = (case w of [] \<Rightarrow> [] | a # as \<Rightarrow> a @ concat (map ((#) 0) as))"

definition ask :: "('w, 'e) target \<Rightarrow> options \<Rightarrow> bool \<Rightarrow> query \<Rightarrow> 'w learner \<Rightarrow> ('e learn_error + query) \<times> 'w learner" where
  "ask t opts ctx w l =
     (case cache l (key w) of
        Some out \<Rightarrow> (Inr out, l\<lparr>cached := cached l + 1\<rparr>)
      | None \<Rightarrow>
          if int (queries l) \<ge> MaxQueries opts then (Inl Budget, l)
          else if ctx \<and> Expired t (world l) then (Inl Stopped, l)
          else (case Output t ctx w (world l) of
             (Inl e, v) \<Rightarrow> (Inl e, l\<lparr>world := v\<rparr>)
           | (Inr out, v) \<Rightarrow>
               if length out \<noteq> length w then (Inl (WrongLength (length out) (length w)), l\<lparr>world := v\<rparr>)
               else (Inr out, l\<lparr>queries := queries l + 1, cache := (cache l)(key w \<mapsto> out), world := v\<rparr>)))"

fun row_cells :: "('w, 'e) target \<Rightarrow> options \<Rightarrow> bool \<Rightarrow> query \<Rightarrow> query list \<Rightarrow> 'w learner \<Rightarrow>
    (('e learn_error + symbol list) \<times> 'w learner) option" where
  "row_cells t opts ctx s [] l = Some (Inr [], l)"
| "row_cells t opts ctx s (e # es) l =
     (case ask t opts ctx (s @ e) l of
        (Inl err, l) \<Rightarrow> Some (Inl err, l)
      | (Inr res, l) \<Rightarrow>
          if length s > length res then None
          else do {
            (rest, l) \<leftarrow> row_cells t opts ctx s es l;
            Some (map_sum id (\<lambda>cells. key (drop (length s) res) # cells) rest, l)
          })"

definition row :: "('w, 'e) target \<Rightarrow> options \<Rightarrow> bool \<Rightarrow> query \<Rightarrow> 'w learner \<Rightarrow>
    (('e learn_error + symbol list) \<times> 'w learner) option" where
  "row t opts ctx s l =
     (case rows l (key s) of
        Some r \<Rightarrow> Some (Inr r, l)
      | None \<Rightarrow> do {
          (res, l) \<leftarrow> row_cells t opts ctx s (suffix_cols l) l;
          (case res of
             Inl e \<Rightarrow> Some (Inl e, l)
           | Inr out \<Rightarrow> Some (Inr out, l\<lparr>rows := (rows l)(key s \<mapsto> out)\<rparr>))
        })"

fun known_rows :: "('w, 'e) target \<Rightarrow> options \<Rightarrow> bool \<Rightarrow> query list \<Rightarrow> byte list set \<Rightarrow> 'w learner \<Rightarrow>
    (('e learn_error + byte list set) \<times> 'w learner) option" where
  "known_rows t opts ctx [] known l = Some (Inr known, l)"
| "known_rows t opts ctx (s # ss) known l = do {
     (res, l) \<leftarrow> row t opts ctx s l;
     (case res of
        Inl e \<Rightarrow> Some (Inl e, l)
      | Inr r \<Rightarrow> known_rows t opts ctx ss (insert (key r) known) l)
   }"

fun extend_rows :: "('w, 'e) target \<Rightarrow> options \<Rightarrow> bool \<Rightarrow> query list \<Rightarrow> byte list set \<Rightarrow> bool \<Rightarrow> 'w learner \<Rightarrow>
    (('e learn_error + bool) \<times> 'w learner) option" where
  "extend_rows t opts ctx [] known added l = Some (Inr added, l)"
| "extend_rows t opts ctx (ext # exts) known added l = do {
     (res, l) \<leftarrow> row t opts ctx ext l;
     (case res of
        Inl e \<Rightarrow> Some (Inl e, l)
      | Inr r \<Rightarrow>
          if key r \<in> known then extend_rows t opts ctx exts known added l
          else extend_rows t opts ctx exts (insert (key r) known) True (l\<lparr>access := access l @ [ext]\<rparr>))
   }"

definition extensions :: "query list \<Rightarrow> query \<Rightarrow> query list" where
  "extensions ss alphabet = concat (map (\<lambda>s. map (\<lambda>a. s @ [a]) alphabet) ss)"

text \<open>One pass of the closing loop.\<close>

definition close_pass :: "('w, 'e) target \<Rightarrow> options \<Rightarrow> bool \<Rightarrow> 'w learner \<Rightarrow> (('e learn_error + bool) \<times> 'w learner) option" where
  "close_pass t opts ctx l = do {
     (res, l) \<leftarrow> known_rows t opts ctx (access l) {} l;
     (case res of
        Inl e \<Rightarrow> Some (Inl e, l)
      | Inr known \<Rightarrow> extend_rows t opts ctx (extensions (access l) (Alphabet opts)) known False l)
   }"

lemma try_eq:
  "(case res of Inl e \<Rightarrow> Some (Inl e, l) | Inr x \<Rightarrow> f x) = Some (r, l') \<longleftrightarrow>
   (\<exists>e. res = Inl e \<and> r = Inl e \<and> l' = l) \<or> (\<exists>x. res = Inr x \<and> f x = Some (r, l'))"
  by (cases res) auto

lemma ask_access: "access (snd (ask t opts ctx w l)) = access l"
  by (auto simp: ask_def split: option.split sum.split prod.split)

lemma row_cells_access: "row_cells t opts ctx s es l = Some (res, l') \<Longrightarrow> access l' = access l"
proof (induction es arbitrary: l res l')
  case (Cons e es)
  obtain r l1 where a: "ask t opts ctx (s @ e) l = (r, l1)" by force
  then have "access l1 = access l" by (metis ask_access snd_conv)
  with Cons a show ?case by (cases r) (auto simp: bind_eq_Some_conv split: if_split_asm)
qed simp

lemma row_access: "row t opts ctx s l = Some (res, l') \<Longrightarrow> access l' = access l"
  by (auto simp: row_def bind_eq_Some_conv try_eq dest: row_cells_access split: option.split_asm)

lemma known_rows_access: "known_rows t opts ctx ss known l = Some (res, l') \<Longrightarrow> access l' = access l"
  by (induction ss arbitrary: known l) (auto simp: bind_eq_Some_conv try_eq dest: row_access)

lemma extend_rows_access:
  "extend_rows t opts ctx exts known added l = Some (Inr b, l') \<Longrightarrow>
   prefix (access l) (access l') \<and> (b \<longrightarrow> added \<or> length (access l) < length (access l'))"
proof (induction exts arbitrary: known added l)
  case (Cons e exts)
  then obtain res l1 where r: "row t opts ctx e l = Some (res, l1)" by (auto simp: bind_eq_Some_conv)
  then obtain x where x: "res = Inr x" using Cons.prems by (cases res) auto
  have a: "access l1 = access l" using r by (rule row_access)
  show ?case
  proof (cases "key x \<in> known")
    case True
    with Cons.IH [of known added l1] Cons.prems r x a show ?thesis by simp
  next
    case False
    with Cons.IH [of "insert (key x) known" True "l1\<lparr>access := access l1 @ [e]\<rparr>"] Cons.prems r x a
    have "prefix (access l @ [e]) (access l')" by simp
    then show ?thesis by (auto simp: prefix_def)
  qed
qed simp

lemma close_pass_grows:
  assumes "close_pass t opts ctx l = Some (Inr True, l')"
  shows "length (access l) < length (access l')"
proof -
  from assms obtain k l1 where "known_rows t opts ctx (access l) {} l = Some (Inr k, l1)"
    "extend_rows t opts ctx (extensions (access l1) (Alphabet opts)) k False l1 = Some (Inr True, l')"
    by (auto simp: close_pass_def bind_eq_Some_conv try_eq)
  from known_rows_access [OF this(1)] extend_rows_access [OF this(2)] show ?thesis by simp
qed

definition table_cap :: "options \<Rightarrow> int" where
  "table_cap opts = MaxStates opts * int (length (Alphabet opts)) + MaxStates opts"

function close :: "('w, 'e) target \<Rightarrow> options \<Rightarrow> bool \<Rightarrow> 'w learner \<Rightarrow> (('e learn_error option) \<times> 'w learner) option" where
  "close t opts ctx l =
     (case close_pass t opts ctx l of
        None \<Rightarrow> None
      | Some (Inl e, l) \<Rightarrow> Some (Some e, l)
      | Some (Inr added, l) \<Rightarrow>
          if \<not> added then Some (None, l)
          else if int (length (access l)) > table_cap opts then Some (Some Budget, l)
          else close t opts ctx l)"
  by pat_completeness auto

termination
  by (relation "measure (\<lambda>(t, opts, ctx, l). nat (table_cap opts + 1) - length (access l))")
     (auto dest!: close_pass_grows)

declare close.simps [simp del]

section \<open>The hypothesis\<close>

text \<open>The access words with a new row, each with the key of its row; a query that fails ends the scan.\<close>

fun representatives :: "('w, 'e) target \<Rightarrow> options \<Rightarrow> query list \<Rightarrow> (byte list \<times> query) list \<Rightarrow> 'w learner \<Rightarrow>
    ((byte list \<times> query) list \<times> 'w learner) option" where
  "representatives t opts [] reps l = Some (reps, l)"
| "representatives t opts (s # ss) reps l = do {
     (res, l) \<leftarrow> row t opts False s l;
     (case res of
        Inl _ \<Rightarrow> Some (reps, l)
      | Inr r \<Rightarrow> representatives t opts ss (if key r \<in> fst ` set reps then reps else reps @ [(key r, s)]) l)
   }"

definition position :: "(byte list \<times> query) list \<Rightarrow> byte list \<Rightarrow> nat option" where
  "position reps k = (let ks = takeWhile (\<lambda>p. fst p \<noteq> k) reps in if length ks < length reps then Some (length ks) else None)"

text \<open>The transitions and outputs of one state.\<close>

fun state_moves :: "('w, 'e) target \<Rightarrow> options \<Rightarrow> (byte list \<times> query) list \<Rightarrow> query \<Rightarrow> query \<Rightarrow>
    (symbol \<times> nat) list \<Rightarrow> (symbol \<times> symbol) list \<Rightarrow> 'w learner \<Rightarrow>
    (((symbol \<times> nat) list \<times> (symbol \<times> symbol) list) \<times> 'w learner) option" where
  "state_moves t opts reps s [] tr ou l = Some ((tr, ou), l)"
| "state_moves t opts reps s (a # as) tr ou l = do {
     (res, l) \<leftarrow> row t opts False (s @ [a]) l;
     (case res of
        Inl _ \<Rightarrow> state_moves t opts reps s as tr ou l
      | Inr r \<Rightarrow>
          let tr = AList.update a (case position reps (key r) of None \<Rightarrow> 0 | Some i \<Rightarrow> i) tr
          in (case ask t opts False (s @ [a]) l of
                (Inl _, l) \<Rightarrow> state_moves t opts reps s as tr ou l
              | (Inr out, l) \<Rightarrow>
                  if out = [] then None
                  else state_moves t opts reps s as tr (AList.update a (last out) ou) l))
   }"

fun all_moves :: "('w, 'e) target \<Rightarrow> options \<Rightarrow> (byte list \<times> query) list \<Rightarrow> query list \<Rightarrow> 'w learner \<Rightarrow>
    (((symbol \<times> nat) list list \<times> (symbol \<times> symbol) list list) \<times> 'w learner) option" where
  "all_moves t opts reps [] l = Some (([], []), l)"
| "all_moves t opts reps (s # ss) l = do {
     ((tr, ou), l) \<leftarrow> state_moves t opts reps s (Alphabet opts) [] [] l;
     ((trs, ous), l) \<leftarrow> all_moves t opts reps ss l;
     Some ((tr # trs, ou # ous), l)
   }"

definition hypothesis :: "('w, 'e) target \<Rightarrow> options \<Rightarrow> 'w learner \<Rightarrow> (mealy \<times> 'w learner) option" where
  "hypothesis t opts l = do {
     (reps, l) \<leftarrow> representatives t opts (access l) [] l;
     let reps = (if reps = [] then [([], [])] else reps);
     ((trs, ous), l) \<leftarrow> all_moves t opts reps (map snd reps) l;
     Some (\<lparr>Inputs = Alphabet opts, Trans = trs, Out = ous, Access = map snd reps\<rparr>, l)
   }"

section \<open>The search for a counterexample\<close>

fun draw_word :: "query \<Rightarrow> nat \<Rightarrow> rand \<Rightarrow> (query \<times> rand) option" where
  "draw_word alphabet 0 r = Some ([], r)"
| "draw_word alphabet (Suc n) r = do {
     (i, r) \<leftarrow> Intn (int (length alphabet)) r;
     a \<leftarrow> get_at alphabet i;
     (w, r) \<leftarrow> draw_word alphabet n r;
     Some (a # w, r)
   }"

text \<open>The first position at which the answers differ; an answer too short is an index out of range.\<close>

fun first_difference :: "nat \<Rightarrow> query \<Rightarrow> query \<Rightarrow> query \<Rightarrow> nat option option" where
  "first_difference k [] got want = Some None"
| "first_difference k (a # w) (g # got) (x # want) =
     (if g \<noteq> x then Some (Some k) else first_difference (Suc k) w got want)"
| "first_difference k (a # w) got want = None"

fun search :: "('w, 'e) target \<Rightarrow> options \<Rightarrow> mealy \<Rightarrow> nat \<Rightarrow> nat \<Rightarrow> rand \<Rightarrow> 'w learner \<Rightarrow>
    ((('e learn_error + query option) \<times> nat) \<times> rand \<times> 'w learner) option" where
  "search t opts m 0 checked r l = Some ((Inr None, checked), r, l)"
| "search t opts m (Suc n) checked r l = do {
     (k, r) \<leftarrow> Intn (MaxWordLength opts) r;
     (w, r) \<leftarrow> draw_word (Alphabet opts) (nat (1 + k)) r;
     (case ask t opts True w l of
        (Inl e, l) \<Rightarrow> Some ((Inl e, checked), r, l)
      | (Inr got, l) \<Rightarrow> do {
          want \<leftarrow> Run m w;
          d \<leftarrow> first_difference 0 w got want;
          (case d of
             Some k \<Rightarrow> Some ((Inr (Some (take (Suc k) w)), checked + 1), r, l)
           | None \<Rightarrow> search t opts m n (checked + 1) r l)
        })
   }"

definition findCounterexample :: "('w, 'e) target \<Rightarrow> options \<Rightarrow> mealy \<Rightarrow> rand \<Rightarrow> 'w learner \<Rightarrow>
    ((('e learn_error + query option) \<times> nat) \<times> rand \<times> 'w learner) option" where
  "findCounterexample t opts m r l = search t opts m (nat (EquivalenceWords opts)) 0 r l"

text \<open>Every suffix of the counterexample that is not a column yet becomes one.\<close>

fun new_suffixes :: "byte list set \<Rightarrow> query \<Rightarrow> query list" where
  "new_suffixes have_cols [] = []"
| "new_suffixes have_cols (a # w) =
     (if key (a # w) \<in> have_cols then new_suffixes have_cols w
      else (a # w) # new_suffixes (insert (key (a # w)) have_cols) w)"

definition addSuffixes :: "query \<Rightarrow> 'w learner \<Rightarrow> bool \<times> 'w learner" where
  "addSuffixes cx l =
     (let new = new_suffixes (key ` set (suffix_cols l)) cx
      in if new = [] then (False, l)
         else (True, l\<lparr>suffix_cols := suffix_cols l @ new, rows := Map.empty\<rparr>))"

section \<open>Learning\<close>

definition fill_report :: "'e learn_report \<Rightarrow> 'w learner \<Rightarrow> 'e learn_report" where
  "fill_report rep l = rep\<lparr>Queries := queries l, Cached := cached l\<rparr>"

definition report :: "'e learn_report \<Rightarrow> 'e learn_error \<Rightarrow> 'w learner \<Rightarrow> 'e learn_report" where
  "report rep e l =
     (fill_report rep l)\<lparr>Partial := True,
        Why := (case e of Budget \<Rightarrow> OutOfQueries | Stopped \<Rightarrow> CampaignStopped | _ \<Rightarrow> TargetSilent e)\<rparr>"

definition give_up :: "'e learn_report \<Rightarrow> 'e why \<Rightarrow> 'w learner \<Rightarrow> 'e learn_report" where
  "give_up rep y l = fill_report (rep\<lparr>Partial := True, Why := y\<rparr>) l"

function learn_loop :: "('w, 'e) target \<Rightarrow> options \<Rightarrow> 'e learn_report \<Rightarrow> rand \<Rightarrow> 'w learner \<Rightarrow>
    ((mealy \<times> 'e learn_report) \<times> 'w learner) option" where
  "learn_loop t opts rep r l =
     (case close t opts True l of
        None \<Rightarrow> None
      | Some (Some e, l) \<Rightarrow> do {
          (m, l) \<leftarrow> hypothesis t opts l;
          Some ((m, report rep e l), l)
        }
      | Some (None, l) \<Rightarrow>
          (case hypothesis t opts l of
             None \<Rightarrow> None
           | Some (m, l) \<Rightarrow>
               let rep = rep\<lparr>Rounds := Rounds rep + 1\<rparr>
               in if int (Rounds rep) > maxRounds opts then Some ((m, give_up rep (ManyRounds (Rounds rep)) l), l)
                  else if int (length (Trans m)) \<ge> MaxStates opts then Some ((m, give_up rep StatesCap l), l)
                  else (case findCounterexample t opts m r l of
                          None \<Rightarrow> None
                        | Some ((Inl e, checked), r, l) \<Rightarrow> Some ((m, report (rep\<lparr>Checked := checked\<rparr>) e l), l)
                        | Some ((Inr None, checked), r, l) \<Rightarrow> Some ((m, fill_report (rep\<lparr>Checked := checked\<rparr>) l), l)
                        | Some ((Inr (Some cx), checked), r, l) \<Rightarrow>
                            let rep = rep\<lparr>Checked := checked\<rparr>
                            in (case addSuffixes cx l of
                                  (False, l) \<Rightarrow> Some ((m, give_up rep NotDeterministic l), l)
                                | (True, l) \<Rightarrow> learn_loop t opts rep r l))))"
  by pat_completeness auto

termination
  by (relation "measure (\<lambda>(t, opts, rep, r, l). nat (maxRounds opts + 1) - Rounds rep)") auto

declare learn_loop.simps [simp del]

definition Learn :: "('w, 'e) target \<Rightarrow> options \<Rightarrow> 'w \<Rightarrow> ((mealy \<times> 'e learn_report) option \<times> 'w) option" where
  "Learn t opts v =
     (let opts = fill_options opts
      in if Alphabet opts = [] then Some (None, v)
         else do {
           ((m, rep), l) \<leftarrow> learn_loop t opts
             \<lparr>Queries = 0, Cached = 0, Rounds = 0, Checked = 0, Partial = False, Why = Settled\<rparr> (Rng.New (Seed opts))
             \<lparr>access = [[]], suffix_cols = map (\<lambda>a. [a]) (Alphabet opts), cache = Map.empty, rows = Map.empty,
              queries = 0, cached = 0, world = v\<rparr>;
           Some (Some (m, rep), world l)
         })"

end
