(* ===== verification/Learn_Table.thy ===== *)
theory Learn_Table
  imports Learn_Mealy
begin

text \<open>
  The observation table of the learner over a target that answers a word always the same way and
  symbol by symbol: which keys identify words and rows, what the cache and the memoised rows
  hold, and what a closed table says about the machine built from it.
\<close>

section \<open>Keys\<close>

definition nul_free :: "query \<Rightarrow> bool" where
  "nul_free w \<longleftrightarrow> (\<forall>a \<in> set w. 0 \<notin> set a)"

definition plain :: "query \<Rightarrow> bool" where
  "plain w \<longleftrightarrow> nul_free w \<and> [] \<notin> set w"

lemma key_simps [simp]: "key [] = []" "key [a] = a" "key (a # b # w) = a @ 0 # key (b # w)"
  by (simp_all add: key_def)

lemma key_append: "u \<noteq> [] \<Longrightarrow> v \<noteq> [] \<Longrightarrow> key (u @ v) = key u @ 0 # key v"
  by (induction u rule: induct_list012) (auto simp: neq_Nil_conv)

lemma key_concat: "[] \<notin> set ws \<Longrightarrow> key (map key ws) = key (concat ws)"
proof (induction ws rule: induct_list012)
  case (3 u v ws)
  then show ?case using key_append [of u "v @ concat ws"] by fastforce
qed simp_all

lemma nul_split:
  assumes "0 \<notin> set a" and "0 \<notin> set b" and "a @ 0 # x = b @ 0 # y"
  shows "a = b \<and> x = y"
proof -
  have t: "takeWhile (\<lambda>c. c \<noteq> 0) (a @ 0 # x) = a" "takeWhile (\<lambda>c. c \<noteq> 0) (b @ 0 # y) = b"
    using assms(1,2) by (auto simp: takeWhile_append2 takeWhile_tail dest: bspec)
  then have "a = b" using assms(3) by simp
  then show ?thesis using assms(3) by simp
qed

lemma key_inj_length: "nul_free u \<Longrightarrow> nul_free v \<Longrightarrow> length u = length v \<Longrightarrow> key u = key v \<Longrightarrow> u = v"
proof (induction u arbitrary: v rule: induct_list012)
  case (2 a)
  then show ?case by (cases v) auto
next
  case (3 a b u)
  then obtain c d v' where v: "v = c # d # v'" by (cases v; cases "tl v") auto
  have ac: "0 \<notin> set a" "0 \<notin> set c" "nul_free (b # u)" "nul_free (d # v')"
    using "3.prems"(1,2) by (simp_all add: nul_free_def v)
  have "a = c" and k: "key (b # u) = key (d # v')"
    using nul_split [OF ac(1,2)] "3.prems"(4) by (simp_all add: v)
  moreover have "b # u = d # v'" using "3.prems"(3) by (intro "3.IH"(2) ac k) (simp add: v)
  ultimately show ?case by (simp add: v)
qed simp

lemma key_count: "nul_free w \<Longrightarrow> w \<noteq> [] \<Longrightarrow> length w = Suc (length (filter (\<lambda>c. c = 0) (key w)))"
proof (induction w rule: induct_list012)
  case (2 a)
  then show ?case by (auto simp: nul_free_def filter_empty_conv)
next
  case (3 a b w)
  then have "filter (\<lambda>c. c = 0) a = []" by (auto simp: nul_free_def filter_empty_conv)
  with 3 show ?case by (simp add: nul_free_def)
qed simp

lemma key_inj: "plain u \<Longrightarrow> plain v \<Longrightarrow> key u = key v \<Longrightarrow> u = v"
proof (cases "u = [] \<or> v = []")
  case True
  have "plain w \<Longrightarrow> key w = [] \<Longrightarrow> w = []" for w
    by (cases w; cases "tl w") (auto simp: plain_def)
  then show "plain u \<Longrightarrow> plain v \<Longrightarrow> key u = key v \<Longrightarrow> u = v" using True by (metis key_simps(1))
next
  case False
  then show "plain u \<Longrightarrow> plain v \<Longrightarrow> key u = key v \<Longrightarrow> u = v"
    using key_count [of u] key_count [of v] key_inj_length [of u v] by (simp add: plain_def)
qed

section \<open>A target that answers\<close>

text \<open>The contract of \<open>Teacher\<close>: one output per input, decided by the inputs so far.\<close>

locale answers =
  fixes tgt :: "query \<Rightarrow> query"
  assumes answer_length: "length (tgt w) = length w"
    and answer_prefix: "prefix (tgt u) (tgt (u @ v))"
begin

definition answer_after :: "query \<Rightarrow> query \<Rightarrow> query" where
  "answer_after s e = drop (length s) (tgt (s @ e))"

lemma length_answer_after [simp]: "length (answer_after s e) = length e"
  by (simp add: answer_after_def answer_length)

lemma answer_split: "tgt (s @ e) = tgt s @ answer_after s e"
  using answer_prefix [of s e] by (auto simp: answer_after_def prefix_def answer_length)

lemma answer_after_append: "answer_after s (e @ f) = answer_after s e @ answer_after (s @ e) f"
  using answer_split [of s "e @ f"] answer_split [of "s @ e" f] answer_split [of s e] by simp

lemma answer_after_one: "answer_after s [a] = [last (tgt (s @ [a]))]"
proof -
  obtain x where "answer_after s [a] = [x]"
    using length_answer_after [of s "[a]"] by (metis length_0_conv length_Suc_conv length_Cons list.size(3))
  with answer_split [of s "[a]"] show ?thesis by simp
qed

lemma answer_after_Cons: "answer_after s (a # e) = last (tgt (s @ [a])) # answer_after (s @ [a]) e"
  using answer_after_append [of s "[a]" e] answer_after_one [of s a] by simp

lemma answer_Nil [simp]: "tgt [] = []" "answer_after [] w = tgt w"
  using answer_length [of "[]"] by (simp_all add: answer_after_def)

definition alike :: "query list \<Rightarrow> query \<Rightarrow> query \<Rightarrow> bool" where
  "alike es s s' \<longleftrightarrow> (\<forall>e \<in> set es. answer_after s e = answer_after s' e)"

definition cells :: "query list \<Rightarrow> query \<Rightarrow> symbol list" where
  "cells es s = map (\<lambda>e. key (answer_after s e)) es"

lemma alike_refl [simp]: "alike es s s"
  by (simp add: alike_def)

lemma alike_cells: "alike es s s' \<Longrightarrow> cells es s = cells es s'"
  by (auto simp: alike_def cells_def)

end

text \<open>Answers whose symbols can be told apart in a key.\<close>

locale quiet_answers = answers +
  assumes answer_quiet: "nul_free (tgt w)"
begin

lemma quiet_after: "nul_free (answer_after s e)"
  using answer_quiet [of "s @ e"] by (auto simp: nul_free_def answer_after_def dest: in_set_dropD)

lemma cells_key:
  assumes "[] \<notin> set es" and "key (cells es s) = key (cells es s')"
  shows "alike es s s'"
proof -
  have k: "key (cells es s) = key (concat (map (answer_after s) es))" for s
  proof -
    have "answer_after s e \<noteq> []" if "e \<in> set es" for e
      using that assms(1) length_answer_after [of s e] by (auto simp del: length_answer_after)
    then have "[] \<notin> set (map (answer_after s) es)" by force
    from key_concat [OF this] show ?thesis by (simp add: cells_def comp_def)
  qed
  have len: "length (concat (map (answer_after s) es)) = length (concat (map (answer_after s') es))"
    by (simp add: length_concat comp_def)
  have "nul_free (concat (map (answer_after s) es))" for s
    using quiet_after [of s] by (auto simp: nul_free_def)
  then have "concat (map (answer_after s) es) = concat (map (answer_after s') es)"
    using key_inj_length [OF _ _ len] assms(2) k by simp
  then have "map (answer_after s) es = map (answer_after s') es"
    by (subst (asm) concat_eq_concat_iff) (auto simp: zip_map_map set_zip)
  then show ?thesis by (auto simp: alike_def)
qed

section \<open>What the learner remembers\<close>

text \<open>Every kept answer is the target's, and every kept row is that of a word under the columns.\<close>

definition cols_fit :: "query \<Rightarrow> query list \<Rightarrow> bool" where
  "cols_fit A es \<longleftrightarrow> (\<forall>e \<in> set es. e \<noteq> [] \<and> set e \<subseteq> set A \<and> (tl e = [] \<or> tl e \<in> set es)) \<and> (\<forall>a \<in> set A. [a] \<in> set es)"

definition row_kept :: "'w learner \<Rightarrow> query \<Rightarrow> bool" where
  "row_kept l s \<longleftrightarrow> rows l (key s) = Some (cells (suffix_cols l) s) \<and> (\<forall>e \<in> set (suffix_cols l). cache l (key (s @ e)) \<noteq> None)"

definition memory_ok :: "query \<Rightarrow> 'w learner \<Rightarrow> bool" where
  "memory_ok A l \<longleftrightarrow>
     (\<forall>k out. cache l k = Some out \<longrightarrow> (\<exists>w. w \<noteq> [] \<and> set w \<subseteq> set A \<and> k = key w \<and> out = tgt w)) \<and>
     (\<forall>k r. rows l k = Some r \<longrightarrow> (\<exists>s. set s \<subseteq> set A \<and> k = key s \<and> r = cells (suffix_cols l) s \<and> row_kept l s)) \<and>
     cols_fit A (suffix_cols l) \<and> (\<forall>s \<in> set (access l). set s \<subseteq> set A)"

definition honest :: "('w, 'e) target \<Rightarrow> bool" where
  "honest t \<longleftrightarrow> (\<forall>b w v out v'. Output t b w v = (Inr out, v') \<longrightarrow> out = tgt w)"

definition keeps :: "'w learner \<Rightarrow> 'w learner \<Rightarrow> bool" where
  "keeps l l' \<longleftrightarrow> suffix_cols l' = suffix_cols l \<and> cache l \<subseteq>\<^sub>m cache l' \<and> rows l \<subseteq>\<^sub>m rows l'"

lemma keeps_refl [simp]: "keeps l l"
  by (simp add: keeps_def)

lemma keeps_trans [trans]: "keeps l l' \<Longrightarrow> keeps l' l'' \<Longrightarrow> keeps l l''"
  by (auto simp: keeps_def intro: map_le_trans)

lemma keeps_row: "keeps l l' \<Longrightarrow> row_kept l s \<Longrightarrow> row_kept l' s"
  unfolding keeps_def row_kept_def map_le_def by (metis domI domIff)

lemma plain_words: "plain A \<Longrightarrow> set w \<subseteq> set A \<Longrightarrow> plain w"
  by (auto simp: plain_def nul_free_def)

lemma ask_answers:
  assumes "memory_ok A l" and "plain A" and "honest t" and "set w \<subseteq> set A" and "w \<noteq> []"
    and a: "ask t opts ctx w l = (res, l')"
  shows "memory_ok A l' \<and> keeps l l' \<and> access l' = access l \<and> (\<forall>out. res = Inr out \<longrightarrow> out = tgt w \<and> cache l' (key w) \<noteq> None)"
    and "cache l (key w) \<noteq> None \<Longrightarrow> res = Inr (tgt w)"
proof -
  have cached_word: "out = tgt w" if "cache l (key w) = Some out" for out
  proof -
    from that assms(1) obtain w' where "set w' \<subseteq> set A" "key w = key w'" "out = tgt w'"
      unfolding memory_ok_def by blast
    then show ?thesis using key_inj plain_words assms(2,4) by metis
  qed
  then show "cache l (key w) \<noteq> None \<Longrightarrow> res = Inr (tgt w)"
    using a by (auto simp: ask_def)
  show "memory_ok A l' \<and> keeps l l' \<and> access l' = access l \<and> (\<forall>out. res = Inr out \<longrightarrow> out = tgt w \<and> cache l' (key w) \<noteq> None)"
  proof (cases "cache l (key w)")
    case (Some out)
    then have l': "res = Inr out" "l' = l\<lparr>cached := cached l + 1\<rparr>" using a by (auto simp: ask_def)
    moreover have "memory_ok A l'" using assms(1) l'(2) by (simp add: memory_ok_def row_kept_def)
    ultimately show ?thesis using cached_word Some by (simp add: keeps_def)
  next
    case None
    have frame: "memory_ok A (l\<lparr>world := v\<rparr>) \<and> keeps l (l\<lparr>world := v\<rparr>)" for v
      using assms(1) by (simp add: memory_ok_def row_kept_def keeps_def)
    show ?thesis
    proof (cases "\<exists>out v. res = Inr out \<and> Output t ctx w (world l) = (Inr out, v)")
      case True
      then obtain out v where o: "res = Inr out" "Output t ctx w (world l) = (Inr out, v)" by blast
      then have out: "out = tgt w" using assms(3) unfolding honest_def by metis
      have l': "l' = l\<lparr>queries := queries l + 1, cache := (cache l)(key w \<mapsto> out), world := v\<rparr>"
        using a o None by (auto simp: ask_def split: if_split_asm)
      have k: "keeps l l'" using None l' by (auto simp: keeps_def map_le_def)
      have "memory_ok A l'" unfolding memory_ok_def
      proof (intro conjI allI impI)
        fix k x assume "cache l' k = Some x"
        then show "\<exists>w. w \<noteq> [] \<and> set w \<subseteq> set A \<and> k = key w \<and> x = tgt w"
          using assms(1,4,5) out l' by (auto simp: memory_ok_def split: if_split_asm)
      next
        fix k r assume "rows l' k = Some r"
        then have "rows l k = Some r" using l' by simp
        then obtain s where "set s \<subseteq> set A" "k = key s" "r = cells (suffix_cols l) s" "row_kept l s"
          using assms(1) unfolding memory_ok_def by blast
        then show "\<exists>s. set s \<subseteq> set A \<and> k = key s \<and> r = cells (suffix_cols l') s \<and> row_kept l' s"
          using k keeps_row [OF k] by (auto simp: keeps_def)
      qed (use assms(1) l' in \<open>auto simp: memory_ok_def\<close>)
      then show ?thesis using k l' out o(1) by simp
    next
      case False
      then have "\<exists>e v. res = Inl e \<and> (l' = l \<or> l' = l\<lparr>world := v\<rparr>)"
        using a None by (auto simp: ask_def split: if_split_asm sum.split_asm prod.split_asm)
      then show ?thesis using frame assms(1) by auto
    qed
  qed
qed

lemma row_cells_answers:
  assumes "memory_ok A l" and "plain A" and "honest t" and "set s \<subseteq> set A"
    and "\<forall>e \<in> set es. e \<noteq> [] \<and> set e \<subseteq> set A"
  shows "ok (row_cells t opts ctx s es l) (\<lambda>(res, l'). memory_ok A l' \<and> keeps l l' \<and> access l' = access l \<and>
    (\<forall>r. res = Inr r \<longrightarrow> r = cells es s \<and> (\<forall>e \<in> set es. cache l' (key (s @ e)) \<noteq> None)))"
  using assms(1,5)
proof (induction es arbitrary: l)
  case Nil
  then show ?case by (simp add: cells_def)
next
  case (Cons e es)
  obtain res l1 where a: "ask t opts ctx (s @ e) l = (res, l1)" by force
  have w: "set (s @ e) \<subseteq> set A" "s @ e \<noteq> []" using assms(4) Cons.prems(2) by auto
  note one = ask_answers(1) [OF Cons.prems(1) assms(2,3) w a]
  show ?case
  proof (cases res)
    case (Inl err)
    then show ?thesis using a one by simp
  next
    case (Inr out)
    then have out: "out = tgt (s @ e)" "length s \<le> length out" "drop (length s) out = answer_after s e"
      using one by (auto simp: answer_length answer_after_def)
    have "\<forall>e \<in> set es. e \<noteq> [] \<and> set e \<subseteq> set A" using Cons.prems(2) by simp
    from Cons.IH [OF conjunct1 [OF one] this] obtain rest l2 where
      r: "row_cells t opts ctx s es l1 = Some (rest, l2)" "memory_ok A l2" "keeps l1 l2" "access l2 = access l1"
      "\<forall>r. rest = Inr r \<longrightarrow> r = cells es s \<and> (\<forall>e \<in> set es. cache l2 (key (s @ e)) \<noteq> None)"
      by (elim okE) auto
    have c: "cache l2 (key (s @ e)) \<noteq> None" using one Inr r(3) by (auto simp: keeps_def map_le_def dom_def)
    have v: "row_cells t opts ctx s (e # es) l = Some (map_sum id (\<lambda>cells. key (answer_after s e) # cells) rest, l2)"
      using a Inr out(2,3) r(1) by simp
    have k: "keeps l l2" using one r(3) by (blast intro: keeps_trans)
    have "access l2 = access l" using one r(4) by simp
    then show ?thesis unfolding v using r(2,5) k c by (cases rest) (simp_all add: cells_def)
  qed
qed

end

end
