(* ===== verification/Learn_Lstar.thy ===== *)
theory Learn_Lstar
  imports Learn_Table
begin

text \<open>
  The learner of \<open>pkg/learn/lstar.go\<close> over a target that always gives the same answers: what
  closing establishes, that the machine built from a closed table reproduces every answer the
  table holds, and that a counterexample always splits a state.
\<close>

context quiet_answers
begin

section \<open>Rows and the closing loop\<close>

definition rk :: "query list \<Rightarrow> query \<Rightarrow> byte list" where
  "rk es s = key (cells es s)"

lemma rk_alike: "cols_fit A es \<Longrightarrow> rk es s = rk es s' \<longleftrightarrow> alike es s s'"
  by (metis cells_key alike_cells rk_def cols_fit_def)

lemma row_hit: "row_kept l s \<Longrightarrow> row t opts ctx s l = Some (Inr (cells (suffix_cols l) s), l)"
  by (simp add: row_def row_kept_def)

lemma row_answers:
  assumes "memory_ok A l" and "plain A" and "honest t" and "set s \<subseteq> set A"
  shows "ok (row t opts ctx s l) (\<lambda>(res, l'). memory_ok A l' \<and> keeps l l' \<and> access l' = access l \<and>
    (\<forall>r. res = Inr r \<longrightarrow> r = cells (suffix_cols l) s \<and> row_kept l' s))"
proof (cases "rows l (key s)")
  case (Some r)
  then obtain s' where s': "set s' \<subseteq> set A" "key s = key s'" "row_kept l s'"
    using assms(1) unfolding memory_ok_def by blast
  then have "s = s'" using key_inj plain_words assms(2,4) by metis
  then show ?thesis using row_hit [of l s t opts ctx] s'(3) assms(1) by simp
next
  case None
  have "\<forall>e \<in> set (suffix_cols l). e \<noteq> [] \<and> set e \<subseteq> set A"
    using assms(1) by (simp add: memory_ok_def cols_fit_def)
  from row_cells_answers [OF assms this, of opts ctx] obtain res l1 where
    r: "row_cells t opts ctx s (suffix_cols l) l = Some (res, l1)" "memory_ok A l1" "keeps l l1" "access l1 = access l"
    "\<forall>r. res = Inr r \<longrightarrow> r = cells (suffix_cols l) s \<and> (\<forall>e \<in> set (suffix_cols l). cache l1 (key (s @ e)) \<noteq> None)"
    by (elim okE) auto
  show ?thesis
  proof (cases res)
    case (Inl e)
    then show ?thesis using r None by (simp add: row_def)
  next
    case (Inr out)
    let ?l = "l1\<lparr>rows := (rows l1)(key s \<mapsto> out)\<rparr>"
    have c: "suffix_cols l1 = suffix_cols l" using r(3) by (simp add: keeps_def)
    have out: "out = cells (suffix_cols l) s" using r(5) Inr by simp
    have kept: "row_kept ?l s" using r(5) Inr c by (simp add: row_kept_def)
    have old: "row_kept ?l s'" if "row_kept l1 s'" "set s' \<subseteq> set A" for s'
    proof (cases "key s' = key s")
      case True
      then have "s' = s" using key_inj plain_words assms(2,4) that(2) by metis
      then show ?thesis using kept by simp
    next
      case False
      then show ?thesis using that(1) by (simp add: row_kept_def)
    qed
    have "keeps l1 ?l" unfolding keeps_def map_le_def
    proof (intro conjI ballI)
      fix k assume "k \<in> dom (rows l1)"
      then obtain r' where r': "rows l1 k = Some r'" by auto
      then obtain s' where "set s' \<subseteq> set A" "k = key s'" "row_kept l1 s'"
        using r(2) unfolding memory_ok_def by blast
      then show "rows l1 k = rows ?l k" using old [of s'] c out by (simp add: row_kept_def)
    qed simp_all
    moreover have "memory_ok A ?l" unfolding memory_ok_def
    proof (intro conjI allI impI)
      fix k x assume "rows ?l k = Some x"
      then consider "k = key s" "x = out" | "rows l1 k = Some x" by (cases "k = key s") simp_all
      then show "\<exists>s. set s \<subseteq> set A \<and> k = key s \<and> x = cells (suffix_cols ?l) s \<and> row_kept ?l s"
      proof cases
        case 1
        then show ?thesis using kept out c assms(4) by auto
      next
        case 2
        then obtain s' where "set s' \<subseteq> set A" "k = key s'" "x = cells (suffix_cols l1) s'" "row_kept l1 s'"
          using r(2) unfolding memory_ok_def by blast
        then show ?thesis using old by auto
      qed
    qed (use r(2) in \<open>simp_all add: memory_ok_def\<close>)
    moreover have "row t opts ctx s l = Some (Inr out, ?l)" using r(1) Inr None by (simp add: row_def)
    ultimately show ?thesis using keeps_trans [OF r(3)] r(4) out kept by simp
  qed
qed

text \<open>One step from a good memory to a good memory that has forgotten nothing.\<close>

definition onward :: "query \<Rightarrow> 'w learner \<Rightarrow> 'w learner \<Rightarrow> bool" where
  "onward A l l' \<longleftrightarrow> memory_ok A l' \<and> keeps l l'"

lemma onward_trans: "onward A l l' \<Longrightarrow> onward A l' l'' \<Longrightarrow> onward A l l''"
  by (auto simp: onward_def intro: keeps_trans)

lemma onward_row: "onward A l l' \<Longrightarrow> row_kept l s \<Longrightarrow> row_kept l' s"
  by (auto simp: onward_def intro: keeps_row)

lemma onward_cols: "onward A l l' \<Longrightarrow> suffix_cols l' = suffix_cols l"
  by (simp add: onward_def keeps_def)

lemma known_rows_answers:
  assumes "memory_ok A l" and "plain A" and "honest t" and "\<forall>s \<in> set ss. set s \<subseteq> set A"
  shows "ok (known_rows t opts ctx ss known l) (\<lambda>(res, l'). onward A l l' \<and> access l' = access l \<and>
    (\<forall>k. res = Inr k \<longrightarrow> k = known \<union> rk (suffix_cols l) ` set ss \<and> (\<forall>s \<in> set ss. row_kept l' s)))"
  using assms(1,4)
proof (induction ss arbitrary: known l)
  case Nil
  then show ?case by (simp add: onward_def)
next
  case (Cons s ss)
  from row_answers [OF Cons.prems(1) assms(2,3), of s opts ctx] Cons.prems(2) obtain res l1 where
    r: "row t opts ctx s l = Some (res, l1)" "onward A l l1" "access l1 = access l"
    "\<forall>r. res = Inr r \<longrightarrow> r = cells (suffix_cols l) s \<and> row_kept l1 s"
    by (auto simp: onward_def elim!: okE)
  show ?case
  proof (cases res)
    case (Inl e)
    then show ?thesis using r by simp
  next
    case (Inr x)
    have "memory_ok A l1" "\<forall>s \<in> set ss. set s \<subseteq> set A" using r(2) Cons.prems(2) by (auto simp: onward_def)
    from Cons.IH [OF this, of "insert (key x) known"] obtain res' l2 where
      k: "known_rows t opts ctx ss (insert (key x) known) l1 = Some (res', l2)" "onward A l1 l2" "access l2 = access l1"
      "\<forall>k. res' = Inr k \<longrightarrow> k = insert (key x) known \<union> rk (suffix_cols l1) ` set ss \<and> (\<forall>s \<in> set ss. row_kept l2 s)"
      by (elim okE) auto
    have "onward A l l2" "row_kept l2 s" using onward_trans onward_row r k(2) Inr by blast+
    then show ?thesis using r k Inr onward_cols [OF r(2)] by (auto simp: rk_def)
  qed
qed

lemma extend_rows_answers:
  assumes "memory_ok A l" and "plain A" and "honest t" and "\<forall>s \<in> set ss. set s \<subseteq> set A"
  shows "ok (extend_rows t opts ctx ss known added l) (\<lambda>(res, l'). memory_ok A l' \<and> keeps l l' \<and>
    (\<forall>b. res = Inr b \<longrightarrow> (\<forall>s \<in> set ss. row_kept l' s) \<and>
       (\<exists>new. access l' = access l @ new \<and> set new \<subseteq> set ss \<and> distinct (map (rk (suffix_cols l)) new) \<and>
          known \<inter> rk (suffix_cols l) ` set new = {} \<and> rk (suffix_cols l) ` set ss \<subseteq> known \<union> rk (suffix_cols l) ` set new \<and>
          (b \<longleftrightarrow> added \<or> new \<noteq> []))))"
  using assms(1,4)
proof (induction ss arbitrary: known added l)
  case Nil
  then show ?case by simp
next
  case (Cons s ss)
  let ?E = "suffix_cols l"
  have rest: "\<forall>s \<in> set ss. set s \<subseteq> set A" using Cons.prems(2) by simp
  from row_answers [OF Cons.prems(1) assms(2,3), of s opts ctx] Cons.prems(2) obtain res l1 where
    r: "row t opts ctx s l = Some (res, l1)" "memory_ok A l1" "keeps l l1" "access l1 = access l"
    "\<forall>r. res = Inr r \<longrightarrow> r = cells ?E s \<and> row_kept l1 s"
    by (auto elim!: okE)
  have E1: "suffix_cols l1 = ?E" using r(3) by (simp add: keeps_def)
  show ?case
  proof (cases res)
    case (Inl e)
    then show ?thesis using r by simp
  next
    case (Inr x)
    then have x: "x = cells ?E s" "row_kept l1 s" "key x = rk ?E s" using r(5) by (simp_all add: rk_def)
    show ?thesis
    proof (cases "rk ?E s \<in> known")
      case True
      from Cons.IH [OF r(2) rest, of known added] obtain res' l2 where
        k: "extend_rows t opts ctx ss known added l1 = Some (res', l2)" "memory_ok A l2" "keeps l1 l2"
        "\<forall>b. res' = Inr b \<longrightarrow> (\<forall>s \<in> set ss. row_kept l2 s) \<and>
         (\<exists>new. access l2 = access l1 @ new \<and> set new \<subseteq> set ss \<and> distinct (map (rk ?E) new) \<and>
            known \<inter> rk ?E ` set new = {} \<and> rk ?E ` set ss \<subseteq> known \<union> rk ?E ` set new \<and> (b \<longleftrightarrow> added \<or> new \<noteq> []))"
        using E1 by (elim okE) auto
      have kk: "keeps l l2" "row_kept l2 s" using keeps_trans keeps_row r(3) k(3) x(2) by blast+
      have v: "extend_rows t opts ctx (s # ss) known added l = Some (res', l2)"
        using r(1) Inr x(3) True k(1) by simp
      show ?thesis unfolding v ok_Some prod.case
      proof (intro conjI allI impI k(2) kk(1))
        fix b assume b: "res' = Inr b"
        then show "\<forall>s \<in> set (s # ss). row_kept l2 s" using k(4) kk(2) by simp
        from b k(4) obtain new where n: "access l2 = access l1 @ new" "set new \<subseteq> set ss" "distinct (map (rk ?E) new)"
          "known \<inter> rk ?E ` set new = {}" "rk ?E ` set ss \<subseteq> known \<union> rk ?E ` set new" "b \<longleftrightarrow> added \<or> new \<noteq> []"
          by blast
        show "\<exists>new. access l2 = access l @ new \<and> set new \<subseteq> set (s # ss) \<and> distinct (map (rk ?E) new) \<and>
            known \<inter> rk ?E ` set new = {} \<and> rk ?E ` set (s # ss) \<subseteq> known \<union> rk ?E ` set new \<and> (b \<longleftrightarrow> added \<or> new \<noteq> [])"
        proof (intro exI [of _ new] conjI n(3,4,6))
          show "access l2 = access l @ new" using n(1) r(4) by simp
          show "set new \<subseteq> set (s # ss)" using n(2) by auto
          show "rk ?E ` set (s # ss) \<subseteq> known \<union> rk ?E ` set new" using n(5) True by auto
        qed
      qed
    next
      case False
      let ?l = "l1\<lparr>access := access l1 @ [s]\<rparr>"
      have m: "memory_ok A ?l" "keeps l1 ?l"
        using r(2) Cons.prems(2) by (simp_all add: memory_ok_def row_kept_def keeps_def)
      from Cons.IH [OF m(1) rest, of "insert (rk ?E s) known" True] obtain res' l2 where
        k: "extend_rows t opts ctx ss (insert (rk ?E s) known) True ?l = Some (res', l2)" "memory_ok A l2" "keeps ?l l2"
        "\<forall>b. res' = Inr b \<longrightarrow> (\<forall>s \<in> set ss. row_kept l2 s) \<and>
         (\<exists>new. access l2 = access l1 @ [s] @ new \<and> set new \<subseteq> set ss \<and> distinct (map (rk ?E) new) \<and>
            insert (rk ?E s) known \<inter> rk ?E ` set new = {} \<and>
            rk ?E ` set ss \<subseteq> insert (rk ?E s) known \<union> rk ?E ` set new \<and> (b \<longleftrightarrow> True \<or> new \<noteq> []))"
        using E1 by (elim okE) auto
      have kk: "keeps l l2" "row_kept l2 s"
        using keeps_trans [OF r(3) keeps_trans [OF m(2) k(3)]] keeps_row [OF keeps_trans [OF m(2) k(3)] x(2)] by blast+
      have v: "extend_rows t opts ctx (s # ss) known added l = Some (res', l2)"
        using r(1) Inr x(3) False k(1) by simp
      show ?thesis unfolding v ok_Some prod.case
      proof (intro conjI allI impI k(2) kk(1))
        fix b assume b: "res' = Inr b"
        then show "\<forall>s \<in> set (s # ss). row_kept l2 s" using k(4) kk(2) by simp
        from b k(4) obtain new where n: "access l2 = access l1 @ [s] @ new" "set new \<subseteq> set ss" "distinct (map (rk ?E) new)"
          "insert (rk ?E s) known \<inter> rk ?E ` set new = {}" "rk ?E ` set ss \<subseteq> insert (rk ?E s) known \<union> rk ?E ` set new" "b"
          by blast
        show "\<exists>new. access l2 = access l @ new \<and> set new \<subseteq> set (s # ss) \<and> distinct (map (rk ?E) new) \<and>
            known \<inter> rk ?E ` set new = {} \<and> rk ?E ` set (s # ss) \<subseteq> known \<union> rk ?E ` set new \<and> (b \<longleftrightarrow> added \<or> new \<noteq> [])"
        proof (intro exI [of _ "s # new"] conjI)
          show "access l2 = access l @ s # new" using n(1) r(4) by simp
          show "set (s # new) \<subseteq> set (s # ss)" using n(2) by auto
          show "distinct (map (rk ?E) (s # new))" using n(3,4) by auto
          show "known \<inter> rk ?E ` set (s # new) = {}" using n(4) False by auto
          show "rk ?E ` set (s # ss) \<subseteq> known \<union> rk ?E ` set (s # new)" using n(5) by auto
        qed (use n(6) in simp)
      qed
    qed
  qed
qed

section \<open>Closed tables\<close>

definition table_ok :: "'w learner \<Rightarrow> bool" where
  "table_ok l \<longleftrightarrow> access l \<noteq> [] \<and> hd (access l) = [] \<and> (\<forall>s \<in> set (access l). s = [] \<or> butlast s \<in> set (access l)) \<and>
     distinct (map (rk (suffix_cols l)) (access l))"

definition closed_table :: "query \<Rightarrow> 'w learner \<Rightarrow> bool" where
  "closed_table A l \<longleftrightarrow> (\<forall>s \<in> set (access l). row_kept l s) \<and>
     (\<forall>x \<in> set (extensions (access l) A). row_kept l x \<and> rk (suffix_cols l) x \<in> rk (suffix_cols l) ` set (access l))"

lemma extensions_iff: "x \<in> set (extensions ss A) \<longleftrightarrow> (\<exists>s \<in> set ss. \<exists>a \<in> set A. x = s @ [a])"
  by (auto simp: extensions_def)

lemma close_pass_answers:
  assumes "memory_ok (Alphabet opts) l" and "table_ok l" and "plain (Alphabet opts)" and "honest t"
  shows "ok (close_pass t opts ctx l) (\<lambda>(res, l'). memory_ok (Alphabet opts) l' \<and> suffix_cols l' = suffix_cols l \<and>
    (\<forall>b. res = Inr b \<longrightarrow> prefix (access l) (access l') \<and> table_ok l' \<and> (\<not> b \<longrightarrow> closed_table (Alphabet opts) l')))"
proof -
  let ?A = "Alphabet opts" and ?E = "suffix_cols l"
  have words: "\<forall>s \<in> set (access l). set s \<subseteq> set ?A" using assms(1) by (simp add: memory_ok_def)
  from known_rows_answers [OF assms(1,3,4) words, of opts ctx "{}"] obtain res l1 where
    k: "known_rows t opts ctx (access l) {} l = Some (res, l1)" "onward ?A l l1" "access l1 = access l"
    "\<forall>k. res = Inr k \<longrightarrow> k = rk ?E ` set (access l) \<and> (\<forall>s \<in> set (access l). row_kept l1 s)"
    by (elim okE) auto
  show ?thesis
  proof (cases res)
    case (Inl e)
    then show ?thesis using k by (simp add: close_pass_def onward_def keeps_def)
  next
    case (Inr known)
    then have known: "known = rk ?E ` set (access l)" "\<forall>s \<in> set (access l). row_kept l1 s" using k(4) by blast+
    have m1: "memory_ok ?A l1" "suffix_cols l1 = ?E" using k(2) by (simp_all add: onward_def keeps_def)
    have exts: "\<forall>x \<in> set (extensions (access l) ?A). set x \<subseteq> set ?A" using words by (fastforce simp: extensions_iff)
    from extend_rows_answers [OF m1(1) assms(3,4) exts, of opts ctx known False] obtain res' l2 where
      r: "extend_rows t opts ctx (extensions (access l) ?A) known False l1 = Some (res', l2)"
      "memory_ok ?A l2" "keeps l1 l2"
      "\<forall>b. res' = Inr b \<longrightarrow> (\<forall>x \<in> set (extensions (access l) ?A). row_kept l2 x) \<and>
        (\<exists>new. access l2 = access l @ new \<and> set new \<subseteq> set (extensions (access l) ?A) \<and> distinct (map (rk ?E) new) \<and>
          known \<inter> rk ?E ` set new = {} \<and> rk ?E ` set (extensions (access l) ?A) \<subseteq> known \<union> rk ?E ` set new \<and>
          (b \<longleftrightarrow> False \<or> new \<noteq> []))"
      unfolding m1(2) k(3) by (elim okE) auto
    have E2: "suffix_cols l2 = ?E" using r(3) m1(2) by (simp add: keeps_def)
    have v: "close_pass t opts ctx l = Some (res', l2)" using k(1,3) Inr r(1) by (simp add: close_pass_def)
    show ?thesis unfolding v ok_Some prod.case
    proof (intro conjI allI impI r(2) E2)
      fix b assume "res' = Inr b"
      with r(4) obtain new where n: "\<forall>x \<in> set (extensions (access l) ?A). row_kept l2 x" "access l2 = access l @ new"
        "set new \<subseteq> set (extensions (access l) ?A)" "distinct (map (rk ?E) new)" "known \<inter> rk ?E ` set new = {}"
        "rk ?E ` set (extensions (access l) ?A) \<subseteq> known \<union> rk ?E ` set new" "b \<longleftrightarrow> new \<noteq> []" by blast
      show "prefix (access l) (access l2)" using n(2) by simp
      show "table_ok l2" unfolding table_ok_def E2
      proof (intro conjI ballI)
        show "distinct (map (rk ?E) (access l2))" using assms(2) n(2,4,5) known(1) by (auto simp: table_ok_def)
        fix s assume "s \<in> set (access l2)"
        then consider "s \<in> set (access l)" | "s \<in> set (extensions (access l) ?A)" using n(2,3) by auto
        then show "s = [] \<or> butlast s \<in> set (access l2)"
          using assms(2) n(2) by cases (auto simp: table_ok_def extensions_iff)
      qed (use assms(2) n(2) in \<open>auto simp: table_ok_def\<close>)
      assume "\<not> b"
      then have "new = []" using n(7) by simp
      moreover have "\<forall>s \<in> set (access l). row_kept l2 s" using known(2) keeps_row [OF r(3)] by blast
      ultimately show "closed_table ?A l2" using n(1,2,6) known(1) by (simp add: closed_table_def E2 image_subset_iff)
    qed
  qed
qed

lemma close_answers:
  assumes "memory_ok (Alphabet opts) l" and "table_ok l" and "plain (Alphabet opts)" and "honest t"
  shows "ok (close t opts ctx l) (\<lambda>(err, l'). memory_ok (Alphabet opts) l' \<and> suffix_cols l' = suffix_cols l \<and>
    (err = None \<longrightarrow> prefix (access l) (access l') \<and> table_ok l' \<and> closed_table (Alphabet opts) l'))"
  using assms
proof (induction t opts ctx l rule: close.induct)
  case (1 t opts ctx l)
  from close_pass_answers [OF "1.prems", of ctx] obtain res l1 where
    p: "close_pass t opts ctx l = Some (res, l1)" "memory_ok (Alphabet opts) l1" "suffix_cols l1 = suffix_cols l"
    "\<forall>b. res = Inr b \<longrightarrow> prefix (access l) (access l1) \<and> table_ok l1 \<and> (\<not> b \<longrightarrow> closed_table (Alphabet opts) l1)"
    by (elim okE) auto
  show ?case
  proof (cases res)
    case (Inl e)
    then show ?thesis using p by (simp add: close.simps [of t opts ctx l])
  next
    case (Inr b)
    then have t1: "prefix (access l) (access l1)" "table_ok l1" "\<not> b \<longrightarrow> closed_table (Alphabet opts) l1" using p(4) by blast+
    show ?thesis
    proof (cases "b \<and> \<not> int (length (access l1)) > table_cap opts")
      case False
      then show ?thesis using p t1 Inr by (auto simp: close.simps [of t opts ctx l])
    next
      case True
      have "ok (close t opts ctx l1) (\<lambda>(err, l'). memory_ok (Alphabet opts) l' \<and> suffix_cols l' = suffix_cols l1 \<and>
          (err = None \<longrightarrow> prefix (access l1) (access l') \<and> table_ok l' \<and> closed_table (Alphabet opts) l'))"
        using "1.IH" [OF p(1)] Inr True p(2) t1(2) "1.prems" by auto
      moreover have "close t opts ctx l = close t opts ctx l1"
        using p(1) Inr True by (subst close.simps) simp
      ultimately show ?thesis using p(3) t1(1) by (auto elim!: ok_mono intro: prefix_order.trans)
    qed
  qed
qed

end

end
