(* ===== verification/Learn_Machine.thy ===== *)
theory Learn_Machine
  imports Learn_Lstar
begin

text \<open>
  The machine the learner builds from a closed table: it reproduces the answers of the table, its
  states are told apart by the target, and a word it gets wrong splits a state once the
  suffixes of the word are columns.
\<close>

context quiet_answers
begin

section \<open>The hypothesis of a closed table\<close>

definition describes :: "query \<Rightarrow> 'w learner \<Rightarrow> mealy \<Rightarrow> bool" where
  "describes A l m \<longleftrightarrow> Access m = access l \<and> length (Trans m) = length (access l) \<and> length (Out m) = length (access l) \<and>
     (\<forall>i < length (access l). \<forall>a \<in> set A.
        (\<exists>j < length (access l). map_of (Trans m ! i) a = Some j \<and>
           rk (suffix_cols l) (access l ! j) = rk (suffix_cols l) (access l ! i @ [a])) \<and>
        map_of (Out m ! i) a = Some (last (tgt (access l ! i @ [a]))))"

lemma frame_cached [simp]:
  "row_kept (l\<lparr>cached := c\<rparr>) s = row_kept l s"
  "memory_ok A (l\<lparr>cached := c\<rparr>) = memory_ok A l"
  "describes A (l\<lparr>cached := c\<rparr>) m = describes A l m"
  "table_ok (l\<lparr>cached := c\<rparr>) = table_ok l"
  "closed_table A (l\<lparr>cached := c\<rparr>) = closed_table A l"
  by (simp_all add: row_kept_def memory_ok_def describes_def table_ok_def closed_table_def)

lemma representatives_kept:
  assumes "\<forall>s \<in> set ss. row_kept l s" and "distinct (map fst reps @ map (rk (suffix_cols l)) ss)"
  shows "representatives t opts ss reps l = Some (reps @ map (\<lambda>s. (rk (suffix_cols l) s, s)) ss, l)"
  using assms
proof (induction ss arbitrary: reps)
  case (Cons s ss)
  have "rk (suffix_cols l) s \<notin> fst ` set reps" using Cons.prems(2) by auto
  moreover have "row t opts False s l = Some (Inr (cells (suffix_cols l) s), l)"
    using Cons.prems(1) by (intro row_hit) simp
  ultimately show ?case using Cons.IH [of "reps @ [(rk (suffix_cols l) s, s)]"] Cons.prems
    by (simp add: rk_def)
qed simp

lemma takeWhile_shorter: "\<exists>x \<in> set xs. \<not> P x \<Longrightarrow> length (takeWhile P xs) < length xs"
  by (induction xs) auto

lemma position_known:
  assumes "k \<in> f ` set ss"
  shows "\<exists>j < length ss. position (map (\<lambda>s. (f s, s)) ss) k = Some j \<and> f (ss ! j) = k"
proof -
  let ?ps = "map (\<lambda>s. (f s, s)) ss"
  let ?j = "length (takeWhile (\<lambda>p. fst p \<noteq> k) ?ps)"
  have "\<exists>p \<in> set ?ps. \<not> fst p \<noteq> k" using assms by auto
  then have lt: "?j < length ?ps" by (rule takeWhile_shorter)
  from nth_length_takeWhile [OF lt] have "f (ss ! ?j) = k" using lt by simp
  then show ?thesis using lt by (auto simp: position_def Let_def)
qed

lemma ask_hit:
  assumes "memory_ok A l" and "plain A" and "honest t" and "set w \<subseteq> set A" and "w \<noteq> []" and "cache l (key w) \<noteq> None"
  shows "ask t opts ctx w l = (Inr (tgt w), l\<lparr>cached := cached l + 1\<rparr>)"
proof -
  obtain res l' where a: "ask t opts ctx w l = (res, l')" by force
  from ask_answers(2) [OF assms(1-5) a assms(6)] a assms(6) show ?thesis by (auto simp: ask_def)
qed

lemma state_moves_kept:
  assumes "memory_ok A l" and "plain A" and "honest t" and "set as \<subseteq> set A" and "set s \<subseteq> set A"
    and "\<forall>a \<in> set as. row_kept l (s @ [a]) \<and> cache l (key (s @ [a])) \<noteq> None \<and>
       position reps (rk (suffix_cols l) (s @ [a])) = Some (nxt a)"
  shows "\<exists>tr' ou' c. state_moves t opts reps s as tr ou l = Some ((tr', ou'), l\<lparr>cached := c\<rparr>) \<and>
    map_of tr' = (\<lambda>a. if a \<in> set as then Some (nxt a) else map_of tr a) \<and>
    map_of ou' = (\<lambda>a. if a \<in> set as then Some (last (tgt (s @ [a]))) else map_of ou a)"
  using assms(1,4,6)
proof (induction "as" arbitrary: tr ou l)
  case Nil
  then show ?case by (intro exI [of _ tr] exI [of _ ou] exI [of _ "cached l"]) simp
next
  case (Cons a as)
  let ?w = "s @ [a]" and ?l = "l\<lparr>cached := cached l + 1\<rparr>"
  have r: "row t opts False ?w l = Some (Inr (cells (suffix_cols l) ?w), l)"
    using Cons.prems(3) by (intro row_hit) simp
  have w: "set ?w \<subseteq> set A" using Cons.prems(2) assms(5) by simp
  have h: "ask t opts False ?w l = (Inr (tgt ?w), ?l)"
    using ask_hit [OF Cons.prems(1) assms(2,3) w] Cons.prems(3) by simp
  have n: "tgt ?w \<noteq> []" using answer_length [of ?w] by auto
  have p: "position reps (key (cells (suffix_cols l) ?w)) = Some (nxt a)"
    using Cons.prems(3) by (simp add: rk_def)
  have "memory_ok A ?l" "set as \<subseteq> set A" "\<forall>b \<in> set as. row_kept ?l (s @ [b]) \<and> cache ?l (key (s @ [b])) \<noteq> None \<and>
       position reps (rk (suffix_cols ?l) (s @ [b])) = Some (nxt b)"
    using Cons.prems by simp_all
  from Cons.IH [OF this, of "AList.update a (nxt a) tr" "AList.update a (last (tgt ?w)) ou"] obtain tr' ou' c where
    k: "state_moves t opts reps s as (AList.update a (nxt a) tr) (AList.update a (last (tgt ?w)) ou) ?l =
        Some ((tr', ou'), ?l\<lparr>cached := c\<rparr>)"
    "map_of tr' = (\<lambda>b. if b \<in> set as then Some (nxt b) else map_of (AList.update a (nxt a) tr) b)"
    "map_of ou' = (\<lambda>b. if b \<in> set as then Some (last (tgt (s @ [b]))) else map_of (AList.update a (last (tgt ?w)) ou) b)"
    by blast
  have "state_moves t opts reps s (a # as) tr ou l = Some ((tr', ou'), l\<lparr>cached := c\<rparr>)"
    using r h n p k(1) by (simp add: Let_def)
  then show ?case using k(2,3) by (auto simp: update_conv' fun_eq_iff)
qed

lemma all_moves_kept:
  assumes "memory_ok (Alphabet opts) l" and "plain (Alphabet opts)" and "honest t"
    and "\<forall>s \<in> set ss. set s \<subseteq> set (Alphabet opts) \<and> (\<forall>a \<in> set (Alphabet opts). row_kept l (s @ [a]) \<and>
       cache l (key (s @ [a])) \<noteq> None \<and> position reps (rk (suffix_cols l) (s @ [a])) = Some (nxt s a))"
  shows "\<exists>trs ous c. all_moves t opts reps ss l = Some ((trs, ous), l\<lparr>cached := c\<rparr>) \<and> length trs = length ss \<and> length ous = length ss \<and>
    (\<forall>i < length ss. \<forall>a \<in> set (Alphabet opts). map_of (trs ! i) a = Some (nxt (ss ! i) a) \<and>
       map_of (ous ! i) a = Some (last (tgt (ss ! i @ [a]))))"
  using assms(1,4)
proof (induction ss arbitrary: l)
  case Nil
  then show ?case by (intro exI [of _ "[]"] exI [of _ "cached l"]) simp
next
  case (Cons s ss)
  have "set s \<subseteq> set (Alphabet opts)" and one: "\<forall>a \<in> set (Alphabet opts). row_kept l (s @ [a]) \<and> cache l (key (s @ [a])) \<noteq> None \<and>
       position reps (rk (suffix_cols l) (s @ [a])) = Some (nxt s a)"
    using Cons.prems(2) by simp_all
  from state_moves_kept [OF Cons.prems(1) assms(2,3) order_refl this, of opts "[]" "[]"] obtain tr ou c where
    k: "state_moves t opts reps s (Alphabet opts) [] [] l = Some ((tr, ou), l\<lparr>cached := c\<rparr>)"
    "\<forall>a \<in> set (Alphabet opts). map_of tr a = Some (nxt s a) \<and> map_of ou a = Some (last (tgt (s @ [a])))" by auto
  from Cons.IH [of "l\<lparr>cached := c\<rparr>"] Cons.prems obtain trs ous c' where
    h: "all_moves t opts reps ss (l\<lparr>cached := c\<rparr>) = Some ((trs, ous), l\<lparr>cached := c'\<rparr>)"
    "length trs = length ss" "length ous = length ss"
    "\<forall>i < length ss. \<forall>a \<in> set (Alphabet opts). map_of (trs ! i) a = Some (nxt (ss ! i) a) \<and>
       map_of (ous ! i) a = Some (last (tgt (ss ! i @ [a])))" by auto
  show ?case
  proof (intro exI conjI)
    show "all_moves t opts reps (s # ss) l = Some ((tr # trs, ou # ous), l\<lparr>cached := c'\<rparr>)" using k(1) h(1) by simp
    show "\<forall>i < length (s # ss). \<forall>a \<in> set (Alphabet opts). map_of ((tr # trs) ! i) a = Some (nxt ((s # ss) ! i) a) \<and>
       map_of ((ou # ous) ! i) a = Some (last (tgt ((s # ss) ! i @ [a])))"
      using k(2) h(4) by (auto simp: nth_Cons split: nat.split)
  qed (use h(2,3) in simp_all)
qed

lemma hypothesis_describes:
  assumes m: "memory_ok (Alphabet opts) l" and t: "table_ok l" and c: "closed_table (Alphabet opts) l"
    and "plain (Alphabet opts)" and "honest t"
  shows "\<exists>mc k. hypothesis t opts l = Some (mc, l\<lparr>cached := k\<rparr>) \<and> describes (Alphabet opts) l mc"
proof -
  let ?A = "Alphabet opts" and ?E = "suffix_cols l"
  let ?reps = "map (\<lambda>s. (rk ?E s, s)) (access l)"
  have cols: "\<forall>a \<in> set ?A. [a] \<in> set ?E" using m by (simp add: memory_ok_def cols_fit_def)
  have reps: "representatives t opts (access l) [] l = Some (?reps, l)"
    using representatives_kept [of "access l" l "[]"] t c by (simp add: table_ok_def closed_table_def)
  have n: "?reps \<noteq> []" using t by (simp add: table_ok_def)
  obtain nxt where nxt: "nxt = (\<lambda>s a. the (position ?reps (rk ?E (s @ [a]))))" by blast
  have step: "\<exists>j < length (access l). position ?reps (rk ?E (s @ [a])) = Some j \<and> rk ?E (access l ! j) = rk ?E (s @ [a])"
    if "s \<in> set (access l)" "a \<in> set ?A" for s a
    using that c by (intro position_known) (auto simp: closed_table_def extensions_iff)
  have "\<forall>s \<in> set (access l). set s \<subseteq> set ?A \<and> (\<forall>a \<in> set ?A. row_kept l (s @ [a]) \<and>
       cache l (key (s @ [a])) \<noteq> None \<and> position ?reps (rk ?E (s @ [a])) = Some (nxt s a))"
  proof (intro ballI conjI)
    fix s a assume s: "s \<in> set (access l)" and a: "a \<in> set ?A"
    show "row_kept l (s @ [a])" using c s a by (auto simp: closed_table_def extensions_iff)
    have "row_kept l s" using c s by (simp add: closed_table_def)
    then show "cache l (key (s @ [a])) \<noteq> None" using cols a unfolding row_kept_def by blast
    show "position ?reps (rk ?E (s @ [a])) = Some (nxt s a)" using step [OF s a] nxt by auto
  qed (use m in \<open>auto simp: memory_ok_def\<close>)
  from all_moves_kept [OF m assms(4,5) this] obtain trs ous k where
    h: "all_moves t opts ?reps (access l) l = Some ((trs, ous), l\<lparr>cached := k\<rparr>)" "length trs = length (access l)"
    "length ous = length (access l)" "\<forall>i < length (access l). \<forall>a \<in> set ?A. map_of (trs ! i) a = Some (nxt (access l ! i) a) \<and>
       map_of (ous ! i) a = Some (last (tgt (access l ! i @ [a])))" by blast
  let ?m = "\<lparr>Inputs = ?A, Trans = trs, Out = ous, Access = access l\<rparr>"
  have "hypothesis t opts l = Some (?m, l\<lparr>cached := k\<rparr>)"
    using reps n h(1) by (simp add: hypothesis_def Let_def comp_def cong: if_cong)
  moreover have "describes ?A l ?m" unfolding describes_def
  proof (intro conjI allI impI ballI)
    fix i a assume i: "i < length (access l)" and a: "a \<in> set ?A"
    have "access l ! i \<in> set (access l)" using i by simp
    from step [OF this a] nxt h(4) i a show "\<exists>j < length (access l). map_of (Trans ?m ! i) a = Some j \<and>
           rk ?E (access l ! j) = rk ?E (access l ! i @ [a])" by auto
    show "map_of (Out ?m ! i) a = Some (last (tgt (access l ! i @ [a])))" using h(4) i a by simp
  qed (use h(2,3) in simp_all)
  ultimately show ?thesis by blast
qed

section \<open>What the machine answers\<close>

lemma answer_after_Nil [simp]: "answer_after s [] = []"
  using length_answer_after [of s "[]"] by (simp del: length_answer_after)

text \<open>The state a word leads to.\<close>

fun goes :: "mealy \<Rightarrow> nat \<Rightarrow> query \<Rightarrow> nat" where
  "goes m i [] = i"
| "goes m i (a # w) = goes m (the (map_of (Trans m ! i) a)) w"

lemma describes_step:
  assumes "describes A l m" and "i < length (access l)" and "a \<in> set A"
  obtains j where "j < length (access l)" "map_of (Trans m ! i) a = Some j"
    "rk (suffix_cols l) (access l ! j) = rk (suffix_cols l) (access l ! i @ [a])"
    "\<forall>w. run_from m i (a # w) = do { out \<leftarrow> run_from m j w; Some (last (tgt (access l ! i @ [a])) # out) }"
proof -
  from assms obtain j where "j < length (access l)" "map_of (Trans m ! i) a = Some j"
    "rk (suffix_cols l) (access l ! j) = rk (suffix_cols l) (access l ! i @ [a])"
    "map_of (Out m ! i) a = Some (last (tgt (access l ! i @ [a])))"
    "length (Trans m) = length (access l)" "length (Out m) = length (access l)" unfolding describes_def by blast
  with assms(2) that show thesis by simp
qed

lemma run_from_total:
  "describes A l m \<Longrightarrow> i < length (access l) \<Longrightarrow> set w \<subseteq> set A \<Longrightarrow>
   \<exists>out. run_from m i w = Some out \<and> length out = length w \<and> goes m i w < length (access l)"
proof (induction w arbitrary: i)
  case (Cons a w)
  have a: "a \<in> set A" "set w \<subseteq> set A" using Cons.prems(3) by simp_all
  from describes_step [OF Cons.prems(1,2) a(1)] obtain j where
    j: "j < length (access l)" "map_of (Trans m ! i) a = Some j"
    "\<forall>w. run_from m i (a # w) = do { out \<leftarrow> run_from m j w; Some (last (tgt (access l ! i @ [a])) # out) }" by metis
  from Cons.IH [OF Cons.prems(1) j(1) a(2)] obtain out where
    "run_from m j w = Some out" "length out = length w" "goes m j w < length (access l)" by blast
  then show ?case using j(2) spec [OF j(3), of w] by simp
qed simp

lemma run_from_append:
  "describes A l m \<Longrightarrow> i < length (access l) \<Longrightarrow> set (u @ v) \<subseteq> set A \<Longrightarrow>
   run_from m i (u @ v) = do { x \<leftarrow> run_from m i u; y \<leftarrow> run_from m (goes m i u) v; Some (x @ y) }"
proof (induction u arbitrary: i)
  case (Cons a u)
  have a: "a \<in> set A" "set (u @ v) \<subseteq> set A" using Cons.prems(3) by simp_all
  from describes_step [OF Cons.prems(1,2) a(1)] obtain j where
    j: "j < length (access l)" "map_of (Trans m ! i) a = Some j"
    "\<forall>w. run_from m i (a # w) = do { out \<leftarrow> run_from m j w; Some (last (tgt (access l ! i @ [a])) # out) }" by metis
  from Cons.IH [OF Cons.prems(1) j(1) a(2)] show ?case
    using j(2) spec [OF j(3), of u] spec [OF j(3), of "u @ v"] by (cases "run_from m j u") (simp_all add: bind_assoc)
qed (simp add: bind_eq_Some_conv)

lemma goes_append: "goes m i (u @ v) = goes m (goes m i u) v"
  by (induction u arbitrary: i) auto

text \<open>Every column is answered rightly from every state.\<close>

lemma column_answers:
  assumes "describes A l m" and "cols_fit A (suffix_cols l)"
  shows "i < length (access l) \<Longrightarrow> e \<in> set (suffix_cols l) \<Longrightarrow> run_from m i e = Some (answer_after (access l ! i) e)"
proof (induction e arbitrary: i)
  case Nil
  then show ?case using assms(2) by (auto simp: cols_fit_def)
next
  case (Cons a e)
  then have a: "a \<in> set A" and e: "e = [] \<or> e \<in> set (suffix_cols l)" using assms(2) by (force simp: cols_fit_def)+
  from describes_step [OF assms(1) Cons.prems(1) a] obtain j where
    j: "j < length (access l)" "rk (suffix_cols l) (access l ! j) = rk (suffix_cols l) (access l ! i @ [a])"
    "run_from m i (a # e) = do { out \<leftarrow> run_from m j e; Some (last (tgt (access l ! i @ [a])) # out) }" by metis
  have "run_from m j e = Some (answer_after (access l ! i @ [a]) e)"
  proof (cases "e = []")
    case True
    then show ?thesis by simp
  next
    case False
    then have "e \<in> set (suffix_cols l)" using e by simp
    then show ?thesis using Cons.IH [OF j(1)] j(2) rk_alike [OF assms(2)] by (simp add: alike_def)
  qed
  then show ?case using j(3) by (simp add: answer_after_Cons)
qed

text \<open>The access word of a state leads to it, and is answered rightly on the way.\<close>

lemma access_reached:
  assumes d: "describes A l m" and t: "table_ok l" and w: "\<forall>s \<in> set (access l). set s \<subseteq> set A"
  shows "i < length (access l) \<Longrightarrow> run_from m 0 (access l ! i) = Some (tgt (access l ! i)) \<and> goes m 0 (access l ! i) = i"
proof (induction "length (access l ! i)" arbitrary: i rule: less_induct)
  case less
  let ?S = "access l" and ?E = "suffix_cols l"
  have inj: "j = k" if "j < length ?S" "k < length ?S" "rk ?E (?S ! j) = rk ?E (?S ! k)" for j k
    using t that by (auto simp: table_ok_def distinct_conv_nth)
  have zero: "0 < length ?S" "?S ! 0 = []" using t by (auto simp: table_ok_def hd_conv_nth)
  show ?case
  proof (cases "?S ! i = []")
    case True
    then show ?thesis using inj [OF less.prems zero(1)] zero(2) by simp
  next
    case False
    have "?S ! i \<in> set ?S" using less.prems by simp
    then have "butlast (?S ! i) \<in> set ?S" "set (?S ! i) \<subseteq> set A" using t w False by (auto simp: table_ok_def)
    then obtain k where k: "k < length ?S" "?S ! k = butlast (?S ! i)" by (auto simp: in_set_conv_nth)
    let ?a = "last (?S ! i)"
    have s: "?S ! i = ?S ! k @ [?a]" using k(2) False by simp
    have a: "?a \<in> set A" using \<open>set (?S ! i) \<subseteq> set A\<close> False last_in_set by blast
    have "length (?S ! k) < length (?S ! i)" using s by (metis length_append_singleton lessI)
    from less.hyps [OF this k(1)] have ih: "run_from m 0 (?S ! k) = Some (tgt (?S ! k))" "goes m 0 (?S ! k) = k" by simp_all
    from describes_step [OF d k(1) a] obtain j where
      j: "j < length ?S" "map_of (Trans m ! k) ?a = Some j" "rk ?E (?S ! j) = rk ?E (?S ! k @ [?a])"
      "\<forall>w. run_from m k (?a # w) = do { out \<leftarrow> run_from m j w; Some (last (tgt (?S ! k @ [?a])) # out) }" by metis
    have "j = i" using inj [OF j(1) less.prems] j(3) s by simp
    moreover have "goes m 0 (?S ! k @ [?a]) = j" using ih(2) j(2) by (simp add: goes_append)
    moreover have "run_from m 0 (?S ! k @ [?a]) = Some (tgt (?S ! k @ [?a]))"
      using run_from_append [OF d zero(1), of "?S ! k" "[?a]"] \<open>set (?S ! i) \<subseteq> set A\<close> s ih spec [OF j(4), of "[]"]
        answer_split [of "?S ! k" "[?a]"] answer_after_one by auto
    ultimately show ?thesis using s by simp
  qed
qed

section \<open>A counterexample splits a state\<close>

lemma disagreement_splits:
  assumes "describes A l m"
  shows "cx \<noteq> [] \<Longrightarrow> set cx \<subseteq> set A \<Longrightarrow> i < length (access l) \<Longrightarrow> run_from m i cx = Some out \<Longrightarrow>
    last out \<noteq> last (answer_after (access l ! i) cx) \<Longrightarrow>
    \<exists>e s s'. e \<noteq> [] \<and> suffix e cx \<and> s \<in> set (extensions (access l) A) \<and> s' \<in> set (access l) \<and>
      rk (suffix_cols l) s = rk (suffix_cols l) s' \<and> answer_after s e \<noteq> answer_after s' e"
proof (induction cx arbitrary: i out)
  case (Cons a e)
  have a: "a \<in> set A" using Cons.prems(2) by simp
  from describes_step [OF assms Cons.prems(3) a] obtain j where
    j: "j < length (access l)" "rk (suffix_cols l) (access l ! j) = rk (suffix_cols l) (access l ! i @ [a])"
    "run_from m i (a # e) = do { out \<leftarrow> run_from m j e; Some (last (tgt (access l ! i @ [a])) # out) }" by metis
  from j(3) Cons.prems(4) obtain o1 where o1: "run_from m j e = Some o1" "out = last (tgt (access l ! i @ [a])) # o1"
    by (auto simp: bind_eq_Some_conv)
  have len: "length o1 = length e" using run_from_total [OF assms j(1), of e] Cons.prems(2) o1(1) by auto
  have ne: "e \<noteq> []"
    using Cons.prems(5) o1(2) len by (auto simp: answer_after_Cons)
  show ?case
  proof (cases "answer_after (access l ! i @ [a]) e = answer_after (access l ! j) e")
    case False
    moreover have "access l ! i @ [a] \<in> set (extensions (access l) A)"
      using Cons.prems(3) a by (auto simp: extensions_iff)
    moreover have "suffix e (a # e)" by (simp add: suffix_def)
    ultimately show ?thesis using ne j(1,2) nth_mem by metis
  next
    case True
    have "o1 \<noteq> []" "answer_after (access l ! j) e \<noteq> []" using len ne length_answer_after [of "access l ! j" e] by (metis length_0_conv)+
    then have "last o1 \<noteq> last (answer_after (access l ! j) e)"
      using Cons.prems(5) o1(2) True by (simp add: answer_after_Cons)
    moreover have "set e \<subseteq> set A" using Cons.prems(2) by simp
    ultimately obtain e' s s' where
      r: "e' \<noteq> []" "suffix e' e" "s \<in> set (extensions (access l) A)" "s' \<in> set (access l)"
      "rk (suffix_cols l) s = rk (suffix_cols l) s'" "answer_after s e' \<noteq> answer_after s' e'"
      using Cons.IH [OF ne _ j(1) o1(1)] by blast
    from suffix_ConsI [OF r(2), of a] r(1,3-6) show ?thesis by (intro exI conjI)
  qed
qed simp

end

end
