(* ===== verification/Learn_Correct.thy ===== *)
theory Learn_Correct
  imports Learn_Machine
begin

text \<open>
  Learning as a whole: against a target that always gives the same answers the learner never blames
  it, ends, and a machine it reports as complete reproduces the answers it was built from;
  against any target it stays within its budget.
\<close>

text \<open>
  A machine reproduces a target when it answers every access word, and every access word with one
  more symbol, the way the target does, and the target tells any two of its states apart.
\<close>

definition reproduces :: "(query \<Rightarrow> query) \<Rightarrow> query \<Rightarrow> mealy \<Rightarrow> bool" where
  "reproduces tgt A m \<longleftrightarrow> Mealy_States m = length (Access m) \<and> Access m \<noteq> [] \<and>
     (\<forall>s \<in> set (Access m). set s \<subseteq> set A \<and> Run m s = Some (tgt s) \<and>
        (\<forall>a \<in> set A. Run m (s @ [a]) = Some (tgt (s @ [a])))) \<and>
     (\<forall>i < length (Access m). \<forall>j < i. \<exists>e. set e \<subseteq> set A \<and>
        drop (length (Access m ! i)) (tgt (Access m ! i @ e)) \<noteq> drop (length (Access m ! j)) (tgt (Access m ! j @ e)))"

lemma fill_options_simps:
  "Alphabet (fill_options opts) = Alphabet opts" "Seed (fill_options opts) = Seed opts"
  "0 < MaxStates (fill_options opts)" "0 < MaxWordLength (fill_options opts)" "0 < MaxQueries (fill_options opts)"
  "MaxWordLength opts < 2 ^ 63 \<Longrightarrow> MaxWordLength (fill_options opts) < 2 ^ 63"
  by (simp_all add: fill_options_def Let_def DefaultMaxStates_def DefaultMaxWordLength_def DefaultMaxQueries_def)

definition innocent :: "'e learn_report \<Rightarrow> bool" where
  "innocent rep \<longleftrightarrow> Why rep \<noteq> NotDeterministic \<and> (\<forall>n. Why rep \<noteq> ManyRounds n)"

lemma Partial_simps [simp]:
  "Partial (report rep e l)" "Partial (give_up rep y l)" "Partial (fill_report rep l) = Partial rep"
  "Rounds (fill_report rep l) = Rounds rep"
  by (simp_all add: report_def give_up_def fill_report_def)

lemma innocent_report [simp]: "innocent (report rep e l)"
  by (cases e) (simp_all add: innocent_def report_def)

lemma innocent_update [simp]:
  "innocent (rep\<lparr>Checked := c\<rparr>) = innocent rep" "innocent (rep\<lparr>Rounds := k\<rparr>) = innocent rep"
  "innocent (fill_report rep l) = innocent rep" "innocent (give_up rep StatesCap l)"
  by (simp_all add: innocent_def fill_report_def give_up_def)

context quiet_answers
begin

section \<open>New columns\<close>

lemma new_suffixes_sub: "set (new_suffixes H cx) \<subseteq> {e. e \<noteq> [] \<and> suffix e cx}"
proof (induction H cx rule: new_suffixes.induct)
  case (2 H a w)
  have "e \<noteq> [] \<and> suffix e w \<Longrightarrow> e \<noteq> [] \<and> suffix e (a # w)" for e
    by (auto intro: suffix_ConsI)
  then have sub: "{e. e \<noteq> [] \<and> suffix e w} \<subseteq> {e. e \<noteq> [] \<and> suffix e (a # w)}" by blast
  show ?case
  proof (cases "key (a # w) \<in> H")
    case True
    then show ?thesis using subset_trans [OF "2.IH"(1) [OF True] sub] by simp
  next
    case False
    then show ?thesis using subset_trans [OF "2.IH"(2) [OF False] sub] by simp
  qed
qed simp

lemma new_suffixes_all:
  "plain cx \<Longrightarrow> e \<noteq> [] \<Longrightarrow> suffix e cx \<Longrightarrow> key e \<in> H \<or> e \<in> set (new_suffixes H cx)"
proof (induction H cx rule: new_suffixes.induct)
  case (2 H a w)
  have p: "plain w" using "2.prems"(1) by (simp add: plain_def nul_free_def)
  consider "e = a # w" | "suffix e w" using "2.prems"(3) suffix_Cons by metis
  then show ?case
  proof cases
    case 1
    then show ?thesis by simp
  next
    case 2
    then have "plain e" using p by (auto simp: plain_def nul_free_def suffix_def)
    then have "key e = key (a # w) \<Longrightarrow> e = a # w" using key_inj "2.prems"(1) by blast
    then show ?thesis using "2.IH" [OF _ p "2.prems"(2) 2] by auto
  qed
qed simp

text \<open>A row not yet represented: the next closing must add a state.\<close>

definition unsplit :: "query \<Rightarrow> 'w learner \<Rightarrow> bool" where
  "unsplit A l \<longleftrightarrow> (\<exists>x \<in> set (extensions (access l) A). rk (suffix_cols l) x \<notin> rk (suffix_cols l) ` set (access l))"

lemma alike_mono: "set es \<subseteq> set es' \<Longrightarrow> alike es' s s' \<Longrightarrow> alike es s s'"
  by (auto simp: alike_def)

lemma addSuffixes_splits:
  assumes m: "memory_ok A l" and t: "table_ok l" and d: "describes A l mc" and p: "plain A"
    and cx: "cx \<noteq> []" "set cx \<subseteq> set A" "Run mc cx = Some want" "last want \<noteq> last (tgt cx)"
  shows "\<exists>l'. addSuffixes cx l = (True, l') \<and> memory_ok A l' \<and> table_ok l' \<and> access l' = access l \<and> unsplit A l'"
proof -
  let ?E = "suffix_cols l" and ?new = "new_suffixes (key ` set (suffix_cols l)) cx"
  let ?E' = "?E @ ?new" and ?l = "l\<lparr>suffix_cols := ?E @ ?new, rows := Map.empty\<rparr>"
  have fit: "cols_fit A ?E" using m by (simp add: memory_ok_def)
  have zero: "0 < length (access l)" "access l ! 0 = []" using t by (auto simp: table_ok_def hd_conv_nth)
  from disagreement_splits [OF d cx(1,2) zero(1), of want] cx(3,4) zero(2) obtain e s s' where
    e: "e \<noteq> []" "suffix e cx" "s \<in> set (extensions (access l) A)" "s' \<in> set (access l)"
    "rk ?E s = rk ?E s'" "answer_after s e \<noteq> answer_after s' e" by (auto simp: Run_def)
  have plain_cx: "plain cx" using plain_words p cx(2) by blast
  have "e \<notin> set ?E" using e(5,6) rk_alike [OF fit] by (auto simp: alike_def)
  moreover have "e' \<in> set ?E \<Longrightarrow> plain e'" for e' using fit p plain_words by (simp add: cols_fit_def)
  moreover have "plain e" using plain_cx e(2) by (auto simp: plain_def nul_free_def suffix_def)
  ultimately have "key e \<notin> key ` set ?E" using key_inj by blast
  then have new: "e \<in> set ?new" using new_suffixes_all [OF plain_cx e(1,2)] by blast
  have fit': "cols_fit A ?E'" unfolding cols_fit_def
  proof (intro conjI ballI)
    fix x assume "x \<in> set ?E'"
    then consider "x \<in> set ?E" | "x \<noteq> []" "suffix x cx" using new_suffixes_sub by auto
    then have x: "x \<noteq> [] \<and> set x \<subseteq> set A \<and> (x \<in> set ?E \<and> (tl x = [] \<or> tl x \<in> set ?E) \<or> suffix (tl x) cx)"
    proof cases
      case 2
      then show ?thesis using cx(2) set_mono_suffix suffix_tl by (metis subset_trans suffix_order.trans)
    qed (use fit in \<open>simp add: cols_fit_def\<close>)
    then show "x \<noteq> []" "set x \<subseteq> set A" by blast+
    from x show "tl x = [] \<or> tl x \<in> set ?E'"
    proof (elim conjE disjE)
      assume "suffix (tl x) cx"
      then have "tl x = [] \<or> key (tl x) \<in> key ` set ?E \<or> tl x \<in> set ?new" using new_suffixes_all [OF plain_cx] by blast
      moreover have "tl x \<in> set ?E" if k: "key (tl x) \<in> key ` set ?E"
      proof -
        from k obtain y where y: "y \<in> set ?E" "key (tl x) = key y" by auto
        have "plain y" using y(1) fit p plain_words by (simp add: cols_fit_def)
        moreover have "plain (tl x)" using plain_words [OF p] x by (metis list.set_sel(2) subset_iff)
        ultimately show ?thesis using key_inj y by metis
      qed
      ultimately show ?thesis by auto
    qed simp_all
  qed (use fit in \<open>simp add: cols_fit_def\<close>)
  have finer: "rk ?E' x = rk ?E' y \<Longrightarrow> rk ?E x = rk ?E y" for x y
    using rk_alike [OF fit'] rk_alike [OF fit] alike_mono [of ?E ?E' x y] by auto
  have "memory_ok A ?l" using m fit' by (simp add: memory_ok_def)
  moreover have "distinct (map (rk ?E') (access l))"
    using t finer unfolding table_ok_def distinct_map inj_on_def by blast
  then have "table_ok ?l" using t by (simp add: table_ok_def)
  moreover have "unsplit A ?l" unfolding unsplit_def
  proof (intro bexI [of _ s])
    show "rk (suffix_cols ?l) s \<notin> rk (suffix_cols ?l) ` set (access ?l)"
    proof
      assume "rk (suffix_cols ?l) s \<in> rk (suffix_cols ?l) ` set (access ?l)"
      then obtain y where y: "y \<in> set (access l)" "rk ?E' s = rk ?E' y" by auto
      have "rk ?E y = rk ?E s'" using finer [OF y(2)] e(5) by simp
      then have "y = s'" using t y(1) e(4) by (auto simp: table_ok_def distinct_map inj_on_def)
      then show False using y(2) rk_alike [OF fit'] new e(6) by (auto simp: alike_def)
    qed
  qed (use e(3) in simp)
  moreover have "addSuffixes cx l = (True, ?l)" using new by (auto simp: addSuffixes_def Let_def)
  ultimately show ?thesis by (intro exI [of _ ?l]) simp
qed

lemma unsplit_grows:
  assumes "unsplit A l" and "suffix_cols l' = suffix_cols l" and "prefix (access l) (access l')" and "closed_table A l'"
  shows "length (access l) < length (access l')"
proof (rule ccontr)
  assume "\<not> length (access l) < length (access l')"
  then have "access l' = access l" using assms(3) by (auto simp: prefix_def)
  then show False using assms(1,2,4) unfolding unsplit_def closed_table_def by metis
qed

section \<open>The search\<close>

lemma draw_word_ok:
  assumes "A \<noteq> []" and "int (length A) < 2 ^ 63"
  shows "ok (draw_word A n r) (\<lambda>(w, r). length w = n \<and> set w \<subseteq> set A)"
proof (induction n arbitrary: r)
  case (Suc n)
  have "ok (Intn (int (length A)) r) (\<lambda>(i, r). 0 \<le> i \<and> i < int (length A))"
    using assms by (intro ok_Intn) auto
  then obtain i r1 where i: "Intn (int (length A)) r = Some (i, r1)" "0 \<le> i" "i < int (length A)"
    by (elim okE) auto
  from Suc [of r1] obtain w r2 where "draw_word A n r1 = Some (w, r2)" "length w = n" "set w \<subseteq> set A"
    by (elim okE) auto
  then show ?case using i by (simp add: get_at_def nat_less_iff)
qed simp

lemma first_difference_ok:
  "length got = length w \<Longrightarrow> length want = length w \<Longrightarrow>
   first_difference k w got want = Some None \<or>
   (\<exists>j < length w. first_difference k w got want = Some (Some (k + j)) \<and> got ! j \<noteq> want ! j)"
proof (induction k w got want rule: first_difference.induct)
  case (2 k a w g got x want)
  show ?case
  proof (cases "g = x")
    case True
    with "2.IH" "2.prems" consider "first_difference (Suc k) w got want = Some None" |
      j where "j < length w" "first_difference (Suc k) w got want = Some (Some (Suc k + j))" "got ! j \<noteq> want ! j" by auto
    then show ?thesis
    proof cases
      case 2
      then show ?thesis using True by (intro disjI2 exI [of _ "Suc j"]) simp
    qed (use True in simp)
  qed (use "2.prems" in \<open>auto intro: exI [of _ 0]\<close>)
qed simp_all

lemma search_answers:
  assumes "memory_ok (Alphabet opts) l" and "describes (Alphabet opts) l mc" and "access l \<noteq> []"
    and "plain (Alphabet opts)" and "honest t" and "Alphabet opts \<noteq> []" and "int (length (Alphabet opts)) < 2 ^ 63"
    and "0 < MaxWordLength opts" and "MaxWordLength opts < 2 ^ 63"
  shows "ok (search t opts mc n checked r l) (\<lambda>((res, c), r, l'). memory_ok (Alphabet opts) l' \<and>
    access l' = access l \<and> suffix_cols l' = suffix_cols l \<and>
    (\<forall>cx. res = Inr (Some cx) \<longrightarrow> cx \<noteq> [] \<and> set cx \<subseteq> set (Alphabet opts) \<and>
       (\<exists>want. Run mc cx = Some want \<and> last want \<noteq> last (tgt cx))))"
  using assms(1-3)
proof (induction n arbitrary: checked r l)
  case 0
  then show ?case by simp
next
  case (Suc n)
  let ?A = "Alphabet opts"
  have "ok (Intn (MaxWordLength opts) r) (\<lambda>(k, r). 0 \<le> k)"
    using assms(8,9) by (intro ok_Intn) auto
  then obtain k r1 where k: "Intn (MaxWordLength opts) r = Some (k, r1)" "0 \<le> k" by (elim okE) auto
  from draw_word_ok [OF assms(6,7), of "nat (1 + k)" r1] obtain w r2 where
    w: "draw_word ?A (nat (1 + k)) r1 = Some (w, r2)" "length w = nat (1 + k)" "set w \<subseteq> set ?A" by (elim okE) auto
  have "w \<noteq> []" using w(2) k(2) by auto
  obtain res l1 where a: "ask t opts True w l = (res, l1)" by force
  note one = ask_answers(1) [OF Suc.prems(1) assms(4,5) w(3) \<open>w \<noteq> []\<close> a]
  have l1: "memory_ok ?A l1" "access l1 = access l" "suffix_cols l1 = suffix_cols l" using one by (simp_all add: keeps_def)
  show ?case
  proof (cases res)
    case (Inl e)
    then show ?thesis using k(1) w(1) a l1 by simp
  next
    case (Inr got)
    then have got: "got = tgt w" using one by simp
    have zero: "0 < length (access l)" using Suc.prems(3) by simp
    from run_from_total [OF Suc.prems(2) zero w(3)] obtain want where want: "run_from mc 0 w = Some want" "length want = length w"
      by blast
    from first_difference_ok [of got w want 0] want(2) got answer_length [of w] consider
      (agree) "first_difference 0 w got want = Some None" |
      (differ) j where "j < length w" "first_difference 0 w got want = Some (Some j)" "got ! j \<noteq> want ! j" by auto
    then show ?thesis
    proof cases
      case agree
      have "describes ?A l1 mc" using Suc.prems(2) l1 by (simp add: describes_def)
      then show ?thesis using Suc.IH [of l1 "checked + 1" r2] l1 Suc.prems(3) k(1) w(1) a Inr want(1) agree
        by (simp add: Run_def)
    next
      case differ
      let ?cx = "take (Suc j) w"
      have "set ?cx \<subseteq> set ?A" "?cx \<noteq> []" using w(3) \<open>w \<noteq> []\<close> set_take_subset [of "Suc j" w] by auto
      from run_from_total [OF Suc.prems(2) zero this(1)] obtain x where x: "run_from mc 0 ?cx = Some x" "length x = Suc j"
        using differ(1) by auto
      have "set (?cx @ drop (Suc j) w) \<subseteq> set ?A" using w(3) by simp
      from run_from_append [OF Suc.prems(2) zero this] want(1) x(1)
      have "do { y \<leftarrow> run_from mc (goes mc 0 ?cx) (drop (Suc j) w); Some (x @ y) } = Some want" by simp
      then obtain y where "want = x @ y" by (auto simp: bind_eq_Some_conv)
      then have "last x = want ! j" using x(2) by (cases x rule: rev_cases) (auto simp: nth_append)
      moreover have "tgt ?cx = take (Suc j) (tgt w)"
        using answer_split [of ?cx "drop (Suc j) w"] answer_length [of ?cx] differ(1) by simp
      then have "last (tgt ?cx) = got ! j" using got differ(1) answer_length [of w] by (simp add: take_Suc_conv_app_nth)
      ultimately have "last x \<noteq> last (tgt ?cx)" using differ(3) by simp
      then show ?thesis using k(1) w(1) a Inr want(1) differ(2) l1 x(1) \<open>set ?cx \<subseteq> set ?A\<close> \<open>?cx \<noteq> []\<close>
        by (simp add: Run_def)
    qed
  qed
qed

section \<open>The machine of a closed table\<close>

lemma describes_reproduces:
  assumes m: "memory_ok A l" and t: "table_ok l" and d: "describes A l mc"
  shows "reproduces tgt A mc"
proof -
  let ?S = "access l" and ?E = "suffix_cols l"
  have words: "\<forall>s \<in> set ?S. set s \<subseteq> set A" and fit: "cols_fit A ?E" using m by (simp_all add: memory_ok_def)
  have zero: "0 < length ?S" using t by (simp add: table_ok_def)
  have acc: "Access mc = ?S" "Mealy_States mc = length ?S" using d by (simp_all add: describes_def Mealy_States_def)
  have "Run mc s = Some (tgt s) \<and> (\<forall>a \<in> set A. Run mc (s @ [a]) = Some (tgt (s @ [a])))" if s: "s \<in> set ?S" for s
  proof -
    from s obtain i where i: "i < length ?S" "?S ! i = s" by (auto simp: in_set_conv_nth)
    from access_reached [OF d t words i(1)] i(2) have r: "run_from mc 0 s = Some (tgt s)" "goes mc 0 s = i" by simp_all
    have "run_from mc 0 (s @ [a]) = Some (tgt (s @ [a]))" if a: "a \<in> set A" for a
    proof -
      from describes_step [OF d i(1) a] obtain j where
        "\<forall>w. run_from mc i (a # w) = do { out \<leftarrow> run_from mc j w; Some (last (tgt (?S ! i @ [a])) # out) }" by metis
      from spec [OF this, of "[]"] i(2) have "run_from mc i [a] = Some [last (tgt (s @ [a]))]" by simp
      moreover have "set (s @ [a]) \<subseteq> set A" using words s a by simp
      ultimately have "run_from mc 0 (s @ [a]) = Some (tgt s @ [last (tgt (s @ [a]))])"
        using run_from_append [OF d zero, of s "[a]"] r by simp
      then show ?thesis using answer_split [of s "[a]"] answer_after_one [of s a] by metis
    qed
    then show ?thesis using r(1) by (simp add: Run_def)
  qed
  moreover have "\<exists>e. set e \<subseteq> set A \<and> answer_after (?S ! i) e \<noteq> answer_after (?S ! j) e"
    if "i < length ?S" "j < i" for i j
  proof -
    have "rk ?E (?S ! i) \<noteq> rk ?E (?S ! j)" using t that by (auto simp: table_ok_def distinct_conv_nth)
    then obtain e where "e \<in> set ?E" "answer_after (?S ! i) e \<noteq> answer_after (?S ! j) e"
      using rk_alike [OF fit] by (auto simp: alike_def)
    then show ?thesis using fit by (auto simp: cols_fit_def)
  qed
  ultimately show ?thesis using words zero by (simp add: reproduces_def acc flip: answer_after_def)
qed

section \<open>No panic on an unfinished table\<close>

lemma representatives_total:
  assumes "memory_ok A l" and "plain A" and "honest t" and "\<forall>s \<in> set ss \<union> snd ` set reps. set s \<subseteq> set A"
  shows "ok (representatives t opts ss reps l) (\<lambda>(reps', l'). memory_ok A l' \<and> (\<forall>s \<in> snd ` set reps'. set s \<subseteq> set A))"
  using assms(1,4)
proof (induction ss arbitrary: reps l)
  case (Cons s ss)
  from row_answers [OF Cons.prems(1) assms(2,3), of s opts False] Cons.prems(2) obtain res l1 where
    r: "row t opts False s l = Some (res, l1)" "memory_ok A l1" by (auto elim!: okE)
  show ?case
  proof (cases res)
    case (Inr x)
    have "\<forall>s \<in> set ss \<union> snd ` set (if key x \<in> fst ` set reps then reps else reps @ [(key x, s)]). set s \<subseteq> set A"
      using Cons.prems(2) by auto
    from Cons.IH [OF r(2) this] r(1) Inr show ?thesis by simp
  qed (use r Cons.prems(2) in simp)
qed simp

lemma state_moves_total:
  assumes "memory_ok A l" and "plain A" and "honest t" and "set as \<subseteq> set A" and "set s \<subseteq> set A"
  shows "ok (state_moves t opts reps s as tr ou l) (\<lambda>(_, l'). memory_ok A l')"
  using assms(1,4)
proof (induction "as" arbitrary: tr ou l)
  case (Cons a as)
  let ?w = "s @ [a]"
  have w: "set ?w \<subseteq> set A" "set as \<subseteq> set A" using Cons.prems(2) assms(5) by simp_all
  from row_answers [OF Cons.prems(1) assms(2,3) w(1), of opts False] obtain res l1 where
    r: "row t opts False ?w l = Some (res, l1)" "memory_ok A l1" by (auto elim!: okE)
  show ?case
  proof (cases res)
    case (Inl e)
    then show ?thesis using Cons.IH [OF r(2) w(2)] r(1) by simp
  next
    case (Inr x)
    obtain res' l2 where a: "ask t opts False ?w l1 = (res', l2)" by force
    note one = ask_answers(1) [OF r(2) assms(2,3) w(1) _ a]
    have "tgt ?w \<noteq> []" using answer_length [of ?w] by (metis append_is_Nil_conv length_0_conv not_Cons_self2)
    with one have l2: "memory_ok A l2" "\<forall>out. res' = Inr out \<longrightarrow> out \<noteq> []" by auto
    then show ?thesis using Cons.IH [OF l2(1) w(2)] r(1) Inr a by (cases res') (simp_all add: Let_def)
  qed
qed simp

lemma all_moves_total:
  assumes "memory_ok (Alphabet opts) l" and "plain (Alphabet opts)" and "honest t" and "\<forall>s \<in> set ss. set s \<subseteq> set (Alphabet opts)"
  shows "ok (all_moves t opts reps ss l) (\<lambda>(_, l'). memory_ok (Alphabet opts) l')"
  using assms(1,4)
proof (induction ss arbitrary: l)
  case (Cons s ss)
  from state_moves_total [OF Cons.prems(1) assms(2,3) order_refl, of s opts reps "[]" "[]"] Cons.prems(2) obtain x l1 where
    x: "state_moves t opts reps s (Alphabet opts) [] [] l = Some (x, l1)" "memory_ok (Alphabet opts) l1" by (auto elim!: okE)
  from Cons.IH [OF x(2)] Cons.prems(2) obtain y l2 where
    "all_moves t opts reps ss l1 = Some (y, l2)" "memory_ok (Alphabet opts) l2" by (auto elim!: okE)
  then show ?case using x by (cases x; cases y) simp
qed simp

lemma hypothesis_total:
  assumes "memory_ok (Alphabet opts) l" and "plain (Alphabet opts)" and "honest t"
  shows "ok (hypothesis t opts l) (\<lambda>_. True)"
proof -
  have "\<forall>s \<in> set (access l) \<union> snd ` set []. set s \<subseteq> set (Alphabet opts)" using assms(1) by (simp add: memory_ok_def)
  from representatives_total [OF assms this, of opts] obtain reps l1 where
    r: "representatives t opts (access l) [] l = Some (reps, l1)" "memory_ok (Alphabet opts) l1"
    "\<forall>s \<in> snd ` set reps. set s \<subseteq> set (Alphabet opts)" by (elim okE) auto
  let ?reps = "if reps = [] then [([], [])] else reps"
  have "\<forall>s \<in> set (map snd ?reps). set s \<subseteq> set (Alphabet opts)" using r(3) by (cases "reps = []") simp_all
  from all_moves_total [OF r(2) assms(2,3) this, of ?reps] obtain x l2 where
    "all_moves t opts ?reps (map snd ?reps) l1 = Some (x, l2)" by (elim okE) auto
  then show ?thesis using r(1) by (cases x) (simp add: hypothesis_def Let_def)
qed

section \<open>The whole loop\<close>

lemma learn_loop_sound:
  assumes "plain (Alphabet opts)" and "honest t" and "Alphabet opts \<noteq> []" and "int (length (Alphabet opts)) < 2 ^ 63"
    and "0 < MaxWordLength opts" and "MaxWordLength opts < 2 ^ 63"
    and "memory_ok (Alphabet opts) l" and "table_ok l" and "innocent rep" and "\<not> Partial rep"
    and "int (Rounds rep) < MaxStates opts"
    and "Rounds rep < length (access l) \<or> Rounds rep = length (access l) \<and> unsplit (Alphabet opts) l"
  shows "ok (learn_loop t opts rep r l) (\<lambda>((m, rep'), l'). innocent rep' \<and>
    (\<not> Partial rep' \<longrightarrow> reproduces tgt (Alphabet opts) m \<and> Rounds rep' \<le> Mealy_States m))"
  using assms
proof (induction t opts rep r l rule: learn_loop.induct)
  case (1 t opts rep r l)
  let ?A = "Alphabet opts"
  note pl = "1.prems"(1) and hon = "1.prems"(2)
  from close_answers [OF "1.prems"(7,8,1,2), of True] obtain err l1 where
    c: "close t opts True l = Some (err, l1)" "memory_ok ?A l1" "suffix_cols l1 = suffix_cols l"
    "err = None \<longrightarrow> prefix (access l) (access l1) \<and> table_ok l1 \<and> closed_table ?A l1" by (elim okE) auto
  show ?case
  proof (cases err)
    case (Some e)
    from hypothesis_total [OF c(2) pl hon] obtain m l2 where "hypothesis t opts l1 = Some (m, l2)" by (auto elim!: okE)
    then have "learn_loop t opts rep r l = Some ((m, report rep e l2), l2)"
      using c(1) Some by (simp add: learn_loop.simps [of t opts rep r l])
    moreover have "Partial (report rep e l2)" by (simp add: report_def)
    ultimately show ?thesis by simp
  next
    case None
    then have cl: "prefix (access l) (access l1)" "table_ok l1" "closed_table ?A l1" using c(4) by simp_all
    from hypothesis_describes [OF c(2) cl(2,3) pl hon] obtain m k where
      h: "hypothesis t opts l1 = Some (m, l1\<lparr>cached := k\<rparr>)" "describes ?A l1 m" by blast
    let ?l = "l1\<lparr>cached := k\<rparr>" and ?rep = "rep\<lparr>Rounds := Rounds rep + 1\<rparr>"
    have len: "length (Trans m) = length (access l1)" using h(2) by (simp add: describes_def)
    have "length (access l) \<le> length (access l1)" using cl(1) by (rule prefix_length_le)
    then have rounds: "Rounds rep + 1 \<le> length (access l1)"
      using "1.prems"(12) unsplit_grows [OF _ c(3) cl(1,3)] by auto
    have "1 \<le> length ?A" using "1.prems"(3) by (cases ?A) auto
    then have "MaxStates opts * 1 \<le> MaxStates opts * int (length ?A)" using "1.prems"(11) by (intro mult_left_mono) auto
    moreover have "int (Rounds ?rep) = int (Rounds rep) + 1" by simp
    ultimately have few: "\<not> int (Rounds ?rep) > maxRounds opts" using "1.prems"(11) unfolding maxRounds_def by linarith
    have rp: "reproduces tgt ?A m" "Mealy_States m = length (access l1)"
      using describes_reproduces [OF c(2) cl(2) h(2)] len by (simp_all add: Mealy_States_def)
    note unf = learn_loop.simps [of t opts rep r l] c(1) None h(1)
    show ?thesis
    proof (cases "int (length (Trans m)) \<ge> MaxStates opts")
      case True
      then show ?thesis using few by (simp add: unf Let_def)
    next
      case False
      have base: "memory_ok ?A ?l" "describes ?A ?l m" "access ?l \<noteq> []" "table_ok ?l"
        using c(2) h(2) cl(2) by (simp_all add: table_ok_def)
      from search_answers [OF base(1-3) pl hon "1.prems"(3-6), of "nat (EquivalenceWords opts)" 0 r] obtain res n r2 l2 where
        s: "findCounterexample t opts m r ?l = Some ((res, n), r2, l2)" "memory_ok ?A l2" "access l2 = access l1"
        "suffix_cols l2 = suffix_cols l1"
        "\<forall>cx. res = Inr (Some cx) \<longrightarrow> cx \<noteq> [] \<and> set cx \<subseteq> set ?A \<and> (\<exists>want. Run m cx = Some want \<and> last want \<noteq> last (tgt cx))"
        unfolding findCounterexample_def by (elim okE) auto
      consider (failed) e where "res = Inl e" | (settled) "res = Inr None" | (found) cx where "res = Inr (Some cx)"
        by (metis sum.exhaust option.exhaust)
      then show ?thesis
      proof cases
        case failed
        then show ?thesis using few False s(1) by (simp add: unf Let_def)
      next
        case settled
        then show ?thesis using few False s(1) "1.prems"(9) rp rounds by (simp add: unf Let_def)
      next
        case found
        then obtain want where cx: "cx \<noteq> []" "set cx \<subseteq> set ?A" "Run m cx = Some want" "last want \<noteq> last (tgt cx)" using s(5) by blast
        have "table_ok l2" "describes ?A l2 m" using cl(2) h(2) s(3,4) by (simp_all add: table_ok_def describes_def)
        from addSuffixes_splits [OF s(2) this pl cx] obtain l3 where
          l3: "addSuffixes cx l2 = (True, l3)" "memory_ok ?A l3" "table_ok l3" "access l3 = access l2" "unsplit ?A l3" by blast
        let ?rep' = "?rep\<lparr>Checked := n\<rparr>"
        have room: "int (Rounds ?rep') < MaxStates opts" using rounds False len by simp
        have prog: "Rounds ?rep' < length (access l3) \<or> Rounds ?rep' = length (access l3) \<and> unsplit ?A l3"
          using rounds l3(4,5) s(3) by auto
        have "learn_loop t opts rep r l = learn_loop t opts ?rep' r2 l3"
          using few False s(1) found l3(1) by (simp add: unf Let_def)
        moreover have "ok (learn_loop t opts ?rep' r2 l3) (\<lambda>((m, rep'), l'). innocent rep' \<and>
            (\<not> Partial rep' \<longrightarrow> reproduces tgt ?A m \<and> Rounds rep' \<le> Mealy_States m))"
        proof (rule "1.IH" [OF c(1) _ None h(1)])
          show "findCounterexample t opts m r ?l = Some ((res, n), r2, l2)" by (rule s(1))
          show "(True, l3) = addSuffixes cx l2" by (rule l3(1) [symmetric])
        qed (use few False found l3 room prog "1.prems" in simp_all)
        ultimately show ?thesis by simp
      qed
    qed
  qed
qed

lemma Learn_sound:
  assumes "honest t" and "Alphabet opts \<noteq> []" and "plain (Alphabet opts)"
    and "int (length (Alphabet opts)) < 2 ^ 63" and "MaxWordLength opts < 2 ^ 63"
  shows "ok (Learn t opts v) (\<lambda>(res, v'). case res of None \<Rightarrow> False | Some (m, rep) \<Rightarrow> innocent rep \<and>
    (\<not> Partial rep \<longrightarrow> reproduces tgt (Alphabet opts) m \<and> Rounds rep \<le> Mealy_States m))"
proof -
  let ?o = "fill_options opts"
  let ?l = "\<lparr>access = [[]], suffix_cols = map (\<lambda>a. [a]) (Alphabet opts), cache = Map.empty, rows = Map.empty,
              queries = 0, cached = 0, world = v\<rparr>"
  let ?rep = "\<lparr>Queries = 0, Cached = 0, Rounds = 0, Checked = 0, Partial = False, Why = Settled\<rparr>"
  have "memory_ok (Alphabet opts) ?l" by (auto simp: memory_ok_def cols_fit_def)
  moreover have "table_ok ?l" by (simp add: table_ok_def)
  ultimately have "ok (learn_loop t ?o ?rep (Rng.New (Seed ?o)) ?l) (\<lambda>((m, rep'), l'). innocent rep' \<and>
    (\<not> Partial rep' \<longrightarrow> reproduces tgt (Alphabet opts) m \<and> Rounds rep' \<le> Mealy_States m))"
    using learn_loop_sound [of ?o t ?l ?rep "Rng.New (Seed ?o)"] assms fill_options_simps [of opts]
    by (simp add: innocent_def)
  then show ?thesis using assms(2)
    by (auto simp: Learn_def fill_options_simps elim!: okE)
qed

end

text \<open>C21. Against a target that always gives the same answers, symbol by symbol, learning returns
  without panicking and never blames the target for being no machine. When the report does not
  say partial, the machine answers every access word and every one-symbol extension of it as
  the target does, any two of its states are states the target tells apart, and it took no
  more rounds than states.\<close>

theorem Learn_reproduces:
  assumes "quiet_answers tgt" and "\<And>b w v out v'. Output t b w v = (Inr out, v') \<Longrightarrow> out = tgt w"
    and "Alphabet opts \<noteq> []" and "plain (Alphabet opts)"
    and "int (length (Alphabet opts)) < 2 ^ 63" and "MaxWordLength opts < 2 ^ 63"
  shows "ok (Learn t opts v) (\<lambda>(res, v'). case res of None \<Rightarrow> False | Some (m, rep) \<Rightarrow>
    Why rep \<noteq> NotDeterministic \<and> (\<forall>n. Why rep \<noteq> ManyRounds n) \<and>
    (\<not> Partial rep \<longrightarrow> reproduces tgt (Alphabet opts) m \<and> Rounds rep \<le> Mealy_States m))"
proof -
  have "quiet_answers.honest tgt t" unfolding quiet_answers.honest_def [OF assms(1)] using assms(2) by metis
  from quiet_answers.Learn_sound [OF assms(1) this assms(3-6)] show ?thesis
    unfolding innocent_def conj_assoc .
qed

end
