(* ===== verification/Exec_Session.thy ===== *)
theory Exec_Session
  imports State_Model Learn_Correct
begin

text \<open>
  The session executor, \<open>pkg/executor/session.go\<close>: connect under the reset policy, send each
  message, read and label each reply, and classify how the session ended; and the teacher of the learner
  over it, \<open>internal/worker/learn.go\<close>. The target, its process, the connection and the clocks
  are a parameter: what each operation answers and the next state of the outside world. Of the
  campaign's observers the state observer and the output observer are modelled, the
  ones the executor writes to, whose own hooks never fail; the others stand after them in the
  list, as part of the outside world, and may refuse to be armed or harvested.
\<close>

section \<open>The world outside\<close>

record proc_result =
  OOM :: bool
  TimedOut :: bool
  Signal :: int
  ExitCode :: int

datatype read_end = Read_fine | Read_EOF | Read_timeout | Read_failed

record ('p, 'x) site =
  Connect :: "'p \<Rightarrow> 'x option \<times> 'p" \<comment> \<open>the error, if any\<close>
  Launch :: "'p \<Rightarrow> 'x option \<times> 'p" \<comment> \<open>\<open>startServer\<close>, which waits until the target listens\<close>
  Kill :: "'p \<Rightarrow> 'p"
  Close :: "'p \<Rightarrow> 'p"
  Write :: "byte list \<Rightarrow> 'p \<Rightarrow> bool \<times> 'p" \<comment> \<open>whether it failed\<close>
  Read :: "bool \<Rightarrow> 'p \<Rightarrow> (byte list \<times> read_end) \<times> 'p" \<comment> \<open>whether an earlier message went unanswered\<close>
  Lapsed :: "'p \<Rightarrow> bool" \<comment> \<open>the session's time is up\<close>
  Gone :: "'p \<Rightarrow> proc_result option" \<comment> \<open>the managed process has ended, and how\<close>
  Await :: "'p \<Rightarrow> 'p"
  Stderr :: "'p \<Rightarrow> byte list"
  ArmFails :: "'p \<Rightarrow> 'x option" \<comment> \<open>another observer's \<open>Pre\<close>\<close>
  PostFails :: "exit_kind \<Rightarrow> 'p \<Rightarrow> 'x option" \<comment> \<open>another observer's \<open>Post\<close>\<close>

datatype reset_policy = ResetNone | ResetReconnect | ResetRestart | ResetSnapshot
datatype framing = FrameIdle | FrameLine | FrameNone

record collected =
  outStdout :: "byte list"
  outStderr :: "byte list"
  outExitCode :: int
  outSignal :: int

record 'p session =
  policy :: reset_policy
  framed :: framing
  managed :: bool \<comment> \<open>\<open>spawner\<close>\<close>
  serving :: bool \<comment> \<open>\<open>srv\<close>\<close>
  connected :: bool \<comment> \<open>\<open>conn\<close>\<close>
  watcher :: "observer option" \<comment> \<open>\<open>States\<close>\<close>
  captured :: "collected option" \<comment> \<open>\<open>Output\<close>\<close>
  execs :: u64
  outer :: 'p

section \<open>Process and connection\<close>

definition sigKill :: int where "sigKill = 9"
definition sigTerm :: int where "sigTerm = 15"

definition exited :: "('p, 'x) site \<Rightarrow> 'p session \<Rightarrow> bool" where
  "exited t e \<longleftrightarrow> serving e \<and> Gone t (outer e) \<noteq> None"

definition liveness :: "('p, 'x) site \<Rightarrow> 'p session \<Rightarrow> exit_kind" where
  "liveness t e =
     (if \<not> serving e then ExitOK
      else case Gone t (outer e) of
             None \<Rightarrow> ExitOK
           | Some res \<Rightarrow>
               if OOM res then ExitOOM
               else if TimedOut res then ExitTimeout
               else if Signal res = sigKill \<or> Signal res = sigTerm then ExitOK
               else if Signal res \<noteq> 0 then ExitCrash
               else ExitOK)"

definition dropConnection :: "('p, 'x) site \<Rightarrow> 'p session \<Rightarrow> 'p session" where
  "dropConnection t e = (if connected e then e\<lparr>connected := False, outer := Close t (outer e)\<rparr> else e)"

definition endSession :: "('p, 'x) site \<Rightarrow> 'p session \<Rightarrow> 'p session" where
  "endSession t e = (if policy e \<noteq> ResetNone then dropConnection t e else e)"

definition awaitExit :: "('p, 'x) site \<Rightarrow> 'p session \<Rightarrow> 'p session" where
  "awaitExit t e = (if \<not> serving e \<or> exited t e then e else e\<lparr>outer := Await t (outer e)\<rparr>)"

definition startServer :: "('p, 'x) site \<Rightarrow> 'p session \<Rightarrow> 'x option \<times> 'p session" where
  "startServer t e = (case Launch t (outer e) of (err, p) \<Rightarrow> (err, e\<lparr>serving := (err = None), outer := p\<rparr>))"

definition restartServer :: "('p, 'x) site \<Rightarrow> 'p session \<Rightarrow> 'x option \<times> 'p session" where
  "restartServer t e =
     (let e = dropConnection t e
      in if \<not> managed e then (None, e)
         else let e = (if serving e then e\<lparr>serving := False, outer := Kill t (outer e)\<rparr> else e)
              in startServer t e)"

definition newConnection :: "('p, 'x) site \<Rightarrow> 'p session \<Rightarrow> 'x option \<times> 'p session" where
  "newConnection t e =
     (case Connect t (outer e) of
        (None, p) \<Rightarrow> (None, e\<lparr>connected := True, outer := p\<rparr>)
      | (Some x, p) \<Rightarrow>
          let e = e\<lparr>outer := p\<rparr>
          in if \<not> managed e then (Some x, e)
             else (case restartServer t e of
                (Some x, e) \<Rightarrow> (Some x, e)
              | (None, e) \<Rightarrow>
                  (case Connect t (outer e) of
                     (Some x, p) \<Rightarrow> (Some x, e\<lparr>outer := p\<rparr>)
                   | (None, p) \<Rightarrow> (None, e\<lparr>connected := True, outer := p\<rparr>))))"

definition restart_and_connect :: "('p, 'x) site \<Rightarrow> 'p session \<Rightarrow> 'x option \<times> 'p session" where
  "restart_and_connect t e =
     (case restartServer t e of (Some x, e) \<Rightarrow> (Some x, e) | (None, e) \<Rightarrow> newConnection t e)"

definition open_session :: "('p, 'x) site \<Rightarrow> 'p session \<Rightarrow> 'x option \<times> 'p session" where
  "open_session t e =
     (if serving e \<and> exited t e \<and> policy e \<noteq> ResetRestart then restart_and_connect t e
      else if policy e = ResetRestart then restart_and_connect t e
      else if policy e = ResetNone then (if connected e then (None, e) else newConnection t e)
      else newConnection t (dropConnection t e))"

section \<open>Delivering a session\<close>

definition labelled :: "(observer \<Rightarrow> observer) \<Rightarrow> 'p session \<Rightarrow> 'p session" where
  "labelled f e = e\<lparr>watcher := map_option f (watcher e)\<rparr>"

definition record_output :: "byte list \<Rightarrow> byte list \<Rightarrow> int \<Rightarrow> int \<Rightarrow> 'p session \<Rightarrow> 'p session" where
  "record_output so se code sig e =
     e\<lparr>captured := map_option (\<lambda>_. \<lparr>outStdout = so, outStderr = se, outExitCode = code, outSignal = sig\<rparr>) (captured e)\<rparr>"

definition afterHangup :: "('p, 'x) site \<Rightarrow> 'p session \<Rightarrow> exit_kind \<times> 'p session" where
  "afterHangup t e =
     (let e = awaitExit t (dropConnection t (labelled Hangup e)) in (liveness t e, e))"

fun send_messages :: "('p, 'x) site \<Rightarrow> bool \<Rightarrow> byte list list \<Rightarrow> 'p session \<Rightarrow> exit_kind \<times> 'p session" where
  "send_messages t silent [] e = (let e = endSession t e in (liveness t e, e))"
| "send_messages t silent (m # ms) e =
     (if Lapsed t (outer e) then (ExitTimeout, dropConnection t e)
      else
        (case Write t m (outer e) of
           (True, p) \<Rightarrow> afterHangup t (e\<lparr>outer := p\<rparr>)
         | (False, p) \<Rightarrow>
             let e = e\<lparr>outer := p\<rparr>
             in if framed e = FrameNone then send_messages t silent ms e
                else
                  (case Read t silent (outer e) of
                     ((resp, fin), p) \<Rightarrow>
                       let e = e\<lparr>outer := p\<rparr>;
                           e = (if resp \<noteq> [] then labelled (Response resp) e else e);
                           e = (if resp \<noteq> [] then record_output [] resp 0 0 e else e)
                       in (case fin of
                             Read_EOF \<Rightarrow> afterHangup t e
                           | Read_timeout \<Rightarrow>
                               let e = (if resp = [] then labelled (Response []) e else e)
                               in if exited t e then afterHangup t e else send_messages t True ms e
                           | Read_failed \<Rightarrow> afterHangup t e
                           | Read_fine \<Rightarrow> send_messages t silent ms e))))"

definition deliver :: "('p, 'x) site \<Rightarrow> byte list list \<Rightarrow> 'p session \<Rightarrow> ('x + exit_kind) \<times> 'p session" where
  "deliver t ms e =
     (case open_session t e of
        (Some x, e) \<Rightarrow> (Inl x, e)
      | (None, e) \<Rightarrow> (case send_messages t False ms e of (ek, e) \<Rightarrow> (Inr ek, e)))"

definition harvestStderr :: "('p, 'x) site \<Rightarrow> exit_kind \<Rightarrow> 'p session \<Rightarrow> 'p session" where
  "harvestStderr t ek e =
     (if captured e = None then e
      else
        let buf = Stderr t (outer e);
            (code, sig) = (if serving e then (case Gone t (outer e) of None \<Rightarrow> (0, 0) | Some res \<Rightarrow> (ExitCode res, Signal res))
                           else (0, 0))
        in if ek = ExitOK \<and> buf = [] \<and> sig = 0 \<and> code = 0 then e
           else record_output [] buf code sig e)"

record run_input =
  inBytes :: "byte list"
  inNode :: "node option"

definition messagesOf :: "run_input \<Rightarrow> byte list list" where
  "messagesOf i =
     (case inNode i of
        None \<Rightarrow> if inBytes i = [] then [] else [inBytes i]
      | Some n \<Rightarrow> if Kind (hdr n) \<noteq> KindRepeat then [Encode n] else map Encode (Children n))"

text \<open>\<open>Arm\<close> and the harvest of the two observers.\<close>

definition arm :: "'p session \<Rightarrow> 'p session" where
  "arm e = (labelled Observer_Reset e)\<lparr>captured := map_option (\<lambda>_. \<lparr>outStdout = [], outStderr = [], outExitCode = 0, outSignal = 0\<rparr>) (captured e)\<rparr>"

definition Session_Run :: "('p, 'x) site \<Rightarrow> run_input \<Rightarrow> 'p session \<Rightarrow> ('x + exit_kind) \<times> 'p session" where
  "Session_Run t i e =
     (let ms = messagesOf i
      in if ms = [] then (Inr ExitOK, e)
         else
           let e = arm e
           in case ArmFails t (outer e) of
                Some x \<Rightarrow> (Inl x, e)
              | None \<Rightarrow>
                  (case deliver t ms e of
                     (Inl x, e) \<Rightarrow> (Inl x, e)
                   | (Inr ek, e) \<Rightarrow>
                       let e = e\<lparr>execs := execs e + 1\<rparr>;
                           e = harvestStderr t ek e;
                           e = labelled (Observer_Post ek) e
                       in (case PostFails t ek (outer e) of Some x \<Rightarrow> Inl x | None \<Rightarrow> Inr ek, e)))"

section \<open>The teacher over sessions\<close>

definition closedSymbol :: symbol where
  "closedSymbol = bytes_of ''closed''"

definition wordBytes :: "query \<Rightarrow> (symbol \<rightharpoonup> byte list) \<Rightarrow> byte list" where
  "wordBytes w messages = concat (map (\<lambda>s. case messages s of None \<Rightarrow> [] | Some m \<Rightarrow> m) w)"

definition StateLabels :: "'p session \<Rightarrow> label list" where
  "StateLabels e = (case watcher e of None \<Rightarrow> [] | Some ob \<Rightarrow> States (obTrace ob))"

text \<open>The answers, aligned with the end of the labels.\<close>

definition answers_of :: "label list \<Rightarrow> nat \<Rightarrow> query" where
  "answers_of labels n =
     map (\<lambda>i. let j = int (length labels) - int n + int i
              in if j < 0 \<or> j \<ge> int (length labels) then closedSymbol else labels ! nat j) [0..<n]"

definition teacher_Output :: "('p, 'x) site \<Rightarrow> ('x \<Rightarrow> 'e learn_error) \<Rightarrow> (symbol \<rightharpoonup> byte list) \<Rightarrow> query \<Rightarrow> 'p session \<Rightarrow>
    ('e learn_error + query) \<times> 'p session" where
  "teacher_Output t err messages w e =
     (case restartServer t e of
        (Some x, e) \<Rightarrow> (Inl (err x), e)
      | (None, e) \<Rightarrow>
          (case Session_Run t \<lparr>inBytes = wordBytes w messages, inNode = None\<rparr> e of
             (Inl x, e) \<Rightarrow> (Inl (err x), e)
           | (Inr ek, e) \<Rightarrow> (Inr (answers_of (StateLabels e) (length w)), e)))"

definition sessionTeacher :: "('p, 'x) site \<Rightarrow> ('x \<Rightarrow> 'e learn_error) \<Rightarrow> ('p session \<Rightarrow> bool) \<Rightarrow> (symbol \<rightharpoonup> byte list) \<Rightarrow>
    ('p session, 'e) target" where
  "sessionTeacher t err done messages = \<lparr>Output = (\<lambda>_. teacher_Output t err messages), Expired = done\<rparr>"

section \<open>What a session leaves behind\<close>

named_theorems session_frame \<open>what the connection and process operations leave alone\<close>

lemma dropConnection_frame [session_frame]:
  "watcher (dropConnection t e) = watcher e" "framed (dropConnection t e) = framed e"
  by (simp_all add: dropConnection_def)

lemma endSession_frame [session_frame]: "watcher (endSession t e) = watcher e"
  by (simp add: endSession_def session_frame)

lemma awaitExit_frame [session_frame]: "watcher (awaitExit t e) = watcher e"
  by (simp add: awaitExit_def)

lemma startServer_frame: "startServer t e = (x, e') \<Longrightarrow> watcher e' = watcher e \<and> framed e' = framed e"
  by (auto simp: startServer_def split: prod.split_asm)

lemma restartServer_frame: "restartServer t e = (x, e') \<Longrightarrow> watcher e' = watcher e \<and> framed e' = framed e"
  by (auto simp: restartServer_def Let_def session_frame dest!: startServer_frame split: if_split_asm)

lemma newConnection_frame: "newConnection t e = (x, e') \<Longrightarrow> watcher e' = watcher e \<and> framed e' = framed e"
  by (auto simp: newConnection_def Let_def dest!: restartServer_frame split: prod.split_asm option.split_asm if_split_asm)

lemma restart_and_connect_frame: "restart_and_connect t e = (x, e') \<Longrightarrow> watcher e' = watcher e \<and> framed e' = framed e"
  by (auto simp: restart_and_connect_def dest!: restartServer_frame newConnection_frame split: prod.split_asm option.split_asm)

lemma open_session_frame: "open_session t e = (x, e') \<Longrightarrow> watcher e' = watcher e \<and> framed e' = framed e"
  by (auto simp: open_session_def session_frame dest!: restart_and_connect_frame newConnection_frame split: if_split_asm)

lemma record_output_frame [session_frame]:
  "watcher (record_output so se c sg e) = watcher e" "framed (record_output so se c sg e) = framed e"
  "outer (record_output so se c sg e) = outer e" "serving (record_output so se c sg e) = serving e"
  by (simp_all add: record_output_def)

lemma labelled_frame [session_frame]:
  "watcher (labelled f e) = map_option f (watcher e)" "framed (labelled f e) = framed e"
  "outer (labelled f e) = outer e" "serving (labelled f e) = serving e"
  by (simp_all add: labelled_def)

lemma harvest_frame [session_frame]:
  "watcher (harvestStderr t ek e) = watcher e" "outer (harvestStderr t ek e) = outer e"
  "serving (harvestStderr t ek e) = serving e"
  by (auto simp: harvestStderr_def Let_def session_frame split: prod.split)

section \<open>The verdict of a session\<close>

text \<open>What the executor must have seen for each kind of end.\<close>

definition evidence :: "('p, 'x) site \<Rightarrow> 'p session \<Rightarrow> exit_kind \<Rightarrow> bool" where
  "evidence t e ek =
     (case ek of
        ExitOK \<Rightarrow> True
      | ExitTimeout \<Rightarrow> True
      | ExitCrash \<Rightarrow> serving e \<and> (\<exists>res. Gone t (outer e) = Some res \<and> \<not> OOM res \<and> Signal res \<notin> {0, sigKill, sigTerm})
      | ExitOOM \<Rightarrow> serving e \<and> (\<exists>res. Gone t (outer e) = Some res \<and> OOM res)
      | _ \<Rightarrow> False)"

lemma liveness_evidence: "evidence t e (liveness t e)"
  by (auto simp: evidence_def liveness_def split: option.split)

lemma afterHangup_evidence: "afterHangup t e = (ek, e') \<Longrightarrow> evidence t e' ek"
  by (auto simp: afterHangup_def Let_def liveness_evidence)

text \<open>One message: the session goes on with the rest, or ends here.\<close>

lemma send_messages_cases:
  assumes "send_messages t silent (m # ms) e = (ek, e')"
  obtains (lapsed) "ek = ExitTimeout" "e' = dropConnection t e" "Lapsed t (outer e)"
    | (gone) p f where "(\<exists>r. f = Response r) \<or> f = id" "afterHangup t p = (ek, e')" "watcher p = map_option f (watcher e)"
    | (further) p f silent' where "(\<exists>r. f = Response r) \<or> f = id" "send_messages t silent' ms p = (ek, e')"
      "watcher p = map_option f (watcher e)"
proof (cases "Lapsed t (outer e)")
  case True
  then show ?thesis using assms lapsed by simp
next
  case False
  obtain failed p where w: "Write t m (outer e) = (failed, p)" by force
  show ?thesis
  proof (cases "failed \<or> framed e = FrameNone")
    case True
    then show ?thesis using assms False w gone [of id "e\<lparr>outer := p\<rparr>"] further [of id silent "e\<lparr>outer := p\<rparr>"]
      by (cases failed) (simp_all add: option.map_id0)
  next
    case plain: False
    obtain resp fin p2 where r: "Read t silent p = ((resp, fin), p2)" by (metis prod.collapse)
    let ?e1 = "e\<lparr>outer := p2\<rparr>"
    let ?e2 = "if resp \<noteq> [] then record_output [] resp 0 0 (labelled (Response resp) ?e1) else ?e1"
    let ?f = "if resp \<noteq> [] then Response resp else id"
    have w2: "watcher ?e2 = map_option ?f (watcher e)" by (simp add: session_frame option.map_id0)
    have f: "(\<exists>r. ?f = Response r) \<or> ?f = id" by auto
    have run: "(case fin of Read_EOF \<Rightarrow> afterHangup t ?e2
        | Read_timeout \<Rightarrow> let e = (if resp = [] then labelled (Response []) ?e2 else ?e2)
            in if exited t e then afterHangup t e else send_messages t True ms e
        | Read_failed \<Rightarrow> afterHangup t ?e2
        | Read_fine \<Rightarrow> send_messages t silent ms ?e2) = (ek, e')"
      using assms False w plain r by (cases "resp = []"; cases fin) (simp_all add: Let_def cong: if_cong)
    show ?thesis
    proof (cases fin)
      case Read_timeout
      let ?e3 = "if resp = [] then labelled (Response []) ?e2 else ?e2" and ?g = "Response resp"
      have w3: "watcher ?e3 = map_option ?g (watcher e)" by (simp add: session_frame)
      have g: "(\<exists>r. ?g = Response r) \<or> ?g = id" by blast
      show ?thesis
      proof (cases "exited t ?e3")
        case True
        then show ?thesis using run Read_timeout by (intro gone [OF g _ w3]) (simp add: Let_def)
      next
        case False
        then show ?thesis using run Read_timeout by (intro further [OF g _ w3, of True]) (simp add: Let_def)
      qed
    next
      case Read_fine
      then show ?thesis using run by (intro further [OF f _ w2]) simp
    next
      case Read_EOF
      then show ?thesis using run by (intro gone [OF f _ w2]) simp
    next
      case Read_failed
      then show ?thesis using run by (intro gone [OF f _ w2]) simp
    qed
  qed
qed

lemma send_messages_evidence: "send_messages t silent ms e = (ek, e') \<Longrightarrow> evidence t e' ek"
proof (induction ms arbitrary: silent e)
  case Nil
  then show ?case by (auto simp: Let_def liveness_evidence)
next
  case (Cons m ms)
  from Cons.prems show ?case
    by (cases rule: send_messages_cases) (auto simp: evidence_def [of _ _ ExitTimeout] dest: afterHangup_evidence Cons.IH)
qed

lemma Session_Run_cases:
  assumes "Session_Run t i e = (Inr ek, e')" and "messagesOf i \<noteq> []"
  obtains e1 e2 where "open_session t (arm e) = (None, e1)" "send_messages t False (messagesOf i) e1 = (ek, e2)"
    "e' = labelled (Observer_Post ek) (harvestStderr t ek (e2\<lparr>execs := execs e2 + 1\<rparr>))"
proof -
  obtain x e1 where o: "open_session t (arm e) = (x, e1)" by force
  obtain k e2 where r: "send_messages t False (messagesOf i) e1 = (k, e2)" by force
  show thesis using assms that o r by (cases x) (auto simp: Session_Run_def deliver_def Let_def split: option.split_asm)
qed

text \<open>C23. A session counts as a crash only when the managed process has ended by a signal other than the
  two its environment sends, as out of memory only when the process says so; it never ends as
  anything else than these, a timeout or a clean end; and after a fault the trace ends closed.\<close>

theorem Session_verdict:
  assumes "Session_Run t i e = (Inr ek, e')" and "messagesOf i \<noteq> []"
  shows "evidence t e' ek \<and> (\<forall>ob. IsFault ek \<longrightarrow> watcher e' = Some ob \<longrightarrow> Current (obTrace ob) = Closed)"
proof -
  from assms obtain e1 e2 where r: "send_messages t False (messagesOf i) e1 = (ek, e2)"
    "e' = labelled (Observer_Post ek) (harvestStderr t ek (e2\<lparr>execs := execs e2 + 1\<rparr>))"
    by (rule Session_Run_cases)
  then have "evidence t e' ek"
    using send_messages_evidence [OF r(1)] by (simp add: evidence_def session_frame split: exit_kind.splits)
  moreover have "Current (obTrace ob) = Closed" if "IsFault ek" "watcher e' = Some ob" for ob
    using that r(2) by (auto simp: session_frame Observer_Post_def Current_def Observe_def Closed_def)
  ultimately show ?thesis by blast
qed

section \<open>One label for each message\<close>

text \<open>A target that answers every message in time, with the replies it gives.\<close>

fun conversation :: "('p, 'x) site \<Rightarrow> byte list list \<Rightarrow> 'p \<Rightarrow> (byte list list \<times> 'p) option" where
  "conversation t [] p = Some ([], p)"
| "conversation t (m # ms) p =
     (if Lapsed t p then None
      else (case Write t m p of
         (True, p) \<Rightarrow> None
       | (False, p) \<Rightarrow>
           (case Read t False p of
              ((resp, Read_fine), p) \<Rightarrow>
                if resp = [] then None else map_option (apfst ((#) resp)) (conversation t ms p)
            | _ \<Rightarrow> None)))"

lemma send_answered:
  "conversation t ms (outer e) = Some (rs, p) \<Longrightarrow> framed e \<noteq> FrameNone \<Longrightarrow>
   \<exists>ek e'. send_messages t False ms e = (ek, e') \<and> watcher e' = map_option (fold Response rs) (watcher e) \<and> length rs = length ms"
proof (induction ms arbitrary: e rs)
  case Nil
  then show ?case by (simp add: Let_def session_frame option.map_ident)
next
  case (Cons m ms)
  obtain failed p1 where w: "Write t m (outer e) = (failed, p1)" by force
  obtain resp fin p2 where r: "Read t False p1 = ((resp, fin), p2)" by (metis prod.collapse)
  from Cons.prems(1) w r have good: "\<not> Lapsed t (outer e)" "\<not> failed" "fin = Read_fine" "resp \<noteq> []"
    by (auto split: if_split_asm bool.split_asm read_end.split_asm)
  with Cons.prems(1) w r obtain rs' where rs: "conversation t ms p2 = Some (rs', p)" "rs = resp # rs'"
    by (auto simp: apfst_def map_prod_def split: prod.split_asm)
  let ?e = "record_output [] resp 0 0 (labelled (Response resp) (e\<lparr>outer := p2\<rparr>))"
  have "conversation t ms (outer ?e) = Some (rs', p)" "framed ?e \<noteq> FrameNone"
    using rs(1) Cons.prems(2) by (simp_all add: session_frame)
  from Cons.IH [OF this] obtain ek e' where k: "send_messages t False ms ?e = (ek, e')"
    "watcher e' = map_option (fold Response rs') (watcher ?e)" "length rs' = length ms" by blast
  then show ?case using good w r rs(2) Cons.prems(2)
    by (auto simp: Let_def session_frame option.map_comp comp_def)
qed

text \<open>When the target answers every message in time the trace of the session holds one label for
  each message, in order, after the start state, and the closed state after them exactly when the
  session ended in a fault.\<close>

lemma Session_labels:
  assumes "open_session t (arm e) = (None, e1)" and "conversation t (messagesOf i) (outer e1) = Some (rs, p)"
    and "messagesOf i \<noteq> []" and "framed e \<noteq> FrameNone" and "watcher e = Some ob"
    and "\<And>p. ArmFails t p = None" and "\<And>ek p. PostFails t ek p = None"
  shows "\<exists>ek e'. Session_Run t i e = (Inr ek, e') \<and> length rs = length (messagesOf i) \<and>
    StateLabels e' = Start # map (state_of (obFn ob)) rs @ (if IsFault ek then [Closed] else [])"
proof -
  have f: "framed e1 \<noteq> FrameNone" "watcher e1 = Some (Observer_Reset ob)"
    using open_session_frame [OF assms(1)] assms(4,5) by (simp_all add: arm_def labelled_def)
  from send_answered [OF assms(2) f(1)] obtain ek e2 where
    r: "send_messages t False (messagesOf i) e1 = (ek, e2)" "watcher e2 = Some (fold Response rs (Observer_Reset ob))"
    "length rs = length (messagesOf i)" using f(2) by auto
  let ?e = "labelled (Observer_Post ek) (harvestStderr t ek (e2\<lparr>execs := execs e2 + 1\<rparr>))"
  have "Session_Run t i e = (Inr ek, ?e)"
    using assms(1,3,6,7) r(1) by (simp add: Session_Run_def deliver_def Let_def)
  moreover have "StateLabels ?e = Start # map (state_of (obFn ob)) rs @ (if IsFault ek then [Closed] else [])"
    using r(2) session_states [of rs ob]
    by (simp add: StateLabels_def session_frame Observer_Post_def Observe_def Closed_def after_session_def)
  ultimately show ?thesis using r(3) by blast
qed

section \<open>The teacher breaks its contract\<close>

lemma StateLabels_labelled: "length (StateLabels (labelled (Response r) e)) \<le> Suc (length (StateLabels e))"
  "length (StateLabels (labelled Hangup e)) \<le> Suc (length (StateLabels e))"
  "length (StateLabels (labelled (Observer_Post ek) e)) \<le> Suc (length (StateLabels e))"
  by (simp_all add: StateLabels_def session_frame Response_fields Hangup_def Observer_Post_def Observe_def split: option.split)

definition begun :: "'p session \<Rightarrow> bool" where
  "begun e \<longleftrightarrow> (\<exists>ls. StateLabels e = Start # ls)"

lemma begun_labelled: "begun e \<Longrightarrow> begun (labelled (Response r) e)" "begun e \<Longrightarrow> begun (labelled Hangup e)"
  "begun e \<Longrightarrow> begun (labelled (Observer_Post ek) e)"
  by (auto simp: begun_def StateLabels_def session_frame Response_fields Hangup_def Observer_Post_def Observe_def split: option.splits)

lemma StateLabels_watcher: "watcher e' = watcher e \<Longrightarrow> StateLabels e' = StateLabels e"
  by (simp add: StateLabels_def)

lemma send_messages_labels:
  fixes t :: "('p, 'x) site" and e :: "'p session"
  shows "send_messages t silent ms e = (ek, e') \<Longrightarrow> begun e \<Longrightarrow>
   begun e' \<and> length (StateLabels e') \<le> length (StateLabels e) + length ms + 1"
proof (induction ms arbitrary: silent e)
  case Nil
  then show ?case by (auto simp: Let_def begun_def StateLabels_def session_frame)
next
  case (Cons m ms)
  have step: "begun p \<and> length (StateLabels p) \<le> Suc (length (StateLabels e))"
    if "(\<exists>r. f = Response r) \<or> f = id" "watcher p = map_option f (watcher e)" for p :: "'p session" and f
  proof -
    have "StateLabels p = StateLabels (labelled f e)" using that(2) by (intro StateLabels_watcher) (simp add: session_frame)
    moreover have "labelled id e = e" by (simp add: labelled_def option.map_id0)
    ultimately show ?thesis using that(1) begun_labelled(1) [OF Cons.prems(2)] StateLabels_labelled(1) [of _ e] Cons.prems(2)
      by (auto simp: begun_def)
  qed
  from Cons.prems(1) show ?case
  proof (cases rule: send_messages_cases)
    case lapsed
    then show ?thesis using Cons.prems(2) by (simp add: begun_def StateLabels_def session_frame)
  next
    case (gone p f)
    have "watcher e' = watcher (labelled Hangup p)" using gone(2) by (auto simp: afterHangup_def Let_def session_frame)
    then have "StateLabels e' = StateLabels (labelled Hangup p)" by (rule StateLabels_watcher)
    then show ?thesis using step [OF gone(1,3)] begun_labelled(2) [of p] StateLabels_labelled(2) [of p] by (auto simp: begun_def)
  next
    case (further p f silent')
    from Cons.IH [OF further(2)] step [OF further(1,3)] show ?thesis by auto
  qed
qed

lemma run_once_labels:
  assumes "Session_Run t \<lparr>inBytes = raw, inNode = None\<rparr> e = (Inr ek, e')" and "raw \<noteq> []" and "watcher e \<noteq> None"
  shows "begun e' \<and> length (StateLabels e') \<le> 4"
proof -
  have ms: "messagesOf \<lparr>inBytes = raw, inNode = None\<rparr> = [raw]" using assms(2) by (simp add: messagesOf_def)
  from Session_Run_cases [OF assms(1)] ms obtain e1 e2 where
    r: "open_session t (arm e) = (None, e1)" "send_messages t False [raw] e1 = (ek, e2)"
    "e' = labelled (Observer_Post ek) (harvestStderr t ek (e2\<lparr>execs := execs e2 + 1\<rparr>))" by auto
  have "watcher e1 = map_option Observer_Reset (watcher e)"
    using open_session_frame [OF r(1)] by (simp add: arm_def labelled_def)
  then have "StateLabels e1 = [Start]"
    using assms(3) by (auto simp: StateLabels_def Observer_Reset_def Trace_Reset_def)
  then have two: "begun e2" "length (StateLabels e2) \<le> 3"
    using send_messages_labels [OF r(2)] by (auto simp: begun_def)
  let ?e = "harvestStderr t ek (e2\<lparr>execs := execs e2 + 1\<rparr>)"
  have "StateLabels ?e = StateLabels e2" by (intro StateLabels_watcher) (simp add: session_frame)
  then have "begun ?e" "length (StateLabels ?e) \<le> 3" using two by (simp_all add: begun_def)
  then show ?thesis unfolding r(3)
    using begun_labelled(3) [of ?e ek] StateLabels_labelled(3) [of ek ?e] by auto
qed

lemma teacher_labels:
  assumes "teacher_Output t err messages w e = (Inr out, e')" and "watcher e \<noteq> None" and "wordBytes w messages \<noteq> []"
  obtains ls where "out = answers_of (Start # ls) (length w)" "length ls \<le> 3"
proof -
  from assms(1) obtain e1 ek where r: "restartServer t e = (None, e1)"
    "Session_Run t \<lparr>inBytes = wordBytes w messages, inNode = None\<rparr> e1 = (Inr ek, e')"
    "out = answers_of (StateLabels e') (length w)"
    by (auto simp: teacher_Output_def split: prod.split_asm option.split_asm sum.split_asm)
  have "watcher e1 \<noteq> None" using restartServer_frame [OF r(1)] assms(2) by simp
  from run_once_labels [OF r(2) assms(3) this] r(3) that show thesis by (auto simp: begun_def)
qed

text \<open>The teacher the campaign learns from sends a word as one message and aligns the few labels it gets
  with the end of the word. If words of every length over some non-empty message are answered in some
  state, no one target decides symbol by symbol what it answers over all states of the session.\<close>

lemma sessionTeacher_contract:
  assumes "messages a = Some m" and "m \<noteq> []"
    and "\<And>n. \<exists>e out e'. watcher e \<noteq> None \<and> teacher_Output t err messages (replicate n a) e = (Inr out, e')"
  shows "\<not> (\<exists>tgt. answers tgt \<and> (\<forall>w e out e'. Output (sessionTeacher t err done messages) False w e = (Inr out, e') \<longrightarrow> out = tgt w))"
proof
  assume "\<exists>tgt. answers tgt \<and> (\<forall>w e out e'. Output (sessionTeacher t err done messages) False w e = (Inr out, e') \<longrightarrow> out = tgt w)"
  then obtain tgt where tgt: "answers tgt"
    and hon: "\<And>w e out e'. teacher_Output t err messages w e = (Inr out, e') \<Longrightarrow> out = tgt w"
    unfolding sessionTeacher_def by force
  have "\<exists>ls. tgt (replicate n a) = answers_of (Start # ls) n \<and> length ls \<le> 3" if n: "n \<noteq> 0" for n
  proof -
    from assms(3) [of n] obtain e out e' where o: "watcher e \<noteq> None"
      "teacher_Output t err messages (replicate n a) e = (Inr out, e')" by blast
    have "wordBytes (replicate n a) messages \<noteq> []" using n assms(1,2) by (cases n) (simp_all add: wordBytes_def)
    from teacher_labels [OF o(2,1) this] hon [OF o(2)] show ?thesis by auto
  qed
  from this [of 4] this [of 8] obtain ls ls' where l: "tgt (replicate 4 a) = answers_of (Start # ls) 4" "length ls \<le> 3"
    "tgt (replicate 8 a) = answers_of (Start # ls') 8" "length ls' \<le> 3" by auto
  have "replicate 8 a = replicate 4 a @ replicate 4 a" by (simp flip: replicate_add)
  then have "prefix (tgt (replicate 4 a)) (tgt (replicate 8 a))" using answers.answer_prefix [OF tgt] by metis
  moreover have "length (tgt (replicate 4 a)) = 4" by (simp add: l(1) answers_of_def)
  ultimately have same: "tgt (replicate 4 a) ! i = tgt (replicate 8 a) ! i" if "i < 4" for i
    using that by (metis nth_append prefix_def)
  let ?i = "3 - length ls"
  have i: "?i < 4" "int (Suc (length ls)) - int 4 + int ?i = 0" using l(2) by simp_all
  have "tgt (replicate 4 a) ! ?i = Start" unfolding l(1) answers_of_def using i by (simp add: Let_def)
  moreover have "int (Suc (length ls')) - int 8 + int ?i < 0" using l(4) by simp
  then have "tgt (replicate 8 a) ! ?i = closedSymbol" unfolding l(3) answers_of_def using i(1) by (simp add: Let_def)
  moreover have "Start \<noteq> closedSymbol" by (simp add: Start_def closedSymbol_def bytes_of_def)
  ultimately show False using same [OF i(1)] by simp
qed

section \<open>Targets that keep the contract\<close>

text \<open>A program that answers each message with one reply, seen through the labels of its replies.\<close>

fun serve :: "('s \<Rightarrow> byte list \<Rightarrow> byte list \<times> 's) \<Rightarrow> 's \<Rightarrow> byte list list \<Rightarrow> byte list list" where
  "serve step s [] = []"
| "serve step s (m # ms) = (case step s m of (r, s') \<Rightarrow> r # serve step s' ms)"

definition reply_labels :: "state_fn \<Rightarrow> ('s \<Rightarrow> byte list \<Rightarrow> byte list \<times> 's) \<Rightarrow> 's \<Rightarrow> query \<Rightarrow> query" where
  "reply_labels fn step s w = map (state_of fn) (serve step s w)"

lemma length_serve [simp]: "length (serve step s ms) = length ms"
  by (induction ms arbitrary: s) (auto split: prod.split)

lemma serve_prefix: "prefix (serve step s u) (serve step s (u @ v))"
  by (induction u arbitrary: s) (auto split: prod.split)

interpretation reactive: answers "reply_labels fn step s" for fn step s
  by unfold_locales (simp_all add: reply_labels_def map_mono_prefix serve_prefix)

lemma hex_nat_quiet: "0 \<notin> set (hex_nat n)"
proof (induction n rule: hex_nat.induct)
  case (1 n)
  have "(if n mod 16 < 10 then of_nat (48 + n mod 16) else of_nat (87 + n mod 16)) \<noteq> (0 :: byte)"
  proof -
    have nz: "of_nat k \<noteq> (0 :: byte)" if "0 < k" "k < 256" for k
      using that by (auto simp: word_of_nat_eq_0_iff dest: nat_dvd_not_less)
    have "n mod 16 < 16" by simp
    then show ?thesis using nz [of "48 + n mod 16"] nz [of "87 + n mod 16"] by simp
  qed
  with 1 show ?case by (subst hex_nat.simps) (auto simp: Let_def)
qed

interpretation fingerprinted: quiet_answers "reply_labels (FingerprintFn ns b) step s" for ns b step s
proof unfold_locales
  have "0 \<notin> set (state_of (FingerprintFn ns b) r)" for r
    using hex_nat_quiet by (auto simp: state_of_def Fingerprint_Label_def Unknown_def Let_def)
  then show "nul_free (reply_labels (FingerprintFn ns b) step s w)" for w
    by (auto simp: nul_free_def reply_labels_def)
qed

end
