(* ===== verification/Learn_Budget.thy ===== *)
theory Learn_Budget
  imports Exec_Session
begin

text \<open>
  The budget of the learner against any target whatever, what it still asks after its context
  has ended, and the learner and the session executor at concrete targets.
\<close>

section \<open>Queries stay within the budget\<close>

definition thrifty :: "options \<Rightarrow> 'w learner \<Rightarrow> bool" where
  "thrifty opts l \<longleftrightarrow> int (queries l) \<le> MaxQueries opts"

lemma thrifty_update [simp]:
  "thrifty opts (l\<lparr>access := ss\<rparr>) = thrifty opts l" "thrifty opts (l\<lparr>rows := rs\<rparr>) = thrifty opts l"
  "thrifty opts (l\<lparr>suffix_cols := es\<rparr>) = thrifty opts l"
  by (simp_all add: thrifty_def)

lemma ask_thrifty: "ask t opts ctx w l = (res, l') \<Longrightarrow> thrifty opts l \<Longrightarrow> thrifty opts l'"
  by (auto simp: ask_def thrifty_def split: option.split_asm if_split_asm prod.split_asm sum.split_asm)

lemma row_cells_thrifty: "row_cells t opts ctx s es l = Some (res, l') \<Longrightarrow> thrifty opts l \<Longrightarrow> thrifty opts l'"
proof (induction es arbitrary: l res l')
  case (Cons e es)
  obtain r l1 where "ask t opts ctx (s @ e) l = (r, l1)" by force
  with Cons ask_thrifty [OF this] show ?case by (cases r) (auto simp: bind_eq_Some_conv split: if_split_asm)
qed simp

lemma row_thrifty: "row t opts ctx s l = Some (res, l') \<Longrightarrow> thrifty opts l \<Longrightarrow> thrifty opts l'"
  by (auto simp: row_def bind_eq_Some_conv try_eq dest: row_cells_thrifty split: option.split_asm)

lemma known_rows_thrifty: "known_rows t opts ctx ss kn l = Some (res, l') \<Longrightarrow> thrifty opts l \<Longrightarrow> thrifty opts l'"
  by (induction ss arbitrary: kn l) (auto simp: bind_eq_Some_conv try_eq dest: row_thrifty)

lemma extend_rows_thrifty: "extend_rows t opts ctx ss kn b l = Some (res, l') \<Longrightarrow> thrifty opts l \<Longrightarrow> thrifty opts l'"
  by (induction ss arbitrary: kn b l) (auto simp: bind_eq_Some_conv try_eq dest: row_thrifty split: if_split_asm)

lemma close_pass_thrifty: "close_pass t opts ctx l = Some (res, l') \<Longrightarrow> thrifty opts l \<Longrightarrow> thrifty opts l'"
  by (auto simp: close_pass_def bind_eq_Some_conv try_eq dest: known_rows_thrifty extend_rows_thrifty)

lemma close_thrifty: "close t opts ctx l = Some (res, l') \<Longrightarrow> thrifty opts l \<Longrightarrow> thrifty opts l'"
proof (induction t opts ctx l rule: close.induct)
  case (1 t opts ctx l)
  obtain p l1 where p: "close_pass t opts ctx l = Some (p, l1)"
    using "1.prems"(1) by (subst (asm) close.simps) (auto split: option.split_asm)
  then have "thrifty opts l1" using "1.prems"(2) by (rule close_pass_thrifty)
  show ?case
  proof (cases "\<exists>e. p = Inl e \<or> p = Inr False \<or> int (length (access l1)) > table_cap opts")
    case True
    then show ?thesis using p "1.prems"(1) \<open>thrifty opts l1\<close> unfolding close.simps [of t opts ctx l]
      by (auto split: sum.split_asm if_split_asm)
  next
    case False
    then have i: "p = Inr True" by (cases p) auto
    then have "close t opts ctx l1 = Some (res, l')"
      using p "1.prems"(1) False unfolding close.simps [of t opts ctx l] by simp
    then show ?thesis using "1.IH" [OF p] i False \<open>thrifty opts l1\<close> by simp
  qed
qed

lemma representatives_thrifty: "representatives t opts ss reps l = Some (r, l') \<Longrightarrow> thrifty opts l \<Longrightarrow> thrifty opts l'"
proof (induction ss arbitrary: reps l)
  case (Cons s ss)
  then obtain res l1 where "row t opts False s l = Some (res, l1)" by (auto simp: bind_eq_Some_conv)
  with Cons row_thrifty [OF this] show ?case by (cases res) auto
qed simp

lemma state_moves_thrifty: "state_moves t opts reps s as tr ou l = Some (r, l') \<Longrightarrow> thrifty opts l \<Longrightarrow> thrifty opts l'"
proof (induction "as" arbitrary: tr ou l)
  case (Cons a as)
  then obtain res l1 where r: "row t opts False (s @ [a]) l = Some (res, l1)" by (auto simp: bind_eq_Some_conv)
  obtain res' l2 where a: "ask t opts False (s @ [a]) l1 = (res', l2)" by force
  have "thrifty opts l1" "thrifty opts l2" using row_thrifty [OF r] ask_thrifty [OF a] Cons.prems(2) by blast+
  with Cons r a show ?case by (cases res; cases res') (auto simp: Let_def split: if_split_asm)
qed simp

lemma all_moves_thrifty: "all_moves t opts reps ss l = Some (r, l') \<Longrightarrow> thrifty opts l \<Longrightarrow> thrifty opts l'"
  by (induction ss arbitrary: l r) (auto simp: bind_eq_Some_conv dest!: state_moves_thrifty)

lemma hypothesis_thrifty: "hypothesis t opts l = Some (m, l') \<Longrightarrow> thrifty opts l \<Longrightarrow> thrifty opts l'"
  by (auto simp: hypothesis_def bind_eq_Some_conv Let_def dest!: representatives_thrifty all_moves_thrifty)

lemma search_thrifty: "search t opts m n c r l = Some (x, r', l') \<Longrightarrow> thrifty opts l \<Longrightarrow> thrifty opts l'"
proof (induction n arbitrary: c r l)
  case (Suc n)
  then obtain k r1 w r2 where k: "Intn (MaxWordLength opts) r = Some (k, r1)"
    "draw_word (Alphabet opts) (nat (1 + k)) r1 = Some (w, r2)" by (auto simp: bind_eq_Some_conv)
  obtain res l1 where a: "ask t opts True w l = (res, l1)" by force
  have "thrifty opts l1" using ask_thrifty [OF a] Suc.prems(2) .
  with Suc k a show ?case by (cases res) (auto simp: bind_eq_Some_conv split: option.split_asm)
qed simp

lemma addSuffixes_thrifty: "addSuffixes cx l = (b, l') \<Longrightarrow> thrifty opts l \<Longrightarrow> thrifty opts l'"
  by (auto simp: addSuffixes_def Let_def split: if_split_asm)

lemma report_Queries [simp]:
  "Queries (report rep e l) = queries l" "Queries (give_up rep y l) = queries l" "Queries (fill_report rep l) = queries l"
  by (simp_all add: report_def give_up_def fill_report_def)

lemma learn_loop_thrifty:
  "learn_loop t opts rep r l = Some ((m, rep'), l') \<Longrightarrow> thrifty opts l \<Longrightarrow> int (Queries rep') \<le> MaxQueries opts"
proof (induction t opts rep r l rule: learn_loop.induct)
  case (1 t opts rep r l)
  note unf = learn_loop.simps [of t opts rep r l]
  obtain err l1 where c: "close t opts True l = Some (err, l1)"
    using "1.prems"(1) unfolding unf by (auto split: option.split_asm)
  have l1: "thrifty opts l1" using close_thrifty [OF c "1.prems"(2)] .
  obtain m1 l2 where h: "hypothesis t opts l1 = Some (m1, l2)"
    using "1.prems"(1) c unfolding unf by (cases err) (auto simp: bind_eq_Some_conv split: option.split_asm)
  have l2: "thrifty opts l2" using hypothesis_thrifty [OF h l1] .
  show ?case
  proof (cases err)
    case (Some e)
    then show ?thesis using "1.prems"(1) c h l2 unfolding unf by (auto simp: thrifty_def)
  next
    case None
    let ?rep = "rep\<lparr>Rounds := Rounds rep + 1\<rparr>"
    show ?thesis
    proof (cases "int (Rounds ?rep) > maxRounds opts \<or> int (length (Trans m1)) \<ge> MaxStates opts")
      case True
      then show ?thesis using "1.prems"(1) c h l2 None unfolding unf
        by (auto simp: thrifty_def Let_def split: if_split_asm)
    next
      case False
      then obtain res n r2 l3 where s: "findCounterexample t opts m1 r l2 = Some ((res, n), r2, l3)"
        using "1.prems"(1) c h None unfolding unf by (auto simp: Let_def split: option.split_asm)
      have l3: "thrifty opts l3" using search_thrifty [OF s [unfolded findCounterexample_def] l2] .
      consider (finished) "res = Inr None \<or> (\<exists>e. res = Inl e)" | (found) cx where "res = Inr (Some cx)"
        by (metis sum.exhaust option.exhaust)
      then show ?thesis
      proof cases
        case finished
        then show ?thesis using "1.prems"(1) c h s l3 None False unfolding unf
          by (auto simp: thrifty_def Let_def)
      next
        case found
        obtain b l4 where a: "addSuffixes cx l3 = (b, l4)" by force
        have l4: "thrifty opts l4" using addSuffixes_thrifty [OF a l3] .
        show ?thesis
        proof (cases b)
          case True
          then have a': "(True, l4) = addSuffixes cx l3" using a by simp
          have "learn_loop t opts (?rep\<lparr>Checked := n\<rparr>) r2 l4 = Some ((m, rep'), l')"
            using "1.prems"(1) c h s None False found a True unfolding unf by (simp add: Let_def)
          then have run: "learn_loop t opts (?rep\<lparr>Checked := n\<rparr>) r2 l4 = Some ((m, rep'), l')" .
          show ?thesis
          proof (rule "1.IH" [OF c _ None h])
            show "findCounterexample t opts m1 r l2 = Some ((res, n), r2, l3)" by (rule s)
            show "(True, l4) = addSuffixes cx l3" by (rule a')
          qed (use False found run l4 in simp_all)
        qed (use "1.prems"(1) c h s None False found a l4 in \<open>auto simp: unf thrifty_def Let_def\<close>)
      qed
    qed
  qed
qed

text \<open>C22. Whatever the target answers, however often it changes its mind, the answers learning takes from
  it stay within the configured number.\<close>

theorem Learn_budget:
  assumes "Learn t opts v = Some (Some (m, rep), v')"
  shows "int (Queries rep) \<le> MaxQueries (fill_options opts)"
proof -
  let ?o = "fill_options opts"
  let ?l = "\<lparr>access = [[]], suffix_cols = map (\<lambda>a. [a]) (Alphabet opts), cache = Map.empty, rows = Map.empty,
              queries = 0, cached = 0, world = v\<rparr>"
  have "thrifty ?o ?l" using fill_options_simps(5) [of opts] by (simp add: thrifty_def)
  with assms show ?thesis
    by (auto simp: Learn_def Let_def bind_eq_Some_conv fill_options_simps dest!: learn_loop_thrifty split: if_split_asm)
qed

section \<open>After the context has ended\<close>

text \<open>A target that answers every symbol with whether an even number came before it.\<close>

definition turns :: "query \<Rightarrow> query" where
  "turns w = map (\<lambda>i. if even i then [48] else [49]) [0..<length w]"

definition ex_target :: "bool \<Rightarrow> (unit, unit) target" where
  "ex_target over = \<lparr>Output = (\<lambda>_ w v. (Inr (turns w), v)), Expired = (\<lambda>_. over)\<rparr>"

definition ex_options :: "query \<Rightarrow> options" where
  "ex_options A = \<lparr>Alphabet = A, MaxQueries = 0, MaxStates = 0, EquivalenceWords = 1, MaxWordLength = 1, Seed = 7\<rparr>"

text \<open>A campaign that has stopped before the first question still asks: the hypothesis it returns is
  built with a context of its own, which sends six sessions to the target.\<close>

lemma Learn_after_stop:
  "(case Learn (ex_target True) (ex_options [[97], [98]]) () of
      Some (Some (m, rep), _) \<Rightarrow> Why rep = CampaignStopped \<and> Queries rep = 6
    | _ \<Rightarrow> False)"
  by code_simp

section \<open>The properties at concrete inputs\<close>

lemma Intn_single: "\<exists>r'. Intn 1 r = Some (0, r')"
  using Intn_ex [of 1 r] Intn_1 by fastforce

definition ex_start :: "unit learner" where
  "ex_start = \<lparr>access = [[]], suffix_cols = [[[97]]], cache = Map.empty, rows = Map.empty, queries = 0, cached = 0, world = ()\<rparr>"

lemma ex_round:
  "(case close (ex_target False) (fill_options (ex_options [[97]])) True ex_start of
      Some (None, l1) \<Rightarrow>
        (case hypothesis (ex_target False) (fill_options (ex_options [[97]])) l1 of
           Some (m, l2) \<Rightarrow> Access m = [[], [[97]]] \<and> length (Trans m) = 2 \<and>
             (case ask (ex_target False) (fill_options (ex_options [[97]])) True [[97]] l2 of
                (Inr got, l3) \<Rightarrow> got = [[48]] \<and> Run m [[97]] = Some [[48]]
              | _ \<Rightarrow> False)
         | None \<Rightarrow> False)
    | _ \<Rightarrow> False)"
  by code_simp

lemma ex_learned:
  "\<exists>m rep v. Learn (ex_target False) (ex_options [[97]]) () = Some (Some (m, rep), v) \<and> \<not> Partial rep \<and>
     Access m = [[], [[97]]] \<and> Queries rep \<le> 5000"
proof -
  let ?t = "ex_target False" and ?o = "fill_options (ex_options [[97]])"
  let ?rep = "\<lparr>Queries = 0, Cached = 0, Rounds = 0, Checked = 0, Partial = False, Why = Settled\<rparr>"
  have o: "Alphabet ?o = [[97]]" "MaxStates ?o = 32" "MaxWordLength ?o = 1" "EquivalenceWords ?o = 1" "MaxQueries ?o = 5000"
    "maxRounds ?o = 48" by code_simp+
  from ex_round obtain l1 where c: "close ?t ?o True ex_start = Some (None, l1)"
    by (cases "close ?t ?o True ex_start") (auto split: option.split_asm)
  from ex_round c obtain m l2 where h: "hypothesis ?t ?o l1 = Some (m, l2)"
    by (cases "hypothesis ?t ?o l1") auto
  obtain res l3 where "ask ?t ?o True [[97]] l2 = (res, l3)" by force
  with ex_round c h have r: "close ?t ?o True ex_start = Some (None, l1)" "hypothesis ?t ?o l1 = Some (m, l2)"
    "Access m = [[], [[97]]]" "length (Trans m) = 2" "ask ?t ?o True [[97]] l2 = (Inr [[48]], l3)" "Run m [[97]] = Some [[48]]"
    by (cases res; simp)+
  obtain r1 where r1: "Intn 1 (Rng.New (Seed ?o)) = Some (0, r1)" using Intn_single by blast
  obtain r2 where r2: "Intn 1 r1 = Some (0, r2)" using Intn_single by blast
  have s: "findCounterexample ?t ?o m (Rng.New (Seed ?o)) l2 = Some ((Inr None, 1), r2, l3)"
    using r1 r2 r(5,6) by (simp add: findCounterexample_def o get_at_def)
  let ?rep' = "fill_report (?rep\<lparr>Rounds := 1, Checked := 1\<rparr>) l3"
  have "learn_loop ?t ?o ?rep (Rng.New (Seed ?o)) ex_start = Some ((m, ?rep'), l3)"
    using r s by (simp add: learn_loop.simps [of ?t ?o ?rep] Let_def o)
  then have "Learn ?t (ex_options [[97]]) () = Some (Some (m, ?rep'), world l3)"
    by (simp add: Learn_def Let_def o flip: ex_start_def)
  moreover have "thrifty ?o l3"
    using ask_thrifty [OF r(5) hypothesis_thrifty [OF r(2) close_thrifty [OF r(1)]]] by (simp add: thrifty_def ex_start_def o)
  ultimately show ?thesis using r(3) by (simp add: thrifty_def o)
qed

lemma turns_quiet: "quiet_answers turns"
proof
  show "length (turns w) = length w" for w by (simp add: turns_def)
  show "prefix (turns u) (turns (u @ v))" for u v
  proof (rule prefixI)
    show "turns (u @ v) = turns u @ map (\<lambda>i. if even i then [48] else [49]) [length u..<length u + length v]"
      by (simp add: turns_def upt_add_eq_append [of 0, simplified] del: upt_Suc)
  qed
  show "nul_free (turns w)" for w by (auto simp: nul_free_def turns_def)
qed

theorem Learn_reproduces_witness:
  "\<exists>m rep v. Learn (ex_target False) (ex_options [[97]]) () = Some (Some (m, rep), v) \<and> Why rep \<noteq> NotDeterministic \<and>
     reproduces turns [[97]] m \<and> Access m = [[], [[97]]] \<and> Rounds rep \<le> 2"
proof -
  have hon: "\<And>b w v out v'. Output (ex_target False) b w v = (Inr out, v') \<Longrightarrow> out = turns w"
    by (simp add: ex_target_def)
  have o: "Alphabet (ex_options [[97]]) \<noteq> []" "plain (Alphabet (ex_options [[97]]))"
    "int (length (Alphabet (ex_options [[97]]))) < 2 ^ 63" "MaxWordLength (ex_options [[97]]) < 2 ^ 63"
    "Alphabet (ex_options [[97]]) = [[97]]"
    by (simp_all add: ex_options_def plain_def nul_free_def)
  from ex_learned obtain m rep v where l: "Learn (ex_target False) (ex_options [[97]]) () = Some (Some (m, rep), v)"
    "\<not> Partial rep" "Access m = [[], [[97]]]" by blast
  have r: "Why rep \<noteq> NotDeterministic \<and> reproduces turns [[97]] m \<and> Rounds rep \<le> Mealy_States m"
    using okD [OF Learn_reproduces [OF turns_quiet hon o(1-4)] l(1)] l(2) by (simp add: o(5))
  then have "Mealy_States m = 2" using l(3) by (simp add: reproduces_def)
  then show ?thesis using r l by (intro exI [of _ m] exI [of _ rep] exI [of _ v]) simp
qed

theorem Learn_budget_witness:
  "\<exists>m rep v. Learn (ex_target False) (ex_options [[97]]) () = Some (Some (m, rep), v) \<and> int (Queries rep) \<le> 5000"
proof -
  from ex_learned obtain m rep v where l: "Learn (ex_target False) (ex_options [[97]]) () = Some (Some (m, rep), v)" by blast
  moreover have "MaxQueries (fill_options (ex_options [[97]])) = 5000" by code_simp
  ultimately show ?thesis using Learn_budget [OF l] by auto
qed

text \<open>A site that answers every message with the same line, and one whose process dies on the first.\<close>

definition ex_site :: "bool \<Rightarrow> (bool, unit) site" where
  "ex_site fragile = \<lparr>Connect = (\<lambda>p. (None, p)), Launch = (\<lambda>p. (None, False)), Kill = id, Close = id,
     Write = (\<lambda>m p. (False, fragile)), Read = (\<lambda>silent p. (if p then ([], Read_EOF) else ([50, 53, 48], Read_fine), p)),
     Lapsed = (\<lambda>_. False), Gone = (\<lambda>p. if p then Some \<lparr>OOM = False, TimedOut = False, Signal = 11, ExitCode = 0\<rparr> else None),
     Await = id, Stderr = (\<lambda>_. []), ArmFails = (\<lambda>_. None), PostFails = (\<lambda>_ _. None)\<rparr>"

definition ex_session_state :: "bool session" where
  "ex_session_state = \<lparr>policy = ResetReconnect, framed = FrameLine, managed = True, serving = True, connected = False,
     watcher = Some (NewObserver [] (Some (StatusFn []))), captured = None, execs = 0, outer = False\<rparr>"

definition ex_two_messages :: run_input where
  "ex_two_messages = \<lparr>inBytes = [], inNode = Some (Node \<lparr>Kind = KindRepeat, Width = 0, Endian = BigEndian, flags = 0, Sel = 0,
     Val = 0, Name = [], Raw = [], MinLen = 0, MaxLen = 0, Derive = None, Target = None\<rparr>
     (replicate 2 (Node \<lparr>Kind = KindBytes, Width = 0, Endian = BigEndian, flags = 0, Sel = 0, Val = 0, Name = [], Raw = [65],
        MinLen = 0, MaxLen = 0, Derive = None, Target = None\<rparr> [])))\<rparr>"

theorem Session_verdict_witness:
  "\<exists>e'. Session_Run (ex_site True) \<lparr>inBytes = [65], inNode = None\<rparr> ex_session_state = (Inr ExitCrash, e') \<and>
     evidence (ex_site True) e' ExitCrash"
proof -
  let ?i = "\<lparr>inBytes = [65], inNode = None\<rparr> :: run_input"
  have "fst (Session_Run (ex_site True) ?i ex_session_state) = Inr ExitCrash" by code_simp
  then obtain e' where e: "Session_Run (ex_site True) ?i ex_session_state = (Inr ExitCrash, e')" by (metis prod.collapse)
  have "messagesOf ?i \<noteq> []" by (simp add: messagesOf_def)
  from Session_verdict [OF e this] e show ?thesis by blast
qed

lemma Session_labels_witness:
  "\<exists>e'. Session_Run (ex_site False) ex_two_messages ex_session_state = (Inr ExitOK, e') \<and>
     StateLabels e' = [Start, [50, 53, 48], [50, 53, 48]]"
proof -
  let ?e1 = "snd (open_session (ex_site False) (arm ex_session_state))"
  have o: "open_session (ex_site False) (arm ex_session_state) = (None, ?e1)"
    by (simp add: open_session_def exited_def arm_def labelled_def ex_session_state_def ex_site_def dropConnection_def newConnection_def)
  have ms: "messagesOf ex_two_messages = [[65], [65]]" by code_simp
  have out: "outer ?e1 = False" by code_simp
  have c: "conversation (ex_site False) (messagesOf ex_two_messages) (outer ?e1) = Some ([[50, 53, 48], [50, 53, 48]], False)"
    unfolding ms out by (simp add: ex_site_def)
  have f: "messagesOf ex_two_messages \<noteq> []" "framed ex_session_state \<noteq> FrameNone"
    "watcher ex_session_state = Some (NewObserver [] (Some (StatusFn [])))" unfolding ms by (simp_all add: ex_session_state_def)
  have ok: "fst (Session_Run (ex_site False) ex_two_messages ex_session_state) = Inr ExitOK" by code_simp
  have lab: "state_of (obFn (NewObserver [] (Some (StatusFn [])))) [50, 53, 48] = [50, 53, 48]" by code_simp
  have quiet: "ArmFails (ex_site False) p = None" "PostFails (ex_site False) ek p = None" for p ek
    by (simp_all add: ex_site_def)
  from Session_labels [OF o c f quiet] ok lab show ?thesis by (auto simp: IsFault_def)
qed

lemma ex_site_reaches:
  "fst (startServer (ex_site b) e) = None" "fst (newConnection (ex_site b) e) = None"
  by (simp_all add: startServer_def newConnection_def ex_site_def)

lemma ex_site_restarts: "fst (restartServer (ex_site b) e) = None"
  using ex_site_reaches by (simp add: restartServer_def Let_def)

lemma ex_site_opens: "fst (open_session (ex_site b) e) = None"
proof -
  have "fst (restart_and_connect (ex_site b) e) = None" for e
  proof -
    obtain e1 where "restartServer (ex_site b) e = (None, e1)" using ex_site_restarts [of b e] by (metis prod.collapse)
    then show ?thesis using ex_site_reaches(2) by (simp add: restart_and_connect_def)
  qed
  then show ?thesis using ex_site_reaches(2) by (simp add: open_session_def)
qed

lemma ex_site_runs: "\<exists>ek e'. Session_Run (ex_site b) i e = (Inr ek, e')"
proof (cases "messagesOf i = []")
  case False
  obtain e1 where o: "open_session (ex_site b) (arm e) = (None, e1)" using ex_site_opens [of b "arm e"] by (metis prod.collapse)
  obtain ek e2 where "send_messages (ex_site b) False (messagesOf i) e1 = (ek, e2)" by force
  moreover have "ArmFails (ex_site b) p = None" "PostFails (ex_site b) ek p = None" for p ek
    by (simp_all add: ex_site_def)
  ultimately show ?thesis using o False by (simp add: Session_Run_def deliver_def Let_def)
qed (simp add: Session_Run_def)

lemma sessionTeacher_contract_witness:
  "\<not> (\<exists>tgt. answers tgt \<and> (\<forall>w e out e'. Output (sessionTeacher (ex_site False) (\<lambda>_. TargetError ()) (\<lambda>_. False)
      [[97] \<mapsto> [65]]) False w e = (Inr out, e') \<longrightarrow> out = tgt w))"
proof (rule sessionTeacher_contract)
  show "[[97] \<mapsto> [65]] [97] = Some ([65] :: byte list)" by simp
  fix n
  obtain e1 where e1: "restartServer (ex_site False) ex_session_state = (None, e1)"
    using ex_site_restarts by (metis prod.collapse)
  from ex_site_runs obtain ek e' where
    "Session_Run (ex_site False) \<lparr>inBytes = wordBytes (replicate n [97]) [[97] \<mapsto> [65]], inNode = None\<rparr> e1 = (Inr ek, e')" by blast
  with e1 show "\<exists>e out e'. watcher e \<noteq> None \<and>
      teacher_Output (ex_site False) (\<lambda>_. TargetError ()) [[97] \<mapsto> [65]] (replicate n [97]) e = (Inr out, e')"
    by (intro exI [of _ ex_session_state]) (simp add: teacher_Output_def, simp add: ex_session_state_def)
qed simp

end
