(* ===== verification/VT_Width.thy ===== *)
theory VT_Width
  imports Prelude
begin

text \<open>
  Runes of the terminal emulator: the columns a rune takes, \<open>pkg/vt/width.go\<close>, and the part of
  \<open>unicode/utf8\<close> the emulator uses on the bytes it has collected. A rune is an integer, as in Go.
\<close>

section \<open>Binary search over ranges\<close>

text \<open>\<open>sort.Search\<close>: the least index at which a monotone predicate holds.\<close>

function search_between :: "(nat \<Rightarrow> bool) \<Rightarrow> nat \<Rightarrow> nat \<Rightarrow> nat" where
  "search_between f i j =
     (if i < j then let h = (i + j) div 2 in if \<not> f h then search_between f (h + 1) j else search_between f i h
      else i)"
  by pat_completeness auto

termination
  by (relation "measure (\<lambda>(f, i, j). j - i)") auto

declare search_between.simps [simp del]

definition sort_Search :: "nat \<Rightarrow> (nat \<Rightarrow> bool) \<Rightarrow> nat" where
  "sort_Search n f = search_between f 0 n"

type_synonym rune_range = "int \<times> int"

definition inRanges :: "int \<Rightarrow> rune_range list \<Rightarrow> bool" where
  "inRanges r rs =
     (let i = sort_Search (length rs) (\<lambda>i. snd (rs ! i) \<ge> r)
      in i < length rs \<and> r \<ge> fst (rs ! i))"

definition combining :: "rune_range list" where
  "combining = [
     (0x0300, 0x036F),
     (0x0483, 0x0489),
     (0x0591, 0x05BD), (0x05BF, 0x05BF), (0x05C1, 0x05C2), (0x05C4, 0x05C5), (0x05C7, 0x05C7),
     (0x0610, 0x061A), (0x064B, 0x065F), (0x0670, 0x0670), (0x06D6, 0x06DC),
     (0x06DF, 0x06E4), (0x06E7, 0x06E8), (0x06EA, 0x06ED),
     (0x0711, 0x0711), (0x0730, 0x074A), (0x07A6, 0x07B0), (0x07EB, 0x07F3),
     (0x0816, 0x0819), (0x081B, 0x0823), (0x0825, 0x0827), (0x0829, 0x082D),
     (0x0900, 0x0902), (0x093A, 0x093A), (0x093C, 0x093C), (0x0941, 0x0948),
     (0x094D, 0x094D), (0x0951, 0x0957), (0x0962, 0x0963),
     (0x0981, 0x0981), (0x09BC, 0x09BC), (0x09C1, 0x09C4), (0x09CD, 0x09CD),
     (0x0A01, 0x0A02), (0x0A3C, 0x0A3C), (0x0A41, 0x0A42), (0x0A47, 0x0A48),
     (0x0A4B, 0x0A4D), (0x0A70, 0x0A71),
     (0x0E31, 0x0E31), (0x0E34, 0x0E3A), (0x0E47, 0x0E4E),
     (0x0EB1, 0x0EB1), (0x0EB4, 0x0EBC), (0x0EC8, 0x0ECD),
     (0x0F35, 0x0F35), (0x0F37, 0x0F37), (0x0F39, 0x0F39), (0x0F71, 0x0F7E),
     (0x0F80, 0x0F84), (0x0F86, 0x0F87),
     (0x1AB0, 0x1AFF), (0x1DC0, 0x1DFF),
     (0x200B, 0x200F),
     (0x2028, 0x202E), (0x2060, 0x2064), (0x206A, 0x206F),
     (0x20D0, 0x20F0),
     (0xFE00, 0xFE0F),
     (0xFE20, 0xFE2F), (0xFEFF, 0xFEFF),
     (0xFFF9, 0xFFFB),
     (0xE0100, 0xE01EF)]"

definition wide :: "rune_range list" where
  "wide = [
     (0x1100, 0x115F),
     (0x2329, 0x232A),
     (0x2E80, 0x303E),
     (0x3041, 0x33FF),
     (0x3400, 0x4DBF),
     (0x4E00, 0x9FFF),
     (0xA000, 0xA4CF),
     (0xA960, 0xA97F),
     (0xAC00, 0xD7A3),
     (0xF900, 0xFAFF),
     (0xFE10, 0xFE19),
     (0xFE30, 0xFE6F),
     (0xFF00, 0xFF60),
     (0xFFE0, 0xFFE6),
     (0x1F004, 0x1F004), (0x1F0CF, 0x1F0CF),
     (0x1F300, 0x1F64F),
     (0x1F680, 0x1F6FF),
     (0x1F900, 0x1F9FF),
     (0x20000, 0x2FFFD),
     (0x30000, 0x3FFFD)]"

definition RuneWidth :: "int \<Rightarrow> int" where
  "RuneWidth r =
     (if r = 0 then 1
      else if r < 0x20 then 0
      else if r < 0x7F then 1
      else if r = 0x7F then 0
      else if inRanges r combining then 0
      else if inRanges r wide then 2
      else 1)"

definition StringWidth :: "int list \<Rightarrow> int" where
  "StringWidth rs = sum_list (map RuneWidth rs)"

section \<open>Collected bytes\<close>

definition RuneError :: int where "RuneError = 0xFFFD"

text \<open>
  The classes of leading bytes of \<open>unicode/utf8\<close>: the length of the encoding and the range its
  second byte must lie in; \<open>None\<close> is a byte that begins nothing.
\<close>

definition lead_byte :: "byte \<Rightarrow> (nat \<times> byte \<times> byte) option" where
  "lead_byte b =
     (if b < 0xC2 then None
      else if b < 0xE0 then Some (2, 0x80, 0xBF)
      else if b = 0xE0 then Some (3, 0xA0, 0xBF)
      else if b < 0xED then Some (3, 0x80, 0xBF)
      else if b = 0xED then Some (3, 0x80, 0x9F)
      else if b < 0xF0 then Some (3, 0x80, 0xBF)
      else if b = 0xF0 then Some (4, 0x90, 0xBF)
      else if b < 0xF4 then Some (4, 0x80, 0xBF)
      else if b = 0xF4 then Some (4, 0x80, 0x8F)
      else None)"

definition continues :: "byte \<Rightarrow> bool" where
  "continues b \<longleftrightarrow> 0x80 \<le> b \<and> b \<le> 0xBF"

definition FullRune :: "byte list \<Rightarrow> bool" where
  "FullRune p =
     (case p of
        [] \<Rightarrow> False
      | b # bs \<Rightarrow>
          (case (if b < 0x80 then None else lead_byte b) of
             None \<Rightarrow> True
           | Some (n, lo, hi) \<Rightarrow>
               n \<le> length p \<or>
               (case bs of
                  [] \<Rightarrow> False
                | c # cs \<Rightarrow> c < lo \<or> hi < c \<or> (case cs of [] \<Rightarrow> False | d # _ \<Rightarrow> \<not> continues d))))"

definition six :: "byte \<Rightarrow> int" where
  "six b = uint (b AND 0x3F)"

definition DecodeRune :: "byte list \<Rightarrow> int \<times> nat" where
  "DecodeRune p =
     (case p of
        [] \<Rightarrow> (RuneError, 0)
      | b # bs \<Rightarrow>
          if b < 0x80 then (uint b, 1)
          else (case lead_byte b of
             None \<Rightarrow> (RuneError, 1)
           | Some (n, lo, hi) \<Rightarrow>
               if length p < n then (RuneError, 1)
               else if bs ! 0 < lo \<or> hi < bs ! 0 then (RuneError, 1)
               else if n \<le> 2 then (uint (b AND 0x1F) * 64 + six (bs ! 0), 2)
               else if \<not> continues (bs ! 1) then (RuneError, 1)
               else if n \<le> 3 then (uint (b AND 0x0F) * 4096 + six (bs ! 0) * 64 + six (bs ! 1), 3)
               else if \<not> continues (bs ! 2) then (RuneError, 1)
               else (uint (b AND 0x07) * 262144 + six (bs ! 0) * 4096 + six (bs ! 1) * 64 + six (bs ! 2), 4)))"

section \<open>The widths\<close>

lemma search_between_first:
  assumes "\<And>a b. a \<le> b \<Longrightarrow> f a \<Longrightarrow> f b"
  shows "i \<le> j \<Longrightarrow> search_between f i j \<le> j \<and>
    (\<forall>k. i \<le> k \<and> k < search_between f i j \<longrightarrow> \<not> f k) \<and> (search_between f i j < j \<longrightarrow> f (search_between f i j))"
proof (induction "j - i" arbitrary: i j rule: less_induct)
  case less
  show ?case
  proof (cases "i < j")
    case False
    then show ?thesis using less.prems by (auto simp: search_between.simps)
  next
    case True
    let ?h = "(i + j) div 2"
    have h: "i \<le> ?h" "?h < j" using True by auto
    show ?thesis
    proof (cases "f ?h")
      case hit: True
      have e: "search_between f i j = search_between f i ?h" using True hit by (subst search_between.simps) (simp add: Let_def)
      from less.hyps [of ?h i] h True have
        ih: "search_between f i ?h \<le> ?h" "\<forall>k. i \<le> k \<and> k < search_between f i ?h \<longrightarrow> \<not> f k"
        "search_between f i ?h < ?h \<longrightarrow> f (search_between f i ?h)" by auto
      have "f (search_between f i ?h)" using ih(1,3) hit by (cases "search_between f i ?h < ?h") auto
      then show ?thesis using ih(1,2) h(2) unfolding e by simp
    next
      case miss: False
      have e: "search_between f i j = search_between f (?h + 1) j" using True miss by (subst search_between.simps) (simp add: Let_def)
      from less.hyps [of j "?h + 1"] h True have
        ih: "search_between f (?h + 1) j \<le> j" "\<forall>k. ?h + 1 \<le> k \<and> k < search_between f (?h + 1) j \<longrightarrow> \<not> f k"
        "search_between f (?h + 1) j < j \<longrightarrow> f (search_between f (?h + 1) j)" by auto
      have "\<not> f k" if "i \<le> k" "k < search_between f (?h + 1) j" for k
        using that ih(2) miss assms [of k ?h] by (cases "k \<le> ?h") auto
      then show ?thesis using ih(1,3) unfolding e by blast
    qed
  qed
qed

lemma inRanges_member:
  assumes "sorted_wrt (\<lambda>p q. snd p < fst q) rs" and "\<forall>p \<in> set rs. fst p \<le> snd p"
  shows "inRanges r rs \<longleftrightarrow> (\<exists>(lo, hi) \<in> set rs. lo \<le> r \<and> r \<le> hi)"
proof -
  let ?f = "\<lambda>i. snd (rs ! i) \<ge> r" and ?n = "length rs"
  let ?g = "\<lambda>i. ?n \<le> i \<or> ?f i"
  have ends: "snd (rs ! a) \<le> snd (rs ! b)" if "a \<le> b" "b < ?n" for a b
  proof (cases "a = b")
    case False
    then have "snd (rs ! a) < fst (rs ! b)" using that assms(1) by (simp add: sorted_wrt_iff_nth_less)
    moreover have "fst (rs ! b) \<le> snd (rs ! b)" using assms(2) that by simp
    ultimately show ?thesis by simp
  qed simp
  have same: "search_between ?f i j = search_between ?g i j" if "j \<le> ?n" for i j
    using that
  proof (induction "j - i" arbitrary: i j rule: less_induct)
    case less
    show ?case
    proof (cases "i < j")
      case True
      then have "(i + j) div 2 < ?n" using less.prems by linarith
      then show ?thesis using True less.hyps [of "(i + j) div 2" i] less.hyps [of j "(i + j) div 2 + 1"] less.prems
        by (subst (1 2) search_between.simps) (simp add: Let_def)
    qed (simp add: search_between.simps)
  qed
  have mono: "?g b" if "a \<le> b" "?g a" for a b
  proof (cases "b < ?n")
    case True
    then show ?thesis using ends [OF that(1) True] that by auto
  qed simp
  obtain i where i: "i = sort_Search ?n ?f" by blast
  have "i = search_between ?g 0 ?n" unfolding i sort_Search_def by (rule same) (rule order_refl)
  moreover have "search_between ?g 0 ?n \<le> ?n \<and> (\<forall>k. 0 \<le> k \<and> k < search_between ?g 0 ?n \<longrightarrow> \<not> ?g k) \<and>
      (search_between ?g 0 ?n < ?n \<longrightarrow> ?g (search_between ?g 0 ?n))"
    by (rule search_between_first) (rule mono, assumption+, simp)
  ultimately have "i \<le> ?n" and below: "\<And>k. k < i \<Longrightarrow> snd (rs ! k) < r" and here: "i < ?n \<Longrightarrow> r \<le> snd (rs ! i)"
    by (auto simp: not_le)
  have v: "inRanges r rs \<longleftrightarrow> i < ?n \<and> fst (rs ! i) \<le> r" by (simp add: inRanges_def i Let_def)
  show ?thesis
  proof
    assume "inRanges r rs"
    then have "i < ?n" "fst (rs ! i) \<le> r" "r \<le> snd (rs ! i)" using v here by simp_all
    then show "\<exists>(lo, hi) \<in> set rs. lo \<le> r \<and> r \<le> hi"
      by (intro bexI [of _ "rs ! i"]) (simp_all add: split_beta)
  next
    assume "\<exists>(lo, hi) \<in> set rs. lo \<le> r \<and> r \<le> hi"
    then obtain k where k: "k < ?n" "fst (rs ! k) \<le> r" "r \<le> snd (rs ! k)" by (auto simp: in_set_conv_nth)
    have "i \<le> k" using below [of k] k(3) by (cases "k < i") simp_all
    have "i = k"
    proof (rule ccontr)
      assume "i \<noteq> k"
      then have "snd (rs ! i) < fst (rs ! k)" using \<open>i \<le> k\<close> k(1) assms(1) by (simp add: sorted_wrt_iff_nth_less)
      then show False using here \<open>i \<le> k\<close> k(1,2) by simp
    qed
    then show "inRanges r rs" using k v by simp
  qed
qed

lemma tables_sorted:
  "sorted_wrt (\<lambda>p q. snd p < fst q) combining" "\<forall>p \<in> set combining. fst p \<le> snd p"
  "sorted_wrt (\<lambda>p q. snd p < fst q) wide" "\<forall>p \<in> set wide. fst p \<le> snd p"
  by code_simp+

text \<open>The width of a rune found by binary search is the one the tables say: zero for control
  characters and combining marks, two in the wide ranges, one for everything else.\<close>

lemma RuneWidth_tables:
  "RuneWidth r =
     (if r = 0 then 1
      else if r < 0x20 \<or> r = 0x7F \<or> (\<exists>(lo, hi) \<in> set combining. lo \<le> r \<and> r \<le> hi) then 0
      else if \<exists>(lo, hi) \<in> set wide. lo \<le> r \<and> r \<le> hi then 2
      else 1)"
proof -
  have c: "\<not> (\<exists>(lo, hi) \<in> set combining. lo \<le> r \<and> r \<le> hi)" "\<not> (\<exists>(lo, hi) \<in> set wide. lo \<le> r \<and> r \<le> hi)" if "r < 0x7F"
    using that by (simp_all add: combining_def wide_def)
  show ?thesis
  proof (cases "r < 0x7F")
    case True
    then show ?thesis using c by (simp add: RuneWidth_def)
  next
    case False
    then show ?thesis unfolding RuneWidth_def inRanges_member [OF tables_sorted(1,2)] inRanges_member [OF tables_sorted(3,4)] by simp
  qed
qed

lemma RuneWidth_cases: "RuneWidth r = 0 \<or> RuneWidth r = 1 \<or> RuneWidth r = 2"
  by (simp add: RuneWidth_def)

end
