(* ===== verification/VT_Screen.thy ===== *)
theory VT_Screen
  imports VT_Width
begin

text \<open>
  The screen buffer of the terminal emulator, \<open>pkg/vt/screen.go\<close>: a grid of cells, a cursor and a
  scrolling region. Coordinates are Go's \<open>int\<close>; they stay far below 64 bits because sizes are at
  most a thousand and parameters at most 65535. Slicing and indexing outside the grid is \<open>None\<close>.
\<close>

section \<open>Cells\<close>

datatype color = ColorDefault | Indexed byte | RGB byte byte byte

type_synonym attr_flags = "16 word"

definition AttrBold :: attr_flags where "AttrBold = 1"
definition AttrFaint :: attr_flags where "AttrFaint = 2"
definition AttrItalic :: attr_flags where "AttrItalic = 4"
definition AttrUnderline :: attr_flags where "AttrUnderline = 8"
definition AttrBlink :: attr_flags where "AttrBlink = 16"
definition AttrReverse :: attr_flags where "AttrReverse = 32"
definition AttrInvisible :: attr_flags where "AttrInvisible = 64"
definition AttrStrike :: attr_flags where "AttrStrike = 128"

record attr =
  FG :: color
  BG :: color
  Flags :: attr_flags

definition no_attr :: attr where "no_attr = \<lparr>FG = ColorDefault, BG = ColorDefault, Flags = 0\<rparr>"

definition Attr_Has :: "attr_flags \<Rightarrow> attr \<Rightarrow> bool" where
  "Attr_Has f a \<longleftrightarrow> Flags a AND f = f"

record cell =
  Rune :: int
  Look :: attr \<comment> \<open>\<open>Attr\<close>\<close>
  Width :: int

definition blank_cell :: cell where "blank_cell = \<lparr>Rune = 32, Look = no_attr, Width = 1\<rparr>"

definition clamp :: "int \<Rightarrow> int \<Rightarrow> int \<Rightarrow> int" where
  "clamp v lo hi = (if v < lo then lo else if v > hi then hi else v)"

section \<open>The buffer\<close>

record buffer =
  cols :: int
  lines :: int \<comment> \<open>\<open>rows\<close>\<close>
  grid :: "cell list" \<comment> \<open>\<open>cells\<close>\<close>
  curX :: int
  curY :: int
  pen :: attr \<comment> \<open>\<open>attr\<close>\<close>
  wrapNext :: bool
  regTop :: int
  regBottom :: int
  savedX :: int
  savedY :: int
  savedAttr :: attr
  savedValid :: bool

definition newBuffer :: "int \<Rightarrow> int \<Rightarrow> buffer" where
  "newBuffer c l = \<lparr>cols = c, lines = l, grid = replicate (nat (c * l)) blank_cell, curX = 0, curY = 0, pen = no_attr,
     wrapNext = False, regTop = 0, regBottom = l - 1, savedX = 0, savedY = 0, savedAttr = no_attr, savedValid = False\<rparr>"

text \<open>\<open>at\<close>: the index of a cell on the screen, or nothing.\<close>

definition cell_index :: "int \<Rightarrow> int \<Rightarrow> buffer \<Rightarrow> int option" where
  "cell_index x y b = (if x < 0 \<or> y < 0 \<or> x \<ge> cols b \<or> y \<ge> lines b then None else Some (y * cols b + x))"

text \<open>Reading and writing through the pointer \<open>at\<close> returns.\<close>

definition cell_at :: "int \<Rightarrow> int \<Rightarrow> buffer \<Rightarrow> cell option option" where
  "cell_at x y b =
     (case cell_index x y b of None \<Rightarrow> Some None | Some i \<Rightarrow> do { c \<leftarrow> get_at (grid b) i; Some (Some c) })"

definition set_cell :: "int \<Rightarrow> int \<Rightarrow> cell \<Rightarrow> buffer \<Rightarrow> buffer option" where
  "set_cell x y c b =
     (case cell_index x y b of None \<Rightarrow> Some b | Some i \<Rightarrow> do { g \<leftarrow> set_at (grid b) i c; Some (b\<lparr>grid := g\<rparr>) })"

definition eraseCell :: "buffer \<Rightarrow> cell" where
  "eraseCell b = \<lparr>Rune = 32, Look = no_attr\<lparr>BG := BG (pen b)\<rparr>, Width = 1\<rparr>"

definition fill_cells :: "int \<Rightarrow> int \<Rightarrow> cell \<Rightarrow> buffer \<Rightarrow> buffer" where
  "fill_cells a z c b =
     (let a = (if a < 0 then 0 else a);
          z = (if z > int (length (grid b)) then int (length (grid b)) else z)
      in if a < z then b\<lparr>grid := overwrite (nat a) (replicate (nat (z - a)) c) (grid b)\<rparr> else b)"

definition setCursor :: "int \<Rightarrow> int \<Rightarrow> buffer \<Rightarrow> buffer" where
  "setCursor x y b = b\<lparr>curX := clamp x 0 (cols b - 1), curY := clamp y 0 (lines b - 1), wrapNext := False\<rparr>"

text \<open>\<open>copy(cells[a:z], cells[c:d])\<close>, which reads the source before it writes.\<close>

definition move_cells :: "int \<Rightarrow> int \<Rightarrow> int \<Rightarrow> int \<Rightarrow> buffer \<Rightarrow> buffer option" where
  "move_cells a z c d b = do {
     dst \<leftarrow> slice_of (grid b) a z;
     src \<leftarrow> slice_of (grid b) c d;
     Some (b\<lparr>grid := overwrite (nat a) (take (length dst) src) (grid b)\<rparr>)
   }"

definition scrollRegionUp :: "int \<Rightarrow> int \<Rightarrow> int \<Rightarrow> buffer \<Rightarrow> buffer option" where
  "scrollRegionUp t btm n b =
     (if n \<le> 0 \<or> t > btm \<or> t < 0 \<or> btm \<ge> lines b then Some b
      else
        let n = (if n > btm - t + 1 then btm - t + 1 else n)
        in do {
          b \<leftarrow> move_cells (t * cols b) ((btm + 1 - n) * cols b) ((t + n) * cols b) ((btm + 1) * cols b) b;
          Some (fill_cells ((btm + 1 - n) * cols b) ((btm + 1) * cols b) (eraseCell b) b)
        })"

definition scrollRegionDown :: "int \<Rightarrow> int \<Rightarrow> int \<Rightarrow> buffer \<Rightarrow> buffer option" where
  "scrollRegionDown t btm n b =
     (if n \<le> 0 \<or> t > btm \<or> t < 0 \<or> btm \<ge> lines b then Some b
      else
        let n = (if n > btm - t + 1 then btm - t + 1 else n)
        in do {
          b \<leftarrow> move_cells ((t + n) * cols b) ((btm + 1) * cols b) (t * cols b) ((btm + 1 - n) * cols b) b;
          Some (fill_cells (t * cols b) ((t + n) * cols b) (eraseCell b) b)
        })"

definition scrollUp :: "int \<Rightarrow> buffer \<Rightarrow> buffer option" where
  "scrollUp n b = scrollRegionUp (regTop b) (regBottom b) n b"

definition scrollDown :: "int \<Rightarrow> buffer \<Rightarrow> buffer option" where
  "scrollDown n b = scrollRegionDown (regTop b) (regBottom b) n b"

definition lineFeed :: "buffer \<Rightarrow> buffer option" where
  "lineFeed b = do {
     b \<leftarrow> (if curY b = regBottom b then scrollUp 1 b
          else if curY b < lines b - 1 then Some (b\<lparr>curY := curY b + 1\<rparr>) else Some b);
     Some (b\<lparr>wrapNext := False\<rparr>)
   }"

definition reverseIndex :: "buffer \<Rightarrow> buffer option" where
  "reverseIndex b = do {
     b \<leftarrow> (if curY b = regTop b then scrollDown 1 b
          else if curY b > 0 then Some (b\<lparr>curY := curY b - 1\<rparr>) else Some b);
     Some (b\<lparr>wrapNext := False\<rparr>)
   }"

text \<open>Overwriting one half of a wide character erases the other.\<close>

definition breakWide :: "int \<Rightarrow> int \<Rightarrow> buffer \<Rightarrow> buffer option" where
  "breakWide x y b = do {
     c \<leftarrow> cell_at x y b;
     (case c of
        None \<Rightarrow> Some b
      | Some c \<Rightarrow>
          if Width c = 2 then do {
            p \<leftarrow> cell_at (x + 1) y b;
            (case p of None \<Rightarrow> Some b | Some p \<Rightarrow> if Width p = 0 then set_cell (x + 1) y (eraseCell b) b else Some b)
          }
          else if Width c = 0 then do {
            p \<leftarrow> cell_at (x - 1) y b;
            (case p of None \<Rightarrow> Some b | Some p \<Rightarrow> if Width p = 2 then set_cell (x - 1) y (eraseCell b) b else Some b)
          }
          else Some b)
   }"

text \<open>
  \<open>combine\<close> only looks for the cell a mark belongs to and changes nothing; the loop of reads is what is
  left of it.
\<close>

fun combine_from :: "nat \<Rightarrow> buffer \<Rightarrow> buffer option" where
  "combine_from n b = do {
     c \<leftarrow> cell_at (int n) (curY b) b;
     (case c of
        None \<Rightarrow> Some b
      | Some c \<Rightarrow> if Width c \<noteq> 0 then Some b else (case n of 0 \<Rightarrow> Some b | Suc n \<Rightarrow> combine_from n b))
   }"

definition combine :: "buffer \<Rightarrow> buffer option" where
  "combine b =
     (let x = (if wrapNext b then curX b else curX b - 1)
      in if x < 0 then Some b else combine_from (nat x) b)"

text \<open>Where a character of a width goes; \<open>None\<close> when there is no room at all.\<close>

definition make_room :: "int \<Rightarrow> bool \<Rightarrow> buffer \<Rightarrow> (bool \<times> buffer) option" where
  "make_room w autowrap b = do {
     b \<leftarrow> (if wrapNext b \<and> autowrap then lineFeed (b\<lparr>curX := 0\<rparr>) else Some b);
     if curX b + w > cols b then
       (if \<not> autowrap then
          let b = b\<lparr>curX := cols b - w\<rparr> in Some (\<not> curX b < 0, b)
        else do { b \<leftarrow> lineFeed (b\<lparr>curX := 0\<rparr>); Some (True, b) })
     else Some (True, b)
   }"

definition put :: "int \<Rightarrow> bool \<Rightarrow> buffer \<Rightarrow> buffer option" where
  "put r autowrap b =
     (let w = RuneWidth r
      in if w = 0 then combine b
         else do {
           (room, b) \<leftarrow> make_room w autowrap b;
           if \<not> room then Some b
           else do {
             b \<leftarrow> breakWide (curX b) (curY b) b;
             b \<leftarrow> (if w = 2 then breakWide (curX b + 1) (curY b) b else Some b);
             b \<leftarrow> set_cell (curX b) (curY b) \<lparr>Rune = r, Look = pen b, Width = w\<rparr> b;
             b \<leftarrow> (if w = 2 then set_cell (curX b + 1) (curY b) \<lparr>Rune = 0, Look = pen b, Width = 0\<rparr> b else Some b);
             let b = b\<lparr>curX := curX b + w\<rparr>;
             Some (if curX b \<ge> cols b then b\<lparr>curX := cols b - 1, wrapNext := True\<rparr> else b)
           }
         })"

text \<open>Writing back one row after it was shifted.\<close>

definition with_row :: "(cell list \<Rightarrow> cell list option) \<Rightarrow> buffer \<Rightarrow> buffer option" where
  "with_row f b = do {
     row \<leftarrow> slice_of (grid b) (curY b * cols b) ((curY b + 1) * cols b);
     row \<leftarrow> f row;
     Some (b\<lparr>grid := overwrite (nat (curY b * cols b)) row (grid b)\<rparr>)
   }"

text \<open>\<open>for i := a; i < z; i++ { row[i] = c }\<close>\<close>

definition set_run :: "int \<Rightarrow> int \<Rightarrow> cell \<Rightarrow> cell list \<Rightarrow> cell list option" where
  "set_run a z c row =
     (if a \<ge> z then Some row
      else if a < 0 \<or> z > int (length row) then None
      else Some (overwrite (nat a) (replicate (nat (z - a)) c) row))"

definition insertBlanks :: "int \<Rightarrow> buffer \<Rightarrow> buffer option" where
  "insertBlanks n b =
     (if curY b < 0 \<or> curY b \<ge> lines b \<or> n \<le> 0 \<or> curX b \<ge> cols b then Some b
      else
        let n = (if n > cols b - curX b then cols b - curX b else n)
        in with_row (\<lambda>row. do {
             src \<leftarrow> slice_of row (curX b) (cols b - n);
             row \<leftarrow> copy_at row (curX b + n) src;
             set_run (curX b) (curX b + n) (eraseCell b) row
           }) b)"

definition deleteChars :: "int \<Rightarrow> buffer \<Rightarrow> buffer option" where
  "deleteChars n b =
     (if curY b < 0 \<or> curY b \<ge> lines b \<or> n \<le> 0 \<or> curX b \<ge> cols b then Some b
      else
        let n = (if n > cols b - curX b then cols b - curX b else n)
        in with_row (\<lambda>row. do {
             src \<leftarrow> slice_of row (curX b + n) (int (length row));
             row \<leftarrow> copy_at row (curX b) src;
             set_run (cols b - n) (cols b) (eraseCell b) row
           }) b)"

definition resize_row :: "int \<Rightarrow> buffer \<Rightarrow> nat \<Rightarrow> cell list \<Rightarrow> cell list option" where
  "resize_row c b y next = do {
     src \<leftarrow> slice_of (grid b) (int y * cols b) (int y * cols b + min c (cols b));
     dst \<leftarrow> slice_of next (int y * c) ((int y + 1) * c);
     Some (overwrite (y * nat c) (take (length dst) src) next)
   }"

definition resize :: "int \<Rightarrow> int \<Rightarrow> buffer \<Rightarrow> buffer option" where
  "resize c l b =
     (if c = cols b \<and> l = lines b then Some b
      else do {
        next \<leftarrow> for_upto (nat (min l (lines b))) (resize_row c b) (replicate (nat (c * l)) blank_cell);
        let b = b\<lparr>grid := next, cols := c, lines := l, regTop := 0, regBottom := l - 1\<rparr>;
        Some (setCursor (curX b) (curY b) b)
      })"

section \<open>Snapshots\<close>

record screen =
  Cols :: int
  Rows :: int
  Cells :: "cell list"
  CursorX :: int
  CursorY :: int
  CursorVisible :: bool
  Title :: "byte list"
  Alternate :: bool

definition Screen_At :: "int \<Rightarrow> int \<Rightarrow> screen \<Rightarrow> cell option" where
  "Screen_At x y s = (if x < 0 \<or> y < 0 \<or> x \<ge> Cols s \<or> y \<ge> Rows s then Some blank_cell else get_at (Cells s) (y * Cols s + x))"

text \<open>The text of a row as runes, which Go then writes as UTF-8.\<close>

fun row_runes :: "nat \<Rightarrow> int \<Rightarrow> int \<Rightarrow> screen \<Rightarrow> int list option" where
  "row_runes 0 x y s = Some []"
| "row_runes (Suc n) x y s = do {
     c \<leftarrow> Screen_At x y s;
     rest \<leftarrow> row_runes n (x + 1) y s;
     Some (if Width c = 0 then rest else if Rune c = 0 then 32 # rest else Rune c # rest)
   }"

definition trim_right :: "int list \<Rightarrow> int list" where
  "trim_right rs = rev (dropWhile (\<lambda>r. r = 32) (rev rs))"

definition Screen_Row :: "int \<Rightarrow> screen \<Rightarrow> int list option" where
  "Screen_Row y s =
     (if y < 0 \<or> y \<ge> Rows s then Some []
      else do { rs \<leftarrow> row_runes (nat (Cols s)) 0 y s; Some (trim_right rs) })"

fun rows_from :: "nat \<Rightarrow> int \<Rightarrow> screen \<Rightarrow> int list list option" where
  "rows_from 0 y s = Some []"
| "rows_from (Suc n) y s = do { r \<leftarrow> Screen_Row y s; rs \<leftarrow> rows_from n (y + 1) s; Some (r # rs) }"

text \<open>\<open>strings.Join(rows, "\n")\<close>\<close>

fun join_lines :: "int list list \<Rightarrow> int list" where
  "join_lines [] = []"
| "join_lines [r] = r"
| "join_lines (r # s # rs) = r @ 10 # join_lines (s # rs)"

definition Screen_Text :: "screen \<Rightarrow> int list option" where
  "Screen_Text s = do {
     rs \<leftarrow> rows_from (nat (Rows s)) 0 s;
     Some (join_lines (rev (dropWhile (\<lambda>r. r = []) (rev rs))))
   }"

end
