(* ===== verification/VT_Term.thy ===== *)
theory VT_Term
  imports VT_Screen "HOL-Library.Signed_Division"
begin

text \<open>
  The terminal emulator, \<open>pkg/vt/terminal.go\<close>: a parser of control sequences over two screen buffers.
  The pointer \<open>buf\<close> is a flag that says which of the two is showing, and the array \<open>u8\<close> with its
  counter is the list of the bytes collected so far.
\<close>

section \<open>The terminal\<close>

definition MaxParams :: nat where "MaxParams = 32"
definition MaxParam :: int where "MaxParam = 65535"
definition MaxString :: nat where "MaxString = 4096"
definition MaxCols :: int where "MaxCols = 1000"
definition MaxRows :: int where "MaxRows = 1000"

datatype parse_state = stGround | stEscape | stCSI | stOSC | stString | stCharset

datatype mouse_mode = MouseOff | MouseX10 | MouseNormal | MouseDrag | MouseMotion

datatype mouse_encoding = EncodeX10 | EncodeUTF8 | EncodeSGR | EncodeURXVT

record terminal =
  t_cols :: int \<comment> \<open>\<open>cols\<close>\<close>
  t_rows :: int \<comment> \<open>\<open>rows\<close>\<close>
  primary :: buffer
  alternate :: buffer \<comment> \<open>\<open>alt\<close>\<close>
  onAlt :: bool \<comment> \<open>\<open>buf == alt\<close>\<close>
  pstate :: parse_state \<comment> \<open>\<open>state\<close>\<close>
  params :: "int list"
  colons :: "bool list" \<comment> \<open>\<open>colon\<close>\<close>
  param :: int
  hasNum :: bool
  priv :: byte
  inter :: "byte list"
  payload :: "byte list" \<comment> \<open>\<open>str\<close>\<close>
  strCmd :: byte
  strEsc :: bool
  u8 :: "byte list"
  title :: "byte list"
  cursorVisible :: bool
  autowrap :: bool
  insertMode :: bool
  originMode :: bool
  mouseMode :: mouse_mode
  mouseEnc :: mouse_encoding
  appCursor :: bool
  bell :: u64
  written :: u64

definition buf :: "terminal \<Rightarrow> buffer" where
  "buf t = (if onAlt t then alternate t else primary t)"

definition with_buf :: "buffer \<Rightarrow> terminal \<Rightarrow> terminal" where
  "with_buf b t = (if onAlt t then t\<lparr>alternate := b\<rparr> else t\<lparr>primary := b\<rparr>)"

text \<open>A method of the showing buffer, which may panic or not.\<close>

definition on_buf :: "(buffer \<Rightarrow> buffer option) \<Rightarrow> terminal \<Rightarrow> terminal option" where
  "on_buf f t = do { b \<leftarrow> f (buf t); Some (with_buf b t) }"

definition of_buf :: "(buffer \<Rightarrow> buffer) \<Rightarrow> terminal \<Rightarrow> terminal" where
  "of_buf f t = with_buf (f (buf t)) t"

definition Terminal_New :: "int \<Rightarrow> int \<Rightarrow> terminal" where
  "Terminal_New c l =
     (let c = clamp c 1 MaxCols; l = clamp l 1 MaxRows
      in \<lparr>t_cols = c, t_rows = l, primary = newBuffer c l, alternate = newBuffer c l, onAlt = False,
          pstate = stGround, params = [], colons = [], param = 0, hasNum = False, priv = 0, inter = [],
          payload = [], strCmd = 0, strEsc = False, u8 = [], title = [], cursorVisible = True, autowrap = True,
          insertMode = False, originMode = False, mouseMode = MouseOff, mouseEnc = EncodeX10, appCursor = False,
          bell = 0, written = 0\<rparr>)"

definition Terminal_Resize :: "int \<Rightarrow> int \<Rightarrow> terminal \<Rightarrow> terminal option" where
  "Terminal_Resize c l t =
     (let c = clamp c 1 MaxCols; l = clamp l 1 MaxRows
      in if c = t_cols t \<and> l = t_rows t then Some t
         else do {
           p \<leftarrow> resize c l (primary t);
           a \<leftarrow> resize c l (alternate t);
           Some (t\<lparr>t_cols := c, t_rows := l, primary := p, alternate := a\<rparr>)
         })"

definition Terminal_Screen :: "terminal \<Rightarrow> screen" where
  "Terminal_Screen t =
     \<lparr>Cols = cols (buf t), Rows = lines (buf t), Cells = grid (buf t), CursorX = curX (buf t), CursorY = curY (buf t),
      CursorVisible = cursorVisible t, Title = title t, Alternate = onAlt t\<rparr>"

definition softReset :: "terminal \<Rightarrow> terminal" where
  "softReset t =
     t\<lparr>primary := newBuffer (t_cols t) (t_rows t), alternate := newBuffer (t_cols t) (t_rows t), onAlt := False,
       pstate := stGround, priv := 0, param := 0, hasNum := False, u8 := [],
       params := [], colons := [], inter := [], payload := [],
       title := [], cursorVisible := True, autowrap := True, insertMode := False, originMode := False,
       mouseMode := MouseOff, mouseEnc := EncodeX10, appCursor := False\<rparr>"

definition Terminal_Reset :: "terminal \<Rightarrow> terminal" where
  "Terminal_Reset t = (softReset t)\<lparr>bell := 0, written := 0\<rparr>"

text \<open>\<open>reset\<close>: the parser forgets the sequence it was in.\<close>

definition parser_reset :: "terminal \<Rightarrow> terminal" where
  "parser_reset t =
     t\<lparr>pstate := stGround, params := [], colons := [], inter := [], param := 0, hasNum := False, priv := 0,
       payload := [], strEsc := False, u8 := []\<rparr>"

section \<open>Characters and controls\<close>

definition emit :: "int \<Rightarrow> terminal \<Rightarrow> terminal option" where
  "emit r t = do {
     t \<leftarrow> (if insertMode t \<and> RuneWidth r > 0 then on_buf (insertBlanks (RuneWidth r)) t else Some t);
     on_buf (put r (autowrap t)) t
   }"

text \<open>\<open>for ; n > 0; n-- { \<dots> }\<close>\<close>

definition tab_once :: "int \<Rightarrow> buffer \<Rightarrow> buffer" where
  "tab_once c b = (let x = ((curX b) sdiv 8 + 1) * 8 in b\<lparr>curX := (if x \<ge> c then c - 1 else x)\<rparr>)"

definition tab :: "int \<Rightarrow> terminal \<Rightarrow> terminal" where
  "tab n t = of_buf (\<lambda>b. ((tab_once (t_cols t) ^^ nat n) b)\<lparr>wrapNext := False\<rparr>) t"

definition backTab_once :: "buffer \<Rightarrow> buffer" where
  "backTab_once b = (let x = ((curX b + 7) sdiv 8 * 8) - 8 in b\<lparr>curX := (if x < 0 then 0 else x)\<rparr>)"

definition backTab :: "int \<Rightarrow> terminal \<Rightarrow> terminal" where
  "backTab n t = of_buf (\<lambda>b. ((backTab_once ^^ nat n) b)\<lparr>wrapNext := False\<rparr>) t"

definition control :: "byte \<Rightarrow> terminal \<Rightarrow> terminal option" where
  "control b t =
     (if b = 0x07 then Some (t\<lparr>bell := bell t + 1\<rparr>)
      else if b = 0x08 then
        Some (of_buf (\<lambda>f. if wrapNext f then f\<lparr>wrapNext := False\<rparr>
                          else if curX f > 0 then f\<lparr>curX := curX f - 1\<rparr> else f) t)
      else if b = 0x09 then Some (tab 1 t)
      else if b = 0x0A \<or> b = 0x0B \<or> b = 0x0C then on_buf lineFeed t
      else if b = 0x0D then Some (of_buf (\<lambda>f. f\<lparr>curX := 0, wrapNext := False\<rparr>) t)
      else Some t)"

text \<open>The last part of \<open>ground\<close>: one more byte of an encoding.\<close>

definition collect :: "byte \<Rightarrow> terminal \<Rightarrow> terminal option" where
  "collect b t =
     (if length (u8 t) \<ge> 4 then None
      else
        let t = t\<lparr>u8 := u8 t @ [b]\<rparr>
        in if FullRune (u8 t) then
             let r = fst (DecodeRune (u8 t)) in emit r (t\<lparr>u8 := []\<rparr>)
           else if length (u8 t) = 4 then emit RuneError (t\<lparr>u8 := []\<rparr>)
           else Some t)"

definition ground :: "byte \<Rightarrow> terminal \<Rightarrow> terminal option" where
  "ground b t =
     (if b < 0x80 then
        let t = t\<lparr>u8 := []\<rparr>
        in if b < 0x20 then control b t
           else if b = 0x7F then Some t
           else emit (uint b) t
      else if u8 t = [] \<and> b < 0xC2 then emit RuneError t
      else if u8 t \<noteq> [] \<and> b AND 0xC0 \<noteq> 0x80 then do {
        t \<leftarrow> emit RuneError t;
        let t = t\<lparr>u8 := []\<rparr>;
        if b < 0xC2 then emit RuneError t else collect b t
      }
      else collect b t)"

section \<open>Cursor and modes\<close>

definition save :: "terminal \<Rightarrow> terminal" where
  "save = of_buf (\<lambda>b. b\<lparr>savedX := curX b, savedY := curY b, savedAttr := pen b, savedValid := True\<rparr>)"

definition restore :: "terminal \<Rightarrow> terminal" where
  "restore = of_buf (\<lambda>b. if \<not> savedValid b then setCursor 0 0 b
                          else (setCursor (savedX b) (savedY b) b)\<lparr>pen := savedAttr b\<rparr>)"

definition moveTo :: "int \<Rightarrow> int \<Rightarrow> terminal \<Rightarrow> terminal" where
  "moveTo x y t =
     of_buf (\<lambda>b. setCursor x (if originMode t then clamp (y + regTop b) (regTop b) (regBottom b) else y) b) t"

definition arg :: "int list \<Rightarrow> nat \<Rightarrow> int \<Rightarrow> int" where
  "arg ps i def = (if i \<ge> length ps \<or> ps ! i = 0 then def else ps ! i)"

definition argRaw :: "int list \<Rightarrow> nat \<Rightarrow> int" where
  "argRaw ps i = (if i \<ge> length ps then 0 else ps ! i)"

definition eraseDisplay :: "int \<Rightarrow> terminal \<Rightarrow> terminal" where
  "eraseDisplay mode = of_buf (\<lambda>b.
     (if mode = 0 then fill_cells (curY b * cols b + curX b) (int (length (grid b))) (eraseCell b) b
      else if mode = 1 then fill_cells 0 (curY b * cols b + curX b + 1) (eraseCell b) b
      else if mode = 2 \<or> mode = 3 then fill_cells 0 (int (length (grid b))) (eraseCell b) b
      else b)\<lparr>wrapNext := False\<rparr>)"

definition eraseLine :: "int \<Rightarrow> terminal \<Rightarrow> terminal" where
  "eraseLine mode = of_buf (\<lambda>b.
     let start = curY b * cols b
     in (if mode = 0 then fill_cells (start + curX b) (start + cols b) (eraseCell b) b
         else if mode = 1 then fill_cells start (start + curX b + 1) (eraseCell b) b
         else if mode = 2 then fill_cells start (start + cols b) (eraseCell b) b
         else b)\<lparr>wrapNext := False\<rparr>)"

definition eraseChars :: "int \<Rightarrow> terminal \<Rightarrow> terminal" where
  "eraseChars n = of_buf (\<lambda>b.
     let start = curY b * cols b + curX b; lineEnd = (curY b + 1) * cols b;
         stop = (if start + n > lineEnd then lineEnd else start + n)
     in fill_cells start stop (eraseCell b) b)"

definition setRegion :: "int list \<Rightarrow> terminal \<Rightarrow> terminal" where
  "setRegion ps t =
     (let t0 = arg ps 0 1 - 1;
          b0 = arg ps 1 (t_rows t) - 1;
          b0 = (if b0 \<ge> t_rows t then t_rows t - 1 else b0)
      in if t0 < 0 \<or> t0 \<ge> b0 then t
         else moveTo 0 0 (of_buf (\<lambda>b. b\<lparr>regTop := t0, regBottom := b0\<rparr>) t))"

definition mouse_of :: "int \<Rightarrow> mouse_mode" where
  "mouse_of p = (if p = 9 then MouseX10 else if p = 1000 then MouseNormal else if p = 1002 then MouseDrag
     else if p = 1003 then MouseMotion else MouseOff)"

definition setMouse :: "int \<Rightarrow> bool \<Rightarrow> terminal \<Rightarrow> terminal" where
  "setMouse p on t =
     (let m = mouse_of p
      in if on then t\<lparr>mouseMode := m\<rparr>
         else if mouseMode t = m then t\<lparr>mouseMode := MouseOff\<rparr> else t)"

definition encoding_of :: "int \<Rightarrow> mouse_encoding" where
  "encoding_of p = (if p = 1005 then EncodeUTF8 else if p = 1006 then EncodeSGR else if p = 1015 then EncodeURXVT
     else EncodeX10)"

definition setMouseEncoding :: "int \<Rightarrow> bool \<Rightarrow> terminal \<Rightarrow> terminal" where
  "setMouseEncoding p on t =
     (let e = encoding_of p
      in if on then t\<lparr>mouseEnc := e\<rparr>
         else if mouseEnc t = e then t\<lparr>mouseEnc := EncodeX10\<rparr> else t)"

definition setAlternate :: "bool \<Rightarrow> bool \<Rightarrow> terminal \<Rightarrow> terminal" where
  "setAlternate on withCursor t =
     (if on = onAlt t then t
      else if on then
        let t = (if withCursor then save t else t);
            t = t\<lparr>alternate := (newBuffer (t_cols t) (t_rows t))\<lparr>pen := pen (buf t)\<rparr>, onAlt := True\<rparr>
        in if withCursor then of_buf (setCursor 0 0) t else t
      else
        let t = t\<lparr>onAlt := False\<rparr>
        in if withCursor then restore t else t)"

definition set_one_mode :: "byte \<Rightarrow> bool \<Rightarrow> int \<Rightarrow> terminal \<Rightarrow> terminal" where
  "set_one_mode pr on p t =
     (if pr \<noteq> 0x3F then (if p = 4 then t\<lparr>insertMode := on\<rparr> else t)
      else if p = 1 then t\<lparr>appCursor := on\<rparr>
      else if p = 6 then moveTo 0 0 (t\<lparr>originMode := on\<rparr>)
      else if p = 7 then t\<lparr>autowrap := on\<rparr>
      else if p = 25 then t\<lparr>cursorVisible := on\<rparr>
      else if p = 9 \<or> p = 1000 \<or> p = 1002 \<or> p = 1003 then setMouse p on t
      else if p = 1005 \<or> p = 1006 \<or> p = 1015 then setMouseEncoding p on t
      else if p = 47 \<or> p = 1047 \<or> p = 1049 then setAlternate on (p = 1049) t
      else if p = 1048 then (if on then save t else restore t)
      else t)"

definition setMode :: "byte \<Rightarrow> int list \<Rightarrow> bool \<Rightarrow> terminal \<Rightarrow> terminal" where
  "setMode pr ps on t = fold (set_one_mode pr on) ps t"

section \<open>Colours and attributes\<close>

definition color_byte :: "int \<Rightarrow> byte" where "color_byte p = word_of_int p"

text \<open>The colour read, if one was, and the index of the last parameter used.\<close>

definition extendedColor :: "bool list \<Rightarrow> int list \<Rightarrow> nat \<Rightarrow> color option \<times> nat" where
  "extendedColor cs ps i =
     (if i + 1 \<ge> length ps then (None, i)
      else
        let colonForm = (i < length cs \<and> cs ! i)
        in if ps ! (i + 1) = 5 \<and> i + 2 < length ps then (Some (Indexed (color_byte (ps ! (i + 2)))), i + 2)
           else if ps ! (i + 1) = 2 then
             let first = (if colonForm \<and> length ps \<ge> i + 2 + 4 then i + 3 else i + 2)
             in if first + 2 < length ps then
                  (Some (RGB (color_byte (ps ! first)) (color_byte (ps ! (first + 1))) (color_byte (ps ! (first + 2)))), first + 2)
                else (None, i + 1)
           else (None, i + 1))"

definition set_flags :: "attr_flags \<Rightarrow> attr \<Rightarrow> attr" where "set_flags f a = a\<lparr>Flags := Flags a OR f\<rparr>"
definition clear_flags :: "attr_flags \<Rightarrow> attr \<Rightarrow> attr" where "clear_flags f a = a\<lparr>Flags := Flags a AND NOT f\<rparr>"

text \<open>One parameter of SGR: the attribute after it and the index it leaves the loop at.\<close>

definition sgr_one :: "bool list \<Rightarrow> int list \<Rightarrow> nat \<Rightarrow> attr \<Rightarrow> attr \<times> nat" where
  "sgr_one cs ps i a =
     (let p = ps ! i
      in if p = 0 then (no_attr, i)
         else if p = 1 then (set_flags AttrBold a, i)
         else if p = 2 then (set_flags AttrFaint a, i)
         else if p = 3 then (set_flags AttrItalic a, i)
         else if p = 4 then (set_flags AttrUnderline a, i)
         else if p = 5 \<or> p = 6 then (set_flags AttrBlink a, i)
         else if p = 7 then (set_flags AttrReverse a, i)
         else if p = 8 then (set_flags AttrInvisible a, i)
         else if p = 9 then (set_flags AttrStrike a, i)
         else if p = 21 \<or> p = 22 then (clear_flags (AttrBold OR AttrFaint) a, i)
         else if p = 23 then (clear_flags AttrItalic a, i)
         else if p = 24 then (clear_flags AttrUnderline a, i)
         else if p = 25 then (clear_flags AttrBlink a, i)
         else if p = 27 then (clear_flags AttrReverse a, i)
         else if p = 28 then (clear_flags AttrInvisible a, i)
         else if p = 29 then (clear_flags AttrStrike a, i)
         else if p \<ge> 30 \<and> p \<le> 37 then (a\<lparr>FG := Indexed (color_byte (p - 30))\<rparr>, i)
         else if p = 38 then
           (case extendedColor cs ps i of (Some c, j) \<Rightarrow> (a\<lparr>FG := c\<rparr>, j) | (None, j) \<Rightarrow> (a, j))
         else if p = 39 then (a\<lparr>FG := ColorDefault\<rparr>, i)
         else if p \<ge> 40 \<and> p \<le> 47 then (a\<lparr>BG := Indexed (color_byte (p - 40))\<rparr>, i)
         else if p = 48 then
           (case extendedColor cs ps i of (Some c, j) \<Rightarrow> (a\<lparr>BG := c\<rparr>, j) | (None, j) \<Rightarrow> (a, j))
         else if p = 49 then (a\<lparr>BG := ColorDefault\<rparr>, i)
         else if p \<ge> 90 \<and> p \<le> 97 then (a\<lparr>FG := Indexed (color_byte (p - 90 + 8))\<rparr>, i)
         else if p \<ge> 100 \<and> p \<le> 107 then (a\<lparr>BG := Indexed (color_byte (p - 100 + 8))\<rparr>, i)
         else (a, i))"

lemma extendedColor_forward: "i \<le> snd (extendedColor cs ps i)"
  by (simp add: extendedColor_def Let_def)

lemma sgr_one_forward: "i \<le> snd (sgr_one cs ps i a)"
  by (cases "extendedColor cs ps i"; cases "fst (extendedColor cs ps i)")
    (use extendedColor_forward [of i cs ps] in \<open>simp_all add: sgr_one_def Let_def\<close>)

function sgr_from :: "bool list \<Rightarrow> int list \<Rightarrow> nat \<Rightarrow> attr \<Rightarrow> attr" where
  "sgr_from cs ps i a =
     (if i < length ps then (case sgr_one cs ps i a of (a, j) \<Rightarrow> sgr_from cs ps (j + 1) a) else a)"
  by pat_completeness auto

termination
proof (relation "measure (\<lambda>(cs, ps, i, a). length ps - i)")
  fix cs ps i a y j
  assume "i < length ps" "(y, j) = sgr_one cs ps i a"
  then show "((cs, ps, j + 1, y), cs, ps, i, a) \<in> measure (\<lambda>(cs, ps, i, a). length ps - i)"
    using sgr_one_forward [of i cs ps a] by (cases "sgr_one cs ps i a") auto
qed simp

declare sgr_from.simps [simp del]

definition sgr :: "int list \<Rightarrow> terminal \<Rightarrow> terminal" where
  "sgr ps t =
     (if ps = [] then of_buf (\<lambda>b. b\<lparr>pen := no_attr\<rparr>) t
      else of_buf (\<lambda>b. b\<lparr>pen := sgr_from (colons t) ps 0 (pen b)\<rparr>) t)"

section \<open>Control sequences\<close>

definition pushParam :: "bool \<Rightarrow> terminal \<Rightarrow> terminal" where
  "pushParam isColon t =
     (let t = (if length (params t) < MaxParams
               then t\<lparr>params := params t @ [param t], colons := colons t @ [isColon]\<rparr> else t)
      in t\<lparr>param := 0, hasNum := False\<rparr>)"

text \<open>The cursor, erasing and scrolling sequences, by their final byte.\<close>

definition dispatch :: "byte \<Rightarrow> byte list \<Rightarrow> int list \<Rightarrow> byte \<Rightarrow> terminal \<Rightarrow> terminal option" where
  "dispatch pr im ps final t =
     (let n = arg ps 0 1
      in if im \<noteq> [] then Some (if final = 0x70 \<and> im = [0x21] then softReset t else t)
         else if final = 0x41 then Some (of_buf (\<lambda>b. setCursor (curX b) (curY b - n) b) t) \<comment> \<open>CUU\<close>
         else if final = 0x42 \<or> final = 0x65 then Some (of_buf (\<lambda>b. setCursor (curX b) (curY b + n) b) t) \<comment> \<open>CUD, VPR\<close>
         else if final = 0x43 \<or> final = 0x61 then Some (of_buf (\<lambda>b. setCursor (curX b + n) (curY b) b) t) \<comment> \<open>CUF, HPR\<close>
         else if final = 0x44 then Some (of_buf (\<lambda>b. setCursor (curX b - n) (curY b) b) t) \<comment> \<open>CUB\<close>
         else if final = 0x45 then Some (of_buf (\<lambda>b. setCursor 0 (curY b + n) b) t) \<comment> \<open>CNL\<close>
         else if final = 0x46 then Some (of_buf (\<lambda>b. setCursor 0 (curY b - n) b) t) \<comment> \<open>CPL\<close>
         else if final = 0x47 \<or> final = 0x60 then Some (of_buf (\<lambda>b. setCursor (n - 1) (curY b) b) t) \<comment> \<open>CHA, HPA\<close>
         else if final = 0x48 \<or> final = 0x66 then Some (moveTo (arg ps 1 1 - 1) (n - 1) t) \<comment> \<open>CUP, HVP\<close>
         else if final = 0x49 then Some (tab n t) \<comment> \<open>CHT\<close>
         else if final = 0x4A then Some (eraseDisplay (argRaw ps 0) t) \<comment> \<open>ED\<close>
         else if final = 0x4B then Some (eraseLine (argRaw ps 0) t) \<comment> \<open>EL\<close>
         else if final = 0x4C then \<comment> \<open>IL\<close>
           on_buf (\<lambda>b. if curY b \<ge> regTop b \<and> curY b \<le> regBottom b then scrollRegionDown (curY b) (regBottom b) n b
                       else Some b) t
         else if final = 0x4D then \<comment> \<open>DL\<close>
           on_buf (\<lambda>b. if curY b \<ge> regTop b \<and> curY b \<le> regBottom b then scrollRegionUp (curY b) (regBottom b) n b
                       else Some b) t
         else if final = 0x50 then on_buf (deleteChars n) t \<comment> \<open>DCH\<close>
         else if final = 0x53 then on_buf (scrollUp n) t \<comment> \<open>SU\<close>
         else if final = 0x54 then on_buf (scrollDown n) t \<comment> \<open>SD\<close>
         else if final = 0x58 then Some (eraseChars n t) \<comment> \<open>ECH\<close>
         else if final = 0x5A then Some (backTab n t) \<comment> \<open>CBT\<close>
         else if final = 0x40 then on_buf (insertBlanks n) t \<comment> \<open>ICH\<close>
         else if final = 0x64 then Some (moveTo (curX (buf t)) (n - 1) t) \<comment> \<open>VPA\<close>
         else if final = 0x68 then Some (setMode pr ps True t)
         else if final = 0x6C then Some (setMode pr ps False t)
         else if final = 0x6D then Some (sgr ps t)
         else if final = 0x72 then Some (setRegion ps t)
         else if final = 0x73 then Some (save t)
         else if final = 0x75 then Some (restore t)
         else Some t)"

definition csi :: "byte \<Rightarrow> terminal \<Rightarrow> terminal option" where
  "csi b t =
     (if b \<ge> 0x30 \<and> b \<le> 0x39 then
        let p = (if param t \<le> MaxParam then param t * 10 + uint (b - 0x30) else param t);
            p = (if p > MaxParam then MaxParam else p)
        in Some (t\<lparr>param := p, hasNum := True\<rparr>)
      else if b = 0x3B \<or> b = 0x3A then Some (pushParam (b = 0x3A) t)
      else if b \<ge> 0x3C \<and> b \<le> 0x3F then Some (if params t = [] \<and> \<not> hasNum t then t\<lparr>priv := b\<rparr> else t)
      else if b \<ge> 0x20 \<and> b \<le> 0x2F then Some (if length (inter t) < 2 then t\<lparr>inter := inter t @ [b]\<rparr> else t)
      else if b < 0x20 then control b t
      else do {
        let t = pushParam False t;
        t \<leftarrow> dispatch (priv t) (inter t) (params t) b t;
        Some (parser_reset t)
      })"

definition escape :: "byte \<Rightarrow> terminal \<Rightarrow> terminal option" where
  "escape b t =
     (if b = 0x5B then Some (t\<lparr>pstate := stCSI\<rparr>)
      else if b = 0x5D then Some (t\<lparr>pstate := stOSC, strCmd := b\<rparr>)
      else if b = 0x50 \<or> b = 0x58 \<or> b = 0x5E \<or> b = 0x5F then Some (t\<lparr>pstate := stString, strCmd := b\<rparr>)
      else if b = 0x28 \<or> b = 0x29 \<or> b = 0x2A \<or> b = 0x2B then Some (t\<lparr>pstate := stCharset\<rparr>)
      else
        let t = t\<lparr>pstate := stGround\<rparr>
        in if b = 0x44 then on_buf lineFeed t \<comment> \<open>IND\<close>
           else if b = 0x45 then on_buf (\<lambda>f. lineFeed (f\<lparr>curX := 0\<rparr>)) t \<comment> \<open>NEL\<close>
           else if b = 0x4D then on_buf reverseIndex t \<comment> \<open>RI\<close>
           else if b = 0x37 then Some (save t) \<comment> \<open>DECSC\<close>
           else if b = 0x38 then Some (restore t) \<comment> \<open>DECRC\<close>
           else if b = 0x63 then Some (softReset t) \<comment> \<open>RIS\<close>
           else Some t)"

text \<open>\<open>strings.Cut(s, sep)\<close> for a separator of one byte.\<close>

fun cut_at :: "byte \<Rightarrow> byte list \<Rightarrow> (byte list \<times> byte list) option" where
  "cut_at s [] = None"
| "cut_at s (b # bs) =
     (if b = s then Some ([], bs) else (case cut_at s bs of None \<Rightarrow> None | Some (l, r) \<Rightarrow> Some (b # l, r)))"

definition endString :: "terminal \<Rightarrow> terminal" where
  "endString t =
     (let str = payload t; cmd = strCmd t; t = parser_reset t
      in if cmd \<noteq> 0x5D then t
         else (case cut_at 0x3B str of
            None \<Rightarrow> t
          | Some (num, rest) \<Rightarrow>
              if num = [0x30] \<or> num = [0x31] \<or> num = [0x32] then t\<lparr>title := take 256 rest\<rparr> else t))"

definition stringByte :: "byte \<Rightarrow> terminal \<Rightarrow> terminal option" where
  "stringByte b t =
     (if strEsc t then
        let t = t\<lparr>strEsc := False\<rparr>
        in if b = 0x5C then Some (endString t)
           else escape b ((parser_reset t)\<lparr>pstate := stEscape\<rparr>)
      else if b = 0x07 \<or> b = 0x9C then Some (endString t)
      else Some (if length (payload t) < MaxString then t\<lparr>payload := payload t @ [b]\<rparr> else t))"

definition step_byte :: "byte \<Rightarrow> terminal \<Rightarrow> terminal option" where
  "step_byte b t =
     (if (b = 0x18 \<or> b = 0x1A) \<and> pstate t \<noteq> stGround then Some (parser_reset t)
      else if b = 0x1B then
        (if pstate t = stOSC \<or> pstate t = stString then Some (t\<lparr>strEsc := True\<rparr>)
         else Some ((parser_reset t)\<lparr>pstate := stEscape\<rparr>))
      else (case pstate t of
          stGround \<Rightarrow> ground b t
        | stEscape \<Rightarrow> escape b t
        | stCSI \<Rightarrow> csi b t
        | stOSC \<Rightarrow> stringByte b t
        | stString \<Rightarrow> stringByte b t
        | stCharset \<Rightarrow> Some (t\<lparr>pstate := stGround\<rparr>)))"

definition Terminal_Write :: "byte list \<Rightarrow> terminal \<Rightarrow> terminal option" where
  "Terminal_Write p t = mfold step_byte p (t\<lparr>written := written t + of_nat (length p)\<rparr>)"

end
