(* ===== verification/VT_Safe.thy ===== *)
theory VT_Safe
  imports VT_Term
begin

text \<open>
  What the terminal keeps whatever bytes arrive: the grid is a rectangle, the cursor and the
  scrolling region lie inside it, and everything the target can make grow has its limit.
\<close>

section \<open>Buffers\<close>

definition buf_ok :: "int \<Rightarrow> int \<Rightarrow> buffer \<Rightarrow> bool" where
  "buf_ok c l b \<longleftrightarrow>
     2 \<le> c \<and> 1 \<le> l \<and> cols b = c \<and> lines b = l \<and> length (grid b) = nat (c * l) \<and>
     0 \<le> curX b \<and> curX b < c \<and> 0 \<le> curY b \<and> curY b < l \<and>
     0 \<le> regTop b \<and> regTop b \<le> regBottom b \<and> regBottom b < l"

named_theorems buf_ok \<open>operations that keep a buffer in shape\<close>

lemma buf_ok_ignores [simp]:
  "buf_ok c l (b\<lparr>pen := p\<rparr>) = buf_ok c l b"
  "buf_ok c l (b\<lparr>wrapNext := w\<rparr>) = buf_ok c l b"
  "buf_ok c l (b\<lparr>savedX := x\<rparr>) = buf_ok c l b"
  "buf_ok c l (b\<lparr>savedY := x\<rparr>) = buf_ok c l b"
  "buf_ok c l (b\<lparr>savedAttr := p\<rparr>) = buf_ok c l b"
  "buf_ok c l (b\<lparr>savedValid := w\<rparr>) = buf_ok c l b"
  by (simp_all add: buf_ok_def)

lemma buf_ok_grid: "buf_ok c l b \<Longrightarrow> length g = length (grid b) \<Longrightarrow> buf_ok c l (b\<lparr>grid := g\<rparr>)"
  by (simp add: buf_ok_def)

lemma buf_ok_curX: "buf_ok c l b \<Longrightarrow> 0 \<le> x \<Longrightarrow> x < c \<Longrightarrow> buf_ok c l (b\<lparr>curX := x\<rparr>)"
  by (simp add: buf_ok_def)

lemma buf_ok_curY: "buf_ok c l b \<Longrightarrow> 0 \<le> y \<Longrightarrow> y < l \<Longrightarrow> buf_ok c l (b\<lparr>curY := y\<rparr>)"
  by (simp add: buf_ok_def)

lemma buf_okD:
  assumes "buf_ok c l b"
  shows "2 \<le> c" "1 \<le> l" "cols b = c" "lines b = l" "int (length (grid b)) = c * l"
    "0 \<le> curX b" "curX b < c" "0 \<le> curY b" "curY b < l" "0 \<le> regTop b" "regTop b \<le> regBottom b" "regBottom b < l"
  using assms by (simp_all add: buf_ok_def)

lemma row_start:
  fixes a c l :: int
  assumes "0 \<le> a" and "a \<le> l" and "0 \<le> c"
  shows "0 \<le> a * c" and "a * c \<le> c * l"
  using assms by (simp_all add: mult.commute [of c] mult_right_mono)

lemma cell_inside:
  fixes x y c l :: int
  assumes "0 \<le> x" "x < c" "0 \<le> y" "y < l"
  shows "0 \<le> y * c + x" and "y * c + x < c * l"
proof -
  have "(y + 1) * c \<le> l * c" using assms by (intro mult_right_mono) auto
  then show "y * c + x < c * l" using assms by (simp add: algebra_simps)
  show "0 \<le> y * c + x" using assms by simp
qed

lemma length_overwrite_window:
  assumes "0 \<le> a" and "a \<le> z" and "z \<le> int (length xs)"
  shows "length (overwrite (nat a) (take (length (window (nat a) (nat z) xs)) ys) xs) = length xs"
    and "length (overwrite (nat a) (take (nat z - nat a) ys) xs) = length xs"
  using assms by - (intro length_overwrite, simp add: min_def, linarith)+

lemma newBuffer_ok: "2 \<le> c \<Longrightarrow> 1 \<le> l \<Longrightarrow> buf_ok c l (newBuffer c l)"
  by (simp add: buf_ok_def newBuffer_def)

lemma setCursor_ok [buf_ok]: "buf_ok c l b \<Longrightarrow> buf_ok c l (setCursor x y b)"
  by (simp add: buf_ok_def setCursor_def clamp_def)

lemma fill_cells_ok [buf_ok]: "buf_ok c l b \<Longrightarrow> buf_ok c l (fill_cells a z e b)"
  unfolding fill_cells_def Let_def by (auto intro!: buf_ok_grid length_overwrite)

lemma cell_at_ok:
  assumes "buf_ok c l b" and "\<And>e. Q e"
  shows "ok (cell_at x y b) Q"
  using assms(2) buf_okD [OF assms(1)] cell_inside [of x c y l]
  by (auto simp: cell_at_def cell_index_def get_at_def)

lemma set_cell_ok [buf_ok]: "buf_ok c l b \<Longrightarrow> ok (set_cell x y e b) (buf_ok c l)"
  using buf_okD [of c l b] cell_inside [of x c y l]
  by (auto simp: set_cell_def cell_index_def set_at_def intro: buf_ok_grid)

lemma move_cells_ok:
  assumes "buf_ok c l b" and "0 \<le> a" "a \<le> z" "z \<le> c * l" "0 \<le> d" "d \<le> e" "e \<le> c * l"
  shows "ok (move_cells a z d e b) (buf_ok c l)"
  unfolding move_cells_def using assms buf_okD(5) [OF assms(1)]
  by (intro wp) (auto intro!: buf_ok_grid length_overwrite_window)

lemma scroll_ok:
  assumes "buf_ok c l b" and "0 \<le> t"
  shows "ok (scrollRegionUp t m n b) (buf_ok c l)" and "ok (scrollRegionDown t m n b) (buf_ok c l)"
proof -
  note d = buf_okD [OF assms(1)]
  obtain k where k: "k = (if n > m - t + 1 then m - t + 1 else n)" by blast
  have bounds: "0 \<le> t * c" "t * c \<le> (m + 1 - k) * c" "(m + 1 - k) * c \<le> c * l" "0 \<le> (t + k) * c"
      "(t + k) * c \<le> (m + 1) * c" "(m + 1) * c \<le> c * l" if "0 < n" "t \<le> m" "m < l"
    using that assms(2) d(1) row_start [of "m + 1" l c] row_start [of "m + 1 - k" l c]
    by (auto simp: k intro!: mult_right_mono)
  show "ok (scrollRegionUp t m n b) (buf_ok c l)"
    unfolding scrollRegionUp_def Let_def k [symmetric] d(3,4)
    by (intro wp) (use bounds assms(1) in \<open>auto intro!: ok_mono [OF move_cells_ok] buf_ok simp: buf_okD(3)\<close>)
  show "ok (scrollRegionDown t m n b) (buf_ok c l)"
    unfolding scrollRegionDown_def Let_def k [symmetric] d(3,4)
    by (intro wp) (use bounds assms(1) in \<open>auto intro!: ok_mono [OF move_cells_ok] buf_ok simp: buf_okD(3)\<close>)
qed

lemma scrollUp_ok [buf_ok]: "buf_ok c l b \<Longrightarrow> ok (scrollUp n b) (buf_ok c l)"
  unfolding scrollUp_def by (intro scroll_ok) (simp_all add: buf_okD)

lemma scrollDown_ok [buf_ok]: "buf_ok c l b \<Longrightarrow> ok (scrollDown n b) (buf_ok c l)"
  unfolding scrollDown_def by (intro scroll_ok) (simp_all add: buf_okD)

lemma lineFeed_ok [buf_ok]: "buf_ok c l b \<Longrightarrow> ok (lineFeed b) (buf_ok c l)"
  unfolding lineFeed_def
  by (intro wp) (auto intro!: ok_mono [OF scrollUp_ok] buf_ok_curY simp: buf_okD)

lemma reverseIndex_ok [buf_ok]: "buf_ok c l b \<Longrightarrow> ok (reverseIndex b) (buf_ok c l)"
  unfolding reverseIndex_def
  by (intro wp) (auto intro!: ok_mono [OF scrollDown_ok] buf_ok_curY simp: buf_okD less_imp_le dest: buf_okD)

lemma breakWide_ok [buf_ok]: "buf_ok c l b \<Longrightarrow> ok (breakWide x y b) (buf_ok c l)"
  unfolding breakWide_def
  by (intro wp cell_at_ok) (auto intro!: wp cell_at_ok set_cell_ok split: option.splits)

lemma combine_ok [buf_ok]: "buf_ok c l b \<Longrightarrow> ok (combine b) (buf_ok c l)"
proof -
  assume b: "buf_ok c l b"
  have "ok (combine_from n b) (buf_ok c l)" for n
  proof (induction n)
    case 0
    show ?case unfolding combine_from.simps [of 0] by (intro wp cell_at_ok [OF b]) (simp add: b split: option.splits)
  next
    case (Suc n)
    show ?case unfolding combine_from.simps [of "Suc n"]
      by (intro wp cell_at_ok [OF b]) (simp add: b Suc.IH del: combine_from.simps split: option.splits)
  qed
  then show ?thesis by (simp add: combine_def Let_def b del: combine_from.simps)
qed

lemma make_room_ok:
  assumes "buf_ok c l b" and "w = 1 \<or> w = 2"
  shows "ok (make_room w aw b) (\<lambda>(room, b). room \<and> buf_ok c l b)"
proof -
  have z: "buf_ok c l (f\<lparr>curX := 0\<rparr>)" if "buf_ok c l f" for f
    using that by (auto intro!: buf_ok_curX dest: buf_okD(1))
  have first: "ok (if wrapNext b \<and> aw then lineFeed (b\<lparr>curX := 0\<rparr>) else Some b) (buf_ok c l)"
    using assms(1) by (auto intro!: lineFeed_ok z)
  show ?thesis unfolding make_room_def
  proof (rule ok_bind, rule ok_mono [OF first])
    fix f assume f: "buf_ok c l f"
    show "ok (if curX f + w > cols f then (if \<not> aw then let b = f\<lparr>curX := cols f - w\<rparr> in Some (\<not> curX b < 0, b)
        else do { b \<leftarrow> lineFeed (f\<lparr>curX := 0\<rparr>); Some (True, b) }) else Some (True, f)) (\<lambda>(room, b). room \<and> buf_ok c l b)"
      using f assms(2) by (auto simp: Let_def buf_okD(3) intro!: wp ok_mono [OF lineFeed_ok [OF z]] buf_ok_curX dest: buf_okD(1))
  qed
qed

lemma put_ok [buf_ok]:
  assumes "buf_ok c l b"
  shows "ok (put r aw b) (buf_ok c l)"
proof (cases "RuneWidth r = 0")
  case True
  then show ?thesis using assms by (simp add: put_def combine_ok)
next
  case False
  obtain w where w: "w = RuneWidth r" by blast
  then have "w = 1 \<or> w = 2" using False RuneWidth_cases [of r] by auto
  have last: "buf_ok c l (if curX (f\<lparr>curX := curX f + w\<rparr>) \<ge> cols (f\<lparr>curX := curX f + w\<rparr>)
      then f\<lparr>curX := curX f + w, curX := cols (f\<lparr>curX := curX f + w\<rparr>) - 1, wrapNext := True\<rparr> else f\<lparr>curX := curX f + w\<rparr>)"
    if "buf_ok c l f" for f
    using that \<open>w = 1 \<or> w = 2\<close> by (auto simp: buf_ok_def)
  have rest: "ok (do {
      b \<leftarrow> breakWide (curX b) (curY b) b;
      b \<leftarrow> (if w = 2 then breakWide (curX b + 1) (curY b) b else Some b);
      b \<leftarrow> set_cell (curX b) (curY b) \<lparr>Rune = r, Look = pen b, Width = w\<rparr> b;
      b \<leftarrow> (if w = 2 then set_cell (curX b + 1) (curY b) \<lparr>Rune = 0, Look = pen b, Width = 0\<rparr> b else Some b);
      let b = b\<lparr>curX := curX b + w\<rparr>;
      Some (if curX b \<ge> cols b then b\<lparr>curX := cols b - 1, wrapNext := True\<rparr> else b)
    }) (buf_ok c l)" if b: "buf_ok c l b" for b
    apply (rule ok_bind, rule ok_mono [OF breakWide_ok [OF b]])
    apply (rule ok_bind, rule ok_mono [where P = "buf_ok c l"])
     apply (simp add: breakWide_ok)
    apply (rule ok_bind, rule ok_mono [OF set_cell_ok], assumption)
    apply (rule ok_bind, rule ok_mono [where P = "buf_ok c l"])
     apply (simp add: set_cell_ok)
    apply (simp only: Let_def ok_Some)
    apply (rule last, assumption)
    done
  show ?thesis unfolding put_def w [symmetric]
    by (subst Let_def, simp only: if_False False [folded w], intro ok_bind, rule ok_mono [OF make_room_ok [OF assms \<open>w = 1 \<or> w = 2\<close>]])
      (use rest in auto)
qed

lemma with_row_ok:
  assumes "buf_ok c l b" and "\<And>row. length row = nat c \<Longrightarrow> ok (f row) (\<lambda>r. length r = nat c)"
  shows "ok (with_row f b) (buf_ok c l)"
proof -
  note d = buf_okD [OF assms(1)]
  have s: "0 \<le> curY b * c" "curY b * c \<le> (curY b + 1) * c" "(curY b + 1) * c \<le> c * l"
    using d row_start [of "curY b + 1" l c] by (auto intro!: mult_right_mono)
  have len: "length (window (nat (curY b * c)) (nat ((curY b + 1) * c)) (grid b)) = nat c"
    using s d(1,5) by (simp add: nat_le_iff) (simp add: algebra_simps)
  have fits: "nat (curY b * c) + nat c \<le> length (grid b)" using s d(1,5) by (simp add: algebra_simps)
  have put_back: "buf_ok c l (b\<lparr>grid := overwrite (nat (curY b * c)) r (grid b)\<rparr>)" if "length r = nat c" for r
    using that fits by (intro buf_ok_grid [OF assms(1)] length_overwrite) simp
  show ?thesis unfolding with_row_def d(3)
    by (intro wp) (use s d(5) put_back in \<open>auto intro!: ok_mono [OF assms(2) [OF len]]\<close>)
qed

lemma set_run_ok: "0 \<le> a \<Longrightarrow> z \<le> int (length row) \<Longrightarrow> ok (set_run a z e row) (\<lambda>r. length r = length row)"
  by (auto simp: set_run_def intro!: length_overwrite)

lemma insertBlanks_ok [buf_ok]:
  assumes "buf_ok c l b"
  shows "ok (insertBlanks n b) (buf_ok c l)"
proof -
  note d = buf_okD [OF assms]
  obtain k where k: "k = (if n > c - curX b then c - curX b else n)" by blast
  show ?thesis unfolding insertBlanks_def Let_def d(3) k [symmetric]
    apply (intro wp ok_SomeI assms)
    apply (rule with_row_ok [OF assms])
    apply (intro wp)
    using d by (auto simp: k intro!: ok_mono [OF set_run_ok])
qed

lemma deleteChars_ok [buf_ok]:
  assumes "buf_ok c l b"
  shows "ok (deleteChars n b) (buf_ok c l)"
proof -
  note d = buf_okD [OF assms]
  obtain k where k: "k = (if n > c - curX b then c - curX b else n)" by blast
  show ?thesis unfolding deleteChars_def Let_def d(3) k [symmetric]
    apply (intro wp ok_SomeI assms)
    apply (rule with_row_ok [OF assms])
    apply (intro wp)
    using d by (auto simp: k intro!: ok_mono [OF set_run_ok])
qed

lemma resize_ok:
  assumes "buf_ok c l b" and "2 \<le> c'" and "1 \<le> l'"
  shows "ok (resize c' l' b) (buf_ok c' l')"
proof (cases "c' = cols b \<and> l' = lines b")
  case True
  then show ?thesis using assms(1) by (simp add: resize_def buf_okD)
next
  case False
  note d = buf_okD [OF assms(1)]
  have body: "ok (resize_row c' b y g) (\<lambda>g. length g = nat (c' * l'))"
    if y: "y < nat (min l' l)" and g: "length g = nat (c' * l')" for y g
  proof -
    have s: "0 \<le> int y * c" "(int y + 1) * c \<le> c * l" "0 \<le> int y * c'" "(int y + 1) * c' \<le> c' * l'"
      using y d(1) assms(2) row_start [of "int y + 1" l c] row_start [of "int y + 1" l' c'] by auto
    have t: "int y * c + min c' c \<le> c * l" "int y * c' \<le> (int y + 1) * c'" using s(2) assms(2) by (auto simp: algebra_simps)
    have u: "y * nat c' = nat (int y * c')" using assms(2) by (simp add: nat_mult_distrib)
    show ?thesis unfolding resize_row_def d(3) u
      by (intro wp) (use s t d assms(2) g in \<open>auto simp: length_overwrite_window\<close>)
  qed
  have "ok (for_upto (nat (min l' l)) (resize_row c' b) (replicate (nat (c' * l')) blank_cell)) (\<lambda>g. length g = nat (c' * l'))"
    by (rule ok_for_upto [where I = "\<lambda>_ g. length g = nat (c' * l')"]) (use body in auto)
  then show ?thesis unfolding resize_def d(4) if_not_P [OF False [unfolded d(4)]]
    by (intro ok_bind, elim ok_mono) (use assms(2,3) in \<open>simp add: Let_def buf_ok_def setCursor_def clamp_def\<close>)
qed

section \<open>The terminal\<close>

definition limits_ok :: "terminal \<Rightarrow> bool" where
  "limits_ok t \<longleftrightarrow>
     length (params t) \<le> MaxParams \<and> length (colons t) = length (params t) \<and>
     (\<forall>p \<in> set (params t). 0 \<le> p \<and> p \<le> MaxParam) \<and> 0 \<le> param t \<and> param t \<le> MaxParam \<and>
     length (inter t) \<le> 2 \<and> length (payload t) \<le> MaxString \<and> length (u8 t) \<le> 3 \<and> length (title t) \<le> 256"

definition term_ok :: "terminal \<Rightarrow> bool" where
  "term_ok t \<longleftrightarrow>
     buf_ok (t_cols t) (t_rows t) (primary t) \<and> buf_ok (t_cols t) (t_rows t) (alternate t) \<and>
     t_cols t \<le> MaxCols \<and> t_rows t \<le> MaxRows \<and> limits_ok t"

lemma term_ok_ignores [simp]:
  "term_ok (t\<lparr>onAlt := a\<rparr>) = term_ok t" "term_ok (t\<lparr>pstate := s\<rparr>) = term_ok t" "term_ok (t\<lparr>hasNum := a\<rparr>) = term_ok t"
  "term_ok (t\<lparr>priv := b\<rparr>) = term_ok t" "term_ok (t\<lparr>strCmd := b\<rparr>) = term_ok t" "term_ok (t\<lparr>strEsc := a\<rparr>) = term_ok t"
  "term_ok (t\<lparr>cursorVisible := a\<rparr>) = term_ok t" "term_ok (t\<lparr>autowrap := a\<rparr>) = term_ok t"
  "term_ok (t\<lparr>insertMode := a\<rparr>) = term_ok t" "term_ok (t\<lparr>originMode := a\<rparr>) = term_ok t"
  "term_ok (t\<lparr>mouseMode := m\<rparr>) = term_ok t" "term_ok (t\<lparr>mouseEnc := e\<rparr>) = term_ok t"
  "term_ok (t\<lparr>appCursor := a\<rparr>) = term_ok t" "term_ok (t\<lparr>bell := u\<rparr>) = term_ok t" "term_ok (t\<lparr>written := u\<rparr>) = term_ok t"
  by (simp_all add: term_ok_def limits_ok_def)

lemma term_ok_u8: "term_ok t \<Longrightarrow> length bs \<le> 3 \<Longrightarrow> term_ok (t\<lparr>u8 := bs\<rparr>)"
  by (simp add: term_ok_def limits_ok_def)

lemma parser_reset_ok: "term_ok t \<Longrightarrow> term_ok (parser_reset t)"
  by (simp add: term_ok_def limits_ok_def parser_reset_def MaxParam_def)

lemma softReset_ok: "term_ok t \<Longrightarrow> term_ok (softReset t)"
  by (auto simp: term_ok_def limits_ok_def softReset_def MaxParam_def intro!: newBuffer_ok dest: buf_okD(1,2))

lemma buf_ok_buf: "term_ok t \<Longrightarrow> buf_ok (t_cols t) (t_rows t) (buf t)"
  by (simp add: term_ok_def buf_def)

lemma with_buf_ok: "term_ok t \<Longrightarrow> buf_ok (t_cols t) (t_rows t) b \<Longrightarrow> term_ok (with_buf b t)"
  by (simp add: term_ok_def with_buf_def limits_ok_def)

lemma on_buf_ok:
  assumes "term_ok t" and "\<And>c l b. buf_ok c l b \<Longrightarrow> ok (f b) (buf_ok c l)"
  shows "ok (on_buf f t) term_ok"
  unfolding on_buf_def
  by (intro wp, rule ok_mono [OF assms(2) [OF buf_ok_buf [OF assms(1)]]]) (simp add: with_buf_ok assms(1))

lemma of_buf_ok:
  assumes "term_ok t" and "\<And>l b. buf_ok (t_cols t) l b \<Longrightarrow> buf_ok (t_cols t) l (f b)"
  shows "term_ok (of_buf f t)"
  unfolding of_buf_def using assms by (intro with_buf_ok) (auto intro: buf_ok_buf)

lemma emit_ok: "term_ok t \<Longrightarrow> ok (emit r t) term_ok"
  unfolding emit_def
  by (intro ok_bind, rule ok_mono [where P = term_ok]) (auto intro!: on_buf_ok insertBlanks_ok put_ok)

lemma sdiv_8: "0 \<le> x \<Longrightarrow> x sdiv 8 = x div (8 :: int)"
  by (cases "x = 0") (simp_all add: signed_divide_int_def)

lemma tab_ok: "term_ok t \<Longrightarrow> term_ok (tab n t)"
  unfolding tab_def
proof (rule of_buf_ok, assumption)
  fix l b assume b: "buf_ok (t_cols t) l b"
  have once: "buf_ok (t_cols t) l (tab_once (t_cols t) f)" if f: "buf_ok (t_cols t) l f" for f
    unfolding tab_once_def Let_def by (rule buf_ok_curX [OF f]) (use buf_okD(1,6,7) [OF f] in \<open>auto simp: sdiv_8\<close>)
  have "buf_ok (t_cols t) l ((tab_once (t_cols t) ^^ k) b)" for k
    by (induction k) (simp_all add: b once)
  then show "buf_ok (t_cols t) l ((tab_once (t_cols t) ^^ nat n) b\<lparr>wrapNext := False\<rparr>)" by simp
qed

lemma backTab_ok: "term_ok t \<Longrightarrow> term_ok (backTab n t)"
  unfolding backTab_def
proof (rule of_buf_ok, assumption)
  fix l b assume b: "buf_ok (t_cols t) l b"
  have once: "buf_ok (t_cols t) l (backTab_once f)" if f: "buf_ok (t_cols t) l f" for f
  proof -
    have "(curX f + 7) div 8 * 8 \<le> curX f + 7" by presburger
    then show ?thesis unfolding backTab_once_def Let_def
      by (intro buf_ok_curX [OF f]) (use buf_okD(1,6,7) [OF f] in \<open>auto simp: sdiv_8\<close>)
  qed
  have "buf_ok (t_cols t) l ((backTab_once ^^ k) b)" for k
    by (induction k) (simp_all add: b once)
  then show "buf_ok (t_cols t) l ((backTab_once ^^ nat n) b\<lparr>wrapNext := False\<rparr>)" by simp
qed

lemma control_ok: "term_ok t \<Longrightarrow> ok (control b t) term_ok"
proof -
  assume t: "term_ok t"
  have 1: "term_ok (of_buf (\<lambda>f. if wrapNext f then f\<lparr>wrapNext := False\<rparr>
      else if curX f > 0 then f\<lparr>curX := curX f - 1\<rparr> else f) t)"
    using t by (rule of_buf_ok) (simp add: buf_ok_def)
  have 2: "term_ok (of_buf (\<lambda>f. f\<lparr>curX := 0, wrapNext := False\<rparr>) t)"
    using t by (rule of_buf_ok) (simp add: buf_ok_def)
  show ?thesis unfolding control_def
    by (intro wp 1 2 tab_ok on_buf_ok lineFeed_ok t) (simp add: t)
qed

lemma collect_ok: "term_ok t \<Longrightarrow> ok (collect b t) term_ok"
proof -
  assume t: "term_ok t"
  then have "length (u8 t) \<le> 3" by (simp add: term_ok_def limits_ok_def)
  then show ?thesis using t unfolding collect_def Let_def
    by (intro ok_if) (simp_all add: emit_ok term_ok_u8)
qed

lemma ground_ok:
  assumes "term_ok t" shows "ok (ground b t) term_ok"
proof -
  have "ok (do { t \<leftarrow> emit RuneError t; let t = t\<lparr>u8 := []\<rparr>; if b < 0xC2 then emit RuneError t else collect b t }) term_ok"
    by (intro ok_bind, rule ok_mono [OF emit_ok [OF assms]]) (simp add: Let_def emit_ok collect_ok term_ok_u8)
  then show ?thesis unfolding ground_def Let_def
    by (intro ok_if) (simp_all add: assms control_ok emit_ok collect_ok term_ok_u8)
qed

lemma moveTo_ok: "term_ok t \<Longrightarrow> term_ok (moveTo x y t)"
  unfolding moveTo_def by (intro of_buf_ok setCursor_ok)

lemma save_ok: "term_ok t \<Longrightarrow> term_ok (save t)"
  unfolding save_def by (rule of_buf_ok) simp_all

lemma restore_ok: "term_ok t \<Longrightarrow> term_ok (restore t)"
  unfolding restore_def by (rule of_buf_ok) (simp_all add: setCursor_ok)

lemma erase_ok:
  assumes "term_ok t"
  shows "term_ok (eraseDisplay m t)" and "term_ok (eraseLine m t)" and "term_ok (eraseChars m t)"
  unfolding eraseDisplay_def eraseLine_def eraseChars_def Let_def
  using assms by - (rule of_buf_ok, assumption, simp add: fill_cells_ok)+

lemma setRegion_ok: "term_ok t \<Longrightarrow> term_ok (setRegion ps t)"
proof -
  assume t: "term_ok t"
  obtain a z where a: "a = arg ps 0 1 - 1" and z: "z = (if arg ps 1 (t_rows t) - 1 \<ge> t_rows t then t_rows t - 1 else arg ps 1 (t_rows t) - 1)" by blast
  have "term_ok (of_buf (\<lambda>b. b\<lparr>regTop := a, regBottom := z\<rparr>) t)" if "0 \<le> a" "a < z"
    using t that buf_ok_buf [OF t] unfolding of_buf_def by (intro with_buf_ok) (auto simp: buf_ok_def z)
  then show ?thesis unfolding setRegion_def Let_def a [symmetric] z [symmetric] by (simp add: t moveTo_ok)
qed

lemma setAlternate_ok: "term_ok t \<Longrightarrow> term_ok (setAlternate on wc t)"
proof -
  assume t: "term_ok t"
  have "term_ok (u\<lparr>alternate := (newBuffer (t_cols u) (t_rows u))\<lparr>pen := p\<rparr>, onAlt := True\<rparr>)" if "term_ok u" for u p
    using that by (auto simp: term_ok_def limits_ok_def intro!: newBuffer_ok dest: buf_okD(1,2))
  moreover have "term_ok (of_buf (setCursor 0 0) u)" if "term_ok u" for u
    using that by (intro of_buf_ok setCursor_ok)
  ultimately show ?thesis using t by (simp add: setAlternate_def Let_def save_ok restore_ok)
qed

lemma setMode_ok: "term_ok t \<Longrightarrow> term_ok (setMode pr ps on t)"
proof -
  have "term_ok (set_one_mode pr on p t)" if "term_ok t" for p t
    using that by (simp add: set_one_mode_def Let_def moveTo_ok save_ok restore_ok setAlternate_ok setMouse_def setMouseEncoding_def)
  then have "term_ok (fold (set_one_mode pr on) ps t)" if "term_ok t"
    using that by (induction ps arbitrary: t) simp_all
  then show "term_ok t \<Longrightarrow> ?thesis" by (simp add: setMode_def)
qed

lemma sgr_ok: "term_ok t \<Longrightarrow> term_ok (sgr ps t)"
  by (simp add: sgr_def of_buf_ok)

lemma pushParam_ok: "term_ok t \<Longrightarrow> term_ok (pushParam c t)"
  by (auto simp: pushParam_def term_ok_def limits_ok_def Let_def MaxParam_def)

lemma dispatch_ok:
  assumes t: "term_ok t" shows "ok (dispatch pr im ps final t) term_ok"
proof -
  have c: "term_ok (of_buf (\<lambda>b. setCursor (x b) (y b) b) t)" for x y
    using t by (intro of_buf_ok setCursor_ok)
  have il: "ok (on_buf (\<lambda>b. if curY b \<ge> regTop b \<and> curY b \<le> regBottom b then scrollRegionDown (curY b) (regBottom b) n b else Some b) t) term_ok"
    and dl: "ok (on_buf (\<lambda>b. if curY b \<ge> regTop b \<and> curY b \<le> regBottom b then scrollRegionUp (curY b) (regBottom b) n b else Some b) t) term_ok" for n
    using t by (auto intro!: on_buf_ok scroll_ok dest: buf_okD(8))
  have cut: "ok (on_buf (deleteChars n) t) term_ok" "ok (on_buf (insertBlanks n) t) term_ok" "ok (on_buf (scrollUp n) t) term_ok"
    "ok (on_buf (scrollDown n) t) term_ok" for n
    using t by (auto intro!: on_buf_ok buf_ok)
  show ?thesis unfolding dispatch_def Let_def
    by (intro ok_if ok_SomeI il dl cut c moveTo_ok tab_ok backTab_ok erase_ok setMode_ok sgr_ok setRegion_ok save_ok restore_ok t)
      (simp add: t softReset_ok)
qed

section \<open>Bytes\<close>

lemma csi_ok:
  assumes t: "term_ok t" shows "ok (csi b t) term_ok"
proof -
  obtain q where q: "q = (if param t \<le> MaxParam then param t * 10 + uint (b - 0x30) else param t)" by blast
  have "0 \<le> q" using t by (simp add: q term_ok_def limits_ok_def)
  then have digit: "term_ok (t\<lparr>param := if q > MaxParam then MaxParam else q\<rparr>)"
    using t by (simp add: term_ok_def limits_ok_def MaxParam_def)
  have last: "ok (do { let t = pushParam False t; t \<leftarrow> dispatch (priv t) (inter t) (params t) b t; Some (parser_reset t) }) term_ok"
    unfolding Let_def
    by (rule ok_bind, rule ok_mono [OF dispatch_ok [OF pushParam_ok [OF t]]]) (simp add: parser_reset_ok)
  have i: "term_ok (t\<lparr>inter := inter t @ [b]\<rparr>)" if "length (inter t) < 2"
    using t that by (simp add: term_ok_def limits_ok_def)
  show ?thesis unfolding csi_def q [symmetric]
    by (intro ok_if last control_ok t) (simp_all add: Let_def digit pushParam_ok t i del: if_split)
qed

lemma escape_ok: "term_ok t \<Longrightarrow> ok (escape b t) term_ok"
  unfolding escape_def Let_def
  by (intro ok_if ok_SomeI on_buf_ok lineFeed_ok reverseIndex_ok save_ok restore_ok softReset_ok)
    (simp_all add: buf_ok_curX buf_okD(1) order.strict_trans2 [OF zero_less_two] del: buf_ok_ignores)

lemma endString_ok: "term_ok t \<Longrightarrow> term_ok (endString t)"
proof -
  assume t: "term_ok t"
  have "term_ok (u\<lparr>title := take 256 r\<rparr>)" if "term_ok u" for u r
    using that by (simp add: term_ok_def limits_ok_def)
  then show ?thesis using parser_reset_ok [OF t] by (auto simp: endString_def Let_def split: option.split)
qed

lemma stringByte_ok: "term_ok t \<Longrightarrow> ok (stringByte b t) term_ok"
proof -
  assume t: "term_ok t"
  have "term_ok (t\<lparr>payload := payload t @ [b]\<rparr>)" if "length (payload t) < MaxString"
    using t that by (simp add: term_ok_def limits_ok_def)
  then show ?thesis using t unfolding stringByte_def Let_def
    by (intro ok_if escape_ok) (simp_all add: endString_ok parser_reset_ok)
qed

lemma step_ok: "term_ok t \<Longrightarrow> ok (step_byte b t) term_ok"
  by (simp add: step_byte_def parser_reset_ok ground_ok escape_ok csi_ok stringByte_ok split: parse_state.split)

lemma Terminal_Write_ok: "term_ok t \<Longrightarrow> ok (Terminal_Write p t) term_ok"
  unfolding Terminal_Write_def
  by (rule ok_mfold [where I = "\<lambda>_ t. term_ok t"]) (simp_all add: step_ok)

lemma Terminal_New_ok: "2 \<le> c \<Longrightarrow> term_ok (Terminal_New c l)"
  by (auto simp: Terminal_New_def Let_def term_ok_def limits_ok_def clamp_def MaxCols_def MaxRows_def MaxParam_def
      intro!: newBuffer_ok)

lemma Terminal_Resize_ok:
  assumes "term_ok t" and "2 \<le> c" shows "ok (Terminal_Resize c l t) term_ok"
proof -
  obtain c' l' where s: "c' = clamp c 1 MaxCols" "l' = clamp l 1 MaxRows" by blast
  then have b: "2 \<le> c'" "1 \<le> l'" "c' \<le> MaxCols" "l' \<le> MaxRows" using assms(2) by (simp_all add: clamp_def MaxCols_def MaxRows_def)
  have p: "ok (resize c' l' (primary t)) (buf_ok c' l')" "ok (resize c' l' (alternate t)) (buf_ok c' l')"
    using assms(1) b by (auto simp: term_ok_def intro: resize_ok)
  show ?thesis unfolding Terminal_Resize_def Let_def s [symmetric]
  proof (intro ok_if)
    show "ok (do { p \<leftarrow> resize c' l' (primary t); a \<leftarrow> resize c' l' (alternate t);
        Some (t\<lparr>t_cols := c', t_rows := l', primary := p, alternate := a\<rparr>) }) term_ok"
      by (rule ok_bind, rule ok_mono [OF p(1)], rule ok_bind, rule ok_mono [OF p(2)])
        (use assms(1) b in \<open>simp add: term_ok_def limits_ok_def\<close>)
  qed (simp add: assms(1))
qed

lemma Terminal_Reset_ok: "term_ok t \<Longrightarrow> term_ok (Terminal_Reset t)"
  by (simp add: Terminal_Reset_def softReset_ok)

text \<open>Taking a picture.\<close>

lemma Screen_Text_ok:
  assumes "term_ok t" shows "Screen_Text (Terminal_Screen t) \<noteq> None"
proof -
  note d = buf_okD [OF buf_ok_buf [OF assms]]
  let ?s = "Terminal_Screen t"
  have c: "Screen_At x y ?s \<noteq> None" for x y
    using d cell_inside [of x "t_cols t" y "t_rows t"] by (auto simp: Screen_At_def Terminal_Screen_def get_at_def)
  have r: "row_runes n x y ?s \<noteq> None" for n x y
  proof (induction n arbitrary: x)
    case (Suc n)
    show ?case using Suc.IH [of "x + 1"] c [of x y] by auto
  qed simp
  have w: "Screen_Row y ?s \<noteq> None" for y
    using r [of "nat (Cols ?s)" 0 y] by (auto simp: Screen_Row_def)
  have "rows_from n y ?s \<noteq> None" for n y
  proof (induction n arbitrary: y)
    case (Suc n)
    show ?case using Suc.IH [of "y + 1"] w [of y] by auto
  qed simp
  from this [of "nat (Rows ?s)" 0] show ?thesis by (auto simp: Screen_Text_def)
qed

section \<open>What a driver does with a terminal\<close>

datatype vt_op = Feed "byte list" | Size int int | Restart

fun vt_apply :: "vt_op \<Rightarrow> terminal \<Rightarrow> terminal option" where
  "vt_apply (Feed p) t = Terminal_Write p t"
| "vt_apply (Size c l) t = Terminal_Resize c l t"
| "vt_apply Restart t = Some (Terminal_Reset t)"

fun wide_enough :: "vt_op \<Rightarrow> bool" where
  "wide_enough (Size c l) \<longleftrightarrow> 2 \<le> c"
| "wide_enough (Feed p) \<longleftrightarrow> True"
| "wide_enough Restart \<longleftrightarrow> True"

text \<open>C24. A terminal of two columns or more survives whatever bytes it is fed, split and interleaved with
  resizes and resets in any way: no index leaves a slice, the cursor and the scrolling region stay on the
  screen, parameters, strings and titles stay within their limits, and a picture can be taken.\<close>

theorem Terminal_survives:
  assumes "2 \<le> c" and "\<forall>a \<in> set ops. wide_enough a"
  shows "\<exists>t. mfold vt_apply ops (Terminal_New c l) = Some t \<and> term_ok t \<and> Screen_Text (Terminal_Screen t) \<noteq> None"
proof -
  have "ok (vt_apply a t) term_ok" if "a \<in> set ops" "term_ok t" for a t
    using assms(2) that by (cases a) (auto simp: Terminal_Write_ok Terminal_Resize_ok Terminal_Reset_ok)
  then have "ok (mfold vt_apply ops (Terminal_New c l)) term_ok"
    by (intro ok_mfold [where I = "\<lambda>_ t. term_ok t"]) (simp_all add: Terminal_New_ok assms(1))
  then show ?thesis by (rule okE) (use Screen_Text_ok in blast)
qed

theorem Terminal_survives_witness:
  "\<exists>t. mfold vt_apply [Feed [0x1B, 0x5B, 0x40], Size 3 1, Restart, Feed [0xE4, 0xB8, 0x96]] (Terminal_New 2 2) = Some t \<and>
     term_ok t \<and> Screen_Text (Terminal_Screen t) \<noteq> None"
  by (rule Terminal_survives) simp_all

text \<open>One column is not enough. With autowrap off a wide character leaves the cursor at column
  \<open>-1\<close>, where \<open>put\<close> returns without putting it back, and the next insertion of a blank slices the row
  from there: a target can take the fuzzer down with eleven bytes.\<close>

lemma narrow_terminal_panics:
  "Terminal_Write [0x1B, 0x5B, 0x3F, 0x37, 0x6C, 0xE4, 0xB8, 0x96, 0x1B, 0x5B, 0x40] (Terminal_New 1 1) = None \<and>
   map_option (\<lambda>t. curX (buf t)) (Terminal_Write [0x1B, 0x5B, 0x3F, 0x37, 0x6C, 0xE4, 0xB8, 0x96] (Terminal_New 1 1)) = Some (- 1)"
  by (rule conjI; code_simp)

end
