(* ===== verification/VT_Fresh.thy ===== *)
theory VT_Fresh
  imports VT_Safe
begin

text \<open>
  A terminal that was reset is a new one. What a reset leaves behind (the pending escape and the kind of a
  string, which mean nothing outside a string, and the counters) is shown not to reach the screen:
  two terminals that differ only there go on differing only there.
\<close>

section \<open>Leftovers\<close>

text \<open>\<open>t\<close> with another pending escape and string kind, and counters ahead by \<open>n\<close> and \<open>w\<close>.\<close>

definition leftover :: "bool \<Rightarrow> byte \<Rightarrow> u64 \<Rightarrow> u64 \<Rightarrow> terminal \<Rightarrow> terminal" where
  "leftover e k n w t = t\<lparr>strEsc := e, strCmd := k, bell := bell t + n, written := written t + w\<rparr>"

lemma leftover_simps [simp]:
  "t_cols (leftover e k n w t) = t_cols t" "t_rows (leftover e k n w t) = t_rows t"
  "buf (leftover e k n w t) = buf t" "onAlt (leftover e k n w t) = onAlt t"
  "pstate (leftover e k n w t) = pstate t" "params (leftover e k n w t) = params t"
  "colons (leftover e k n w t) = colons t" "param (leftover e k n w t) = param t"
  "hasNum (leftover e k n w t) = hasNum t" "priv (leftover e k n w t) = priv t"
  "inter (leftover e k n w t) = inter t" "payload (leftover e k n w t) = payload t"
  "strEsc (leftover e k n w t) = e" "strCmd (leftover e k n w t) = k"
  "u8 (leftover e k n w t) = u8 t" "title (leftover e k n w t) = title t"
  "autowrap (leftover e k n w t) = autowrap t" "insertMode (leftover e k n w t) = insertMode t"
  "originMode (leftover e k n w t) = originMode t" "mouseMode (leftover e k n w t) = mouseMode t"
  "mouseEnc (leftover e k n w t) = mouseEnc t"
  by (simp_all add: leftover_def buf_def)

lemma leftover_updates:
  "(leftover e k n w t)\<lparr>u8 := bs\<rparr> = leftover e k n w (t\<lparr>u8 := bs\<rparr>)"
  "(leftover e k n w t)\<lparr>pstate := s\<rparr> = leftover e k n w (t\<lparr>pstate := s\<rparr>)"
  "(leftover e k n w t)\<lparr>params := ps\<rparr> = leftover e k n w (t\<lparr>params := ps\<rparr>)"
  "(leftover e k n w t)\<lparr>colons := cs\<rparr> = leftover e k n w (t\<lparr>colons := cs\<rparr>)"
  "(leftover e k n w t)\<lparr>param := p\<rparr> = leftover e k n w (t\<lparr>param := p\<rparr>)"
  "(leftover e k n w t)\<lparr>hasNum := h\<rparr> = leftover e k n w (t\<lparr>hasNum := h\<rparr>)"
  "(leftover e k n w t)\<lparr>priv := v\<rparr> = leftover e k n w (t\<lparr>priv := v\<rparr>)"
  "(leftover e k n w t)\<lparr>inter := im\<rparr> = leftover e k n w (t\<lparr>inter := im\<rparr>)"
  "(leftover e k n w t)\<lparr>payload := bs\<rparr> = leftover e k n w (t\<lparr>payload := bs\<rparr>)"
  "(leftover e k n w t)\<lparr>title := bs\<rparr> = leftover e k n w (t\<lparr>title := bs\<rparr>)"
  "(leftover e k n w t)\<lparr>cursorVisible := h\<rparr> = leftover e k n w (t\<lparr>cursorVisible := h\<rparr>)"
  "(leftover e k n w t)\<lparr>autowrap := h\<rparr> = leftover e k n w (t\<lparr>autowrap := h\<rparr>)"
  "(leftover e k n w t)\<lparr>insertMode := h\<rparr> = leftover e k n w (t\<lparr>insertMode := h\<rparr>)"
  "(leftover e k n w t)\<lparr>originMode := h\<rparr> = leftover e k n w (t\<lparr>originMode := h\<rparr>)"
  "(leftover e k n w t)\<lparr>mouseMode := m\<rparr> = leftover e k n w (t\<lparr>mouseMode := m\<rparr>)"
  "(leftover e k n w t)\<lparr>mouseEnc := me\<rparr> = leftover e k n w (t\<lparr>mouseEnc := me\<rparr>)"
  "(leftover e k n w t)\<lparr>appCursor := h\<rparr> = leftover e k n w (t\<lparr>appCursor := h\<rparr>)"
  "(leftover e k n w t)\<lparr>onAlt := h\<rparr> = leftover e k n w (t\<lparr>onAlt := h\<rparr>)"
  "(leftover e k n w t)\<lparr>alternate := b\<rparr> = leftover e k n w (t\<lparr>alternate := b\<rparr>)"
  "(leftover e k n w t)\<lparr>bell := bell (leftover e k n w t) + 1\<rparr> = leftover e k n w (t\<lparr>bell := bell t + 1\<rparr>)"
  by (simp_all add: leftover_def)

named_theorems commutes \<open>operations that do not look at what is left over\<close>

lemma leftover_buf [commutes]:
  "with_buf b (leftover e k n w t) = leftover e k n w (with_buf b t)"
  "of_buf f (leftover e k n w t) = leftover e k n w (of_buf f t)"
  "on_buf g (leftover e k n w t) = map_option (leftover e k n w) (on_buf g t)"
proof -
  show *: "with_buf b (leftover e k n w t) = leftover e k n w (with_buf b t)" for b
    by (simp add: with_buf_def leftover_def)
  show "of_buf f (leftover e k n w t) = leftover e k n w (of_buf f t)" by (simp add: of_buf_def *)
  show "on_buf g (leftover e k n w t) = map_option (leftover e k n w) (on_buf g t)"
    by (cases "g (buf t)") (simp_all add: on_buf_def *)
qed

lemma leftover_methods [commutes]:
  "save (leftover e k n w t) = leftover e k n w (save t)"
  "restore (leftover e k n w t) = leftover e k n w (restore t)"
  "tab m (leftover e k n w t) = leftover e k n w (tab m t)"
  "backTab m (leftover e k n w t) = leftover e k n w (backTab m t)"
  "moveTo x y (leftover e k n w t) = leftover e k n w (moveTo x y t)"
  "eraseDisplay d (leftover e k n w t) = leftover e k n w (eraseDisplay d t)"
  "eraseLine d (leftover e k n w t) = leftover e k n w (eraseLine d t)"
  "eraseChars d (leftover e k n w t) = leftover e k n w (eraseChars d t)"
  "sgr ps (leftover e k n w t) = leftover e k n w (sgr ps t)"
  by (simp_all add: save_def restore_def tab_def backTab_def moveTo_def eraseDisplay_def eraseLine_def eraseChars_def
      sgr_def leftover_buf)

lemma leftover_region [commutes]: "setRegion ps (leftover e k n w t) = leftover e k n w (setRegion ps t)"
  by (simp add: setRegion_def Let_def commutes)

lemma leftover_alternate [commutes]: "setAlternate on wc (leftover e k n w t) = leftover e k n w (setAlternate on wc t)"
  by (simp add: setAlternate_def Let_def commutes leftover_updates)

text \<open>The branches of a chain of tests, one at a time.\<close>

lemma map_if:
  "(b \<Longrightarrow> x = map_option f u) \<Longrightarrow> (\<not> b \<Longrightarrow> y = map_option f v) \<Longrightarrow>
   (if b then x else y) = map_option f (if b then u else v)"
  by simp

lemma apply_if:
  "(b \<Longrightarrow> x = f u) \<Longrightarrow> (\<not> b \<Longrightarrow> y = f v) \<Longrightarrow> (if b then x else y) = f (if b then u else v)"
  by simp

lemma leftover_mouse [commutes]:
  "setMouse p on (leftover e k n w t) = leftover e k n w (setMouse p on t)"
  "setMouseEncoding p on (leftover e k n w t) = leftover e k n w (setMouseEncoding p on t)"
  by (simp_all add: setMouse_def setMouseEncoding_def Let_def leftover_updates)

lemma leftover_one_mode:
  "set_one_mode pr on p (leftover e k n w t) = leftover e k n w (set_one_mode pr on p t)"
  unfolding set_one_mode_def by (intro apply_if) (simp_all add: commutes leftover_updates)

lemma leftover_mode [commutes]: "setMode pr ps on (leftover e k n w t) = leftover e k n w (setMode pr ps on t)"
proof -
  have "fold (set_one_mode pr on) ps (leftover e k n w t) = leftover e k n w (fold (set_one_mode pr on) ps t)"
    by (induction ps arbitrary: t) (simp_all add: leftover_one_mode)
  then show ?thesis by (simp add: setMode_def)
qed

lemma leftover_softReset [commutes]: "softReset (leftover e k n w t) = leftover e k n w (softReset t)"
  by (simp add: softReset_def leftover_def)

lemma leftover_pushParam [commutes]: "pushParam c (leftover e k n w t) = leftover e k n w (pushParam c t)"
  by (simp add: pushParam_def Let_def leftover_updates)

lemma leftover_dispatch [commutes]:
  "dispatch pr im ps f (leftover e k n w t) = map_option (leftover e k n w) (dispatch pr im ps f t)"
  unfolding dispatch_def Let_def by (intro map_if) (simp_all add: commutes)

lemma leftover_control [commutes]:
  "control b (leftover e k n w t) = map_option (leftover e k n w) (control b t)"
  unfolding control_def by (intro map_if) (simp_all only: commutes leftover_updates option.map)

lemma leftover_emit [commutes]: "emit r (leftover e k n w t) = map_option (leftover e k n w) (emit r t)"
proof -
  have first: "(if insertMode t \<and> RuneWidth r > 0 then on_buf (insertBlanks (RuneWidth r)) (leftover e k n w t) else Some (leftover e k n w t)) =
      map_option (leftover e k n w) (if insertMode t \<and> RuneWidth r > 0 then on_buf (insertBlanks (RuneWidth r)) t else Some t)"
    by (simp add: commutes)
  show ?thesis unfolding emit_def leftover_simps first
    by (cases "if insertMode t \<and> RuneWidth r > 0 then on_buf (insertBlanks (RuneWidth r)) t else Some t")
      (simp_all only: option.map Option.bind.simps commutes leftover_simps)
qed

lemma leftover_collect [commutes]: "collect b (leftover e k n w t) = map_option (leftover e k n w) (collect b t)"
  by (simp add: collect_def Let_def leftover_updates commutes)

lemma leftover_ground [commutes]: "ground b (leftover e k n w t) = map_option (leftover e k n w) (ground b t)"
proof (cases "emit RuneError t")
  case None
  then show ?thesis by (simp add: ground_def Let_def leftover_updates commutes)
next
  case (Some u)
  then show ?thesis by (simp add: ground_def Let_def leftover_updates commutes)
qed

lemma leftover_parser_reset: "parser_reset (leftover e k n w t) = leftover False k n w (parser_reset t)"
  by (simp add: parser_reset_def leftover_def)

section \<open>The parser\<close>

text \<open>Two terminals that differ in leftovers only: where a leftover will be read they agree on it.\<close>

definition same_but :: "u64 \<Rightarrow> u64 \<Rightarrow> terminal \<Rightarrow> terminal \<Rightarrow> bool" where
  "same_but n w t u \<longleftrightarrow>
     (\<exists>e k. u = leftover e k n w t \<and> (pstate t \<in> {stEscape, stOSC, stString} \<longrightarrow> e = strEsc t) \<and>
            (pstate t \<in> {stOSC, stString} \<longrightarrow> k = strCmd t))"

lemma same_butI:
  assumes "u = leftover e k n w t" and "pstate t \<in> {stEscape, stOSC, stString} \<Longrightarrow> e = strEsc t"
    and "pstate t \<in> {stOSC, stString} \<Longrightarrow> k = strCmd t"
  shows "same_but n w t u"
  using assms unfolding same_but_def by blast

lemma same_but_map:
  assumes "\<And>t. m = Some t \<Longrightarrow> pstate t = stGround \<or> pstate t = stCSI \<or> pstate t = stCharset"
  shows "rel_option (same_but n w) m (map_option (leftover e k n w) m)"
  using assms by (cases m) (auto intro!: same_butI)

lemma parser_reset_simps [simp]: "pstate (parser_reset t) = stGround" "strEsc (parser_reset t) = False"
  by (simp_all add: parser_reset_def)

lemma same_but_reset: "pstate t = stGround \<Longrightarrow> same_but n w t (leftover e k n w t)"
  by (rule same_butI [of _ e k]) simp_all

named_theorems keeps \<open>operations that leave the parser's state alone\<close>

lemma with_buf_keeps [simp]: "pstate (with_buf b t) = pstate t" "strEsc (with_buf b t) = strEsc t"
  by (simp_all add: with_buf_def)

lemma of_buf_keeps [simp]: "pstate (of_buf f t) = pstate t" "strEsc (of_buf f t) = strEsc t"
  by (simp_all add: of_buf_def)

lemma on_buf_keeps [keeps]: "on_buf g t = Some u \<Longrightarrow> pstate u = pstate t \<and> strEsc u = strEsc t"
  by (cases "g (buf t)") (auto simp: on_buf_def)

lemma methods_keep [simp]:
  "pstate (tab m t) = pstate t" "pstate (save t) = pstate t" "pstate (restore t) = pstate t"
  "strEsc (save t) = strEsc t" "strEsc (restore t) = strEsc t"
  "pstate (pushParam c t) = pstate t"
  by (simp_all add: tab_def save_def restore_def pushParam_def Let_def)

lemma control_keeps [keeps]: "control b t = Some u \<Longrightarrow> pstate u = pstate t"
  by (auto simp: control_def split: if_splits dest: keeps)

lemma emit_keeps [keeps]: "emit r t = Some u \<Longrightarrow> pstate u = pstate t"
  by (auto simp: emit_def bind_eq_Some_conv split: if_splits dest!: keeps)

lemma collect_keeps [keeps]: "collect b t = Some u \<Longrightarrow> pstate u = pstate t"
  by (auto simp: collect_def Let_def split: if_splits dest!: keeps)

lemma ground_keeps [keeps]: "ground b t = Some u \<Longrightarrow> pstate u = pstate t"
  by (auto simp: ground_def Let_def bind_eq_Some_conv split: if_splits dest!: keeps)

lemma escape_same:
  assumes "e = strEsc t"
  shows "rel_option (same_but n w) (escape b t) (escape b (leftover e k n w t))"
proof -
  let ?g = "t\<lparr>pstate := stGround\<rparr>"
  have g: "(leftover e k n w t)\<lparr>pstate := s\<rparr> = leftover e k n w (t\<lparr>pstate := s\<rparr>)" for s by (simp add: leftover_updates)
  have str: "same_but n w (t\<lparr>pstate := s, strCmd := b\<rparr>) ((leftover e k n w t)\<lparr>pstate := s, strCmd := b\<rparr>)" for s
    by (rule same_butI [of _ e b]) (simp_all add: leftover_def assms)
  have plain: "same_but n w (t\<lparr>pstate := s\<rparr>) ((leftover e k n w t)\<lparr>pstate := s\<rparr>)" if "s = stCSI \<or> s = stCharset \<or> s = stGround" for s
    by (rule same_butI [of _ e k]) (use that in \<open>auto simp: leftover_updates\<close>)
  have op: "rel_option (same_but n w) (on_buf f ?g) (on_buf f (leftover e k n w ?g))" for f
    unfolding commutes by (rule same_but_map) (auto dest: keeps)
  have tot: "same_but n w u (leftover e k n w u)" if "pstate u = stGround" for u
    by (rule same_butI [of _ e k]) (use that in auto)
  have "rel_option (same_but n w) (Some (f ?g)) (Some (f (leftover e k n w ?g)))"
    if "f (leftover e k n w ?g) = leftover e k n w (f ?g)" "pstate (f ?g) = stGround" for f
    using that tot by simp
  note one = this [of save] this [of restore] this [of softReset]
  have one: "rel_option (same_but n w) (Some (save ?g)) (Some (save (leftover e k n w ?g)))"
    "rel_option (same_but n w) (Some (restore ?g)) (Some (restore (leftover e k n w ?g)))"
    "rel_option (same_but n w) (Some (softReset ?g)) (Some (softReset (leftover e k n w ?g)))"
    by (rule one, rule commutes, simp add: softReset_def)+
  consider "b \<in> {0x5B, 0x28, 0x29, 0x2A, 0x2B}" | "b \<in> {0x5D, 0x50, 0x58, 0x5E, 0x5F}" | "b \<in> {0x44, 0x45, 0x4D}" | "b \<in> {0x37, 0x38, 0x63}"
    | "b \<notin> {0x5B, 0x28, 0x29, 0x2A, 0x2B, 0x5D, 0x50, 0x58, 0x5E, 0x5F, 0x44, 0x45, 0x4D, 0x37, 0x38, 0x63}" by blast
  then show ?thesis
  proof cases
    case 1
    then show ?thesis using plain [of stCSI] plain [of stCharset] by (auto simp: escape_def)
  next
    case 2
    then show ?thesis using str [of stOSC] str [of stString] by (auto simp: escape_def)
  next
    case 3
    then show ?thesis using op by (auto simp: escape_def Let_def g)
  next
    case 4
    then show ?thesis using one by (auto simp: escape_def Let_def g)
  next
    case 5
    then show ?thesis using plain [of stGround] by (simp add: escape_def Let_def)
  qed
qed

lemma csi_same:
  assumes "pstate t = stCSI"
  shows "rel_option (same_but n w) (csi b t) (csi b (leftover e k n w t))"
proof -
  have tot: "same_but n w u (leftover e k n w u)" if "pstate u = stCSI" for u
    by (rule same_butI [of _ e k]) (use that in auto)
  consider "b \<ge> 0x30 \<and> b \<le> 0x39" | "b = 0x3B \<or> b = 0x3A" | "b \<ge> 0x3C \<and> b \<le> 0x3F" | "b \<ge> 0x20 \<and> b \<le> 0x2F" | "b < 0x20"
    | "\<not> (b \<ge> 0x30 \<and> b \<le> 0x39)" "\<not> (b = 0x3B \<or> b = 0x3A)" "\<not> (b \<ge> 0x3C \<and> b \<le> 0x3F)" "\<not> (b \<ge> 0x20 \<and> b \<le> 0x2F)" "\<not> b < 0x20"
    by blast
  then show ?thesis
  proof cases
    case 1
    then show ?thesis using assms by (simp add: csi_def Let_def leftover_updates tot)
  next
    case 2
    then show ?thesis using assms by (auto simp: csi_def commutes intro!: tot)
  next
    case 3
    then have "\<not> b \<le> 0x39" "\<not> (b = 0x3B \<or> b = 0x3A)" by (auto simp: word_le_nat_alt)
    then show ?thesis using assms 3 by (simp add: csi_def leftover_updates tot)
  next
    case 4
    then have "\<not> b \<ge> 0x30" "\<not> (b = 0x3B \<or> b = 0x3A)" "\<not> b \<ge> 0x3C" by (auto simp: word_le_nat_alt)
    then show ?thesis using assms 4 by (simp add: csi_def leftover_updates tot)
  next
    case 5
    then have "\<not> b \<ge> 0x30" "\<not> (b = 0x3B \<or> b = 0x3A)" "\<not> b \<ge> 0x3C" "\<not> b \<ge> 0x20" by (auto simp: word_le_nat_alt word_less_nat_alt)
    moreover have "rel_option (same_but n w) (control b t) (control b (leftover e k n w t))"
      unfolding commutes by (rule same_but_map) (use assms in \<open>auto dest: keeps\<close>)
    ultimately show ?thesis using 5 by (simp add: csi_def)
  next
    case 6
    have "rel_option (same_but n w) (map_option parser_reset m) (map_option parser_reset (map_option (leftover e k n w) m))" for m
      by (cases m) (simp_all add: leftover_parser_reset same_but_reset)
    moreover have "do { t \<leftarrow> m; Some (parser_reset t) } = map_option parser_reset m" for m by (cases m) simp_all
    ultimately show ?thesis unfolding csi_def if_not_P [OF 6(1)] if_not_P [OF 6(2)] if_not_P [OF 6(3)] if_not_P [OF 6(4)] if_not_P [OF 6(5)]
      by (simp add: Let_def commutes)
  qed
qed

lemma string_same:
  assumes "pstate t = stOSC \<or> pstate t = stString"
  shows "rel_option (same_but n w) (stringByte b t) (stringByte b (leftover (strEsc t) (strCmd t) n w t))"
proof -
  have r: "parser_reset ((leftover e k n w t)\<lparr>strEsc := False\<rparr>) = leftover False k n w (parser_reset (t\<lparr>strEsc := False\<rparr>))" for e k
    by (simp add: parser_reset_def leftover_def)
  have esc: "rel_option (same_but n w) (escape b ((parser_reset (t\<lparr>strEsc := False\<rparr>))\<lparr>pstate := stEscape\<rparr>))
      (escape b ((parser_reset ((leftover (strEsc t) (strCmd t) n w t)\<lparr>strEsc := False\<rparr>))\<lparr>pstate := stEscape\<rparr>))"
    unfolding r leftover_updates by (rule escape_same) (simp add: parser_reset_def)
  have fin: "same_but n w (endString u) (endString (leftover e (strCmd u) n w u))" for u e
    by (cases "cut_at 0x3B (payload u)")
      (auto simp: endString_def Let_def leftover_parser_reset leftover_updates intro!: same_but_reset)
  have fin': "same_but n w (endString (t\<lparr>strEsc := False\<rparr>)) (endString ((leftover (strEsc t) (strCmd t) n w t)\<lparr>strEsc := False\<rparr>))"
  proof -
    have "(leftover (strEsc t) (strCmd t) n w t)\<lparr>strEsc := False\<rparr> = leftover False (strCmd (t\<lparr>strEsc := False\<rparr>)) n w (t\<lparr>strEsc := False\<rparr>)"
      by (simp add: leftover_def)
    then show ?thesis by (simp only: fin)
  qed
  have "same_but n w t (leftover (strEsc t) (strCmd t) n w t)" "same_but n w (t\<lparr>payload := p\<rparr>) ((leftover (strEsc t) (strCmd t) n w t)\<lparr>payload := p\<rparr>)" for p
    by (auto intro!: same_butI simp: leftover_updates)
  then show ?thesis using esc fin [of t "strEsc t"] fin' by (cases "strEsc t") (simp_all add: stringByte_def Let_def)
qed

lemma step_same:
  assumes "same_but n w t u"
  shows "rel_option (same_but n w) (step_byte b t) (step_byte b u)"
proof -
  obtain e k where u: "u = leftover e k n w t" and e: "pstate t \<in> {stEscape, stOSC, stString} \<Longrightarrow> e = strEsc t"
    and k: "pstate t \<in> {stOSC, stString} \<Longrightarrow> k = strCmd t" using assms unfolding same_but_def by blast
  have reset: "same_but n w (parser_reset t) (parser_reset u)" "same_but n w ((parser_reset t)\<lparr>pstate := stEscape\<rparr>) ((parser_reset u)\<lparr>pstate := stEscape\<rparr>)"
    unfolding u by (auto intro!: same_butI [of _ False k] simp: leftover_parser_reset leftover_updates)
  have esc: "same_but n w (t\<lparr>strEsc := True\<rparr>) (u\<lparr>strEsc := True\<rparr>)"
    unfolding u by (rule same_butI [of _ True k]) (use k in \<open>auto simp: leftover_def\<close>)
  have p: "pstate u = pstate t" by (simp add: u)
  consider "(b = 0x18 \<or> b = 0x1A) \<and> pstate t \<noteq> stGround" | "b = 0x1B" | "\<not> ((b = 0x18 \<or> b = 0x1A) \<and> pstate t \<noteq> stGround)" "b \<noteq> 0x1B" by blast
  then show ?thesis
  proof cases
    case 1
    then show ?thesis by (auto simp: step_byte_def p reset)
  next
    case 2
    then show ?thesis by (simp add: step_byte_def p reset esc)
  next
    case 3
    have s: "step_byte b v = (case pstate t of stGround \<Rightarrow> ground b v | stEscape \<Rightarrow> escape b v | stCSI \<Rightarrow> csi b v | stOSC \<Rightarrow> stringByte b v
        | stString \<Rightarrow> stringByte b v | stCharset \<Rightarrow> Some (v\<lparr>pstate := stGround\<rparr>))" if "pstate v = pstate t" for v
      using 3 that unfolding step_byte_def by (simp only: if_False that)
    note s = s [OF refl] s [OF p]
    show ?thesis
    proof (cases "pstate t")
      case stGround
      then have "rel_option (same_but n w) (ground b t) (ground b u)"
        unfolding u commutes by (intro same_but_map) (auto dest: keeps)
      then show ?thesis by (simp add: s stGround)
    next
      case stCharset
      have "same_but n w (t\<lparr>pstate := stGround\<rparr>) (u\<lparr>pstate := stGround\<rparr>)"
        unfolding u by (rule same_butI [of _ e k]) (simp_all add: leftover_updates)
      then show ?thesis by (simp add: s stCharset)
    next
      case stEscape
      then show ?thesis unfolding s using escape_same [of e t n w b k] e by (simp add: u)
    next
      case stCSI
      then show ?thesis unfolding s using csi_same [of t n w b e k] by (simp add: u)
    next
      case stOSC
      then show ?thesis unfolding s using string_same [of t n w b] e k by (simp add: u)
    next
      case stString
      then show ?thesis unfolding s using string_same [of t n w b] e k by (simp add: u)
    qed
  qed
qed

lemma steps_same:
  assumes "same_but n w t u"
  shows "rel_option (same_but n w) (mfold step_byte p t) (mfold step_byte p u)"
  using assms
proof (induction p arbitrary: t u)
  case (Cons b p)
  have "rel_option (same_but n w) (step_byte b t) (step_byte b u)" by (rule step_same) (rule Cons.prems)
  then show ?case by (cases rule: option.rel_cases) (simp_all add: Cons.IH)
qed simp

section \<open>Starting over\<close>

text \<open>What can be seen of a terminal, now or later: everything but the leftovers of a string.\<close>

definition visible :: "terminal \<Rightarrow> terminal" where
  "visible t = t\<lparr>strEsc := False, strCmd := 0\<rparr>"

definition counted :: "u64 \<Rightarrow> u64 \<Rightarrow> terminal \<Rightarrow> terminal" where
  "counted n w t = t\<lparr>bell := bell t + n, written := written t + w\<rparr>"

lemma same_but_visible: "rel_option (same_but n w) m k \<Longrightarrow> map_option visible k = map_option (\<lambda>t. counted n w (visible t)) m"
  by (cases m; cases k) (auto simp: same_but_def visible_def leftover_def counted_def)

lemma softReset_leftover:
  assumes "1 \<le> t_cols t" "t_cols t \<le> MaxCols" "1 \<le> t_rows t" "t_rows t \<le> MaxRows"
  shows "softReset t = leftover (strEsc t) (strCmd t) (bell t) (written t) (Terminal_New (t_cols t) (t_rows t))"
  using assms by (simp add: softReset_def leftover_def Terminal_New_def Let_def clamp_def)

text \<open>C25. \<open>Reset\<close> makes a terminal a new one of its size: whatever state it was in, what any bytes then draw,
  and every mode and counter, is what they make of a terminal that was just created.\<close>

theorem Reset_is_New:
  assumes "1 \<le> t_cols t" "t_cols t \<le> MaxCols" "1 \<le> t_rows t" "t_rows t \<le> MaxRows"
  shows "map_option visible (Terminal_Write p (Terminal_Reset t)) =
    map_option visible (Terminal_Write p (Terminal_New (t_cols t) (t_rows t)))"
proof -
  let ?n = "(Terminal_New (t_cols t) (t_rows t))\<lparr>written := of_nat (length p)\<rparr>"
  have "(Terminal_Reset t)\<lparr>written := written (Terminal_Reset t) + of_nat (length p)\<rparr> = leftover (strEsc t) (strCmd t) 0 0 ?n"
    using softReset_leftover [OF assms] by (simp add: Terminal_Reset_def leftover_def Terminal_New_def Let_def)
  moreover have "(Terminal_New (t_cols t) (t_rows t))\<lparr>written := written (Terminal_New (t_cols t) (t_rows t)) + of_nat (length p)\<rparr> = ?n"
    by (simp add: Terminal_New_def Let_def)
  moreover have "same_but 0 0 ?n (leftover (strEsc t) (strCmd t) 0 0 ?n)"
    by (rule same_but_reset) (simp add: Terminal_New_def Let_def)
  ultimately have "rel_option (same_but 0 0) (Terminal_Write p (Terminal_New (t_cols t) (t_rows t))) (Terminal_Write p (Terminal_Reset t))"
    unfolding Terminal_Write_def by (metis steps_same)
  from same_but_visible [OF this] show ?thesis by (simp add: counted_def option.map_id0 [unfolded id_def] cong: map_option_cong)
qed

theorem Reset_is_New_witness:
  "map_option visible (Terminal_Write [0x41, 0x1B, 0x5D] (Terminal_Reset ((Terminal_New 3 2)\<lparr>pstate := stOSC, strEsc := True\<rparr>))) =
   map_option visible (Terminal_Write [0x41, 0x1B, 0x5D]
     (Terminal_New (t_cols ((Terminal_New 3 2)\<lparr>pstate := stOSC, strEsc := True\<rparr>)) (t_rows ((Terminal_New 3 2)\<lparr>pstate := stOSC, strEsc := True\<rparr>))))"
  by (rule Reset_is_New) (simp_all add: Terminal_New_def Let_def clamp_def MaxCols_def MaxRows_def)

text \<open>C26. The sequence \<open>ESC c\<close> reaches the terminal from wherever the stream before it stopped (inside a
  string, a control sequence, half a character): what is drawn after it is what a new terminal shows,
  and the counts of bells and bytes go on from where they were.\<close>

theorem RIS_resyncs:
  assumes "1 \<le> t_cols t" "t_cols t \<le> MaxCols" "1 \<le> t_rows t" "t_rows t \<le> MaxRows"
  shows "map_option visible (Terminal_Write ([0x1B, 0x63] @ p) t) =
    map_option (\<lambda>u. counted (bell t) (written t + 2) (visible u)) (Terminal_Write p (Terminal_New (t_cols t) (t_rows t)))"
proof -
  let ?N = "Terminal_New (t_cols t) (t_rows t)"
  let ?n = "?N\<lparr>written := written ?N + of_nat (length p)\<rparr>"
  let ?t = "t\<lparr>written := written t + of_nat (length ([0x1B, 0x63] @ p))\<rparr>"
  have two: "\<exists>v. step_byte 0x1B ?t \<bind> step_byte 0x63 = Some (softReset v) \<and> t_cols v = t_cols t \<and> t_rows v = t_rows t \<and>
      bell v = bell t \<and> written v = written ?t"
  proof (cases "pstate t = stOSC \<or> pstate t = stString")
    case True
    then show ?thesis by (auto simp: step_byte_def stringByte_def escape_def Let_def parser_reset_def intro!: exI)
  next
    case False
    then have "step_byte 0x1B ?t = Some ((parser_reset ?t)\<lparr>pstate := stEscape\<rparr>)" by (simp add: step_byte_def)
    then show ?thesis by (auto simp: step_byte_def escape_def Let_def parser_reset_def intro!: exI)
  qed
  then obtain v where v: "step_byte 0x1B ?t \<bind> step_byte 0x63 = Some (softReset v)" "t_cols v = t_cols t" "t_rows v = t_rows t"
      "bell v = bell t" "written v = written t + of_nat (length ([0x1B, 0x63] @ p))" by auto
  have "softReset v = leftover (strEsc v) (strCmd v) (bell t) (written t + 2) ?n"
    using softReset_leftover [of v] assms v by (simp add: leftover_def Terminal_New_def Let_def add_ac)
  moreover have "same_but (bell t) (written t + 2) ?n (leftover (strEsc v) (strCmd v) (bell t) (written t + 2) ?n)"
    by (rule same_but_reset) (simp add: Terminal_New_def Let_def)
  ultimately have "rel_option (same_but (bell t) (written t + 2)) (mfold step_byte p ?n) (mfold step_byte p (softReset v))"
    by (metis steps_same)
  moreover have "mfold step_byte ([0x1B, 0x63] @ p) ?t = mfold step_byte p (softReset v)"
    using v(1) by (cases "step_byte 0x1B ?t") simp_all
  ultimately have "rel_option (same_but (bell t) (written t + 2)) (Terminal_Write p ?N) (Terminal_Write ([0x1B, 0x63] @ p) t)"
    by (simp only: Terminal_Write_def)
  then show ?thesis by (rule same_but_visible)
qed

theorem RIS_resyncs_witness:
  "map_option visible (Terminal_Write ([0x1B, 0x63] @ [0x41]) ((Terminal_New 3 2)\<lparr>pstate := stOSC, bell := 7\<rparr>)) =
   map_option (\<lambda>u. counted (bell ((Terminal_New 3 2)\<lparr>pstate := stOSC, bell := 7\<rparr>))
       (written ((Terminal_New 3 2)\<lparr>pstate := stOSC, bell := 7\<rparr>) + 2) (visible u))
     (Terminal_Write [0x41] (Terminal_New (t_cols ((Terminal_New 3 2)\<lparr>pstate := stOSC, bell := 7\<rparr>)) (t_rows ((Terminal_New 3 2)\<lparr>pstate := stOSC, bell := 7\<rparr>))))"
  by (rule RIS_resyncs) (simp_all add: Terminal_New_def Let_def clamp_def MaxCols_def MaxRows_def)

end
