(* ===== verification/VT_Grid.thy ===== *)
theory VT_Grid
  imports VT_Safe
begin

text \<open>
  The grid as a list of rows. The code keeps the cells of a screen in one slice and scrolls, inserts
  and deletes by copying ranges of it; here each of those operations is shown to do to the rows
  what a terminal's manual says it does.
\<close>

section \<open>Rows laid end to end\<close>

definition rect :: "nat \<Rightarrow> 'a list list \<Rightarrow> bool" where
  "rect c R \<longleftrightarrow> (\<forall>r \<in> set R. length r = c)"

lemma rect_simps [simp]: "rect c []" "rect c (r # R) \<longleftrightarrow> length r = c \<and> rect c R" "rect c (R @ S) \<longleftrightarrow> rect c R \<and> rect c S"
  "rect c (replicate n (replicate c e))"
  by (auto simp: rect_def)

lemma rect_take [simp]: "rect c R \<Longrightarrow> rect c (take n R)" "rect c R \<Longrightarrow> rect c (drop n R)" "rect c R \<Longrightarrow> rect c (window a b R)"
  unfolding rect_def window_def by (meson in_set_takeD in_set_dropD)+

lemma rect_update [simp]: "rect c R \<Longrightarrow> length r = c \<Longrightarrow> rect c (R[y := r])"
  by (auto simp: rect_def dest: set_update_subset_insert [THEN subsetD])

lemma length_concat_rect [simp]: "rect c R \<Longrightarrow> length (concat R) = length R * c"
  by (induction R) auto

lemma take_concat_rect: "rect c R \<Longrightarrow> take (n * c) (concat R) = concat (take n R)"
proof (induction R arbitrary: n)
  case (Cons r R)
  then show ?case by (cases n) auto
qed simp

lemma drop_concat_rect: "rect c R \<Longrightarrow> drop (n * c) (concat R) = concat (drop n R)"
proof (induction R arbitrary: n)
  case (Cons r R)
  then show ?case by (cases n) auto
qed simp

lemma window_concat_rect: "rect c R \<Longrightarrow> window (a * c) (b * c) (concat R) = concat (window a b R)"
  unfolding window_def by (simp add: drop_concat_rect take_concat_rect flip: diff_mult_distrib)

lemma overwrite_concat_rect:
  assumes "rect c R" "rect c S" shows "overwrite (a * c) (concat S) (concat R) = concat (overwrite a S R)"
proof -
  have "a * c + length S * c = (a + length S) * c" by (simp add: algebra_simps)
  then show ?thesis using assms by (simp add: overwrite_def take_concat_rect drop_concat_rect)
qed

lemma replicate_concat_rect: "replicate (n * c) e = concat (replicate n (replicate c e))"
  by (induction n) (simp_all add: replicate_add)

lemma update_concat_rect:
  assumes "rect c R" "y < length R" "x < c"
  shows "(concat R)[y * c + x := e] = concat (R[y := (R ! y)[x := e]])"
  using assms
proof (induction R arbitrary: y)
  case (Cons r R)
  then show ?case by (cases y) (auto simp: list_update_append add.assoc)
qed simp

lemma nth_concat_rect: "rect c R \<Longrightarrow> y < length R \<Longrightarrow> x < c \<Longrightarrow> concat R ! (y * c + x) = R ! y ! x"
proof (induction R arbitrary: y)
  case (Cons r R)
  then show ?case by (cases y) (auto simp: nth_append add.assoc)
qed simp

text \<open>A buffer whose cells are these rows.\<close>

definition has_rows :: "buffer \<Rightarrow> cell list list \<Rightarrow> bool" where
  "has_rows b R \<longleftrightarrow> grid b = concat R \<and> rect (nat (cols b)) R \<and> int (length R) = lines b \<and> 0 \<le> cols b"

lemma has_rowsD:
  assumes "has_rows b R"
  shows "grid b = concat R" "rect (nat (cols b)) R" "lines b = int (length R)" "cols b = int (nat (cols b))"
  using assms by (simp_all add: has_rows_def)

text \<open>Every buffer in shape is made of rows.\<close>

lemma rows_exist: "length xs = n * c \<Longrightarrow> \<exists>R. xs = concat R \<and> rect c R \<and> length R = n"
proof (induction n arbitrary: xs)
  case (Suc n)
  then have "length (drop c xs) = n * c" "length (take c xs) = c" by simp_all
  with Suc.IH [of "drop c xs"] obtain R where "drop c xs = concat R" "rect c R" "length R = n" by blast
  then have "xs = concat (take c xs # R) \<and> rect c (take c xs # R) \<and> length (take c xs # R) = Suc n"
    using \<open>length (take c xs) = c\<close> by (metis append_take_drop_id concat.simps(2) length_Cons rect_simps(2))
  then show ?case by blast
qed simp

lemma buf_ok_rows: "buf_ok c l b \<Longrightarrow> \<exists>R. has_rows b R"
proof -
  assume b: "buf_ok c l b"
  then have "length (grid b) = nat l * nat c" using buf_okD [OF b] by (simp add: buf_ok_def nat_mult_distrib mult.commute)
  then obtain R where "grid b = concat R" "rect (nat c) R" "length R = nat l" using rows_exist by blast
  then show ?thesis using buf_okD [OF b] by (auto simp: has_rows_def)
qed

section \<open>Moving and filling whole rows\<close>

lemma move_rows:
  assumes "has_rows b R" and "0 \<le> a" "a \<le> z" "z \<le> lines b" "0 \<le> d" "d \<le> e" "e \<le> lines b" "e - d = z - a"
  shows "move_cells (a * cols b) (z * cols b) (d * cols b) (e * cols b) b =
    Some (b\<lparr>grid := concat (overwrite (nat a) (window (nat d) (nat e) R) R)\<rparr>)"
proof -
  note r = has_rowsD [OF assms(1)]
  obtain c where c: "cols b = int c" using r(4) by blast
  have n: "nat (i * int c) = nat i * c" if "0 \<le> i" for i using that by (simp add: nat_mult_distrib)
  have mono: "i * int c \<le> j * int c" if "i \<le> j" for i j using that by (simp add: mult_right_mono)
  have s: "slice_of (grid b) (i * cols b) (j * cols b) = Some (concat (window (nat i) (nat j) R))" if "0 \<le> i" "i \<le> j" "j \<le> lines b" for i j
    using that mono [of i j] mono [of j "int (length R)"] r by (simp add: slice_of_def n c window_concat_rect)
  have le: "length (window (nat d) (nat e) R) = length (window (nat a) (nat z) R)" using assms r(3) by simp
  have e: "length (concat (window i j R)) = length (window i j R) * c" for i j
    by (rule length_concat_rect) (use r(2) c in simp)
  have "take (length (concat (window (nat a) (nat z) R))) (concat (window (nat d) (nat e) R)) = concat (window (nat d) (nat e) R)"
    by (rule take_all) (simp only: e le order_refl)
  then show ?thesis
    unfolding move_cells_def s [OF assms(2,3,4)] s [OF assms(5,6,7)] using r(1,2) n [OF assms(2)]
    by (simp add: overwrite_concat_rect c)
qed

lemma fill_rows:
  assumes "has_rows b R" and "0 \<le> a" "a \<le> z" "z \<le> lines b"
  shows "fill_cells (a * cols b) (z * cols b) e b =
    b\<lparr>grid := concat (overwrite (nat a) (replicate (nat (z - a)) (replicate (nat (cols b)) e)) R)\<rparr>"
proof -
  note r = has_rowsD [OF assms(1)]
  obtain c where c: "cols b = int c" using r(4) by blast
  have len: "int (length (grid b)) = lines b * cols b" using r by (simp add: c mult.commute)
  have mono: "i * cols b \<le> j * cols b" if "i \<le> j" for i j using that by (simp add: c mult_right_mono)
  have n: "nat (a * cols b) = nat a * c" using assms by (simp add: c nat_mult_distrib)
  have w: "z * cols b - a * cols b = (z - a) * int c" by (simp add: c left_diff_distrib)
  then have w: "nat (z * cols b - a * cols b) = nat (z - a) * c" using assms by (simp add: nat_mult_distrib)
  have "fill_cells (a * cols b) (z * cols b) e b = b\<lparr>grid := overwrite (nat a * c) (replicate (nat (z - a) * c) e) (concat R)\<rparr>"
  proof (cases "a * cols b < z * cols b")
    case True
    then show ?thesis using assms(2) mono [of z "lines b"] assms(4) mono [of 0 a]
      by (simp add: fill_cells_def Let_def len w [unfolded n] n r(1) [symmetric] not_less)
  next
    case False
    obtain m where m: "m = nat (z - a) * c" by blast
    then have "m = 0" using False w by (metis diff_is_0_eq' linorder_not_less nat_0_iff diff_le_0_iff_le)
    then show ?thesis using False mono [of z "lines b"] assms(4) mono [of 0 a] assms(2)
      unfolding m [symmetric] by (simp add: fill_cells_def Let_def len r(1) [symmetric] not_less overwrite_def)
  qed
  then show ?thesis using r(2) by (simp add: replicate_concat_rect overwrite_concat_rect c)
qed

section \<open>Scrolling\<close>

text \<open>
  The rows from \<open>t\<close> to \<open>m\<close> moved up, or down, by \<open>n\<close>; rows leave at one end and erased rows come in at the
  other.
\<close>

definition rows_up :: "nat \<Rightarrow> nat \<Rightarrow> nat \<Rightarrow> 'a \<Rightarrow> 'a list \<Rightarrow> 'a list" where
  "rows_up t m n e R =
     (let k = min n (m + 1 - t) in take t R @ window (t + k) (m + 1) R @ replicate k e @ drop (m + 1) R)"

definition rows_down :: "nat \<Rightarrow> nat \<Rightarrow> nat \<Rightarrow> 'a \<Rightarrow> 'a list \<Rightarrow> 'a list" where
  "rows_down t m n e R =
     (let k = min n (m + 1 - t) in take t R @ replicate k e @ window t (m + 1 - k) R @ drop (m + 1) R)"

definition erased_row :: "buffer \<Rightarrow> cell list" where
  "erased_row b = replicate (nat (cols b)) (eraseCell b)"

lemma has_rows_grid: "has_rows b R \<Longrightarrow> rect (nat (cols b)) S \<Longrightarrow> length S = length R \<Longrightarrow> has_rows (b\<lparr>grid := concat S\<rparr>) S"
  by (simp add: has_rows_def)

lemma overwrite_after:
  "length W = j - t \<Longrightarrow> t \<le> j \<Longrightarrow> j \<le> length R \<Longrightarrow>
   overwrite j E (overwrite t W R) = take t R @ W @ E @ drop (j + length E) R"
  by (simp add: overwrite_def add.commute)

lemma overwrite_before:
  "t + length E = j \<Longrightarrow> j \<le> length R \<Longrightarrow>
   overwrite t E (overwrite j W R) = take t R @ E @ W @ drop (j + length W) R"
  by (auto simp: overwrite_def)

lemma grid_only [simp]: "eraseCell (b\<lparr>grid := g\<rparr>) = eraseCell b" "erased_row (b\<lparr>grid := g\<rparr>) = erased_row b"
  by (simp_all add: eraseCell_def erased_row_def)

lemma scroll_rows:
  assumes "has_rows b R" "0 \<le> t" "t \<le> m" "m < lines b" "0 < n"
  shows "scrollRegionUp t m n b = Some (b\<lparr>grid := concat (rows_up (nat t) (nat m) (nat n) (erased_row b) R)\<rparr>)" (is ?up)
    and "scrollRegionDown t m n b = Some (b\<lparr>grid := concat (rows_down (nat t) (nat m) (nat n) (erased_row b) R)\<rparr>)" (is ?down)
proof -
  note r = has_rowsD [OF assms(1)]
  obtain k where k: "k = (if n > m - t + 1 then m - t + 1 else n)" by blast
  then have kb: "0 < k" "k \<le> m - t + 1" using assms by (auto split: if_splits)
  obtain t' m' k' :: nat where n: "t = int t'" "m = int m'" "k = int k'"
    using assms(2,3) kb by (metis le_less nonneg_int_cases order_trans)
  have nb: "0 < k'" "t' + k' \<le> m' + 1" "m' < length R" "t' \<le> m'" using kb assms(3,4) r(3) unfolding n by linarith+
  have kk: "min (nat n) (m' + 1 - t') = k'" using assms(5) nb(4) k unfolding n by (simp split: if_splits)
  have nats: "nat (m + 1 - k) = m' + 1 - k'" "nat (t + k) = t' + k'" "nat (m + 1) = m' + 1" "nat k = k'" "nat t = t'" "nat m = m'"
    unfolding n by (simp_all add: nat_diff_distrib nat_add_distrib)
  let ?E = "replicate k' (erased_row b)"
  show ?up
  proof -
    let ?W = "window (t' + k') (m' + 1) R" let ?S = "overwrite t' ?W R"
    have S: "rect (nat (cols b)) ?S" "length ?S = length R" using r nb by (auto simp: overwrite_def)
    have "move_cells (t * cols b) ((m + 1 - k) * cols b) ((t + k) * cols b) ((m + 1) * cols b) b = Some (b\<lparr>grid := concat ?S\<rparr>)"
      using move_rows [OF assms(1), of t "m + 1 - k" "t + k" "m + 1"] kb assms unfolding nats by simp
    moreover have "fill_cells ((m + 1 - k) * cols b) ((m + 1) * cols b) (eraseCell b) (b\<lparr>grid := concat ?S\<rparr>) =
        b\<lparr>grid := concat (overwrite (m' + 1 - k') ?E ?S)\<rparr>"
      using fill_rows [OF has_rows_grid [OF assms(1) S], of "m + 1 - k" "m + 1" "eraseCell b"] kb assms
      by (simp add: erased_row_def nats)
    moreover have "overwrite (m' + 1 - k') ?E ?S = rows_up t' m' (nat n) (erased_row b) R"
      using nb by (subst overwrite_after) (simp_all add: rows_up_def Let_def kk [simplified])
    ultimately show ?thesis using assms unfolding scrollRegionUp_def Let_def k [symmetric] nats by simp
  qed
  show ?down
  proof -
    let ?W = "window t' (m' + 1 - k') R" let ?S = "overwrite (t' + k') ?W R"
    have S: "rect (nat (cols b)) ?S" "length ?S = length R" using r nb by (auto simp: overwrite_def)
    have "move_cells ((t + k) * cols b) ((m + 1) * cols b) (t * cols b) ((m + 1 - k) * cols b) b = Some (b\<lparr>grid := concat ?S\<rparr>)"
      using move_rows [OF assms(1), of "t + k" "m + 1" t "m + 1 - k"] kb assms unfolding nats by simp
    moreover have "fill_cells (t * cols b) ((t + k) * cols b) (eraseCell b) (b\<lparr>grid := concat ?S\<rparr>) =
        b\<lparr>grid := concat (overwrite t' ?E ?S)\<rparr>"
      using fill_rows [OF has_rows_grid [OF assms(1) S], of t "t + k" "eraseCell b"] kb assms
      by (simp add: erased_row_def nats)
    moreover have "overwrite t' ?E ?S = rows_down t' m' (nat n) (erased_row b) R"
      using nb by (subst overwrite_before) (simp_all add: rows_down_def Let_def kk [simplified])
    ultimately show ?thesis using assms unfolding scrollRegionDown_def Let_def k [symmetric] nats by simp
  qed
qed

text \<open>C27. Scrolling the cells does to the rows what it should. A region moved up by \<open>n\<close> loses its first
  rows, keeps the others in order and ends in rows erased with the current background; moved down
  it is the other way round; no row outside the region changes, nor does anything else of the buffer.\<close>

theorem scrolling_refines:
  assumes "has_rows b R" "0 \<le> t" "t \<le> m" "m < lines b" "0 < n"
  shows "scrollRegionUp t m n b = Some (b\<lparr>grid := concat (rows_up (nat t) (nat m) (nat n) (erased_row b) R)\<rparr>) \<and>
    scrollRegionDown t m n b = Some (b\<lparr>grid := concat (rows_down (nat t) (nat m) (nat n) (erased_row b) R)\<rparr>)"
  using scroll_rows [OF assms] by blast

theorem scrolling_refines_witness:
  "scrollRegionUp 1 2 5 (newBuffer 2 4) =
     Some ((newBuffer 2 4)\<lparr>grid := concat (rows_up (nat 1) (nat 2) (nat 5) (erased_row (newBuffer 2 4)) (replicate 4 [blank_cell, blank_cell]))\<rparr>) \<and>
   scrollRegionDown 1 2 5 (newBuffer 2 4) =
     Some ((newBuffer 2 4)\<lparr>grid := concat (rows_down (nat 1) (nat 2) (nat 5) (erased_row (newBuffer 2 4)) (replicate 4 [blank_cell, blank_cell]))\<rparr>)"
  by (rule scrolling_refines) (simp_all add: has_rows_def newBuffer_def eval_nat_numeral)

section \<open>Editing a row\<close>

lemma with_row_rows:
  assumes "has_rows b R" "0 \<le> curY b" "curY b < lines b" "f (R ! nat (curY b)) = Some r" "length r = nat (cols b)"
  shows "with_row f b = Some (b\<lparr>grid := concat (R[nat (curY b) := r])\<rparr>)"
proof -
  note d = has_rowsD [OF assms(1)]
  obtain c where c: "cols b = int c" using d(4) by blast
  obtain y where y: "curY b = int y" using assms(2) by (metis nonneg_int_cases)
  have yl: "y < length R" using assms(3) d(3) y by simp
  have R: "rect c R" using d(2) by (simp add: c)
  have n: "nat (curY b * cols b) = y * c" "nat ((curY b + 1) * cols b) = (y + 1) * c"
    by (simp_all add: y c nat_mult_distrib nat_add_distrib)
  have "(int y + 1) * int c \<le> int (length R) * int c" using yl by (intro mult_right_mono) auto
  then have "slice_of (grid b) (curY b * cols b) ((curY b + 1) * cols b) = Some (window (y * c) ((y + 1) * c) (concat R))"
    unfolding slice_of_def n using R by (simp add: y c d(1) mult_right_mono)
  moreover have "window (y * c) ((y + 1) * c) (concat R) = R ! y"
    unfolding window_concat_rect [OF R] using yl Cons_nth_drop_Suc [of y R] by (simp add: window_def flip: Cons_nth_drop_Suc)
  moreover have "overwrite (y * c) r (concat R) = concat (R[y := r])"
  proof -
    have "overwrite (y * c) (concat [r]) (concat R) = concat (overwrite y [r] R)"
      by (rule overwrite_concat_rect [OF R]) (use assms(5) in \<open>simp add: c\<close>)
    then show ?thesis using yl by (simp add: overwrite_def upd_conv_take_nth_drop)
  qed
  ultimately show ?thesis using assms(4) unfolding with_row_def n by (simp add: y d(1))
qed

definition row_insert :: "nat \<Rightarrow> nat \<Rightarrow> 'a \<Rightarrow> 'a list \<Rightarrow> 'a list" where
  "row_insert x n e r = (let k = min n (length r - x) in take x r @ replicate k e @ take (length r - x - k) (drop x r))"

definition row_delete :: "nat \<Rightarrow> nat \<Rightarrow> 'a \<Rightarrow> 'a list \<Rightarrow> 'a list" where
  "row_delete x n e r = (let k = min n (length r - x) in take x r @ drop (x + k) r @ replicate k e)"

lemma edit_rows:
  assumes b: "has_rows b R" and y: "0 \<le> curY b" "curY b < lines b" and x: "0 \<le> curX b" "curX b < cols b" and n: "0 < n"
  shows "insertBlanks n b =
      Some (b\<lparr>grid := concat (R[nat (curY b) := row_insert (nat (curX b)) (nat n) (eraseCell b) (R ! nat (curY b))])\<rparr>)"
    and "deleteChars n b =
      Some (b\<lparr>grid := concat (R[nat (curY b) := row_delete (nat (curX b)) (nat n) (eraseCell b) (R ! nat (curY b))])\<rparr>)"
proof -
  note d = has_rowsD [OF b]
  let ?r = "R ! nat (curY b)"
  have len: "length ?r = nat (cols b)" using d(2,3) y unfolding rect_def by (simp add: nat_less_iff)
  obtain c where c: "cols b = int c" using d(4) by blast
  obtain x' where x': "curX b = int x'" using x(1) by (metis nonneg_int_cases)
  obtain k where k: "k = (if n > cols b - curX b then cols b - curX b else n)" by blast
  then have "0 < k" using x n by (simp split: if_splits)
  then obtain k' where k': "k = int k'" by (metis less_imp_le nonneg_int_cases)
  have kb: "x' + k' \<le> c" "0 < k'" using k n x(2) \<open>0 < k\<close> unfolding c x' k' by (auto split: if_splits)
  have kk: "min (nat n) (c - x') = k'" using k n unfolding c x' k' by (auto split: if_splits)
  have lc: "length ?r = c" using len by (simp add: c)
  show "insertBlanks n b =
      Some (b\<lparr>grid := concat (R[nat (curY b) := row_insert (nat (curX b)) (nat n) (eraseCell b) (R ! nat (curY b))])\<rparr>)"
  proof -
    let ?o = "overwrite (x' + k') (take (c - x' - k') (drop x' ?r)) ?r"
    have o: "take (c - (x' + k')) (window x' (c - k') ?r) = take (c - x' - k') (drop x' ?r)"
      by (simp add: window_def diff_diff_add add.commute)
    have "slice_of ?r (curX b) (cols b - k) = Some (window x' (c - k') ?r)"
      using kb lc by (auto simp: slice_of_def x' k' c nat_diff_distrib)
    moreover have "copy_at ?r (curX b + k) (window x' (c - k') ?r) = Some ?o"
      using kb lc by (simp add: copy_at_def x' k' o nat_add_distrib)
    moreover have "set_run (curX b) (curX b + k) (eraseCell b) ?o = Some (row_insert x' (nat n) (eraseCell b) ?r)"
      using kb lc by (auto simp: set_run_def x' k' row_insert_def Let_def kk overwrite_def)
    moreover have "length (row_insert x' (nat n) (eraseCell b) ?r) = nat (cols b)"
      using kb lc by (simp add: row_insert_def Let_def kk c)
    ultimately have "with_row (\<lambda>row. do {
         src \<leftarrow> slice_of row (curX b) (cols b - k);
         row \<leftarrow> copy_at row (curX b + k) src;
         set_run (curX b) (curX b + k) (eraseCell b) row
       }) b = Some (b\<lparr>grid := concat (R[nat (curY b) := row_insert x' (nat n) (eraseCell b) ?r])\<rparr>)"
      by (intro with_row_rows [OF b y]) simp_all
    then show ?thesis using y x n unfolding insertBlanks_def Let_def k [symmetric] by (simp add: x')
  qed
  show "deleteChars n b =
      Some (b\<lparr>grid := concat (R[nat (curY b) := row_delete (nat (curX b)) (nat n) (eraseCell b) (R ! nat (curY b))])\<rparr>)"
  proof -
    let ?o = "overwrite x' (drop (x' + k') ?r) ?r"
    have "slice_of ?r (curX b + k) (int (length ?r)) = Some (drop (x' + k') ?r)"
      using kb lc by (auto simp: slice_of_def x' k' c nat_add_distrib window_def)
    moreover have "copy_at ?r (curX b) (drop (x' + k') ?r) = Some ?o"
      using kb lc by (simp add: copy_at_def x')
    moreover have "set_run (cols b - k) (cols b) (eraseCell b) ?o = Some (row_delete x' (nat n) (eraseCell b) ?r)"
      using kb lc by (auto simp: set_run_def x' k' c row_delete_def Let_def kk overwrite_def nat_diff_distrib)
    moreover have "length (row_delete x' (nat n) (eraseCell b) ?r) = nat (cols b)"
      using kb lc by (simp add: row_delete_def Let_def kk c)
    ultimately have "with_row (\<lambda>row. do {
         src \<leftarrow> slice_of row (curX b + k) (int (length row));
         row \<leftarrow> copy_at row (curX b) src;
         set_run (cols b - k) (cols b) (eraseCell b) row
       }) b = Some (b\<lparr>grid := concat (R[nat (curY b) := row_delete x' (nat n) (eraseCell b) ?r])\<rparr>)"
      by (intro with_row_rows [OF b y]) simp_all
    then show ?thesis using y x n unfolding deleteChars_def Let_def k [symmetric] by (simp add: x')
  qed
qed

text \<open>Inserting blanks and deleting characters edit the cursor's row and nothing else: an insertion pushes
  the rest of the row right and what does not fit is lost, a deletion pulls it left and the end is
  erased, however large the count.\<close>

lemma row_edits_refine:
  assumes "has_rows b R" "0 \<le> curY b" "curY b < lines b" "0 \<le> curX b" "curX b < cols b" "0 < n"
  shows "insertBlanks n b =
      Some (b\<lparr>grid := concat (R[nat (curY b) := row_insert (nat (curX b)) (nat n) (eraseCell b) (R ! nat (curY b))])\<rparr>) \<and>
    deleteChars n b =
      Some (b\<lparr>grid := concat (R[nat (curY b) := row_delete (nat (curX b)) (nat n) (eraseCell b) (R ! nat (curY b))])\<rparr>)"
  using edit_rows [OF assms] by blast

lemma row_edits_refine_witness:
  "insertBlanks 9 (newBuffer 2 1) =
      Some ((newBuffer 2 1)\<lparr>grid := concat ((replicate 1 [blank_cell, blank_cell])[nat (curY (newBuffer 2 1)) :=
        row_insert (nat (curX (newBuffer 2 1))) (nat 9) (eraseCell (newBuffer 2 1)) (replicate 1 [blank_cell, blank_cell] ! nat (curY (newBuffer 2 1)))])\<rparr>) \<and>
   deleteChars 9 (newBuffer 2 1) =
      Some ((newBuffer 2 1)\<lparr>grid := concat ((replicate 1 [blank_cell, blank_cell])[nat (curY (newBuffer 2 1)) :=
        row_delete (nat (curX (newBuffer 2 1))) (nat 9) (eraseCell (newBuffer 2 1)) (replicate 1 [blank_cell, blank_cell] ! nat (curY (newBuffer 2 1)))])\<rparr>)"
  by (rule row_edits_refine) (simp_all add: has_rows_def newBuffer_def eval_nat_numeral)

end
