(* ===== verification/VT_Print.thy ===== *)
theory VT_Print
  imports VT_Grid
begin

text \<open>
  What a program prints is what is read from the screen: lines of printable characters, sent with a carriage
  return and a line feed between them, come back as the text of the picture.
\<close>

section \<open>A terminal that has printed rows\<close>

definition shown :: "nat \<Rightarrow> nat \<Rightarrow> cell list list \<Rightarrow> int \<Rightarrow> nat \<Rightarrow> bool \<Rightarrow> buffer" where
  "shown c l R x y wn = (newBuffer (int c) (int l))\<lparr>grid := concat R, curX := x, curY := int y, wrapNext := wn\<rparr>"

definition showing :: "nat \<Rightarrow> nat \<Rightarrow> u64 \<Rightarrow> buffer \<Rightarrow> terminal" where
  "showing c l w b = (Terminal_New (int c) (int l))\<lparr>written := w, primary := b\<rparr>"

definition printable :: "byte \<Rightarrow> bool" where
  "printable b \<longleftrightarrow> 0x20 \<le> b \<and> b < 0x7F"

definition printed :: "byte \<Rightarrow> cell" where
  "printed b = \<lparr>Rune = uint b, Look = no_attr, Width = 1\<rparr>"

lemma shown_simps [simp]:
  "cols (shown c l R x y wn) = int c" "lines (shown c l R x y wn) = int l" "grid (shown c l R x y wn) = concat R"
  "curX (shown c l R x y wn) = x" "curY (shown c l R x y wn) = int y" "wrapNext (shown c l R x y wn) = wn"
  "pen (shown c l R x y wn) = no_attr" "regBottom (shown c l R x y wn) = int l - 1"
  "(shown c l R x y wn)\<lparr>grid := concat S\<rparr> = shown c l S x y wn"
  "(shown c l R x y wn)\<lparr>curX := x'\<rparr> = shown c l R x' y wn"
  "(shown c l R x y wn)\<lparr>curY := int y'\<rparr> = shown c l R x y' wn"
  "(shown c l R x y wn)\<lparr>wrapNext := wn'\<rparr> = shown c l R x y wn'"
  by (simp_all add: shown_def newBuffer_def)

lemma showing_simps [simp]:
  "pstate (showing c l w b) = stGround" "u8 (showing c l w b) = []" "insertMode (showing c l w b) = False"
  "autowrap (showing c l w b)" "onAlt (showing c l w b) = False" "buf (showing c l w b) = b"
  "with_buf b' (showing c l w b) = showing c l w b'"
  "(showing c l w b)\<lparr>u8 := []\<rparr> = showing c l w b"
  by (simp_all add: showing_def Terminal_New_def Let_def buf_def with_buf_def)

lemma printable_uint: "printable b \<Longrightarrow> 0x20 \<le> uint b \<and> uint b < 0x7F"
  by (simp add: printable_def word_le_def word_less_def)

lemma RuneWidth_printable: "printable b \<Longrightarrow> RuneWidth (uint b) = 1"
  using printable_uint [of b] by (simp add: RuneWidth_def)

lemma row_offset:
  assumes "rect c R" "y < length R" "x < c"
  shows "y * c + x < length (concat R)"
proof -
  have "Suc y * c \<le> length R * c" using assms(2) by (intro mult_right_mono) auto
  then show ?thesis using assms by simp
qed

lemma put_printable:
  assumes "rect c R" "length R = l" "x < c" "y < l" "printable b" "Width (R ! y ! x) = 1"
  shows "put (uint b) True (shown c l R (int x) y False) =
    Some (shown c l (R[y := (R ! y)[x := printed b]]) (min (int x + 1) (int c - 1)) y (x + 1 = c))"
proof -
  let ?b = "shown c l R (int x) y False"
  have i: "cell_index (int x) (int y) ?b = Some (int (y * c + x))" using assms by (simp add: cell_index_def)
  have off: "y * c + x < length (concat R)" using assms row_offset by blast
  have "cell_at (int x) (int y) ?b = Some (Some (R ! y ! x))"
    using off assms(1-4) by (simp add: cell_at_def i get_at_def nth_concat_rect del: length_concat_rect of_nat_add of_nat_mult)
  then have br: "breakWide (int x) (int y) ?b = Some ?b" using assms(6) by (simp add: breakWide_def)
  have st: "set_cell (int x) (int y) (printed b) ?b = Some (shown c l (R[y := (R ! y)[x := printed b]]) (int x) y False)"
    using off assms(1-4)
    by (simp add: set_cell_def i set_at_def update_concat_rect del: length_concat_rect of_nat_add of_nat_mult)
  have room: "make_room 1 True ?b = Some (True, ?b)" using assms(3) by (simp add: make_room_def)
  show ?thesis using assms(3)
    by (auto simp: put_def Let_def RuneWidth_printable [OF assms(5)] room br st printed_def [symmetric])
qed

lemma step_printable:
  assumes "rect c R" "length R = l" "x < c" "y < l" "printable b" "Width (R ! y ! x) = 1"
  shows "step_byte b (showing c l w (shown c l R (int x) y False)) =
    Some (showing c l w (shown c l (R[y := (R ! y)[x := printed b]]) (min (int x + 1) (int c - 1)) y (x + 1 = c)))"
proof -
  have "b \<noteq> 0x1B" "b < 0x80" "\<not> b < 0x20" "b \<noteq> 0x7F"
    using assms(5) by (auto simp: printable_def word_less_nat_alt word_le_nat_alt)
  then show ?thesis
    by (simp add: step_byte_def ground_def emit_def on_buf_def put_printable [OF assms])
qed

text \<open>A line printed from the left of a blank row.\<close>

definition row_of :: "nat \<Rightarrow> byte list \<Rightarrow> cell list" where
  "row_of c r = map printed r @ replicate (c - length r) blank_cell"

lemma length_row_of [simp]: "length r \<le> c \<Longrightarrow> length (row_of c r) = c"
  by (simp add: row_of_def)

lemma row_of_snoc: "length r < c \<Longrightarrow> (row_of c r)[length r := printed b] = row_of c (r @ [b])"
  by (cases "c - length r") (auto simp: row_of_def list_update_append Suc_diff_Suc diff_Suc split: nat.split)

lemma print_line:
  assumes "rect c R" "length R = l" "y < l" "0 < c" "R ! y = row_of c []" "length r \<le> c" "\<forall>b \<in> set r. printable b"
  shows "mfold step_byte r (showing c l w (shown c l R 0 y False)) =
    Some (showing c l w (shown c l (R[y := row_of c r]) (min (int (length r)) (int c - 1)) y (length r = c)))"
  using assms(6,7)
proof (induction r rule: rev_induct)
  case Nil
  have "R[y := row_of c []] = R" using assms(5) by (metis list_update_id)
  then show ?case using assms(4) by simp
next
  case (snoc b r)
  let ?R = "R[y := row_of c r]"
  have len: "length r < c" using snoc.prems by simp
  have w: "Width (?R ! y ! length r) = 1" using assms(2,3) len by (simp add: row_of_def nth_append blank_cell_def)
  have "step_byte b (showing c l w (shown c l ?R (int (length r)) y False)) =
      Some (showing c l w (shown c l (?R[y := (?R ! y)[length r := printed b]]) (min (int (length r) + 1) (int c - 1)) y (length r + 1 = c)))"
    by (rule step_printable) (use assms(1-3) len w snoc.prems in auto)
  then show ?case using snoc len assms(2,3) by (simp add: mfold_snoc row_of_snoc add.commute)
qed

lemma step_newline:
  assumes "y + 1 < l" "0 < c"
  shows "mfold step_byte [0x0D, 0x0A] (showing c l w (shown c l R x y wn)) = Some (showing c l w (shown c l R 0 (y + 1) False))"
proof -
  have cr: "step_byte 0x0D (showing c l w (shown c l R x y wn)) = Some (showing c l w (shown c l R 0 y False))"
    by (simp add: step_byte_def ground_def control_def of_buf_def)
  have "(shown c l R 0 y False)\<lparr>curY := int y + 1\<rparr> = shown c l R 0 (y + 1) False"
    by (simp add: shown_def)
  then have lf: "step_byte 0x0A (showing c l w (shown c l R 0 y False)) = Some (showing c l w (shown c l R 0 (y + 1) False))"
    using assms by (simp add: step_byte_def ground_def control_def on_buf_def lineFeed_def)
  show ?thesis by (simp add: cr lf)
qed

section \<open>The lines of a text\<close>

fun crlf_lines :: "byte list list \<Rightarrow> byte list" where
  "crlf_lines [] = []"
| "crlf_lines [r] = r"
| "crlf_lines (r # s # rs) = r @ [0x0D, 0x0A] @ crlf_lines (s # rs)"

definition page :: "nat \<Rightarrow> nat \<Rightarrow> byte list list \<Rightarrow> cell list list" where
  "page c l rs = map (row_of c) rs @ replicate (l - length rs) (row_of c [])"

lemma page_simps:
  assumes "\<forall>r \<in> set rs. length r \<le> c" "length rs \<le> l"
  shows "rect c (page c l rs)" "length (page c l rs) = l" "length rs < l \<Longrightarrow> page c l rs ! length rs = row_of c []"
    "length rs < l \<Longrightarrow> (page c l rs)[length rs := row_of c r] = page c l (rs @ [r])"
proof -
  show "rect c (page c l rs)" "length (page c l rs) = l" using assms by (auto simp: page_def rect_def)
  assume lt: "length rs < l"
  then obtain n where n: "l - length rs = Suc n" by (metis Suc_diff_Suc)
  then show "page c l rs ! length rs = row_of c []" by (simp add: page_def nth_append)
  have "l - length (rs @ [r]) = n" using n by simp
  then show "(page c l rs)[length rs := row_of c r] = page c l (rs @ [r])"
    using n by (simp add: page_def list_update_append)
qed

lemma print_lines:
  assumes "0 < c" "rs \<noteq> []" "length (ps @ rs) \<le> l" "\<forall>r \<in> set (ps @ rs). length r \<le> c"
    "\<forall>r \<in> set rs. \<forall>b \<in> set r. printable b"
  shows "\<exists>x y wn. mfold step_byte (crlf_lines rs) (showing c l w (shown c l (page c l ps) 0 (length ps) False)) =
    Some (showing c l w (shown c l (page c l (ps @ rs)) x y wn))"
  using assms(2-5)
proof (induction rs arbitrary: ps rule: crlf_lines.induct)
  case (2 r)
  have p: "\<forall>r \<in> set ps. length r \<le> c" "length ps \<le> l" "length ps < l" using 2 by auto
  show ?case
    using print_line [OF page_simps(1,2) [OF p(1,2)] p(3) assms(1) page_simps(3) [OF p], of r w] 2 page_simps(4) [OF p]
    by auto
next
  case (3 r s rs)
  have p: "\<forall>r \<in> set ps. length r \<le> c" "length ps \<le> l" "length ps < l" using 3 by auto
  have line: "mfold step_byte r (showing c l w (shown c l (page c l ps) 0 (length ps) False)) =
      Some (showing c l w (shown c l (page c l (ps @ [r])) (min (int (length r)) (int c - 1)) (length ps) (length r = c)))"
    using print_line [OF page_simps(1,2) [OF p(1,2)] p(3) assms(1) page_simps(3) [OF p], of r w] 3 page_simps(4) [OF p] by simp
  have lt: "length ps + 1 < l" and next_line: "length (ps @ [r]) = length ps + 1" using 3 by simp_all
  have "\<exists>x y wn. mfold step_byte (crlf_lines (s # rs)) (showing c l w (shown c l (page c l (ps @ [r])) 0 (length (ps @ [r])) False)) =
      Some (showing c l w (shown c l (page c l ((ps @ [r]) @ s # rs)) x y wn))"
    by (rule "3.IH") (use 3 in auto)
  then show ?case
    unfolding crlf_lines.simps mfold_append line Option.bind.bind_lunit step_newline [OF lt assms(1)] next_line by simp
qed simp

section \<open>Reading the picture\<close>

lemma trim_right_Nil [simp]: "trim_right [] = []"
  by (simp add: trim_right_def)

lemma trim_right_blanks: "trim_right (xs @ replicate n 32) = trim_right xs"
  unfolding trim_right_def rev_append rev_replicate by (induction n) simp_all

lemma row_runes_list:
  assumes "\<And>i. i < n \<Longrightarrow> Screen_At (x + int i) y s = Some (r ! i) \<and> Width (r ! i) = 1 \<and> Rune (r ! i) \<noteq> 0" "length r = n"
  shows "row_runes n x y s = Some (map Rune r)"
  using assms
proof (induction n arbitrary: x r)
  case (Suc n)
  then obtain c r' where r: "r = c # r'" by (cases r) auto
  have "row_runes n (x + 1) y s = Some (map Rune r')"
    by (rule Suc.IH) (use Suc.prems(1) [of "Suc _"] Suc.prems(2) r in \<open>simp_all add: algebra_simps\<close>)
  then show ?case using Suc.prems(1) [of 0] r by simp
qed simp

lemma rows_from_list:
  assumes "\<And>i. i < n \<Longrightarrow> Screen_Row (y + int i) s = Some (rs ! i)" "length rs = n"
  shows "rows_from n y s = Some rs"
  using assms
proof (induction n arbitrary: y rs)
  case (Suc n)
  then obtain r rs' where rs: "rs = r # rs'" by (cases rs) auto
  have "rows_from n (y + 1) s = Some rs'"
    by (rule Suc.IH) (use Suc.prems(1) [of "Suc _"] Suc.prems(2) rs in \<open>simp_all add: algebra_simps\<close>)
  then show ?case using Suc.prems(1) [of 0] rs by simp
qed simp

lemma Screen_Row_page:
  assumes "y < l" "rect c R" "length R = l" "length r \<le> c" "R ! y = row_of c r" "\<forall>b \<in> set r. printable b"
  shows "Screen_Row (int y) (Terminal_Screen (showing c l w (shown c l R x y' wn))) = Some (trim_right (map uint r))"
proof -
  let ?s = "Terminal_Screen (showing c l w (shown c l R x y' wn))"
  have "Screen_At (0 + int i) (int y) ?s = Some (row_of c r ! i) \<and> Width (row_of c r ! i) = 1 \<and> Rune (row_of c r ! i) \<noteq> 0"
    if i: "i < c" for i
  proof -
    have "y * c + i < length (concat R)" using row_offset [OF assms(2)] assms(1,3) i by simp
    then have "Screen_At (0 + int i) (int y) ?s = Some (R ! y ! i)"
      using i assms(1-3) nth_concat_rect [of c R y i]
      by (simp add: Screen_At_def Terminal_Screen_def get_at_def flip: of_nat_mult of_nat_add del: length_concat_rect)
    moreover have "printable (r ! i)" if "i < length r" using that assms(6) by simp
    then have "Rune (row_of c r ! i) \<noteq> 0" "Width (row_of c r ! i) = 1"
      using i printable_uint [of "r ! i"] by (auto simp: row_of_def nth_append printed_def blank_cell_def)
    ultimately show ?thesis using assms(5) by simp
  qed
  then have "row_runes c 0 (int y) ?s = Some (map Rune (row_of c r))"
    by (intro row_runes_list) (use assms(4) in simp_all)
  moreover have "map Rune (row_of c r) = map uint r @ replicate (c - length r) 32"
    by (simp add: row_of_def printed_def blank_cell_def)
  moreover have "Rows ?s = int l" "Cols ?s = int c" by (simp_all add: Terminal_Screen_def)
  ultimately show ?thesis using assms(1) by (simp add: Screen_Row_def trim_right_blanks)
qed

lemma trailing_empty:
  "rev (dropWhile (\<lambda>r. r = []) (rev (rs @ replicate n []))) = rev (dropWhile (\<lambda>r. r = []) (rev rs))"
  unfolding rev_append rev_replicate by (induction n) simp_all

text \<open>C28. Lines of printable characters that fit the screen, written to a new terminal with a carriage return
  and a line feed between them, are the text of its picture, line for line, less the blanks at the ends
  of lines and the empty lines at the end.\<close>

theorem printed_text_is_read:
  assumes "1 \<le> c" "c \<le> 1000" "l \<le> 1000" "rs \<noteq> []" "length rs \<le> l" "\<forall>r \<in> set rs. length r \<le> c"
    and "\<forall>r \<in> set rs. \<forall>b \<in> set r. 0x20 \<le> b \<and> b < 0x7F"
  shows "\<exists>t. Terminal_Write (crlf_lines rs) (Terminal_New (int c) (int l)) = Some t \<and>
    Screen_Text (Terminal_Screen t) =
      Some (join_lines (rev (dropWhile (\<lambda>r. r = []) (rev (map (\<lambda>r. trim_right (map uint r)) rs)))))"
proof -
  have l: "1 \<le> l" using assms(4,5) by (cases rs) auto
  let ?w = "of_nat (length (crlf_lines rs)) :: u64"
  have "grid (newBuffer (int c) (int l)) = concat (page c l [])"
    by (simp add: newBuffer_def page_def row_of_def nat_mult_distrib mult.commute [of c] flip: replicate_concat_rect)
  then have b: "newBuffer (int c) (int l) = shown c l (page c l []) 0 0 False" by (simp add: shown_def newBuffer_def)
  have "primary (Terminal_New (int c) (int l)) = newBuffer (int c) (int l)"
    using assms(1-3) l by (simp add: Terminal_New_def Let_def clamp_def MaxCols_def MaxRows_def)
  then have t: "(Terminal_New (int c) (int l))\<lparr>written := written (Terminal_New (int c) (int l)) + ?w\<rparr> =
      showing c l ?w (shown c l (page c l []) 0 0 False)"
    by (simp add: showing_def b [symmetric] Terminal_New_def Let_def)
  from print_lines [of c rs "[]" l ?w] assms obtain x y wn where
    w: "Terminal_Write (crlf_lines rs) (Terminal_New (int c) (int l)) = Some (showing c l ?w (shown c l (page c l rs) x y wn))"
    by (auto simp: Terminal_Write_def t printable_def)
  note p = page_simps(1,2) [OF assms(6,5)]
  let ?s = "Terminal_Screen (showing c l ?w (shown c l (page c l rs) x y wn))"
  let ?rows = "map (\<lambda>r. trim_right (map uint r)) (rs @ replicate (l - length rs) [])"
  have "Screen_Row (0 + int i) ?s = Some (?rows ! i)" if i: "i < l" for i
  proof -
    let ?r = "(rs @ replicate (l - length rs) []) ! i"
    have "?r \<in> set rs \<or> ?r = []" using i by (auto simp: nth_append)
    moreover have "page c l rs ! i = row_of c ?r" using i assms(5) by (auto simp: page_def nth_append)
    moreover have "length ?r \<le> c" "\<forall>b \<in> set ?r. printable b"
      using calculation(1) assms(6,7) by (auto simp: printable_def)
    ultimately have "Screen_Row (int i) ?s = Some (trim_right (map uint ?r))" by (intro Screen_Row_page [OF i p])
    then show ?thesis using i assms(5) by (simp del: map_append)
  qed
  then have "rows_from l 0 ?s = Some ?rows" by (intro rows_from_list) (use assms(5) in simp_all)
  moreover have "Rows ?s = int l" by (simp add: Terminal_Screen_def)
  moreover have "?rows = map (\<lambda>r. trim_right (map uint r)) rs @ replicate (l - length rs) []"
    by simp
  ultimately have "Screen_Text ?s = Some (join_lines (rev (dropWhile (\<lambda>r. r = [])
      (rev (map (\<lambda>r. trim_right (map uint r)) rs @ replicate (l - length rs) [])))))"
    by (simp add: Screen_Text_def del: rev_append)
  then show ?thesis unfolding w trailing_empty by blast
qed

theorem printed_text_is_read_witness:
  "\<exists>t. Terminal_Write (crlf_lines [[0x61, 0x62, 0x20], [], [0x63]]) (Terminal_New (int 3) (int 5)) = Some t \<and>
    Screen_Text (Terminal_Screen t) =
      Some (join_lines (rev (dropWhile (\<lambda>r. r = []) (rev (map (\<lambda>r. trim_right (map uint r)) [[0x61, 0x62, 0x20], [], [0x63 :: byte]])))))"
  by (rule printed_text_is_read) simp_all

section \<open>Two surprises\<close>

text \<open>
  \<open>put\<close> takes care not to leave half of a wide character behind; deleting a character does not, and the grid
  then holds a continuation cell with nothing in front of it.
\<close>

lemma delete_leaves_half:
  "map_option (\<lambda>t. map Width (grid (buf t)))
     (Terminal_Write [0xE4, 0xB8, 0x96, 0x0D, 0x1B, 0x5B, 0x50] (Terminal_New 3 1)) = Some [0, 1, 1]"
  by code_simp

text \<open>
  A title in UTF-8 ends at a byte \<open>9C\<close> inside a character. A capital U with two dots is \<open>C3 9C\<close>: only its
  first byte becomes the title, and what follows is drawn on the screen.
\<close>

lemma title_is_cut:
  "map_option (\<lambda>t. (title t, map Rune (take 2 (grid (buf t)))))
     (Terminal_Write [0x1B, 0x5D, 0x32, 0x3B, 0xC3, 0x9C, 0x62, 0x65, 0x07] (Terminal_New 3 1)) = Some ([0xC3], [0x62, 0x65])"
  by code_simp

end
