(* ===== verification/Safety_Scope.thy ===== *)
theory Safety_Scope
  imports Mutate_Dict Feedback_Stack "HOL-Library.List_Lexorder" "HOL-Library.Char_ord"
begin

text \<open>
  The network guard of the safety policy, \<open>internal/safety/scope.go\<close> and \<open>authz.go\<close>: which destinations a
  campaign may send to, how its allowlist is checked before the campaign starts, and the record a campaign
  that leaves the host must carry. Addresses are the values of \<open>net/netip\<close>; a host that was written as text
  is what \<open>netip\<close> reads it as. The resolver's answers are parameters.
\<close>

section \<open>Addresses\<close>

text \<open>An address, with the zone of an IPv6 one; the zero value is not valid.\<close>

datatype addr = NoAddr | IP4 "32 word" | IP6 "128 word" string

definition octet :: "nat \<Rightarrow> 32 word \<Rightarrow> byte" where
  "octet i w = ucast (drop_bit (24 - 8 * i) w)"

definition segment :: "128 word \<Rightarrow> 16 word" where \<comment> \<open>the first of the eight\<close>
  "segment w = ucast (drop_bit 112 w)"

fun Unmap :: "addr \<Rightarrow> addr" where
  "Unmap (IP6 w z) = (if drop_bit 32 w = 0xFFFF then IP4 (ucast w) else IP6 w z)"
| "Unmap a = a"

fun BitLen :: "addr \<Rightarrow> nat" where
  "BitLen NoAddr = 0"
| "BitLen (IP4 w) = 32"
| "BitLen (IP6 w z) = 128"

text \<open>The predicates of \<open>netip.Addr\<close>, on addresses that are not IPv4 in IPv6.\<close>

fun IsLoopback :: "addr \<Rightarrow> bool" where
  "IsLoopback (IP4 w) = (octet 0 w = 127)"
| "IsLoopback (IP6 w z) = (w = 1)"
| "IsLoopback NoAddr = False"

fun IsPrivate :: "addr \<Rightarrow> bool" where
  "IsPrivate (IP4 w) =
     (octet 0 w = 10 \<or> octet 0 w = 172 \<and> octet 1 w AND 0xF0 = 16 \<or> octet 0 w = 192 \<and> octet 1 w = 168)"
| "IsPrivate (IP6 w z) = (segment w AND 0xFE00 = 0xFC00)"
| "IsPrivate NoAddr = False"

fun IsLinkLocalUnicast :: "addr \<Rightarrow> bool" where
  "IsLinkLocalUnicast (IP4 w) = (octet 0 w = 169 \<and> octet 1 w = 254)"
| "IsLinkLocalUnicast (IP6 w z) = (segment w AND 0xFFC0 = 0xFE80)"
| "IsLinkLocalUnicast NoAddr = False"

fun IsLinkLocalMulticast :: "addr \<Rightarrow> bool" where
  "IsLinkLocalMulticast (IP4 w) = (octet 0 w = 224 \<and> octet 1 w = 0 \<and> octet 2 w = 0)"
| "IsLinkLocalMulticast (IP6 w z) = (segment w AND 0xFF0F = 0xFF02)"
| "IsLinkLocalMulticast NoAddr = False"

fun IsUnspecified :: "addr \<Rightarrow> bool" where
  "IsUnspecified (IP4 w) = (w = 0)"
| "IsUnspecified (IP6 w z) = (w = 0 \<and> z = [])"
| "IsUnspecified NoAddr = False"

fun IsMulticast :: "addr \<Rightarrow> bool" where
  "IsMulticast (IP4 w) = (octet 0 w AND 0xF0 = 0xE0)"
| "IsMulticast (IP6 w z) = (segment w AND 0xFF00 = 0xFF00)"
| "IsMulticast NoAddr = False"

fun IsGlobalUnicast :: "addr \<Rightarrow> bool" where
  "IsGlobalUnicast (IP4 w) = (w \<noteq> 0 \<and> w \<noteq> 0xFFFFFFFF \<and> \<not> IsLoopback (IP4 w) \<and> \<not> IsMulticast (IP4 w) \<and> \<not> IsLinkLocalUnicast (IP4 w))"
| "IsGlobalUnicast (IP6 w z) =
     (\<not> (w = 0 \<and> z = []) \<and> \<not> IsLoopback (IP6 w z) \<and> \<not> IsMulticast (IP6 w z) \<and> \<not> IsLinkLocalUnicast (IP6 w z))"
| "IsGlobalUnicast NoAddr = False"

definition isPublic :: "addr \<Rightarrow> bool" where
  "isPublic a =
     (if a = NoAddr then False
      else
        let a = Unmap a
        in if IsLoopback a \<or> IsPrivate a \<or> IsLinkLocalUnicast a \<or> IsLinkLocalMulticast a \<or> IsUnspecified a \<or> IsMulticast a
           then False
           else (case a of
              IP4 w \<Rightarrow>
                if octet 0 w = 100 \<and> octet 1 w \<ge> 64 \<and> octet 1 w < 128 then False
                else if octet 0 w = 192 \<and> octet 1 w = 0 \<and> octet 2 w = 0 then False
                else if octet 0 w = 192 \<and> octet 1 w = 0 \<and> octet 2 w = 2 then False
                else if octet 0 w = 198 \<and> (octet 1 w = 18 \<or> octet 1 w = 19) then False
                else if octet 0 w = 198 \<and> octet 1 w = 51 \<and> octet 2 w = 100 then False
                else if octet 0 w = 203 \<and> octet 1 w = 0 \<and> octet 2 w = 113 then False
                else if octet 0 w \<ge> 240 then False
                else True
            | _ \<Rightarrow> IsGlobalUnicast a))"

text \<open>A prefix: an address without zone and a number of bits.\<close>

type_synonym prefix = "addr \<times> nat"

fun Prefix_IsValid :: "prefix \<Rightarrow> bool" where
  "Prefix_IsValid (a, n) \<longleftrightarrow> a \<noteq> NoAddr \<and> n \<le> BitLen a"

fun Masked :: "prefix \<Rightarrow> prefix" where
  "Masked (IP4 w, n) = (IP4 (w AND NOT (mask (32 - n))), n)"
| "Masked (IP6 w z, n) = (IP6 (w AND NOT (mask (128 - n))) [], n)"
| "Masked (NoAddr, n) = (NoAddr, n)"

fun PrefixFrom :: "addr \<Rightarrow> nat \<Rightarrow> prefix" where
  "PrefixFrom (IP6 w z) n = (IP6 w [], n)"
| "PrefixFrom a n = (a, n)"

fun Prefix_Contains :: "prefix \<Rightarrow> addr \<Rightarrow> bool" where
  "Prefix_Contains (IP4 p, n) (IP4 w) \<longleftrightarrow> n \<le> 32 \<and> drop_bit (32 - n) (w XOR p) = 0"
| "Prefix_Contains (IP6 p y, n) (IP6 w z) \<longleftrightarrow> n \<le> 128 \<and> z = [] \<and> drop_bit (128 - n) (w XOR p) = 0"
| "Prefix_Contains _ _ \<longleftrightarrow> False"

text \<open>The highest address of a prefix: the loop sets the host bits one by one.\<close>

definition set_host_bits :: "nat \<Rightarrow> 'a :: len word \<Rightarrow> 'a word" where
  "set_host_bits host w = fold (\<lambda>i w. w OR push_bit i 1) [0..<host] w"

fun lastAddr :: "prefix \<Rightarrow> addr" where
  "lastAddr (a, n) =
     (if \<not> Prefix_IsValid (a, n) then NoAddr
      else if n = BitLen a then a
      else (case Masked (a, n) of
          (IP4 w, _) \<Rightarrow> IP4 (set_host_bits (32 - n) w)
        | (IP6 w z, _) \<Rightarrow> IP6 (set_host_bits (128 - n) w) []
        | (NoAddr, _) \<Rightarrow> NoAddr))"

section \<open>The guard\<close>

record port_range =
  Lo :: "16 word"
  Hi :: "16 word"

definition PortRange_Contains :: "port_range \<Rightarrow> 16 word \<Rightarrow> bool" where
  "PortRange_Contains r p \<longleftrightarrow> p \<ge> Lo r \<and> p \<le> Hi r"

text \<open>The text of a host as \<open>strings.TrimSpace\<close>, \<open>ParsePrefix\<close> and \<open>ParseAddr\<close> see it: nothing, a prefix, an address, or
  something that has to be looked up.\<close>

datatype host = Blank | Network prefix | Address addr | Name string

record rule =
  Prefix :: prefix
  Host :: host
  Ports :: "port_range list"

text \<open>A decision offered to the auditor: the action, the actor, and what the detail says.\<close>

datatype audit_detail =
    Denied addr "16 word"
  | Permitted addr "16 word" host
  | PermittedLocal
  | PermittedLoopback addr "16 word"
  | PermittedHarness addr "16 word"

record scope =
  Rules :: "rule list"
  AllowLoopback :: bool
  AcknowledgePublic :: bool
  Audited :: bool \<comment> \<open>\<open>Auditor\<close> is there\<close>
  AuditAllows :: bool
  allows :: u64
  denies :: u64
  offered :: "audit_detail list" \<comment> \<open>what the auditor has been given\<close>

datatype scope_error = ErrOutOfScope | ErrNoScope | ErrPublicScope rule | ErrEmptyHost | ErrResolve | ErrNoAddresses
  | ErrHostPort | ErrPort | ErrControlName

definition NewScope :: scope where
  "NewScope = \<lparr>Rules = [], AllowLoopback = True, AcknowledgePublic = False, Audited = False, AuditAllows = False,
     allows = 0, denies = 0, offered = []\<rparr>"

type_synonym resolver = "string \<Rightarrow> addr list option"

text \<open>\<open>Allow\<close>. A name is looked up once and its addresses are pinned.\<close>

definition pin :: "host \<Rightarrow> port_range list \<Rightarrow> addr \<Rightarrow> scope \<Rightarrow> scope" where
  "pin h ports a s = s\<lparr>Rules := Rules s @ [\<lparr>Prefix = PrefixFrom a (BitLen a), Host = h, Ports = ports\<rparr>]\<rparr>"

definition Allow :: "resolver \<Rightarrow> host \<Rightarrow> port_range list \<Rightarrow> scope \<Rightarrow> scope_error option \<times> scope" where
  "Allow lookup h ports s =
     (case h of
        Blank \<Rightarrow> (Some ErrEmptyHost, s)
      | Network p \<Rightarrow> (None, s\<lparr>Rules := Rules s @ [\<lparr>Prefix = Masked p, Host = h, Ports = ports\<rparr>]\<rparr>)
      | Address a \<Rightarrow> (None, pin h ports a s)
      | Name n \<Rightarrow>
          (case lookup n of
             None \<Rightarrow> (Some ErrResolve, s)
           | Some addrs \<Rightarrow>
               let s = fold (\<lambda>a. pin h ports (Unmap a)) (filter (\<lambda>a. a \<noteq> NoAddr) addrs) s
               in (if Rules s = [] then Some ErrNoAddresses else None, s)))"

fun first_public :: "rule list \<Rightarrow> scope_error option" where
  "first_public [] = None"
| "first_public (r # rs) =
     (if isPublic (fst (Prefix r)) then Some (ErrPublicScope r)
      else if isPublic (lastAddr (Prefix r)) then Some (ErrPublicScope r)
      else first_public rs)"

definition Scope_Validate :: "bool \<Rightarrow> scope \<Rightarrow> scope_error option" where
  "Scope_Validate remote s =
     (if remote \<and> Rules s = [] then Some ErrNoScope
      else if AcknowledgePublic s then None
      else first_public (Rules s))"

definition portAllowed :: "rule \<Rightarrow> 16 word \<Rightarrow> bool" where
  "portAllowed r port = (Ports r = [] \<or> (\<exists>q \<in> set (Ports r). PortRange_Contains q port))"

definition scope_record :: "bool \<Rightarrow> audit_detail \<Rightarrow> scope \<Rightarrow> scope" where
  "scope_record allowed d s =
     (let s = (if allowed then s\<lparr>allows := allows s + 1\<rparr> else s\<lparr>denies := denies s + 1\<rparr>)
      in if \<not> Audited s then s
         else if allowed \<and> \<not> AuditAllows s then s
         else s\<lparr>offered := offered s @ [d]\<rparr>)"

fun matching_rule :: "rule list \<Rightarrow> addr \<Rightarrow> 16 word \<Rightarrow> rule option" where
  "matching_rule [] ip port = None"
| "matching_rule (r # rs) ip port =
     (if \<not> Prefix_Contains (Prefix r) ip then matching_rule rs ip port
      else if \<not> portAllowed r port then matching_rule rs ip port
      else Some r)"

definition Check :: "addr \<Rightarrow> 16 word \<Rightarrow> scope \<Rightarrow> scope_error option \<times> scope" where
  "Check a port s =
     (let ip = Unmap a
      in if AllowLoopback s \<and> IsLoopback ip then (None, scope_record True (PermittedLoopback a port) s)
         else (case matching_rule (Rules s) ip port of
            Some r \<Rightarrow> (None, scope_record True (Permitted a port (Host r)) s)
          | None \<Rightarrow> (Some ErrOutOfScope, scope_record False (Denied a port) s)))"

text \<open>A destination as \<open>SplitHostPort\<close>, \<open>ParseUint\<close> and \<open>ParseAddr\<close> read it.\<close>

datatype destination = NoHostPort | NoPort | To_addr addr "16 word" | To_name string "16 word"

fun check_all :: "addr list \<Rightarrow> 16 word \<Rightarrow> scope \<Rightarrow> scope_error option \<times> scope" where
  "check_all [] port s = (None, s)"
| "check_all (a # as) port s =
     (case Check (Unmap a) port s of
        (Some e, s) \<Rightarrow> (Some e, s)
      | (None, s) \<Rightarrow> check_all as port s)"

definition isLocalNetwork :: "string \<Rightarrow> bool" where
  "isLocalNetwork network \<longleftrightarrow> network = ''unix'' \<or> network = ''unixgram'' \<or> network = ''unixpacket''"

definition CheckAddr :: "resolver \<Rightarrow> string \<Rightarrow> destination \<Rightarrow> scope \<Rightarrow> scope_error option \<times> scope" where
  "CheckAddr lookup network d s =
     (if isLocalNetwork network then (None, scope_record True PermittedLocal s)
      else (case d of
         NoHostPort \<Rightarrow> (Some ErrHostPort, s)
       | NoPort \<Rightarrow> (Some ErrPort, s)
       | To_addr a port \<Rightarrow> Check (Unmap a) port s
       | To_name n port \<Rightarrow>
           (case lookup n of
              None \<Rightarrow> (Some ErrResolve, s)
            | Some addrs \<Rightarrow> if addrs = [] then (Some ErrNoAddresses, s) else check_all addrs port s)))"

text \<open>What the dialer of the standard library connects to when it is given a destination: it resolves a name itself.\<close>

fun dialled :: "resolver \<Rightarrow> destination \<Rightarrow> (addr \<times> 16 word) list" where
  "dialled lookup (To_addr a port) = [(a, port)]"
| "dialled lookup (To_name n port) = (case lookup n of None \<Rightarrow> [] | Some addrs \<Rightarrow> map (\<lambda>a. (a, port)) addrs)"
| "dialled lookup _ = []"

text \<open>\<open>Dial\<close>: the check, with the resolver's answer then, and the dialer, with its answer later.\<close>

definition Dial :: "resolver \<Rightarrow> resolver \<Rightarrow> string \<Rightarrow> destination \<Rightarrow> scope \<Rightarrow>
    (scope_error + (addr \<times> 16 word) list) \<times> scope" where
  "Dial lookup later network d s =
     (case CheckAddr lookup network d s of
        (Some e, s) \<Rightarrow> (Inl e, s)
      | (None, s) \<Rightarrow> (Inr (if isLocalNetwork network then [] else dialled later d), s))"

definition DialControl :: "destination \<Rightarrow> scope \<Rightarrow> (scope_error + (addr \<times> 16 word) list) \<times> scope" where
  "DialControl d s =
     (case d of
        NoHostPort \<Rightarrow> (Inl ErrHostPort, s)
      | NoPort \<Rightarrow> (Inl ErrPort, s)
      | To_name n port \<Rightarrow> (Inl ErrControlName, s)
      | To_addr a port \<Rightarrow>
          if \<not> IsLoopback (Unmap a) then (Inl ErrOutOfScope, s)
          else (Inr [(a, port)], scope_record True (PermittedHarness (Unmap a) port) s))"

record scope_spec =
  Loopback :: "bool option"
  Acknowledge :: bool
  Allowlist :: "(host \<times> port_range list) list"

fun allow_entries :: "resolver \<Rightarrow> (host \<times> port_range list) list \<Rightarrow> scope \<Rightarrow> scope_error option \<times> scope" where
  "allow_entries lookup [] s = (None, s)"
| "allow_entries lookup ((h, ports) # es) s =
     (case Allow lookup h ports s of (Some e, s) \<Rightarrow> (Some e, s) | (None, s) \<Rightarrow> allow_entries lookup es s)"

definition NewScopeFrom :: "resolver \<Rightarrow> scope_spec \<Rightarrow> bool \<Rightarrow> scope_error + scope" where
  "NewScopeFrom lookup spec auditor =
     (let s = NewScope\<lparr>Audited := auditor, AllowLoopback := (case Loopback spec of None \<Rightarrow> True | Some l \<Rightarrow> l),
                AcknowledgePublic := Acknowledge spec\<rparr>
      in case allow_entries lookup (Allowlist spec) s of (Some e, _) \<Rightarrow> Inl e | (None, s) \<Rightarrow> Inr s)"

section \<open>Which IPv4 addresses are public\<close>

text \<open>The blocks that are not, each as the number of its host bits and the value of the others.\<close>

definition reserved_blocks :: "(int \<times> nat) list" where
  "reserved_blocks = [
     (0, 0), (10, 24), (401, 22), (127, 24), (43518, 16), (2753, 20), (12582912, 8), (12582914, 8), (49320, 16),
     (25353, 17), (12989284, 8), (13303921, 8), (7, 29)]"

definition reserved :: "int \<Rightarrow> bool" where
  "reserved n \<longleftrightarrow> (\<exists>(c, j) \<in> set reserved_blocks. n div 2 ^ j = c)"

lemma uint_byte_at: "uint (ucast (drop_bit k w) :: byte) = uint (w :: 32 word) div 2 ^ k mod 256"
proof -
  have "uint w mod 2 ^ 32 = uint w" using uint_lt2p [of w] by (intro mod_pos_pos_trivial) simp_all
  then show ?thesis unfolding unsigned_ucast_eq unsigned_drop_bit_eq by (simp add: take_bit_eq_mod drop_bit_eq_div)
qed

lemma octet_values:
  "uint (octet 0 w) = uint w div 2 ^ 24" "uint (octet 1 w) = uint w div 2 ^ 16 mod 256" "uint (octet 2 w) = uint w div 2 ^ 8 mod 256"
proof -
  have "uint w < 2 ^ LENGTH(32)" by (rule uint_lt2p)
  then have "uint w div 2 ^ 24 < 256" by simp
  then have "uint w div 2 ^ 24 mod 256 = uint w div 2 ^ 24"
    by (intro mod_pos_pos_trivial) (simp_all add: pos_imp_zdiv_nonneg_iff)
  then show "uint (octet 0 w) = uint w div 2 ^ 24" unfolding octet_def uint_byte_at by simp
  show "uint (octet 1 w) = uint w div 2 ^ 16 mod 256" "uint (octet 2 w) = uint w div 2 ^ 8 mod 256"
    unfolding octet_def uint_byte_at by simp_all
qed

lemma high_nibble: "uint (b AND 0xF0) = uint (b :: byte) div 16 * 16"
proof -
  have "b AND 0xF0 = push_bit 4 (drop_bit 4 b)"
  proof (rule bit_word_eqI)
    fix n assume "n < LENGTH(8)"
    then have "n \<in> {0, 1, 2, 3, 4, 5, 6, 7}" by auto
    then show "bit (b AND 0xF0) n = bit (push_bit 4 (drop_bit 4 b)) n"
      by (auto simp: bit_simps)
  qed
  then have "uint (b AND 0xF0) = uint (push_bit 4 (drop_bit 4 b))" by (rule arg_cong)
  moreover have "uint b mod 256 = uint b" using uint_lt2p [of b] by (intro mod_pos_pos_trivial) simp_all
  ultimately have "uint (b AND 0xF0) = uint b div 16 * 16 mod 256"
    unfolding unsigned_push_bit_eq unsigned_drop_bit_eq by (simp add: push_bit_eq_mult drop_bit_eq_div take_bit_eq_mod)
  moreover have "0 \<le> uint b" "uint b < 256" using uint_lt2p [of b] by simp_all
  moreover have "x div 16 * 16 mod 256 = x div 16 * 16" if "0 \<le> x" "x < 256" for x :: int
    using that div_mult_mod_eq [of x 16] pos_mod_sign [of 16 x] by (intro mod_pos_pos_trivial) (simp_all add: pos_imp_zdiv_nonneg_iff)
  ultimately show ?thesis by simp
qed

lemma two_digits:
  fixes a b x y k :: int
  assumes "0 \<le> b" "b < k" "0 \<le> y" "y < k"
  shows "k * a + b = k * x + y \<longleftrightarrow> a = x \<and> b = y"
proof -
  have "(k * a + b) div k = a" "(k * a + b) mod k = b" "(k * x + y) div k = x" "(k * x + y) mod k = y"
    using assms by (simp_all add: div_pos_pos_trivial mod_pos_pos_trivial)
  then show ?thesis by metis
qed

lemma isPublic_IP4: "isPublic (IP4 w) \<longleftrightarrow> \<not> reserved (uint w)"
proof -
  obtain n a b c where n: "n = uint w" "a = n div 2 ^ 24" "b = n div 2 ^ 16 mod 256" "c = n div 2 ^ 8 mod 256" by blast
  note o = octet_values [of w, folded n(1), folded n(2-4)]
  have "0 \<le> n" "n < 2 ^ 32" using uint_lt2p [of w] by (simp_all add: n(1))
  then have ab: "0 \<le> a" "a < 256" "0 \<le> b" "b < 256" "0 \<le> c" "c < 256" by (simp_all add: n pos_imp_zdiv_nonneg_iff)
  obtain m8 m16 where m: "m8 = n div 2 ^ 8" "m16 = m8 div 2 ^ 8" by blast
  have q: "n div 2 ^ 16 = m16" "n div 2 ^ 24 = m16 div 256" "n div 2 ^ 22 = m16 div 64" "n div 2 ^ 20 = m16 div 16"
      "n div 2 ^ 17 = m16 div 2" "n div 2 ^ 29 = m16 div 256 div 32"
    by (simp_all add: m flip: zdiv_zmult2_eq)
  have abc: "a = m16 div 256" "b = m16 mod 256" "c = m8 mod 256" "m16 = m8 div 256" by (simp_all only: n(2-4) q(1,2) m) simp
  have m16: "m16 = 256 * a + b" using abc(1,2) by simp
  have "m8 = 256 * m16 + c" using abc(3,4) by simp
  then have h: "n div 2 ^ 16 = 256 * a + b" "n div 2 ^ 8 = 65536 * a + 256 * b + c" using m16 q(1) m(1) by simp_all
  have "m16 = b + 4 * a * 64" "m16 = b + 16 * a * 16" "m16 = b + 128 * a * 2" using m16 by simp_all
  then have d: "n div 2 ^ 22 = 4 * a + b div 64" "n div 2 ^ 20 = 16 * a + b div 16" "n div 2 ^ 17 = 128 * a + b div 2" "n div 2 ^ 29 = a div 32"
    using q(3-6) abc(1) by (metis div_mult_self1 zero_neq_numeral add.commute)+
  have eqs: "n div 2 ^ 22 = 401 \<longleftrightarrow> a = 100 \<and> 64 \<le> b \<and> b < 128" "n div 2 ^ 16 = 43518 \<longleftrightarrow> a = 169 \<and> b = 254"
      "n div 2 ^ 20 = 2753 \<longleftrightarrow> a = 172 \<and> b div 16 * 16 = 16" "n div 2 ^ 8 = 12582912 \<longleftrightarrow> a = 192 \<and> b = 0 \<and> c = 0"
      "n div 2 ^ 8 = 12582914 \<longleftrightarrow> a = 192 \<and> b = 0 \<and> c = 2" "n div 2 ^ 16 = 49320 \<longleftrightarrow> a = 192 \<and> b = 168"
      "n div 2 ^ 17 = 25353 \<longleftrightarrow> a = 198 \<and> (b = 18 \<or> b = 19)" "n div 2 ^ 8 = 12989284 \<longleftrightarrow> a = 198 \<and> b = 51 \<and> c = 100"
      "n div 2 ^ 8 = 13303921 \<longleftrightarrow> a = 203 \<and> b = 0 \<and> c = 113" "n div 2 ^ 29 = 7 \<longleftrightarrow> a div 16 * 16 = 224 \<or> 240 \<le> a"
  proof -
    have three: "65536 * a + 256 * b + c = 65536 * x + 256 * y + z \<longleftrightarrow> a = x \<and> b = y \<and> c = z"
      if "0 \<le> y" "y < 256" "0 \<le> z" "z < 256" for x y z
      using two_digits [of c 256 z "256 * a + b" "256 * x + y"] two_digits [of b 256 y a x] that ab by (simp add: algebra_simps)
    have two: "256 * a + b = 256 * x + y \<longleftrightarrow> a = x \<and> b = y" if "0 \<le> y" "y < 256" for x y
      using two_digits [of b 256 y a x] that ab by simp
    have b: "0 \<le> b div 64" "b div 64 < 4" "0 \<le> b div 16" "b div 16 < 16" "0 \<le> b div 2" "b div 2 < 128" using ab by presburger+
    show "n div 2 ^ 22 = 401 \<longleftrightarrow> a = 100 \<and> 64 \<le> b \<and> b < 128"
      using two_digits [of "b div 64" 4 1 a 100] b unfolding d by auto
    show "n div 2 ^ 16 = 43518 \<longleftrightarrow> a = 169 \<and> b = 254" using two [of 254 169] unfolding h by simp
    show "n div 2 ^ 20 = 2753 \<longleftrightarrow> a = 172 \<and> b div 16 * 16 = 16"
      using two_digits [of "b div 16" 16 1 a 172] b unfolding d by auto
    show "n div 2 ^ 8 = 12582912 \<longleftrightarrow> a = 192 \<and> b = 0 \<and> c = 0" using three [of 0 0 192] unfolding h by simp
    show "n div 2 ^ 8 = 12582914 \<longleftrightarrow> a = 192 \<and> b = 0 \<and> c = 2" using three [of 0 2 192] unfolding h by simp
    show "n div 2 ^ 16 = 49320 \<longleftrightarrow> a = 192 \<and> b = 168" using two [of 168 192] unfolding h by simp
    have "b div 2 = 9 \<longleftrightarrow> b = 18 \<or> b = 19" by presburger
    then show "n div 2 ^ 17 = 25353 \<longleftrightarrow> a = 198 \<and> (b = 18 \<or> b = 19)"
      using two_digits [of "b div 2" 128 9 a 198] b unfolding d by auto
    show "n div 2 ^ 8 = 12989284 \<longleftrightarrow> a = 198 \<and> b = 51 \<and> c = 100" using three [of 51 100 198] unfolding h by simp
    show "n div 2 ^ 8 = 13303921 \<longleftrightarrow> a = 203 \<and> b = 0 \<and> c = 113" using three [of 0 113 203] unfolding h by simp
    have "a div 32 = 7 \<longleftrightarrow> 224 \<le> a \<and> a < 256" "a div 16 = 14 \<longleftrightarrow> 224 \<le> a \<and> a < 240" by presburger+
    then show "n div 2 ^ 29 = 7 \<longleftrightarrow> a div 16 * 16 = 224 \<or> 240 \<le> a" using ab(2) unfolding d by auto
  qed
  have r: "reserved n \<longleftrightarrow> n = 0 \<or> a = 10 \<or> n div 2 ^ 22 = 401 \<or> a = 127 \<or> n div 2 ^ 16 = 43518 \<or> n div 2 ^ 20 = 2753 \<or>
      n div 2 ^ 8 = 12582912 \<or> n div 2 ^ 8 = 12582914 \<or> n div 2 ^ 16 = 49320 \<or> n div 2 ^ 17 = 25353 \<or> n div 2 ^ 8 = 12989284 \<or>
      n div 2 ^ 8 = 13303921 \<or> n div 2 ^ 29 = 7"
    by (simp add: reserved_def reserved_blocks_def n(2))
  have z: "w = 0 \<longleftrightarrow> n = 0" by (simp add: n(1) uint_0_iff)
  have e: "octet 0 w = k \<longleftrightarrow> a = uint k" "octet 1 w = k \<longleftrightarrow> b = uint k" "octet 2 w = k \<longleftrightarrow> c = uint k"
      "octet 0 w AND 0xF0 = k \<longleftrightarrow> a div 16 * 16 = uint k" "octet 1 w AND 0xF0 = k \<longleftrightarrow> b div 16 * 16 = uint k"
      "k \<le> octet 0 w \<longleftrightarrow> uint k \<le> a" "k \<le> octet 1 w \<longleftrightarrow> uint k \<le> b" "octet 1 w < k \<longleftrightarrow> b < uint k" for k
    by (simp_all add: word_uint_eq_iff high_nibble o word_le_def word_less_def del: One_nat_def)
  show ?thesis
    unfolding n(1) [symmetric] r eqs isPublic_def
    by (simp add: Let_def e [unfolded One_nat_def] e z) blast
qed

section \<open>What an allowlist that was checked lets through\<close>

lemma set_host_bits_eq: "set_host_bits k w = w OR mask k"
proof -
  have "fold (\<lambda>i w. w OR push_bit i 1) [0..<k] w = w OR mask k" for k
    by (induction k) (simp_all add: mask_Suc_exp or.assoc or.left_commute or.commute push_bit_eq_mult)
  then show ?thesis by (simp add: set_host_bits_def)
qed

lemma uint_small: "uint (w :: 32 word) mod 2 ^ 32 = uint w"
  using uint_lt2p [of w] by (intro mod_pos_pos_trivial) simp_all

lemma top_bits: "uint (drop_bit k (w :: 32 word)) = uint w div 2 ^ k"
  unfolding unsigned_drop_bit_eq using uint_small [of w] by (simp add: take_bit_eq_mod drop_bit_eq_div)

lemma low_bits: "uint (take_bit k (w :: 32 word)) = uint w mod 2 ^ k"
  unfolding unsigned_take_bit_eq by (simp add: take_bit_eq_mod)

lemma uint_mask: "k \<le> 32 \<Longrightarrow> uint (mask k :: 32 word) = 2 ^ k - 1"
proof -
  assume "k \<le> 32"
  have "uint (mask k :: 32 word) = uint (take_bit k (- 1 :: 32 word))" by (simp add: take_bit_minus_one_eq_mask)
  also have "\<dots> = mask (min k LENGTH(32))"
    unfolding unsigned_take_bit_eq unsigned_minus_1_eq_mask take_bit_of_mask by (rule refl)
  also have "\<dots> = 2 ^ k - 1" using \<open>k \<le> 32\<close> by (simp add: min_def mask_eq_exp_minus_1)
  finally show ?thesis .
qed

lemma xor_zero: "x XOR y = 0 \<longleftrightarrow> x = (y :: 32 word)"
proof
  assume "x XOR y = 0"
  then have "(x XOR y) XOR y = y" by simp
  then show "x = y" by (simp add: xor.assoc)
qed simp

text \<open>The first and last address of a prefix, and its members, in numbers.\<close>

lemma prefix_numbers:
  fixes v w :: "32 word"
  assumes "k \<le> 32" "w = w AND NOT (mask k)"
  shows "uint w mod 2 ^ k = 0" "uint (set_host_bits k w) = uint w + 2 ^ k - 1"
    "drop_bit k (v XOR w) = 0 \<longleftrightarrow> uint v div 2 ^ k = uint w div 2 ^ k"
proof -
  have "take_bit k w = take_bit k (w AND NOT (mask k))" using assms(2) by simp
  also have "\<dots> = 0" by (rule bit_word_eqI) (auto simp: bit_simps)
  finally show m: "uint w mod 2 ^ k = 0" using low_bits [of k w] by simp
  let ?L = "w OR mask k"
  have "take_bit k ?L = mask k" "drop_bit k ?L = drop_bit k w" by (rule bit_word_eqI, auto simp: bit_simps)+
  then have "uint ?L mod 2 ^ k = 2 ^ k - 1" "uint ?L div 2 ^ k = uint w div 2 ^ k"
    using low_bits [of k ?L] top_bits [of k ?L] top_bits [of k w] uint_mask [OF assms(1)] by simp_all
  then show "uint (set_host_bits k w) = uint w + 2 ^ k - 1"
    using div_mult_mod_eq [of "uint ?L" "2 ^ k"] div_mult_mod_eq [of "uint w" "2 ^ k"] m by (simp add: set_host_bits_eq)
  have "drop_bit k (v XOR w) = 0 \<longleftrightarrow> drop_bit k v = drop_bit k w" unfolding drop_bit_xor by (rule xor_zero)
  then show "drop_bit k (v XOR w) = 0 \<longleftrightarrow> uint v div 2 ^ k = uint w div 2 ^ k"
    by (simp only: word_uint_eq_iff top_bits)
qed

lemma no_gap:
  "\<forall>(c, i) \<in> set reserved_blocks. \<forall>(d, j) \<in> set reserved_blocks. \<forall>k \<in> set [0..<30].
     i < k \<and> j < k \<and> c * 2 ^ i mod 2 ^ k = 0 \<longrightarrow> c * 2 ^ i + 2 ^ k \<noteq> (d + 1) * 2 ^ j"
  by code_simp

lemma reserved_span:
  assumes "k < 30" "f mod 2 ^ k = 0" "0 \<le> f" "reserved f" "reserved (f + 2 ^ k - 1)" "n div 2 ^ k = f div 2 ^ k"
  shows "reserved n"
proof -
  obtain c i d j where c: "(c, i) \<in> set reserved_blocks" "f div 2 ^ i = c"
    and d: "(d, j) \<in> set reserved_blocks" "(f + 2 ^ k - 1) div 2 ^ j = d" using assms(4,5) unfolding reserved_def by auto
  obtain q where q: "f = 2 ^ k * q" using assms(2) by auto
  have last: "(f + 2 ^ k - 1) div 2 ^ k = q"
    using q div_mult_self3 [of "2 ^ k" q "2 ^ k - 1 :: int"] by (simp add: add.commute mult.commute div_pos_pos_trivial algebra_simps)
  have inside: "x div 2 ^ m = y div 2 ^ m" if "k \<le> m" "x div 2 ^ k = y div 2 ^ k" for x y :: int and m
  proof -
    have "z div 2 ^ m = z div 2 ^ k div 2 ^ (m - k)" for z :: int
      using that(1) by (simp flip: zdiv_zmult2_eq power_add)
    then show ?thesis using that(2) by simp
  qed
  consider "k \<le> i" | "k \<le> j" | "i < k" "j < k" by linarith
  then show ?thesis
  proof cases
    case 1
    then have "n div 2 ^ i = c" using inside [of i n f] assms(6) c(2) by simp
    then show ?thesis using c(1) unfolding reserved_def by blast
  next
    case 2
    then have "n div 2 ^ j = d" using inside [of j n "f + 2 ^ k - 1"] assms(6) last q d(2) by simp
    then show ?thesis using d(1) unfolding reserved_def by blast
  next
    case 3
    have "2 ^ k = (2 :: int) ^ i * 2 ^ (k - i)" "2 ^ k = (2 :: int) ^ j * 2 ^ (k - j)" using 3 by (simp_all flip: power_add)
    then have "f mod 2 ^ i = 0" "(f + 2 ^ k) mod 2 ^ j = 0" using q by (metis mod_mult_self1_is_0 mult.assoc, metis distrib_left mod_mult_self1_is_0 mult.assoc)
    then have cf: "c * 2 ^ i = f" using c(2) by auto
    have "(d + 1) * 2 ^ j = f + 2 ^ k"
    proof -
      obtain r where r: "f + 2 ^ k = 2 ^ j * r" using \<open>(f + 2 ^ k) mod 2 ^ j = 0\<close> by auto
      have "(2 ^ j * r - 1) div 2 ^ j = (2 ^ j * (r - 1) + (2 ^ j - 1)) div (2 ^ j :: int)" by (simp add: algebra_simps)
      also have "\<dots> = r - 1" by (simp add: div_pos_pos_trivial)
      finally show ?thesis using r d(2) by (simp add: mult.commute)
    qed
    moreover have "c * 2 ^ i mod 2 ^ k = 0" using cf assms(2) by simp
    ultimately show ?thesis using no_gap c(1) d(1) cf assms(1) 3 by fastforce
  qed
qed

section \<open>Authorization\<close>

text \<open>
  What a summary says. The text of a network is \<open>netip.Prefix.String\<close>, a
  parameter; that of a number is the decimal the format verb writes.
\<close>

fun dec_text :: "nat \<Rightarrow> string" where
  "dec_text n = (if n < 10 then [char_of (48 + n)] else dec_text (n div 10) @ [char_of (48 + n mod 10)])"

declare dec_text.simps [simp del]

definition PortRange_String :: "port_range \<Rightarrow> string" where
  "PortRange_String p =
     (if Lo p = Hi p then dec_text (unat (Lo p))
      else dec_text (unat (Lo p)) @ ''-'' @ dec_text (unat (Hi p)))"

definition Allowed :: "(prefix \<Rightarrow> string) \<Rightarrow> scope \<Rightarrow> string list" where
  "Allowed show_prefix s =
     sort (map (\<lambda>r. show_prefix (Prefix r) @
       (if Ports r = [] then [] else '':'' @ join_with '','' (map PortRange_String (Ports r)))) (Rules s))"

definition Scope_Summary :: "(prefix \<Rightarrow> string) \<Rightarrow> scope \<Rightarrow> string" where
  "Scope_Summary show_prefix s =
     (let parts = Allowed show_prefix s @ (if AllowLoopback s then [''loopback''] else [])
      in if parts = [] then ''nothing'' else join_with '', '' (sort parts))"

record authorization =
  Operator :: string
  Reference :: string
  Attestation :: string
  Recorded :: "int option" \<comment> \<open>\<open>None\<close> is the zero time\<close>
  ScopeSummary :: string

datatype auth_error = Refused scope_error | ErrNoAuthorization | ErrMissing "string list" | ErrNoAuditor | ErrAudit

definition Authorization_Validate :: "int \<Rightarrow> authorization \<Rightarrow> auth_error option \<times> authorization" where
  "Authorization_Validate now a =
     (let missing = (if TrimSpace (Operator a) = [] then [''operator''] else []) @
                    (if TrimSpace (Reference a) = [] then [''reference''] else []) @
                    (if TrimSpace (Attestation a) = [] then [''attestation''] else [])
      in if missing \<noteq> [] then (Some (ErrMissing missing), a)
         else (None, if Recorded a = None then a\<lparr>Recorded := Some now\<rparr> else a))"

text \<open>
  \<open>Digest\<close>: the first sixteen digits of a hash of the fields, each after its
  length, and of the time. The hash (SHA-256 in hexadecimal) is a parameter. It
  is only taken of a record whose time is set.
\<close>

definition int_text :: "int \<Rightarrow> string" where
  "int_text n = (if n < 0 then ''-'' else []) @ dec_text (nat (abs n))"

definition Digest :: "(string \<Rightarrow> string) \<Rightarrow> authorization \<Rightarrow> string" where
  "Digest sha a =
     take 16 (sha (concat (map (\<lambda>f. dec_text (length f) @ '':'' @ f) [Operator a, Reference a, Attestation a, ScopeSummary a]) @
       int_text (case Recorded a of None \<Rightarrow> 0 | Some t \<Rightarrow> t)))"

text \<open>What the audit log is given: the operator as the actor, and the reference, the digest and the
  allowlist as the detail. The attestation is not in it.\<close>

record notice =
  noticeActor :: string
  noticeReference :: string
  noticeDigest :: string
  noticeScope :: string

definition authz_notice :: "(string \<Rightarrow> string) \<Rightarrow> authorization \<Rightarrow> notice" where
  "authz_notice sha a = \<lparr>noticeActor = Operator a, noticeReference = Reference a, noticeDigest = Digest sha a,
     noticeScope = ScopeSummary a\<rparr>"

text \<open>The auditor, when there is one, takes the notice or refuses it; the last component is what it was given.\<close>

definition Authorize :: "(prefix \<Rightarrow> string) \<Rightarrow> (string \<Rightarrow> string) \<Rightarrow> int \<Rightarrow> (notice \<Rightarrow> bool) option \<Rightarrow> scope option \<Rightarrow>
    authorization option \<Rightarrow> bool \<Rightarrow> auth_error option \<times> authorization option \<times> notice list" where
  "Authorize show_prefix sha now auditor sc auth remote =
     (let s = (case sc of None \<Rightarrow> NewScope | Some s \<Rightarrow> s)
      in case Scope_Validate remote s of
           Some e \<Rightarrow> (Some (Refused e), auth, [])
         | None \<Rightarrow>
             if \<not> remote then (None, auth, [])
             else (case auth of
                None \<Rightarrow> (Some ErrNoAuthorization, None, [])
              | Some a \<Rightarrow>
                  (case Authorization_Validate now (a\<lparr>ScopeSummary := Scope_Summary show_prefix s\<rparr>) of
                     (Some e, a) \<Rightarrow> (Some e, Some a, [])
                   | (None, a) \<Rightarrow>
                       (case auditor of
                          None \<Rightarrow> (Some ErrNoAuditor, Some a, [])
                        | Some audit \<Rightarrow>
                            (if audit (authz_notice sha a) then None else Some ErrAudit, Some a, [authz_notice sha a])))))"

section \<open>What the guard guarantees\<close>

lemma matching_rule_Some:
  "(\<exists>r. matching_rule rs ip port = Some r) \<longleftrightarrow> (\<exists>r \<in> set rs. Prefix_Contains (Prefix r) ip \<and> portAllowed r port)"
  by (induction rs) auto

definition in_scope :: "scope \<Rightarrow> addr \<Rightarrow> 16 word \<Rightarrow> bool" where
  "in_scope s a port \<longleftrightarrow> AllowLoopback s \<and> IsLoopback (Unmap a) \<or>
     (\<exists>r \<in> set (Rules s). Prefix_Contains (Prefix r) (Unmap a) \<and> portAllowed r port)"

lemma scope_record_frame [simp]:
  "Rules (scope_record b d s) = Rules s" "AllowLoopback (scope_record b d s) = AllowLoopback s"
  by (simp_all add: scope_record_def Let_def)

lemma Check_in_scope: "fst (Check a port s) = None \<longleftrightarrow> in_scope s a port"
  unfolding Check_def in_scope_def Let_def
  using matching_rule_Some [of "Rules s" "Unmap a" port] by (auto split: option.split)

lemma Check_frame: "Rules (snd (Check a port s)) = Rules s" "AllowLoopback (snd (Check a port s)) = AllowLoopback s"
  by (simp_all add: Check_def Let_def split: option.split)

lemma in_scope_frame: "in_scope (snd (Check a port s)) b q = in_scope s b q"
  by (simp add: in_scope_def Check_frame)

lemma Unmap_Unmap [simp]: "Unmap (Unmap a) = Unmap a"
  by (cases a) auto

lemma in_scope_Unmap [simp]: "in_scope s (Unmap a) port = in_scope s a port"
  by (simp add: in_scope_def)

lemma check_all_in_scope: "fst (check_all as port s) = None \<Longrightarrow> a \<in> set as \<Longrightarrow> in_scope s a port"
proof (induction as arbitrary: s)
  case (Cons b bs)
  obtain e s' where c: "Check (Unmap b) port s = (e, s')" by fastforce
  then have "e = None" using Cons.prems(1) by (cases e) simp_all
  then have b: "in_scope s b port" using c Check_in_scope [of "Unmap b" port s] by simp
  have "fst (check_all bs port s') = None" using Cons.prems(1) c \<open>e = None\<close> by simp
  then have "in_scope s' a port" if "a \<in> set bs" using that by (rule Cons.IH)
  then show ?case using Cons.prems(2) b in_scope_frame [of "Unmap b" port s a port] c by auto
qed simp

lemma CheckAddr_in_scope:
  assumes "fst (CheckAddr lookup network d s) = None" "\<not> isLocalNetwork network" "(a, port) \<in> set (dialled lookup d)"
  shows "in_scope s a port"
proof (cases d)
  case (To_addr b q)
  then show ?thesis using assms Check_in_scope [of "Unmap b" q s] by (simp add: CheckAddr_def)
next
  case (To_name n q)
  then show ?thesis using assms check_all_in_scope [of _ q s a]
    by (auto simp: CheckAddr_def split: option.splits if_splits)
qed (use assms in auto)

text \<open>A destination is let through exactly when it is loopback and loopback is allowed, or a rule covers its
  address and port; every decision is counted once, and with an auditor every refusal is offered to it.\<close>

lemma Check_decides:
  "(fst (Check a port s) = None \<longleftrightarrow>
      AllowLoopback s \<and> IsLoopback (Unmap a) \<or> (\<exists>r \<in> set (Rules s). Prefix_Contains (Prefix r) (Unmap a) \<and> portAllowed r port)) \<and>
   allows (snd (Check a port s)) = allows s + (if fst (Check a port s) = None then 1 else 0) \<and>
   denies (snd (Check a port s)) = denies s + (if fst (Check a port s) = None then 0 else 1) \<and>
   filter (\<lambda>d. d = Denied a port) (offered (snd (Check a port s))) =
     filter (\<lambda>d. d = Denied a port) (offered s) @ (if Audited s \<and> fst (Check a port s) \<noteq> None then [Denied a port] else [])"
proof -
  have "fst (Check a port s) = None \<longleftrightarrow> in_scope s a port" by (rule Check_in_scope)
  moreover have "allows (snd (Check a port s)) = allows s + (if fst (Check a port s) = None then 1 else 0)"
    "denies (snd (Check a port s)) = denies s + (if fst (Check a port s) = None then 0 else 1)"
    "filter (\<lambda>d. d = Denied a port) (offered (snd (Check a port s))) =
       filter (\<lambda>d. d = Denied a port) (offered s) @ (if Audited s \<and> fst (Check a port s) \<noteq> None then [Denied a port] else [])"
    by (simp_all add: Check_def scope_record_def Let_def split: option.split)
  ultimately show ?thesis unfolding in_scope_def by simp
qed

text \<open>Every address \<open>Dial\<close> gives the dialer is in scope, when the name it was given still resolves as it did when
  it was checked.\<close>

lemma Dial_in_scope:
  assumes "Dial lookup later network d s = (Inr targets, s')" and "\<forall>n. later n = lookup n"
  shows "\<forall>(a, port) \<in> set targets. AllowLoopback s \<and> IsLoopback (Unmap a) \<or>
    (\<exists>r \<in> set (Rules s). Prefix_Contains (Prefix r) (Unmap a) \<and> portAllowed r port)"
proof -
  have "later = lookup" using assms(2) by blast
  have c: "fst (CheckAddr lookup network d s) = None" and t: "targets = (if isLocalNetwork network then [] else dialled lookup d)"
    using assms(1) \<open>later = lookup\<close> by (auto simp: Dial_def split: prod.splits option.splits)
  have "in_scope s a port" if "(a, port) \<in> set targets" for a port
    using that c t by (intro CheckAddr_in_scope) (auto split: if_splits)
  then show ?thesis unfolding in_scope_def by blast
qed

definition ex_local :: resolver where "ex_local = (\<lambda>n. Some [IP4 0x7F000001])"
definition ex_remote :: resolver where "ex_remote = (\<lambda>n. Some [IP4 0x5DB8D822])"

text \<open>The check and the dialer look a name up separately. A name that is loopback when it is checked and
  something else a moment later is dialled where the guard refuses to go.
\<close>

lemma Dial_rebinding:
  "fst (Dial ex_local ex_remote ''tcp'' (To_name ''a.test'' 80) NewScope) = Inr [(IP4 0x5DB8D822, 80)] \<and>
   fst (Check (IP4 0x5DB8D822) 80 NewScope) = Some ErrOutOfScope"
  by (rule conjI; code_simp)

lemma Dial_in_scope_witness:
  "\<forall>(a, port) \<in> set [(IP4 0x7F000001, 80 :: 16 word)]. AllowLoopback NewScope \<and> IsLoopback (Unmap a) \<or>
    (\<exists>r \<in> set (Rules NewScope). Prefix_Contains (Prefix r) (Unmap a) \<and> portAllowed r port)"
proof (rule Dial_in_scope)
  show "Dial ex_local ex_local ''tcp'' (To_name ''a.test'' 80) NewScope =
      (Inr [(IP4 0x7F000001, 80)], snd (Dial ex_local ex_local ''tcp'' (To_name ''a.test'' 80) NewScope))"
    by (simp add: Dial_def CheckAddr_def Check_def ex_local_def NewScope_def isLocalNetwork_def octet_def Let_def)
qed simp

section \<open>Public address space\<close>

lemma allow_entries_rules:
  assumes "allow_entries lookup es s = (None, s')" and "r \<in> set (Rules s')"
  shows "r \<in> set (Rules s) \<or> (\<exists>p ports. (Network p, ports) \<in> set es \<and> Prefix r = Masked p) \<or> (\<exists>a. Prefix r = PrefixFrom a (BitLen a))"
  using assms
proof (induction es arbitrary: s)
  case (Cons e es)
  obtain h ports where e: "e = (h, ports)" by fastforce
  obtain t where t: "Allow lookup h ports s = (None, t)" "allow_entries lookup es t = (None, s')"
    using Cons.prems(1) by (auto simp: e split: prod.splits option.splits)
  have fold_rules: "r \<in> set (Rules (fold (\<lambda>a. pin g ports (Unmap a)) as s)) \<Longrightarrow>
      r \<in> set (Rules s) \<or> (\<exists>a. Prefix r = PrefixFrom a (BitLen a))" for g as s
    by (induction as arbitrary: s) (fastforce simp: pin_def)+
  have "r \<in> set (Rules t) \<Longrightarrow> r \<in> set (Rules s) \<or> (\<exists>p. h = Network p \<and> Prefix r = Masked p) \<or> (\<exists>a. Prefix r = PrefixFrom a (BitLen a))"
    using t(1) fold_rules by (auto simp: Allow_def Let_def pin_def [of _ _ _ s] split: host.splits option.splits)
  then show ?case using Cons.IH [OF t(2) Cons.prems(2)] by (auto simp: e)
qed simp

lemma allow_entries_frame: "allow_entries lookup es s = (None, s') \<Longrightarrow> AcknowledgePublic s' = AcknowledgePublic s"
proof (induction es arbitrary: s)
  case (Cons e es)
  obtain h ports where e: "e = (h, ports)" by fastforce
  obtain t where t: "Allow lookup h ports s = (None, t)" "allow_entries lookup es t = (None, s')"
    using Cons.prems(1) by (auto simp: e split: prod.splits option.splits)
  have "AcknowledgePublic (fold (\<lambda>a. pin g ports (Unmap a)) as s) = AcknowledgePublic s" for g as s
    by (induction as arbitrary: s) (auto simp: pin_def)
  then have "AcknowledgePublic t = AcknowledgePublic s" using t(1)
    by (auto simp: Allow_def Let_def pin_def [of _ _ _ s] split: host.splits option.splits)
  then show ?case using Cons.IH [OF t(2)] by simp
qed simp

lemma first_public_None: "first_public rs = None \<Longrightarrow> r \<in> set rs \<Longrightarrow> \<not> isPublic (fst (Prefix r)) \<and> \<not> isPublic (lastAddr (Prefix r))"
  by (induction rs) (auto split: if_splits)

lemma prefix_not_public:
  assumes "Prefix_Contains (IP4 w, n) (IP4 v)" "3 \<le> n" "w = w AND NOT (mask (32 - n))" "\<not> isPublic (IP4 w)" "\<not> isPublic (lastAddr (IP4 w, n))"
  shows "\<not> isPublic (IP4 v)"
proof -
  obtain k where k: "k = 32 - n" by blast
  have n: "n \<le> 32" and v: "drop_bit k (v XOR w) = 0" using assms(1) by (simp_all add: k)
  have kb: "k \<le> 32" "k < 30" using k n assms(2) by linarith+
  note num = prefix_numbers [OF kb(1), of w] and w = assms(3) [folded k]
  have "reserved (uint w + 2 ^ k - 1)"
  proof (cases "n = 32")
    case True
    then show ?thesis using assms(4) by (simp add: isPublic_IP4 k)
  next
    case False
    then have "lastAddr (IP4 w, n) = IP4 (set_host_bits k w)" using n w by (simp add: k)
    then show ?thesis using assms(5) num(2) w by (simp add: isPublic_IP4)
  qed
  moreover have "uint v div 2 ^ k = uint w div 2 ^ k" using num(3) w v by simp
  moreover have "uint w mod 2 ^ k = 0" using num(1) w by simp
  ultimately have "reserved (uint v)"
    using reserved_span [OF kb(2), of "uint w" "uint v"] assms(4) by (simp add: isPublic_IP4)
  then show ?thesis by (simp add: isPublic_IP4)
qed

text \<open>C29. An allowlist whose networks all fix three bits or more, built without the acknowledgement and accepted by
  \<open>Validate\<close>, lets no public IPv4 address through.\<close>

theorem Validate_keeps_private:
  assumes "NewScopeFrom lookup spec auditor = Inr s" "\<not> Acknowledge spec"
    and "\<forall>(h, ports) \<in> set (Allowlist spec). \<forall>w n. h = Network (IP4 w, n) \<longrightarrow> 3 \<le> n"
    and "Scope_Validate remote s = None" "fst (Check (IP4 v) port s) = None"
  shows "\<not> isPublic (IP4 v)"
proof -
  obtain t where t: "allow_entries lookup (Allowlist spec) t = (None, s)" "Rules t = []" "AcknowledgePublic t = Acknowledge spec"
    using assms(1) by (auto simp: NewScopeFrom_def NewScope_def Let_def split: prod.splits option.splits)
  have v: "first_public (Rules s) = None" using assms(2,4) allow_entries_frame [OF t(1)] t(3)
    by (auto simp: Scope_Validate_def split: if_splits)
  consider "IsLoopback (IP4 v)" | r where "r \<in> set (Rules s)" "Prefix_Contains (Prefix r) (IP4 v)"
    using assms(5) unfolding Check_in_scope in_scope_def by auto
  then show ?thesis
  proof cases
    case 1
    then show ?thesis by (simp add: isPublic_def)
  next
    case 2
    obtain w n where r: "Prefix r = (IP4 w, n)" using 2(2) by (cases "Prefix r"; cases "fst (Prefix r)") auto
    have nw: "3 \<le> n \<and> w = w AND NOT (mask (32 - n))"
      using allow_entries_rules [OF t(1) 2(1)] t(2)
    proof (elim disjE)
      assume "\<exists>p ports. (Network p, ports) \<in> set (Allowlist spec) \<and> Prefix r = Masked p"
      then obtain p ports where p: "(Network p, ports) \<in> set (Allowlist spec)" "Masked p = (IP4 w, n)" using r by auto
      then obtain u where "p = (IP4 u, n)" "w = u AND NOT (mask (32 - n))" by (cases p rule: Masked.cases) auto
      then show ?thesis using p(1) assms(3) by (fastforce simp: and.assoc)
    next
      assume "\<exists>a. Prefix r = PrefixFrom a (BitLen a)"
      then obtain a where "PrefixFrom a (BitLen a) = (IP4 w, n)" using r by auto
      then show ?thesis by (cases a) auto
    qed simp
    note pf = first_public_None [OF v 2(1), unfolded r fst_conv]
    show ?thesis
      by (rule prefix_not_public [OF 2(2) [unfolded r] conjunct1 [OF nw] conjunct2 [OF nw] conjunct1 [OF pf] conjunct2 [OF pf]])
  qed
qed

definition ex_everywhere :: scope_spec where
  "ex_everywhere = \<lparr>Loopback = None, Acknowledge = False, Allowlist = [(Network (IP4 0, 0), [])]\<rparr>"

text \<open>Three bits are needed. The network \<open>0.0.0.0/0\<close> begins at an unspecified address and ends at a reserved one, so
  it is taken for private: without any acknowledgement the campaign may reach every public address.\<close>

lemma Validate_misses_everywhere:
  "case NewScopeFrom (\<lambda>_. None) ex_everywhere True of
     Inl e \<Rightarrow> False
   | Inr s \<Rightarrow> Scope_Validate True s = None \<and> fst (Check (IP4 0x5DB8D822) 80 s) = None \<and> isPublic (IP4 0x5DB8D822)"
  by code_simp

text \<open>The other two IPv4 prefixes that pass the same way are \<open>0.0.0.0/1\<close> and \<open>192.0.0.0/2\<close>.\<close>

lemma Validate_misses_others:
  "list_all (\<lambda>p. first_public [\<lparr>Prefix = Masked p, Host = Network p, Ports = []\<rparr>] = None)
     [(IP4 0, 1), (IP4 0xC0000000, 2)]"
  by code_simp

theorem Validate_keeps_private_witness: "\<not> isPublic (IP4 0x0A000007)"
proof (rule Validate_keeps_private)
  let ?spec = "\<lparr>Loopback = None, Acknowledge = False, Allowlist = [(Network (IP4 0x0A000001, 8), [])]\<rparr>"
  let ?s = "NewScope\<lparr>Audited := False, AllowLoopback := True, AcknowledgePublic := False,
      Rules := [\<lparr>Prefix = (IP4 0x0A000000, 8), Host = Network (IP4 0x0A000001, 8), Ports = []\<rparr>]\<rparr>"
  show "NewScopeFrom (\<lambda>_. None) ?spec False = Inr ?s" by code_simp
  show "\<not> Acknowledge ?spec" by simp
  show "\<forall>(h, ports) \<in> set (Allowlist ?spec). \<forall>w n. h = Network (IP4 w, n) \<longrightarrow> 3 \<le> n" by simp
  show "Scope_Validate True ?s = None" by code_simp
  show "fst (Check (IP4 0x0A000007) 80 ?s) = None" by code_simp
qed

text \<open>C30. A campaign that leaves the host is authorised only with an allowlist, with a record whose operator, reference
  and attestation say something and whose time is set, and when the auditor has taken that very record
  with the allowlist in it.\<close>

theorem Authorize_remote:
  assumes "Authorize show_prefix sha now auditor sc auth True = (None, auth', given)"
  shows "\<exists>s a audit. sc = Some s \<and> auth' = Some a \<and> auditor = Some audit \<and> Rules s \<noteq> [] \<and> Scope_Validate True s = None \<and>
    given = [\<lparr>noticeActor = Operator a, noticeReference = Reference a, noticeDigest = Digest sha a,
      noticeScope = Scope_Summary show_prefix s\<rparr>] \<and>
    audit (hd given) \<and> ScopeSummary a = Scope_Summary show_prefix s \<and> Recorded a \<noteq> None \<and>
    TrimSpace (Operator a) \<noteq> [] \<and> TrimSpace (Reference a) \<noteq> [] \<and> TrimSpace (Attestation a) \<noteq> []"
proof (cases sc)
  case None
  then show ?thesis using assms by (simp add: Authorize_def Scope_Validate_def NewScope_def Let_def)
next
  case (Some s)
  then have v: "Scope_Validate True s = None" using assms by (auto simp: Authorize_def Let_def split: option.splits)
  then have "Rules s \<noteq> []" by (auto simp: Scope_Validate_def split: if_splits)
  then show ?thesis using assms v
    by (auto simp: Authorize_def Some Authorization_Validate_def authz_notice_def Let_def split: option.splits if_splits prod.splits)
qed

text \<open>A record that is complete, with an allowlist of one private network.\<close>

definition ex_private :: scope where
  "ex_private = NewScope\<lparr>Rules := [\<lparr>Prefix = (IP4 0x0A000000, 8), Host = Network (IP4 0x0A000000, 8),
     Ports = [\<lparr>Lo = 80, Hi = 81\<rparr>]\<rparr>]\<rparr>"

definition ex_show :: "prefix \<Rightarrow> string" where
  "ex_show p = (if p = (IP4 0x0A000000, 8) then ''10.0.0.0/8'' else [])"

definition ex_record :: authorization where
  "ex_record = \<lparr>Operator = ''op'', Reference = ''r1'', Attestation = ''may'', Recorded = None, ScopeSummary = []\<rparr>"

lemma ex_Authorize:
  "Authorize ex_show id 9 (Some (\<lambda>e. noticeActor e = ''op'')) (Some ex_private) (Some ex_record) True =
     (None, Some (ex_record\<lparr>Recorded := Some 9, ScopeSummary := ''10.0.0.0/8:80-81, loopback''\<rparr>),
      [\<lparr>noticeActor = ''op'', noticeReference = ''r1'', noticeDigest = ''2:op2:r13:may26:'',
        noticeScope = ''10.0.0.0/8:80-81, loopback''\<rparr>])"
  by code_simp

theorem Authorize_remote_witness:
  "ScopeSummary (ex_record\<lparr>Recorded := Some 9, ScopeSummary := ''10.0.0.0/8:80-81, loopback''\<rparr>) = Scope_Summary ex_show ex_private"
  using Authorize_remote [OF ex_Authorize] by auto

end
