(* ===== verification/Store_Audit.thy ===== *)
theory Store_Audit
  imports IR_Encode
begin

text \<open>
  The audit log of the store, \<open>internal/store/audit.go\<close>: entries chained by a hash, and the last hash
  mirrored outside the table. The two tables are the state; a database error is a parameter of an append, which
  is one transaction and so leaves the state alone when it fails. SHA-256, as hexadecimal text, is the parameter
  \<open>sha\<close>.
\<close>

section \<open>The log\<close>

record audit_entry =
  ID :: int
  At :: int \<comment> \<open>nanoseconds\<close>
  Actor :: string
  Action :: string
  Detail :: string
  PrevHash :: string
  Hash :: string

text \<open>The table and the value of \<open>audit_head\<close>; a key that is not there reads as the empty string.\<close>

record audit_store =
  entries :: "audit_entry list"
  head :: "string option"

definition empty_store :: audit_store where "empty_store = \<lparr>entries = [], head = None\<rparr>"

definition string_bytes :: "string \<Rightarrow> byte list" where "string_bytes s = map of_char s"

definition put_uint64 :: "int \<Rightarrow> byte list" where "put_uint64 n = le_bytes 8 (word_of_int n)"

definition hash_input :: "audit_entry \<Rightarrow> byte list" where
  "hash_input e = put_uint64 (ID e) @ put_uint64 (At e) @
     concat (map (\<lambda>f. put_uint64 (int (length f)) @ string_bytes f) [Actor e, Action e, Detail e, PrevHash e])"

definition auditHash :: "(byte list \<Rightarrow> string) \<Rightarrow> audit_entry \<Rightarrow> string" where
  "auditHash sha e = sha (hash_input e)"

text \<open>\<open>Audit\<close>: the entry, or \<open>None\<close> when the database refused and the transaction was rolled back.\<close>

definition Audit_append :: "(byte list \<Rightarrow> string) \<Rightarrow> bool \<Rightarrow> int \<Rightarrow> string \<Rightarrow> string \<Rightarrow> string \<Rightarrow> audit_store \<Rightarrow>
    audit_entry option \<times> audit_store" where
  "Audit_append sha refused now actor action detail s =
     (if refused then (None, s)
      else
        let lastID = (if entries s = [] then 0 else ID (last (entries s)));
            prev = (if entries s = [] then [] else Hash (last (entries s)));
            e = \<lparr>ID = lastID + 1, At = now, Actor = actor, Action = action, Detail = detail, PrevHash = prev, Hash = []\<rparr>;
            e = e\<lparr>Hash := auditHash sha e\<rparr>
        in (Some e, s\<lparr>entries := entries s @ [e], head := Some (Hash e)\<rparr>))"

datatype tampering = Removed | Unchained | Altered | Truncated

text \<open>The loop of \<open>VerifyAudit\<close>: the entries verified, and either what is wrong or the hash they end at.\<close>

fun verify_from :: "(byte list \<Rightarrow> string) \<Rightarrow> nat \<Rightarrow> string \<Rightarrow> audit_entry list \<Rightarrow> nat \<times> (tampering + string)" where
  "verify_from sha i prev [] = (i, Inr prev)"
| "verify_from sha i prev (e # es) =
     (if ID e \<noteq> int (i + 1) then (i, Inl Removed)
      else if PrevHash e \<noteq> prev then (i, Inl Unchained)
      else if auditHash sha e \<noteq> Hash e then (i, Inl Altered)
      else verify_from sha (i + 1) (Hash e) es)"

definition VerifyAudit :: "(byte list \<Rightarrow> string) \<Rightarrow> audit_store \<Rightarrow> nat \<times> tampering option" where
  "VerifyAudit sha s =
     (case verify_from sha 0 [] (entries s) of
        (i, Inl w) \<Rightarrow> (i, Some w)
      | (i, Inr prev) \<Rightarrow> (i, if (case head s of None \<Rightarrow> [] | Some h \<Rightarrow> h) \<noteq> prev then Some Truncated else None))"

section \<open>Chains\<close>

text \<open>What it means for a log to be intact, without a loop.\<close>

definition last_hash :: "audit_entry list \<Rightarrow> string" where
  "last_hash es = (if es = [] then [] else Hash (last es))"

definition linked :: "(byte list \<Rightarrow> string) \<Rightarrow> audit_entry list \<Rightarrow> nat \<Rightarrow> bool" where
  "linked sha es i \<longleftrightarrow> ID (es ! i) = int (i + 1) \<and> PrevHash (es ! i) = last_hash (take i es) \<and> Hash (es ! i) = auditHash sha (es ! i)"

definition chain :: "(byte list \<Rightarrow> string) \<Rightarrow> audit_entry list \<Rightarrow> bool" where
  "chain sha es \<longleftrightarrow> (\<forall>i < length es. linked sha es i)"

lemma last_hash_simps [simp]: "last_hash [] = []" "last_hash (es @ [e]) = Hash e"
  by (simp_all add: last_hash_def)

lemma linked_append: "i < length es \<Longrightarrow> linked sha (es @ fs) i = linked sha es i"
  by (simp add: linked_def nth_append)

lemma chain_simps [simp]: "chain sha []" "chain sha (es @ [e]) \<longleftrightarrow> chain sha es \<and> linked sha (es @ [e]) (length es)"
  by (auto simp: chain_def linked_append less_Suc_eq)

lemma chain_snoc:
  "chain sha (es @ [e]) \<longleftrightarrow> chain sha es \<and> ID e = int (length es + 1) \<and> PrevHash e = last_hash es \<and> Hash e = auditHash sha e"
  by (auto simp: linked_def)

lemma chain_take: "chain sha es \<Longrightarrow> chain sha (take n es)"
  using linked_append [of _ "take n es" sha "drop n es"] by (auto simp: chain_def)

text \<open>The loop finds the longest prefix that is a chain.\<close>

lemma verify_from_spec:
  assumes "chain sha ds"
  shows "(\<exists>w k. verify_from sha (length ds) (last_hash ds) es = (length ds + k, Inl w) \<and> k < length es \<and> w \<noteq> Truncated \<and>
        chain sha (ds @ take k es) \<and> \<not> chain sha (ds @ take (Suc k) es)) \<or>
    (verify_from sha (length ds) (last_hash ds) es = (length ds + length es, Inr (last_hash (ds @ es))) \<and> chain sha (ds @ es))"
  using assms
proof (induction es arbitrary: ds)
  case (Cons e es)
  show ?case
  proof (cases "chain sha (ds @ [e])")
    case False
    then have "\<exists>w. verify_from sha (length ds) (last_hash ds) (e # es) = (length ds, Inl w) \<and> w \<noteq> Truncated"
      using Cons.prems unfolding chain_snoc by auto
    then show ?thesis using False Cons.prems by (intro disjI1) (auto intro!: exI [of _ 0])
  next
    case True
    then have "verify_from sha (length ds) (last_hash ds) (e # es) = verify_from sha (length (ds @ [e])) (last_hash (ds @ [e])) es"
      unfolding chain_snoc by simp
    then show ?thesis using Cons.IH [OF True] by (force intro: exI [of _ "Suc _"])
  qed
qed simp

lemma VerifyAudit_intact:
  "VerifyAudit sha s = (n, None) \<longleftrightarrow>
   chain sha (entries s) \<and> n = length (entries s) \<and> (case head s of None \<Rightarrow> [] | Some h \<Rightarrow> h) = last_hash (entries s)"
proof -
  have "chain sha []" by simp
  from verify_from_spec [OF this, of "entries s"] show ?thesis
  proof
    assume "\<exists>w k. verify_from sha (length []) (last_hash []) (entries s) = (length [] + k, Inl w) \<and> k < length (entries s) \<and> w \<noteq> Truncated \<and>
        chain sha ([] @ take k (entries s)) \<and> \<not> chain sha ([] @ take (Suc k) (entries s))"
    then show ?thesis using chain_take [of sha "entries s"] by (auto simp: VerifyAudit_def)
  qed (auto simp: VerifyAudit_def)
qed

section \<open>What the hash covers\<close>

lemma of_char_byte_inj: "of_char c = (of_char d :: byte) \<Longrightarrow> c = d"
proof -
  assume "of_char c = (of_char d :: byte)"
  then have "(word_of_nat (of_char c) :: byte) = word_of_nat (of_char d)" by (simp only: of_nat_of_char)
  moreover have "of_char c < (2 ^ 8 :: nat)" "of_char d < (2 ^ 8 :: nat)" by simp_all
  ultimately have "(of_char c :: nat) = of_char d" by (simp add: word_of_nat_eq_iff take_bit_nat_eq_self)
  then show "c = d" by simp
qed

lemma string_bytes_inj: "string_bytes s = string_bytes t \<Longrightarrow> s = t"
  unfolding string_bytes_def by (rule map_injective) (auto intro: injI of_char_byte_inj)

lemma put_uint64_inj:
  assumes "put_uint64 m = put_uint64 n" and "fits_int m" "fits_int n" shows "m = n"
proof -
  have "int_bytes (word_of_int m) 8 LittleEndian = int_bytes (word_of_int n) 8 LittleEndian"
    using assms(1) by (simp add: put_uint64_def int_bytes_def)
  then have "(word_of_int m :: u64) = word_of_int n" using int_bytes_inject [of "word_of_int m" 8 LittleEndian "word_of_int n"]
      take_bit_length_eq [of "word_of_int m :: u64"] take_bit_length_eq [of "word_of_int n :: u64"] by simp
  then have "to_int64 m = to_int64 n" by (simp add: to_int64_def)
  then show ?thesis using assms(2,3) by simp
qed

lemma length_put_uint64 [simp]: "length (put_uint64 n) = 8"
  by (simp add: put_uint64_def)

definition fields :: "audit_entry \<Rightarrow> string list" where
  "fields e = [Actor e, Action e, Detail e, PrevHash e]"

definition prefixed :: "string \<Rightarrow> byte list" where
  "prefixed f = put_uint64 (int (length f)) @ string_bytes f"

lemma prefixed_inj:
  assumes "prefixed f @ x = prefixed g @ y" and "fits_int (int (length f))" "fits_int (int (length g))"
  shows "f = g \<and> x = y"
proof -
  have "put_uint64 (int (length f)) = put_uint64 (int (length g))" and r: "string_bytes f @ x = string_bytes g @ y"
    using assms(1) by (simp_all add: prefixed_def append_eq_append_conv)
  then have "length f = length g" using put_uint64_inj assms(2,3) by fastforce
  then show ?thesis using r string_bytes_inj [of f g] by (simp add: string_bytes_def)
qed

lemma prefixed_list_inj:
  assumes "length fs = length gs" "concat (map prefixed fs) = concat (map prefixed gs)"
    "\<forall>f \<in> set fs \<union> set gs. fits_int (int (length f))"
  shows "fs = gs"
  using assms
proof (induction fs gs rule: list_induct2)
  case (Cons f fs g gs)
  then have "prefixed f @ concat (map prefixed fs) = prefixed g @ concat (map prefixed gs)" by simp
  then have "f = g \<and> concat (map prefixed fs) = concat (map prefixed gs)" by (rule prefixed_inj) (use Cons.prems in auto)
  then show ?case using Cons.IH Cons.prems(2) by auto
qed simp

definition storable :: "audit_entry \<Rightarrow> bool" where
  "storable e \<longleftrightarrow> fits_int (ID e) \<and> fits_int (At e) \<and> (\<forall>f \<in> set (fields e). fits_int (int (length f)))"

lemma hash_input_inj:
  assumes "hash_input d = hash_input e" "storable d" "storable e"
  shows "ID d = ID e \<and> At d = At e \<and> fields d = fields e"
proof -
  have "put_uint64 (ID d) = put_uint64 (ID e)" "put_uint64 (At d) = put_uint64 (At e)"
    and r: "concat (map prefixed (fields d)) = concat (map prefixed (fields e))"
    using assms(1) by (simp_all add: hash_input_def fields_def prefixed_def append_eq_append_conv)
  moreover have "fields d = fields e"
    by (rule prefixed_list_inj [OF _ r]) (use assms(2,3) in \<open>auto simp: fields_def storable_def\<close>)
  ultimately show ?thesis using assms(2,3) by (auto simp: storable_def intro: put_uint64_inj)
qed

section \<open>Appending\<close>

text \<open>A call of \<open>Audit\<close>: whether the database refuses it, the time, and what is recorded.\<close>

type_synonym audit_request = "bool \<times> int \<times> string \<times> string \<times> string"

fun store_request :: "(byte list \<Rightarrow> string) \<Rightarrow> audit_request \<Rightarrow> audit_store \<Rightarrow> audit_store" where
  "store_request sha (refused, now, actor, action, detail) s = snd (Audit_append sha refused now actor action detail s)"

definition recorded :: "audit_entry \<Rightarrow> int \<times> string \<times> string \<times> string" where
  "recorded e = (At e, Actor e, Action e, Detail e)"

definition healthy :: "(byte list \<Rightarrow> string) \<Rightarrow> audit_store \<Rightarrow> bool" where
  "healthy sha s \<longleftrightarrow> chain sha (entries s) \<and> (case head s of None \<Rightarrow> [] | Some h \<Rightarrow> h) = last_hash (entries s)"

lemma chain_last_ID: "chain sha es \<Longrightarrow> es \<noteq> [] \<Longrightarrow> ID (last es) = int (length es)"
  by (cases es rule: rev_cases) (simp_all add: chain_snoc del: chain_simps)

lemma auditHash_Hash [simp]: "auditHash sha (e\<lparr>Hash := h\<rparr>) = auditHash sha e"
  by (simp add: auditHash_def hash_input_def)

lemma Audit_append_healthy:
  assumes "healthy sha s"
  shows "healthy sha (snd (Audit_append sha refused now actor action detail s))"
    and "map recorded (entries (snd (Audit_append sha refused now actor action detail s))) =
      map recorded (entries s) @ (if refused then [] else [(now, actor, action, detail)])"
proof -
  let ?e = "\<lparr>ID = (if entries s = [] then 0 else ID (last (entries s))) + 1, At = now, Actor = actor, Action = action,
      Detail = detail, PrevHash = last_hash (entries s), Hash = []\<rparr>"
  let ?f = "?e\<lparr>Hash := auditHash sha ?e\<rparr>"
  have s': "snd (Audit_append sha refused now actor action detail s) =
      (if refused then s else s\<lparr>entries := entries s @ [?f], head := Some (Hash ?f)\<rparr>)"
    by (simp add: Audit_append_def Let_def last_hash_def)
  have "auditHash sha ?f = auditHash sha ?e" by (rule auditHash_Hash)
  then have "chain sha (entries s @ [?f])"
    using assms chain_last_ID [of sha "entries s"] unfolding chain_snoc healthy_def by auto
  then show "healthy sha (snd (Audit_append sha refused now actor action detail s))"
    using assms unfolding s' by (simp add: healthy_def del: chain_simps(2))
  show "map recorded (entries (snd (Audit_append sha refused now actor action detail s))) =
      map recorded (entries s) @ (if refused then [] else [(now, actor, action, detail)])"
    unfolding s' by (simp add: recorded_def)
qed

text \<open>C31. However the log was written, requests the database refused included, it verifies, and it holds the accepted
  requests in order.\<close>

theorem Audit_verifies:
  "VerifyAudit sha (fold (store_request sha) rs empty_store) = (length (filter (\<lambda>r. \<not> fst r) rs), None) \<and>
   map recorded (entries (fold (store_request sha) rs empty_store)) = map snd (filter (\<lambda>r. \<not> fst r) rs)"
proof -
  have "healthy sha (fold (store_request sha) rs empty_store) \<and>
      map recorded (entries (fold (store_request sha) rs empty_store)) = map snd (filter (\<lambda>r. \<not> fst r) rs)"
  proof (induction rs rule: rev_induct)
    case Nil
    show ?case by (simp add: healthy_def empty_store_def)
  next
    case (snoc r rs)
    obtain refused now actor action detail where r: "r = (refused, now, actor, action, detail)" by (cases r)
    show ?case using snoc Audit_append_healthy [of sha "fold (store_request sha) rs empty_store" refused now actor action detail]
      by (simp add: r)
  qed
  moreover from this have "length (entries (fold (store_request sha) rs empty_store)) = length (filter (\<lambda>r. \<not> fst r) rs)"
    by (metis length_map)
  ultimately show ?thesis by (simp add: VerifyAudit_intact healthy_def)
qed

text \<open>C32. Two logs that verify against the same head are the same log, unless an entry of one and an
  entry of the other are different inputs with the same hash: short of a collision, no entry can be
  changed, removed, moved or cut off the end without the head giving it away. Of the hash only that it
  is never the empty text is assumed.\<close>

theorem VerifyAudit_detects:
  assumes "\<And>b. sha b \<noteq> []"
    and "VerifyAudit sha s = (m, None)" "VerifyAudit sha t = (n, None)" "head s = head t"
    and "\<forall>e \<in> set (entries s) \<union> set (entries t). storable e"
  shows "entries s = entries t \<or>
    (\<exists>d \<in> set (entries s). \<exists>e \<in> set (entries t). hash_input d \<noteq> hash_input e \<and> sha (hash_input d) = sha (hash_input e))"
proof -
  have "es = fs" if "chain sha es" "chain sha fs" "last_hash es = last_hash fs" "\<forall>e \<in> set es \<union> set fs. storable e"
    "\<forall>d \<in> set es. \<forall>e \<in> set fs. sha (hash_input d) = sha (hash_input e) \<longrightarrow> hash_input d = hash_input e" for es fs
    using that
  proof (induction es arbitrary: fs rule: rev_induct)
    case Nil
    then show ?case using assms(1) [of "hash_input (last fs)"]
      by (cases fs rule: rev_cases) (auto simp: chain_snoc auditHash_def simp del: chain_simps(2))
  next
    case (snoc e es)
    note c = snoc.prems(1) [unfolded chain_snoc]
    show ?case
    proof (cases fs rule: rev_cases)
      case Nil
      then show ?thesis using c snoc.prems(3) assms(1) by (auto simp: auditHash_def)
    next
      case (snoc fs' f)
      note d = snoc.prems(2) [unfolded snoc chain_snoc]
      have "sha (hash_input e) = sha (hash_input f)" using c d snoc.prems(3) by (simp add: snoc auditHash_def)
      then have same: "hash_input e = hash_input f" using snoc.prems(5) snoc by simp
      then have eq: "ID e = ID f \<and> At e = At f \<and> fields e = fields f"
        by (rule hash_input_inj) (use snoc.prems(4) snoc in auto)
      then have "es = fs'" by (intro snoc.IH) (use c d snoc.prems(4,5) snoc in \<open>auto simp: fields_def\<close>)
      moreover have "e = f" using eq c d by (simp add: fields_def auditHash_def same)
      ultimately show ?thesis by (simp add: snoc)
    qed
  qed
  then show ?thesis using assms(2-5) unfolding VerifyAudit_intact by (metis (no_types, lifting))
qed

text \<open>The number a failed verification gives is the length of the longest intact beginning of the log,
  or of the whole log when only the head disagrees.\<close>

lemma VerifyAudit_locates:
  assumes "VerifyAudit sha s = (n, Some w)"
  shows "n \<le> length (entries s) \<and> chain sha (take n (entries s)) \<and>
    (n < length (entries s) \<and> w \<noteq> Truncated \<and> \<not> chain sha (take (Suc n) (entries s)) \<or>
     n = length (entries s) \<and> w = Truncated)"
proof -
  have "chain sha []" by simp
  from verify_from_spec [OF this, of "entries s"] show ?thesis
  proof
    assume "\<exists>w k. verify_from sha (length []) (last_hash []) (entries s) = (length [] + k, Inl w) \<and> k < length (entries s) \<and> w \<noteq> Truncated \<and>
        chain sha ([] @ take k (entries s)) \<and> \<not> chain sha ([] @ take (Suc k) (entries s))"
    then show ?thesis using assms by (auto simp: VerifyAudit_def)
  next
    assume "verify_from sha (length []) (last_hash []) (entries s) = (length [] + length (entries s), Inr (last_hash ([] @ entries s))) \<and>
        chain sha ([] @ entries s)"
    then show ?thesis using assms by (auto simp: VerifyAudit_def split: if_splits)
  qed
qed

section \<open>Examples\<close>

text \<open>A hash without collisions that is never empty.\<close>

definition ex_sha :: "byte list \<Rightarrow> string" where
  "ex_sha b = CHR ''h'' # map (\<lambda>w. char_of (unat w)) b"

lemma ex_sha_inj: "inj ex_sha"
proof (rule injI)
  fix a b assume "ex_sha a = ex_sha b"
  then have "map (\<lambda>w. char_of (unat w)) a = map (\<lambda>w. char_of (unat w)) b" by (simp add: ex_sha_def)
  moreover have "inj (\<lambda>w :: byte. (char_of (unat w) :: char))"
  proof (rule injI)
    fix v w :: byte assume "(char_of (unat v) :: char) = char_of (unat w)"
    then have "unat v mod 256 = unat w mod 256" by (metis of_char_of)
    moreover have "unat x < 2 ^ LENGTH(8)" for x :: byte by (rule unsigned_less)
    ultimately have "unat v = unat w" by simp
    then show "v = w" by (rule unsigned_word_eqI)
  qed
  ultimately show "a = b" by (simp add: inj_map_eq_map)
qed

definition ex_log :: audit_store where
  "ex_log = fold (store_request ex_sha) [(False, 5, ''op'', ''a'', ''d''), (True, 6, [], ''b'', []), (False, 7, [], ''c'', [])] empty_store"

definition ex_same :: audit_store where
  "ex_same = fold (store_request ex_sha) [(False, 5, ''op'', ''a'', ''d''), (False, 7, [], ''c'', [])] empty_store"

theorem VerifyAudit_detects_witness: "entries ex_log = entries ex_same"
proof -
  have "entries ex_log = entries ex_same \<or> (\<exists>d \<in> set (entries ex_log). \<exists>e \<in> set (entries ex_same).
      hash_input d \<noteq> hash_input e \<and> ex_sha (hash_input d) = ex_sha (hash_input e))"
    by (rule VerifyAudit_detects [where m = 2 and n = 2])
      (auto simp: ex_sha_def ex_log_def ex_same_def VerifyAudit_def Audit_append_def empty_store_def Let_def auditHash_def
        hash_input_def storable_def fields_def fits_int_def string_bytes_def)
  then show ?thesis using ex_sha_inj by (auto dest: injD)
qed

lemma VerifyAudit_locates_witness:
  "(0 :: nat) \<le> length (entries (ex_log\<lparr>entries := tl (entries ex_log)\<rparr>)) \<and>
   chain ex_sha (take 0 (entries (ex_log\<lparr>entries := tl (entries ex_log)\<rparr>))) \<and>
   (0 < length (entries (ex_log\<lparr>entries := tl (entries ex_log)\<rparr>)) \<and> Removed \<noteq> Truncated \<and>
      \<not> chain ex_sha (take (Suc 0) (entries (ex_log\<lparr>entries := tl (entries ex_log)\<rparr>))) \<or>
    0 = length (entries (ex_log\<lparr>entries := tl (entries ex_log)\<rparr>)) \<and> Removed = Truncated)"
  by (rule VerifyAudit_locates) (simp add: VerifyAudit_def ex_log_def Audit_append_def empty_store_def Let_def)

end
