(* ===== verification/Triage_Structured.thy ===== *)
theory Triage_Structured
  imports Triage_Minimize IR_Fixed IR_Clone Mutate_Struct
begin

text \<open>
  Minimisation through the structure, \<open>internal/triage/structured.go\<close>: elements of repeats, optional parts and
  payload bytes are removed from the tree, the fixup makes lengths and checksums right again, and a candidate
  that still fails in the same way becomes the next best. The result is \<open>None\<close> where the code does
  not come back.
\<close>

section \<open>Reductions of a tree\<close>

record removal =
  path :: "nat list"
  index :: int
  shrinkTo :: int

text \<open>What a removal does to the node its path leads to.\<close>

definition reduce_node :: "removal \<Rightarrow> node \<Rightarrow> node option" where
  "reduce_node c n =
     (let h = hdr n; cs = Children n
      in if index c \<ge> 0 then
           (if index c \<ge> int (length cs) \<or> int (length cs) - 1 < MinLen h then None
            else Some (Node h (take (nat (index c)) cs @ drop (nat (index c) + 1) cs)))
         else if shrinkTo c \<ge> 0 then
           (if shrinkTo c \<ge> int (length (Raw h)) \<or> shrinkTo c < MinLen h then None
            else Some (Node (h\<lparr>Raw := take (nat (shrinkTo c)) (Raw h)\<rparr>) cs))
         else if Kind h = KindOpt then (if \<not> Present h then None else Some (Node (SetPresent False h) cs))
         else None)"

fun reduce_at :: "nat list \<Rightarrow> removal \<Rightarrow> node \<Rightarrow> node option" where
  "reduce_at [] c n = reduce_node c n"
| "reduce_at (i # p) c n =
     (if i \<ge> length (Children n) then None
      else map_option (\<lambda>k. Node (hdr n) ((Children n)[i := k])) (reduce_at p c (Children n ! i)))"

definition removal_apply :: "removal \<Rightarrow> node \<Rightarrow> node option" where
  "removal_apply c tree = reduce_at (path c) c tree"

text \<open>
  \<open>for size := len / 2; size > min; size /= 2\<close>. With a negative minimum the size stops at zero and the loop goes on
  for ever.
\<close>

partial_function (option) ladder :: "int \<Rightarrow> int \<Rightarrow> int list option" where
  "ladder sz least = (if sz > least then do { rest \<leftarrow> ladder (sz div 2) least; Some (sz # rest) } else Some [])"

definition node_removals :: "hdr \<Rightarrow> nat \<Rightarrow> nat list \<Rightarrow> removal list option" where
  "node_removals h len p =
     (if Kind h = KindRepeat then
        Some (map (\<lambda>i. \<lparr>path = p, index = int i, shrinkTo = - 1\<rparr>) (rev [0..<len]))
      else if Kind h = KindOpt \<and> Present h then Some [\<lparr>path = p, index = - 1, shrinkTo = - 1\<rparr>]
      else if Kind h = KindBytes \<and> int (length (Raw h)) > MinLen h \<and> \<not> Immutable h then do {
        sizes \<leftarrow> ladder (int (length (Raw h)) div 2) (MinLen h);
        Some (map (\<lambda>sz. \<lparr>path = p, index = - 1, shrinkTo = sz\<rparr>)
                (sizes @ (if MinLen h < int (length (Raw h)) then [MinLen h] else [])))
      }
      else Some [])"

fun walk_removals :: "node \<Rightarrow> nat list \<Rightarrow> removal list option"
  and walk_kids :: "nat \<Rightarrow> node list \<Rightarrow> nat list \<Rightarrow> removal list option" where
  "walk_removals (Node h cs) p = do {
     here \<leftarrow> node_removals h (length cs) p;
     below \<leftarrow> walk_kids 0 cs p;
     Some (here @ below)
   }"
| "walk_kids i [] p = Some []"
| "walk_kids i (c # cs) p = do {
     first \<leftarrow> walk_removals c (p @ [i]);
     others \<leftarrow> walk_kids (i + 1) cs p;
     Some (first @ others)
   }"

definition removals :: "node \<Rightarrow> removal list option" where
  "removals tree = walk_removals tree []"

section \<open>The search\<close>

datatype structured_error = NoStructure | Encoding ir_error | Running string

text \<open>\<open>try\<close>: the candidate with its bytes, when it is one and does what it must.\<close>

definition try_candidate :: "registry \<Rightarrow> (byte list, 'w) harness \<Rightarrow> (Triage_Class.outcome \<Rightarrow> bool) \<Rightarrow> int \<Rightarrow> node \<Rightarrow>
    minimize_report \<times> 'w \<Rightarrow> (string + (node \<times> byte list) option) \<times> minimize_report \<times> 'w" where
  "try_candidate chk h p limit t s =
     (if Runs (fst s) \<ge> limit then (Inr None, (fst s)\<lparr>Exhausted := True\<rparr>, snd s)
      else case Fix chk SuppressNone t of
        Inl _ \<Rightarrow> (Inr None, s)
      | Inr (b, t) \<Rightarrow>
          (case still h p limit b s of
             (Inl e, s) \<Rightarrow> (Inl e, s)
           | (Inr yes, s) \<Rightarrow> (Inr (if yes then Some (t, b) else None), s)))"

text \<open>One walk over the candidates: it stops at the first that is taken.\<close>

fun try_removals :: "registry \<Rightarrow> (byte list, 'w) harness \<Rightarrow> (Triage_Class.outcome \<Rightarrow> bool) \<Rightarrow> int \<Rightarrow> node \<Rightarrow> removal list \<Rightarrow>
    minimize_report \<times> 'w \<Rightarrow> (string + (node \<times> byte list) option) \<times> minimize_report \<times> 'w" where
  "try_removals chk h p limit best [] s = (Inr None, s)"
| "try_removals chk h p limit best (c # cs) s =
     (case removal_apply c (Copy best) of
        None \<Rightarrow> try_removals chk h p limit best cs s
      | Some t \<Rightarrow>
          (case try_candidate chk h p limit t s of
             (Inl e, s) \<Rightarrow> (Inl e, s)
           | (Inr (Some x), s) \<Rightarrow> (Inr (Some x), s)
           | (Inr None, s) \<Rightarrow> if Exhausted (fst s) then (Inr None, s) else try_removals chk h p limit best cs s))"

lemma still_Runs: "still h p limit b s = (r, s') \<Longrightarrow> Runs (fst s) < limit \<Longrightarrow> Runs (fst s') = Runs (fst s) + 1"
  by (cases s) (auto simp: still_def Let_def split: prod.splits sum.splits)

lemma try_candidate_Runs:
  assumes "try_candidate chk h p limit t s = (r, s')"
  shows "Runs (fst s) \<le> Runs (fst s')" "r = Inr (Some x) \<Longrightarrow> Runs (fst s) < limit \<and> Runs (fst s) < Runs (fst s')"
  using assms still_Runs [of h p limit _ s]
  by (auto simp: try_candidate_def split: if_splits sum.splits prod.splits)

lemma try_removals_Runs:
  "try_removals chk h p limit best cs s = (r, s') \<Longrightarrow>
   Runs (fst s) \<le> Runs (fst s') \<and> (\<forall>x. r = Inr (Some x) \<longrightarrow> Runs (fst s) < limit \<and> Runs (fst s) < Runs (fst s'))"
proof (induction cs arbitrary: s)
  case (Cons c cs)
  show ?case
  proof (cases "removal_apply c (Copy best)")
    case None
    then show ?thesis using Cons by simp
  next
    case (Some t)
    obtain q u where q: "try_candidate chk h p limit t s = (q, u)" by (meson surj_pair)
    note m = try_candidate_Runs [OF q]
    show ?thesis
    proof (cases "q = Inr None \<and> \<not> Exhausted (fst u)")
      case True
      then have "try_removals chk h p limit best cs u = (r, s')" using Cons.prems Some q by simp
      from Cons.IH [OF this] m(1) show ?thesis by auto
    next
      case False
      have "try_removals chk h p limit best (c # cs) s = (q, u)"
      proof (cases q)
        case (Inr x)
        then show ?thesis using False Some q by (cases x) simp_all
      qed (simp add: Some q)
      then have "r = q" "s' = u" using Cons.prems by simp_all
      then show ?thesis using m unfolding \<open>r = q\<close> \<open>s' = u\<close> by blast
    qed
  qed
qed auto

function structured_loop :: "registry \<Rightarrow> (byte list, 'w) harness \<Rightarrow> (Triage_Class.outcome \<Rightarrow> bool) \<Rightarrow> int \<Rightarrow> node \<times> byte list \<Rightarrow>
    minimize_report \<times> 'w \<Rightarrow> (structured_error option \<times> (node \<times> byte list) \<times> minimize_report \<times> 'w) option" where
  "structured_loop chk h p limit best s =
     (if Exhausted (fst s) then Some (None, best, s)
      else case cancelled h (snd s) of
        Some e \<Rightarrow> Some (Some (Running e), best, s)
      | None \<Rightarrow>
          (case removals (fst best) of
             None \<Rightarrow> None
           | Some cs \<Rightarrow>
               (case try_removals chk h p limit (fst best) cs s of
                  (Inl e, s) \<Rightarrow> Some (Some (Running e), best, s)
                | (Inr (Some x), s) \<Rightarrow> structured_loop chk h p limit x s
                | (Inr None, s) \<Rightarrow> Some (None, best, s))))"
  by pat_completeness auto

termination
  by (relation "measure (\<lambda>(chk, h, p, limit, best, s). nat (limit - Runs (fst s)))")
    (auto dest!: sym [of _ "try_removals _ _ _ _ _ _ _"] try_removals_Runs)

declare structured_loop.simps [simp del]

definition MinimizeStructured :: "registry \<Rightarrow> (byte list, 'w) harness \<Rightarrow> node option \<Rightarrow> minimize_options \<Rightarrow> 'w \<Rightarrow>
    ((node \<times> byte list) option \<times> minimize_report \<times> structured_error option \<times> 'w) option" where
  "MinimizeStructured chk h tree opts w =
     (case tree of
        None \<Rightarrow> Some (None, first_report 0, Some NoStructure, w)
      | Some tree \<Rightarrow>
          (case Fix chk SuppressNone (Copy tree) of
             Inl e \<Rightarrow> Some (None, first_report 0, Some (Encoding e), w)
           | Inr (b, best) \<Rightarrow>
               (case baseline h opts b (first_report (length b), w) of
                  (Inl e, rep, w) \<Rightarrow> Some (None, rep, Some (Running e), w)
                | (Inr p, s) \<Rightarrow>
                    (case structured_loop chk h p (budget_of opts) (best, b) s of
                       None \<Rightarrow> None
                     | Some (Some e, x, rep, w) \<Rightarrow> Some (Some x, rep, Some e, w)
                     | Some (None, x, rep, w) \<Rightarrow> Some (Some x, rep\<lparr>MinimizedSize := length (snd x)\<rparr>, None, w)))))"

section \<open>Candidates are trees of the format\<close>

lemma ladder_ends: "0 \<le> least \<Longrightarrow> 0 \<le> sz \<Longrightarrow> \<exists>r. ladder sz least = Some r \<and> (\<forall>x \<in> set r. least < x)"
proof (induction "nat sz" arbitrary: sz rule: less_induct)
  case less
  show ?case
  proof (cases "sz > least")
    case True
    then have "nat (sz div 2) < nat sz" "0 \<le> sz div 2" using less.prems by linarith+
    then obtain r where "ladder (sz div 2) least = Some r" "\<forall>x \<in> set r. least < x"
      using less.hyps less.prems(1) by blast
    then show ?thesis using True by (subst ladder.simps) simp
  next
    case False
    then show ?thesis by (subst ladder.simps) simp
  qed
qed

lemma ladder_some:
  assumes "ladder sz least = Some r"
  shows "least < 0 \<longrightarrow> sz < 0"
  using assms
proof (rule ladder.raw_induct [where P = "\<lambda>sz least r. least < 0 \<longrightarrow> sz < 0", rotated])
  fix f and sz least :: int and r
  assume i: "\<And>sz least r. f sz least = Some r \<Longrightarrow> least < 0 \<longrightarrow> sz < 0"
    and e: "(if sz > least then f (sz div 2) least \<bind> (\<lambda>rest. Some (sz # rest)) else Some []) = Some r"
  show "least < 0 \<longrightarrow> sz < 0"
    using i [of "sz div 2" least] e by (cases "f (sz div 2) least") (auto split: if_splits)
qed

lemma ladder_hangs: "least < 0 \<Longrightarrow> 0 \<le> sz \<Longrightarrow> ladder sz least = None"
  using ladder_some [of sz least] by (cases "ladder sz least") auto

text \<open>A minimum that is not negative, at every node.\<close>

fun least_ok :: "node \<Rightarrow> bool" where
  "least_ok (Node h cs) \<longleftrightarrow> 0 \<le> MinLen h \<and> list_all least_ok cs"

definition sound :: "node \<Rightarrow> bool" where
  "sound t \<longleftrightarrow> valid t \<and> least_ok t"

definition suits :: "removal \<Rightarrow> hdr \<Rightarrow> bool" where
  "suits c h \<longleftrightarrow> (0 \<le> index c \<longrightarrow> Kind h = KindRepeat) \<and> (index c < 0 \<and> 0 \<le> shrinkTo c \<longrightarrow> Kind h = KindBytes)"

lemma node_removals_suit:
  "node_removals h len p = Some cs \<Longrightarrow> c \<in> set cs \<Longrightarrow> path c = p \<and> suits c h"
  by (cases "ladder (int (length (Raw h)) div 2) (MinLen h)")
    (auto simp: node_removals_def suits_def split: if_splits)

lemma walk_removals_suit:
  "walk_removals t p = Some cs \<Longrightarrow> c \<in> set cs \<Longrightarrow> \<exists>q n. path c = p @ q \<and> subtree t q = Some n \<and> suits c (hdr n)"
  "walk_kids i ts p = Some cs \<Longrightarrow> c \<in> set cs \<Longrightarrow>
     \<exists>j q n. path c = p @ (i + j) # q \<and> j < length ts \<and> subtree (ts ! j) q = Some n \<and> suits c (hdr n)"
proof (induction t p and i ts p arbitrary: cs and cs rule: walk_removals_walk_kids.induct)
  case (1 h ks p)
  obtain here below where hb: "node_removals h (length ks) p = Some here" "walk_kids 0 ks p = Some below" "cs = here @ below"
    using 1(2) by (auto simp: bind_eq_Some_conv)
  show ?case
  proof (cases "c \<in> set here")
    case True
    then show ?thesis using node_removals_suit [OF hb(1)] by (intro exI [of _ "[]"] exI [of _ "Node h ks"]) simp
  next
    case False
    then obtain j q n where "path c = p @ (0 + j) # q" "j < length ks" "subtree (ks ! j) q = Some n" "suits c (hdr n)"
      using 1(1) [OF hb(1,2)] 1(3) hb(3) by auto
    then show ?thesis by (intro exI [of _ "j # q"] exI [of _ n]) simp
  qed
next
  case (3 i t ts p)
  obtain first others where fo: "walk_removals t (p @ [i]) = Some first" "walk_kids (i + 1) ts p = Some others" "cs = first @ others"
    using 3(3) by (auto simp: bind_eq_Some_conv)
  show ?case
  proof (cases "c \<in> set first")
    case True
    then obtain q n where "path c = (p @ [i]) @ q" "subtree t q = Some n" "suits c (hdr n)" using 3(1) [OF fo(1)] by blast
    then show ?thesis by (intro exI [of _ 0] exI [of _ q] exI [of _ n]) simp
  next
    case False
    then obtain j q n where "path c = p @ (i + 1 + j) # q" "j < length ts" "subtree (ts ! j) q = Some n" "suits c (hdr n)"
      using 3(2) [OF fo(1,2)] 3(4) fo(3) by auto
    then show ?thesis by (intro exI [of _ "Suc j"] exI [of _ q] exI [of _ n]) simp
  qed
qed simp

lemma removals_exist:
  "least_ok t \<Longrightarrow> \<exists>cs. walk_removals t p = Some cs"
  "list_all least_ok ts \<Longrightarrow> \<exists>cs. walk_kids i ts p = Some cs"
proof (induction t p and i ts p rule: walk_removals_walk_kids.induct)
  case (1 h ks p)
  obtain r where "ladder (int (length (Raw h)) div 2) (MinLen h) = Some r" using ladder_ends [of "MinLen h" "int (length (Raw h)) div 2"] 1(2) by auto
  then obtain here where "node_removals h (length ks) p = Some here" by (cases "node_removals h (length ks) p") (auto simp: node_removals_def split: if_splits)
  then show ?case using 1 by fastforce
next
  case (3 i t ts p)
  then show ?case by fastforce
qed simp

lemma subtree_Copy: "subtree (Copy t) q = map_option Copy (subtree t q)"
proof (induction t q rule: subtree.induct)
  case (2 n i q)
  have "Children (Copy n) = map Copy (Children n)" by (cases n) simp
  then show ?case using 2 by simp
qed simp

lemma Copy_hdr [simp]: "hdr (Copy n) = unshare (hdr n)"
  by (simp add: Copy_clone)

lemma suits_Copy [simp]: "suits c (unshare h) = suits c h"
  by (simp add: suits_def)

lemma sound_node: "sound n \<longleftrightarrow> check_node (hdr n) (length (Children n)) = None \<and> 0 \<le> MinLen (hdr n) \<and> (\<forall>k \<in> set (Children n). sound k)"
  by (cases n) (auto simp: sound_def list_all_iff)

lemma sound_Copy: "sound t \<Longrightarrow> sound (Copy t)"
proof -
  have "least_ok (clone t) = least_ok t"
  proof (induction t)
    case (Node h cs)
    then show ?case by (auto simp: list_all_iff)
  qed
  then show "sound t \<Longrightarrow> ?thesis" by (simp add: sound_def Copy_clone)
qed

lemma least_ok_erase: "least_ok (erase t) = least_ok t"
proof (induction t)
  case (Node h cs)
  then show ?case by (auto simp: list_all_iff erase_hdr_def)
qed

lemma sound_Fix: "sound t \<Longrightarrow> Fix chk sp t = Inr (b, u) \<Longrightarrow> sound u \<and> b = Encode u"
  using Fix_encodes [of t chk sp b u] least_ok_erase [of t] least_ok_erase [of u]
  by (auto simp: sound_def same_shape_def)

lemma reduce_node_sound:
  assumes n: "sound n" and c: "suits c (hdr n)" and r: "reduce_node c n = Some m"
  shows "sound m"
proof -
  have k: "check_node (hdr n) (length (Children n)) = None" "0 \<le> MinLen (hdr n)" "\<forall>k \<in> set (Children n). sound k"
    using n sound_node [of n] by simp_all
  consider "0 \<le> index c" "Kind (hdr n) = KindRepeat" | "\<not> 0 \<le> index c" "0 \<le> shrinkTo c" "Kind (hdr n) = KindBytes"
    | "\<not> 0 \<le> index c" "\<not> 0 \<le> shrinkTo c" using c by (auto simp: suits_def)
  then show ?thesis
  proof cases
    case 1
    then have m: "m = Node (hdr n) (take (nat (index c)) (Children n) @ drop (nat (index c) + 1) (Children n))"
      and b: "index c < int (length (Children n))" "MinLen (hdr n) \<le> int (length (Children n)) - 1"
      using r by (auto simp: reduce_node_def Let_def split: if_splits)
    have len: "length (Children m) = length (Children n) - 1" using b 1 m by simp
    have "set (Children m) \<subseteq> set (Children n)" unfolding m by (auto dest: in_set_takeD in_set_dropD)
    moreover have "check_node (hdr m) (length (Children m)) = None"
      using k 1 b unfolding len by (auto simp: m check_simps FitsLen_def split: if_splits)
    ultimately show ?thesis using k unfolding sound_node [of m] by (auto simp: m)
  next
    case 2
    then have m: "m = Node ((hdr n)\<lparr>Raw := take (nat (shrinkTo c)) (Raw (hdr n))\<rparr>) (Children n)"
      and b: "shrinkTo c < int (length (Raw (hdr n)))" "MinLen (hdr n) \<le> shrinkTo c"
      using r by (auto simp: reduce_node_def Let_def split: if_splits)
    have "check_node (hdr m) (length (Children m)) = None"
      using k 2 b by (auto simp: m check_simps FitsLen_def min_def split: if_splits)
    then show ?thesis using k unfolding sound_node [of m] by (auto simp: m)
  next
    case 3
    then have m: "m = Node (SetPresent False (hdr n)) (Children n)"
      using r by (auto simp: reduce_node_def Let_def split: if_splits)
    have "check_node (SetPresent False (hdr n)) l = check_node (hdr n) l" for l
      by (rule check_node_fields) simp_all
    then show ?thesis using k unfolding sound_node [of m] by (simp add: m)
  qed
qed

lemma reduce_at_sound:
  "sound t \<Longrightarrow> subtree t q = Some n \<Longrightarrow> suits c (hdr n) \<Longrightarrow> reduce_at q c t = Some u \<Longrightarrow> sound u"
proof (induction q arbitrary: t u)
  case Nil
  then show ?case using reduce_node_sound by simp
next
  case (Cons i q)
  then obtain k where i: "i < length (Children t)" and k: "reduce_at q c (Children t ! i) = Some k" "u = Node (hdr t) ((Children t)[i := k])"
    by (auto split: if_splits)
  have "sound (Children t ! i)" using Cons.prems(1) i iffD1 [OF sound_node [of t]] by simp
  moreover have "subtree (Children t ! i) q = Some n" using Cons.prems(2) i by simp
  ultimately have "sound k" using Cons.IH k(1) Cons.prems(3) by blast
  moreover have "check_node (hdr t) (length (Children t)) = None" "0 \<le> MinLen (hdr t)" "\<forall>k \<in> set (Children t). sound k"
    using Cons.prems(1) sound_node [of t] by simp_all
  moreover have "set ((Children t)[i := k]) \<subseteq> insert k (set (Children t))" by (rule set_update_subset_insert)
  ultimately show ?case unfolding k(2) by (intro iffD2 [OF sound_node]) auto
qed

lemma candidate_sound:
  assumes "sound t" "removals t = Some cs" "c \<in> set cs" "removal_apply c (Copy t) = Some u"
  shows "sound u"
proof -
  obtain n where "subtree t (path c) = Some n" "suits c (hdr n)"
    using walk_removals_suit(1) [OF assms(2) [unfolded removals_def] assms(3)] by auto
  then show ?thesis using reduce_at_sound [OF sound_Copy [OF assms(1)], of "path c" "Copy n" c u] assms(4)
    by (simp add: subtree_Copy removal_apply_def)
qed

section \<open>One walk over the candidates\<close>

definition fails_as :: "registry \<Rightarrow> (byte list \<Rightarrow> Triage_Class.outcome) \<Rightarrow> (Triage_Class.outcome \<Rightarrow> bool) \<Rightarrow> node \<Rightarrow> removal \<Rightarrow> bool" where
  "fails_as chk f p best c =
     (case removal_apply c (Copy best) of
        None \<Rightarrow> False
      | Some u \<Rightarrow> (case Fix chk SuppressNone u of Inl _ \<Rightarrow> False | Inr (b, t) \<Rightarrow> p (f b)))"

lemma try_candidate_cases:
  assumes "try_candidate chk h p limit u s = (r, s')"
  obtains "r = Inr None" "Exhausted (fst s')" "Runs (fst s') = Runs (fst s)" "limit \<le> Runs (fst s)"
  | e where "r = Inr None" "s' = s" "Runs (fst s) < limit" "Fix chk SuppressNone u = Inl e"
  | b t q where "Runs (fst s) < limit" "Fix chk SuppressNone u = Inr (b, t)" "still h p limit b s = (q, s')"
      "r = (case q of Inl e \<Rightarrow> Inl e | Inr yes \<Rightarrow> Inr (if yes then Some (t, b) else None))"
proof (cases "limit \<le> Runs (fst s)")
  case True
  then show thesis using assms that(1) by (auto simp: try_candidate_def)
next
  case False
  show thesis
  proof (cases "Fix chk SuppressNone u")
    case (Inl e)
    then show thesis using False assms that(2) by (auto simp: try_candidate_def)
  next
    case (Inr x)
    obtain b t where x: "x = (b, t)" by (meson surj_pair)
    obtain q w where q: "still h p limit b s = (q, w)" by (meson surj_pair)
    have "w = s'" "r = (case q of Inl e \<Rightarrow> Inl e | Inr yes \<Rightarrow> Inr (if yes then Some (t, b) else None))"
      using False assms Inr x q by (auto simp: try_candidate_def split: sum.splits)
    then show thesis using that(3) [of b t q] False Inr x q by simp
  qed
qed

text \<open>Induction over a walk: a property of the state, and what a taken candidate is.\<close>

lemma try_removals_induct:
  assumes "try_removals chk h p limit best cs s = (r, s')" and "J s"
    and step: "\<And>u s q s'. J s \<Longrightarrow> try_candidate chk h p limit u s = (q, s') \<Longrightarrow> J s'"
  shows "J s' \<and> (\<forall>x. r = Inr (Some x) \<longrightarrow> (\<exists>c \<in> set cs. \<exists>u t. removal_apply c (Copy best) = Some u \<and> J t \<and>
      try_candidate chk h p limit u t = (Inr (Some x), s')))"
  using assms(1,2)
proof (induction cs arbitrary: s)
  case (Cons c cs)
  show ?case
  proof (cases "removal_apply c (Copy best)")
    case None
    then have "try_removals chk h p limit best cs s = (r, s')" using Cons.prems by simp
    from Cons.IH [OF this Cons.prems(2)] show ?thesis by auto
  next
    case (Some u)
    obtain q w where q: "try_candidate chk h p limit u s = (q, w)" by (meson surj_pair)
    have J: "J w" using step [OF Cons.prems(2) q] .
    show ?thesis
    proof (cases "q = Inr None \<and> \<not> Exhausted (fst w)")
      case True
      then have "try_removals chk h p limit best cs w = (r, s')" using Cons.prems(1) Some q by simp
      from Cons.IH [OF this J] show ?thesis by auto
    next
      case False
      then have e: "r = q" "s' = w" using Cons.prems(1) Some q by (auto split: sum.splits option.splits)
      have "\<exists>c \<in> set (c # cs). \<exists>u t. removal_apply c (Copy best) = Some u \<and> J t \<and> try_candidate chk h p limit u t = (q, w)"
        using Some q Cons.prems(2) by (intro bexI [of _ c] exI [of _ u] exI [of _ s]) simp_all
      then show ?thesis unfolding e using J by metis
    qed
  qed
qed auto

lemma try_removals_within:
  assumes "in_budget limit s" and "try_removals chk h p limit best cs s = (r, s')"
  shows "in_budget limit s'"
proof -
  have "in_budget limit s'" if "in_budget limit s" "try_candidate chk h p limit u s = (q, s')" for u s q s'
    using that(2)
  proof (cases rule: try_candidate_cases)
    case 1
    then show ?thesis using that(1) by (simp add: in_budget_def)
  next
    case (3 b t q)
    then show ?thesis using still_within [OF that(1), of h p b] by simp
  qed (use that in simp)
  then show ?thesis using try_removals_induct [where J = "in_budget limit", OF assms(2,1)] by blast
qed

lemma try_removals_taken:
  assumes "try_removals chk h p limit best cs s = (Inr (Some x), s')"
  shows "\<exists>c \<in> set cs. \<exists>u. removal_apply c (Copy best) = Some u \<and> Fix chk SuppressNone u = Inr (snd x, fst x)"
proof -
  obtain c u t where c: "c \<in> set cs" "removal_apply c (Copy best) = Some u"
    and t: "try_candidate chk h p limit u t = (Inr (Some x), s')"
    using try_removals_induct [where J = "\<lambda>_. True", OF assms] by blast
  from t have "Fix chk SuppressNone u = Inr (snd x, fst x)"
    by (cases rule: try_candidate_cases) (auto split: sum.splits if_splits)
  with c show ?thesis by blast
qed

lemma try_removals_replies:
  assumes "replies h f" and "try_removals chk h p limit best cs s = (r, s')"
  shows "(\<exists>b. r = Inr b) \<and> (\<forall>x. r = Inr (Some x) \<longrightarrow> p (f (snd x))) \<and>
    (r = Inr None \<longrightarrow> \<not> Exhausted (fst s') \<longrightarrow> (\<forall>c \<in> set cs. \<not> fails_as chk f p best c))"
  using assms(2)
proof (induction cs arbitrary: s)
  case (Cons c cs)
  show ?case
  proof (cases "removal_apply c (Copy best)")
    case None
    then have "try_removals chk h p limit best cs s = (r, s')" using Cons.prems by simp
    from Cons.IH [OF this] None show ?thesis by (simp add: fails_as_def)
  next
    case (Some u)
    obtain q w where q: "try_candidate chk h p limit u s = (q, w)" by (meson surj_pair)
    from q have one: "(\<exists>b. q = Inr b) \<and> (\<forall>x. q = Inr (Some x) \<longrightarrow> p (f (snd x))) \<and>
        (q = Inr None \<longrightarrow> \<not> Exhausted (fst w) \<longrightarrow> \<not> fails_as chk f p best c)"
    proof (cases rule: try_candidate_cases)
      case (3 b t a)
      with still_replies [OF assms(1) 3(3)] show ?thesis by (simp add: fails_as_def Some)
    qed (simp_all add: fails_as_def Some)
    show ?thesis
    proof (cases "q = Inr None \<and> \<not> Exhausted (fst w)")
      case True
      then have "try_removals chk h p limit best cs w = (r, s')" using Cons.prems Some q by simp
      from Cons.IH [OF this] one True show ?thesis by simp
    next
      case False
      then have e: "r = q" "s' = w" using Cons.prems Some q by (auto split: sum.splits option.splits)
      show ?thesis unfolding e using one False by blast
    qed
  qed
qed auto

section \<open>The loop\<close>

lemma loop_step:
  assumes "\<not> Exhausted (fst s)" "cancelled h (snd s) = None" "removals (fst best) = Some cs"
    "try_removals chk h p limit (fst best) cs s = (r, s')"
  shows "structured_loop chk h p limit best s =
    (case r of Inl e \<Rightarrow> Some (Some (Running e), best, s')
     | Inr None \<Rightarrow> Some (None, best, s')
     | Inr (Some x) \<Rightarrow> structured_loop chk h p limit x s')"
  using assms by (subst structured_loop.simps) (simp split: sum.split option.split)

lemma structured_loop_invariant:
  assumes "structured_loop chk h p limit best s = Some (e, best', s')" and "I best s"
    and "\<And>best s cs r s'. I best s \<Longrightarrow> removals (fst best) = Some cs \<Longrightarrow>
      try_removals chk h p limit (fst best) cs s = (r, s') \<Longrightarrow> I best s' \<and> (\<forall>x. r = Inr (Some x) \<longrightarrow> I x s')"
  shows "I best' s'"
  using assms
proof (induction chk h p limit best s rule: structured_loop.induct)
  case (1 chk h p limit best s)
  show ?case
  proof (cases "Exhausted (fst s) \<or> cancelled h (snd s) \<noteq> None \<or> removals (fst best) = None")
    case True
    with 1(2) have "best' = best \<and> s' = s" by (subst (asm) structured_loop.simps) (auto split: if_splits option.splits)
    with 1(3) show ?thesis by simp
  next
    case False
    then obtain cs where go: "\<not> Exhausted (fst s)" "cancelled h (snd s) = None" "removals (fst best) = Some cs" by auto
    obtain r t where t: "try_removals chk h p limit (fst best) cs s = (r, t)" by (meson surj_pair)
    note I = 1(4) [OF 1(3) go(3) t]
    show ?thesis
    proof (cases "\<exists>x. r = Inr (Some x)")
      case True
      then obtain x where x: "r = Inr (Some x)" by blast
      then have "structured_loop chk h p limit x t = Some (e, best', s')" using 1(2) loop_step [OF go t] by simp
      with 1(1) [OF go t [symmetric] x refl _ _ 1(4)] I x show ?thesis by simp
    next
      case False
      then have "best' = best \<and> s' = t" using 1(2) loop_step [OF go t] by (auto split: sum.splits option.splits)
      with I show ?thesis by simp
    qed
  qed
qed

definition encoded :: "node \<times> byte list \<Rightarrow> bool" where
  "encoded x \<longleftrightarrow> sound (fst x) \<and> snd x = Encode (fst x)"

lemma taken_encoded:
  assumes "encoded best" "removals (fst best) = Some cs" "try_removals chk h p limit (fst best) cs s = (Inr (Some x), s')"
  shows "encoded x"
proof -
  obtain c u where "c \<in> set cs" "removal_apply c (Copy (fst best)) = Some u" "Fix chk SuppressNone u = Inr (snd x, fst x)"
    using try_removals_taken [OF assms(3)] by blast
  moreover have "sound (fst best)" using assms(1) by (simp add: encoded_def)
  ultimately show ?thesis unfolding encoded_def using candidate_sound [OF _ assms(2)] sound_Fix by blast
qed

lemma structured_loop_returns:
  "encoded best \<Longrightarrow> \<exists>out. structured_loop chk h p limit best s = Some out"
proof (induction chk h p limit best s rule: structured_loop.induct)
  case (1 chk h p limit best s)
  obtain cs where cs: "removals (fst best) = Some cs"
    using 1(2) removals_exist(1) [of "fst best" "[]"] by (auto simp: encoded_def sound_def removals_def)
  show ?case
  proof (cases "Exhausted (fst s) \<or> cancelled h (snd s) \<noteq> None")
    case True
    then show ?thesis by (subst structured_loop.simps) auto
  next
    case False
    then have go: "\<not> Exhausted (fst s)" "cancelled h (snd s) = None" by auto
    obtain r t where t: "try_removals chk h p limit (fst best) cs s = (r, t)" by (meson surj_pair)
    show ?thesis
    proof (cases "\<exists>x. r = Inr (Some x)")
      case True
      then obtain x where x: "r = Inr (Some x)" by blast
      have "encoded x" using taken_encoded [OF 1(2) cs] t x by blast
      from 1(1) [OF go cs t [symmetric] x refl this] show ?thesis using loop_step [OF go cs t] x by simp
    next
      case False
      then show ?thesis using loop_step [OF go cs t] by (auto split: sum.splits option.splits)
    qed
  qed
qed

lemma structured_loop_stuck:
  assumes "replies h f" and "structured_loop chk h p limit best s = Some (None, best', s')" and "\<not> Exhausted (fst s')"
  shows "\<exists>cs. removals (fst best') = Some cs \<and> (\<forall>c \<in> set cs. \<not> fails_as chk f p (fst best') c)"
  using assms
proof (induction chk h p limit best s rule: structured_loop.induct)
  case (1 chk h p limit best s)
  have "\<not> (Exhausted (fst s) \<or> cancelled h (snd s) \<noteq> None \<or> removals (fst best) = None)"
    using 1(3,4) by (subst (asm) structured_loop.simps) (auto split: if_splits option.splits)
  then obtain cs where go: "\<not> Exhausted (fst s)" "cancelled h (snd s) = None" "removals (fst best) = Some cs" by auto
  obtain r t where t: "try_removals chk h p limit (fst best) cs s = (r, t)" by (meson surj_pair)
  note r = try_removals_replies [OF 1(2) t]
  show ?case
  proof (cases "\<exists>x. r = Inr (Some x)")
    case True
    then obtain x where x: "r = Inr (Some x)" by blast
    then have "structured_loop chk h p limit x t = Some (None, best', s')" using 1(3) loop_step [OF go t] by simp
    with 1(1) [OF go t [symmetric] x refl 1(2) _ 1(4)] show ?thesis by simp
  next
    case False
    then have "best' = best \<and> s' = t" and "r = Inr None" using 1(3) loop_step [OF go t] by (auto split: sum.splits option.splits)
    with r go(3) 1(4) show ?thesis by auto
  qed
qed

lemma MinimizeStructured_unfold:
  assumes "replies h f" and "Fix chk SuppressNone (Copy tree) = Inr (b, t)" and "fails_alike opts (f b) (f b)"
  obtains s where "in_budget (budget_of opts) s" "\<not> Exhausted (fst s)"
    "MinimizeStructured chk h (Some tree) opts w =
       (case structured_loop chk h (fails_alike opts (f b)) (budget_of opts) (t, b) s of
          None \<Rightarrow> None
        | Some (Some e, x, rep, w) \<Rightarrow> Some (Some x, rep, Some e, w)
        | Some (None, x, rep, w) \<Rightarrow> Some (Some x, rep\<lparr>MinimizedSize := length (snd x)\<rparr>, None, w))"
proof -
  obtain s where s: "baseline h opts b (first_report (length b), w) = (Inr (fails_alike opts (f b)), s)"
    "Exhausted (fst s) = Exhausted (first_report (length b))"
    using baseline_replies [OF assms(1,3), of "(first_report (length b), w)"] by auto
  have "in_budget (budget_of opts) s" using baseline_within [of opts h b "length b" w] s(1) by simp
  moreover have "\<not> Exhausted (fst s)" using s(2) by (simp add: first_report_def)
  ultimately show thesis by (rule that) (simp add: MinimizeStructured_def assms(2) s(1) del: Copy.simps)
qed

text \<open>C33. Minimising through the structure always comes back when no node declares a negative minimum, and
  what it returns, also when the budget ends or the run is cancelled, is a tree of the format together with the
  bytes the fixup encoded it to, which fail as the input does, for no more runs than the budget.\<close>

theorem MinimizeStructured_keeps:
  assumes "replies h f" and "sound tree" and F: "Fix chk SuppressNone (Copy tree) = Inr (b, t)"
    and fails: "fails_alike opts (f b) (f b)"
  shows "\<exists>u c rep err w'. MinimizeStructured chk h (Some tree) opts w = Some (Some (u, c), rep, err, w') \<and>
    valid u \<and> c = Encode u \<and> fails_alike opts (f b) (f c) \<and> Runs rep \<le> budget_of opts \<and>
    (err = None \<longrightarrow> MinimizedSize rep = length c)"
proof -
  let ?p = "fails_alike opts (f b)" and ?n = "budget_of opts"
  obtain s where s: "in_budget ?n s" and m: "MinimizeStructured chk h (Some tree) opts w =
       (case structured_loop chk h ?p ?n (t, b) s of
          None \<Rightarrow> None
        | Some (Some e, x, rep, w) \<Rightarrow> Some (Some x, rep, Some e, w)
        | Some (None, x, rep, w) \<Rightarrow> Some (Some x, rep\<lparr>MinimizedSize := length (snd x)\<rparr>, None, w))"
    by (rule MinimizeStructured_unfold [OF assms(1) F fails])
  have e: "encoded (t, b)" using sound_Fix [OF sound_Copy [OF assms(2)] F] by (simp add: encoded_def)
  obtain err x s' where l: "structured_loop chk h ?p ?n (t, b) s = Some (err, x, s')"
    using structured_loop_returns [OF e] by (metis prod.collapse)
  have "(\<lambda>x s. encoded x \<and> ?p (f (snd x)) \<and> in_budget ?n s) x s'"
  proof (rule structured_loop_invariant [OF l])
    show "encoded (t, b) \<and> ?p (f (snd (t, b))) \<and> in_budget ?n s" using e fails s by simp
    fix best s cs r s'
    assume "encoded best \<and> ?p (f (snd best)) \<and> in_budget ?n s" "removals (fst best) = Some cs"
      "try_removals chk h ?p ?n (fst best) cs s = (r, s')"
    then show "(encoded best \<and> ?p (f (snd best)) \<and> in_budget ?n s') \<and>
        (\<forall>x. r = Inr (Some x) \<longrightarrow> encoded x \<and> ?p (f (snd x)) \<and> in_budget ?n s')"
      using taken_encoded [of best cs chk h ?p ?n s _ s'] try_removals_replies [OF assms(1), of chk ?p ?n "fst best" cs s r s']
        try_removals_within [of ?n s chk h ?p "fst best" cs r s'] by auto
  qed
  moreover obtain rep w' where "s' = (rep, w')" by (meson surj_pair)
  moreover obtain u c where "x = (u, c)" by (meson surj_pair)
  ultimately show ?thesis using m l by (cases err) (auto simp: encoded_def sound_def in_budget_def)
qed

text \<open>C34. When the search ends within its budget nothing more can be removed: every further removal the
  enumeration offers is refused by the node, by the fixup, or no longer fails as the input did.\<close>

theorem MinimizeStructured_minimal:
  assumes "replies h f" and F: "Fix chk SuppressNone (Copy tree) = Inr (b, t)" and fails: "fails_alike opts (f b) (f b)"
    and m: "MinimizeStructured chk h (Some tree) opts w = Some (Some (u, c), rep, None, w')" and "\<not> Exhausted rep"
  shows "\<exists>cs. removals u = Some cs \<and> (\<forall>x \<in> set cs. \<forall>v d v'.
    removal_apply x (Copy u) = Some v \<longrightarrow> Fix chk SuppressNone v = Inr (d, v') \<longrightarrow> \<not> fails_alike opts (f b) (f d))"
proof -
  let ?p = "fails_alike opts (f b)" and ?n = "budget_of opts"
  obtain s where "MinimizeStructured chk h (Some tree) opts w =
       (case structured_loop chk h ?p ?n (t, b) s of
          None \<Rightarrow> None
        | Some (Some e, x, rep, w) \<Rightarrow> Some (Some x, rep, Some e, w)
        | Some (None, x, rep, w) \<Rightarrow> Some (Some x, rep\<lparr>MinimizedSize := length (snd x)\<rparr>, None, w))"
    by (rule MinimizeStructured_unfold [OF assms(1) F fails])
  then obtain rep' where "structured_loop chk h ?p ?n (t, b) s = Some (None, (u, c), rep', w')" "\<not> Exhausted rep'"
    using m assms(5) by (auto split: option.splits prod.splits)
  then obtain cs where "removals u = Some cs" "\<forall>c \<in> set cs. \<not> fails_as chk f ?p u c"
    using structured_loop_stuck [OF assms(1)] by (metis fst_conv)
  then show ?thesis by (intro exI [of _ cs]) (auto simp: fails_as_def)
qed

text \<open>A payload whose declared minimum is negative.\<close>

definition negative_minimum :: "hdr \<Rightarrow> bool" where
  "negative_minimum h \<longleftrightarrow> Kind h = KindBytes \<and> MinLen h < 0 \<and> \<not> Immutable h"

lemma node_removals_hang: "negative_minimum h \<Longrightarrow> node_removals h len p = None"
  by (simp add: negative_minimum_def node_removals_def ladder_hangs)

lemma walk_removals_hang:
  "subtree n q = Some m \<Longrightarrow> negative_minimum (hdr m) \<Longrightarrow> walk_removals n p = None"
  "j < length ts \<Longrightarrow> subtree (ts ! j) q = Some m \<Longrightarrow> negative_minimum (hdr m) \<Longrightarrow> walk_kids i ts p = None"
proof (induction n p and i ts p arbitrary: q and j q rule: walk_removals_walk_kids.induct)
  case (1 h ks p)
  show ?case
  proof (cases q)
    case Nil
    then have "m = Node h ks" using 1(2) by simp
    then show ?thesis using 1(3) by (simp add: node_removals_hang)
  next
    case (Cons j q')
    then have "j < length ks" "subtree (ks ! j) q' = Some m" using 1(2) by (auto split: if_splits)
    then show ?thesis using 1(1,3) by (cases "node_removals h (length ks) p") auto
  qed
next
  case (3 i t ts p)
  show ?case
  proof (cases j)
    case 0
    then show ?thesis using 3(1,4,5) by simp
  next
    case (Suc j')
    then show ?thesis using 3(2) [of _ j' q] 3(3,4,5) by (cases "walk_removals t (p @ [i])") auto
  qed
qed simp

text \<open>C35. One payload with a negative declared minimum anywhere in a valid tree makes the enumeration of the
  truncations go on for ever: minimising a failing input of that shape does not come back, whatever its budget.\<close>

theorem MinimizeStructured_hangs:
  assumes "replies h f" and "\<forall>w. cancelled h w = None" and "valid tree"
    and "subtree tree q = Some n" and "negative_minimum (hdr n)"
    and F: "Fix chk SuppressNone (Copy tree) = Inr (b, t)" and fails: "fails_alike opts (f b) (f b)"
  shows "MinimizeStructured chk h (Some tree) opts w = None"
proof -
  have "valid (Copy tree)" using assms(3) by (simp add: Copy_clone)
  then have "same_shape t (Copy tree)" using Fix_encodes [OF _ F] by blast
  moreover have "subtree (Copy tree) q = Some (Copy n)" using assms(4) by (simp add: subtree_Copy)
  ultimately obtain k where k: "subtree t q = Some k" "erase k = erase (Copy n)"
    using same_shape_subtree [of t "Copy tree" q] by (auto split: option.splits)
  have "negative_minimum (erase_hdr x) = negative_minimum x" for x by (simp add: negative_minimum_def erase_hdr_def Immutable_def)
  then have "negative_minimum (hdr k)" using assms(5) k(2) by (metis hdr_erase Copy_hdr negative_minimum_def unshare_fields(1,8) unshare_flags(3))
  then have "removals t = None" using walk_removals_hang(1) [OF k(1)] by (simp add: removals_def)
  moreover obtain s where "\<not> Exhausted (fst s)" and m: "MinimizeStructured chk h (Some tree) opts w =
       (case structured_loop chk h (fails_alike opts (f b)) (budget_of opts) (t, b) s of
          None \<Rightarrow> None
        | Some (Some e, x, rep, w) \<Rightarrow> Some (Some x, rep, Some e, w)
        | Some (None, x, rep, w) \<Rightarrow> Some (Some x, rep\<lparr>MinimizedSize := length (snd x)\<rparr>, None, w))"
    by (rule MinimizeStructured_unfold [OF assms(1) F fails])
  ultimately have "structured_loop chk h (fails_alike opts (f b)) (budget_of opts) (t, b) s = None"
    using assms(2) by (subst structured_loop.simps) simp
  then show ?thesis by (simp add: m)
qed

section \<open>Examples\<close>

text \<open>A record of a length and a payload; the program fails when it sees an \<open>a\<close> and a \<open>c\<close>.\<close>

definition ex_record :: "int \<Rightarrow> byte list \<Rightarrow> node" where
  "ex_record least raw = Node (hdr ex_tree)
     [Children ex_tree ! 0, upd (\<lambda>h. h\<lparr>Raw := raw, MinLen := least\<rparr>) (Children ex_tree ! 1)]"

lemma ex_record_sound: "sound (ex_record 0 [97, 99, 98, 98, 98])" "valid (ex_record (- 1) [97, 99])"
  by code_simp+

lemma ex_record_Fix:
  "Fix ex_chk SuppressNone (Copy (ex_record 0 [97, 99, 98, 98, 98])) =
     Inr ([5, 97, 99, 98, 98, 98], set_val (ex_record 0 [97, 99, 98, 98, 98]) [0] 5)"
  "Fix ex_chk SuppressNone (Copy (ex_record (- 1) [97, 99])) = Inr ([2, 97, 99], set_val (ex_record (- 1) [97, 99]) [0] 2)"
  by code_simp+

theorem MinimizeStructured_keeps_witness:
  "\<exists>u c rep err w'. MinimizeStructured ex_chk needs_a_and_c (Some (ex_record 0 [97, 99, 98, 98, 98])) plain_options () =
     Some (Some (u, c), rep, err, w') \<and> 97 \<in> set c \<and> 99 \<in> set c"
proof -
  have "fails_alike plain_options (ab_outcome [5, 97, 99, 98, 98, 98]) (ab_outcome [5, 97, 99, 98, 98, 98])" by (simp add: ab_fails)
  from MinimizeStructured_keeps [OF ab_replies ex_record_sound(1) ex_record_Fix(1) this, of "()"] show ?thesis
    by (simp add: ab_fails) meson
qed

text \<open>A list of bytes, each an element of its own.\<close>

definition ex_list :: "64 word list \<Rightarrow> node" where
  "ex_list vs = Node ((hdr ex_tree)\<lparr>Kind := KindRepeat\<rparr>)
     (map (\<lambda>v. upd (\<lambda>h. h\<lparr>Val := v\<rparr>) (leaf KindInt 1 [] [] None)) vs)"

lemma ex_list_run:
  "MinimizeStructured ex_chk needs_a_and_c (Some (ex_list [97, 98, 99, 98])) plain_options () =
     Some (Some (ex_list [97, 99], [97, 99]), \<lparr>OriginalSize = 4, MinimizedSize = 2, Runs = 6, Exhausted = False\<rparr>, None, ())"
  by code_simp

theorem MinimizeStructured_minimal_witness:
  "\<exists>cs. removals (ex_list [97, 99]) = Some cs \<and>
     list_all (\<lambda>x. \<not> fails_as ex_chk ab_outcome (\<lambda>y. y = ex_crash 11) (ex_list [97, 99]) x) cs"
proof -
  have F: "Fix ex_chk SuppressNone (Copy (ex_list [97, 98, 99, 98])) = Inr ([97, 98, 99, 98], ex_list [97, 98, 99, 98])" by code_simp
  have "fails_alike plain_options (ab_outcome [97, 98, 99, 98]) (ab_outcome [97, 98, 99, 98])" by (simp add: ab_fails)
  from MinimizeStructured_minimal [OF ab_replies F this ex_list_run] obtain cs where
    cs: "removals (ex_list [97, 99]) = Some cs" "\<forall>x \<in> set cs. \<forall>v d v'. removal_apply x (Copy (ex_list [97, 99])) = Some v \<longrightarrow>
      Fix ex_chk SuppressNone v = Inr (d, v') \<longrightarrow> \<not> (97 \<in> set d \<and> 99 \<in> set d)"
    by (auto simp: ab_fails)
  have "\<not> fails_as ex_chk ab_outcome (\<lambda>y. y = ex_crash 11) (ex_list [97, 99]) x" if "x \<in> set cs" for x
    using cs(2) that by (auto simp: fails_as_def ab_outcome_def ex_crash_def ex_clean_def split: option.split sum.split)
  then show ?thesis using cs(1) by (simp add: list_all_iff)
qed

theorem MinimizeStructured_hangs_witness:
  "MinimizeStructured ex_chk needs_a_and_c (Some (ex_record (- 1) [97, 99])) plain_options () = None"
proof (rule MinimizeStructured_hangs [OF ab_replies _ ex_record_sound(2) _ _ ex_record_Fix(2)])
  show "\<forall>w. cancelled needs_a_and_c w = None" by (simp add: needs_a_and_c_def)
  show "subtree (ex_record (- 1) [97, 99]) [1] = Some (Children (ex_record (- 1) [97, 99]) ! 1)" by code_simp
  show "negative_minimum (hdr (Children (ex_record (- 1) [97, 99]) ! 1))" by code_simp
  show "fails_alike plain_options (ab_outcome [2, 97, 99]) (ab_outcome [2, 97, 99])" by (simp add: ab_fails)
qed

end
