(* ===== verification/Schema_Type.thy ===== *)
theory Schema_Type
  imports IR_Node "HOL-Library.List_Lexorder" "HOL-Library.Char_ord"
begin

text \<open>
  Grammars, \<open>pkg/schema/schema.go\<close>: the types of a format, looking one up, and the validation that every
  reference resolves and that no type contains itself unguarded. The pointers of a parsed grammar form a tree;
  the map of the declared types is an association list with distinct names. Positions and rendering are left out.
\<close>

section \<open>Types\<close>

datatype skind =
    SKindInvalid | SKindInt | SKindBytes | SKindStr | SKindStruct | SKindRepeat | SKindChoice | SKindOpt | SKindRef

record sinfo =
  sKind :: skind
  sWidth :: nat
  sEndian :: endian
  sSigned :: bool
  sMin :: int
  sMax :: int
  Literal :: "byte list"
  LiteralInt :: u64
  HasLiteral :: bool
  sImmutable :: bool
  Elem :: string
  sTarget :: string

datatype stype = SType (sinfo: sinfo) (Fields: "sfield list")
  and sfield = SField (fieldName: string) (fieldType: stype) (fieldDerive: "derivation option")

record schema =
  Root :: string
  Types :: "(string \<times> stype) list"

definition Schema_Lookup :: "schema \<Rightarrow> string \<Rightarrow> stype option" where
  "Schema_Lookup s name = map_of (Types s) name"

definition TypeNames :: "schema \<Rightarrow> string list" where
  "TypeNames s = sort (map fst (Types s))"

section \<open>Validation\<close>

datatype schema_error =
    NoFormat | NotDeclared string | UnknownType string | UnknownElement string | UnguardedRecursion "string list" string

fun checkRefs :: "schema \<Rightarrow> stype \<Rightarrow> schema_error option"
  and checkRefs_fields :: "schema \<Rightarrow> sfield list \<Rightarrow> schema_error option" where
  "checkRefs s (SType i fs) =
     (if sKind i = SKindRef \<and> Schema_Lookup s (sTarget i) = None then Some (UnknownType (sTarget i))
      else if (sKind i = SKindRepeat \<or> sKind i = SKindOpt) \<and> Schema_Lookup s (Elem i) = None then Some (UnknownElement (Elem i))
      else checkRefs_fields s fs)"
| "checkRefs_fields s [] = None"
| "checkRefs_fields s (SField name t d # fs) =
     (case checkRefs s t of Some e \<Rightarrow> Some e | None \<Rightarrow> checkRefs_fields s fs)"

datatype colour = White | Grey | Black

type_synonym dfs_state = "(string \<Rightarrow> colour) \<times> string list"

text \<open>Only the references a type always expands are followed; the state the Go closures share is passed along.\<close>

fun walkUnguarded :: "(string \<Rightarrow> dfs_state \<Rightarrow> (schema_error + dfs_state) option) \<Rightarrow> stype \<Rightarrow> dfs_state \<Rightarrow> (schema_error + dfs_state) option"
  and walk_fields :: "(string \<Rightarrow> dfs_state \<Rightarrow> (schema_error + dfs_state) option) \<Rightarrow> sfield list \<Rightarrow> dfs_state \<Rightarrow>
    (schema_error + dfs_state) option" where
  "walkUnguarded visit (SType i fs) st =
     (if sKind i = SKindRef then visit (sTarget i) st
      else if sKind i = SKindRepeat \<or> sKind i = SKindOpt then Some (Inr st)
      else walk_fields visit fs st)"
| "walk_fields visit [] st = Some (Inr st)"
| "walk_fields visit (SField name t d # fs) st =
     (case walkUnguarded visit t st of
        None \<Rightarrow> None
      | Some (Inl e) \<Rightarrow> Some (Inl e)
      | Some (Inr st) \<Rightarrow> walk_fields visit fs st)"

definition leave :: "string \<Rightarrow> dfs_state \<Rightarrow> dfs_state" where
  "leave name st = ((fst st)(name := Black), butlast (snd st))"

text \<open>The recursion of \<open>visit\<close>, with fuel for its depth.\<close>

primrec visit :: "nat \<Rightarrow> schema \<Rightarrow> string \<Rightarrow> dfs_state \<Rightarrow> (schema_error + dfs_state) option" where
  "visit 0 s name st = None"
| "visit (Suc k) s name st =
     (case fst st name of
        Grey \<Rightarrow> Some (Inl (UnguardedRecursion (snd st) name))
      | Black \<Rightarrow> Some (Inr st)
      | White \<Rightarrow>
          let entered = ((fst st)(name := Grey), snd st @ [name])
          in (case Schema_Lookup s name of
                None \<Rightarrow> Some (Inr (leave name entered))
              | Some t \<Rightarrow> map_option (map_sum id (leave name)) (walkUnguarded (visit k s) t entered)))"

fun visit_all :: "nat \<Rightarrow> schema \<Rightarrow> string list \<Rightarrow> dfs_state \<Rightarrow> (schema_error + dfs_state) option" where
  "visit_all k s [] st = Some (Inr st)"
| "visit_all k s (name # names) st =
     (if fst st name = White then
        (case visit k s name st of
           None \<Rightarrow> None
         | Some (Inl e) \<Rightarrow> Some (Inl e)
         | Some (Inr st) \<Rightarrow> visit_all k s names st)
      else visit_all k s names st)"

definition checkCycles :: "schema \<Rightarrow> (schema_error option) option" where
  "checkCycles s =
     map_option (case_sum Some (\<lambda>_. None)) (visit_all (Suc (length (Types s))) s (TypeNames s) ((\<lambda>_. White), []))"

definition Schema_Validate :: "schema \<Rightarrow> (schema_error option) option" where
  "Schema_Validate s =
     (if Root s = [] then Some (Some NoFormat)
      else if Schema_Lookup s (Root s) = None then Some (Some (NotDeclared (Root s)))
      else case List.find (\<lambda>name. case Schema_Lookup s name of None \<Rightarrow> False | Some t \<Rightarrow> checkRefs s t \<noteq> None) (TypeNames s) of
             Some name \<Rightarrow> Some (case Schema_Lookup s name of None \<Rightarrow> None | Some t \<Rightarrow> checkRefs s t)
           | None \<Rightarrow> checkCycles s)"

section \<open>What the search decides\<close>

text \<open>The references a type always expands, in order.\<close>

fun unguarded_refs :: "stype \<Rightarrow> string list" and unguarded_fields :: "sfield list \<Rightarrow> string list" where
  "unguarded_refs (SType i fs) =
     (if sKind i = SKindRef then [sTarget i] else if sKind i = SKindRepeat \<or> sKind i = SKindOpt then []
      else unguarded_fields fs)"
| "unguarded_fields [] = []"
| "unguarded_fields (SField name t d # fs) = unguarded_refs t @ unguarded_fields fs"

definition unguarded :: "schema \<Rightarrow> (string \<times> string) set" where
  "unguarded s = {(a, b). \<exists>t. Schema_Lookup s a = Some t \<and> b \<in> set (unguarded_refs t)}"

fun visits :: "(string \<Rightarrow> dfs_state \<Rightarrow> (schema_error + dfs_state) option) \<Rightarrow> string list \<Rightarrow> dfs_state \<Rightarrow> (schema_error + dfs_state) option" where
  "visits f [] st = Some (Inr st)"
| "visits f (x # xs) st =
     (case f x st of None \<Rightarrow> None | Some (Inl e) \<Rightarrow> Some (Inl e) | Some (Inr st) \<Rightarrow> visits f xs st)"

lemma visits_append:
  "visits f (xs @ ys) st = (case visits f xs st of None \<Rightarrow> None | Some (Inl e) \<Rightarrow> Some (Inl e) | Some (Inr st) \<Rightarrow> visits f ys st)"
  by (induction xs arbitrary: st) (auto split: option.split sum.split)

lemma walkUnguarded_visits:
  "walkUnguarded f t st = visits f (unguarded_refs t) st"
  "walk_fields f fs st = visits f (unguarded_fields fs) st"
  by (induction f t st and f fs st rule: walkUnguarded_walk_fields.induct)
    (auto simp: visits_append split: option.split sum.split)

text \<open>Black types are finished: what they expand is black and none of them expands to itself.\<close>

definition finished :: "(string \<times> string) set \<Rightarrow> (string \<Rightarrow> colour) \<Rightarrow> bool" where
  "finished E col \<longleftrightarrow> (\<forall>a b. col a = Black \<longrightarrow> (a, b) \<in> E \<longrightarrow> col b = Black) \<and> (\<forall>a. col a = Black \<longrightarrow> (a, a) \<notin> E\<^sup>+)"

lemma finished_reach: "(a, b) \<in> E\<^sup>+ \<Longrightarrow> finished E col \<Longrightarrow> col a = Black \<Longrightarrow> col b = Black"
  by (induction rule: trancl_induct) (auto simp: finished_def)

text \<open>What a visit does, when every type being expanded reaches the one visited.\<close>

definition grows :: "(string \<times> string) set \<Rightarrow> (string \<Rightarrow> colour) \<Rightarrow> (string \<Rightarrow> colour) \<Rightarrow> bool" where
  "grows E col col' \<longleftrightarrow> finished E col' \<and> (\<forall>x. col' x = Grey \<longleftrightarrow> col x = Grey) \<and> (\<forall>x. col x = Black \<longrightarrow> col' x = Black)"

definition outcome_ok :: "(string \<times> string) set \<Rightarrow> string set \<Rightarrow> (string \<Rightarrow> colour) \<Rightarrow> (schema_error + dfs_state) option \<Rightarrow> bool" where
  "outcome_ok E names col r \<longleftrightarrow>
     (case r of None \<Rightarrow> False | Some (Inl e) \<Rightarrow> \<not> acyclic E
      | Some (Inr st) \<Rightarrow> grows E col (fst st) \<and> (\<forall>x \<in> names. fst st x = Black))"

definition pending :: "schema \<Rightarrow> (string \<Rightarrow> colour) \<Rightarrow> nat" where
  "pending s col = card {x \<in> fst ` set (Types s). col x = White}"

definition visits_ok :: "schema \<Rightarrow> nat \<Rightarrow> bool" where
  "visits_ok s k \<longleftrightarrow> (\<forall>name st. finished (unguarded s) (fst st) \<longrightarrow> pending s (fst st) < k \<longrightarrow>
     (\<forall>g. fst st g = Grey \<longrightarrow> (g, name) \<in> (unguarded s)\<^sup>+) \<longrightarrow>
     outcome_ok (unguarded s) {name} (fst st) (visit k s name st))"

lemma pending_grows: "grows E col col' \<Longrightarrow> pending s col' \<le> pending s col"
  unfolding pending_def
proof (intro card_mono subsetI)
  fix x assume g: "grows E col col'" and x: "x \<in> {x \<in> fst ` set (Types s). col' x = White}"
  from g have "col' x = Grey \<longleftrightarrow> col x = Grey" "col x = Black \<longrightarrow> col' x = Black" by (simp_all add: grows_def)
  with x show "x \<in> {x \<in> fst ` set (Types s). col x = White}" by (cases "col x") auto
qed simp

lemma grows_refl: "finished E col \<Longrightarrow> grows E col col"
  by (simp add: grows_def)

lemma grows_trans: "grows E a b \<Longrightarrow> grows E b c \<Longrightarrow> grows E a c"
  by (simp add: grows_def)

lemma visits_list:
  assumes "visits_ok s k" and "finished (unguarded s) (fst st)" and "pending s (fst st) < k"
    and "\<And>g x. fst st g = Grey \<Longrightarrow> x \<in> set xs \<Longrightarrow> (g, x) \<in> (unguarded s)\<^sup>+"
  shows "outcome_ok (unguarded s) (set xs) (fst st) (visits (visit k s) xs st)"
  using assms(2-)
proof (induction xs arbitrary: st)
  case (Cons x xs)
  have x: "outcome_ok (unguarded s) {x} (fst st) (visit k s x st)"
    using assms(1) [unfolded visits_ok_def, rule_format, of st x] Cons.prems by simp
  show ?case
  proof (cases "visit k s x st")
    case None
    then show ?thesis using x by (simp add: outcome_ok_def)
  next
    case (Some r)
    show ?thesis
    proof (cases r)
      case (Inl e)
      then show ?thesis using x Some by (simp add: outcome_ok_def)
    next
      case (Inr u)
      have u: "grows (unguarded s) (fst st) (fst u)" "fst u x = Black" using x Some Inr by (simp_all add: outcome_ok_def)
      have f: "finished (unguarded s) (fst u)" using u(1) by (simp add: grows_def)
      have "outcome_ok (unguarded s) (set xs) (fst u) (visits (visit k s) xs u)"
      proof (rule Cons.IH [OF f])
        show "pending s (fst u) < k" using pending_grows [OF u(1), of s] Cons.prems(2) by simp
        show "(g, y) \<in> (unguarded s)\<^sup>+" if "fst u g = Grey" "y \<in> set xs" for g y
          using that Cons.prems(3) u(1) by (simp add: grows_def)
      qed
      then show ?thesis using Some Inr u grows_trans
        by (auto simp: outcome_ok_def grows_def split: option.splits sum.splits)
    qed
  qed
qed (simp add: outcome_ok_def grows_refl)

lemma finished_Grey: "finished E col \<Longrightarrow> col name = White \<Longrightarrow> finished E (col(name := Grey))"
  by (auto simp: finished_def)

lemma finished_leave:
  assumes f: "finished E u" and g: "u name = Grey" and succ: "\<And>b. (name, b) \<in> E \<Longrightarrow> u b = Black"
  shows "finished E (u(name := Black))"
proof -
  have "(name, name) \<notin> E\<^sup>+"
  proof
    assume "(name, name) \<in> E\<^sup>+"
    then obtain b where b: "(name, b) \<in> E" "b = name \<or> (b, name) \<in> E\<^sup>+" by (metis tranclD rtranclD)
    have "u name = Black" using succ [OF b(1)] b(2) finished_reach [OF _ f] by auto
    with g show False by simp
  qed
  then show ?thesis using f succ by (auto simp: finished_def)
qed

lemma visit_step:
  assumes IH: "visits_ok s k" and f: "finished (unguarded s) col" and p: "pending s col < Suc k"
    and g: "\<And>g. col g = Grey \<Longrightarrow> (g, name) \<in> (unguarded s)\<^sup>+" and w: "col name = White" and t: "Schema_Lookup s name = Some t"
  shows "outcome_ok (unguarded s) {name} col (map_option (map_sum id (leave name)) (walkUnguarded (visit k s) t (col(name := Grey), stack @ [name])))"
proof -
  let ?c = "col(name := Grey)" and ?E = "unguarded s"
  let ?r = "visits (visit k s) (unguarded_refs t) (?c, stack @ [name])"
  have edge: "(name, x) \<in> ?E" if "x \<in> set (unguarded_refs t)" for x using that t by (auto simp: unguarded_def)
  have "name \<in> fst ` set (Types s)" using t by (force simp: Schema_Lookup_def dest: map_of_SomeD)
  then have "{x \<in> fst ` set (Types s). ?c x = White} \<subset> {x \<in> fst ` set (Types s). col x = White}" using w by auto
  then have "pending s ?c < pending s col" unfolding pending_def by (intro psubset_card_mono) simp_all
  then have p': "pending s ?c < k" using p by simp
  have "outcome_ok ?E (set (unguarded_refs t)) ?c ?r"
  proof -
    have reach: "(h, x) \<in> ?E\<^sup>+" if "?c h = Grey" "x \<in> set (unguarded_refs t)" for h x
      using that g edge by (cases "h = name") (auto intro: trancl_into_trancl)
    show ?thesis using visits_list [OF IH, of "(?c, stack @ [name])" "unguarded_refs t"] finished_Grey [OF f w] p' reach by simp
  qed
  moreover have "grows ?E col ((fst u)(name := Black))" if "grows ?E ?c (fst u)" "\<forall>x \<in> set (unguarded_refs t). fst u x = Black" for u
  proof -
    have u: "finished ?E (fst u)" "fst u name = Grey" "\<And>x. fst u x = Grey \<longleftrightarrow> ?c x = Grey" "\<And>x. ?c x = Black \<Longrightarrow> fst u x = Black"
      using that(1) by (simp_all add: grows_def)
    have "finished ?E ((fst u)(name := Black))" 
      by (rule finished_leave [OF u(1,2)]) (use that(2) t in \<open>auto simp: unguarded_def\<close>)
    then show ?thesis using u(3,4) w by (auto simp: grows_def)
  qed
  ultimately show ?thesis
    by (auto simp: walkUnguarded_visits outcome_ok_def leave_def split: option.splits sum.splits)
qed

lemma visit_ok: "visits_ok s k"
proof (induction k)
  case (Suc k)
  show ?case unfolding visits_ok_def
  proof (intro allI impI)
    fix name and st :: dfs_state
    assume f: "finished (unguarded s) (fst st)" and p: "pending s (fst st) < Suc k"
      and g: "\<forall>g. fst st g = Grey \<longrightarrow> (g, name) \<in> (unguarded s)\<^sup>+"
    show "outcome_ok (unguarded s) {name} (fst st) (visit (Suc k) s name st)"
    proof (cases "fst st name")
      case Grey
      then have "\<not> acyclic (unguarded s)" using g by (auto simp: acyclic_def)
      then show ?thesis using Grey by (simp add: outcome_ok_def)
    next
      case Black
      then show ?thesis using f by (simp add: outcome_ok_def grows_refl)
    next
      case White
      show ?thesis
      proof (cases "Schema_Lookup s name")
        case None
        then have "finished (unguarded s) ((fst st)(name := Grey, name := Black))"
          using finished_Grey [OF f White] by (intro finished_leave) (auto simp: unguarded_def)
        then show ?thesis using White None by (simp add: outcome_ok_def leave_def grows_def)
      next
        case (Some t)
        show ?thesis using visit_step [OF Suc f p _ White Some, of "snd st"] g White Some by (simp add: Let_def)
      qed
    qed
  qed
qed (simp add: visits_ok_def)

lemma visit_all_ok:
  assumes "finished (unguarded s) (fst st)" and "\<And>x. fst st x \<noteq> Grey" and "pending s (fst st) < k"
  shows "outcome_ok (unguarded s) (set names) (fst st) (visit_all k s names st)"
  using assms
proof (induction names arbitrary: st)
  case (Cons x xs)
  have more: "outcome_ok (unguarded s) (set (x # xs)) (fst st) (visit_all k s xs u)"
    if u: "grows (unguarded s) (fst st) (fst u)" "fst u x = Black" for u
  proof -
    have "outcome_ok (unguarded s) (set xs) (fst u) (visit_all k s xs u)"
    proof (rule Cons.IH)
      show "finished (unguarded s) (fst u)" using u(1) by (simp add: grows_def)
      show "fst u y \<noteq> Grey" for y using u(1) Cons.prems(2) by (simp add: grows_def)
      show "pending s (fst u) < k" using pending_grows [OF u(1), of s] Cons.prems(3) by simp
    qed
    then show ?thesis using u grows_trans by (auto simp: outcome_ok_def grows_def split: option.splits sum.splits)
  qed
  show ?case
  proof (cases "fst st x")
    case White
    have "outcome_ok (unguarded s) {x} (fst st) (visit k s x st)"
      using visit_ok [of s k, unfolded visits_ok_def, rule_format, of st x] Cons.prems by simp
    then consider e where "visit k s x st = Some (Inl e)" "\<not> acyclic (unguarded s)"
      | u where "visit k s x st = Some (Inr u)" "grows (unguarded s) (fst st) (fst u)" "fst u x = Black"
      by (auto simp: outcome_ok_def split: option.splits sum.splits)
    then show ?thesis
    proof cases
      case 1
      then show ?thesis using White by (simp add: outcome_ok_def)
    next
      case (2 u)
      then show ?thesis using White more [of u] by simp
    qed
  next
    case Black
    then show ?thesis using more [OF grows_refl [OF Cons.prems(1)]] by simp
  qed (use Cons.prems(2) in simp)
qed (simp add: outcome_ok_def grows_refl)

lemma acyclic_Black:
  assumes "finished (unguarded s) col" and "\<forall>x \<in> set (TypeNames s). col x = Black"
  shows "acyclic (unguarded s)"
  unfolding acyclic_def
proof (intro allI notI)
  fix a assume c: "(a, a) \<in> (unguarded s)\<^sup>+"
  then have "Schema_Lookup s a \<noteq> None" by (auto simp: unguarded_def dest: tranclD)
  then have "a \<in> set (TypeNames s)" by (auto simp: TypeNames_def Schema_Lookup_def dest: map_of_SomeD intro: rev_image_eqI)
  with assms c show False by (auto simp: finished_def)
qed

lemma checkCycles_acyclic: "\<exists>e. checkCycles s = Some e \<and> (e = None \<longleftrightarrow> acyclic (unguarded s))"
proof -
  let ?r = "visit_all (Suc (length (Types s))) s (TypeNames s) ((\<lambda>_. White), [])"
  have "card {x \<in> fst ` set (Types s). True} \<le> length (Types s)"
    by (metis (mono_tags, lifting) Collect_mem_eq card_length length_map set_map Collect_cong)
  then have "outcome_ok (unguarded s) (set (TypeNames s)) (\<lambda>_. White) ?r"
    using visit_all_ok [of s "((\<lambda>_. White), [])" "Suc (length (Types s))" "TypeNames s"]
    by (simp add: finished_def pending_def le_imp_less_Suc)
  then show ?thesis using acyclic_Black
    by (auto simp: outcome_ok_def checkCycles_def grows_def split: option.splits sum.splits)
qed

text \<open>The names a type mentions, guarded or not.\<close>

fun references :: "stype \<Rightarrow> string list" and field_references :: "sfield list \<Rightarrow> string list" where
  "references (SType i fs) =
     (if sKind i = SKindRef then [sTarget i] else if sKind i = SKindRepeat \<or> sKind i = SKindOpt then [Elem i] else []) @
     field_references fs"
| "field_references [] = []"
| "field_references (SField name t d # fs) = references t @ field_references fs"

definition resolved :: "schema \<Rightarrow> bool" where
  "resolved s \<longleftrightarrow> (\<forall>name t. Schema_Lookup s name = Some t \<longrightarrow> (\<forall>x \<in> set (references t). Schema_Lookup s x \<noteq> None))"

lemma checkRefs_references:
  "checkRefs s t = None \<longleftrightarrow> (\<forall>x \<in> set (references t). Schema_Lookup s x \<noteq> None)"
  "checkRefs_fields s fs = None \<longleftrightarrow> (\<forall>x \<in> set (field_references fs). Schema_Lookup s x \<noteq> None)"
  by (induction s t and s fs rule: checkRefs_checkRefs_fields.induct) (auto split: option.splits)

text \<open>C39. Validating a grammar ends, and accepts it exactly when the format is declared, every name a declared
  type mentions is declared, and no declared type contains itself through references, structs and choices alone.\<close>

theorem Schema_Validate_decides:
  "\<exists>e. Schema_Validate s = Some e \<and>
     (e = None \<longleftrightarrow> Root s \<noteq> [] \<and> Schema_Lookup s (Root s) \<noteq> None \<and> resolved s \<and> acyclic (unguarded s))"
proof (cases "List.find (\<lambda>name. case Schema_Lookup s name of None \<Rightarrow> False | Some t \<Rightarrow> checkRefs s t \<noteq> None) (TypeNames s)")
  case None
  have "name \<in> set (TypeNames s)" if "Schema_Lookup s name = Some t" for name t
    using that by (force simp: TypeNames_def Schema_Lookup_def dest: map_of_SomeD)
  with None have "resolved s" unfolding resolved_def find_None_iff checkRefs_references by fastforce
  then show ?thesis using None checkCycles_acyclic [of s] by (auto simp: Schema_Validate_def)
next
  case (Some name)
  then obtain t where t: "Schema_Lookup s name = Some t" "checkRefs s t \<noteq> None" by (auto simp: find_Some_iff split: option.splits)
  then have "\<not> resolved s" unfolding checkRefs_references resolved_def by blast
  then show ?thesis using Some t by (auto simp: Schema_Validate_def)
qed

end
