(* ===== verification/Codec_Schema.thy ===== *)
theory Codec_Schema
  imports Schema_Type IR_Encode
begin

text \<open>
  Decoding by a grammar, \<open>pkg/codec/schema.go\<close>. A node is built from the input at a position; what an attempt
  that fails leaves of the position is never read, every caller puts it back. Nodes of the arena are values, and
  the children the parent has so far are passed along for the fields that declare lengths and counts. The
  recursion has fuel, and the bound the code puts on the depth makes a fixed amount enough.
\<close>

section \<open>Reading\<close>

definition maxDecodeDepth :: nat where "maxDecodeDepth = 64"

definition defaultRepeatLimit :: int where "defaultRepeatLimit = 4096"

definition OpaqueName :: string where "OpaqueName = ''@opaque''"

text \<open>\<open>Alloc\<close>: a zeroed node of a kind with a name.\<close>

definition alloc :: "kind \<Rightarrow> string \<Rightarrow> hdr" where
  "alloc k name = \<lparr>Kind = k, Width = 0, Endian = BigEndian, flags = 0, Sel = 0, Val = 0, Name = name,
     Raw = [], MinLen = 0, MaxLen = 0, Derive = None, Target = None\<rparr>"

lemma alloc_simps [simp]:
  "Kind (alloc k name) = k" "Name (alloc k name) = name" "Raw (alloc k name) = []" "Sel (alloc k name) = 0"
  "MinLen (alloc k name) = 0" "MaxLen (alloc k name) = 0" "Derive (alloc k name) = None" "Target (alloc k name) = None"
  by (simp_all add: alloc_def)

lemma set_flags_simps [simp]:
  "Kind (SetImmutable v h) = Kind h" "Kind (SetSigned v h) = Kind h" "Width (SetImmutable v h) = Width h"
  "Width (SetSigned v h) = Width h" "Endian (SetSigned v h) = Endian h" "Derive (SetSigned v h) = Derive h"
  "MinLen (SetImmutable v h) = MinLen h" "MaxLen (SetImmutable v h) = MaxLen h"
  "MinLen (SetSigned v h) = MinLen h" "MaxLen (SetSigned v h) = MaxLen h"
  by (simp_all add: SetImmutable_def SetSigned_def)

definition Opaque :: "byte list \<Rightarrow> node" where
  "Opaque raw = Node ((alloc KindBytes OpaqueName)\<lparr>Raw := raw\<rparr>) []"

definition beUint :: "byte list \<Rightarrow> u64" where
  "beUint b = foldl shift_in 0 b"

definition readInt :: "byte list \<Rightarrow> nat \<Rightarrow> endian \<Rightarrow> bool \<Rightarrow> u64" where
  "readInt b width e sgnd =
     (let u = (if e = LittleEndian then foldl shift_in 0 (rev b) else beUint b)
      in if sgnd \<and> width < 8 then (let shift = 64 - 8 * width in signed_drop_bit shift (push_bit shift u)) else u)"

text \<open>\<open>take\<close>: the next bytes; the callers have checked that they are there.\<close>

definition take_at :: "byte list \<Rightarrow> nat \<Rightarrow> nat \<Rightarrow> byte list" where
  "take_at src pos n = take n (drop pos src)"

definition refNames :: "nref \<Rightarrow> string \<Rightarrow> bool" where
  "refNames r name =
     (if Self r \<or> Absolute r \<or> Up r \<noteq> 0 \<or> length (Steps r) \<noteq> 1 then False
      else sName (hd (Steps r)) = name \<and> \<not> ByIndex (hd (Steps r)))"

text \<open>The first sibling so far that declares a length, or a count, of the field.\<close>

definition declares :: "derive_kind \<Rightarrow> string \<Rightarrow> node \<Rightarrow> bool" where
  "declares k name sib \<longleftrightarrow>
     Kind (hdr sib) = KindDerived \<and> (case Derive (hdr sib) of None \<Rightarrow> False | Some d \<Rightarrow> dKind d = k \<and> refNames (From d) name)"

definition declared :: "derive_kind \<Rightarrow> string \<Rightarrow> node list option \<Rightarrow> int option" where
  "declared k name parent =
     (case parent of
        None \<Rightarrow> None
      | Some kids \<Rightarrow>
          (case List.find (declares k name) kids of
             None \<Rightarrow> None
           | Some sib \<Rightarrow> (case Derive (hdr sib) of None \<Rightarrow> None | Some d \<Rightarrow> Some (sint (Val (hdr sib) - Addend d)))))"

definition declaredLength :: "string \<Rightarrow> node list option \<Rightarrow> int option" where
  "declaredLength = declared DeriveLength"

definition declaredCount :: "string \<Rightarrow> node list option \<Rightarrow> int option" where
  "declaredCount = declared DeriveCount"

section \<open>Building\<close>

datatype decode_error = NoMatch | NoType string | NotInteger string | CannotDecode skind

type_synonym 'a decoded = "(decode_error + 'a \<times> nat) option"

type_synonym build = "stype \<Rightarrow> string \<Rightarrow> node list option \<Rightarrow> nat \<Rightarrow> nat \<Rightarrow> node decoded"

text \<open>How many bytes a payload takes, when it matches: its literal, its fixed size, the length a sibling declares,
  or what is left up to the bound.\<close>

definition payload_length :: "byte list \<Rightarrow> sinfo \<Rightarrow> string \<Rightarrow> node list option \<Rightarrow> nat \<Rightarrow> nat option" where
  "payload_length src t name parent pos =
     (let left = length src - pos
      in if HasLiteral t then
           (if left < length (Literal t) \<or> take_at src pos (length (Literal t)) \<noteq> Literal t then None
            else Some (length (Literal t)))
         else if sMin t = sMax t \<and> sMax t > 0 then (if int left < sMax t then None else Some (nat (sMax t)))
         else
           (case declaredLength name parent of
              Some n \<Rightarrow> if n < 0 \<or> n > int left then None else Some (nat n)
            | None \<Rightarrow>
                let n = (if sMax t > 0 \<and> int left > sMax t then sMax t else int left)
                in if n < sMin t then None else Some (nat n)))"

definition bytes_node :: "byte list \<Rightarrow> sinfo \<Rightarrow> string \<Rightarrow> node list option \<Rightarrow> nat \<Rightarrow> decode_error + node \<times> nat" where
  "bytes_node src t name parent pos =
     (let h = SetImmutable (sImmutable t) ((alloc (if sKind t = SKindStr then KindStr else KindBytes) name)
                \<lparr>MinLen := to_int32 (sMin t), MaxLen := to_int32 (sMax t)\<rparr>)
      in case payload_length src t name parent pos of
           None \<Rightarrow> Inl NoMatch
         | Some n \<Rightarrow> Inr (Node (h\<lparr>Raw := take_at src pos n\<rparr>) [], pos + n))"

definition int_node :: "byte list \<Rightarrow> sinfo \<Rightarrow> string \<Rightarrow> nat \<Rightarrow> decode_error + node \<times> nat" where
  "int_node src t name pos =
     (if length src - pos < sWidth t then Inl NoMatch
      else Inr (Node ((SetSigned (sSigned t) ((alloc KindInt name)\<lparr>Width := sWidth t, Endian := sEndian t\<rparr>))
             \<lparr>Val := readInt (take_at src pos (sWidth t)) (sWidth t) (sEndian t) (sSigned t)\<rparr>) [], pos + sWidth t))"

text \<open>A struct member; one with a derivation keeps the value the file has.\<close>

definition decode_field :: "build \<Rightarrow> byte list \<Rightarrow> sfield \<Rightarrow> node list \<Rightarrow> nat \<Rightarrow> nat \<Rightarrow> node decoded" where
  "decode_field b src f kids depth pos =
     (let t = sinfo (fieldType f)
      in case fieldDerive f of
           None \<Rightarrow> b (fieldType f) (fieldName f) (Some kids) depth pos
         | Some d \<Rightarrow>
             if sKind t \<noteq> SKindInt then Some (Inl (NotInteger (fieldName f)))
             else if length src - pos < sWidth t then Some (Inl NoMatch)
             else Some (Inr (Node ((alloc KindDerived (fieldName f))\<lparr>Width := sWidth t, Endian := sEndian t, Derive := Some d,
                    Val := readInt (take_at src pos (sWidth t)) (sWidth t) (sEndian t) False\<rparr>) [], pos + sWidth t)))"

fun decode_fields :: "build \<Rightarrow> byte list \<Rightarrow> sfield list \<Rightarrow> node list \<Rightarrow> nat \<Rightarrow> nat \<Rightarrow> node list decoded" where
  "decode_fields b src [] kids depth pos = Some (Inr (kids, pos))"
| "decode_fields b src (f # fs) kids depth pos =
     (case decode_field b src f kids depth pos of
        None \<Rightarrow> None
      | Some (Inl e) \<Rightarrow> Some (Inl e)
      | Some (Inr (kid, pos)) \<Rightarrow> decode_fields b src fs (kids @ [kid]) depth pos)"

text \<open>The loop of a sequence, over the room it has left.\<close>

fun decode_elems :: "build \<Rightarrow> byte list \<Rightarrow> stype \<Rightarrow> string \<Rightarrow> nat \<Rightarrow> node list \<Rightarrow> nat \<Rightarrow> nat \<Rightarrow> (node list \<times> nat) option" where
  "decode_elems b src t name 0 kids depth pos = Some (kids, pos)"
| "decode_elems b src t name (Suc room) kids depth pos =
     (if length src - pos = 0 then Some (kids, pos)
      else case b t name (Some kids) depth pos of
             None \<Rightarrow> None
           | Some (Inl e) \<Rightarrow> Some (kids, pos)
           | Some (Inr (kid, pos')) \<Rightarrow>
               if pos' = pos then Some (kids, pos)
               else decode_elems b src t name room (kids @ [kid]) depth pos')"

definition decode_repeat :: "build \<Rightarrow> schema \<Rightarrow> byte list \<Rightarrow> sinfo \<Rightarrow> string \<Rightarrow> node list option \<Rightarrow> nat \<Rightarrow> nat \<Rightarrow> node decoded" where
  "decode_repeat b s src t name parent depth pos =
     (case Schema_Lookup s (Elem t) of
        None \<Rightarrow> Some (Inl (NoType (Elem t)))
      | Some elem \<Rightarrow>
          let h = (alloc KindRepeat name)\<lparr>MinLen := to_int32 (sMin t), MaxLen := to_int32 (sMax t)\<rparr>;
              want = declaredCount name parent
          in if (case want of Some w \<Rightarrow> w < 0 | None \<Rightarrow> False) then Some (Inl NoMatch)
             else let limit = (case want of Some w \<Rightarrow> w | None \<Rightarrow> sMax t);
                      limit = (if limit \<le> 0 then defaultRepeatLimit else limit)
                  in (case decode_elems b src elem (Elem t) (nat limit) [] (depth + 1) pos of
                        None \<Rightarrow> None
                      | Some (kids, pos) \<Rightarrow>
                          if int (length kids) < sMin t \<or> (case want of Some w \<Rightarrow> int (length kids) < w | None \<Rightarrow> False)
                          then Some (Inl NoMatch)
                          else Some (Inr (Node h kids, pos))))"

text \<open>The first alternative that matches, each tried from the same place.\<close>

fun decode_choice :: "build \<Rightarrow> sfield list \<Rightarrow> nat \<Rightarrow> nat \<Rightarrow> node decoded" where
  "decode_choice b [] depth pos = Some (Inl NoMatch)"
| "decode_choice b (f # fs) depth pos =
     (case b (fieldType f) (fieldName f) (Some []) depth pos of
        None \<Rightarrow> None
      | Some (Inl e) \<Rightarrow> decode_choice b fs depth pos
      | Some (Inr x) \<Rightarrow> Some (Inr x))"

primrec decode_build :: "nat \<Rightarrow> schema \<Rightarrow> byte list \<Rightarrow> build" where
  "decode_build 0 s src = (\<lambda>t name parent depth pos. None)"
| "decode_build (Suc k) s src = (\<lambda>t name parent depth pos.
     if depth > maxDecodeDepth then Some (Inl NoMatch)
     else let i = sinfo t
          in case sKind i of
               SKindInt \<Rightarrow> Some (int_node src i name pos)
             | SKindBytes \<Rightarrow> Some (bytes_node src i name parent pos)
             | SKindStr \<Rightarrow> Some (bytes_node src i name parent pos)
             | SKindStruct \<Rightarrow>
                 map_option (map_sum id (apfst (Node (alloc KindStruct name))))
                   (decode_fields (decode_build k s src) src (Fields t) [] (depth + 1) pos)
             | SKindRepeat \<Rightarrow> decode_repeat (decode_build k s src) s src i name parent depth pos
             | SKindChoice \<Rightarrow>
                 map_option (map_sum id (apfst (\<lambda>kid. Node (alloc KindChoice name) [kid])))
                   (decode_choice (decode_build k s src) (Fields t) (depth + 1) pos)
             | SKindOpt \<Rightarrow>
                 (case Schema_Lookup s (Elem i) of
                    None \<Rightarrow> Some (Inl (NoType (Elem i)))
                  | Some elem \<Rightarrow>
                      (case decode_build k s src elem (Elem i) parent (depth + 1) pos of
                         None \<Rightarrow> None
                       | Some (Inl e) \<Rightarrow>
                           Some (Inr (Node (SetPresent False (alloc KindOpt name)) [Node (alloc KindBytes (Elem i)) []], pos))
                       | Some (Inr (kid, pos)) \<Rightarrow> Some (Inr (Node (SetPresent True (alloc KindOpt name)) [kid], pos))))
             | SKindRef \<Rightarrow>
                 (case Schema_Lookup s (sTarget i) of
                    None \<Rightarrow> Some (Inl (NoType (sTarget i)))
                  | Some target \<Rightarrow> decode_build k s src target name parent depth pos)
             | SKindInvalid \<Rightarrow> Some (Inl (CannotDecode SKindInvalid)))"

text \<open>Two calls for each of the levels the depth allows, and one past them.\<close>

definition decodeFuel :: nat where "decodeFuel = 2 * maxDecodeDepth + 4"

text \<open>Whatever does not match stays as opaque bytes; only a grammar without its root is an error.\<close>

definition Schema_Decode :: "schema \<Rightarrow> byte list \<Rightarrow> (decode_error + node) option" where
  "Schema_Decode s src =
     (case Schema_Lookup s (Root s) of
        None \<Rightarrow> Some (Inl (NoType (Root s)))
      | Some root \<Rightarrow>
          (case decode_build decodeFuel s src root (Root s) None 0 0 of
             None \<Rightarrow> None
           | Some (Inl e) \<Rightarrow> Some (Inr (Node (alloc KindStruct (Root s)) [Opaque src]))
           | Some (Inr (n, pos)) \<Rightarrow>
               if pos < length src
               then Some (Inr (Node (alloc KindStruct (Root s)) [n, Opaque (drop pos src)]))
               else Some (Inr n)))"

section \<open>Decoding keeps the bytes\<close>

lemma int_bytes_low: "take_bit (8 * w) u = take_bit (8 * w) v \<Longrightarrow> int_bytes u w e = int_bytes v w e"
proof -
  assume a: "take_bit (8 * w) u = take_bit (8 * w) v"
  have "(ucast (drop_bit (8 * i) u) :: byte) = ucast (drop_bit (8 * i) v)" if "i < w" for i
  proof (rule bit_word_eqI)
    fix n assume n: "n < LENGTH(8)"
    then have "8 * i + n < 8 * w" using that by simp
    then have "bit u (8 * i + n) = bit v (8 * i + n)" using a by (metis bit_take_bit_iff)
    then show "bit (ucast (drop_bit (8 * i) u) :: byte) n = bit (ucast (drop_bit (8 * i) v) :: byte) n"
      using n by (simp add: bit_simps)
  qed
  then have "le_bytes w u = le_bytes w v" by (simp add: le_bytes_def)
  then show ?thesis by (simp add: int_bytes_def)
qed

lemma readInt_bytes:
  assumes "length b = w" and "w \<le> 8"
  shows "int_bytes (readInt b w e sg) w e = b"
proof -
  obtain v where v: "int_bytes v w e = b" "take_bit (8 * w) v = v" using ReadInt_onto [OF assms, of e] by metis
  have u: "(if e = LittleEndian then foldl shift_in 0 (rev b) else beUint b) = v"
    using foldl_shift_in [of 0 w v] v by (auto simp: int_bytes_def beUint_def)
  show ?thesis
  proof (cases "sg \<and> w < 8 \<and> 0 < w")
    case True
    have "take_bit (8 * w) (signed_take_bit (8 * w - 1) v) = take_bit (8 * w) v"
    proof (rule bit_word_eqI)
      fix n assume "n < LENGTH(64)"
      then show "bit (take_bit (8 * w) (signed_take_bit (8 * w - 1) v)) n = bit (take_bit (8 * w) v) n"
        using True by (cases "n = 8 * w - 1") (auto simp: bit_simps min_def)
    qed
    moreover have "readInt b w e sg = signed_take_bit (8 * w - 1) v"
      using True sign_extend [of w v] v(2) u by (simp add: readInt_def)
    ultimately show ?thesis using int_bytes_low v(1) by metis
  next
    case False
    then consider "w = 0" | "readInt b w e sg = v" using u by (auto simp: readInt_def)
    then show ?thesis using v(1) assms(1) by cases (simp_all add: int_bytes_def le_bytes_def)
  qed
qed

lemma map_build:
  "map_option (map_sum id (apfst g)) r = Some (Inr (n, p)) \<longleftrightarrow> (\<exists>x. r = Some (Inr (x, p)) \<and> n = g x)"
proof (cases r)
  case (Some y)
  then show ?thesis by (cases y) auto
qed simp

text \<open>The bytes between two positions of the input.\<close>

definition reads :: "byte list \<Rightarrow> nat \<Rightarrow> byte list \<Rightarrow> nat \<Rightarrow> bool" where
  "reads src pos bs pos' \<longleftrightarrow> pos' = pos + length bs \<and> drop pos src = bs @ drop pos' src"

lemma reads_refl [simp]: "reads src pos [] pos"
  by (simp add: reads_def)

lemma reads_trans: "reads src a x b \<Longrightarrow> reads src b y c \<Longrightarrow> reads src a (x @ y) c"
  by (simp add: reads_def)

lemma reads_take: "pos + n \<le> length src \<Longrightarrow> reads src pos (take_at src pos n) (pos + n)"
  using append_take_drop_id [of n "drop pos src"] by (simp add: reads_def take_at_def add.commute)

lemma reads_le: "reads src a x b \<Longrightarrow> a \<le> length src \<Longrightarrow> b \<le> length src"
  using length_drop [of a src] by (auto simp: reads_def)

text \<open>Integers of the grammar are at most eight bytes wide.\<close>

fun narrow :: "stype \<Rightarrow> bool" and narrow_fields :: "sfield list \<Rightarrow> bool" where
  "narrow (SType i fs) \<longleftrightarrow> sWidth i \<le> 8 \<and> narrow_fields fs"
| "narrow_fields [] \<longleftrightarrow> True"
| "narrow_fields (SField name t d # fs) \<longleftrightarrow> narrow t \<and> narrow_fields fs"

definition narrow_schema :: "schema \<Rightarrow> bool" where
  "narrow_schema s \<longleftrightarrow> list_all (\<lambda>(name, t). narrow t) (Types s)"

lemma narrow_Lookup: "narrow_schema s \<Longrightarrow> Schema_Lookup s name = Some t \<Longrightarrow> narrow t"
  by (auto simp: narrow_schema_def Schema_Lookup_def list_all_iff dest: map_of_SomeD)

lemma narrow_simps: "narrow t \<longleftrightarrow> sWidth (sinfo t) \<le> 8 \<and> narrow_fields (Fields t)"
  by (cases t) simp

lemma narrow_Cons: "narrow_fields (f # fs) \<longleftrightarrow> narrow (fieldType f) \<and> narrow_fields fs"
  by (cases f) simp

definition keeps :: "byte list \<Rightarrow> build \<Rightarrow> bool" where
  "keeps src b \<longleftrightarrow> (\<forall>t name parent depth pos n pos'. narrow t \<longrightarrow> pos \<le> length src \<longrightarrow>
     b t name parent depth pos = Some (Inr (n, pos')) \<longrightarrow> reads src pos (Encode n) pos')"

lemma keepsD: "keeps src b \<Longrightarrow> b t name parent depth pos = Some (Inr (n, pos')) \<Longrightarrow> narrow t \<Longrightarrow> pos \<le> length src \<Longrightarrow>
    reads src pos (Encode n) pos'"
  by (simp add: keeps_def)

lemma payload_length_left:
  assumes "payload_length src t name parent pos = Some n" and "pos \<le> length src"
  shows "pos + n \<le> length src"
proof -
  have "int n \<le> int (length src - pos)"
    using assms(1) unfolding payload_length_def Let_def
    by (auto split: if_split_asm option.split_asm)
  then show ?thesis using assms(2) by simp
qed

lemma bytes_node_keeps:
  assumes "bytes_node src t name parent pos = Inr (n, pos')" and "pos \<le> length src"
  shows "reads src pos (Encode n) pos'"
proof -
  obtain k where k: "payload_length src t name parent pos = Some k"
    using assms(1) by (cases "payload_length src t name parent pos") (auto simp: bytes_node_def Let_def)
  then have "Encode n = take_at src pos k" "pos' = pos + k"
    using assms(1) by (auto simp: bytes_node_def Let_def Encode_Node)
  then show ?thesis using reads_take [OF payload_length_left [OF k assms(2)]] by simp
qed

lemma int_node_keeps:
  assumes "int_node src t name pos = Inr (n, pos')" and "pos \<le> length src" and "sWidth t \<le> 8"
  shows "reads src pos (Encode n) pos'"
proof -
  have "pos + sWidth t \<le> length src" using assms by (auto simp: int_node_def split: if_splits)
  moreover from this have "length (take_at src pos (sWidth t)) = sWidth t" by (simp add: take_at_def)
  ultimately show ?thesis using assms reads_take [of pos "sWidth t" src] readInt_bytes [OF _ assms(3)]
    by (auto simp: int_node_def Encode_Node split: if_splits)
qed

lemma decode_field_keeps:
  assumes "keeps src b" and "decode_field b src f kids depth pos = Some (Inr (n, pos'))" and "pos \<le> length src"
    and "narrow (fieldType f)"
  shows "reads src pos (Encode n) pos'"
proof (cases "fieldDerive f")
  case None
  then show ?thesis using assms keepsD by (auto simp: decode_field_def)
next
  case (Some d)
  let ?t = "sinfo (fieldType f)"
  have "sWidth ?t \<le> 8" using assms(4) by (simp add: narrow_simps)
  have "pos + sWidth ?t \<le> length src" using assms Some by (auto simp: decode_field_def Let_def split: if_splits)
  moreover from this have "length (take_at src pos (sWidth ?t)) = sWidth ?t" by (simp add: take_at_def)
  ultimately show ?thesis
    using assms Some reads_take [of pos "sWidth ?t" src] readInt_bytes [OF _ \<open>sWidth ?t \<le> 8\<close>]
    by (auto simp: decode_field_def Let_def Encode_Node split: if_splits)
qed

lemma decode_fields_keeps:
  assumes "keeps src b"
  shows "decode_fields b src fs kids depth pos = Some (Inr (kids', pos')) \<Longrightarrow> pos \<le> length src \<Longrightarrow> narrow_fields fs \<Longrightarrow>
    \<exists>more. kids' = kids @ more \<and> reads src pos (concat (map Encode more)) pos'"
proof (induction fs arbitrary: kids pos)
  case (Cons f fs)
  obtain kid p where k: "decode_field b src f kids depth pos = Some (Inr (kid, p))"
    "decode_fields b src fs (kids @ [kid]) depth p = Some (Inr (kids', pos'))"
    using Cons.prems(1) by (auto split: option.splits sum.splits)
  have r: "reads src pos (Encode kid) p" using decode_field_keeps [OF assms k(1)] Cons.prems by (simp add: narrow_Cons)
  obtain more where "kids' = (kids @ [kid]) @ more" "reads src p (concat (map Encode more)) pos'"
    using Cons.IH [OF k(2) reads_le [OF r]] Cons.prems by (auto simp: narrow_Cons)
  then show ?case using reads_trans [OF r] by (intro exI [of _ "kid # more"]) simp
qed simp

lemma decode_elems_keeps:
  assumes "keeps src b" and "narrow t"
  shows "decode_elems b src t name room kids depth pos = Some (kids', pos') \<Longrightarrow> pos \<le> length src \<Longrightarrow>
    \<exists>more. kids' = kids @ more \<and> reads src pos (concat (map Encode more)) pos'"
proof (induction room arbitrary: kids pos)
  case (Suc room)
  consider "kids' = kids" "pos' = pos"
    | kid p where "b t name (Some kids) depth pos = Some (Inr (kid, p))"
      "decode_elems b src t name room (kids @ [kid]) depth p = Some (kids', pos')"
  proof (cases "\<exists>kid p. length src - pos \<noteq> 0 \<and> b t name (Some kids) depth pos = Some (Inr (kid, p)) \<and> p \<noteq> pos")
    case True
    then obtain kid p where k: "length src - pos \<noteq> 0" "b t name (Some kids) depth pos = Some (Inr (kid, p))" "p \<noteq> pos" by blast
    have "decode_elems b src t name room (kids @ [kid]) depth p = Some (kids', pos')" using Suc.prems(1) k by simp
    with k(2) show thesis by (rule that(2))
  next
    case False
    then have "kids = kids' \<and> pos = pos'" using Suc.prems(1) by (auto split: if_split_asm option.split_asm sum.split_asm)
    then show thesis using that(1) by blast
  qed
  then show ?case
  proof cases
    case (2 kid p)
    have r: "reads src pos (Encode kid) p" using keepsD [OF assms(1) 2(1) assms(2) Suc.prems(2)] .
    obtain more where "kids' = (kids @ [kid]) @ more" "reads src p (concat (map Encode more)) pos'"
      using Suc.IH [OF 2(2) reads_le [OF r Suc.prems(2)]] by auto
    then show ?thesis using reads_trans [OF r] by (intro exI [of _ "kid # more"]) simp
  qed simp
qed simp

lemma decode_choice_keeps:
  assumes "keeps src b"
  shows "decode_choice b fs depth pos = Some (Inr (n, pos')) \<Longrightarrow> pos \<le> length src \<Longrightarrow> narrow_fields fs \<Longrightarrow>
    reads src pos (Encode n) pos'"
proof (induction fs)
  case (Cons f fs)
  then show ?case using keepsD [OF assms] by (auto simp: narrow_Cons split: option.splits sum.splits)
qed simp

lemma decode_repeat_keeps:
  assumes "keeps src b" and "narrow_schema s" and "decode_repeat b s src t name parent depth pos = Some (Inr (n, pos'))"
    and "pos \<le> length src"
  shows "reads src pos (Encode n) pos'"
proof -
  obtain elem room h kids where "Schema_Lookup s (Elem t) = Some elem"
    "decode_elems b src elem (Elem t) room [] (depth + 1) pos = Some (kids, pos')" "n = Node h kids" "Kind h = KindRepeat"
    using assms(3) by (auto simp: decode_repeat_def Let_def split: if_splits option.splits)
  then show ?thesis using decode_elems_keeps [OF assms(1) narrow_Lookup [OF assms(2)]] assms(4) by (fastforce simp: Encode_Node)
qed

lemma decode_build_keeps:
  assumes s: "narrow_schema s"
  shows "keeps src (decode_build k s src)"
proof (induction k)
  case 0
  then show ?case by (simp add: keeps_def)
next
  case (Suc k)
  show ?case unfolding keeps_def
  proof (intro allI impI)
    fix t name parent depth pos n pos'
    assume t: "narrow t" and pos: "pos \<le> length src" and d: "decode_build (Suc k) s src t name parent depth pos = Some (Inr (n, pos'))"
    have nf: "narrow_fields (Fields t)" "sWidth (sinfo t) \<le> 8" using t by (simp_all add: narrow_simps)
    have depth: "depth \<le> maxDecodeDepth" using d by (auto split: if_splits)
    show "reads src pos (Encode n) pos'"
    proof (cases "sKind (sinfo t)")
      case SKindStruct
      have "map_option (map_sum id (apfst (Node (alloc KindStruct name))))
          (decode_fields (decode_build k s src) src (Fields t) [] (depth + 1) pos) = Some (Inr (n, pos'))"
        using d depth SKindStruct by (simp add: Let_def)
      then obtain kids where "n = Node (alloc KindStruct name) kids"
        "decode_fields (decode_build k s src) src (Fields t) [] (depth + 1) pos = Some (Inr (kids, pos'))"
        unfolding map_build by blast
      then show ?thesis using decode_fields_keeps [OF Suc _ pos nf(1)] by (fastforce simp: Encode_Node)
    next
      case SKindChoice
      have "map_option (map_sum id (apfst (\<lambda>kid. Node (alloc KindChoice name) [kid])))
          (decode_choice (decode_build k s src) (Fields t) (depth + 1) pos) = Some (Inr (n, pos'))"
        using d depth SKindChoice by (simp add: Let_def)
      then obtain kid where "n = Node (alloc KindChoice name) [kid]"
        "decode_choice (decode_build k s src) (Fields t) (depth + 1) pos = Some (Inr (kid, pos'))"
        unfolding map_build by blast
      then show ?thesis using decode_choice_keeps [OF Suc _ pos nf(1)] by (simp add: Encode_Node selected_index_def)
    next
      case SKindOpt
      then obtain elem where e: "Schema_Lookup s (Elem (sinfo t)) = Some elem" using d depth by (auto simp: Let_def split: option.splits)
      show ?thesis
      proof (cases "\<exists>kid p. decode_build k s src elem (Elem (sinfo t)) parent (depth + 1) pos = Some (Inr (kid, p))")
        case True
        then obtain kid p where kid: "decode_build k s src elem (Elem (sinfo t)) parent (depth + 1) pos = Some (Inr (kid, p))" by blast
        have "n = Node (SetPresent True (alloc KindOpt name)) [kid]" "pos' = p" using kid d depth e SKindOpt by (simp_all add: Let_def)
        then show ?thesis using keepsD [OF Suc kid narrow_Lookup [OF s e] pos] by (simp add: Encode_Node)
      next
        case False
        then have "pos' = pos" "\<exists>k. n = Node (SetPresent False (alloc KindOpt name)) [k]"
          using d depth e SKindOpt by (auto simp: Let_def split: option.splits sum.splits)
        then show ?thesis by (auto simp: Encode_Node)
      qed
    next
      case SKindRef
      then show ?thesis using d depth keepsD [OF Suc _ narrow_Lookup [OF s] pos] by (auto simp: Let_def split: option.splits)
    qed (use d depth pos nf Suc s in \<open>auto simp: Let_def intro: bytes_node_keeps int_node_keeps decode_repeat_keeps\<close>)
  qed
qed

section \<open>Decoding ends\<close>

text \<open>The parser declares structs only, so a reference leads to a struct at once.\<close>

definition declared_structs :: "schema \<Rightarrow> bool" where
  "declared_structs s \<longleftrightarrow> list_all (\<lambda>(name, t). sKind (sinfo t) = SKindStruct) (Types s)"

lemma declared_structs_Lookup: "declared_structs s \<Longrightarrow> Schema_Lookup s name = Some t \<Longrightarrow> sKind (sinfo t) = SKindStruct"
  by (auto simp: declared_structs_def Schema_Lookup_def list_all_iff dest: map_of_SomeD)

definition total_at :: "build \<Rightarrow> nat \<Rightarrow> bool" where
  "total_at b depth \<longleftrightarrow> (\<forall>t name parent pos. b t name parent depth pos \<noteq> None)"

lemma total_atE: "total_at b depth \<Longrightarrow> \<exists>r. b t name parent depth pos = Some r"
  by (simp add: total_at_def)

lemma decode_field_total: "total_at b depth \<Longrightarrow> \<exists>r. decode_field b src f kids depth pos = Some r"
  by (auto simp: decode_field_def Let_def total_at_def split: option.split)

lemma decode_fields_total: "total_at b depth \<Longrightarrow> \<exists>r. decode_fields b src fs kids depth pos = Some r"
proof (induction fs arbitrary: kids pos)
  case (Cons f fs)
  obtain r where "decode_field b src f kids depth pos = Some r" using decode_field_total [OF Cons.prems] by blast
  then show ?case using Cons by (cases r) auto
qed simp

lemma decode_elems_total: "total_at b depth \<Longrightarrow> \<exists>r. decode_elems b src t name room kids depth pos = Some r"
proof (induction room arbitrary: kids pos)
  case (Suc room)
  obtain r where "b t name (Some kids) depth pos = Some r" using total_atE [OF Suc.prems] by blast
  then show ?case using Suc by (cases r) auto
qed simp

lemma decode_choice_total: "total_at b depth \<Longrightarrow> \<exists>r. decode_choice b fs depth pos = Some r"
proof (induction fs)
  case (Cons f fs)
  obtain r where "b (fieldType f) (fieldName f) (Some []) depth pos = Some r" using total_atE [OF Cons.prems] by blast
  then show ?case using Cons by (cases r) auto
qed simp

lemma decode_repeat_total:
  assumes "total_at b (depth + 1)"
  shows "\<exists>r. decode_repeat b s src t name parent depth pos = Some r"
proof (cases "Schema_Lookup s (Elem t)")
  case (Some elem)
  have ne: "decode_elems b src elem (Elem t) room [] (Suc depth) pos = None \<longleftrightarrow> False" for room
    using decode_elems_total [of b "Suc depth" src elem "Elem t" room "[]" pos] assms by auto
  show ?thesis using Some by (auto simp: decode_repeat_def Let_def ne split: option.split)
qed (simp add: decode_repeat_def)

definition needed :: "stype \<Rightarrow> nat \<Rightarrow> nat" where
  "needed t depth = 2 * (maxDecodeDepth + 1 - depth) + (if sKind (sinfo t) = SKindRef then 2 else 1)"

lemma decode_build_total:
  assumes s: "declared_structs s"
  shows "needed t depth \<le> k \<Longrightarrow> \<exists>r. decode_build k s src t name parent depth pos = Some r"
proof (induction k arbitrary: t name parent depth pos)
  case 0
  then show ?case by (simp add: needed_def split: if_splits)
next
  case (Suc k)
  show ?case
  proof (cases "depth > maxDecodeDepth")
    case False
    have "needed u (depth + 1) \<le> k" for u using Suc.prems False by (auto simp: needed_def split: if_splits)
    then have t: "total_at (decode_build k s src) (depth + 1)" unfolding total_at_def using Suc.IH by (metis option.distinct(1))
    show ?thesis
    proof (cases "sKind (sinfo t)")
      case SKindRef
      show ?thesis
      proof (cases "Schema_Lookup s (sTarget (sinfo t))")
        case (Some target)
        then have "needed target depth \<le> k" using declared_structs_Lookup [OF s Some] Suc.prems SKindRef by (simp add: needed_def)
        from Suc.IH [OF this] show ?thesis using False SKindRef Some by (simp add: Let_def)
      qed (simp add: False SKindRef Let_def)
    next
      case SKindOpt
      show ?thesis
      proof (cases "Schema_Lookup s (Elem (sinfo t))")
        case (Some elem)
        obtain r where "decode_build k s src elem (Elem (sinfo t)) parent (depth + 1) pos = Some r" using total_atE [OF t] by blast
        then show ?thesis using False SKindOpt Some by (cases r) (auto simp: Let_def)
      qed (simp add: False SKindOpt Let_def)
    next
      case SKindStruct
      then show ?thesis using False decode_fields_total [OF t] by (auto simp: Let_def)
    next
      case SKindChoice
      then show ?thesis using False decode_choice_total [OF t] by (auto simp: Let_def)
    next
      case SKindRepeat
      then show ?thesis using False decode_repeat_total [OF t] by (auto simp: Let_def)
    qed (simp_all add: False Let_def)
  qed simp
qed

text \<open>C36. Decoding by a grammar ends, never fails, and loses nothing: whatever the input, encoding the tree gives the
  input back byte for byte.\<close>

theorem Schema_Decode_keeps:
  assumes s: "narrow_schema s" "declared_structs s" and r: "Schema_Lookup s (Root s) = Some root"
  shows "\<exists>n. Schema_Decode s src = Some (Inr n) \<and> Encode n = src"
proof -
  have "needed root 0 \<le> decodeFuel" using declared_structs_Lookup [OF s(2) r] by (simp add: needed_def decodeFuel_def)
  then obtain out where d: "decode_build decodeFuel s src root (Root s) None 0 0 = Some out"
    using decode_build_total [OF s(2)] by blast
  have op: "Encode (Opaque bs) = bs" for bs by (simp add: Opaque_def Encode_Node)
  show ?thesis
  proof (cases out)
    case (Inl e)
    then show ?thesis using r d by (simp add: Schema_Decode_def Encode_Node op)
  next
    case (Inr x)
    obtain n pos where x: "x = (n, pos)" by (meson surj_pair)
    have "reads src 0 (Encode n) pos"
      using keepsD [OF decode_build_keeps [OF s(1)], of decodeFuel src root "Root s" None 0 0 n pos] d Inr x narrow_Lookup [OF s(1) r] by simp
    then have "drop 0 src = Encode n @ drop pos src" unfolding reads_def by blast
    then have "src = Encode n @ drop pos src" by simp
    then show ?thesis using r d Inr x by (cases "pos < length src") (auto simp: Schema_Decode_def Encode_Node op)
  qed
qed

section \<open>Where the declared bounds are forgotten\<close>

definition field_info :: "skind \<Rightarrow> sinfo" where
  "field_info k = \<lparr>sKind = k, sWidth = 0, sEndian = BigEndian, sSigned = False, sMin = 0, sMax = 0, Literal = [],
     LiteralInt = 0, HasLiteral = False, sImmutable = False, Elem = [], sTarget = []\<rparr>"

definition u8 :: stype where "u8 = SType ((field_info SKindInt)\<lparr>sWidth := 1\<rparr>) []"

definition over :: "derive_kind \<Rightarrow> string \<Rightarrow> derivation" where
  "over k name = \<lparr>dKind = k, From = Sibling name, To = \<lparr>Self = False, Absolute = False, Up = 0, Steps = []\<rparr>, Algo = [],
     SelfZero = False, Addend = 0\<rparr>"

text \<open>\<open>format r { n: u8 = len(^d)  d: bytes<0..2> }\<close>\<close>

definition ex_length :: schema where
  "ex_length = \<lparr>Root = ''r'', Types = [(''r'', SType (field_info SKindStruct)
     [SField ''n'' u8 (Some (over DeriveLength ''d'')),
      SField ''d'' (SType ((field_info SKindBytes)\<lparr>sMax := 2\<rparr>) []) None])]\<rparr>"

text \<open>\<open>format r { n: u8 = count(^xs)  xs: repeat e  tail: bytes }  struct e { v: u8 }\<close>\<close>

definition ex_count :: schema where
  "ex_count = \<lparr>Root = ''r'', Types = [(''r'', SType (field_info SKindStruct)
     [SField ''n'' u8 (Some (over DeriveCount ''xs'')),
      SField ''xs'' (SType ((field_info SKindRepeat)\<lparr>Elem := ''e''\<rparr>) []) None,
      SField ''tail'' (SType (field_info SKindBytes) []) None]),
     (''e'', SType (field_info SKindStruct) [SField ''v'' u8 None])]\<rparr>"

theorem Schema_Decode_keeps_witness:
  "\<exists>n. Schema_Decode ex_length [2, 65, 66, 67] = Some (Inr n) \<and> Encode n = [2, 65, 66, 67]"
proof (rule Schema_Decode_keeps)
  show "narrow_schema ex_length" "declared_structs ex_length" by code_simp+
  show "Schema_Lookup ex_length (Root ex_length) = Some (snd (hd (Types ex_length)))" by code_simp
qed

text \<open>Two accepted grammars for which decoding does not do what they say: a payload of at most two bytes whose
  declared length is three is taken whole, and the tree does not validate; and a sequence whose declared count is
  zero is given every byte there is, as if nothing had been declared.\<close>

lemma Schema_Decode_forgets_bounds:
  "Schema_Validate ex_length = Some None \<and>
   (case Schema_Decode ex_length [3, 65, 66, 67] of Some (Inr n) \<Rightarrow> Validate n = Some (''r.d'', PayloadBounds) | _ \<Rightarrow> False) \<and>
   Schema_Validate ex_count = Some None \<and>
   (case Schema_Decode ex_count [0, 7, 8] of Some (Inr n) \<Rightarrow> length (Children (Children n ! 1)) = 2 | _ \<Rightarrow> False)"
  by code_simp

end
