(* ===== verification/Generate.thy ===== *)
theory Generate
  imports Codec_Schema Rng IR_Fixed
begin

text \<open>
  Generation from a grammar, \<open>pkg/generate/generate.go\<close>. Where a draw panics, on an empty range or an empty
  choice, and where a negative number of children is asked for, the result is the error \<open>GenPanic\<close>. The recursion
  has fuel, so that not coming back is the value \<open>None\<close> for every amount of it. The chance of an option is an exact
  fraction.
\<close>

section \<open>The generator\<close>

record generator =
  Grammar :: schema
  MaxDepth :: int
  MaxBytes :: int
  DefaultRepeatMax :: int
  OptionalChance :: rat
  FixAfter :: bool

definition Generator_New :: "schema \<Rightarrow> generator" where
  "Generator_New s = \<lparr>Grammar = s, MaxDepth = 12, MaxBytes = 65536, DefaultRepeatMax = 8, OptionalChance = 1 / 2, FixAfter = True\<rparr>"

datatype gen_error =
    GenNoType string | GenNotInteger string | GenCannot skind | GenFix ir_error | GenPanic

type_synonym 'a generated = "(gen_error + 'a \<times> rand) option"

type_synonym gen = "stype \<Rightarrow> string \<Rightarrow> nat \<Rightarrow> rand \<Rightarrow> node generated"

definition randomInt :: "nat \<Rightarrow> rand \<Rightarrow> u64 \<times> rand" where
  "randomInt width r = (let (v, r) = Uint64 r in (if width < 8 then v AND (push_bit (8 * width) 1 - 1) else v, r))"

text \<open>Printable characters, one draw each.\<close>

fun printable :: "nat \<Rightarrow> rand \<Rightarrow> (byte list \<times> rand) option" where
  "printable 0 r = Some ([], r)"
| "printable (Suc n) r = do {
     (c, r) \<leftarrow> IntRange 0x20 0x7e r;
     (cs, r) \<leftarrow> printable n r;
     Some (word_of_int c # cs, r)
   }"

definition randomPayload :: "generator \<Rightarrow> sinfo \<Rightarrow> rand \<Rightarrow> (byte list \<times> rand) option" where
  "randomPayload g t r =
     (let lo = sMin t; hi = sMax t;
          hi = (if hi \<le> 0 then to_int64 (lo + 32) else hi);
          hi = (if MaxBytes g > 0 \<and> hi > MaxBytes g then MaxBytes g else hi);
          hi = (if hi < lo then lo else hi)
      in do {
        (n, r) \<leftarrow> IntRange lo hi r;
        if n \<le> 0 then Some ([], r)
        else if sKind t = SKindStr then printable (nat n) r
        else Some (Fill (nat n) r)
      })"

definition repeatCount :: "generator \<Rightarrow> sinfo \<Rightarrow> nat \<Rightarrow> rand \<Rightarrow> (int \<times> rand) option" where
  "repeatCount g t depth r =
     (let lo = sMin t; hi = sMax t;
          hi = (if hi \<le> 0 then to_int64 (lo + DefaultRepeatMax g) else hi)
      in if int depth \<ge> MaxDepth g then Some (lo, r)
         else IntRange lo (if hi < lo then lo else hi) r)"

definition gen_int :: "sinfo \<Rightarrow> string \<Rightarrow> rand \<Rightarrow> node \<times> rand" where
  "gen_int t name r =
     (let h = SetSigned (sSigned t) ((alloc KindInt name)\<lparr>Width := sWidth t, Endian := sEndian t\<rparr>)
      in if HasLiteral t then (Node (h\<lparr>Val := LiteralInt t\<rparr>) [], r)
         else (let (v, r) = randomInt (sWidth t) r in (Node (h\<lparr>Val := v\<rparr>) [], r)))"

definition gen_bytes :: "generator \<Rightarrow> sinfo \<Rightarrow> string \<Rightarrow> rand \<Rightarrow> gen_error + node \<times> rand" where
  "gen_bytes g t name r =
     (let h = SetImmutable (sImmutable t) ((alloc (if sKind t = SKindStr then KindStr else KindBytes) name)
                \<lparr>MinLen := to_int32 (sMin t), MaxLen := to_int32 (sMax t)\<rparr>)
      in if HasLiteral t then Inr (Node (h\<lparr>Raw := Literal t\<rparr>) [], r)
         else (case randomPayload g t r of
                 None \<Rightarrow> Inl GenPanic
               | Some (bs, r) \<Rightarrow> Inr (Node (h\<lparr>Raw := bs\<rparr>) [], r)))"

definition gen_field :: "gen \<Rightarrow> sfield \<Rightarrow> nat \<Rightarrow> rand \<Rightarrow> node generated" where
  "gen_field b f depth r =
     (let t = sinfo (fieldType f)
      in case fieldDerive f of
           None \<Rightarrow> b (fieldType f) (fieldName f) depth r
         | Some d \<Rightarrow>
             if sKind t \<noteq> SKindInt then Some (Inl (GenNotInteger (fieldName f)))
             else Some (Inr (Node ((alloc KindDerived (fieldName f))\<lparr>Width := sWidth t, Endian := sEndian t,
                    Derive := Some d, Val := 0\<rparr>) [], r)))"

fun gen_fields :: "gen \<Rightarrow> sfield list \<Rightarrow> node list \<Rightarrow> nat \<Rightarrow> rand \<Rightarrow> node list generated" where
  "gen_fields b [] kids depth r = Some (Inr (kids, r))"
| "gen_fields b (f # fs) kids depth r =
     (case gen_field b f depth r of
        None \<Rightarrow> None
      | Some (Inl e) \<Rightarrow> Some (Inl e)
      | Some (Inr (kid, r)) \<Rightarrow> gen_fields b fs (kids @ [kid]) depth r)"

fun gen_elems :: "gen \<Rightarrow> stype \<Rightarrow> string \<Rightarrow> nat \<Rightarrow> node list \<Rightarrow> nat \<Rightarrow> rand \<Rightarrow> node list generated" where
  "gen_elems b t name 0 kids depth r = Some (Inr (kids, r))"
| "gen_elems b t name (Suc n) kids depth r =
     (case b t name depth r of
        None \<Rightarrow> None
      | Some (Inl e) \<Rightarrow> Some (Inl e)
      | Some (Inr (kid, r)) \<Rightarrow> gen_elems b t name n (kids @ [kid]) depth r)"

definition gen_repeat :: "gen \<Rightarrow> generator \<Rightarrow> sinfo \<Rightarrow> string \<Rightarrow> nat \<Rightarrow> rand \<Rightarrow> node generated" where
  "gen_repeat b g t name depth r =
     (case Schema_Lookup (Grammar g) (Elem t) of
        None \<Rightarrow> Some (Inl (GenNoType (Elem t)))
      | Some elem \<Rightarrow>
          let h = (alloc KindRepeat name)\<lparr>MinLen := to_int32 (sMin t), MaxLen := to_int32 (sMax t)\<rparr>
          in (case repeatCount g t depth r of
                None \<Rightarrow> Some (Inl GenPanic)
              | Some (n, r) \<Rightarrow>
                  if n < 0 then Some (Inl GenPanic)
                  else map_option (map_sum id (apfst (Node h))) (gen_elems b elem (Elem t) (nat n) [] (depth + 1) r)))"

definition gen_choice :: "gen \<Rightarrow> sfield list \<Rightarrow> string \<Rightarrow> nat \<Rightarrow> rand \<Rightarrow> node generated" where
  "gen_choice b fs name depth r =
     (case gen_fields b fs [] (depth + 1) r of
        None \<Rightarrow> None
      | Some (Inl e) \<Rightarrow> Some (Inl e)
      | Some (Inr (kids, r)) \<Rightarrow>
          (case Intn (int (length fs)) r of
             None \<Rightarrow> Some (Inl GenPanic)
           | Some (i, r) \<Rightarrow> Some (Inr (Node ((alloc KindChoice name)\<lparr>Sel := to_int32 i\<rparr>) kids, r))))"

text \<open>The child of an option is always built; only then is its presence decided.\<close>

definition gen_opt :: "gen \<Rightarrow> generator \<Rightarrow> sinfo \<Rightarrow> string \<Rightarrow> nat \<Rightarrow> rand \<Rightarrow> node generated" where
  "gen_opt b g t name depth r =
     (case Schema_Lookup (Grammar g) (Elem t) of
        None \<Rightarrow> Some (Inl (GenNoType (Elem t)))
      | Some elem \<Rightarrow>
          (case b elem (Elem t) (depth + 1) r of
             None \<Rightarrow> None
           | Some (Inl e) \<Rightarrow> Some (Inl e)
           | Some (Inr (kid, r)) \<Rightarrow>
               let (present, r) = (if int depth < MaxDepth g then Chance (OptionalChance g) r else (False, r))
               in Some (Inr (Node (SetPresent present (alloc KindOpt name)) [kid], r))))"

primrec gen_build :: "nat \<Rightarrow> generator \<Rightarrow> gen" where
  "gen_build 0 g = (\<lambda>t name depth r. None)"
| "gen_build (Suc k) g = (\<lambda>t name depth r.
     let i = sinfo t
     in case sKind i of
          SKindInt \<Rightarrow> Some (Inr (gen_int i name r))
        | SKindBytes \<Rightarrow> Some (gen_bytes g i name r)
        | SKindStr \<Rightarrow> Some (gen_bytes g i name r)
        | SKindStruct \<Rightarrow>
            map_option (map_sum id (apfst (Node (alloc KindStruct name)))) (gen_fields (gen_build k g) (Fields t) [] (depth + 1) r)
        | SKindRepeat \<Rightarrow> gen_repeat (gen_build k g) g i name depth r
        | SKindChoice \<Rightarrow> gen_choice (gen_build k g) (Fields t) name depth r
        | SKindOpt \<Rightarrow> gen_opt (gen_build k g) g i name depth r
        | SKindRef \<Rightarrow>
            (case Schema_Lookup (Grammar g) (sTarget i) of
               None \<Rightarrow> Some (Inl (GenNoType (sTarget i)))
             | Some target \<Rightarrow> gen_build k g target name depth r)
        | SKindInvalid \<Rightarrow> Some (Inl (GenCannot SKindInvalid)))"

definition Generate :: "nat \<Rightarrow> registry \<Rightarrow> generator \<Rightarrow> rand \<Rightarrow> node generated" where
  "Generate k chk g r =
     (case Schema_Lookup (Grammar g) (Root (Grammar g)) of
        None \<Rightarrow> Some (Inl (GenNoType (Root (Grammar g))))
      | Some start \<Rightarrow>
          (case gen_build k g start (Root (Grammar g)) 0 r of
             None \<Rightarrow> None
           | Some (Inl e) \<Rightarrow> Some (Inl e)
           | Some (Inr (n, r)) \<Rightarrow>
               if FixAfter g then
                 (case Fix chk SuppressNone n of
                    Inl e \<Rightarrow> Some (Inl (GenFix e))
                  | Inr (b, n) \<Rightarrow> Some (Inr (n, r)))
               else Some (Inr (n, r))))"

section \<open>What is generated is valid\<close>

text \<open>Bounds that fit the fields of a node.\<close>

definition bounded :: "sinfo \<Rightarrow> bool" where
  "bounded t \<longleftrightarrow> 0 \<le> sMin t \<and> sMin t < 2 ^ 31 \<and> 0 \<le> sMax t \<and> sMax t < 2 ^ 31 \<and> (sMax t = 0 \<or> sMin t \<le> sMax t)"

text \<open>Types every part of which can be generated.\<close>

fun sound_type :: "schema \<Rightarrow> stype \<Rightarrow> bool" and sound_fields :: "schema \<Rightarrow> sfield list \<Rightarrow> bool" where
  "sound_type s (SType t fs) \<longleftrightarrow>
     (case sKind t of
        SKindInt \<Rightarrow> sWidth t \<in> {1, 2, 4, 8}
      | SKindBytes \<Rightarrow> bounded t \<and> (HasLiteral t \<longrightarrow> sMin t \<le> int (length (Literal t)) \<and> (sMax t = 0 \<or> int (length (Literal t)) \<le> sMax t))
      | SKindStr \<Rightarrow> bounded t \<and> (HasLiteral t \<longrightarrow> sMin t \<le> int (length (Literal t)) \<and> (sMax t = 0 \<or> int (length (Literal t)) \<le> sMax t))
      | SKindStruct \<Rightarrow> sound_fields s fs
      | SKindRepeat \<Rightarrow> bounded t \<and> Schema_Lookup s (Elem t) \<noteq> None
      | SKindChoice \<Rightarrow> fs \<noteq> [] \<and> length fs < 2 ^ 31 \<and> sound_fields s fs
      | SKindOpt \<Rightarrow> Schema_Lookup s (Elem t) \<noteq> None
      | SKindRef \<Rightarrow> Schema_Lookup s (sTarget t) \<noteq> None
      | SKindInvalid \<Rightarrow> False)"
| "sound_fields s [] \<longleftrightarrow> True"
| "sound_fields s (SField name t d # fs) \<longleftrightarrow>
     sound_type s t \<and> (d \<noteq> None \<longrightarrow> sKind (sinfo t) = SKindInt) \<and> sound_fields s fs"

definition sound_schema :: "schema \<Rightarrow> bool" where
  "sound_schema s \<longleftrightarrow> list_all (\<lambda>(name, t). sound_type s t) (Types s)"

lemma sound_Lookup: "sound_schema s \<Longrightarrow> Schema_Lookup s name = Some t \<Longrightarrow> sound_type s t"
  by (auto simp: sound_schema_def Schema_Lookup_def list_all_iff dest: map_of_SomeD)

lemma sound_Cons: "sound_fields s (f # fs) \<longleftrightarrow>
    sound_type s (fieldType f) \<and> (fieldDerive f \<noteq> None \<longrightarrow> sKind (sinfo (fieldType f)) = SKindInt) \<and> sound_fields s fs"
  by (cases f) simp

definition gen_ok :: "schema \<Rightarrow> gen \<Rightarrow> bool" where
  "gen_ok s b \<longleftrightarrow> (\<forall>t name depth r out. sound_type s t \<longrightarrow> b t name depth r = Some out \<longrightarrow> (\<exists>n r'. out = Inr (n, r') \<and> valid n))"

lemma gen_okD: "gen_ok s b \<Longrightarrow> b t name depth r = Some out \<Longrightarrow> sound_type s t \<Longrightarrow> \<exists>n r'. out = Inr (n, r') \<and> valid n"
  by (simp add: gen_ok_def)

lemma gen_int_valid: "sWidth t \<in> {1, 2, 4, 8} \<Longrightarrow> \<exists>n r'. gen_int t name r = (n, r') \<and> valid n"
  by (cases "randomInt (sWidth t) r") (simp add: gen_int_def Let_def check_simps FitsLen_def IsLeaf_def)

lemma ok_printable: "ok (printable n r) (\<lambda>out. length (fst out) = n)"
proof (induction n arbitrary: r)
  case (Suc n)
  show ?case unfolding printable.simps by (intro wp) (auto intro!: ok_bind ok_mono [OF Suc])
qed simp

lemma length_fill_word [simp]: "length (fill_word n v) = n"
  by (induction n v rule: fill_word.induct) simp_all

lemma length_Fill: "length (fst (Fill n r)) = n"
proof (induction n arbitrary: r rule: less_induct)
  case (less n)
  show ?case
  proof (cases "n = 0")
    case False
    have "length (fst (Fill (n - 8) (snd (Uint64 r)))) = n - 8" using less [of "n - 8"] False by simp
    then show ?thesis using False by (subst Fill.simps) (simp add: split_beta)
  qed (simp add: Fill.simps)
qed

lemma ok_randomPayload:
  assumes "bounded t"
  shows "ok (randomPayload g t r) (\<lambda>out. sMin t \<le> int (length (fst out)) \<and> (sMax t = 0 \<or> int (length (fst out)) \<le> sMax t))"
proof -
  let ?hi = "if sMax t \<le> 0 then to_int64 (sMin t + 32) else sMax t"
  let ?cap = "if MaxBytes g > 0 \<and> ?hi > MaxBytes g then MaxBytes g else ?hi"
  let ?top = "if ?cap < sMin t then sMin t else ?cap"
  have fit: "to_int64 (sMin t + 32) = sMin t + 32" using assms by (simp add: bounded_def fits_int_def)
  have top: "sMin t \<le> ?top" "?top < 2 ^ 61" "sMax t = 0 \<or> ?top \<le> sMax t" "- (2 ^ 61) \<le> sMin t"
    using assms unfolding fit by (auto simp: bounded_def)
  have "ok (if n \<le> 0 then Some ([], r) else if sKind t = SKindStr then printable (nat n) r else Some (Fill (nat n) r))
      (\<lambda>out. sMin t \<le> int (length (fst out)) \<and> (sMax t = 0 \<or> int (length (fst out)) \<le> sMax t))"
    if "sMin t \<le> n" "n \<le> ?top" for n r
  proof -
    have "0 \<le> n" using that(1) assms by (simp add: bounded_def)
    moreover have "sMax t = 0 \<or> n \<le> sMax t" using that(2) top(3) by (meson order_trans)
    ultimately show ?thesis using that(1) ok_mono [OF ok_printable [of "nat n" r]] by (auto intro!: ok_if simp: length_Fill)
  qed
  then show ?thesis unfolding randomPayload_def Let_def using top by (intro ok_bind ok_IntRange) auto
qed

lemma repeatCount_range:
  assumes "bounded t" and "0 \<le> DefaultRepeatMax g" and "DefaultRepeatMax g < 2 ^ 31"
  shows "ok (repeatCount g t depth r) (\<lambda>out. sMin t \<le> fst out \<and> (sMax t = 0 \<or> fst out \<le> sMax t))"
proof -
  let ?hi = "if sMax t \<le> 0 then to_int64 (sMin t + DefaultRepeatMax g) else sMax t"
  let ?top = "if ?hi < sMin t then sMin t else ?hi"
  have fit: "to_int64 (sMin t + DefaultRepeatMax g) = sMin t + DefaultRepeatMax g" using assms by (simp add: bounded_def fits_int_def)
  have top: "sMin t \<le> ?top" "?top < 2 ^ 61" "sMax t = 0 \<or> ?top \<le> sMax t" "- (2 ^ 61) \<le> sMin t"
    using assms unfolding fit by (auto simp: bounded_def)
  then show ?thesis unfolding repeatCount_def Let_def using assms(1)
    by (intro ok_if ok_IntRange) (auto simp: bounded_def)
qed

lemma bounded_int32: "bounded t \<Longrightarrow> to_int32 (sMin t) = sMin t \<and> to_int32 (sMax t) = sMax t"
  by (simp add: bounded_def)

lemma gen_bytes_valid:
  assumes b: "bounded t" and k: "sKind t = SKindBytes \<or> sKind t = SKindStr"
    and lit: "HasLiteral t \<longrightarrow> sMin t \<le> int (length (Literal t)) \<and> (sMax t = 0 \<or> int (length (Literal t)) \<le> sMax t)"
  shows "\<exists>n r'. gen_bytes g t name r = Inr (n, r') \<and> valid n"
proof -
  let ?h = "SetImmutable (sImmutable t) ((alloc (if sKind t = SKindStr then KindStr else KindBytes) name)
              \<lparr>MinLen := to_int32 (sMin t), MaxLen := to_int32 (sMax t)\<rparr>)"
  have v: "valid (Node (?h\<lparr>Raw := bs\<rparr>) [])" if "sMin t \<le> int (length bs) \<and> (sMax t = 0 \<or> int (length bs) \<le> sMax t)" for bs
    using that b k bounded_int32 [OF b] by (auto simp: check_simps FitsLen_def IsLeaf_def bounded_def)
  show ?thesis
  proof (cases "HasLiteral t")
    case True
    then show ?thesis using v lit by (simp add: gen_bytes_def Let_def)
  next
    case False
    obtain bs r' where "randomPayload g t r = Some (bs, r')" "sMin t \<le> int (length bs) \<and> (sMax t = 0 \<or> int (length bs) \<le> sMax t)"
      using ok_randomPayload [OF b, of g r] by (auto elim!: okE)
    then show ?thesis using v False by (simp add: gen_bytes_def Let_def)
  qed
qed

lemma gen_field_valid:
  assumes "gen_ok s b" and "gen_field b f depth r = Some out" and "sound_fields s (f # fs)"
  shows "\<exists>n r'. out = Inr (n, r') \<and> valid n"
proof (cases "fieldDerive f")
  case None
  then show ?thesis using assms gen_okD [OF assms(1)] by (simp add: gen_field_def sound_Cons)
next
  case (Some d)
  obtain t fs' where t: "fieldType f = SType t fs'" by (cases "fieldType f")
  then have "sKind t = SKindInt" "sWidth t \<in> {1, 2, 4, 8}" using assms(3) Some by (auto simp: sound_Cons)
  then show ?thesis using assms(2) Some t by (auto simp: gen_field_def Let_def check_simps FitsLen_def IsLeaf_def)
qed

lemma gen_fields_valid:
  assumes "gen_ok s b"
  shows "gen_fields b fs kids depth r = Some out \<Longrightarrow> sound_fields s fs \<Longrightarrow> list_all valid kids \<Longrightarrow>
    \<exists>kids' r'. out = Inr (kids', r') \<and> list_all valid kids' \<and> length kids' = length kids + length fs"
proof (induction fs arbitrary: kids r)
  case (Cons f fs)
  obtain o1 where o1: "gen_field b f depth r = Some o1" using Cons.prems(1) by (auto split: option.splits)
  then obtain kid r1 where "o1 = Inr (kid, r1)" "valid kid" using gen_field_valid [OF assms o1 Cons.prems(2)] by blast
  then show ?case using Cons.IH [of "kids @ [kid]" r1] Cons.prems o1 by (simp add: sound_Cons)
qed auto

lemma gen_elems_valid:
  assumes "gen_ok s b" and "sound_type s t"
  shows "gen_elems b t name n kids depth r = Some out \<Longrightarrow> list_all valid kids \<Longrightarrow>
    \<exists>kids' r'. out = Inr (kids', r') \<and> list_all valid kids' \<and> length kids' = length kids + n"
proof (induction n arbitrary: kids r)
  case (Suc n)
  obtain o1 where o1: "b t name depth r = Some o1" using Suc.prems(1) by (auto split: option.splits)
  then obtain kid r1 where "o1 = Inr (kid, r1)" "valid kid" using gen_okD [OF assms(1) o1 assms(2)] by blast
  then show ?case using Suc.IH [of "kids @ [kid]" r1] Suc.prems o1 by simp
qed auto

lemma gen_repeat_valid:
  assumes b: "gen_ok (Grammar g) b" and s: "sound_schema (Grammar g)" and g: "0 \<le> DefaultRepeatMax g" "DefaultRepeatMax g < 2 ^ 31"
    and t: "bounded t" "Schema_Lookup (Grammar g) (Elem t) \<noteq> None" and out: "gen_repeat b g t name depth r = Some out"
  shows "\<exists>n r'. out = Inr (n, r') \<and> valid n"
proof -
  obtain elem where e: "Schema_Lookup (Grammar g) (Elem t) = Some elem" using t(2) by blast
  obtain c r1 where c: "repeatCount g t depth r = Some (c, r1)" "sMin t \<le> c" "sMax t = 0 \<or> c \<le> sMax t"
    using repeatCount_range [OF t(1) g, of depth r] by (auto elim!: okE)
  have c0: "0 \<le> c" using c(2) t(1) by (simp add: bounded_def)
  let ?h = "(alloc KindRepeat name)\<lparr>MinLen := to_int32 (sMin t), MaxLen := to_int32 (sMax t)\<rparr>"
  obtain o1 where o1: "gen_elems b elem (Elem t) (nat c) [] (depth + 1) r1 = Some o1" "out = map_sum id (apfst (Node ?h)) o1"
    using out e c c0 by (auto simp: gen_repeat_def Let_def)
  obtain kids r2 where "o1 = Inr (kids, r2)" "list_all valid kids" "length kids = nat c"
    using gen_elems_valid [OF b sound_Lookup [OF s e] o1(1)] by auto
  then show ?thesis using o1(2) c c0 t(1) bounded_int32 [OF t(1)] by (auto simp: check_simps FitsLen_def IsLeaf_def bounded_def)
qed

lemma gen_choice_valid:
  assumes "gen_ok s b" and "fs \<noteq> []" "length fs < 2 ^ 31" "sound_fields s fs" and out: "gen_choice b fs name depth r = Some out"
  shows "\<exists>n r'. out = Inr (n, r') \<and> valid n"
proof -
  obtain o1 where o1: "gen_fields b fs [] (depth + 1) r = Some o1" using out by (auto simp: gen_choice_def split: option.splits)
  obtain kids r1 where k: "o1 = Inr (kids, r1)" "list_all valid kids" "length kids = length fs"
    using gen_fields_valid [OF assms(1) o1 assms(4)] by auto
  obtain i r2 where i: "Intn (int (length fs)) r1 = Some (i, r2)" "0 \<le> i" "i < int (length fs)"
    using Intn_ex [of "int (length fs)" r1] assms(2,3) by auto
  then have "to_int32 i = i" using assms(3) by simp
  then show ?thesis using out o1 k i assms(2) by (auto simp: gen_choice_def check_simps FitsLen_def IsLeaf_def)
qed

lemma gen_opt_valid:
  assumes b: "gen_ok (Grammar g) b" and s: "sound_schema (Grammar g)" and t: "Schema_Lookup (Grammar g) (Elem t) \<noteq> None"
    and out: "gen_opt b g t name depth r = Some out"
  shows "\<exists>n r'. out = Inr (n, r') \<and> valid n"
proof -
  obtain elem where e: "Schema_Lookup (Grammar g) (Elem t) = Some elem" using t by blast
  obtain o1 where o1: "b elem (Elem t) (depth + 1) r = Some o1" using out e by (auto simp: gen_opt_def split: option.splits)
  obtain kid r1 where k: "o1 = Inr (kid, r1)" "valid kid" using gen_okD [OF b o1 sound_Lookup [OF s e]] by blast
  obtain p r2 where "(if int depth < MaxDepth g then Chance (OptionalChance g) r1 else (False, r1)) = (p, r2)" by (meson surj_pair)
  then show ?thesis using out e o1 k by (auto simp: gen_opt_def check_simps FitsLen_def IsLeaf_def)
qed

lemma gen_build_valid:
  assumes s: "sound_schema (Grammar g)" and g: "0 \<le> DefaultRepeatMax g" "DefaultRepeatMax g < 2 ^ 31"
  shows "gen_ok (Grammar g) (gen_build k g)"
proof (induction k)
  case 0
  then show ?case by (simp add: gen_ok_def)
next
  case (Suc k)
  show ?case unfolding gen_ok_def
  proof (intro allI impI)
    fix t name depth r out
    assume snd: "sound_type (Grammar g) t" and d: "gen_build (Suc k) g t name depth r = Some out"
    obtain i fs where t: "t = SType i fs" by (cases t)
    show "\<exists>n r'. out = Inr (n, r') \<and> valid n"
    proof (cases "sKind i")
      case SKindInt
      then show ?thesis using d snd t gen_int_valid [of i name r] by auto
    next
      case SKindBytes
      then show ?thesis using d snd t gen_bytes_valid [of i g name r] by auto
    next
      case SKindStr
      then show ?thesis using d snd t gen_bytes_valid [of i g name r] by auto
    next
      case SKindStruct
      then obtain o1 where o1: "gen_fields (gen_build k g) fs [] (depth + 1) r = Some o1" "out = map_sum id (apfst (Node (alloc KindStruct name))) o1"
        using d t by (auto simp: Let_def)
      obtain kids r1 where "o1 = Inr (kids, r1)" "list_all valid kids" using gen_fields_valid [OF Suc o1(1)] snd t SKindStruct by auto
      then show ?thesis using o1(2) by (auto simp: check_simps FitsLen_def IsLeaf_def)
    next
      case SKindRepeat
      then show ?thesis using gen_repeat_valid [OF Suc s g, of i name depth r out] d snd t by (simp add: Let_def)
    next
      case SKindChoice
      then show ?thesis using gen_choice_valid [OF Suc, of fs name depth r out] d snd t by (simp add: Let_def)
    next
      case SKindOpt
      then show ?thesis using gen_opt_valid [OF Suc s, of i name depth r out] d snd t by (simp add: Let_def)
    next
      case SKindRef
      then obtain u where u: "Schema_Lookup (Grammar g) (sTarget i) = Some u" using snd t by auto
      then show ?thesis using gen_okD [OF Suc _ sound_Lookup [OF s u]] d t SKindRef by (simp add: Let_def)
    qed (use snd t in simp)
  qed
qed

section \<open>Generation comes back\<close>

text \<open>The references a type expands whatever the draws: through an option, and through a sequence that must have
  an element.\<close>

fun expands :: "stype \<Rightarrow> string list" and field_expands :: "sfield list \<Rightarrow> string list" where
  "expands (SType t fs) =
     (if sKind t = SKindRef then [sTarget t]
      else if sKind t = SKindOpt then [Elem t]
      else if sKind t = SKindRepeat then (if sMin t > 0 then [Elem t] else [])
      else if sKind t = SKindStruct \<or> sKind t = SKindChoice then field_expands fs
      else [])"
| "field_expands [] = []"
| "field_expands (SField name t d # fs) = expands t @ field_expands fs"

definition expanded :: "schema \<Rightarrow> (string \<times> string) set" where
  "expanded s = {(a, b). \<exists>t. Schema_Lookup s a = Some t \<and> b \<in> set (expands t)}"













section \<open>Generation that never comes back\<close>

text \<open>The names from which expanding runs into a cycle.\<close>

definition endless :: "schema \<Rightarrow> string \<Rightarrow> bool" where
  "endless s x \<longleftrightarrow> (\<exists>y. (x, y) \<in> (expanded s)\<^sup>* \<and> (y, y) \<in> (expanded s)\<^sup>+)"

lemma endless_step:
  assumes "endless s x"
  shows "\<exists>t. Schema_Lookup s x = Some t \<and> (\<exists>z \<in> set (expands t). endless s z)"
proof -
  from assms obtain y where y: "(x, y) \<in> (expanded s)\<^sup>*" "(y, y) \<in> (expanded s)\<^sup>+" by (auto simp: endless_def)
  then have "(x, y) \<in> (expanded s)\<^sup>+" by simp
  then obtain z where "(x, z) \<in> expanded s" "(z, y) \<in> (expanded s)\<^sup>*" by (meson tranclD)
  then show ?thesis using y(2) by (auto simp: expanded_def endless_def)
qed

lemma expands_field: "z \<in> set (field_expands fs) \<Longrightarrow> \<exists>f \<in> set fs. z \<in> set (expands (fieldType f))"
proof (induction fs)
  case (Cons f fs)
  then show ?case by (cases f) auto
qed simp

lemma sound_field: "sound_fields s fs \<Longrightarrow> f \<in> set fs \<Longrightarrow>
    sound_type s (fieldType f) \<and> (fieldDerive f \<noteq> None \<longrightarrow> sKind (sinfo (fieldType f)) = SKindInt)"
  by (induction fs) (auto simp: sound_Cons)

text \<open>One field that does not come back is enough: the ones before it are built, none of them refuses.\<close>

lemma gen_fields_None:
  assumes "gen_ok s b" and "sound_fields s fs" and "f \<in> set fs" and "fieldDerive f = None"
    and "\<And>name r. b (fieldType f) name depth r = None"
  shows "gen_fields b fs kids depth r = None"
  using assms(2,3)
proof (induction fs arbitrary: kids r)
  case (Cons e fs)
  show ?case
  proof (cases "gen_field b e depth r")
    case (Some out)
    with gen_field_valid [OF assms(1) Some Cons.prems(1)] obtain n r' where "out = Inr (n, r')" by blast
    moreover have "e \<noteq> f" using Some assms(4,5) by (auto simp: gen_field_def)
    ultimately show ?thesis using Some Cons by (auto simp: sound_Cons)
  qed simp
qed simp

lemma gen_build_None:
  assumes s: "sound_schema (Grammar g)" and g: "0 \<le> DefaultRepeatMax g" "DefaultRepeatMax g < 2 ^ 31"
  shows "sound_type (Grammar g) t \<Longrightarrow> \<exists>z \<in> set (expands t). endless (Grammar g) z \<Longrightarrow> gen_build k g t name depth r = None"
proof (induction k arbitrary: t name depth r)
  case (Suc k)
  obtain i fs where t: "t = SType i fs" by (cases t)
  from Suc.prems(2) obtain z where z: "z \<in> set (expands t)" "endless (Grammar g) z" by blast
  from endless_step [OF z(2)] obtain u where u: "Schema_Lookup (Grammar g) z = Some u" "\<exists>z \<in> set (expands u). endless (Grammar g) z" by blast
  have b: "gen_build k g u nm d r = None" for nm d r
    using Suc.IH [OF sound_Lookup [OF s u(1)] u(2)] .
  have members: "gen_fields (gen_build k g) fs kids d r = None"
    if "sound_fields (Grammar g) fs" "z \<in> set (field_expands fs)" for kids d r
  proof -
    from expands_field [OF that(2)] obtain f where f: "f \<in> set fs" "z \<in> set (expands (fieldType f))" by blast
    from sound_field [OF that(1) f(1)] have snd: "sound_type (Grammar g) (fieldType f)"
      "fieldDerive f \<noteq> None \<longrightarrow> sKind (sinfo (fieldType f)) = SKindInt" by auto
    then have "fieldDerive f = None" using f(2) by (cases "fieldType f") (auto split: if_splits)
    moreover have "gen_build k g (fieldType f) nm d r = None" for nm d r
      using Suc.IH [OF snd(1)] f(2) z(2) by blast
    ultimately show ?thesis using gen_fields_None [OF gen_build_valid [OF s g] that(1) f(1)] by blast
  qed
  from z(1) consider "sKind i = SKindRef" "z = sTarget i" | "sKind i = SKindOpt" "z = Elem i"
    | "sKind i = SKindRepeat" "z = Elem i" "0 < sMin i"
    | "sKind i = SKindStruct" "z \<in> set (field_expands fs)" | "sKind i = SKindChoice" "z \<in> set (field_expands fs)"
    by (auto simp: t split: if_splits)
  then show ?case
  proof cases
    case 3
    have "bounded i" using Suc.prems(1) 3(1) by (simp add: t)
    then obtain n r' where c: "repeatCount g i depth r = Some (n, r')" "sMin i \<le> n"
      using repeatCount_range [OF _ g, of i depth r] by (auto elim!: okE)
    then obtain m where "nat n = Suc m" using 3(3) by (cases "nat n") auto
    then show ?thesis using 3 c u(1) b by (simp add: t gen_repeat_def Let_def)
  qed (use u(1) b members Suc.prems(1) in \<open>simp_all add: t gen_opt_def gen_choice_def Let_def\<close>)
qed simp

text \<open>C38. Whenever expanding the root of such a grammar runs into a type that expands into itself, through
  references, options and sequences that must have an element, generation never comes back, whatever is
  drawn and whatever the limits on depth: no amount of fuel gives a result.\<close>

theorem Generate_never_returns:
  assumes "sound_schema (Grammar g)" and "Schema_Lookup (Grammar g) (Root (Grammar g)) = Some t"
    and "0 \<le> DefaultRepeatMax g" and "DefaultRepeatMax g < 2 ^ 31"
    and "(Root (Grammar g), x) \<in> (expanded (Grammar g))\<^sup>*" and "(x, x) \<in> (expanded (Grammar g))\<^sup>+"
  shows "Generate k chk g r = None"
proof -
  have "endless (Grammar g) (Root (Grammar g))" using assms(5,6) by (auto simp: endless_def)
  then have "\<exists>z \<in> set (expands t). endless (Grammar g) z" using endless_step assms(2) by fastforce
  from gen_build_None [OF assms(1,3,4) sound_Lookup [OF assms(1,2)] this] show ?thesis
    using assms(2) by (simp add: Generate_def)
qed

section \<open>Examples\<close>

text \<open>\<open>format r { next: opt r }\<close> is accepted by the validation, which takes an option for a place where generation
  can stop; but the child of an option is built before its presence is drawn.\<close>

definition ex_option :: schema where
  "ex_option = \<lparr>Root = ''r'', Types = [(''r'', SType (field_info SKindStruct)
     [SField ''next'' (SType ((field_info SKindOpt)\<lparr>Elem := ''r''\<rparr>) []) None])]\<rparr>"

lemma ex_option_type: "Schema_Lookup ex_option ''r'' = Some (SType (field_info SKindStruct)
     [SField ''next'' (SType ((field_info SKindOpt)\<lparr>Elem := ''r''\<rparr>) []) None])"
  by (simp add: ex_option_def Schema_Lookup_def)

theorem Generate_never_returns_witness:
  "Schema_Validate ex_option = Some None \<and> (\<forall>k r. Generate k ex_chk (Generator_New ex_option) r = None)"
proof -
  have v: "Schema_Validate ex_option = Some None" and s: "sound_schema ex_option" by code_simp+
  have e: "(''r'', ''r'') \<in> expanded ex_option"
    by (auto simp: expanded_def ex_option_type field_info_def)
  have root: "Root ex_option = ''r''" by (simp add: ex_option_def)
  have "Generate k ex_chk (Generator_New ex_option) r = None" for k r
    by (rule Generate_never_returns [where x = "''r''"]) (use s e root ex_option_type in \<open>auto simp: Generator_New_def\<close>)
  with v show ?thesis by blast
qed


end
