(* ===== verification/Codec_Formats.thy ===== *)
theory Codec_Formats
  imports Codec_Schema Complex_Main "HOL-Library.Sublist"
begin

text \<open>
  The codecs that know their format, \<open>pkg/codec/raw.go\<close>, \<open>session.go\<close> and \<open>png.go\<close>, and the measure of what a
  decoder did not understand in \<open>codec.go\<close>. What every codec promises, that encoding its tree gives the input back,
  is a locale; each of the three is an instance. The registry of codecs by name is left out.
\<close>

section \<open>The contract of a codec\<close>

locale codec =
  fixes decode :: "byte list \<Rightarrow> node"
  assumes decode_keeps: "Encode (decode src) = src"
begin

lemma decode_length: "EncodedLen (decode src) = length src"
  using decode_keeps [of src] length_Encode [of "decode src"] by simp

text \<open>Two inputs are never given the same tree.\<close>

lemma decode_inject: "decode a = decode b \<longleftrightarrow> a = b"
  by (metis decode_keeps)

end

section \<open>What was not understood\<close>

definition IsOpaque :: "node \<Rightarrow> bool" where
  "IsOpaque n \<longleftrightarrow> Name (hdr n) = OpaqueName"

definition UnparsedBytes :: "node \<Rightarrow> nat" where
  "UnparsedBytes n = Walk (\<lambda>x total. if IsOpaque x then (False, total + EncodedLen x) else (True, total)) n 0"

definition StructuredFraction :: "node \<Rightarrow> rat" where
  "StructuredFraction n =
     (let total = EncodedLen n in if total = 0 then 1 else (of_nat total - of_nat (UnparsedBytes n)) / of_nat total)"

fun unparsed :: "node \<Rightarrow> nat" where
  "unparsed (Node h cs) = (if Name h = OpaqueName then EncodedLen (Node h cs) else sum_list (map unparsed cs))"

lemma Walk_unparsed:
  "Walk (\<lambda>x total. if IsOpaque x then (False, total + EncodedLen x) else (True, total)) n k = k + unparsed n"
proof (induction n arbitrary: k)
  case (Node h cs)
  have "fold (Walk (\<lambda>x total. if IsOpaque x then (False, total + EncodedLen x) else (True, total))) cs k = k + sum_list (map unparsed cs)" for k
    using Node by (induction cs arbitrary: k) auto
  then show ?case by (simp add: IsOpaque_def)
qed

lemma UnparsedBytes_unparsed: "UnparsedBytes n = unparsed n"
  by (simp add: UnparsedBytes_def Walk_unparsed)

section \<open>Raw\<close>

definition Raw_Decode :: "byte list \<Rightarrow> node" where
  "Raw_Decode src = Node ((alloc KindBytes ''data'')\<lparr>Raw := src\<rparr>) []"

interpretation raw: codec Raw_Decode
  by unfold_locales (simp add: Raw_Decode_def Encode_Node)

section \<open>Sessions\<close>

definition delim :: "byte list \<Rightarrow> byte list" where
  "delim d = (if d = [] then [10] else d)"

text \<open>\<open>bytes.Index\<close>: the first place a word stands.\<close>

fun index_of :: "byte list \<Rightarrow> byte list \<Rightarrow> nat option" where
  "index_of d [] = (if d = [] then Some 0 else None)"
| "index_of d (b # bs) = (if prefix d (b # bs) then Some 0 else map_option Suc (index_of d bs))"

lemma delim_nonempty [simp]: "delim d \<noteq> []"
  by (simp add: delim_def)

lemma index_of_Some: "index_of d bs = Some i \<Longrightarrow> i + length d \<le> length bs \<and> take (length d) (drop i bs) = d"
proof (induction d bs arbitrary: i rule: index_of.induct)
  case (2 d b bs)
  show ?case
  proof (cases "prefix d (b # bs)")
    case True
    then have "length d \<le> length (b # bs)" by (rule prefix_length_le)
    moreover have "take (length d) (b # bs) = d" using True by (metis append_eq_conv_conj prefix_def)
    ultimately show ?thesis using True 2(2) by simp
  next
    case False
    then show ?thesis using 2 by auto
  qed
qed (simp split: if_splits)

function messages :: "byte list \<Rightarrow> byte list \<Rightarrow> byte list list" where
  "messages d rest =
     (if rest = [] then []
      else case index_of (delim d) rest of
             None \<Rightarrow> [rest]
           | Some i \<Rightarrow> take (i + length (delim d)) rest # messages d (drop (i + length (delim d)) rest))"
  by pat_completeness auto
termination
  by (relation "measure (length \<circ> snd)") (auto simp: delim_def)

declare messages.simps [simp del]

definition Session_Decode :: "byte list \<Rightarrow> byte list \<Rightarrow> node" where
  "Session_Decode d src =
     Node (alloc KindRepeat ''session'') (map (\<lambda>msg. Node ((alloc KindBytes ''message'')\<lparr>Raw := msg\<rparr>) []) (messages d src))"

lemma messages_concat: "concat (messages d rest) = rest"
proof (induction d rest rule: messages.induct)
  case (1 d rest)
  then show ?case by (subst messages.simps) (auto split: option.split)
qed

lemma Session_Decode_keeps: "Encode (Session_Decode d src) = src"
  by (simp add: Session_Decode_def Encode_Node o_def messages_concat)

interpretation session: codec "Session_Decode d" for d
  by unfold_locales (rule Session_Decode_keeps)

section \<open>PNG\<close>

definition pngSignature :: "byte list" where
  "pngSignature = [0x89, 0x50, 0x4E, 0x47, 0x0d, 0x0a, 0x1a, 0x0a]"

definition pngChunkOverhead :: nat where "pngChunkOverhead = 12"

definition no_ref :: nref where
  "no_ref = \<lparr>Self = False, Absolute = False, Up = 0, Steps = []\<rparr>"

definition pngLengthDerivation :: derivation where
  "pngLengthDerivation = \<lparr>dKind = DeriveLength, From = Sibling ''data'', To = no_ref, Algo = [], SelfZero = False, Addend = 0\<rparr>"

definition pngCRCDerivation :: derivation where
  "pngCRCDerivation = \<lparr>dKind = DeriveChecksum, From = Sibling ''type'', To = Sibling ''data'', Algo = ''crc32'',
     SelfZero = False, Addend = 0\<rparr>"

text \<open>\<open>binary.BigEndian.Uint32\<close> of the four bytes at a position.\<close>

definition be32 :: "byte list \<Rightarrow> nat \<Rightarrow> nat" where
  "be32 src pos = unat (beUint (take_at src pos 4))"

function scanPNGChunks :: "byte list \<Rightarrow> nat \<Rightarrow> nat" where
  "scanPNGChunks src pos =
     (if pos + pngChunkOverhead > length src then pos
      else let after = pos + pngChunkOverhead + be32 src pos
           in if after > length src then pos else scanPNGChunks src after)"
  by pat_completeness auto
termination
  by (relation "measure (\<lambda>(src, pos). length src - pos)") (auto simp: pngChunkOverhead_def)

declare scanPNGChunks.simps [simp del]

definition decodePNGChunk :: "byte list \<Rightarrow> node" where
  "decodePNGChunk b =
     (let size = length b - pngChunkOverhead
      in Node (alloc KindStruct ''chunk'')
           [Node ((alloc KindDerived ''length'')\<lparr>Width := 4, Endian := BigEndian, Val := beUint (take_at b 0 4),
                Derive := Some pngLengthDerivation\<rparr>) [],
            Node ((alloc KindBytes ''type'')\<lparr>Raw := take_at b 4 4, MinLen := 4, MaxLen := 4\<rparr>) [],
            Node ((alloc KindBytes ''data'')\<lparr>Raw := take_at b 8 size\<rparr>) [],
            Node ((alloc KindDerived ''crc'')\<lparr>Width := 4, Endian := BigEndian, Val := beUint (take_at b (8 + size) 4),
                Derive := Some pngCRCDerivation\<rparr>) []])"

text \<open>The loop over the chunks up to the end the scan found.\<close>

function png_chunks :: "byte list \<Rightarrow> nat \<Rightarrow> nat \<Rightarrow> node list" where
  "png_chunks src after pos =
     (if pos < after then
        (let size = be32 src pos
         in decodePNGChunk (take_at src pos (pngChunkOverhead + size)) # png_chunks src after (pos + (pngChunkOverhead + size)))
      else [])"
  by pat_completeness auto
termination
  by (relation "measure (\<lambda>(src, after, pos). after - pos)") (auto simp: pngChunkOverhead_def)

declare png_chunks.simps [simp del]

definition PNG_Decode :: "byte list \<Rightarrow> node" where
  "PNG_Decode src =
     Node (alloc KindStruct ''png'')
       (if length src < length pngSignature \<or> take (length pngSignature) src \<noteq> pngSignature then [Opaque src]
        else let sig = Node (SetImmutable True ((alloc KindBytes ''signature'')
                         \<lparr>Raw := take (length pngSignature) src, MinLen := int (length pngSignature), MaxLen := int (length pngSignature)\<rparr>)) [];
                 after = scanPNGChunks src (length pngSignature);
                 chunks = Node (alloc KindRepeat ''chunks'') (png_chunks src after (length pngSignature))
             in if after < length src then [sig, chunks, Opaque (drop after src)] else [sig, chunks])"

text \<open>The length of what the scan walks over, chunk by chunk.\<close>

inductive whole_chunks :: "byte list \<Rightarrow> nat \<Rightarrow> nat \<Rightarrow> bool" for src where
  whole_end: "pos \<le> length src \<Longrightarrow> whole_chunks src pos pos"
| whole_next: "pos + pngChunkOverhead + be32 src pos \<le> length src \<Longrightarrow> whole_chunks src (pos + pngChunkOverhead + be32 src pos) after \<Longrightarrow>
    whole_chunks src pos after"

lemma whole_le: "whole_chunks src pos after \<Longrightarrow> pos \<le> after \<and> after \<le> length src"
  by (induction rule: whole_chunks.induct) auto

lemma scan_whole: "pos \<le> length src \<Longrightarrow> whole_chunks src pos (scanPNGChunks src pos)"
proof (induction src pos rule: scanPNGChunks.induct)
  case (1 src pos)
  show ?case
  proof (cases "pos + pngChunkOverhead + be32 src pos \<le> length src")
    case True
    then show ?thesis using 1(1) by (subst scanPNGChunks.simps) (auto simp: Let_def intro: whole_next)
  next
    case False
    then have "scanPNGChunks src pos = pos" by (subst scanPNGChunks.simps) (auto simp: Let_def)
    then show ?thesis using 1(2) by (simp add: whole_end)
  qed
qed

lemma scan_stops: "let after = scanPNGChunks src pos in after + pngChunkOverhead + be32 src after > length src"
proof (induction src pos rule: scanPNGChunks.induct)
  case (1 src pos)
  show ?case
  proof (cases "pos + pngChunkOverhead + be32 src pos \<le> length src")
    case True
    then show ?thesis using 1 by (subst (1) scanPNGChunks.simps) (auto simp: Let_def)
  next
    case False
    then have "scanPNGChunks src pos = pos" by (subst scanPNGChunks.simps) (auto simp: Let_def)
    then show ?thesis using False by simp
  qed
qed

lemma be32_bytes: "length b = 4 \<Longrightarrow> int_bytes (beUint b) 4 BigEndian = b"
  using readInt_bytes [of b 4 BigEndian False] by (simp add: readInt_def)

lemma chunk_split:
  assumes "pngChunkOverhead \<le> length b"
  shows "b = take_at b 0 4 @ take_at b 4 4 @ take_at b 8 (length b - 12) @ take_at b (8 + (length b - 12)) 4"
proof -
  have t: "drop i b = take_at b i n @ drop (i + n) b" for i n
    using append_take_drop_id [of n "drop i b"] by (simp add: take_at_def add.commute)
  have "b = drop 0 b" by simp
  also have "\<dots> = take_at b 0 4 @ take_at b 4 4 @ take_at b 8 (length b - 12) @ drop (8 + (length b - 12)) b"
    using t [of 0 4] t [of 4 4] t [of 8 "length b - 12"] by simp
  also have "drop (8 + (length b - 12)) b = take_at b (8 + (length b - 12)) 4"
    using assms by (simp add: take_at_def pngChunkOverhead_def)
  finally show ?thesis .
qed

lemma decodePNGChunk_keeps:
  assumes "pngChunkOverhead \<le> length b"
  shows "Encode (decodePNGChunk b) = b \<and> valid (decodePNGChunk b) \<and> unparsed (decodePNGChunk b) = 0"
proof -
  have "length (take_at b 0 4) = 4" "length (take_at b 4 4) = 4" "length (take_at b (8 + (length b - 12)) 4) = 4"
    using assms by (simp_all add: take_at_def pngChunkOverhead_def)
  then show ?thesis using chunk_split [OF assms] be32_bytes
    by (auto simp: decodePNGChunk_def Let_def Encode_Node pngChunkOverhead_def check_simps FitsLen_def IsLeaf_def OpaqueName_def)
qed

lemma png_chunks_keep:
  "whole_chunks src pos after \<Longrightarrow>
     concat (map Encode (png_chunks src after pos)) = take_at src pos (after - pos) \<and>
     list_all valid (png_chunks src after pos) \<and> sum_list (map unparsed (png_chunks src after pos)) = 0"
proof (induction rule: whole_chunks.induct)
  case (whole_end pos)
  then show ?case by (simp add: png_chunks.simps take_at_def)
next
  case (whole_next pos after)
  let ?n = "pngChunkOverhead + be32 src pos"
  have le: "pos + ?n \<le> after" using whole_le [OF whole_next(2)] by simp
  have "take_at src pos (after - pos) = take_at src pos ?n @ take_at src (pos + ?n) (after - (pos + ?n))"
    using le take_add [of ?n "after - (pos + ?n)" "drop pos src"] by (simp add: take_at_def add.commute)
  moreover have "pos < after" using le by (simp add: pngChunkOverhead_def)
  moreover have "length (take_at src pos ?n) = ?n" using whole_next(1) by (simp add: take_at_def)
  moreover from this have "pngChunkOverhead \<le> length (take_at src pos ?n)" by simp
  ultimately show ?case using whole_next(3) decodePNGChunk_keeps [of "take_at src pos ?n"]
    by (subst (1 2 3) png_chunks.simps) (simp add: Let_def add.assoc)
qed

lemma Raw_SetImmutable [simp]: "Raw (SetImmutable v h) = Raw h" "Name (SetImmutable v h) = Name h"
  by (simp_all add: SetImmutable_def)

lemma PNG_Decode_cases:
  obtains (opaque) "\<not> prefix pngSignature src" "PNG_Decode src = Node (alloc KindStruct ''png'') [Opaque src]"
  | (chunks) after where "prefix pngSignature src" "after = scanPNGChunks src 8" "whole_chunks src 8 after"
      "length src < after + pngChunkOverhead + be32 src after"
      "PNG_Decode src = Node (alloc KindStruct ''png'')
         ([Node (SetImmutable True ((alloc KindBytes ''signature'')\<lparr>Raw := pngSignature, MinLen := 8, MaxLen := 8\<rparr>)) [],
           Node (alloc KindRepeat ''chunks'') (png_chunks src after 8)] @ (if after < length src then [Opaque (drop after src)] else []))"
proof (cases "prefix pngSignature src")
  case True
  have l: "length pngSignature = 8" by (simp add: pngSignature_def)
  have "8 \<le> length src" "take 8 src = pngSignature" using True l by (metis prefix_length_le, metis append_eq_conv_conj prefix_def)
  then show thesis using chunks [OF True refl scan_whole] scan_stops [of src 8] l by (simp add: PNG_Decode_def Let_def)
next
  case False
  then have "length src < length pngSignature \<or> take (length pngSignature) src \<noteq> pngSignature"
    by (metis take_is_prefix)
  then show thesis using opaque False by (auto simp: PNG_Decode_def)
qed

lemma PNG_Decode_encodes: "Encode (PNG_Decode src) = src"
proof (cases src rule: PNG_Decode_cases)
  case opaque
  then show ?thesis by (simp add: Opaque_def Encode_Node)
next
  case (chunks after)
  have le: "8 \<le> after" "after \<le> length src" using whole_le [OF chunks(3)] by simp_all
  have "take 8 src = pngSignature" using chunks(1) by (auto simp: prefix_def pngSignature_def)
  moreover have "take 8 src @ take_at src 8 (after - 8) @ drop after src = src"
    using le append_take_drop_id [of "after - 8" "drop 8 src"] by (simp add: take_at_def)
  ultimately have "pngSignature @ concat (map Encode (png_chunks src after 8)) @ drop after src = src"
    using png_chunks_keep [OF chunks(3)] by simp
  then show ?thesis using le unfolding chunks(5) by (auto simp: Encode_Node Opaque_def)
qed

interpretation png: codec PNG_Decode
  by unfold_locales (rule PNG_Decode_encodes)

text \<open>C40. Decoding a PNG gives a valid tree whose encoding is the input, whatever the input; behind a signature the
  unparsed bytes are those after the last chunk that is wholly present, and no further chunk is.\<close>

theorem PNG_Decode_keeps:
  "Encode (PNG_Decode src) = src \<and> valid (PNG_Decode src) \<and>
   (if prefix pngSignature src
    then \<exists>after. whole_chunks src 8 after \<and> length src < after + pngChunkOverhead + be32 src after \<and>
           UnparsedBytes (PNG_Decode src) = length src - after
    else UnparsedBytes (PNG_Decode src) = length src)"
proof (cases src rule: PNG_Decode_cases)
  case opaque
  then show ?thesis by (simp add: Opaque_def Encode_Node check_simps FitsLen_def IsLeaf_def UnparsedBytes_unparsed flip: length_Encode)
next
  case (chunks after)
  note k = png_chunks_keep [OF chunks(3)]
  have le: "8 \<le> after" "after \<le> length src" using whole_le [OF chunks(3)] by simp_all
  note e = PNG_Decode_encodes [of src]
  have z: "sum_list (map unparsed (png_chunks src after 8)) = 0" using k by blast
  have v: "valid (PNG_Decode src)" using k unfolding chunks(5)
    by (auto simp: Opaque_def check_simps FitsLen_def IsLeaf_def pngSignature_def)
  have "EncodedLen (Opaque bs) = length bs" for bs by (simp add: Opaque_def Encode_Node flip: length_Encode)
  moreover have "unparsed (Opaque bs) = EncodedLen (Opaque bs)" for bs by (simp add: Opaque_def)
  ultimately have "UnparsedBytes (PNG_Decode src) = length src - after"
    using le z unfolding UnparsedBytes_unparsed chunks(5) by (simp del: sum_list_eq_0_iff add: OpaqueName_def)
  then show ?thesis using e v chunks(1,3,4) by auto
qed

end
