(* ===== verification/Spec2Isabelle.thy ===== *)
theory Spec2Isabelle
  imports Prelude Rng IR_Fixed IR_Clone Mutate_Sched Corpus_Distill Triage_Minimize State_Sched Learn_Budget VT_Fresh VT_Print Safety_Scope Store_Audit Triage_Structured Generate Codec_Formats
begin

text \<open>
  A verification development for a coverage- and state-guided fuzzer written in Go. The program takes
  inputs apart into trees, changes the trees with mutation operators chosen by a scheduler, writes
  them back to bytes with lengths, counts and checksums made right, runs a target on the bytes, asks a
  stack of feedbacks whether the run was worth keeping, and keeps what was in a corpus; a run that
  fails is classified, verified, minimised and put in a bucket. For a target that speaks a protocol an
  input is a session of messages, and a model of the states the target goes through guides
  the choice of entry and message; the states can also be learned in advance by asking.

  \<^bold>\<open>How Go is read.\<close> A struct is a record, an interface with a closed set of
  implementations a datatype, an unsigned integer a word of its width. Go's \<open>int\<close> is a HOL
  integer that goes through \<open>to_int64\<close> where it can leave 64 bits; counters that
  would take centuries to overflow are plain numbers, and the theory says so. A function that can
  panic is a function into \<open>option\<close>, where \<open>None\<close> is the panic; one that returns an
  error is a function into a sum. Errors keep their kind and not their wording. A method that changes
  its receiver takes the receiver and returns the changed one. Sharing of nodes between trees,
  which the copy-on-write code depends on, is the flag \<open>shared\<close> the code itself keeps. Go
  maps whose iteration order does not matter are association lists with distinct keys, or
  partial functions. Floating point probabilities are the rationals the doubles denote.

  \<^bold>\<open>Theories and files.\<close>
  \<^item> \<open>Prelude\<close>: machine types, panics and their rules \<open>ok\<close>, slices.
  \<^item> \<open>Rng\<close>: \<open>pkg/rng\<close>, the deterministic random streams every other part draws from.
  \<^item> \<open>IR_Node\<close>, \<open>IR_Shape\<close>, \<open>IR_Encode\<close>, \<open>IR_Checksums\<close>, \<open>IR_Layout\<close>, \<open>IR_Fixup\<close>,
    \<open>IR_Correct\<close>, \<open>IR_Fixed\<close>, \<open>IR_Clone\<close>, \<open>Index_Map\<close>: \<open>pkg/ir\<close>. Nodes, walks and validation
    (\<open>node.go\<close>), references (\<open>ref.go\<close>), encoding (\<open>encode.go\<close>), derived values (\<open>derive.go\<close>), the
    layout and repair passes (\<open>fixup.go\<close>), and copying (\<open>arena.go\<close>).
  \<^item> \<open>Mutate_Base\<close>, \<open>Mutate_Bytes\<close>, \<open>Mutate_Struct\<close>, \<open>Mutate_Splice\<close>, \<open>Mutate_Dict\<close>, \<open>Mutate_Ops\<close>,
    \<open>Mutate_Frame\<close>, \<open>Mutate_Sched\<close>: \<open>pkg/mutate\<close>. The operators on bytes and structure, splicing, the dictionary and its
    parser, and the scheduler with its provenance.
  \<^item> \<open>Corpus\<close>, \<open>Corpus_Distill\<close>: \<open>pkg/corpus\<close>. The corpus and its index, favoured entries, round robin, distillation.
  \<^item> \<open>Feedback_Map\<close>, \<open>Feedback_Stack\<close>: \<open>pkg/feedback\<close>. Coverage maps and counters, the combinators, and the turn the
    engine takes through a stack (\<open>internal/engine/engine.go\<close>).
  \<^item> \<open>Triage_Class\<close>, \<open>Triage_Minimize\<close>, \<open>Triage_Structured\<close>: \<open>internal/triage\<close>. Classes and markers, verification,
    buckets, minimisation of bytes and messages, and minimisation through the tree (\<open>structured.go\<close>).
  \<^item> \<open>State_Label\<close>, \<open>State_Model\<close>, \<open>State_Sched\<close>: \<open>pkg/state\<close>. Labels and normalisation, the observer, the model and its
    feedback, the scheduler, the trace store and the guidance.
  \<^item> \<open>Learn_Mealy\<close>, \<open>Learn_Table\<close>, \<open>Learn_Lstar\<close>, \<open>Learn_Machine\<close>, \<open>Learn_Correct\<close>, \<open>Learn_Budget\<close>: \<open>pkg/learn\<close>. The learner
    and its machine.
  \<^item> \<open>Exec_Session\<close>: \<open>pkg/executor/session.go\<close> and the teacher of \<open>internal/worker/learn.go\<close>.
  \<^item> \<open>VT_Width\<close>, \<open>VT_Screen\<close>, \<open>VT_Term\<close>: \<open>pkg/vt\<close>, the terminal a text interface is fuzzed in. Runes and their columns
    (\<open>width.go\<close>), the screen buffer (\<open>screen.go\<close>), the parser and the modes (\<open>terminal.go\<close>). \<open>VT_Safe\<close>, \<open>VT_Fresh\<close>,
    \<open>VT_Grid\<close> and \<open>VT_Print\<close> hold what is proved of them.
  \<^item> \<open>Safety_Scope\<close>: \<open>internal/safety/scope.go\<close> and \<open>authz.go\<close>. The allowlist, the guard before a connection, and the
    record a campaign that leaves the host must carry.
  \<^item> \<open>Store_Audit\<close>: \<open>internal/store/audit.go\<close>. The audit log, chained by hashes.
  \<^item> \<open>Schema_Type\<close>, \<open>Codec_Schema\<close>, \<open>Codec_Formats\<close>, \<open>Generate\<close>: \<open>pkg/schema/schema.go\<close>, \<open>pkg/codec\<close> and \<open>pkg/generate\<close>.
    Grammars and their validation, decoding by a grammar, the codecs for raw bytes, sessions and PNG, and generation.

  \<^bold>\<open>Interfaces.\<close> Where a part relies on another through a contract, the contract is a locale and the
  part that provides it interprets it on the definitions of the model. The leaves of a feedback stack satisfy
  \<open>leaf_contract\<close>: the coverage map, the state feedback and any mix of the two. The
  target of the learner satisfies \<open>answers\<close> and \<open>quiet_answers\<close>: a program that answers each message with one
  reply does, seen through its labels; the session teacher of the campaign is shown not to be honest to any one
  such target over all states of its session. The mutation operators satisfy \<open>mutators\<close>, which the scheduler relies on. The
  decoders for raw bytes, sessions and PNG satisfy \<open>codec\<close>: the encoding of what they decode is what they were given.

  \<^bold>\<open>What is shown.\<close> Fixup: what the encoded tree holds for every derived node, that the tree changes nowhere
  else, which errors are possible, no panic as long as references climb no negative number of levels. Mutation: every
  operator leaves a valid node of the same kind, without a panic as long as no negative minimum is declared
  (\<open>Validate\<close> checks neither, and both conditions are needed), rounds replay from their provenance, choices are proportional and draws unbiased and
  terminating. Corpus: the index and totals are right whatever was done, distillation loses no feature and is near
  optimal, favoured entries are minimal. Feedback: the implementation refines a set of what has been seen, a stack
  has the truth of its formula and only the leaves that fired learn. Triage: reports count what
  happened, a minimised input still fails and when it is minimal. States: counts are exact, the ranking is the
  stable sort, an aim is honoured by the message chosen. Learning: a machine that is not partial reproduces the
  answers it was built from, the target is never blamed wrongly, the budget holds. Terminal: whatever bytes arrive, at two
  columns or more nothing panics and the grid, the cursor and the region stay in shape; a reset leaves a new terminal,
  from any state of the parser; scrolling does to the rows what it should; text that is printed is read back. Safety: a scope
  accepted without the acknowledgement lets no public IPv4 address through when its networks fix three bits or more (without
  that condition it does, lemma \<open>Validate_misses_everywhere\<close>); nothing leaves the host without a complete record the audit log
  took. Audit: a log verifies however it was written, and two that verify against one head are equal or exhibit a collision of
  the hash. Structured minimisation: it keeps the failure and a valid tree, ends at a fixed point, and does not come back
  when a negative minimum is declared. Grammars: validation decides what it means to, decoding loses no byte, and
  generation comes back with a valid tree when no type expands into itself, and never when the root runs into one that does.

  \<^bold>\<open>What is assumed.\<close> Hashes (SHA-256, checksums by name), the resolver, the dialer, the auditor, the target under
  test and the text \<open>net/netip\<close> writes for a network are parameters. The product of states and letters that bounds the rounds
  of the learner (\<open>maxRounds\<close>) is taken to fit in an \<open>int\<close>. A dialer is the addresses the name resolves to when it
  is dialled. Of the observers of a session only those of other packages can fail, before or after it.

  \<^bold>\<open>Termination and fuel.\<close> Loops whose end is not structural are
  functions with a measure: the rejection loop of a draw ends because the stream is a walk through all 64-bit
  words, greedy distillation chooses an entry in each step, a closing pass adds a row below the
  cap, a learning round is counted against a bound. The halving loop of structured minimisation may not end and is a
  \<open>partial_function\<close>. Three recursions have fuel. Decoding has twice \<open>maxDecodeDepth\<close> and four: declared types are structures
  or are reached by a reference, each level counted by the code takes at most two calls, and running out is shown not to happen. The
  search for unguarded recursion visits at most every type once, and one more than the number of types is enough.
  Generation has no bound in the code; its theorems are over every amount of fuel, that enough of it gives a result, or that none does.

  \<^bold>\<open>Not modelled.\<close> Processes, sockets, files, clocks and system calls, which are parameters where a part
  uses them; concurrency, where the code serialises operations with a lock and each is one step here; printed
  reports; configuration files, the parser of the grammar language and the rendering of grammars; the registry of codecs; the
  drivers of user interfaces, the daemon and its clients, the recorder of traffic, the on-disk store apart from its audit
  log, and the sandbox. Floating point statistics are left out except the probabilities above.
\<close>

end
